(* ===== verification/Prelude.thy ===== *)
theory Prelude
  imports Main "HOL-Library.Word"
begin

unbundle bit_operations_syntax

text \<open>
  Shared vocabulary of the development: the machine types of the Go sources, byte strings
  and their little- and big-endian views (\<^verbatim>\<open>encoding/binary\<close>), slices, wall-clock time and
  the generic list and word lemmas the component theories use. The collection
  \<open>byte_simps\<close> carries the codec proofs, \<open>time_simps\<close> the proofs about durations.
\<close>

named_theorems byte_simps
named_theorems time_simps

section \<open>Machine types\<close>

type_synonym u8 = "8 word"
type_synonym u16 = "16 word"
type_synonym u32 = "32 word"
type_synonym u64 = "64 word"
type_synonym bytes = "u8 list"

section \<open>Slices\<close>

text \<open>\<open>go_slice i j xs\<close> is Go's \<open>xs[i:j]\<close> for \<open>i \<le> j \<le> length xs\<close>; \<open>put_at i ys xs\<close> is
  \<open>copy(xs[i:], ys)\<close>: it overwrites as many bytes as fit.\<close>

definition go_slice :: "nat \<Rightarrow> nat \<Rightarrow> 'a list \<Rightarrow> 'a list" where
  "go_slice i j xs = take (j - i) (drop i xs)"

definition put_at :: "nat \<Rightarrow> 'a list \<Rightarrow> 'a list \<Rightarrow> 'a list" where
  "put_at i ys xs = take i xs @ take (length xs - i) ys @ drop (i + length ys) xs"

lemma length_go_slice [simp]: "j \<le> length xs \<Longrightarrow> length (go_slice i j xs) = j - i"
  by (simp add: go_slice_def)

lemma length_put_at [simp]: "i \<le> length xs \<Longrightarrow> length (put_at i ys xs) = length xs"
  by (auto simp: put_at_def min_def)

lemma slice_append_left [byte_simps]:
  "j \<le> length xs \<Longrightarrow> go_slice i j (xs @ ys) = go_slice i j xs"
  by (cases "i \<le> length xs") (auto simp: go_slice_def)

lemma slice_append_right [byte_simps]:
  "length xs \<le> i \<Longrightarrow> go_slice i j (xs @ ys) = go_slice (i - length xs) (j - length xs) ys"
  by (cases "i \<le> j") (auto simp: go_slice_def)

lemma slice_whole [byte_simps]: "length xs \<le> j \<Longrightarrow> go_slice 0 j xs = xs"
  by (simp add: go_slice_def)

lemma slice_adjacent: "i \<le> j \<Longrightarrow> j \<le> k \<Longrightarrow> go_slice i j xs @ go_slice j k xs = go_slice i k xs"
proof -
  assume ij: "i \<le> j" and jk: "j \<le> k"
  have "take (j - i) (drop i xs) @ take (k - j) (drop (j - i) (drop i xs))
        = take ((j - i) + (k - j)) (drop i xs)"
    by (metis take_add)
  with ij jk show ?thesis by (simp add: go_slice_def)
qed

lemma put_at_slice_same:
  "i + length ys \<le> length xs \<Longrightarrow> go_slice i (i + length ys) (put_at i ys xs) = ys"
  by (simp add: go_slice_def put_at_def)

lemma slice_put_at_before:
  "j \<le> i \<Longrightarrow> i \<le> length xs \<Longrightarrow> go_slice k j (put_at i ys xs) = go_slice k j xs"
  by (cases "k \<le> j") (auto simp: go_slice_def put_at_def drop_take min_def)

lemma take_put_at_before: "j \<le> i \<Longrightarrow> i \<le> length xs \<Longrightarrow> take j (put_at i ys xs) = take j xs"
  by (simp add: put_at_def min_def)

lemma drop_put_at_after:
  "i + length ys \<le> j \<Longrightarrow> j \<le> length xs \<Longrightarrow> drop j (put_at i ys xs) = drop j xs"
proof -
  assume a: "i + length ys \<le> j" "j \<le> length xs"
  have "drop j (put_at i ys xs) = drop (j - (i + length ys)) (drop (i + length ys) xs)"
    using a by (simp add: put_at_def)
  with a show ?thesis by simp
qed

section \<open>Bytes of machine words\<close>

text \<open>\<open>le_bytes n w\<close> is what \<open>PutUint\<close> of \<open>binary.LittleEndian\<close> stores for an
  \<open>8 * n\<close>-bit value, \<open>le_word\<close> what \<open>Uint\<close> reads; the big-endian functions reverse.\<close>

definition le_bytes :: "nat \<Rightarrow> 'a::len word \<Rightarrow> bytes" where
  "le_bytes n w = map (\<lambda>i. ucast (drop_bit (8 * i) w)) [0..<n]"

fun le_word :: "bytes \<Rightarrow> 'a::len word" where
  "le_word [] = 0"
| "le_word (b # bs) = ucast b OR push_bit 8 (le_word bs)"

definition be_bytes :: "nat \<Rightarrow> 'a::len word \<Rightarrow> bytes" where
  "be_bytes n w = rev (le_bytes n w)"

definition be_word :: "bytes \<Rightarrow> 'a::len word" where
  "be_word bs = le_word (rev bs)"

lemma length_le_bytes [simp]: "length (le_bytes n w) = n"
  by (simp add: le_bytes_def)

lemma length_be_bytes [simp]: "length (be_bytes n w) = n"
  by (simp add: be_bytes_def)

lemma bit_le_word:
  "bit (le_word bs :: 'a::len word) n
     \<longleftrightarrow> n < LENGTH('a) \<and> n div 8 < length bs \<and> bit (bs ! (n div 8)) (n mod 8)"
proof (induction bs arbitrary: n)
  case Nil
  then show ?case by simp
next
  case (Cons b bs)
  show ?case
  proof (cases "n < 8")
    case True
    then show ?thesis by (auto simp: bit_simps)
  next
    case False
    then have d: "n div 8 = Suc ((n - 8) div 8)" "n mod 8 = (n - 8) mod 8"
      by (simp_all add: le_div_geq le_mod_geq not_less)
    have nb: "\<not> bit b n" using False bit_imp_le_length by fastforce
    show ?thesis
      using False Cons.IH [of "n - 8"] nb by (auto simp: bit_simps d)
  qed
qed

lemma le_word_le_bytes [byte_simps]:
  "LENGTH('a) \<le> 8 * n \<Longrightarrow> le_word (le_bytes n (w :: 'a::len word)) = w"
proof (rule bit_word_eqI)
  fix k assume n: "LENGTH('a) \<le> 8 * n" and k: "k < LENGTH('a)"
  then have kd: "k div 8 < n" by auto
  then show "bit (le_word (le_bytes n w) :: 'a word) k \<longleftrightarrow> bit w k"
    using k by (simp add: bit_le_word le_bytes_def bit_simps)
qed

lemma le_bytes_le_word [byte_simps]:
  assumes "8 * length bs \<le> LENGTH('a)"
  shows "le_bytes (length bs) (le_word bs :: 'a::len word) = bs"
proof (rule nth_equalityI)
  show "length (le_bytes (length bs) (le_word bs :: 'a word)) = length bs" by simp
next
  fix i assume "i < length (le_bytes (length bs) (le_word bs :: 'a word))"
  then have i: "i < length bs" by simp
  show "le_bytes (length bs) (le_word bs :: 'a word) ! i = bs ! i"
  proof (rule bit_word_eqI)
    fix k assume k: "k < LENGTH(8)"
    then have "(8 * i + k) div 8 = i" "(8 * i + k) mod 8 = k" "8 * i + k < LENGTH('a)"
      using i assms by auto
    then show "bit (le_bytes (length bs) (le_word bs :: 'a word) ! i) k \<longleftrightarrow> bit (bs ! i) k"
      using i k by (simp add: le_bytes_def bit_simps bit_le_word)
  qed
qed

lemma be_word_be_bytes [byte_simps]:
  "LENGTH('a) \<le> 8 * n \<Longrightarrow> be_word (be_bytes n (w :: 'a::len word)) = w"
  by (simp add: be_word_def be_bytes_def le_word_le_bytes)

lemma be_bytes_be_word [byte_simps]:
  "8 * length bs \<le> LENGTH('a) \<Longrightarrow> be_bytes (length bs) (be_word bs :: 'a::len word) = bs"
  using le_bytes_le_word [of "rev bs", where 'a = 'a]
  by (simp add: be_word_def be_bytes_def)

section \<open>Time\<close>

text \<open>
  A \<open>time.Time\<close> is the number of nanoseconds since Go's zero time (1 January of year 1,
  UTC), so \<open>time.Time{}\<close> is \<open>0\<close> and \<open>IsZero\<close> is equality with it. A \<open>time.Duration\<close> is
  an \<open>int64\<close> of nanoseconds; \<open>Time.Sub\<close> and \<open>time.Since\<close> saturate at its bounds.
\<close>

type_synonym gotime = int
type_synonym duration = int

definition second :: duration where
  "second = 1000000000"

definition maxDuration :: duration where
  "maxDuration = 2 ^ 63 - 1"

definition Sub :: "gotime \<Rightarrow> gotime \<Rightarrow> duration" where
  "Sub t u = max (- (2 ^ 63)) (min maxDuration (t - u))"

text \<open>Seconds between Go's zero time and the Unix epoch.\<close>

definition unixToInternal :: int where
  "unixToInternal = 62135596800"

definition Unix :: "gotime \<Rightarrow> int" where
  "Unix t = t div second - unixToInternal"

definition UnixNano :: "gotime \<Rightarrow> int" where
  "UnixNano t = t - unixToInternal * second"

lemma Sub_gt_iff [time_simps]:
  "- (2 ^ 63) \<le> d \<Longrightarrow> d < maxDuration \<Longrightarrow> Sub t u > d \<longleftrightarrow> t - u > d"
  by (auto simp: Sub_def maxDuration_def)

lemma Sub_le_iff [time_simps]:
  "- (2 ^ 63) \<le> d \<Longrightarrow> d < maxDuration \<Longrightarrow> Sub t u \<le> d \<longleftrightarrow> t - u \<le> d"
  by (auto simp: Sub_def maxDuration_def)

lemma Sub_lt_iff [time_simps]:
  "- (2 ^ 63) < d \<Longrightarrow> d \<le> maxDuration \<Longrightarrow> Sub t u < d \<longleftrightarrow> t - u < d"
  by (auto simp: Sub_def maxDuration_def)

lemma Sub_ge_iff [time_simps]:
  "- (2 ^ 63) < d \<Longrightarrow> d \<le> maxDuration \<Longrightarrow> Sub t u \<ge> d \<longleftrightarrow> t - u \<ge> d"
  by (auto simp: Sub_def maxDuration_def)

lemma Sub_exact: "- (2 ^ 63) \<le> t - u \<Longrightarrow> t - u \<le> maxDuration \<Longrightarrow> Sub t u = t - u"
  by (simp add: Sub_def)

section \<open>Signed machine integers\<close>

text \<open>Go's \<open>int64\<close> (and \<open>int\<close> on 64-bit platforms) as an \<open>int\<close> with the wrap-around of its
  arithmetic written out.\<close>

definition wrap64 :: "int \<Rightarrow> int" where
  "wrap64 x = (x + 2 ^ 63) mod 2 ^ 64 - 2 ^ 63"

lemma wrap64_id: "- (2 ^ 63) \<le> x \<Longrightarrow> x < 2 ^ 63 \<Longrightarrow> wrap64 x = x"
  by (simp add: wrap64_def)

section \<open>Generic lemmas\<close>

lemma unat_less_exp: "unat (w :: 'a::len word) < 2 ^ LENGTH('a)"
  by (rule unsigned_less)

lemma unat_ucast_u8_u64 [simp]: "unat (ucast (b :: u8) :: u64) = unat b"
proof -
  have "unat b < 2 ^ 64" using unat_less_exp [of b] by simp
  then show ?thesis by (simp add: unsigned_ucast_eq take_bit_nat_eq_self)
qed

lemma bit_u8_less [dest]: "bit (b :: u8) n \<Longrightarrow> n < 8"
  using bit_imp_le_length by fastforce

lemma bit_u64_less: "bit (b :: u64) n \<Longrightarrow> n < 64"
  using bit_imp_le_length by fastforce

lemma unat_and_mask: "unat ((x :: 'a::len word) AND mask n) = unat x mod 2 ^ n"
  by (metis take_bit_eq_mask take_bit_eq_mod unsigned_take_bit_eq)

lemma unat_drop_bit: "unat (drop_bit n (x :: 'a::len word)) = unat x div 2 ^ n"
proof -
  have "unat (drop_bit n x) = drop_bit n (take_bit LENGTH('a) (unat x))"
    by (rule unsigned_drop_bit_eq)
  also have "take_bit LENGTH('a) (unat x) = unat x"
    by (rule take_bit_nat_eq_self) (rule unsigned_less)
  finally show ?thesis by (simp add: drop_bit_eq_div)
qed

section \<open>Sequences of operations\<close>

text \<open>Running a list of operations, each of which may fail; the first failure ends the run.\<close>

fun run_ops :: "('o \<Rightarrow> 's \<Rightarrow> 's option) \<Rightarrow> 'o list \<Rightarrow> 's \<Rightarrow> 's option" where
  "run_ops step [] s = Some s"
| "run_ops step (r # rs) s = Option.bind (step r s) (run_ops step rs)"

lemma run_ops_refine:
  assumes "\<And>r s. I s \<Longrightarrow> P r \<Longrightarrow> \<exists>s'. step r s = Some s' \<and> I s' \<and> A s' = spec r (A s)"
  shows "I s \<Longrightarrow> list_all P rs \<Longrightarrow> \<exists>s'. run_ops step rs s = Some s' \<and> I s' \<and> A s' = fold spec rs (A s)"
proof (induction rs arbitrary: s)
  case (Cons r rs)
  then obtain s' where "step r s = Some s'" "I s'" "A s' = spec r (A s)"
    using assms by fastforce
  then show ?case using Cons.IH [of s'] Cons.prems by simp
qed simp

section \<open>Results of fallible steps\<close>

text \<open>\<^term>\<open>pred_option P m\<close>: if the step returns, its result satisfies \<open>P\<close>. The rules follow the
  structure of a definition, as weakest preconditions do.\<close>

lemma pred_option_bind:
  "pred_option Q m \<Longrightarrow> (\<And>x. Q x \<Longrightarrow> pred_option P (f x)) \<Longrightarrow> pred_option P (Option.bind m f)"
  by (cases m) auto

lemma pred_option_bind_any: "(\<And>x. pred_option P (f x)) \<Longrightarrow> pred_option P (Option.bind m f)"
  by (cases m) auto

lemma pred_option_bind_pair:
  "pred_option Q m \<Longrightarrow> (\<And>a b. Q (a, b) \<Longrightarrow> pred_option P (f a b)) \<Longrightarrow> pred_option P (Option.bind m (\<lambda>(a, b). f a b))"
  by (cases m) auto

lemma pred_option_bind_any_pair:
  "(\<And>a b. pred_option P (f a b)) \<Longrightarrow> pred_option P (Option.bind m (\<lambda>(a, b). f a b))"
  by (cases m) auto

lemma pred_option_map: "pred_option P (map_option f m) \<longleftrightarrow> pred_option (\<lambda>x. P (f x)) m"
  by (cases m) auto

lemma pred_option_weaken: "pred_option Q m \<Longrightarrow> (\<And>x. Q x \<Longrightarrow> P x) \<Longrightarrow> pred_option P m"
  by (cases m) auto

lemma pred_optionD: "pred_option P m \<Longrightarrow> m = Some x \<Longrightarrow> P x"
  by simp

lemma pred_optionI: "(\<And>x. m = Some x \<Longrightarrow> P x) \<Longrightarrow> pred_option P m"
  by (cases m) auto

end
