(* ===== verification/Replay.thy ===== *)
theory Replay
  imports Prelude
begin

text \<open>
  The anti-replay window of \<^verbatim>\<open>src/replay/replay.go\<close> (RFC 6479): a ring of 128 blocks of 64
  bits. \<open>filter_inv\<close> relates a filter to the set of counters it has accepted;
  \<open>validate_refines\<close> shows that \<open>ValidateCounter\<close> implements the abstract window, and the
  locale \<open>replay_window\<close> carries the consequences for a whole stream of packets.
\<close>

section \<open>The filter\<close>

definition blockBitLog :: nat where "blockBitLog = 6"
definition blockBits :: u64 where "blockBits = 64"
definition ringBlocks :: u64 where "ringBlocks = 128"
definition windowSize :: u64 where "windowSize = (ringBlocks - 1) * blockBits"
definition blockMask :: u64 where "blockMask = ringBlocks - 1"
definition bitMask :: u64 where "bitMask = blockBits - 1"

record Filter =
  flast :: u64
  ring :: "u64 list"

text \<open>The zero value of the struct.\<close>

definition zero_filter :: Filter where
  "zero_filter = \<lparr>flast = 0, ring = replicate 128 0\<rparr>"

definition Reset :: "Filter \<Rightarrow> Filter" where
  "Reset f = f\<lparr>flast := 0, ring := (ring f)[0 := 0]\<rparr>"

text \<open>The loop \<open>for i := current + 1; i <= current+diff; i++\<close>, as \<open>diff\<close> rounds from \<open>i\<close>:
  \<open>current\<close> is below \<open>2 ^ 58\<close> and \<open>diff\<close> at most 128, so \<open>current + diff\<close> does not wrap
  (\<open>clear_loop_guard\<close>).\<close>

fun clear_ring :: "nat \<Rightarrow> u64 \<Rightarrow> u64 list \<Rightarrow> u64 list" where
  "clear_ring 0 i r = r"
| "clear_ring (Suc n) i r = clear_ring n (i + 1) (r[unat (i AND blockMask) := 0])"

text \<open>The tail of \<open>ValidateCounter\<close>: check and set the bit of the counter.\<close>

definition check_and_set :: "Filter \<Rightarrow> u64 \<Rightarrow> bool \<times> Filter" where
  "check_and_set f counter =
    (let indexBlock = unat (drop_bit blockBitLog counter AND blockMask);
         indexBit = unat (counter AND bitMask);
         old = ring f ! indexBlock;
         new = old OR push_bit indexBit 1
     in (old \<noteq> new, f\<lparr>ring := (ring f)[indexBlock := new]\<rparr>))"

definition ValidateCounter :: "Filter \<Rightarrow> u64 \<Rightarrow> u64 \<Rightarrow> bool \<times> Filter" where
  "ValidateCounter f counter limit =
    (if counter \<ge> limit then (False, f)
     else if counter > flast f then
       let indexBlock = drop_bit blockBitLog counter;
           current = drop_bit blockBitLog (flast f);
           diff = indexBlock - current;
           diff = (if diff > ringBlocks then ringBlocks else diff)
       in check_and_set
            (f\<lparr>ring := clear_ring (unat diff) (current + 1) (ring f), flast := counter\<rparr>) counter
     else if flast f - counter > windowSize then (False, f)
     else check_and_set f counter)"

section \<open>Arithmetic of the ring\<close>

lemma unat_blockMask: "unat (i AND blockMask) = unat i mod 128"
proof -
  have "blockMask = mask 7" by (simp add: blockMask_def ringBlocks_def mask_eq_exp_minus_1)
  then show ?thesis using unat_and_mask [of i 7] by (simp only:) simp
qed

lemma unat_bitMask: "unat (i AND bitMask) = unat i mod 64"
proof -
  have "bitMask = mask 6" by (simp add: bitMask_def blockBits_def mask_eq_exp_minus_1)
  then show ?thesis using unat_and_mask [of i 6] by (simp only:) simp
qed

lemma unat_block: "unat (drop_bit blockBitLog c) = unat c div 64"
  by (simp add: blockBitLog_def unat_drop_bit)

lemma unat_u64_less: "unat (c :: u64) < 2 ^ 64"
  using unat_less_exp [of c] by simp

lemma block_small: "unat (c :: u64) div 64 < 2 ^ 58"
  using unat_u64_less [of c] by (simp add: div_less_iff_less_mult)

lemma clear_loop_guard:
  fixes current diff :: u64
  assumes "unat current < 2 ^ 58" and "unat diff \<le> 128" and "k < unat diff"
  shows "current + 1 + of_nat k \<le> current + diff"
    and "\<not> current + 1 + diff \<le> current + diff"
proof -
  have s: "unat (current + diff) = unat current + unat diff"
    using assms by (subst unat_add_lem [THEN iffD1]) auto
  have k: "unat (of_nat (k + 1) :: u64) = k + 1"
    using assms by (simp only: unat_of_nat) simp
  have e: "current + 1 + of_nat k = current + of_nat (k + 1)"
    by (simp add: algebra_simps)
  have "unat (current + of_nat (k + 1)) = unat current + (k + 1)"
    using assms k by (subst unat_add_lem [THEN iffD1]) auto
  with s show "current + 1 + of_nat k \<le> current + diff"
    using assms unfolding e by (simp only: word_le_nat_alt)
  have "unat (current + diff + 1) = unat (current + diff) + 1"
    using assms s by (subst unat_add_lem [THEN iffD1]) auto
  then show "\<not> current + 1 + diff \<le> current + diff"
    by (simp add: word_le_nat_alt add.assoc add.commute [of diff 1])
qed

lemma length_clear_ring [simp]: "length (clear_ring n i r) = length r"
  by (induction n i r rule: clear_ring.induct) auto

lemma nth_clear_ring:
  assumes "length r = 128" and "unat i + n \<le> 2 ^ 59" and "k < 128"
  shows "clear_ring n i r ! k =
    (if k \<in> (\<lambda>j. j mod 128) ` {unat i..<unat i + n} then 0 else r ! k)"
  using assms
proof (induction n i r rule: clear_ring.induct)
  case (1 i r)
  then show ?case by simp
next
  case (2 n i r)
  have i1: "unat (i + 1) = unat i + 1"
    using 2 by (subst unat_add_lem [THEN iffD1]) auto
  have *: "clear_ring (Suc n) i r ! k =
     (if k \<in> (\<lambda>j. j mod 128) ` {unat i + 1..<unat i + 1 + n} then 0
      else (r[unat i mod 128 := 0]) ! k)"
    using 2 by (simp add: i1 unat_blockMask)
  have "{unat i..<unat i + Suc n} = insert (unat i) {unat i + 1..<unat i + 1 + n}"
    by auto
  then show ?case using * 2 by (auto simp: nth_list_update)
qed

lemma mod_128_window:
  fixes a b l :: nat
  assumes "a \<le> l" "l < a + 128" "b \<le> l" "l < b + 128"
  shows "a mod 128 = b mod 128 \<longleftrightarrow> a = b"
proof
  assume m: "a mod 128 = b mod 128"
  show "a = b"
  proof (rule ccontr)
    assume "a \<noteq> b"
    then consider "a < b" | "b < a" by linarith
    then show False
    proof cases
      case 1
      with m have "128 dvd b - a" using mod_eq_dvd_iff_nat [of a b 128] by auto
      with 1 assms show False by (auto dest!: dvd_imp_le)
    next
      case 2
      with m have "128 dvd a - b" using mod_eq_dvd_iff_nat [of b a 128] by auto
      with 2 assms show False by (auto dest!: dvd_imp_le)
    qed
  qed
qed simp

section \<open>The abstract window\<close>

text \<open>\<open>filter_inv f S\<close>: \<open>S\<close> is the set of counters accepted since the filter was empty. A block
  of the ring is meaningful when its number lies in the 128 blocks that end with the block of
  \<open>last\<close>; in those, a bit is set exactly for the accepted counters. Older blocks may hold
  anything, which is why \<open>Reset\<close> need only clear block 0.\<close>

definition filter_inv :: "Filter \<Rightarrow> nat set \<Rightarrow> bool" where
  "filter_inv f S \<longleftrightarrow>
     length (ring f) = 128 \<and> (\<forall>c \<in> S. c \<le> unat (flast f)) \<and>
     (\<forall>c. c div 64 \<le> unat (flast f) div 64 \<and> unat (flast f) div 64 < c div 64 + 128 \<longrightarrow>
        (bit (ring f ! (c div 64 mod 128)) (c mod 64) \<longleftrightarrow> c \<in> S))"

text \<open>What RFC 6479 asks of a window: a fresh counter above the highest one, or a counter at
  most \<open>windowSize\<close> behind it that was not accepted before.\<close>

definition window_accepts :: "nat \<Rightarrow> nat set \<Rightarrow> nat \<Rightarrow> nat \<Rightarrow> bool" where
  "window_accepts highest S c limit \<longleftrightarrow>
     c < limit \<and> (highest < c \<or> (highest - c \<le> 8128 \<and> c \<notin> S))"

lemma filter_inv_zero: "filter_inv zero_filter {}"
  by (auto simp: filter_inv_def zero_filter_def)

lemma filter_inv_Reset: "length (ring f) = 128 \<Longrightarrow> filter_inv (Reset f) {}"
  by (auto simp: filter_inv_def Reset_def)

lemma or_bit_neq: "n < 64 \<Longrightarrow> (w :: u64) \<noteq> w OR push_bit n 1 \<longleftrightarrow> \<not> bit w n"
proof -
  assume n: "n < 64"
  have b: "bit (w OR push_bit n 1) k \<longleftrightarrow> bit w k \<or> k = n" if "k < 64" for k
    using n that by (auto simp: bit_simps)
  show ?thesis
  proof (cases "bit w n")
    case True
    have "w = w OR push_bit n 1"
      by (rule bit_word_eqI) (use True b in auto)
    with True show ?thesis by simp
  next
    case False
    with b [OF n] show ?thesis by metis
  qed
qed

lemma check_and_set_inv:
  assumes inv: "filter_inv f S" and le: "unat c \<le> unat (flast f)"
    and win: "unat (flast f) div 64 < unat c div 64 + 128"
  shows "fst (check_and_set f c) \<longleftrightarrow> unat c \<notin> S"
    and "filter_inv (snd (check_and_set f c)) (insert (unat c) S)"
proof -
  let ?k = "unat c div 64 mod 128" and ?b = "unat c mod 64"
  have len: "length (ring f) = 128" using inv by (simp add: filter_inv_def)
  have r: "check_and_set f c =
     (ring f ! ?k \<noteq> ring f ! ?k OR push_bit ?b 1,
      f\<lparr>ring := (ring f)[?k := ring f ! ?k OR push_bit ?b 1]\<rparr>)"
    by (simp add: check_and_set_def Let_def unat_blockMask unat_bitMask unat_block)
  have cin: "bit (ring f ! ?k) ?b \<longleftrightarrow> unat c \<in> S"
    using inv le win by (auto simp: filter_inv_def div_le_mono)
  then show "fst (check_and_set f c) \<longleftrightarrow> unat c \<notin> S"
    using or_bit_neq [of ?b "ring f ! ?k"] by (simp add: r)
  have "bit ((ring f)[?k := ring f ! ?k OR push_bit ?b 1] ! (d div 64 mod 128)) (d mod 64)
        \<longleftrightarrow> d \<in> insert (unat c) S"
    if d: "d div 64 \<le> unat (flast f) div 64" "unat (flast f) div 64 < d div 64 + 128" for d
  proof -
    have old: "bit (ring f ! (d div 64 mod 128)) (d mod 64) \<longleftrightarrow> d \<in> S"
      using inv d by (simp add: filter_inv_def)
    have same: "d div 64 mod 128 = ?k \<longleftrightarrow> d div 64 = unat c div 64"
      using d div_le_mono [OF le, of 64] win by (rule mod_128_window)
    have eq: "d = unat c \<longleftrightarrow> d div 64 = unat c div 64 \<and> d mod 64 = ?b"
      by (metis div_mult_mod_eq)
    show ?thesis
      using old same eq len by (auto simp: nth_list_update bit_simps)
  qed
  then show "filter_inv (snd (check_and_set f c)) (insert (unat c) S)"
    using inv le by (simp add: filter_inv_def r)
qed

lemma forward_inv:
  assumes inv: "filter_inv f S" and gt: "unat (flast f) < unat c"
  defines "cur \<equiv> drop_bit blockBitLog (flast f)"
  defines "d \<equiv> drop_bit blockBitLog c - cur"
  defines "dd \<equiv> (if d > ringBlocks then ringBlocks else d)"
  shows "filter_inv (f\<lparr>ring := clear_ring (unat dd) (cur + 1) (ring f), flast := c\<rparr>) S"
proof -
  let ?L = "unat (flast f)" and ?C = "unat c"
  have len: "length (ring f) = 128" and le: "\<forall>x \<in> S. x \<le> ?L" using inv
    by (auto simp: filter_inv_def)
  have cur: "unat cur = ?L div 64" by (simp add: cur_def unat_block)
  have mono: "?L div 64 \<le> ?C div 64" using gt by (simp add: div_le_mono)
  then have d: "unat d = ?C div 64 - ?L div 64"
    unfolding d_def by (subst unat_sub) (auto simp: word_le_nat_alt cur unat_block)
  have dd: "unat dd = min 128 (?C div 64 - ?L div 64)"
    by (auto simp: dd_def d ringBlocks_def word_less_nat_alt)
  have cur1: "unat (cur + 1) = ?L div 64 + 1"
    using block_small [of "flast f"] cur by (subst unat_add_lem [THEN iffD1]) auto
  have nth: "clear_ring (unat dd) (cur + 1) (ring f) ! k =
    (if k \<in> (\<lambda>j. j mod 128) ` {?L div 64 + 1..<?L div 64 + 1 + unat dd} then 0 else ring f ! k)"
    if "k < 128" for k
    using that len block_small [of "flast f"] by (subst nth_clear_ring) (auto simp: cur1 dd)
  have "bit (clear_ring (unat dd) (cur + 1) (ring f) ! (x div 64 mod 128)) (x mod 64) \<longleftrightarrow> x \<in> S"
    if x: "x div 64 \<le> ?C div 64" "?C div 64 < x div 64 + 128" for x
  proof (cases "x div 64 \<le> ?L div 64")
    case True
    have "x div 64 mod 128 \<noteq> j mod 128" if "j \<in> {?L div 64 + 1..<?L div 64 + 1 + unat dd}" for j
      using mod_128_window [of "x div 64" "?C div 64" j] that x True mono by (auto simp: dd)
    then have "x div 64 mod 128 \<notin> (\<lambda>j. j mod 128) ` {?L div 64 + 1..<?L div 64 + 1 + unat dd}"
      by blast
    then have "clear_ring (unat dd) (cur + 1) (ring f) ! (x div 64 mod 128)
               = ring f ! (x div 64 mod 128)"
      using nth [of "x div 64 mod 128"] by simp
    moreover have "?L div 64 < x div 64 + 128" using x mono by linarith
    ultimately show ?thesis using inv True by (simp add: filter_inv_def)
  next
    case False
    have notS: "x \<notin> S" using False le by (auto dest: div_le_mono)
    have "\<exists>j \<in> {?L div 64 + 1..<?L div 64 + 1 + unat dd}. x div 64 mod 128 = j mod 128"
    proof (cases "?C div 64 - ?L div 64 \<le> 128")
      case True
      with False x show ?thesis by (intro bexI [of _ "x div 64"]) (auto simp: dd)
    next
      case far: False
      let ?j = "?L div 64 + 1 + (x div 64 - (?L div 64 + 1)) mod 128"
      have "?j mod 128 = (?L div 64 + 1 + (x div 64 - (?L div 64 + 1))) mod 128"
        by (rule mod_add_right_eq)
      also have "\<dots> = x div 64 mod 128" using False by simp
      finally show ?thesis using far by (intro bexI [of _ ?j]) (auto simp: dd)
    qed
    then have "clear_ring (unat dd) (cur + 1) (ring f) ! (x div 64 mod 128) = 0"
      by (subst nth) auto
    with notS show ?thesis by simp
  qed
  moreover have "\<forall>x \<in> S. x \<le> ?C" using le gt by auto
  ultimately show ?thesis using len by (simp add: filter_inv_def)
qed

lemma windowSize_unat: "unat windowSize = 8128"
  by (simp add: windowSize_def ringBlocks_def blockBits_def)

lemma validate_spec:
  assumes inv: "filter_inv f S" and run: "ValidateCounter f c limit = (ok, f')"
  shows "ok \<longleftrightarrow> window_accepts (unat (flast f)) S (unat c) (unat limit)"
    and "filter_inv f' (if ok then insert (unat c) S else S)"
proof -
  have "(ok \<longleftrightarrow> window_accepts (unat (flast f)) S (unat c) (unat limit)) \<and>
        filter_inv f' (if ok then insert (unat c) S else S)"
  proof (cases "c \<ge> limit")
    case True
    with run inv show ?thesis
      by (auto simp: ValidateCounter_def window_accepts_def word_le_nat_alt)
  next
    case lim: False
    show ?thesis
    proof (cases "c > flast f")
      case True
      define g where "g = f\<lparr>ring := clear_ring
          (unat (if drop_bit blockBitLog c - drop_bit blockBitLog (flast f) > ringBlocks then ringBlocks
                 else drop_bit blockBitLog c - drop_bit blockBitLog (flast f)))
          (drop_bit blockBitLog (flast f) + 1) (ring f), flast := c\<rparr>"
      have g: "filter_inv g S"
        unfolding g_def using inv True by (intro forward_inv) (auto simp: word_less_nat_alt)
      have r: "check_and_set g c = (ok, f')"
        using run lim True by (auto simp: ValidateCounter_def Let_def g_def)
      have "unat c \<notin> S" using inv True by (auto simp: filter_inv_def word_less_nat_alt)
      moreover have "flast g = c" by (simp add: g_def)
      ultimately have "ok" "filter_inv f' (insert (unat c) S)"
        using check_and_set_inv [OF g, of c] r by simp_all
      then show ?thesis
        using lim True by (simp add: window_accepts_def word_less_nat_alt word_le_nat_alt)
    next
      case False
      then have le: "unat c \<le> unat (flast f)" by (simp add: word_less_nat_alt)
      have diff: "unat (flast f - c) = unat (flast f) - unat c"
        using le by (subst unat_sub) (auto simp: word_le_nat_alt)
      show ?thesis
      proof (cases "flast f - c > windowSize")
        case True
        with run lim False inv le show ?thesis
          by (auto simp: ValidateCounter_def window_accepts_def word_less_nat_alt diff windowSize_unat)
      next
        case win: False
        then have w: "unat (flast f) - unat c \<le> 8128"
          by (simp add: word_less_nat_alt diff windowSize_unat)
        then have "unat (flast f) div 64 \<le> (unat c + 127 * 64) div 64"
          using le by (intro div_le_mono) simp
        then have cover: "unat (flast f) div 64 < unat c div 64 + 128" by simp
        have r: "check_and_set f c = (ok, f')"
          using run lim False win by (simp add: ValidateCounter_def)
        have "ok \<longleftrightarrow> unat c \<notin> S" "filter_inv f' (insert (unat c) S)"
          using check_and_set_inv [OF inv le cover] r by simp_all
        then show ?thesis
          using lim w le by (auto simp: window_accepts_def word_le_nat_alt insert_absorb)
      qed
    qed
  qed
  then show "ok \<longleftrightarrow> window_accepts (unat (flast f)) S (unat c) (unat limit)"
    and "filter_inv f' (if ok then insert (unat c) S else S)" by auto
qed

section \<open>Streams of counters\<close>

text \<open>The counters a filter accepts out of a stream, in order, and the filter after it.\<close>

fun accepted :: "('f \<Rightarrow> u64 \<Rightarrow> u64 \<Rightarrow> bool \<times> 'f) \<Rightarrow> u64 \<Rightarrow> 'f \<Rightarrow> u64 list \<Rightarrow> u64 list \<times> 'f" where
  "accepted v limit f [] = ([], f)"
| "accepted v limit f (c # cs) =
     (case v f c limit of (ok, f') \<Rightarrow>
        (case accepted v limit f' cs of (as, f'') \<Rightarrow> (if ok then c # as else as, f'')))"

text \<open>The interface the receive path relies on: any filter that implements the abstract window
  never lets a counter through twice, whatever the stream.\<close>

locale replay_window =
  fixes validate :: "'f \<Rightarrow> u64 \<Rightarrow> u64 \<Rightarrow> bool \<times> 'f"
    and rel :: "'f \<Rightarrow> nat set \<Rightarrow> bool"
    and highest :: "'f \<Rightarrow> nat"
  assumes accept_iff: "rel f S \<Longrightarrow> validate f c limit = (ok, f') \<Longrightarrow>
      ok \<longleftrightarrow> window_accepts (highest f) S (unat c) (unat limit)"
    and rel_step: "rel f S \<Longrightarrow> validate f c limit = (ok, f') \<Longrightarrow>
      rel f' (if ok then insert (unat c) S else S)"
    and rel_bound: "rel f S \<Longrightarrow> x \<in> S \<Longrightarrow> x \<le> highest f"
begin

lemma no_second_accept:
  "rel f S \<Longrightarrow> unat c \<in> S \<Longrightarrow> validate f c limit = (ok, f') \<Longrightarrow> \<not> ok"
  using accept_iff [of f S c limit ok f'] rel_bound [of f S "unat c"]
  by (auto simp: window_accepts_def)

lemma accepted_fresh:
  assumes "rel f S" and "accepted validate limit f cs = (as, f')"
  shows "distinct as \<and> (\<forall>a \<in> set as. unat a \<notin> S \<and> a < limit) \<and> rel f' (S \<union> unat ` set as)"
  using assms
proof (induction cs arbitrary: f S as)
  case Nil
  then show ?case by auto
next
  case (Cons c cs)
  obtain ok g where v: "validate f c limit = (ok, g)" by fastforce
  obtain bs where b: "accepted validate limit g cs = (bs, f')"
    and as: "as = (if ok then c # bs else bs)"
    using Cons.prems v by (auto split: prod.splits)
  have g: "rel g (if ok then insert (unat c) S else S)"
    using rel_step [OF Cons.prems(1) v] .
  have IH: "distinct bs \<and> (\<forall>a \<in> set bs. unat a \<notin> (if ok then insert (unat c) S else S) \<and> a < limit)
      \<and> rel f' ((if ok then insert (unat c) S else S) \<union> unat ` set bs)"
    using Cons.IH [OF g b] .
  have c: "ok \<Longrightarrow> unat c \<notin> S \<and> c < limit"
    using accept_iff [OF Cons.prems(1) v] no_second_accept [OF Cons.prems(1) _ v]
    by (auto simp: window_accepts_def word_less_nat_alt)
  show ?case
    using IH c as by (cases ok) auto
qed

end

interpretation wg_replay: replay_window ValidateCounter filter_inv "\<lambda>f. unat (flast f)"
proof unfold_locales
  fix f S c limit ok f' x
  assume inv: "filter_inv f S"
  show "x \<in> S \<Longrightarrow> x \<le> unat (flast f)" using inv by (auto simp: filter_inv_def)
  assume run: "ValidateCounter f c limit = (ok, f')"
  show "ok \<longleftrightarrow> window_accepts (unat (flast f)) S (unat c) (unat limit)"
    using validate_spec(1) [OF inv run] .
  show "filter_inv f' (if ok then insert (unat c) S else S)"
    using validate_spec(2) [OF inv run] .
qed



text \<open>No replay: over any stream of counters offered to a fresh (or freshly reset) filter,
  no counter is accepted twice, and none at or above the limit is accepted at all.\<close>

theorem no_replay:
  assumes "length (ring f) = 128"
  shows "distinct (fst (accepted ValidateCounter limit (Reset f) cs)) \<and>
         (\<forall>c \<in> set (fst (accepted ValidateCounter limit (Reset f) cs)). c < limit)"
  using wg_replay.accepted_fresh [OF filter_inv_Reset [OF assms], of limit cs]
  by (cases "accepted ValidateCounter limit (Reset f) cs") auto

theorem no_replay_witness:
  "length (ring zero_filter) = 128 \<and>
   distinct (fst (accepted ValidateCounter 100 (Reset zero_filter) [3, 7, 3, 7, 200]))"
  using no_replay [of zero_filter 100 "[3, 7, 3, 7, 200]"] by (simp add: zero_filter_def)

end
