(* ===== verification/Ratelimiter.thy ===== *)
theory Ratelimiter
  imports Prelude "HOL-Library.AList"
begin

text \<open>
  The handshake rate limiter of \<^verbatim>\<open>src/ratelimiter/ratelimiter.go\<close>: a token bucket per source
  address and the garbage collection of idle buckets. A bucket refills by one token per
  nanosecond; a packet costs \<open>packetCost\<close> tokens. The locale \<open>token_budget\<close> is the contract the
  handshake worker relies on; it is interpreted on \<open>rate_step\<close>.
\<close>

section \<open>State and operations\<close>

definition packetsPerSecond :: int where "packetsPerSecond = 20"
definition packetsBurstable :: int where "packetsBurstable = 5"
definition garbageCollectTime :: duration where "garbageCollectTime = second"
definition packetCost :: int where "packetCost = 1000000000 div packetsPerSecond"
definition maxTokens :: int where "maxTokens = packetCost * packetsBurstable"

lemmas rate_consts = packetsPerSecond_def packetsBurstable_def garbageCollectTime_def
  packetCost_def maxTokens_def second_def maxDuration_def

record RatelimiterEntry =
  lastTime :: gotime
  tokens :: int

text \<open>The state of the channel \<open>stopReset\<close>; a limiter that was never initialised has a nil
  channel and a nil table. \<open>ticking\<close> says whether the collector goroutine's ticker runs.\<close>

datatype stop_chan = ChanNil | ChanOpen | ChanClosed

record 'ip Ratelimiter =
  stopReset :: stop_chan
  ticking :: bool
  table :: "('ip \<times> RatelimiterEntry) list"

datatype rate_panic = CloseOfClosedChannel | SendOnClosedChannel | NilMapWrite

definition new_ratelimiter :: "'ip Ratelimiter" where
  "new_ratelimiter = \<lparr>stopReset = ChanNil, ticking = False, table = []\<rparr>"

definition Rate_Close :: "'ip Ratelimiter \<Rightarrow> rate_panic + 'ip Ratelimiter" where
  "Rate_Close rate =
     (case stopReset rate of
        ChanNil \<Rightarrow> Inr rate
      | ChanOpen \<Rightarrow> Inr (rate\<lparr>stopReset := ChanClosed, ticking := False\<rparr>)
      | ChanClosed \<Rightarrow> Inl CloseOfClosedChannel)"

text \<open>The collector started by \<open>Init\<close> stops its fresh ticker at once: it ticks only after a
  message on \<open>stopReset\<close>.\<close>

definition Rate_Init :: "'ip Ratelimiter \<Rightarrow> rate_panic + 'ip Ratelimiter" where
  "Rate_Init rate =
     (if stopReset rate = ChanClosed then Inl CloseOfClosedChannel
      else Inr \<lparr>stopReset = ChanOpen, ticking = False, table = []\<rparr>)"

definition Rate_cleanup :: "gotime \<Rightarrow> 'ip Ratelimiter \<Rightarrow> bool \<times> 'ip Ratelimiter" where
  "Rate_cleanup now rate =
     (let t = filter (\<lambda>(key, entry). \<not> Sub now (lastTime entry) > garbageCollectTime) (table rate)
      in (t = [], rate\<lparr>table := t\<rparr>))"

text \<open>One tick of the collector goroutine: the ticker stops when the table became empty.\<close>

definition Rate_gc :: "gotime \<Rightarrow> 'ip Ratelimiter \<Rightarrow> 'ip Ratelimiter" where
  "Rate_gc now rate =
     (if ticking rate then
        (case Rate_cleanup now rate of (isEmpty, r) \<Rightarrow> if isEmpty then r\<lparr>ticking := False\<rparr> else r)
      else rate)"

definition Rate_Allow ::
  "gotime \<Rightarrow> 'ip \<Rightarrow> 'ip Ratelimiter \<Rightarrow> rate_panic + bool \<times> 'ip Ratelimiter" where
  "Rate_Allow now ip rate =
     (case map_of (table rate) ip of
        None \<Rightarrow>
          if stopReset rate = ChanNil then Inl NilMapWrite
          else
            let t = AList.update ip \<lparr>lastTime = now, tokens = maxTokens - packetCost\<rparr> (table rate);
                r = rate\<lparr>table := t\<rparr>
            in if length t = 1 then
                 (if stopReset rate = ChanClosed then Inl SendOnClosedChannel
                  else Inr (True, r\<lparr>ticking := True\<rparr>))
               else Inr (True, r)
      | Some entry \<Rightarrow>
          let tok = wrap64 (tokens entry + Sub now (lastTime entry));
              tok = (if tok > maxTokens then maxTokens else tok)
          in if tok > packetCost then
               Inr (True, rate\<lparr>table := AList.update ip
                      \<lparr>lastTime = now, tokens = tok - packetCost\<rparr> (table rate)\<rparr>)
             else Inr (False, rate\<lparr>table := AList.update ip
                      \<lparr>lastTime = now, tokens = tok\<rparr> (table rate)\<rparr>))"

section \<open>Invariant\<close>

text \<open>Every bucket holds between 0 and \<open>maxTokens\<close> tokens and was touched between \<open>start\<close> and
  \<open>now\<close>; keys are distinct. The horizon keeps the refill inside an \<open>int64\<close>.\<close>

definition rate_horizon :: duration where
  "rate_horizon = 2 ^ 62"

definition rate_inv :: "gotime \<Rightarrow> gotime \<Rightarrow> 'ip Ratelimiter \<Rightarrow> bool" where
  "rate_inv start now rate \<longleftrightarrow>
     distinct (map fst (table rate)) \<and>
     (\<forall>(key, e) \<in> set (table rate).
        0 \<le> tokens e \<and> tokens e \<le> maxTokens \<and> start \<le> lastTime e \<and> lastTime e \<le> now)"

text \<open>The tokens available to an address at a time: those of its bucket after refilling, a full
  bucket when it has none.\<close>

definition avail :: "'ip Ratelimiter \<Rightarrow> 'ip \<Rightarrow> gotime \<Rightarrow> int" where
  "avail rate ip t =
     (case map_of (table rate) ip of
        None \<Rightarrow> maxTokens
      | Some e \<Rightarrow> min maxTokens (tokens e + (t - lastTime e)))"

lemma rate_invD:
  "rate_inv start now rate \<Longrightarrow> map_of (table rate) ip = Some e \<Longrightarrow>
     0 \<le> tokens e \<and> tokens e \<le> maxTokens \<and> start \<le> lastTime e \<and> lastTime e \<le> now"
  by (auto simp: rate_inv_def dest: map_of_SomeD)

lemma set_AList_update: "set (AList.update k v xs) \<subseteq> insert (k, v) (set xs)"
  by (induction xs) auto

lemma rate_inv_update:
  assumes "rate_inv start now rate" and "0 \<le> k" and "k \<le> maxTokens" and "start \<le> t" and "now \<le> t"
  shows "rate_inv start t (rate\<lparr>table := AList.update ip \<lparr>lastTime = t, tokens = k\<rparr> (table rate)\<rparr>)"
  using assms set_AList_update [of ip "\<lparr>lastTime = t, tokens = k\<rparr>" "table rate"]
  by (fastforce simp: rate_inv_def distinct_update)

lemma refill_exact:
  assumes "rate_inv start now rate" "map_of (table rate) ip = Some e" "now \<le> t" "t \<le> start + rate_horizon"
  shows "wrap64 (tokens e + Sub t (lastTime e)) = tokens e + (t - lastTime e)"
proof -
  have b: "0 \<le> t - lastTime e" "t - lastTime e \<le> 2 ^ 62" "0 \<le> tokens e" "tokens e \<le> 250000000"
    using rate_invD [OF assms(1,2)] assms(3,4) by (auto simp: rate_consts rate_horizon_def)
  then have "Sub t (lastTime e) = t - lastTime e"
    by (intro Sub_exact) (auto simp: maxDuration_def)
  with b show ?thesis by (simp add: wrap64_id)
qed

text \<open>\<open>Allow\<close> on a running limiter: it never panics, keeps the invariant, spends exactly one
  packet's cost from the bucket when it says yes and nothing when it says no, and touches no
  other bucket.\<close>

lemma Rate_Allow_spec:
  assumes inv: "rate_inv start now rate" and st: "stopReset rate = ChanOpen"
    and t: "start \<le> t" "now \<le> t" "t \<le> start + rate_horizon"
  obtains ok rate' where "Rate_Allow t ip rate = Inr (ok, rate')"
    and "rate_inv start t rate'" and "stopReset rate' = ChanOpen"
    and "ok \<longleftrightarrow> avail rate ip t > packetCost"
    and "avail rate' ip t = avail rate ip t - (if ok then packetCost else 0)"
    and "\<And>ip' s. ip' \<noteq> ip \<Longrightarrow> avail rate' ip' s = avail rate ip' s"
proof (cases "map_of (table rate) ip")
  case None
  let ?t = "AList.update ip \<lparr>lastTime = t, tokens = maxTokens - packetCost\<rparr> (table rate)"
  have i: "rate_inv start t (rate\<lparr>table := ?t\<rparr>)"
    using t by (intro rate_inv_update [OF inv]) (auto simp: rate_consts)
  have a: "avail (rate\<lparr>table := ?t\<rparr>) ip t = maxTokens - packetCost"
    "\<And>ip' s. ip' \<noteq> ip \<Longrightarrow> avail (rate\<lparr>table := ?t\<rparr>) ip' s = avail rate ip' s"
    by (auto simp: avail_def update_conv' rate_consts)
  have b: "avail rate ip t = maxTokens" "maxTokens > packetCost"
    using None by (auto simp: avail_def rate_consts)
  show thesis
  proof (rule that)
    show "Rate_Allow t ip rate =
        Inr (True, rate\<lparr>table := ?t, ticking := (if length ?t = 1 then True else ticking rate)\<rparr>)"
      using None st by (simp add: Rate_Allow_def Let_def)
  qed (use i a b st in \<open>auto simp: rate_inv_def avail_def\<close>)
next
  case (Some e)
  have e: "wrap64 (tokens e + Sub t (lastTime e)) = tokens e + (t - lastTime e)"
    using refill_exact [OF inv Some] t by simp
  have av: "avail rate ip t = min maxTokens (tokens e + (t - lastTime e))"
    using Some by (simp add: avail_def)
  define k where "k = avail rate ip t - (if avail rate ip t > packetCost then packetCost else 0)"
  have k: "0 \<le> k" "k \<le> maxTokens"
    using rate_invD [OF inv Some] t by (auto simp: k_def av rate_consts)
  show thesis
  proof (rule that)
    show "Rate_Allow t ip rate = Inr (avail rate ip t > packetCost,
        rate\<lparr>table := AList.update ip \<lparr>lastTime = t, tokens = k\<rparr> (table rate)\<rparr>)"
      using Some e by (auto simp: Rate_Allow_def Let_def av k_def min_def)
    show "rate_inv start t (rate\<lparr>table := AList.update ip \<lparr>lastTime = t, tokens = k\<rparr> (table rate)\<rparr>)"
      using t k by (intro rate_inv_update [OF inv]) auto
    show "avail (rate\<lparr>table := AList.update ip \<lparr>lastTime = t, tokens = k\<rparr> (table rate)\<rparr>) ip t
        = avail rate ip t - (if avail rate ip t > packetCost then packetCost else 0)"
      using k by (simp add: avail_def update_conv' k_def)
  qed (use st in \<open>auto simp: avail_def update_conv'\<close>)
qed

section \<open>Garbage collection\<close>

lemma map_of_filter_val:
  "distinct (map fst xs) \<Longrightarrow>
   map_of (filter (\<lambda>(k, v). P v) xs) k = (case map_of xs k of None \<Rightarrow> None | Some v \<Rightarrow> if P v then Some v else None)"
proof (induction xs)
  case Nil
  then show ?case by simp
next
  case (Cons x xs)
  obtain a v where x: "x = (a, v)" by (cases x)
  have "map_of xs a = None" using Cons.prems x by (simp add: map_of_eq_None_iff)
  with Cons x show ?case by (auto split: option.splits)
qed

lemma Rate_cleanup_avail:
  assumes inv: "rate_inv start now rate" and t: "now \<le> t" "t \<le> u"
  shows "avail (snd (Rate_cleanup t rate)) ip u = avail rate ip u"
proof -
  have d: "distinct (map fst (table rate))" using inv by (simp add: rate_inv_def)
  show ?thesis
  proof (cases "map_of (table rate) ip")
    case None
    then show ?thesis
      using map_of_filter_val [OF d, of "\<lambda>e. \<not> Sub t (lastTime e) > garbageCollectTime" ip]
      by (simp add: avail_def Rate_cleanup_def Let_def)
  next
    case (Some e)
    have full: "avail rate ip u = maxTokens" if "Sub t (lastTime e) > garbageCollectTime"
    proof -
      have "t - lastTime e > second"
        using that by (simp add: garbageCollectTime_def time_simps second_def maxDuration_def)
      then show ?thesis using Some t rate_invD [OF inv Some] by (simp add: avail_def rate_consts)
    qed
    show ?thesis
      using Some full map_of_filter_val [OF d, of "\<lambda>e. \<not> Sub t (lastTime e) > garbageCollectTime" ip]
      by (auto simp: avail_def Rate_cleanup_def Let_def)
  qed
qed

lemma Rate_cleanup_inv:
  "rate_inv start now rate \<Longrightarrow> now \<le> t \<Longrightarrow> rate_inv start t (snd (Rate_cleanup t rate))"
  by (force simp: rate_inv_def Rate_cleanup_def Let_def distinct_map_filter)

lemma Rate_gc_spec:
  assumes "rate_inv start now rate" and "now \<le> t"
  shows "rate_inv start t (Rate_gc t rate)" and "stopReset (Rate_gc t rate) = stopReset rate"
    and "t \<le> u \<Longrightarrow> avail (Rate_gc t rate) ip u = avail rate ip u"
proof -
  have gc: "Rate_gc t rate = (if ticking rate then
      (snd (Rate_cleanup t rate))\<lparr>ticking := ticking rate \<and> \<not> fst (Rate_cleanup t rate)\<rparr> else rate)"
    by (simp add: Rate_gc_def Rate_cleanup_def Let_def)
  show "rate_inv start t (Rate_gc t rate)"
    using assms Rate_cleanup_inv [OF assms] unfolding gc by (force simp: rate_inv_def)
  show "stopReset (Rate_gc t rate) = stopReset rate"
    by (simp add: gc Rate_cleanup_def Let_def)
  show "t \<le> u \<Longrightarrow> avail (Rate_gc t rate) ip u = avail rate ip u"
    using Rate_cleanup_avail [OF assms, of u ip] unfolding gc by (simp add: avail_def)
qed

section \<open>Runs\<close>

text \<open>What happens to a limiter over time: packets from addresses and ticks of the collector.\<close>

datatype 'ip rate_event = EvAllow 'ip gotime | EvTick gotime

fun ev_time :: "'ip rate_event \<Rightarrow> gotime" where
  "ev_time (EvAllow ip t) = t"
| "ev_time (EvTick t) = t"

text \<open>One event; the flag says whether a packet of the watched address was let through.\<close>

fun rate_step :: "'ip \<Rightarrow> 'ip Ratelimiter \<Rightarrow> 'ip rate_event \<Rightarrow> rate_panic + bool \<times> 'ip Ratelimiter" where
  "rate_step w rate (EvTick t) = Inr (False, Rate_gc t rate)"
| "rate_step w rate (EvAllow ip t) =
     (case Rate_Allow t ip rate of
        Inl p \<Rightarrow> Inl p
      | Inr (ok, r) \<Rightarrow> Inr (ok \<and> ip = w, r))"

fun count_run :: "('s \<Rightarrow> 'e \<Rightarrow> 'p + bool \<times> 's) \<Rightarrow> 's \<Rightarrow> 'e list \<Rightarrow> 'p + nat \<times> 's" where
  "count_run step s [] = Inr (0, s)"
| "count_run step s (e # es) =
     (case step s e of
        Inl p \<Rightarrow> Inl p
      | Inr (ok, s') \<Rightarrow>
          (case count_run step s' es of
             Inl p \<Rightarrow> Inl p
           | Inr (n, s'') \<Rightarrow> Inr ((if ok then Suc n else n), s'')))"

text \<open>The contract of an admission control: a budget that refills with time, bounded by \<open>cap\<close>,
  and from which every admitted packet takes \<open>cost\<close>. Events come in time order before
  \<open>deadline\<close>.\<close>

locale token_budget =
  fixes step :: "'s \<Rightarrow> 'e \<Rightarrow> 'p + bool \<times> 's"
    and time :: "'e \<Rightarrow> gotime"
    and inv :: "gotime \<Rightarrow> 's \<Rightarrow> bool"
    and budget :: "'s \<Rightarrow> gotime \<Rightarrow> int"
    and cost cap :: int
    and deadline :: gotime
  assumes no_panic: "inv now s \<Longrightarrow> now \<le> time e \<Longrightarrow> time e \<le> deadline \<Longrightarrow>
      \<exists>ok s'. step s e = Inr (ok, s') \<and> inv (time e) s' \<and>
        budget s' (time e) = budget s (time e) - (if ok then cost else 0)"
    and nonneg: "inv now s \<Longrightarrow> 0 \<le> budget s now"
    and refill: "inv now s \<Longrightarrow> now \<le> t \<Longrightarrow> budget s t \<le> budget s now + (t - now)"
    and capped: "budget s t \<le> cap"
begin

lemma bounded_run:
  assumes "inv now s" and "sorted (now # map time es)" and "\<forall>e \<in> set es. time e \<le> deadline"
  shows "\<exists>n s' end. count_run step s es = Inr (n, s') \<and> end = last (now # map time es) \<and> inv end s' \<and>
           int n * cost + budget s' end \<le> budget s now + (end - now)"
  using assms
proof (induction es arbitrary: now s)
  case Nil
  then show ?case by simp
next
  case (Cons e es)
  obtain ok s1 where st: "step s e = Inr (ok, s1)" and i1: "inv (time e) s1"
    and b1: "budget s1 (time e) = budget s (time e) - (if ok then cost else 0)"
    using no_panic [OF Cons.prems(1), of e] Cons.prems(2,3) by auto
  obtain n s' end' where r: "count_run step s1 es = Inr (n, s')"
    and e: "end' = last (time e # map time es)" "inv end' s'"
    and b: "int n * cost + budget s' end' \<le> budget s1 (time e) + (end' - time e)"
    using Cons.IH [OF i1] Cons.prems(2,3) by auto
  have "budget s (time e) \<le> budget s now + (time e - now)"
    using refill [OF Cons.prems(1), of "time e"] Cons.prems(2) by auto
  with st r e b b1 show ?case
    by (auto simp: distrib_right)
qed

lemma admitted_bound:
  assumes "inv now s" and "sorted (now # map time es)" and "\<forall>e \<in> set es. time e \<le> deadline"
  shows "\<exists>n s'. count_run step s es = Inr (n, s') \<and>
           int n * cost \<le> cap + (last (now # map time es) - now)"
  using bounded_run [OF assms] nonneg capped [of s now] by (smt (verit))

end

lemma avail_refill:
  assumes "rate_inv start now rate" and "now \<le> t"
  shows "avail rate ip t \<le> avail rate ip now + (t - now)"
  using assms by (auto simp: avail_def split: option.splits)

lemma avail_nonneg: "rate_inv start now rate \<Longrightarrow> 0 \<le> avail rate ip now"
  by (auto simp: avail_def rate_consts split: option.splits dest!: rate_invD)

lemma rate_step_spec:
  assumes inv: "rate_inv start now rate" and st: "stopReset rate = ChanOpen"
    and t: "start \<le> now" "now \<le> ev_time e" "ev_time e \<le> start + rate_horizon"
  shows "\<exists>ok rate'. rate_step w rate e = Inr (ok, rate') \<and> rate_inv start (ev_time e) rate' \<and>
           stopReset rate' = ChanOpen \<and>
           avail rate' w (ev_time e) = avail rate w (ev_time e) - (if ok then packetCost else 0)"
proof (cases e)
  case (EvTick u)
  then show ?thesis using Rate_gc_spec [OF inv, of u] st t by auto
next
  case (EvAllow ip u)
  with t have h: "start \<le> u" "now \<le> u" "u \<le> start + rate_horizon" by auto
  obtain ok rate' where "Rate_Allow u ip rate = Inr (ok, rate')" "rate_inv start u rate'"
    "stopReset rate' = ChanOpen" "ok \<longleftrightarrow> avail rate ip u > packetCost"
    "avail rate' ip u = avail rate ip u - (if ok then packetCost else 0)"
    "\<And>ip' s. ip' \<noteq> ip \<Longrightarrow> avail rate' ip' s = avail rate ip' s"
    by (rule Rate_Allow_spec [OF inv st h, of ip]) blast
  then show ?thesis using EvAllow by (cases "ip = w") auto
qed

interpretation wg_limiter: token_budget "rate_step w" ev_time
  "\<lambda>now rate. rate_inv start now rate \<and> stopReset rate = ChanOpen \<and> start \<le> now"
  "\<lambda>rate. avail rate w" packetCost maxTokens "start + rate_horizon"
  for w :: 'ip and start :: gotime
proof unfold_locales
  fix now t :: gotime and s :: "'ip Ratelimiter" and e :: "'ip rate_event"
  show "avail s w t \<le> maxTokens"
    by (auto simp: avail_def split: option.splits)
  assume i: "rate_inv start now s \<and> stopReset s = ChanOpen \<and> start \<le> now"
  show "0 \<le> avail s w now" using i avail_nonneg [of start now s w] by simp
  show "now \<le> t \<Longrightarrow> avail s w t \<le> avail s w now + (t - now)" using i avail_refill [of start now s t w] by simp
  assume t: "now \<le> ev_time e" "ev_time e \<le> start + rate_horizon"
  show "\<exists>ok s'. rate_step w s e = Inr (ok, s') \<and>
      (rate_inv start (ev_time e) s' \<and> stopReset s' = ChanOpen \<and> start \<le> ev_time e) \<and>
      avail s' w (ev_time e) = avail s w (ev_time e) - (if ok then packetCost else 0)"
    using rate_step_spec [of start now s e w] i t by fastforce
qed

lemma Rate_Init_inv:
  "Rate_Init rate = Inr r \<Longrightarrow> rate_inv start start r \<and> stopReset r = ChanOpen"
  by (auto simp: Rate_Init_def rate_inv_def split: if_splits)

section \<open>Properties\<close>



lemma Allow_known_bucket:
  assumes "rate_inv start now rate" "stopReset rate = ChanOpen" "now \<le> t" "t \<le> start + rate_horizon"
    and "start \<le> now"
  shows "\<exists>rate'. Rate_Allow t ip rate = Inr (avail rate ip t > packetCost, rate') \<and>
     map_of (table rate') ip = Some \<lparr>lastTime = t,
       tokens = avail rate ip t - (if avail rate ip t > packetCost then packetCost else 0)\<rparr>"
proof (cases "map_of (table rate) ip")
  case None
  then show ?thesis using assms
    by (auto simp: Rate_Allow_def Let_def avail_def update_conv' rate_consts)
next
  case (Some e)
  then show ?thesis using refill_exact [OF assms(1) Some assms(3,4)]
    by (auto simp: Rate_Allow_def Let_def avail_def update_conv' min_def)
qed

text \<open>Collecting idle buckets is invisible: an \<open>Allow\<close> after a cleanup gives the same verdict
  and leaves the same bucket as the \<open>Allow\<close> without the cleanup, because a bucket idle for more
  than a second has refilled.\<close>

theorem cleanup_is_transparent:
  assumes "rate_inv start now rate" and "stopReset rate = ChanOpen" and "start \<le> now"
    and "now \<le> t" and "t \<le> u" and "u \<le> start + rate_horizon"
  shows "\<exists>ok r1 r2. Rate_Allow u ip rate = Inr (ok, r1) \<and>
           Rate_Allow u ip (snd (Rate_cleanup t rate)) = Inr (ok, r2) \<and>
           map_of (table r1) ip = map_of (table r2) ip"
proof -
  have i: "rate_inv start t (snd (Rate_cleanup t rate))"
    using Rate_cleanup_inv assms(1,4) by blast
  have s: "stopReset (snd (Rate_cleanup t rate)) = ChanOpen"
    using assms(2) by (simp add: Rate_cleanup_def Let_def)
  have a: "avail (snd (Rate_cleanup t rate)) ip u = avail rate ip u"
    using Rate_cleanup_avail [OF assms(1,4,5)] .
  show ?thesis
    using Allow_known_bucket [OF assms(1,2), of u ip] Allow_known_bucket [OF i s, of u ip] a assms
    by fastforce
qed


definition idle_limiter :: "nat Ratelimiter" where
  "idle_limiter = \<lparr>stopReset = ChanOpen, ticking = True, table = [(7, \<lparr>lastTime = 5, tokens = 9\<rparr>)]\<rparr>"

theorem cleanup_is_transparent_witness:
  "\<exists>ok r1 r2. Rate_Allow 3000000000 7 idle_limiter = Inr (ok, r1) \<and>
     Rate_Allow 3000000000 7 (snd (Rate_cleanup 2000000000 idle_limiter)) = Inr (ok, r2) \<and>
     map_of (table r1) 7 = map_of (table r2) 7"
proof -
  have "rate_inv 0 10 idle_limiter"
    by (simp add: rate_inv_def idle_limiter_def rate_consts)
  then show ?thesis
    by (rule cleanup_is_transparent) (simp_all add: idle_limiter_def rate_horizon_def)
qed

end
