(* ===== verification/Tai64n.thy ===== *)
theory Tai64n
  imports Prelude
begin

text \<open>
  The timestamps of \<^verbatim>\<open>src/tai64n/tai64n.go\<close> that handshake initiations carry: 12 bytes, the
  TAI64 second count and the nanoseconds with the low 24 bits cleared, both big-endian, so
  that comparing the bytes compares the times. \<open>After\<close> is the strict order of the type, which
  is made an instance of \<open>linorder\<close>.
\<close>

section \<open>Comparing byte strings\<close>

text \<open>\<open>bytes.Compare\<close> of the Go library.\<close>

fun bytes_Compare :: "bytes \<Rightarrow> bytes \<Rightarrow> int" where
  "bytes_Compare [] [] = 0"
| "bytes_Compare [] (y # ys) = -1"
| "bytes_Compare (x # xs) [] = 1"
| "bytes_Compare (x # xs) (y # ys) =
     (if x < y then -1 else if x > y then 1 else bytes_Compare xs ys)"

lemma bytes_Compare_eq0 [simp]: "bytes_Compare xs ys = 0 \<longleftrightarrow> xs = ys"
  by (induction xs ys rule: bytes_Compare.induct) auto

lemma bytes_Compare_refl [simp]: "bytes_Compare xs xs = 0"
  by simp

lemma bytes_Compare_swap: "bytes_Compare ys xs = - bytes_Compare xs ys"
  by (induction xs ys rule: bytes_Compare.induct) auto

lemma bytes_Compare_trans:
  "bytes_Compare xs ys \<le> 0 \<Longrightarrow> bytes_Compare ys zs \<le> 0 \<Longrightarrow> bytes_Compare xs zs \<le> 0"
proof (induction xs ys arbitrary: zs rule: bytes_Compare.induct)
  case 1
  then show ?case by simp
next
  case (2 y ys)
  then show ?case by (cases zs) auto
next
  case (3 x xs)
  then show ?case by simp
next
  case (4 x xs y ys)
  then show ?case by (cases zs) (auto split: if_splits)
qed

section \<open>Timestamps\<close>

datatype Timestamp = Timestamp (ts_bytes: bytes)

definition TimestampSize :: nat where "TimestampSize = 12"
definition base :: u64 where "base = 0x400000000000000a"
definition whitenerMask :: u32 where "whitenerMask = 0x1000000 - 1"

text \<open>The zero value of the array type.\<close>

definition zero_timestamp :: Timestamp where
  "zero_timestamp = Timestamp (replicate TimestampSize 0)"

definition Nanosecond :: "gotime \<Rightarrow> int" where
  "Nanosecond t = t mod second"

definition stamp :: "gotime \<Rightarrow> Timestamp" where
  "stamp t =
     (let secs = base + word_of_int (Unix t);
          nano = word_of_int (Nanosecond t) AND NOT whitenerMask
      in Timestamp (be_bytes 8 secs @ be_bytes 4 nano))"

definition After :: "Timestamp \<Rightarrow> Timestamp \<Rightarrow> bool" where
  "After t1 t2 \<longleftrightarrow> bytes_Compare (ts_bytes t1) (ts_bytes t2) > 0"

instantiation Timestamp :: linorder
begin

definition less_eq_Timestamp :: "Timestamp \<Rightarrow> Timestamp \<Rightarrow> bool" where
  "t1 \<le> t2 \<longleftrightarrow> bytes_Compare (ts_bytes t1) (ts_bytes t2) \<le> 0"

definition less_Timestamp :: "Timestamp \<Rightarrow> Timestamp \<Rightarrow> bool" where
  "t1 < t2 \<longleftrightarrow> bytes_Compare (ts_bytes t1) (ts_bytes t2) < 0"

instance
proof
  fix x y z :: Timestamp
  show "x < y \<longleftrightarrow> x \<le> y \<and> \<not> y \<le> x"
    using bytes_Compare_swap [of "ts_bytes x" "ts_bytes y"]
    by (auto simp: less_Timestamp_def less_eq_Timestamp_def)
  show "x \<le> x" by (simp add: less_eq_Timestamp_def)
  show "x \<le> y \<Longrightarrow> y \<le> z \<Longrightarrow> x \<le> z"
    using bytes_Compare_trans by (auto simp: less_eq_Timestamp_def)
  show "x \<le> y \<Longrightarrow> y \<le> x \<Longrightarrow> x = y"
    using bytes_Compare_swap [of "ts_bytes x" "ts_bytes y"]
      bytes_Compare_eq0 [of "ts_bytes x" "ts_bytes y"]
    by (auto simp: less_eq_Timestamp_def Timestamp.expand)
  show "x \<le> y \<or> y \<le> x"
    using bytes_Compare_swap [of "ts_bytes x" "ts_bytes y"]
    by (auto simp: less_eq_Timestamp_def)
qed

end

lemma After_iff_greater [simp]: "After t1 t2 \<longleftrightarrow> t2 < t1"
  using bytes_Compare_swap [of "ts_bytes t1" "ts_bytes t2"]
  by (auto simp: After_def less_Timestamp_def)

section \<open>Order of the stamps\<close>

lemma bytes_Compare_append:
  "length xs = length ys \<Longrightarrow>
   bytes_Compare (xs @ as) (ys @ bs) = (if xs = ys then bytes_Compare as bs else bytes_Compare xs ys)"
  by (induction xs ys rule: list_induct2) auto

fun be_nat :: "bytes \<Rightarrow> nat" where
  "be_nat [] = 0"
| "be_nat (b # bs) = unat b * 256 ^ length bs + be_nat bs"

lemma be_nat_bound: "be_nat bs < 256 ^ length bs"
proof (induction bs)
  case Nil
  then show ?case by simp
next
  case (Cons b bs)
  have "unat b \<le> 255" using unat_less_exp [of b] by simp
  then have "unat b * 256 ^ length bs \<le> 255 * 256 ^ length bs" by (rule mult_le_mono1)
  with Cons.IH show ?case unfolding be_nat.simps length_Cons power_Suc by linarith
qed

lemma be_nat_less:
  assumes "length xs = length ys"
  shows "bytes_Compare xs ys < 0 \<longleftrightarrow> be_nat xs < be_nat ys"
  using assms
proof (induction xs ys rule: list_induct2)
  case Nil
  then show ?case by simp
next
  case (Cons x xs y ys)
  have bx: "be_nat xs < 256 ^ length ys" and bY: "be_nat ys < 256 ^ length ys"
    using be_nat_bound [of xs] be_nat_bound [of ys] Cons.hyps by auto
  have step: "unat a * 256 ^ length ys + u < unat b * 256 ^ length ys + v"
    if "a < b" "u < 256 ^ length ys" for a b :: u8 and u v :: nat
  proof -
    have "Suc (unat a) * 256 ^ length ys \<le> unat b * 256 ^ length ys"
      using that by (intro mult_le_mono1) (simp add: word_less_nat_alt Suc_leI)
    with that show ?thesis by simp
  qed
  show ?case
    using Cons step [of x y "be_nat xs" "be_nat ys"] step [of y x "be_nat ys" "be_nat xs"] bx bY
    by (auto simp: not_less)
qed

lemma be_nat_append: "be_nat (xs @ ys) = be_nat xs * 256 ^ length ys + be_nat ys"
  by (induction xs) (auto simp: power_add algebra_simps)

lemma be_nat_be_bytes: "be_nat (be_bytes n (w :: 'a::len word)) = unat w mod 256 ^ n"
proof (induction n)
  case 0
  then show ?case by (simp add: be_bytes_def le_bytes_def)
next
  case (Suc n)
  have "unat (ucast (drop_bit (8 * n) w) :: u8) = unat w div 256 ^ n mod 256"
    by (simp add: unsigned_ucast_eq take_bit_eq_mod unat_drop_bit power_mult)
  moreover have "be_bytes (Suc n) w = ucast (drop_bit (8 * n) w) # be_bytes n w"
    by (simp add: be_bytes_def le_bytes_def)
  moreover have "unat w mod 256 ^ Suc n = 256 ^ n * (unat w div 256 ^ n mod 256) + unat w mod 256 ^ n"
    unfolding power_Suc2 by (rule mod_mult2_eq)
  ultimately show ?case
    using Suc by (simp only: be_nat.simps length_be_bytes mult.commute)
qed

lemma be_bytes_less:
  assumes "LENGTH('a) \<le> 8 * n"
  shows "bytes_Compare (be_bytes n (v :: 'a::len word)) (be_bytes n (w :: 'a word)) < 0 \<longleftrightarrow> unat v < unat w"
proof -
  have "unat x < 256 ^ n" for x :: "'a word"
  proof -
    have "unat x < 2 ^ LENGTH('a)" by (rule unat_less_exp)
    also have "\<dots> \<le> 2 ^ (8 * n)" using assms by (intro power_increasing) auto
    finally show ?thesis by (simp add: power_mult)
  qed
  then have "unat v mod 256 ^ n = unat v" "unat w mod 256 ^ n = unat w" by simp_all
  then show ?thesis by (simp only: be_nat_less length_be_bytes be_nat_be_bytes)
qed

lemma be_bytes_inj:
  assumes "LENGTH('a) \<le> 8 * n"
  shows "be_bytes n (v :: 'a::len word) = be_bytes n (w :: 'a word) \<longleftrightarrow> v = w"
  using be_word_be_bytes [OF assms] by metis

lemma uint_secs:
  assumes "- (2 ^ 62) \<le> u" "u < 2 ^ 62"
  shows "uint (base + word_of_int u) = 0x400000000000000a + u"
proof -
  have "base + word_of_int u = word_of_int (0x400000000000000a + u)"
    by (simp add: base_def)
  then have "uint (base + word_of_int u) = take_bit 64 (0x400000000000000a + u)"
    by (simp only: uint_word_of_int_eq) simp
  also have "\<dots> = 0x400000000000000a + u"
    using assms by (intro take_bit_int_eq_self) auto
  finally show ?thesis by simp
qed

lemma whiten: "x AND NOT whitenerMask = push_bit 24 (drop_bit 24 x)"
proof -
  have w: "whitenerMask = mask 24" by (simp add: whitenerMask_def mask_eq_exp_minus_1)
  show ?thesis unfolding w by (rule bit_word_eqI) (auto simp: bit_simps)
qed

lemma unat_nano:
  assumes "0 \<le> n" "n < 2 ^ 32"
  shows "unat ((word_of_int n :: u32) AND NOT whitenerMask) = nat (n div 2 ^ 24) * 2 ^ 24"
proof -
  have n: "unat (word_of_int n :: u32) = nat n"
    using assms by (simp add: unsigned_of_int take_bit_int_eq_self)
  have "unat (word_of_int n :: u32) div 2 ^ 24 * 2 ^ 24 < 2 ^ 32"
    using assms n by (metis div_times_less_eq_dividend le_less_trans nat_less_iff
        of_nat_numeral of_nat_power)
  moreover have "unat (push_bit 24 (drop_bit 24 (word_of_int n :: u32)))
      = take_bit LENGTH(32) (push_bit 24 (unat (drop_bit 24 (word_of_int n :: u32))))"
    by (rule unsigned_push_bit_eq)
  ultimately have "unat (push_bit 24 (drop_bit 24 (word_of_int n :: u32)))
      = unat (word_of_int n :: u32) div 2 ^ 24 * 2 ^ 24"
    by (simp only: unat_drop_bit push_bit_eq_mult) (simp add: take_bit_nat_eq_self)
  then show ?thesis unfolding whiten n using assms by (simp add: nat_div_distrib)
qed

lemma stamp_less_iff:
  assumes "- (2 ^ 62) \<le> Unix s" "Unix s < 2 ^ 62" "- (2 ^ 62) \<le> Unix t" "Unix t < 2 ^ 62"
  shows "stamp s < stamp t \<longleftrightarrow>
     Unix s < Unix t \<or> Unix s = Unix t \<and> Nanosecond s div 2 ^ 24 < Nanosecond t div 2 ^ 24"
proof -
  define a b where "a = base + word_of_int (Unix s)" and "b = base + word_of_int (Unix t)"
  define x y where "x = (word_of_int (Nanosecond s) :: u32) AND NOT whitenerMask"
    and "y = (word_of_int (Nanosecond t) :: u32) AND NOT whitenerMask"
  have ab: "unat a < unat b \<longleftrightarrow> Unix s < Unix t" "a = b \<longleftrightarrow> Unix s = Unix t"
    using uint_secs [of "Unix s"] uint_secs [of "Unix t"] assms
    unfolding word_less_nat_alt [symmetric] word_less_def word_uint_eq_iff
    by (simp_all add: a_def b_def)
  have r: "0 \<le> Nanosecond u \<and> Nanosecond u < 2 ^ 32" for u
    using pos_mod_bound [of second u] by (auto simp: Nanosecond_def second_def)
  have xy: "unat x < unat y \<longleftrightarrow> Nanosecond s div 2 ^ 24 < Nanosecond t div 2 ^ 24"
    unfolding x_def y_def using r [of s] r [of t] by (subst (1 2) unat_nano) (auto simp: nat_less_iff)
  have "stamp s < stamp t \<longleftrightarrow> bytes_Compare (be_bytes 8 a @ be_bytes 4 x) (be_bytes 8 b @ be_bytes 4 y) < 0"
    by (simp add: stamp_def Let_def less_Timestamp_def a_def b_def x_def y_def)
  also have "\<dots> \<longleftrightarrow> (if a = b then unat x < unat y else unat a < unat b)"
    by (simp add: bytes_Compare_append be_bytes_inj be_bytes_less)
  finally show ?thesis using ab xy by auto
qed

text \<open>Stamping respects time: a later time never gets an earlier timestamp, and two times at
  least \<open>2 ^ 24\<close> nanoseconds (the whitening granularity, 17 ms) apart get strictly ordered
  timestamps, for all times within \<open>2 ^ 62\<close> seconds of the Unix epoch.\<close>

theorem stamp_monotone:
  assumes "s \<le> t" "- (2 ^ 62) \<le> Unix s" "Unix t < 2 ^ 62"
  shows "\<not> After (stamp s) (stamp t) \<and> (s + 2 ^ 24 \<le> t \<longrightarrow> After (stamp t) (stamp s))"
proof -
  have u: "Unix s \<le> Unix t"
    using assms(1) by (simp add: Unix_def second_def zdiv_mono1)
  have same: "t - s = Nanosecond t - Nanosecond s" if "Unix s = Unix t"
  proof -
    have "t div second = s div second" using that by (simp add: Unix_def)
    then have "second * (s div second) + Nanosecond s = s" "second * (s div second) + Nanosecond t = t"
      using mult_div_mod_eq [of second s] mult_div_mod_eq [of second t] by (simp_all add: Nanosecond_def)
    then show ?thesis by linarith
  qed
  have mono: "Unix s = Unix t \<Longrightarrow> Nanosecond s div 2 ^ 24 \<le> Nanosecond t div 2 ^ 24"
    using same assms(1) by (intro zdiv_mono1) auto
  have strict: "Nanosecond s div 2 ^ 24 < Nanosecond t div 2 ^ 24"
    if "Unix s = Unix t" "s + 2 ^ 24 \<le> t"
  proof -
    have "(Nanosecond s + 2 ^ 24) div 2 ^ 24 \<le> Nanosecond t div 2 ^ 24"
      using same [OF that(1)] that(2) by (intro zdiv_mono1) auto
    then show ?thesis by simp
  qed
  have b: "- (2 ^ 62) \<le> Unix t" "Unix s < 2 ^ 62" using u assms by linarith+
  have 1: "stamp s < stamp t \<longleftrightarrow>
     Unix s < Unix t \<or> Unix s = Unix t \<and> Nanosecond s div 2 ^ 24 < Nanosecond t div 2 ^ 24"
    using assms b by (intro stamp_less_iff)
  have 2: "stamp t < stamp s \<longleftrightarrow>
     Unix t < Unix s \<or> Unix t = Unix s \<and> Nanosecond t div 2 ^ 24 < Nanosecond s div 2 ^ 24"
    using assms b by (intro stamp_less_iff)
  have "\<not> stamp t < stamp s" unfolding 2 using u mono by linarith
  moreover have "stamp s < stamp t" if "s + 2 ^ 24 \<le> t"
    unfolding 1 using u strict [OF _ that] by linarith
  ultimately show ?thesis by simp
qed

theorem stamp_monotone_witness:
  "After (stamp (unixToInternal * second + 20000000)) (stamp (unixToInternal * second))"
  using stamp_monotone [of "unixToInternal * second" "unixToInternal * second + 20000000"]
  by (simp add: Unix_def unixToInternal_def second_def)

end
