(* ===== verification/AllowedIPs.thy ===== *)
theory AllowedIPs
  imports Prelude "HOL-Library.Sublist" "HOL-Library.Monad_Syntax"
begin

text \<open>
  Cryptokey routing, \<^verbatim>\<open>src/device/allowedips.go\<close>: a compressed binary trie per address family
  maps prefixes to peers, and every peer keeps the list of its trie nodes. A Go
  \<open>*trieEntry\<close> is a value of the datatype \<open>trieEntry\<close>; writing through a parent pointer is
  rebuilding the path, so the parent pointers themselves need no field. A node is known by its
  prefix (bits and length), which is unique in a trie; the per-peer lists hold prefixes.
  An operation that would index out of range or reach a \<open>panic\<close> returns \<open>None\<close>.
  The trie is proved to implement a finite map from bit strings to peers (\<open>trie_map\<close>), lookup
  to be longest-prefix match in it.
\<close>

section \<open>Bit strings of addresses\<close>

definition byte_bits :: "u8 \<Rightarrow> bool list" where
  "byte_bits b = map (\<lambda>i. bit b (7 - i)) [0..<8]"

definition ip_bits :: "bytes \<Rightarrow> bool list" where
  "ip_bits ip = concat (map byte_bits ip)"

text \<open>\<open>bits.LeadingZeros32\<close> and \<open>64\<close> of the Go library.\<close>

definition LeadingZeros :: "'a::len word \<Rightarrow> nat" where
  "LeadingZeros x = length (takeWhile Not (map (bit x) (rev [0..<LENGTH('a)])))"

section \<open>Trie nodes\<close>

datatype 'p trieEntry =
    Nil_entry
  | Entry (entry_peer: "'p option") (entry_cidr: nat) (entry_bits: bytes)
      (entry_child0: "'p trieEntry") (entry_child1: "'p trieEntry")

definition commonBits :: "bytes \<Rightarrow> bytes \<Rightarrow> nat option" where
  "commonBits ip1 ip2 =
     (if length ip1 = 4 then
        if length ip2 < 4 then None
        else
          let a = be_word (take 4 ip1) :: u32;
              b = be_word (take 4 ip2);
              x = a XOR b
          in Some (LeadingZeros x)
      else if length ip1 = 16 then
        if length ip2 < 16 then None
        else
          let a = be_word (take 8 ip1) :: u64;
              b = be_word (take 8 ip2);
              x = a XOR b
          in if x \<noteq> 0 then Some (LeadingZeros x)
             else
               let a = be_word (take 8 (drop 8 ip1)) :: u64;
                   b = be_word (take 8 (drop 8 ip2));
                   x = a XOR b
               in Some (64 + LeadingZeros x)
      else None)"

text \<open>\<open>node.choose(ip)\<close> for a node of prefix length \<open>cidr\<close>: \<open>bitAtByte\<close> is \<open>cidr / 8\<close> and
  \<open>bitAtShift\<close> is \<open>7 - cidr % 8\<close>.\<close>

definition choose_bit :: "nat \<Rightarrow> bytes \<Rightarrow> bool option" where
  "choose_bit cidr ip =
     (if cidr div 8 < length ip
      then Some (drop_bit (7 - cidr mod 8) (ip ! (cidr div 8)) AND 1 = 1)
      else None)"

text \<open>\<open>net.CIDRMask\<close> of the Go library; nil for sizes other than 32 and 128.\<close>

fun mask_bytes :: "nat \<Rightarrow> nat \<Rightarrow> bytes" where
  "mask_bytes 0 n = []"
| "mask_bytes (Suc l) n =
     (if n \<ge> 8 then 0xff # mask_bytes l (n - 8) else NOT (drop_bit n 0xff) # mask_bytes l 0)"

definition CIDRMask :: "nat \<Rightarrow> nat \<Rightarrow> bytes" where
  "CIDRMask ones nbits =
     (if (nbits = 32 \<or> nbits = 128) \<and> ones \<le> nbits then mask_bytes (nbits div 8) ones else [])"

definition maskSelf :: "nat \<Rightarrow> bytes \<Rightarrow> bytes" where
  "maskSelf cidr bits =
     (let m = CIDRMask cidr (length bits * 8)
      in map2 (\<lambda>b k. b AND k) (take (length m) bits) m @ drop (length m) bits)"

text \<open>\<open>insert\<close>. The first case is the empty slot; the second follows \<open>nodePlacement\<close> down while
  the node's prefix contains the new one, ending in the exact node or in a slot; the last case
  is reached at the first node \<open>down\<close> that is not on the path: the new node becomes its parent
  or both hang below a new glue node. A slot of the placement parent is the recursive result.\<close>

fun trie_insert :: "'p trieEntry \<Rightarrow> bytes \<Rightarrow> nat \<Rightarrow> 'p \<Rightarrow> 'p trieEntry option" where
  "trie_insert Nil_entry ip cidr peer =
     Some (Entry (Some peer) cidr (maskSelf cidr ip) Nil_entry Nil_entry)"
| "trie_insert (Entry p c bits l r) ip cidr peer =
     do {
       common \<leftarrow> commonBits bits ip;
       if c \<le> cidr \<and> common \<ge> c then
         if c = cidr then Some (Entry (Some peer) c bits l r)
         else do {
           bt \<leftarrow> choose_bit c ip;
           if bt then do { r' \<leftarrow> trie_insert r ip cidr peer; Some (Entry p c bits l r') }
           else do { l' \<leftarrow> trie_insert l ip cidr peer; Some (Entry p c bits l' r) }
         }
       else
         let down = Entry p c bits l r;
             newBits = maskSelf cidr ip;
             cidr' = (if common < cidr then common else cidr)
         in if cidr = cidr' then do {
              bt \<leftarrow> choose_bit cidr bits;
              Some (if bt then Entry (Some peer) cidr newBits Nil_entry down
                    else Entry (Some peer) cidr newBits down Nil_entry)
            }
            else do {
              let newNode = Entry (Some peer) cidr newBits Nil_entry Nil_entry;
              bt \<leftarrow> choose_bit cidr' bits;
              bt' \<leftarrow> choose_bit cidr' newBits;
              Some (Entry None cidr' (maskSelf cidr' newBits)
                (if \<not> bt' then newNode else if \<not> bt then down else Nil_entry)
                (if bt' then newNode else if bt then down else Nil_entry))
            }
     }"

fun trie_lookup :: "'p trieEntry \<Rightarrow> bytes \<Rightarrow> 'p option \<Rightarrow> 'p option option" where
  "trie_lookup Nil_entry ip found = Some found"
| "trie_lookup (Entry p c bits l r) ip found =
     do {
       common \<leftarrow> commonBits bits ip;
       if common \<ge> c then
         let found = (if p \<noteq> None then p else found)
         in if c div 8 = length ip then Some found
            else do {
              bt \<leftarrow> choose_bit c ip;
              trie_lookup (if bt then r else l) ip found
            }
       else Some found
     }"

text \<open>\<open>nodePlacement\<close>, returning the peer field of the exact node: \<open>Some None\<close> when there is no
  exact node, \<open>Some (Some p)\<close> when its peer field is \<open>p\<close>.\<close>

fun trie_exact :: "'p trieEntry \<Rightarrow> bytes \<Rightarrow> nat \<Rightarrow> 'p option option option" where
  "trie_exact Nil_entry ip cidr = Some None"
| "trie_exact (Entry p c bits l r) ip cidr =
     (if c \<le> cidr then
        do {
          common \<leftarrow> commonBits bits ip;
          if common \<ge> c then
            if c = cidr then Some (Some p)
            else do {
              bt \<leftarrow> choose_bit c ip;
              trie_exact (if bt then r else l) ip cidr
            }
          else Some None
        }
      else Some None)"

text \<open>\<open>remove\<close> of the node with the given prefix. The flag tells the parent that its child was
  removed and had no children of its own: a parent without a peer is then replaced by its other
  child.\<close>

fun trie_remove :: "'p trieEntry \<Rightarrow> bytes \<Rightarrow> nat \<Rightarrow> ('p trieEntry \<times> bool) option" where
  "trie_remove Nil_entry ip cidr = Some (Nil_entry, False)"
| "trie_remove (Entry p c bits l r) ip cidr =
     (if c \<le> cidr then
        do {
          common \<leftarrow> commonBits bits ip;
          if common \<ge> c then
            if c = cidr then
              Some (if l \<noteq> Nil_entry \<and> r \<noteq> Nil_entry then (Entry None c bits l r, False)
                    else let child = (if l = Nil_entry then r else l)
                         in (child, l = Nil_entry \<and> r = Nil_entry))
            else do {
              bt \<leftarrow> choose_bit c ip;
              (t, gone) \<leftarrow> trie_remove (if bt then r else l) ip cidr;
              Some (if gone \<and> p = None then (if bt then l else r, False)
                    else (if bt then Entry p c bits l t else Entry p c bits t r, False))
            }
          else Some (Entry p c bits l r, False)
        }
      else Some (Entry p c bits l r, False))"

section \<open>Bit-level lemmas\<close>

lemma length_byte_bits [simp]: "length (byte_bits b) = 8"
  by (simp add: byte_bits_def)

lemma nth_byte_bits: "n < 8 \<Longrightarrow> byte_bits b ! n = bit b (7 - n)"
  by (simp add: byte_bits_def del: upt_rec_numeral)

lemma ip_bits_simps [simp]: "ip_bits [] = []" "ip_bits (b # bs) = byte_bits b @ ip_bits bs"
  by (simp_all add: ip_bits_def)

lemma ip_bits_append: "ip_bits (xs @ ys) = ip_bits xs @ ip_bits ys"
  by (simp add: ip_bits_def)

lemma length_ip_bits [simp]: "length (ip_bits ip) = 8 * length ip"
  by (induction ip) auto

lemma nth_ip_bits: "n < 8 * length ip \<Longrightarrow> ip_bits ip ! n = bit (ip ! (n div 8)) (7 - n mod 8)"
proof (induction ip arbitrary: n)
  case Nil
  then show ?case by simp
next
  case (Cons b ip)
  show ?case
  proof (cases "n < 8")
    case True
    then show ?thesis by (simp add: nth_append nth_byte_bits)
  next
    case False
    then have "n div 8 = Suc ((n - 8) div 8)" "n mod 8 = (n - 8) mod 8"
      by (simp_all add: le_div_geq le_mod_geq not_less)
    with False Cons show ?thesis by (simp add: nth_append)
  qed
qed

lemma choose_bit_nth: "c < 8 * length ip \<Longrightarrow> choose_bit c ip = Some (ip_bits ip ! c)"
proof -
  assume c: "c < 8 * length ip"
  have "(drop_bit k w AND 1 = (1 :: u8)) \<longleftrightarrow> bit w k" for w :: u8 and k
    by (simp add: and_one_eq bit_iff_odd_drop_bit mod2_eq_if)
  with c show ?thesis by (simp add: choose_bit_def nth_ip_bits)
qed

lemma byte_bits_inj: "byte_bits a = byte_bits b \<longleftrightarrow> a = b"
proof
  assume e: "byte_bits a = byte_bits b"
  have "bit a n = bit b n" if "n < 8" for n
  proof -
    have "byte_bits a ! (7 - n) = byte_bits b ! (7 - n)" using e by simp
    with that show ?thesis by (simp add: nth_byte_bits)
  qed
  then show "a = b" by (intro bit_word_eqI) simp
qed simp

lemma ip_bits_inj: "length xs = length ys \<Longrightarrow> ip_bits xs = ip_bits ys \<longleftrightarrow> xs = ys"
  by (induction xs ys rule: list_induct2) (auto simp: byte_bits_inj)

text \<open>The reference definition of \<open>commonBits\<close>: the length of the longest common prefix of the two
  bit strings.\<close>

fun lcp_len :: "'a list \<Rightarrow> 'a list \<Rightarrow> nat" where
  "lcp_len (x # xs) (y # ys) = (if x = y then Suc (lcp_len xs ys) else 0)"
| "lcp_len _ _ = 0"

lemma lcp_len_append:
  "length xs = length ys \<Longrightarrow>
   lcp_len (xs @ as) (ys @ bs) = (if xs = ys then length xs + lcp_len as bs else lcp_len xs ys)"
  by (induction xs ys rule: list_induct2) auto

lemma lcp_len_takeWhile:
  "length xs = length ys \<Longrightarrow> length (takeWhile Not (map2 (\<noteq>) xs ys)) = lcp_len xs ys"
  by (induction xs ys rule: list_induct2) auto

lemma lcp_len_ge: "n \<le> length xs \<Longrightarrow> n \<le> length ys \<Longrightarrow> n \<le> lcp_len xs ys \<longleftrightarrow> take n xs = take n ys"
proof (induction xs ys arbitrary: n rule: lcp_len.induct)
  case (1 x xs y ys)
  then show ?case by (cases n) auto
qed auto

lemma lcp_len_le: "lcp_len xs ys \<le> length xs" "lcp_len xs ys \<le> length ys"
  by (induction xs ys rule: lcp_len.induct) auto

lemma bits_of_be_word:
  assumes L: "LENGTH('a) = 8 * length bs"
  shows "map (bit (be_word bs :: 'a::len word)) (rev [0..<LENGTH('a)]) = ip_bits bs"
proof (rule nth_equalityI)
  show "length (map (bit (be_word bs :: 'a word)) (rev [0..<LENGTH('a)])) = length (ip_bits bs)"
    using L by simp
next
  fix n assume "n < length (map (bit (be_word bs :: 'a word)) (rev [0..<LENGTH('a)]))"
  then have n: "n < 8 * length bs" using L by simp
  let ?k = "8 * length bs - Suc n"
  have q: "n div 8 < length bs" "n mod 8 < 8" using n by auto
  have "n = 8 * (n div 8) + n mod 8" by simp
  with q have e: "?k = 8 * (length bs - Suc (n div 8)) + (7 - n mod 8)" by linarith
  define a b where "a = length bs - Suc (n div 8)" and "b = 7 - n mod 8"
  have "b < 8" by (simp add: b_def)
  then have "?k div 8 = a" "?k mod 8 = b" unfolding e a_def [symmetric] b_def [symmetric] by simp_all
  then have k: "?k div 8 = length bs - Suc (n div 8)" "?k mod 8 = 7 - n mod 8"
    by (simp_all only: a_def b_def)
  have b2: "?k < 8 * length bs" "length bs - Suc (n div 8) < length bs" using n q by linarith+
  have "map (bit (be_word bs :: 'a word)) (rev [0..<LENGTH('a)]) ! n = bit (be_word bs :: 'a word) ?k"
    using n L by (simp add: rev_nth)
  also have "\<dots> = bit (rev bs ! (?k div 8)) (?k mod 8)"
    unfolding be_word_def bit_le_word using L k b2 by simp
  also have "\<dots> = bit (bs ! (n div 8)) (7 - n mod 8)"
    using n k b2 q by (subst rev_nth) auto
  also have "\<dots> = ip_bits bs ! n"
    using n by (simp add: nth_ip_bits)
  finally show "map (bit (be_word bs :: 'a word)) (rev [0..<LENGTH('a)]) ! n = ip_bits bs ! n" .
qed

lemma LeadingZeros_xor:
  assumes "LENGTH('a) = 8 * length xs" and "length ys = length xs"
  shows "LeadingZeros (be_word xs XOR be_word ys :: 'a::len word) = lcp_len (ip_bits xs) (ip_bits ys)"
proof -
  let ?ns = "rev [0..<LENGTH('a)]"
  have "map (bit (be_word xs XOR be_word ys :: 'a word)) ?ns
      = map2 (\<noteq>) (map (bit (be_word xs :: 'a word)) ?ns) (map (bit (be_word ys :: 'a word)) ?ns)"
    by (simp add: map2_map_map bit_xor_iff)
  also have "map (bit (be_word xs :: 'a word)) ?ns = ip_bits xs"
    by (rule bits_of_be_word) (rule assms)
  also have "map (bit (be_word ys :: 'a word)) ?ns = ip_bits ys"
    by (rule bits_of_be_word) (simp add: assms)
  finally have e: "map (bit (be_word xs XOR be_word ys :: 'a word)) ?ns
      = map2 (\<noteq>) (ip_bits xs) (ip_bits ys)" .
  show ?thesis
    unfolding LeadingZeros_def e using assms by (intro lcp_len_takeWhile) simp
qed

lemma be_word_eq_iff:
  assumes "LENGTH('a) = 8 * length xs" and "length ys = length xs"
  shows "be_word xs XOR be_word ys = (0 :: 'a::len word) \<longleftrightarrow> xs = ys"
proof
  assume "be_word xs XOR be_word ys = (0 :: 'a word)"
  then have "be_word xs = (be_word ys :: 'a word)"
    by (metis xor.assoc xor.left_neutral xor.right_neutral xor_self_eq)
  then show "xs = ys"
    using be_bytes_be_word [of xs, where 'a = 'a] be_bytes_be_word [of ys, where 'a = 'a] assms
    by (metis order_refl)
qed simp

lemma commonBits_correct:
  assumes "length ip1 = 4 \<or> length ip1 = 16" and "length ip2 = length ip1"
  shows "commonBits ip1 ip2 = Some (lcp_len (ip_bits ip1) (ip_bits ip2))"
  using assms(1)
proof
  assume "length ip1 = 4"
  with assms(2) show ?thesis by (simp add: commonBits_def LeadingZeros_xor)
next
  assume l: "length ip1 = 16"
  define a1 b1 a2 b2 where "a1 = take 8 ip1" "b1 = drop 8 ip1" "a2 = take 8 ip2" "b2 = drop 8 ip2"
  note d = this
  have ip: "ip1 = a1 @ b1" "ip2 = a2 @ b2" "length a1 = 8" "length a2 = 8" "length b1 = 8" "length b2 = 8"
    using l assms(2) by (simp_all add: d)
  show ?thesis
    unfolding ip using ip(3-)
    by (simp add: commonBits_def Let_def be_word_eq_iff LeadingZeros_xor ip_bits_append
        lcp_len_append ip_bits_inj)
qed

text \<open>Masking keeps the first \<open>cidr\<close> bits and clears the rest.\<close>

lemma u8_ones: "(0xff :: u8) = - 1"
  by simp

lemma byte_mask_bits:
  "n < 8 \<Longrightarrow> byte_bits (b AND NOT (drop_bit n 0xff)) = take n (byte_bits b) @ replicate (8 - n) False"
proof (rule nth_equalityI)
  fix k assume n: "n < 8" and "k < length (byte_bits (b AND NOT (drop_bit n 0xff)))"
  then have k: "k < 8" by simp
  have "byte_bits (b AND NOT (drop_bit n 0xff)) ! k \<longleftrightarrow> bit b (7 - k) \<and> \<not> n + (7 - k) < 8"
    unfolding u8_ones using n k
    by (auto simp: nth_byte_bits bit_and_iff bit_not_iff bit_drop_bit_eq bit_mask_iff)
  also have "\<dots> \<longleftrightarrow> (take n (byte_bits b) @ replicate (8 - n) False) ! k"
    using n k by (cases "k < n") (auto simp: nth_append nth_byte_bits)
  finally show "byte_bits (b AND NOT (drop_bit n 0xff)) ! k
      = (take n (byte_bits b) @ replicate (8 - n) False) ! k" .
qed simp

lemma mask_bytes_bits:
  "n \<le> 8 * length bs \<Longrightarrow>
   ip_bits (map2 (\<lambda>b k. b AND k) bs (mask_bytes (length bs) n))
     = take n (ip_bits bs) @ replicate (8 * length bs - n) False"
proof (induction bs arbitrary: n)
  case Nil
  then show ?case by simp
next
  case (Cons b bs)
  have ff: "x AND (0xff :: u8) = x" for x
    unfolding u8_ones by simp
  show ?case
  proof (cases "n \<ge> 8")
    case True
    with Cons show ?thesis by (simp add: ff)
  next
    case False
    with Cons.IH [of 0] show ?thesis
      by (simp add: byte_mask_bits flip: replicate_add)
  qed
qed

lemma length_mask_bytes [simp]: "length (mask_bytes l n) = l"
  by (induction l n rule: mask_bytes.induct) auto

lemma maskSelf_bits:
  assumes "length bits = 4 \<or> length bits = 16" and "cidr \<le> 8 * length bits"
  shows "ip_bits (maskSelf cidr bits) = take cidr (ip_bits bits) @ replicate (8 * length bits - cidr) False"
    and "length (maskSelf cidr bits) = length bits"
proof -
  have "CIDRMask cidr (length bits * 8) = mask_bytes (length bits) cidr"
    using assms by (auto simp: CIDRMask_def)
  then have "maskSelf cidr bits = map2 (\<lambda>b k. b AND k) bits (mask_bytes (length bits) cidr)"
    by (simp add: maskSelf_def Let_def)
  then show "ip_bits (maskSelf cidr bits) = take cidr (ip_bits bits) @ replicate (8 * length bits - cidr) False"
    and "length (maskSelf cidr bits) = length bits"
    using mask_bytes_bits [OF assms(2)] by simp_all
qed

section \<open>The trie as a map from prefixes\<close>

text \<open>The map a trie denotes: bit strings to peers.\<close>

fun trie_map :: "'p trieEntry \<Rightarrow> bool list \<Rightarrow> 'p option" where
  "trie_map Nil_entry k = None"
| "trie_map (Entry p c bits l r) k =
     (let key = take c (ip_bits bits)
      in if k = key then p
         else if prefix (key @ [False]) k then trie_map l k
         else if prefix (key @ [True]) k then trie_map r k
         else None)"

declare trie_map.simps(2) [simp del]

lemmas trie_map_Entry = trie_map.simps(2) [unfolded Let_def]

text \<open>Well-formed tries for addresses of \<open>W\<close> bytes below the bit string \<open>ks\<close>: bits beyond the
  prefix are cleared, children extend the prefix with their branch bit, and a node without a
  peer has two children.\<close>

fun wf_trie :: "nat \<Rightarrow> bool list \<Rightarrow> 'p trieEntry \<Rightarrow> bool" where
  "wf_trie W ks Nil_entry = True"
| "wf_trie W ks (Entry p c bits l r) =
     (let key = take c (ip_bits bits)
      in length bits = W \<and> c \<le> 8 * W \<and> maskSelf c bits = bits \<and> prefix ks key \<and>
         (p = None \<longrightarrow> l \<noteq> Nil_entry \<and> r \<noteq> Nil_entry) \<and>
         wf_trie W (key @ [False]) l \<and> wf_trie W (key @ [True]) r)"

definition addr_width :: "nat \<Rightarrow> bool" where
  "addr_width W \<longleftrightarrow> W = 4 \<or> W = 16"

text \<open>Longest-prefix match in such a map, the specification of \<open>lookup\<close>.\<close>

definition lpm :: "(bool list \<Rightarrow> 'p option) \<Rightarrow> bool list \<Rightarrow> 'p option" where
  "lpm m bs = (case filter (\<lambda>n. m (take n bs) \<noteq> None) (rev [0..<Suc (length bs)]) of
      [] \<Rightarrow> None | n # _ \<Rightarrow> m (take n bs))"

lemma lpm_fold:
  "lpm m bs = fold (\<lambda>n found. case m (take n bs) of None \<Rightarrow> found | Some p \<Rightarrow> Some p)
     [0..<Suc (length bs)] None"
proof -
  have "fold (\<lambda>n found. case m (take n bs) of None \<Rightarrow> found | Some p \<Rightarrow> Some p) ns None
      = (case filter (\<lambda>n. m (take n bs) \<noteq> None) (rev ns) of [] \<Rightarrow> None | n # _ \<Rightarrow> m (take n bs))" for ns
    by (induction ns rule: rev_induct) (auto split: option.splits list.splits)
  then show ?thesis by (simp only: lpm_def)
qed

lemma lpm_None: "(\<And>n. n \<le> length bs \<Longrightarrow> m (take n bs) = None) \<Longrightarrow> lpm m bs = None"
proof -
  assume a: "\<And>n. n \<le> length bs \<Longrightarrow> m (take n bs) = None"
  have "filter (\<lambda>n. m (take n bs) \<noteq> None) (rev [0..<Suc (length bs)]) = []"
    using a by (auto simp: filter_empty_conv less_Suc_eq_le simp del: upt_Suc)
  then show ?thesis by (simp add: lpm_def)
qed

lemma lpm_step:
  assumes c: "c < length bs" and low: "\<And>n. n < c \<Longrightarrow> m (take n bs) = None"
    and sub: "\<And>n. n \<le> c \<Longrightarrow> m' (take n bs) = None"
    and high: "\<And>n. c < n \<Longrightarrow> n \<le> length bs \<Longrightarrow> m (take n bs) = m' (take n bs)"
  shows "lpm m bs = (case lpm m' bs of None \<Rightarrow> m (take c bs) | Some p \<Rightarrow> Some p)"
proof -
  let ?f = "\<lambda>m n found. case m (take n bs) of None \<Rightarrow> found | Some p \<Rightarrow> Some p"
  have split: "[0..<Suc (length bs)] = [0..<c] @ [c] @ [Suc c..<Suc (length bs)]"
    using c by (metis append_Cons append_Nil le_SucI less_imp_le upt_add_eq_append upt_conv_Cons
        less_Suc_eq add_0 le_add_diff_inverse zero_le)
  have skip: "fold (?f m) ns x = x" if "\<And>n. n \<in> set ns \<Longrightarrow> m (take n bs) = None"
    for ns x and m :: "bool list \<Rightarrow> 'a option"
    using that by (induction ns arbitrary: x) auto
  have seed: "fold (?f m') ns x = (case fold (?f m') ns None of None \<Rightarrow> x | Some p \<Rightarrow> Some p)" for ns x
    by (induction ns rule: rev_induct) (auto split: option.splits)
  have "fold (?f m) [Suc c..<Suc (length bs)] x = fold (?f m') [Suc c..<Suc (length bs)] x" for x
    using high by (intro fold_cong) (auto simp: less_Suc_eq_le simp del: upt_Suc)
  moreover have "fold (?f m) [0..<c] None = None" "fold (?f m') [0..<c] None = None"
    using low sub by (auto intro!: skip)
  ultimately have "lpm m bs = fold (?f m') [Suc c..<Suc (length bs)] (m (take c bs))"
    and "lpm m' bs = fold (?f m') [Suc c..<Suc (length bs)] None"
    unfolding lpm_fold split by (auto simp: sub split: option.splits)
  then show ?thesis using seed [of "[Suc c..<Suc (length bs)]" "m (take c bs)"] by simp
qed

lemma wf_trie_mono: "wf_trie W ks t \<Longrightarrow> prefix ks' ks \<Longrightarrow> wf_trie W ks' t"
  by (cases t) (auto simp: Let_def intro: prefix_order.trans)

lemma trie_map_below: "wf_trie W ks t \<Longrightarrow> trie_map t k \<noteq> None \<Longrightarrow> prefix ks k"
proof (cases t)
  case (Entry p c bits l r)
  assume w: "wf_trie W ks t" and k: "trie_map t k \<noteq> None"
  have "prefix (take c (ip_bits bits)) k"
    using k Entry by (auto simp: trie_map_Entry split: if_splits elim: prefixE)
  with w Entry show ?thesis by (auto simp: Let_def intro: prefix_order.trans)
qed auto

lemma trie_map_notin: "wf_trie W ks t \<Longrightarrow> \<not> prefix ks k \<Longrightarrow> trie_map t k = None"
  using trie_map_below by fastforce

lemma prefix_iff_take: "prefix xs ys \<longleftrightarrow> length xs \<le> length ys \<and> take (length xs) ys = xs"
  by (metis append_eq_conv_conj prefixE prefix_length_le take_is_prefix)

lemma prefix_snoc_iff:
  assumes "c < length bs" "take c bs = key" "n \<le> length bs"
  shows "prefix (key @ [b]) (take n bs) \<longleftrightarrow> c < n \<and> bs ! c = b"
proof -
  have len: "length key = c" using assms by auto
  have "prefix (key @ [b]) (take n bs) \<longleftrightarrow> Suc c \<le> n \<and> take (Suc c) bs = key @ [b]"
    using assms len by (auto simp: prefix_iff_take min_def)
  then show ?thesis using assms by (auto simp: take_Suc_conv_app_nth)
qed

text \<open>What the guards of the loops say about the bit strings.\<close>

lemma common_ge_iff:
  assumes "addr_width W" "length bits = W" "length ip = W" "c \<le> 8 * W"
  obtains common where "commonBits bits ip = Some common"
    and "common = lcp_len (ip_bits bits) (ip_bits ip)"
    and "common \<ge> c \<longleftrightarrow> take c (ip_bits bits) = take c (ip_bits ip)"
  using assms commonBits_correct [of bits ip] lcp_len_ge [of c "ip_bits bits" "ip_bits ip"]
  by (auto simp: addr_width_def)

lemma key_prefix_full:
  assumes "wf_trie W (key @ [b]) t" and "length key = 8 * W"
  shows "t = Nil_entry"
proof (cases t)
  case (Entry p c bits l r)
  then have "length (key @ [b]) \<le> 8 * W"
    using assms(1) prefix_length_le by (fastforce simp: Let_def)
  with assms(2) show ?thesis by simp
qed

lemma trie_map_at_path:
  assumes "c < length bs" "take c (ip_bits bits) = take c bs" "length (take c (ip_bits bits)) = c"
    "n \<le> length bs"
  shows "trie_map (Entry p c bits l r) (take n bs) =
     (if n < c then None else if n = c then p
      else trie_map (if bs ! c then r else l) (take n bs))"
proof -
  have eq: "take n bs = take c (ip_bits bits) \<longleftrightarrow> n = c"
    using assms by (metis length_take min.absorb2 less_imp_le)
  have pre: "prefix (take c (ip_bits bits) @ [b]) (take n bs) \<longleftrightarrow> c < n \<and> bs ! c = b" for b
    using assms by (intro prefix_snoc_iff) auto
  show ?thesis using eq pre by (auto simp: trie_map_Entry)
qed

lemma trie_lookup_correct:
  assumes "addr_width W" "length ip = W" "wf_trie W ks t"
  shows "trie_lookup t ip found =
     Some (case lpm (trie_map t) (ip_bits ip) of None \<Rightarrow> found | Some p \<Rightarrow> Some p)"
  using assms(3)
proof (induction t arbitrary: ks found)
  case Nil_entry
  then show ?case by (simp add: lpm_None)
next
  case (Entry p c bits l r)
  let ?B = "ip_bits ip" and ?key = "take c (ip_bits bits)"
  have w: "length bits = W" "c \<le> 8 * W" "wf_trie W (?key @ [False]) l" "wf_trie W (?key @ [True]) r"
    and len: "length ?key = c" "length ?B = 8 * W"
    using Entry.prems assms by (auto simp: Let_def)
  obtain common where cb: "commonBits bits ip = Some common"
    and ge: "common \<ge> c \<longleftrightarrow> ?key = take c ?B"
    using common_ge_iff [OF assms(1) w(1) assms(2) w(2)] by metis
  show ?case
  proof (cases "?key = take c ?B")
    case False
    have "trie_map (Entry p c bits l r) (take n ?B) = None" if "n \<le> length ?B" for n
    proof (rule ccontr)
      assume "trie_map (Entry p c bits l r) (take n ?B) \<noteq> None"
      then have "prefix ?key (take n ?B)"
        by (auto simp: trie_map_Entry split: if_splits elim: prefixE)
      then have "?key = take c ?B"
        using len w by (auto simp: prefix_iff_take min_def split: if_splits)
      with False show False ..
    qed
    then have "lpm (trie_map (Entry p c bits l r)) ?B = None" by (rule lpm_None)
    with False cb ge show ?thesis by simp
  next
    case key: True
    show ?thesis
    proof (cases "c = 8 * W")
      case True
      then have nil: "l = Nil_entry" "r = Nil_entry"
        using key_prefix_full w len by metis+
      have "lpm (trie_map (Entry p c bits l r)) ?B = p"
      proof -
        have B: "?key = ?B" using key True len by simp
        have "trie_map (Entry p c bits l r) (take n ?B) = None" if "n < 8 * W" for n
          unfolding nil using that B len by (auto simp: trie_map_Entry prefix_iff_take)
        moreover have "trie_map (Entry p c bits l r) (take (length ?B) ?B) = p"
          using B by (simp add: trie_map_Entry)
        ultimately show ?thesis
          unfolding lpm_fold using len(2)
          by (subst upt_Suc_append; simp add: fold_append)
             (subst fold_invariant [where P = "\<lambda>x. x = None" and Q = "\<lambda>n. n < 8 * W"];
               auto split: option.splits)
      qed
      with True cb ge key assms show ?thesis by (auto split: option.splits)
    next
      case False
      then have c: "c < length ?B" using w len by simp
      have nd: "c div 8 \<noteq> length ip" using c len assms by auto
      define t' where "t' = (if ?B ! c then r else l)"
      have w': "wf_trie W (?key @ [?B ! c]) t'" using w by (auto simp: t'_def)
      have step: "lpm (trie_map (Entry p c bits l r)) ?B
          = (case lpm (trie_map t') ?B of None \<Rightarrow> p | Some q \<Rightarrow> Some q)"
      proof -
        have sub: "trie_map t' (take n ?B) = None" if "n \<le> c" for n
          using trie_map_notin [OF w'] that c len by (auto simp: prefix_iff_take)
        have m: "trie_map (Entry p c bits l r) (take n ?B) =
            (if n < c then None else if n = c then p else trie_map t' (take n ?B))" if "n \<le> length ?B" for n
          unfolding t'_def by (rule trie_map_at_path [OF c key len(1) that])
        have "lpm (trie_map (Entry p c bits l r)) ?B
            = (case lpm (trie_map t') ?B of None \<Rightarrow> trie_map (Entry p c bits l r) (take c ?B) | Some q \<Rightarrow> Some q)"
        proof (rule lpm_step [OF c])
          show "trie_map (Entry p c bits l r) (take n ?B) = None" if "n < c" for n
            using m [of n] that c by simp
          show "trie_map (Entry p c bits l r) (take n ?B) = trie_map t' (take n ?B)"
            if "c < n" "n \<le> length ?B" for n
            using m [of n] that by simp
        qed (rule sub)
        moreover have "trie_map (Entry p c bits l r) (take c ?B) = p" using m [of c] c by simp
        ultimately show ?thesis by (simp only:)
      qed
      have ch: "choose_bit c ip = Some (?B ! c)" using c by (intro choose_bit_nth) simp
      have IH: "trie_lookup t' ip f = Some (case lpm (trie_map t') ?B of None \<Rightarrow> f | Some q \<Rightarrow> Some q)" for f
        using Entry.IH w' by (auto simp: t'_def split: if_splits)
      have "trie_lookup (Entry p c bits l r) ip found = trie_lookup t' ip (if p \<noteq> None then p else found)"
        using cb ge key nd ch by (simp add: t'_def)
      then show ?thesis
        unfolding IH step by (auto split: option.splits)
    qed
  qed
qed

lemma new_entry_wf:
  assumes "addr_width W" "length ip = W" "cidr \<le> 8 * W" "prefix ks (take cidr (ip_bits ip))"
  shows "wf_trie W ks (Entry (Some peer) cidr (maskSelf cidr ip) Nil_entry Nil_entry)"
    and "take cidr (ip_bits (maskSelf cidr ip)) = take cidr (ip_bits ip)"
    and "maskSelf cidr (maskSelf cidr ip) = maskSelf cidr ip"
    and "length (maskSelf cidr ip) = W"
proof -
  have m: "ip_bits (maskSelf n x) = take n (ip_bits x) @ replicate (8 * W - n) False"
    "length (maskSelf n x) = W" if "length x = W" "n \<le> 8 * W" for n x
    using maskSelf_bits [of x n] that assms(1) by (auto simp: addr_width_def)
  show l: "length (maskSelf cidr ip) = W" using m assms by blast
  show t: "take cidr (ip_bits (maskSelf cidr ip)) = take cidr (ip_bits ip)"
    using m [OF assms(2,3)] assms by simp
  have "ip_bits (maskSelf cidr (maskSelf cidr ip)) = ip_bits (maskSelf cidr ip)"
    using m [OF l assms(3)] m [OF assms(2,3)] t by simp
  then show i: "maskSelf cidr (maskSelf cidr ip) = maskSelf cidr ip"
    using ip_bits_inj m l assms by metis
  show "wf_trie W ks (Entry (Some peer) cidr (maskSelf cidr ip) Nil_entry Nil_entry)"
    using assms l t i by (simp add: Let_def)
qed

lemma lcp_len_differ:
  "lcp_len xs ys < length xs \<Longrightarrow> lcp_len xs ys < length ys \<Longrightarrow> xs ! lcp_len xs ys \<noteq> ys ! lcp_len xs ys"
  by (induction xs ys rule: lcp_len.induct) auto

lemma take_lcp: "take (lcp_len xs ys) xs = take (lcp_len xs ys) ys"
  by (induction xs ys rule: lcp_len.induct) auto

text \<open>Hanging a trie below a shorter prefix on the right branch does not change its map.\<close>

lemma prefix_take_snoc: "c < length ds \<Longrightarrow> prefix (take c ds @ [ds ! c]) ds"
  by (metis take_Suc_conv_app_nth take_is_prefix)

lemma hang_below:
  assumes wf: "wf_trie W ks (Entry p c bits l r)" and n: "n < c"
  shows "wf_trie W (take n (ip_bits bits) @ [ip_bits bits ! n]) (Entry p c bits l r)"
proof -
  let ?D = "ip_bits bits"
  have len: "length ?D = 8 * W" "c \<le> 8 * W" using wf by (auto simp: Let_def)
  have "take n ?D @ [?D ! n] = take (Suc n) ?D"
    using n len by (simp add: take_Suc_conv_app_nth)
  also have "prefix \<dots> (take c ?D)"
    using n len by (simp add: prefix_iff_take min_def)
  finally show ?thesis using wf by (simp add: Let_def)
qed

text \<open>On well-formed tries the map is the union of the children's maps and the node's own entry.\<close>

lemma trie_map_split:
  assumes "wf_trie W ks (Entry p c bits l r)"
  shows "trie_map (Entry p c bits l r) = (trie_map r ++ trie_map l)(take c (ip_bits bits) := p)"
proof
  fix k
  let ?key = "take c (ip_bits bits)"
  have w: "wf_trie W (?key @ [False]) l" "wf_trie W (?key @ [True]) r"
    using assms by (simp_all add: Let_def)
  have n: "\<not> (prefix (?key @ [False]) k \<and> prefix (?key @ [True]) k)"
    by (auto simp: prefix_def)
  show "trie_map (Entry p c bits l r) k = ((trie_map r ++ trie_map l)(?key := p)) k"
    using trie_map_notin [OF w(1), of k] trie_map_notin [OF w(2), of k] n
    by (auto simp: trie_map_Entry map_add_def split: option.splits)
qed

lemma wf_children:
  assumes "wf_trie W ks (Entry p c bits l r)"
  shows "wf_trie W (take c (ip_bits bits) @ [False]) l" "wf_trie W (take c (ip_bits bits) @ [True]) r"
  using assms by (simp_all add: Let_def)

lemma trie_map_children_key:
  assumes "wf_trie W ks (Entry p c bits l r)"
  shows "trie_map l (take c (ip_bits bits)) = None" "trie_map r (take c (ip_bits bits)) = None"
  using wf_children [OF assms, THEN trie_map_notin, of "take c (ip_bits bits)"]
  by (auto simp: prefix_iff_take)

lemma below_other_branch:
  "wf_trie W (key @ [b]) t \<Longrightarrow> prefix (key @ [\<not> b]) k \<Longrightarrow> trie_map t k = None"
  by (rule trie_map_notin) (auto simp: prefix_def)

text \<open>The two ways \<open>insert\<close> rebuilds a slot whose node \<open>down\<close> is not above the new prefix. The
  children are arbitrary tries below the branch bits, one of them empty or the new node.\<close>

lemma wf_node:
  "wf_trie W ks (Entry p c bits l r) \<longleftrightarrow>
     length bits = W \<and> c \<le> 8 * W \<and> maskSelf c bits = bits \<and> prefix ks (take c (ip_bits bits)) \<and>
     (p = None \<longrightarrow> l \<noteq> Nil_entry \<and> r \<noteq> Nil_entry) \<and>
     wf_trie W (take c (ip_bits bits) @ [False]) l \<and> wf_trie W (take c (ip_bits bits) @ [True]) r"
  by (simp add: Let_def)

lemma insert_as_parent:
  assumes new: "wf_trie W ks (Entry (Some peer) cidr nb Nil_entry Nil_entry)"
    and d: "wf_trie W (take cidr (ip_bits nb) @ [bt]) d"
    and t: "t = (if bt then Entry (Some peer) cidr nb Nil_entry d else Entry (Some peer) cidr nb d Nil_entry)"
  shows "wf_trie W ks t" and "trie_map t = (trie_map d)(take cidr (ip_bits nb) \<mapsto> peer)"
proof -
  show w: "wf_trie W ks t" using new d unfolding t by (cases bt) (auto simp: wf_node simp del: wf_trie.simps(2))
  have "m ++ trie_map Nil_entry = m" "trie_map Nil_entry ++ m = m" for m :: "bool list \<rightharpoonup> 'a"
    by (auto simp: map_add_def fun_eq_iff split: option.splits)
  then show "trie_map t = (trie_map d)(take cidr (ip_bits nb) \<mapsto> peer)"
    using w unfolding t by (cases bt) (auto simp: trie_map_split simp del: wf_trie.simps)
qed

lemma insert_glue:
  assumes new: "wf_trie W (take g (ip_bits gb) @ [\<not> bt]) new" "new \<noteq> Nil_entry"
    and d: "wf_trie W (take g (ip_bits gb) @ [bt]) d" "d \<noteq> Nil_entry"
    and g: "length gb = W" "g \<le> 8 * W" "maskSelf g gb = gb" "prefix ks (take g (ip_bits gb))"
    and m: "trie_map new = [K \<mapsto> peer]"
    and t: "t = (if bt then Entry None g gb new d else Entry None g gb d new)"
  shows "wf_trie W ks t" and "trie_map t = (trie_map d)(K \<mapsto> peer)"
proof -
  show w: "wf_trie W ks t" using new d g unfolding t by (cases bt) (auto simp: wf_node simp del: wf_trie.simps(2))
  have K: "prefix (take g (ip_bits gb) @ [\<not> bt]) K"
    using trie_map_below [OF new(1), of K] m by simp
  then have dK: "trie_map d K = None" "K \<noteq> take g (ip_bits gb)"
    using below_other_branch [OF d(1)] by (auto simp: prefix_def)
  have "trie_map d (take g (ip_bits gb)) = None"
    by (rule trie_map_notin [OF d(1)]) (simp add: prefix_iff_take)
  with dK show "trie_map t = (trie_map d)(K \<mapsto> peer)"
    using w m unfolding t
    by (cases bt) (auto simp: trie_map_split map_add_def fun_eq_iff simp del: wf_trie.simps split: option.splits)
qed

lemma insert_stop:
  assumes W: "addr_width W" "length ip = W" "cidr \<le> 8 * W" and down: "wf_trie W ks (Entry p c bits l r)"
    and pre: "prefix ks (take cidr (ip_bits ip))"
    and cb: "commonBits bits ip = Some common" "common = lcp_len (ip_bits bits) (ip_bits ip)"
    and stop: "\<not> (c \<le> cidr \<and> common \<ge> c)"
  shows "\<exists>t'. trie_insert (Entry p c bits l r) ip cidr peer = Some t' \<and> wf_trie W ks t' \<and>
    trie_map t' = (trie_map (Entry p c bits l r))(take cidr (ip_bits ip) \<mapsto> peer)"
proof -
  let ?d = "Entry p c bits l r" and ?nb = "maskSelf cidr ip" and ?K = "take cidr (ip_bits ip)"
  note new = new_entry_wf [OF W pre]
  have len: "length (ip_bits bits) = 8 * W" "c \<le> 8 * W" "length bits = W"
    using down by (auto simp: wf_node simp del: wf_trie.simps(2))
  have c8: "common \<le> 8 * W" using lcp_len_le(1) [of "ip_bits bits" "ip_bits ip"] cb len by simp
  show ?thesis
  proof (cases "common < cidr")
    case False
    then have lt: "cidr < c" using stop by linarith
    have K: "take cidr (ip_bits bits) = take cidr (ip_bits ?nb)"
      using False lcp_len_ge [of cidr "ip_bits bits" "ip_bits ip"] cb len W new(2) by simp
    then have d: "wf_trie W (take cidr (ip_bits ?nb) @ [ip_bits bits ! cidr]) ?d"
      using hang_below [OF down lt] by simp
    have ch: "choose_bit cidr bits = Some (ip_bits bits ! cidr)"
      using lt len by (intro choose_bit_nth) simp
    show ?thesis
      using False stop cb ch insert_as_parent [OF new(1) d refl] new(2) by (auto simp: Let_def)
  next
    case True
    let ?gb = "maskSelf common ?nb" and ?bt = "ip_bits bits ! common"
    have g: "common < c" using stop True by linarith
    then have glt: "common < 8 * W" using len by simp
    have nbK: "take common (ip_bits ?nb) = take common (ip_bits ip)" "ip_bits ?nb ! common = ip_bits ip ! common"
      using new(2) True W by (metis less_imp_le min.absorb1 take_take, metis nth_take)
    have eq: "take common (ip_bits bits) = take common (ip_bits ip)"
      unfolding cb(2) by (rule take_lcp)
    have ne: "ip_bits ip ! common = (\<not> ?bt)"
      using lcp_len_differ [of "ip_bits bits" "ip_bits ip"] glt len W cb(2) by auto
    have ks: "prefix ks (take common (ip_bits bits))"
    proof -
      have k1: "take (length ks) (ip_bits bits) = ks" "length ks \<le> c"
        using down len by (auto simp: wf_node prefix_iff_take simp del: wf_trie.simps(2))
      have k2: "take (length ks) (ip_bits ip) = ks" using pre by (auto simp: prefix_iff_take)
      have "length ks \<le> common"
        using lcp_len_ge [of "length ks" "ip_bits bits" "ip_bits ip"] k1 k2 len W cb(2) by simp
      with k1 show ?thesis using len by (simp add: prefix_iff_take)
    qed
    note glue = new_entry_wf [OF W(1) new(4) c8, of ks]
    have gK: "take common (ip_bits ?gb) = take common (ip_bits bits)"
      using glue(2) nbK eq ks by simp
    have d: "wf_trie W (take common (ip_bits ?gb) @ [?bt]) ?d"
      unfolding gK by (rule hang_below [OF down g])
    have "prefix (take common (ip_bits ?gb) @ [\<not> ?bt]) ?K"
    proof -
      have "take common (ip_bits ?gb) @ [\<not> ?bt] = take (Suc common) (ip_bits ip)"
        using gK eq ne glt W by (simp add: take_Suc_conv_app_nth)
      also have "prefix \<dots> ?K" using True W by (simp add: prefix_iff_take min_def)
      finally show ?thesis .
    qed
    from new_entry_wf(1) [OF W this, of peer]
    have n: "wf_trie W (take common (ip_bits ?gb) @ [\<not> ?bt]) (Entry (Some peer) cidr ?nb Nil_entry Nil_entry)" .
    have m: "trie_map (Entry (Some peer) cidr ?nb Nil_entry Nil_entry) = [?K \<mapsto> peer]"
      using new(2) by (auto simp: trie_map_Entry fun_eq_iff)
    have ch: "choose_bit common bits = Some ?bt" "choose_bit common ?nb = Some (\<not> ?bt)"
      using glt len new(4) nbK(2) ne by (simp_all add: choose_bit_nth)
    have gw: "length ?gb = W" "maskSelf common ?gb = ?gb" "prefix ks (take common (ip_bits ?gb))"
      using glue ks gK nbK eq by simp_all
    note r = insert_glue [OF n _ d _ gw(1) c8 gw(2,3) m refl]
    show ?thesis
      using True stop cb ch r by (auto simp: Let_def)
  qed
qed

text \<open>Updating the child on the path updates the whole map.\<close>

lemma replace_child:
  assumes wf: "wf_trie W ks (Entry p c bits l r)" and key: "key = take c (ip_bits bits)"
    and t': "wf_trie W (key @ [b]) t'" "p = None \<Longrightarrow> t' \<noteq> Nil_entry"
    and m: "trie_map t' = (trie_map (if b then r else l))(K := v)" and K: "prefix (key @ [b]) K"
    and t: "t = (if b then Entry p c bits l t' else Entry p c bits t' r)"
  shows "wf_trie W ks t" and "trie_map t = (trie_map (Entry p c bits l r))(K := v)"
proof -
  show w: "wf_trie W ks t"
    using wf t' key unfolding t by (cases b) (auto simp: wf_node simp del: wf_trie.simps(2))
  have "K \<noteq> key" using K by auto
  moreover have "trie_map (if b then l else r) K = None"
    by (rule below_other_branch [of W key "\<not> b"]) (use K wf key in \<open>auto simp: wf_node simp del: wf_trie.simps(2)\<close>)
  ultimately show "trie_map t = (trie_map (Entry p c bits l r))(K := v)"
    using w m unfolding t trie_map_split [OF wf] key
    by (cases b) (auto simp: trie_map_split map_add_def fun_eq_iff simp del: wf_trie.simps split: option.splits)
qed

theorem trie_insert_correct:
  assumes W: "addr_width W" "length ip = W" "cidr \<le> 8 * W"
    and "wf_trie W ks t" and "prefix ks (take cidr (ip_bits ip))"
  shows "\<exists>t'. trie_insert t ip cidr peer = Some t' \<and> wf_trie W ks t' \<and>
    trie_map t' = (trie_map t)(take cidr (ip_bits ip) \<mapsto> peer)"
  using assms(4,5)
proof (induction t arbitrary: ks)
  case Nil_entry
  note new = new_entry_wf [OF W Nil_entry(2)]
  have "trie_map (Entry (Some peer) cidr (maskSelf cidr ip) Nil_entry Nil_entry) = [take cidr (ip_bits ip) \<mapsto> peer]"
    using new(2) by (auto simp: trie_map_Entry fun_eq_iff)
  then have "trie_map (Entry (Some peer) cidr (maskSelf cidr ip) Nil_entry Nil_entry)
      = (trie_map Nil_entry)(take cidr (ip_bits ip) \<mapsto> peer)" by (auto simp: fun_eq_iff)
  with new(1) [of peer] show ?case unfolding trie_insert.simps by blast
next
  case (Entry p c bits l r)
  let ?B = "ip_bits ip" and ?key = "take c (ip_bits bits)" and ?K = "take cidr (ip_bits ip)"
  have w: "length bits = W" "c \<le> 8 * W" "prefix ks ?key" and wl: "length ?key = c"
    using Entry.prems by (auto simp: wf_node simp del: wf_trie.simps(2))
  obtain common where cb: "commonBits bits ip = Some common" "common = lcp_len (ip_bits bits) ?B"
    and ge: "common \<ge> c \<longleftrightarrow> ?key = take c ?B"
    using common_ge_iff [OF W(1) w(1) W(2) w(2)] by metis
  show ?case
  proof (cases "c \<le> cidr \<and> common \<ge> c")
    case False
    show ?thesis by (rule insert_stop [OF W Entry.prems cb False])
  next
    case True
    then have key: "?key = take c ?B" using ge by simp
    show ?thesis
    proof (cases "c = cidr")
      case eq: True
      have wf': "wf_trie W ks (Entry (Some peer) c bits l r)"
        using Entry.prems by (auto simp: wf_node simp del: wf_trie.simps(2))
      then have "trie_map (Entry (Some peer) c bits l r) = (trie_map (Entry p c bits l r))(?K \<mapsto> peer)"
        using Entry.prems key eq by (simp add: trie_map_split del: wf_trie.simps)
      moreover have "trie_insert (Entry p c bits l r) ip cidr peer = Some (Entry (Some peer) c bits l r)"
        using eq True cb by simp
      ultimately show ?thesis using wf' by blast
    next
      case False
      then have lt: "c < cidr" using True by simp
      have ch: "choose_bit c ip = Some (?B ! c)" using lt W by (intro choose_bit_nth) simp
      have pre: "prefix (?key @ [?B ! c]) ?K"
        using lt W key prefix_snoc_iff [of c ?B ?key cidr "?B ! c"] by simp
      define t' where "t' = (if ?B ! c then r else l)"
      have wt: "wf_trie W (?key @ [?B ! c]) t'"
        using wf_children [OF Entry.prems(1)] by (auto simp: t'_def)
      obtain s where s: "trie_insert t' ip cidr peer = Some s" "wf_trie W (?key @ [?B ! c]) s"
        "trie_map s = (trie_map t')(?K \<mapsto> peer)"
        using Entry.IH [of "?key @ [?B ! c]"] wt pre unfolding t'_def
        by (cases "?B ! c") (auto simp del: fun_upd_apply)
      have "s \<noteq> Nil_entry" using s(3) by (auto dest: fun_cong [of _ _ ?K])
      note rc = replace_child [OF Entry.prems(1) refl s(2) this s(3) [unfolded t'_def] pre refl]
      have "trie_insert (Entry p c bits l r) ip cidr peer
          = Some (if ?B ! c then Entry p c bits l s else Entry p c bits s r)"
        using cb True False ch s(1) unfolding t'_def by (cases "?B ! c") simp_all
      with rc show ?thesis by blast
    qed
  qed
qed

section \<open>Removal and exact search\<close>

lemma trie_exact_correct:
  assumes W: "addr_width W" "length ip = W" "cidr \<le> 8 * W" and "wf_trie W ks t"
  shows "\<exists>e. trie_exact t ip cidr = Some e \<and> Option.bind e (\<lambda>q. q) = trie_map t (take cidr (ip_bits ip))"
  using assms(4)
proof (induction t arbitrary: ks)
  case Nil_entry
  then show ?case by simp
next
  case (Entry p c bits l r)
  let ?B = "ip_bits ip" and ?key = "take c (ip_bits bits)" and ?K = "take cidr (ip_bits ip)"
  have w: "length bits = W" "c \<le> 8 * W" "prefix ks ?key" and wl: "length ?key = c"
    using Entry.prems by (auto simp: wf_node simp del: wf_trie.simps(2))
  obtain common where cb: "commonBits bits ip = Some common" 
    and ge: "common \<ge> c \<longleftrightarrow> ?key = take c ?B"
    using common_ge_iff [OF W(1) w(1) W(2) w(2)] by metis
  show ?case
  proof (cases "c \<le> cidr \<and> ?key = take c ?B")
    case False
    have "trie_map (Entry p c bits l r) ?K = None"
    proof (rule ccontr)
      assume "trie_map (Entry p c bits l r) ?K \<noteq> None"
      then have "prefix ?key ?K"
        by (auto simp: trie_map_Entry split: if_splits elim: prefixE)
      with False wl W show False by (auto simp: prefix_iff_take min_def split: if_splits)
    qed
    with False cb ge show ?thesis by simp
  next
    case True
    show ?thesis
    proof (cases "c = cidr")
      case eq: True
      with True cb ge show ?thesis by (simp add: trie_map_Entry)
    next
      case False
      then have lt: "c < length ?B" "c < cidr" using True W by auto
      define t' where "t' = (if ?B ! c then r else l)"
      have wt: "wf_trie W (?key @ [?B ! c]) t'"
        using wf_children [OF Entry.prems(1)] by (auto simp: t'_def)
      obtain e where e: "trie_exact t' ip cidr = Some e" "Option.bind e (\<lambda>q. q) = trie_map t' ?K"
        using Entry.IH wt unfolding t'_def by (cases "?B ! c") auto
      have ch: "choose_bit c ip = Some (?B ! c)" using lt W by (intro choose_bit_nth) simp
      have "trie_exact (Entry p c bits l r) ip cidr = trie_exact t' ip cidr"
        using True False cb ge ch unfolding t'_def by simp
      moreover have "trie_map (Entry p c bits l r) ?K = trie_map t' ?K"
        using trie_map_at_path [OF lt(1), of bits cidr p l r] True wl lt W unfolding t'_def by auto
      ultimately show ?thesis using e by simp
    qed
  qed
qed

text \<open>Removal deletes the key; a node whose peer is gone survives only with two children.\<close>

lemma remove_here:
  assumes wf: "wf_trie W ks (Entry p c bits l r)"
    and t: "t = (if l \<noteq> Nil_entry \<and> r \<noteq> Nil_entry then Entry None c bits l r
                 else if l = Nil_entry then r else l)"
  shows "wf_trie W ks t" and "trie_map t = (trie_map (Entry p c bits l r))(take c (ip_bits bits) := None)"
proof -
  let ?key = "take c (ip_bits bits)"
  note ch = wf_children [OF wf] and k = trie_map_children_key [OF wf]
  have "prefix ks ?key" using wf by (simp add: wf_node del: wf_trie.simps)
  then have up: "wf_trie W ks l" "wf_trie W ks r"
    using ch by (auto elim!: wf_trie_mono)
  show w: "wf_trie W ks t" using wf up unfolding t by (auto simp: wf_node simp del: wf_trie.simps(2))
  show "trie_map t = (trie_map (Entry p c bits l r))(?key := None)"
  proof (cases "l \<noteq> Nil_entry \<and> r \<noteq> Nil_entry")
    case True
    then show ?thesis using w wf t by (simp add: trie_map_split del: wf_trie.simps)
  next
    case False
    then show ?thesis
      using k unfolding t trie_map_split [OF wf] by (auto simp: map_add_def fun_eq_iff split: option.splits)
  qed
qed

text \<open>A glue node whose child vanished is replaced by its other child.\<close>

lemma collapse_node:
  assumes wf: "wf_trie W ks (Entry None c bits l r)" and key: "key = take c (ip_bits bits)"
    and m: "(trie_map (if b then r else l))(K := None) = trie_map Nil_entry" and K: "prefix (key @ [b]) K"
    and t: "t = (if b then l else r)"
  shows "wf_trie W ks t" "t \<noteq> Nil_entry" "trie_map t = (trie_map (Entry None c bits l r))(K := None)"
proof -
  have o: "wf_trie W (key @ [\<not> b]) t"
    using wf_children [OF wf] unfolding t key by auto
  have "prefix ks (key @ [\<not> b])" using wf unfolding key
    by (metis prefix_order.trans prefixI wf_node)
  with o show "wf_trie W ks t" by (rule wf_trie_mono)
  show "t \<noteq> Nil_entry" using wf unfolding t by (auto simp: wf_node simp del: wf_trie.simps)
  have "trie_map t K = None" by (rule below_other_branch [OF o]) (simp add: K)
  moreover have "trie_map t key = None" by (rule trie_map_notin [OF o]) (simp add: prefix_iff_take)
  moreover have "k \<noteq> K \<Longrightarrow> trie_map (if b then r else l) k = None" for k
    using fun_cong [OF m, of k] by simp
  ultimately show "trie_map t = (trie_map (Entry None c bits l r))(K := None)"
    unfolding trie_map_split [OF wf] t key
    by (cases b) (auto simp: map_add_def fun_eq_iff split: option.splits)
qed

theorem trie_remove_correct:
  assumes W: "addr_width W" "length ip = W" "cidr \<le> 8 * W" and "wf_trie W ks t"
  shows "\<exists>t' gone. trie_remove t ip cidr = Some (t', gone) \<and> wf_trie W ks t' \<and>
    trie_map t' = (trie_map t)(take cidr (ip_bits ip) := None) \<and> (t' = Nil_entry \<longrightarrow> gone \<or> t = Nil_entry) \<and>
    (gone \<longrightarrow> t' = Nil_entry)"
  using assms(4)
proof (induction t arbitrary: ks)
  case Nil_entry
  then show ?case by (auto simp: fun_eq_iff)
next
  case (Entry p c bits l r)
  let ?B = "ip_bits ip" and ?key = "take c (ip_bits bits)" and ?K = "take cidr (ip_bits ip)"
  let ?t = "Entry p c bits l r"
  have w: "length bits = W" "c \<le> 8 * W" "prefix ks ?key" and wl: "length ?key = c"
    using Entry.prems by (auto simp: wf_node simp del: wf_trie.simps(2))
  obtain common where cb: "commonBits bits ip = Some common" 
    and ge: "common \<ge> c \<longleftrightarrow> ?key = take c ?B"
    using common_ge_iff [OF W(1) w(1) W(2) w(2)] by metis
  show ?case
  proof (cases "c \<le> cidr \<and> ?key = take c ?B")
    case False
    have "trie_map ?t ?K = None"
    proof (rule ccontr)
      assume "trie_map ?t ?K \<noteq> None"
      then have "prefix ?key ?K"
        by (auto simp: trie_map_Entry split: if_splits elim: prefixE)
      with False wl W show False by (auto simp: prefix_iff_take min_def split: if_splits)
    qed
    then have "trie_map ?t = (trie_map ?t)(?K := None)" by auto
    moreover have "trie_remove ?t ip cidr = Some (?t, False)" using False cb ge by auto
    ultimately show ?thesis using Entry.prems by blast
  next
    case path: True
    show ?thesis
    proof (cases "c = cidr")
      case eq: True
      define t' where "t' = (if l \<noteq> Nil_entry \<and> r \<noteq> Nil_entry then Entry None c bits l r
                 else if l = Nil_entry then r else l)"
      note rh = remove_here [OF Entry.prems t'_def]
      have "trie_remove ?t ip cidr = Some (t', l = Nil_entry \<and> r = Nil_entry)"
        using path eq cb ge by (auto simp: t'_def Let_def)
      moreover have "t' = Nil_entry \<longleftrightarrow> l = Nil_entry \<and> r = Nil_entry" by (auto simp: t'_def)
      moreover have "?key = ?K" using path eq by simp
      ultimately show ?thesis using rh by auto
    next
      case False
      then have lt: "c < length ?B" "c < cidr" using path W by auto
      define t' where "t' = (if ?B ! c then r else l)"
      have wt: "wf_trie W (?key @ [?B ! c]) t'"
        using wf_children [OF Entry.prems(1)] by (auto simp: t'_def)
      obtain s gone where s: "trie_remove t' ip cidr = Some (s, gone)" "wf_trie W (?key @ [?B ! c]) s"
        "trie_map s = (trie_map t')(?K := None)" "s = Nil_entry \<longrightarrow> gone \<or> t' = Nil_entry"
        "gone \<longrightarrow> s = Nil_entry"
      proof -
        have "\<exists>s gone. trie_remove t' ip cidr = Some (s, gone) \<and> wf_trie W (?key @ [?B ! c]) s \<and>
            trie_map s = (trie_map t')(?K := None) \<and> (s = Nil_entry \<longrightarrow> gone \<or> t' = Nil_entry) \<and>
            (gone \<longrightarrow> s = Nil_entry)"
          using Entry.IH [of "?key @ [?B ! c]"] wt unfolding t'_def
          by (cases "?B ! c") (simp_all del: fun_upd_apply)
        then show ?thesis using that by blast
      qed
      have pre: "prefix (?key @ [?B ! c]) ?K"
        using lt W path prefix_snoc_iff [of c ?B ?key cidr "?B ! c"] by simp
      have ch: "choose_bit c ip = Some (?B ! c)" using lt W by (intro choose_bit_nth) simp
      have run: "trie_remove ?t ip cidr = Some (if gone \<and> p = None then (if ?B ! c then l else r, False)
          else (if ?B ! c then Entry p c bits l s else Entry p c bits s r, False))"
        using path False cb ge ch s(1) unfolding t'_def by simp
      show ?thesis
      proof (cases "gone \<and> p = None")
        case False
        have ne: "t' \<noteq> Nil_entry" if "p = None"
          using Entry.prems that by (auto simp: t'_def)
        have "p = None \<Longrightarrow> s \<noteq> Nil_entry" using False s(4) ne by auto
        note rc = replace_child [OF Entry.prems(1) refl s(2) this s(3) [unfolded t'_def] pre refl]
        let ?s = "if ?B ! c then Entry p c bits l s else Entry p c bits s r"
        have "trie_remove ?t ip cidr = Some (?s, False)" using run False by (simp only: if_False)
        moreover have "?s \<noteq> Nil_entry" by simp
        ultimately show ?thesis using rc by blast
      next
        case True
        then have "(trie_map t')(?K := None) = trie_map Nil_entry" using s by simp
        note cn = collapse_node [OF Entry.prems [unfolded conjunct2 [OF True]] refl this [unfolded t'_def] pre refl]
        have "trie_remove ?t ip cidr = Some (if ?B ! c then l else r, False)"
          using run True by (simp only: simp_thms if_True)
        with cn show ?thesis unfolding conjunct2 [OF True] by blast
      qed
    qed
  qed
qed

section \<open>The table\<close>

text \<open>A \<open>netip.Addr\<close> is IPv4, IPv6 (with its bytes) or the zero value; a \<open>netip.Prefix\<close> is an
  address and a number of bits. The \<open>trieEntries\<close> lists of the peers are kept with the table: the
  element of a node is its prefix \<open>(bits, cidr)\<close>. The mutex makes each operation atomic.\<close>

datatype Addr = Addr4 bytes | Addr6 bytes | NoAddr

type_synonym netip_prefix = "Addr \<times> nat"
type_synonym trie_node = "bytes \<times> nat"

record 'p AllowedIPs =
  IPv4 :: "'p trieEntry"
  IPv6 :: "'p trieEntry"
  trieEntries :: "'p \<Rightarrow> trie_node list"

definition new_AllowedIPs :: "'p AllowedIPs" where
  "new_AllowedIPs = \<lparr>IPv4 = Nil_entry, IPv6 = Nil_entry, trieEntries = (\<lambda>_. [])\<rparr>"

definition addToPeerEntries :: "trie_node \<Rightarrow> 'p \<Rightarrow> 'p AllowedIPs \<Rightarrow> 'p AllowedIPs" where
  "addToPeerEntries node peer tbl =
     tbl\<lparr>trieEntries := (trieEntries tbl)(peer := trieEntries tbl peer @ [node])\<rparr>"

definition removeFromPeerEntries :: "trie_node \<Rightarrow> 'p option \<Rightarrow> 'p AllowedIPs \<Rightarrow> 'p AllowedIPs" where
  "removeFromPeerEntries node owner tbl =
     (case owner of
        None \<Rightarrow> tbl
      | Some q \<Rightarrow> tbl\<lparr>trieEntries := (trieEntries tbl)(q := remove1 node (trieEntries tbl q))\<rparr>)"

definition family_trie :: "nat \<Rightarrow> 'p AllowedIPs \<Rightarrow> 'p trieEntry" where
  "family_trie W tbl = (if W = 4 then IPv4 tbl else IPv6 tbl)"

definition set_family_trie :: "nat \<Rightarrow> 'p trieEntry \<Rightarrow> 'p AllowedIPs \<Rightarrow> 'p AllowedIPs" where
  "set_family_trie W t tbl = (if W = 4 then tbl\<lparr>IPv4 := t\<rparr> else tbl\<lparr>IPv6 := t\<rparr>)"

text \<open>\<open>parentIndirection.insert\<close> on the slot of one family, with its effect on the peers' lists.\<close>

definition insert_ip :: "bytes \<Rightarrow> nat \<Rightarrow> 'p \<Rightarrow> 'p AllowedIPs \<Rightarrow> 'p AllowedIPs option" where
  "insert_ip ip cidr peer tbl =
     do {
       let W = length ip;
       exact \<leftarrow> trie_exact (family_trie W tbl) ip cidr;
       t' \<leftarrow> trie_insert (family_trie W tbl) ip cidr peer;
       let node = (maskSelf cidr ip, cidr);
       let tbl = (case exact of None \<Rightarrow> tbl | Some owner \<Rightarrow> removeFromPeerEntries node owner tbl);
       Some (addToPeerEntries node peer (set_family_trie W t' tbl))
     }"

definition Insert :: "'p AllowedIPs \<Rightarrow> netip_prefix \<Rightarrow> 'p \<Rightarrow> 'p AllowedIPs option" where
  "Insert tbl prefx peer =
     (case fst prefx of
        Addr6 ip \<Rightarrow> insert_ip ip (snd prefx) peer tbl
      | Addr4 ip \<Rightarrow> insert_ip ip (snd prefx) peer tbl
      | NoAddr \<Rightarrow> None)"

text \<open>\<open>node.remove()\<close> for the node \<open>(bits, cidr)\<close> whose peer is \<open>owner\<close>.\<close>

definition remove_node :: "trie_node \<Rightarrow> 'p option \<Rightarrow> 'p AllowedIPs \<Rightarrow> 'p AllowedIPs option" where
  "remove_node node owner tbl =
     do {
       let tbl = removeFromPeerEntries node owner tbl;
       let W = length (fst node);
       (t', gone) \<leftarrow> trie_remove (family_trie W tbl) (fst node) (snd node);
       Some (set_family_trie W t' tbl)
     }"

definition remove_ip :: "bytes \<Rightarrow> nat \<Rightarrow> 'p \<Rightarrow> 'p AllowedIPs \<Rightarrow> 'p AllowedIPs option" where
  "remove_ip ip cidr peer tbl =
     do {
       exact \<leftarrow> trie_exact (family_trie (length ip) tbl) ip cidr;
       if exact = None \<or> exact \<noteq> Some (Some peer) then Some tbl
       else remove_node (maskSelf cidr ip, cidr) (Some peer) tbl
     }"

definition Remove :: "'p AllowedIPs \<Rightarrow> netip_prefix \<Rightarrow> 'p \<Rightarrow> 'p AllowedIPs option" where
  "Remove tbl prefx peer =
     (case fst prefx of
        Addr6 ip \<Rightarrow> remove_ip ip (snd prefx) peer tbl
      | Addr4 ip \<Rightarrow> remove_ip ip (snd prefx) peer tbl
      | NoAddr \<Rightarrow> None)"

fun remove_nodes :: "trie_node list \<Rightarrow> 'p \<Rightarrow> 'p AllowedIPs \<Rightarrow> 'p AllowedIPs option" where
  "remove_nodes [] peer tbl = Some tbl"
| "remove_nodes (n # ns) peer tbl =
     do { tbl' \<leftarrow> remove_node n (Some peer) tbl; remove_nodes ns peer tbl' }"

definition RemoveByPeer :: "'p AllowedIPs \<Rightarrow> 'p \<Rightarrow> 'p AllowedIPs option" where
  "RemoveByPeer tbl peer = remove_nodes (trieEntries tbl peer) peer tbl"

definition Lookup :: "'p AllowedIPs \<Rightarrow> bytes \<Rightarrow> 'p option option" where
  "Lookup tbl ip =
     (if length ip = 16 then trie_lookup (IPv6 tbl) ip None
      else if length ip = 4 then trie_lookup (IPv4 tbl) ip None
      else None)"

definition AddrFromSlice :: "bytes \<Rightarrow> Addr" where
  "AddrFromSlice bs = (if length bs = 4 then Addr4 bs else if length bs = 16 then Addr6 bs else NoAddr)"

text \<open>\<open>EntriesForPeer\<close> with a callback that updates the caller's state and says whether to go on.\<close>

fun entries_loop :: "trie_node list \<Rightarrow> (netip_prefix \<Rightarrow> 's \<Rightarrow> 's \<times> bool) \<Rightarrow> 's \<Rightarrow> 's" where
  "entries_loop [] cb st = st"
| "entries_loop (n # ns) cb st =
     (let (st', go) = cb (AddrFromSlice (fst n), snd n) st
      in if \<not> go then st' else entries_loop ns cb st')"

definition EntriesForPeer :: "'p AllowedIPs \<Rightarrow> 'p \<Rightarrow> (netip_prefix \<Rightarrow> 's \<Rightarrow> 's \<times> bool) \<Rightarrow> 's \<Rightarrow> 's" where
  "EntriesForPeer tbl peer cb st = entries_loop (trieEntries tbl peer) cb st"

subsection \<open>Abstraction and invariant\<close>

text \<open>A route is an address width and a bit string. The abstract table maps routes to peers.\<close>

type_synonym route = "nat \<times> bool list"

definition routes :: "'p AllowedIPs \<Rightarrow> route \<Rightarrow> 'p option" where
  "routes tbl k =
     (if fst k = 4 then trie_map (IPv4 tbl) (snd k)
      else if fst k = 16 then trie_map (IPv6 tbl) (snd k) else None)"

definition node_ok :: "trie_node \<Rightarrow> bool" where
  "node_ok n \<longleftrightarrow> addr_width (length (fst n)) \<and> snd n \<le> 8 * length (fst n) \<and> maskSelf (snd n) (fst n) = fst n"

definition node_route :: "trie_node \<Rightarrow> route" where
  "node_route n = (length (fst n), take (snd n) (ip_bits (fst n)))"

definition entries_agree :: "('p \<Rightarrow> trie_node list) \<Rightarrow> (route \<Rightarrow> 'p option) \<Rightarrow> bool" where
  "entries_agree es m \<longleftrightarrow>
     (\<forall>p. distinct (es p)) \<and> (\<forall>p n. n \<in> set (es p) \<longleftrightarrow> node_ok n \<and> m (node_route n) = Some p)"

definition table_inv :: "'p AllowedIPs \<Rightarrow> bool" where
  "table_inv tbl \<longleftrightarrow> wf_trie 4 [] (IPv4 tbl) \<and> wf_trie 16 [] (IPv6 tbl)
     \<and> entries_agree (trieEntries tbl) (routes tbl)"

definition prefix_ok :: "netip_prefix \<Rightarrow> bool" where
  "prefix_ok prefx \<longleftrightarrow>
     (case fst prefx of
        Addr4 ip \<Rightarrow> length ip = 4 \<and> snd prefx \<le> 32
      | Addr6 ip \<Rightarrow> length ip = 16 \<and> snd prefx \<le> 128
      | NoAddr \<Rightarrow> False)"

definition addr_bytes :: "Addr \<Rightarrow> bytes" where
  "addr_bytes a = (case a of Addr4 ip \<Rightarrow> ip | Addr6 ip \<Rightarrow> ip | NoAddr \<Rightarrow> [])"

definition prefix_route :: "netip_prefix \<Rightarrow> route" where
  "prefix_route prefx = (length (addr_bytes (fst prefx)), take (snd prefx) (ip_bits (addr_bytes (fst prefx))))"

declare split_paired_All [simp del] split_paired_Ex [simp del]

lemma node_route_inj:
  assumes "node_ok a" "node_ok b" "node_route a = node_route b"
  shows "a = b"
proof -
  have len: "length (fst a) = length (fst b)" and t: "take (snd a) (ip_bits (fst a)) = take (snd b) (ip_bits (fst b))"
    using assms(3) by (auto simp: node_route_def)
  have c: "snd a = snd b"
    using arg_cong [OF t, of length] assms(1,2) by (simp add: node_ok_def)
  have m: "ip_bits (fst n) = take (snd n) (ip_bits (fst n)) @ replicate (8 * length (fst n) - snd n) False"
    if "node_ok n" for n
    using that maskSelf_bits(1) [of "fst n" "snd n"] by (simp add: node_ok_def addr_width_def)
  have "ip_bits (fst a) = ip_bits (fst b)"
    using m [OF assms(1)] m [OF assms(2)] t len c by metis
  then have "fst a = fst b" using len by (simp add: ip_bits_inj)
  with c show ?thesis by (simp add: prod_eq_iff)
qed

lemma masked_node:
  assumes "addr_width (length ip)" "cidr \<le> 8 * length ip"
  shows "node_ok (maskSelf cidr ip, cidr)"
    and "node_route (maskSelf cidr ip, cidr) = (length ip, take cidr (ip_bits ip))"
  using new_entry_wf [OF assms(1) refl assms(2), of "[]"] assms by (simp_all add: node_ok_def node_route_def)

lemma routes_family:
  assumes "addr_width W"
  shows "routes tbl (W, k) = trie_map (family_trie W tbl) k"
    and "table_inv tbl \<Longrightarrow> wf_trie W [] (family_trie W tbl)"
  using assms by (auto simp: routes_def family_trie_def addr_width_def table_inv_def)

lemma routes_set_family:
  assumes "addr_width W" "trie_map t = (trie_map (family_trie W tbl))(k := v)"
  shows "routes (set_family_trie W t tbl) = (routes tbl)((W, k) := v)"
  using assms by (auto simp: routes_def set_family_trie_def family_trie_def addr_width_def fun_eq_iff)

lemma entries_simps [simp]:
  "IPv4 (addToPeerEntries n p tbl) = IPv4 tbl" "IPv6 (addToPeerEntries n p tbl) = IPv6 tbl"
  "IPv4 (removeFromPeerEntries n q tbl) = IPv4 tbl" "IPv6 (removeFromPeerEntries n q tbl) = IPv6 tbl"
  "trieEntries (set_family_trie W t tbl) = trieEntries tbl"
  "routes (addToPeerEntries n p tbl) = routes tbl" "routes (removeFromPeerEntries n q tbl) = routes tbl"
  "family_trie W (removeFromPeerEntries n q tbl) = family_trie W tbl"
  by (auto simp: addToPeerEntries_def removeFromPeerEntries_def set_family_trie_def routes_def
      family_trie_def fun_eq_iff split: option.splits)

text \<open>The peers' lists follow the map: dropping a node's route, then adding it for a peer.\<close>

lemma entries_agree_remove:
  assumes "entries_agree (trieEntries tbl) m" "node_ok n"
  shows "entries_agree (trieEntries (removeFromPeerEntries n (m (node_route n)) tbl)) (m(node_route n := None))"
proof (cases "m (node_route n)")
  case None
  then have "m(node_route n := None) = m" by auto
  with None assms show ?thesis by (simp add: removeFromPeerEntries_def)
next
  case (Some q)
  have inj: "node_ok k \<Longrightarrow> node_route k = node_route n \<longleftrightarrow> k = n" for k
    using node_route_inj assms(2) by blast
  show ?thesis
    using assms inj Some by (auto simp: entries_agree_def removeFromPeerEntries_def)
qed

lemma entries_agree_add:
  assumes "entries_agree (trieEntries tbl) m" "node_ok n" "m (node_route n) = None"
  shows "entries_agree (trieEntries (addToPeerEntries n p tbl)) (m(node_route n \<mapsto> p))"
proof -
  have inj: "node_ok k \<Longrightarrow> node_route k = node_route n \<longleftrightarrow> k = n" for k
    using node_route_inj assms(2) by blast
  show ?thesis
    using assms inj by (auto simp: entries_agree_def addToPeerEntries_def)
qed

lemma table_inv_upd:
  assumes "table_inv tbl" "addr_width W" "wf_trie W [] t"
    and "IPv4 tbl' = IPv4 (set_family_trie W t tbl)" "IPv6 tbl' = IPv6 (set_family_trie W t tbl)"
    and "entries_agree (trieEntries tbl') (routes tbl')"
  shows "table_inv tbl'"
  using assms by (auto simp: table_inv_def set_family_trie_def addr_width_def split: if_splits)

lemma insert_ip_correct:
  assumes inv: "table_inv tbl" and W: "addr_width (length ip)" "cidr \<le> 8 * length ip"
  shows "\<exists>tbl'. insert_ip ip cidr peer tbl = Some tbl' \<and> table_inv tbl'
    \<and> routes tbl' = (routes tbl)((length ip, take cidr (ip_bits ip)) \<mapsto> peer)"
proof -
  let ?W = "length ip" and ?K = "take cidr (ip_bits ip)" and ?n = "(maskSelf cidr ip, cidr)"
  note wf = routes_family(2) [OF W(1) inv] and n = masked_node [OF W]
  obtain e where e: "trie_exact (family_trie ?W tbl) ip cidr = Some e"
    "Option.bind e (\<lambda>q. q) = routes tbl (node_route ?n)"
    using trie_exact_correct [OF W(1) refl W(2) wf] unfolding n(2) routes_family(1) [OF W(1)] by blast
  obtain t' where t': "trie_insert (family_trie ?W tbl) ip cidr peer = Some t'" "wf_trie ?W [] t'"
    "trie_map t' = (trie_map (family_trie ?W tbl))(?K \<mapsto> peer)"
    using trie_insert_correct [OF W(1) refl W(2) wf Nil_prefix] by blast
  define mid where "mid = removeFromPeerEntries ?n (routes tbl (node_route ?n)) tbl"
  define fin where "fin = addToPeerEntries ?n peer (set_family_trie ?W t' mid)"
  have mid: "(case e of None \<Rightarrow> tbl | Some owner \<Rightarrow> removeFromPeerEntries ?n owner tbl) = mid"
    using e(2) by (auto simp: mid_def removeFromPeerEntries_def split: option.splits)
  have run: "insert_ip ip cidr peer tbl = Some fin"
    using e(1) t'(1) mid by (simp add: insert_ip_def fin_def Let_def)
  have r: "routes fin = (routes tbl)((?W, ?K) \<mapsto> peer)"
    using routes_set_family [OF W(1), of t' mid ?K "Some peer"] t'(3) by (simp add: fin_def mid_def)
  have "entries_agree (trieEntries mid) ((routes tbl)(node_route ?n := None))"
    unfolding mid_def by (rule entries_agree_remove) (use inv n in \<open>auto simp: table_inv_def\<close>)
  from entries_agree_add [of "set_family_trie ?W t' mid", OF _ n(1), of _ peer] this
  have "entries_agree (trieEntries fin) ((routes tbl)(node_route ?n \<mapsto> peer))"
    unfolding fin_def by fastforce
  then have ea: "entries_agree (trieEntries fin) (routes fin)" using r n(2) by simp
  have "table_inv fin"
    by (rule table_inv_upd [OF inv W(1) t'(2) _ _ ea]) (simp_all add: fin_def mid_def set_family_trie_def)
  with run r show ?thesis by blast
qed

lemma remove_node_correct:
  assumes inv: "table_inv tbl" and n: "node_ok n" "routes tbl (node_route n) = owner"
  shows "\<exists>tbl'. remove_node n owner tbl = Some tbl' \<and> table_inv tbl'
    \<and> routes tbl' = (routes tbl)(node_route n := None)
    \<and> trieEntries tbl' = trieEntries (removeFromPeerEntries n owner tbl)"
proof -
  let ?W = "length (fst n)" and ?K = "take (snd n) (ip_bits (fst n))"
  have W: "addr_width ?W" "snd n \<le> 8 * ?W" using n by (auto simp: node_ok_def)
  note wf = routes_family(2) [OF W(1) inv]
  obtain t' gone where t': "trie_remove (family_trie ?W tbl) (fst n) (snd n) = Some (t', gone)" "wf_trie ?W [] t'"
    "trie_map t' = (trie_map (family_trie ?W tbl))(?K := None)"
    using trie_remove_correct [OF W(1) refl W(2) wf] by blast
  define mid where "mid = removeFromPeerEntries n owner tbl"
  define fin where "fin = set_family_trie ?W t' mid"
  have run: "remove_node n owner tbl = Some fin"
    using t'(1) by (simp add: remove_node_def fin_def mid_def Let_def)
  have r: "routes fin = (routes tbl)(node_route n := None)"
    using routes_set_family [OF W(1), of t' mid ?K None] t'(3) by (simp add: fin_def mid_def node_route_def)
  have "entries_agree (trieEntries mid) ((routes tbl)(node_route n := None))"
    unfolding mid_def n(2) [symmetric]
    by (rule entries_agree_remove) (use inv n in \<open>auto simp: table_inv_def\<close>)
  then have ea: "entries_agree (trieEntries fin) (routes fin)" using r by (simp add: fin_def)
  have "table_inv fin"
    by (rule table_inv_upd [OF inv W(1) t'(2) _ _ ea]) (simp_all add: fin_def mid_def set_family_trie_def)
  with run r show ?thesis by (auto simp: fin_def mid_def)
qed

lemma remove_ip_correct:
  assumes inv: "table_inv tbl" and W: "addr_width (length ip)" "cidr \<le> 8 * length ip"
  shows "\<exists>tbl'. remove_ip ip cidr peer tbl = Some tbl' \<and> table_inv tbl' \<and>
    routes tbl' = (if routes tbl (length ip, take cidr (ip_bits ip)) = Some peer
       then (routes tbl)((length ip, take cidr (ip_bits ip)) := None) else routes tbl)"
proof -
  let ?n = "(maskSelf cidr ip, cidr)"
  note wf = routes_family(2) [OF W(1) inv] and n = masked_node [OF W]
  obtain e where e: "trie_exact (family_trie (length ip) tbl) ip cidr = Some e"
    "Option.bind e (\<lambda>q. q) = routes tbl (node_route ?n)"
    using trie_exact_correct [OF W(1) refl W(2) wf] unfolding n(2) routes_family(1) [OF W(1)] by blast
  have eq: "e = Some (Some peer) \<longleftrightarrow> routes tbl (node_route ?n) = Some peer"
    unfolding e(2) [symmetric] by (auto simp: bind_eq_Some_conv)
  show ?thesis
  proof (cases "e = Some (Some peer)")
    case True
    then have "routes tbl (node_route ?n) = Some peer" using eq by simp
    from remove_node_correct [OF inv n(1) this] show ?thesis
      using True e(1) eq n(2) by (auto simp: remove_ip_def simp del: fun_upd_apply)
  next
    case False
    then show ?thesis using e(1) eq n(2) inv by (auto simp: remove_ip_def)
  qed
qed

lemma trie_map_node:
  "wf_trie W ks t \<Longrightarrow> trie_map t k = Some p \<Longrightarrow>
   \<exists>bits c. length bits = W \<and> c \<le> 8 * W \<and> maskSelf c bits = bits \<and> k = take c (ip_bits bits)"
proof (induction t arbitrary: ks)
  case (Entry q c bits l r)
  show ?case
  proof (cases "k = take c (ip_bits bits)")
    case True
    then show ?thesis using Entry.prems(1) by (auto simp: Let_def)
  next
    case False
    then have "trie_map l k = Some p \<or> trie_map r k = Some p"
      using Entry.prems(2) by (auto simp: trie_map_Entry split: if_splits)
    then show ?thesis using Entry.IH wf_children [OF Entry.prems(1)] by blast
  qed
qed simp

lemma routes_node:
  assumes "table_inv tbl" "routes tbl k = Some p"
  shows "\<exists>n. node_ok n \<and> node_route n = k"
proof -
  have W: "addr_width (fst k)" using assms(2) by (auto simp: routes_def addr_width_def split: if_splits)
  from trie_map_node [OF routes_family(2) [OF this assms(1)], of "snd k" p] assms(2)
  obtain bits c where "length bits = fst k" "c \<le> 8 * fst k" "maskSelf c bits = bits" "snd k = take c (ip_bits bits)"
    using routes_family(1) [OF W, of tbl "snd k"] by auto
  with W show ?thesis by (intro exI [of _ "(bits, c)"]) (auto simp: node_ok_def node_route_def prod_eq_iff)
qed

lemma remove_nodes_correct:
  assumes "table_inv tbl" "\<And>n. n \<in> set ns \<Longrightarrow> node_ok n \<and> routes tbl (node_route n) = Some peer" "distinct ns"
  shows "\<exists>tbl'. remove_nodes ns peer tbl = Some tbl' \<and> table_inv tbl'
    \<and> routes tbl' = (\<lambda>k. if k \<in> node_route ` set ns then None else routes tbl k)"
  using assms
proof (induction ns arbitrary: tbl)
  case Nil
  then show ?case by auto
next
  case (Cons n ns)
  then obtain mid where mid: "remove_node n (Some peer) tbl = Some mid" "table_inv mid"
    "routes mid = (routes tbl)(node_route n := None)"
    using remove_node_correct [of tbl n "Some peer"] by auto
  have "node_ok k \<and> routes mid (node_route k) = Some peer" if "k \<in> set ns" for k
    using that Cons.prems node_route_inj [of k n] by (auto simp: mid(3))
  from Cons.IH [OF mid(2) this] Cons.prems(3) obtain tbl' where
    "remove_nodes ns peer mid = Some tbl'" "table_inv tbl'"
    "routes tbl' = (\<lambda>k. if k \<in> node_route ` set ns then None else routes mid k)" by auto
  moreover from this mid(3)
  have "routes tbl' = (\<lambda>k. if k \<in> node_route ` set (n # ns) then None else routes tbl k)" by auto
  ultimately show ?case using mid(1) by simp
qed

lemma entries_routes:
  assumes "table_inv tbl"
  shows "k \<in> node_route ` set (trieEntries tbl peer) \<longleftrightarrow> routes tbl k = Some peer"
proof -
  have "n \<in> set (trieEntries tbl peer) \<longleftrightarrow> node_ok n \<and> routes tbl (node_route n) = Some peer" for n
    using assms by (auto simp: table_inv_def entries_agree_def)
  then show ?thesis using routes_node [OF assms, of k peer] by (metis image_iff)
qed

lemma RemoveByPeer_correct:
  assumes inv: "table_inv tbl"
  shows "\<exists>tbl'. RemoveByPeer tbl peer = Some tbl' \<and> table_inv tbl'
    \<and> routes tbl' = (\<lambda>k. if routes tbl k = Some peer then None else routes tbl k)"
proof -
  have ea: "distinct (trieEntries tbl peer)"
    "n \<in> set (trieEntries tbl peer) \<longleftrightarrow> node_ok n \<and> routes tbl (node_route n) = Some peer" for n
    using inv by (auto simp: table_inv_def entries_agree_def)
  with remove_nodes_correct [OF inv, of "trieEntries tbl peer" peer] entries_routes [OF inv]
  show ?thesis by (auto simp: RemoveByPeer_def)
qed

section \<open>The routing contract\<close>

lemma prefix_route_family:
  assumes "prefix_ok x"
  obtains ip where "addr_width (length ip)" "snd x \<le> 8 * length ip"
    "prefix_route x = (length ip, take (snd x) (ip_bits ip))"
    "\<And>(tbl :: 'p AllowedIPs) peer. Insert tbl x peer = insert_ip ip (snd x) peer tbl"
    "\<And>(tbl :: 'p AllowedIPs) peer. Remove tbl x peer = remove_ip ip (snd x) peer tbl"
  using assms
  by (cases "fst x") (auto simp: prefix_ok_def prefix_route_def addr_bytes_def addr_width_def
      Insert_def Remove_def intro: that)

lemma Insert_correct:
  assumes "table_inv tbl" "prefix_ok x"
  shows "\<exists>tbl'. Insert tbl x peer = Some tbl' \<and> table_inv tbl' \<and> routes tbl' = (routes tbl)(prefix_route x \<mapsto> peer)"
  by (rule prefix_route_family [OF assms(2), where 'p = 'a])
     (use insert_ip_correct [OF assms(1)] in \<open>simp del: fun_upd_apply\<close>)

lemma Remove_correct:
  assumes "table_inv tbl" "prefix_ok x"
  shows "\<exists>tbl'. Remove tbl x peer = Some tbl' \<and> table_inv tbl' \<and>
    routes tbl' = (if routes tbl (prefix_route x) = Some peer
       then (routes tbl)(prefix_route x := None) else routes tbl)"
  by (rule prefix_route_family [OF assms(2), where 'p = 'a])
     (simp only: remove_ip_correct [OF assms(1)])

lemma Lookup_correct:
  assumes "table_inv tbl" "addr_width (length ip)"
  shows "Lookup tbl ip = Some (lpm (\<lambda>k. routes tbl (length ip, k)) (ip_bits ip))"
proof -
  have "Lookup tbl ip = trie_lookup (family_trie (length ip) tbl) ip None"
    using assms(2) by (auto simp: Lookup_def family_trie_def addr_width_def)
  also have "\<dots> = Some (lpm (trie_map (family_trie (length ip) tbl)) (ip_bits ip))"
    by (simp add: trie_lookup_correct [OF assms(2) refl routes_family(2) [OF assms(2,1)]] split: option.splits)
  also have "trie_map (family_trie (length ip) tbl) = (\<lambda>k. routes tbl (length ip, k))"
    using routes_family(1) [OF assms(2), of tbl] by auto
  finally show ?thesis .
qed

lemma new_AllowedIPs_inv [simp]: "table_inv new_AllowedIPs" "routes new_AllowedIPs = Map.empty"
  by (auto simp: table_inv_def new_AllowedIPs_def entries_agree_def routes_def fun_eq_iff)

lemma lpm_Some:
  assumes "lpm m bs = Some p"
  obtains n where "n \<le> length bs" "m (take n bs) = Some p" "\<And>n'. n < n' \<Longrightarrow> n' \<le> length bs \<Longrightarrow> m (take n' bs) = None"
proof -
  let ?P = "\<lambda>n. m (take n bs) \<noteq> None"
  obtain n ns where f: "filter ?P (rev [0..<Suc (length bs)]) = n # ns" and p: "m (take n bs) = Some p"
    using assms unfolding lpm_def by (auto split: list.splits)
  obtain us vs where sp: "rev [0..<Suc (length bs)] = us @ n # vs" "\<forall>u\<in>set us. \<not> ?P u"
    using f unfolding filter_eq_Cons_iff by blast
  have n: "n \<le> length bs"
  proof -
    have "n \<in> set (rev [0..<Suc (length bs)])" unfolding sp(1) by simp
    then show ?thesis by (simp del: upt_Suc)
  qed
  have "sorted (rev (us @ n # vs))" unfolding sp(1) [symmetric] by (simp del: upt_Suc)
  then have le: "\<forall>v\<in>set vs. v \<le> n" by (auto simp: sorted_append)
  have "m (take n' bs) = None" if "n < n'" "n' \<le> length bs" for n'
  proof -
    have "n' \<in> set (us @ n # vs)" unfolding sp(1) [symmetric] using that by (simp del: upt_Suc)
    with le that sp(2) show ?thesis by auto
  qed
  with n p that show ?thesis by blast
qed

lemma lpm_eq:
  assumes "n \<le> length bs" "m (take n bs) = Some p" "\<And>n'. n < n' \<Longrightarrow> n' \<le> length bs \<Longrightarrow> m (take n' bs) = None"
  shows "lpm m bs = Some p"
proof (cases "lpm m bs")
  case None
  let ?P = "\<lambda>n. m (take n bs) \<noteq> None" and ?ns = "rev [0..<Suc (length bs)]"
  have "n \<in> set (filter ?P ?ns)" using assms(1,2) by (simp del: upt_Suc)
  then obtain k ks where k: "filter ?P ?ns = k # ks" by (cases "filter ?P ?ns") auto
  then have "k \<in> set (filter ?P ?ns)" by simp
  then have "?P k" by (simp del: upt_Suc)
  with None k show ?thesis by (simp add: lpm_def del: upt_Suc)
next
  case (Some q)
  then show ?thesis
  proof (rule lpm_Some)
    fix k assume "k \<le> length bs" "m (take k bs) = Some q" "\<And>n'. k < n' \<Longrightarrow> n' \<le> length bs \<Longrightarrow> m (take n' bs) = None"
    then have "k = n" using assms by (metis linorder_neqE_nat option.distinct(1))
    with \<open>m (take k bs) = Some q\<close> assms Some show ?thesis by simp
  qed
qed

text \<open>What the rest of the device relies on, for any representation of the table.\<close>

datatype 'p routing_op = OpInsert netip_prefix 'p | OpRemove netip_prefix 'p | OpRemoveByPeer 'p

fun op_ok :: "'p routing_op \<Rightarrow> bool" where
  "op_ok (OpInsert x p) = prefix_ok x"
| "op_ok (OpRemove x p) = prefix_ok x"
| "op_ok (OpRemoveByPeer p) = True"

fun route_spec :: "'p routing_op \<Rightarrow> (route \<Rightarrow> 'p option) \<Rightarrow> route \<Rightarrow> 'p option" where
  "route_spec (OpInsert x p) m = m(prefix_route x \<mapsto> p)"
| "route_spec (OpRemove x p) m = (if m (prefix_route x) = Some p then m(prefix_route x := None) else m)"
| "route_spec (OpRemoveByPeer p) m = (\<lambda>k. if m k = Some p then None else m k)"

fun table_op :: "'p routing_op \<Rightarrow> 'p AllowedIPs \<Rightarrow> 'p AllowedIPs option" where
  "table_op (OpInsert x p) tbl = Insert tbl x p"
| "table_op (OpRemove x p) tbl = Remove tbl x p"
| "table_op (OpRemoveByPeer p) tbl = RemoveByPeer tbl p"

locale cryptokey_routing =
  fixes inv :: "'s \<Rightarrow> bool" and abs :: "'s \<Rightarrow> route \<Rightarrow> 'p option" and new :: 's
    and step :: "'p routing_op \<Rightarrow> 's \<Rightarrow> 's option"
    and lookup_op :: "'s \<Rightarrow> bytes \<Rightarrow> 'p option option"
  assumes new_law: "inv new" "abs new = Map.empty"
    and step_law: "inv s \<Longrightarrow> op_ok r \<Longrightarrow> \<exists>s'. step r s = Some s' \<and> inv s' \<and> abs s' = route_spec r (abs s)"
    and lookup_law: "inv s \<Longrightarrow> addr_width (length ip) \<Longrightarrow>
      lookup_op s ip = Some (lpm (\<lambda>k. abs s (length ip, k)) (ip_bits ip))"
begin

lemma lookup_after_steps:
  assumes "list_all op_ok rs" "addr_width (length ip)"
  shows "do { s \<leftarrow> run_ops step rs new; lookup_op s ip }
    = Some (lpm (\<lambda>k. fold route_spec rs Map.empty (length ip, k)) (ip_bits ip))"
proof -
  obtain s where s: "run_ops step rs new = Some s" "inv s" "abs s = fold route_spec rs Map.empty"
    using run_ops_refine [where step = step, OF step_law new_law(1) assms(1)] new_law(2) by auto
  show ?thesis using lookup_law [OF s(2) assms(2)] s by simp
qed

lemma lookup_not_removed:
  assumes "inv s" "step (OpRemoveByPeer p) s = Some s'" "addr_width (length ip)"
  shows "lookup_op s' ip \<noteq> Some (Some p)"
proof
  assume a: "lookup_op s' ip = Some (Some p)"
  have s': "inv s'" "abs s' = (\<lambda>k. if abs s k = Some p then None else abs s k)"
    using step_law [OF assms(1), of "OpRemoveByPeer p"] assms(2) by auto
  then have "lpm (\<lambda>k. abs s' (length ip, k)) (ip_bits ip) = Some p"
    using lookup_law [OF s'(1) assms(3)] a by simp
  then show False by (rule lpm_Some) (simp add: s'(2) split: if_splits)
qed

lemma lookup_inserted:
  assumes "inv s" "prefix_ok x" "step (OpInsert x p) s = Some s'" "addr_width (length ip)"
    and "prefix_route x = (length ip, take n (ip_bits ip))" "n \<le> 8 * length ip"
    and "\<And>n'. n < n' \<Longrightarrow> n' \<le> 8 * length ip \<Longrightarrow> abs s (length ip, take n' (ip_bits ip)) = None"
  shows "lookup_op s' ip = Some (Some p)"
proof -
  have s': "inv s'" "abs s' = (abs s)(prefix_route x \<mapsto> p)"
    using step_law [OF assms(1), of "OpInsert x p"] assms(2,3) by auto
  have ne: "n < n' \<Longrightarrow> n' \<le> 8 * length ip \<Longrightarrow> take n' (ip_bits ip) \<noteq> take n (ip_bits ip)" for n'
    by (metis length_ip_bits length_take min.absorb2 less_le_trans less_imp_le less_irrefl)
  have "lpm (\<lambda>k. abs s' (length ip, k)) (ip_bits ip) = Some p"
    by (rule lpm_eq [of n]) (use s' assms ne in auto)
  then show ?thesis using lookup_law [OF s'(1) assms(4)] by simp
qed

end

interpretation wg_routing: cryptokey_routing table_inv routes new_AllowedIPs table_op Lookup
proof unfold_locales
  fix s :: "'a AllowedIPs" and r :: "'a routing_op" assume "table_inv s" "op_ok r"
  then show "\<exists>s'. table_op r s = Some s' \<and> table_inv s' \<and> routes s' = route_spec r (routes s)"
    by (cases r) (simp_all only: table_op.simps op_ok.simps route_spec.simps
        Insert_correct Remove_correct RemoveByPeer_correct)
qed (simp_all add: Lookup_correct)

section \<open>Properties\<close>

text \<open>C7. \<open>commonBits\<close>, computed on big-endian words, is the length of the longest common prefix of
  the two addresses as bit strings, for both address families.\<close>

theorem commonBits_is_common_prefix:
  assumes "addr_width (length ip1)" and "length ip2 = length ip1"
  shows "commonBits ip1 ip2 = Some (lcp_len (ip_bits ip1) (ip_bits ip2))"
  using assms commonBits_correct by (auto simp: addr_width_def)

theorem commonBits_is_common_prefix_witness:
  "commonBits [10, 0, 0, 1] [10, 0, 0, 2] = Some 30"
proof -
  have "commonBits [10, 0, 0, 1] [10, 0, 0, 2] = Some (lcp_len (ip_bits [10, 0, 0, 1]) (ip_bits [10, 0, 0, 2]))"
    by (rule commonBits_is_common_prefix) (simp_all add: addr_width_def)
  also have "lcp_len (ip_bits [10, 0, 0, 1]) (ip_bits [10, 0, 0, 2]) = 30" by code_simp
  finally show ?thesis .
qed

text \<open>C6. Cryptokey routing: whatever sequence of \<open>Insert\<close>, \<open>Remove\<close> and \<open>RemoveByPeer\<close> calls with
  valid prefixes built the table, no call panics and \<open>Lookup\<close> returns the longest-prefix match in
  the finite map that those calls describe.\<close>

theorem Lookup_is_longest_prefix_match:
  assumes "list_all op_ok ops" and "addr_width (length ip)"
  shows "do { tbl \<leftarrow> run_ops table_op ops new_AllowedIPs; Lookup tbl ip }
    = Some (lpm (\<lambda>k. fold route_spec ops Map.empty (length ip, k)) (ip_bits ip))"
  using assms by (rule wg_routing.lookup_after_steps)

definition routing_example :: "nat routing_op list" where
  "routing_example = [OpInsert (Addr4 [10, 0, 0, 0], 8) 1, OpInsert (Addr4 [10, 1, 0, 0], 16) 2,
     OpInsert (Addr4 [10, 1, 2, 3], 32) 3, OpRemove (Addr4 [10, 1, 2, 3], 32) 3]"

theorem Lookup_is_longest_prefix_match_witness:
  "do { tbl \<leftarrow> run_ops table_op routing_example new_AllowedIPs; Lookup tbl [10, 1, 2, 3] } = Some (Some 2)"
proof -
  have "do { tbl \<leftarrow> run_ops table_op routing_example new_AllowedIPs; Lookup tbl [10, 1, 2, 3] }
    = Some (lpm (\<lambda>k. fold route_spec routing_example Map.empty (length [10, 1, 2, 3 :: u8], k)) (ip_bits [10, 1, 2, 3]))"
    by (rule Lookup_is_longest_prefix_match)
       (simp_all add: routing_example_def prefix_ok_def addr_width_def)
  also have "\<dots> = Some (Some 2)" by code_simp
  finally show ?thesis .
qed

text \<open>\<open>Insert\<close> overwrites: after a successful \<open>Insert\<close>, every address of the prefix that has no
  longer prefix in the table is routed to the new peer, whoever owned the prefix before.\<close>

theorem Insert_routes_prefix:
  assumes "table_inv tbl" and "prefix_ok x" and "Insert tbl x peer = Some tbl'"
    and "addr_width (length ip)" and "prefix_route x = (length ip, take n (ip_bits ip))" and "n \<le> 8 * length ip"
    and "\<And>n'. n < n' \<Longrightarrow> n' \<le> 8 * length ip \<Longrightarrow> routes tbl (length ip, take n' (ip_bits ip)) = None"
  shows "Lookup tbl' ip = Some (Some peer)"
  by (rule wg_routing.lookup_inserted [OF assms(1,2) _ assms(4-6)]) (use assms in auto)

theorem Insert_routes_prefix_witness:
  "Lookup (the (Insert new_AllowedIPs (Addr4 [192, 168, 0, 0], 16) (7 :: nat))) [192, 168, 5, 6] = Some (Some 7)"
proof (rule Insert_routes_prefix [where tbl = new_AllowedIPs and x = "(Addr4 [192, 168, 0, 0], 16)" and n = 16])
  show "Insert new_AllowedIPs (Addr4 [192, 168, 0, 0], 16) (7 :: nat)
      = Some (the (Insert new_AllowedIPs (Addr4 [192, 168, 0, 0], 16) 7))"
    using Insert_correct [of new_AllowedIPs "(Addr4 [192, 168, 0, 0], 16)" "7 :: nat"]
    by (auto simp: prefix_ok_def)
  show "prefix_route (Addr4 [192, 168, 0, 0], 16)
      = (length [192, 168, 5, 6 :: u8], take 16 (ip_bits [192, 168, 5, 6]))"
    by code_simp
qed (simp_all add: prefix_ok_def addr_width_def)

text \<open>Removing a peer: \<open>RemoveByPeer\<close> always succeeds, keeps the table well formed, deletes exactly
  the routes of that peer, and afterwards no address is routed to it.\<close>

theorem RemoveByPeer_removes_all:
  assumes "table_inv tbl"
  shows "\<exists>tbl'. RemoveByPeer tbl peer = Some tbl' \<and> table_inv tbl' \<and> trieEntries tbl' peer = []
    \<and> (\<forall>k. routes tbl' k = (if routes tbl k = Some peer then None else routes tbl k))
    \<and> (\<forall>ip. addr_width (length ip) \<longrightarrow> Lookup tbl' ip \<noteq> Some (Some peer))"
proof -
  obtain tbl' where t: "RemoveByPeer tbl peer = Some tbl'" "table_inv tbl'"
    "routes tbl' = (\<lambda>k. if routes tbl k = Some peer then None else routes tbl k)"
    using RemoveByPeer_correct [OF assms] by blast
  have "n \<notin> set (trieEntries tbl' peer)" for n
    using t(2,3) by (auto simp: table_inv_def entries_agree_def split: if_splits)
  then have "trieEntries tbl' peer = []" by (cases "trieEntries tbl' peer") auto
  moreover have "Lookup tbl' ip \<noteq> Some (Some peer)" if "addr_width (length ip)" for ip
    by (rule wg_routing.lookup_not_removed [OF assms _ that]) (simp add: t(1))
  ultimately show ?thesis using t by auto
qed

theorem RemoveByPeer_removes_all_witness:
  "\<exists>tbl'. RemoveByPeer (the (Insert new_AllowedIPs (Addr4 [10, 0, 0, 0], 8) (1 :: nat))) 1 = Some tbl'
     \<and> Lookup tbl' [10, 0, 0, 1] \<noteq> Some (Some 1)"
proof -
  have i: "table_inv (the (Insert new_AllowedIPs (Addr4 [10, 0, 0, 0], 8) (1 :: nat)))"
    using Insert_correct [of new_AllowedIPs "(Addr4 [10, 0, 0, 0], 8)" "1 :: nat"] by (auto simp: prefix_ok_def)
  from RemoveByPeer_removes_all [OF i, of 1] show ?thesis by (auto simp: addr_width_def)
qed

lemma entries_loop_collect:
  "entries_loop ns (\<lambda>x acc. (acc @ [x], True)) acc = acc @ map (\<lambda>n. (AddrFromSlice (fst n), snd n)) ns"
  by (induction ns arbitrary: acc) auto

lemma AddrFromSlice_node:
  assumes "node_ok n"
  shows "prefix_ok (AddrFromSlice (fst n), snd n)" "prefix_route (AddrFromSlice (fst n), snd n) = node_route n"
  using assms by (auto simp: node_ok_def addr_width_def prefix_ok_def prefix_route_def AddrFromSlice_def
      addr_bytes_def node_route_def)

text \<open>The configuration read-out: \<open>EntriesForPeer\<close> enumerates each allowed prefix of a peer once,
  every enumerated prefix is valid, and a route is enumerated exactly when the table gives it to
  that peer.\<close>

theorem EntriesForPeer_complete:
  assumes "table_inv tbl" and "ps = EntriesForPeer tbl peer (\<lambda>x acc. (acc @ [x], True)) []"
  shows "distinct (map prefix_route ps) \<and> list_all prefix_ok ps
    \<and> prefix_route ` set ps = {k. routes tbl k = Some peer}"
proof -
  let ?ns = "trieEntries tbl peer"
  have ps: "ps = map (\<lambda>n. (AddrFromSlice (fst n), snd n)) ?ns"
    using assms(2) by (simp add: EntriesForPeer_def entries_loop_collect)
  have ns: "distinct ?ns" "\<And>n. n \<in> set ?ns \<longleftrightarrow> node_ok n \<and> routes tbl (node_route n) = Some peer"
    using assms(1) by (auto simp: table_inv_def entries_agree_def)
  have "map prefix_route ps = map node_route ?ns"
    using ns(2) AddrFromSlice_node(2) by (simp add: ps)
  moreover have "distinct (map node_route ?ns)"
    using ns node_route_inj by (auto simp: distinct_map intro!: inj_onI)
  moreover have "list_all prefix_ok ps"
    using ns(2) AddrFromSlice_node(1) by (auto simp: ps list_all_iff)
  moreover have "node_route ` set ?ns = {k. routes tbl k = Some peer}"
    using entries_routes [OF assms(1)] by blast
  ultimately show ?thesis by (metis set_map)
qed

definition example_table :: "nat AllowedIPs" where
  "example_table = the (run_ops table_op routing_example new_AllowedIPs)"

lemma example_table_inv: "table_inv example_table"
proof -
  have "list_all op_ok routing_example" by (simp add: routing_example_def prefix_ok_def)
  from run_ops_refine [where step = table_op, OF wg_routing.step_law new_AllowedIPs_inv(1) this]
  show ?thesis by (auto simp: example_table_def)
qed

theorem EntriesForPeer_complete_witness:
  "EntriesForPeer example_table 2 (\<lambda>x acc. (acc @ [x], True)) [] = [(Addr4 [10, 1, 0, 0], 16)]
   \<and> {k. routes example_table k = Some 2} = {prefix_route (Addr4 [10, 1, 0, 0], 16)}"
proof -
  have e: "EntriesForPeer example_table 2 (\<lambda>x acc. (acc @ [x], True)) [] = [(Addr4 [10, 1, 0, 0], 16)]"
    by code_simp
  show ?thesis
    using EntriesForPeer_complete [OF example_table_inv refl, of 2] unfolding e by simp
qed

end
