(* ===== verification/NoiseTypes.thy ===== *)
theory NoiseTypes
  imports Prelude "HOL-Library.Monad_Syntax"
begin

text \<open>
  Keys, hexadecimal strings and key derivation: \<^verbatim>\<open>src/device/noise-types.go\<close> and
  \<^verbatim>\<open>src/device/noise-helpers.go\<close>. BLAKE2s, ChaCha20-Poly1305, XChaCha20-Poly1305 and
  Curve25519 come from \<^verbatim>\<open>golang.org/x/crypto\<close>; they are the fields of the record \<open>crypto\<close>, an
  argument of every definition that uses them, and \<open>crypto_ok\<close> states what the code relies on.
  HMAC (\<^verbatim>\<open>crypto/hmac\<close>) is the standard construction over the hash.
\<close>

section \<open>The cryptographic primitives\<close>

record crypto =
  blake2s256 :: "bytes \<Rightarrow> bytes"
  blake2s128 :: "bytes \<Rightarrow> bytes \<Rightarrow> bytes"
  aead_Seal :: "bytes \<Rightarrow> bytes \<Rightarrow> bytes \<Rightarrow> bytes \<Rightarrow> bytes"
  aead_Open :: "bytes \<Rightarrow> bytes \<Rightarrow> bytes \<Rightarrow> bytes \<Rightarrow> bytes option"
  xaead_Seal :: "bytes \<Rightarrow> bytes \<Rightarrow> bytes \<Rightarrow> bytes \<Rightarrow> bytes"
  xaead_Open :: "bytes \<Rightarrow> bytes \<Rightarrow> bytes \<Rightarrow> bytes \<Rightarrow> bytes option"
  ScalarBaseMult :: "bytes \<Rightarrow> bytes"
  ScalarMult :: "bytes \<Rightarrow> bytes \<Rightarrow> bytes"

text \<open>The arguments of \<open>Seal\<close> and \<open>Open\<close> are key, nonce, text and additional data.\<close>

definition crypto_ok :: "crypto \<Rightarrow> bool" where
  "crypto_ok c \<longleftrightarrow>
     (\<forall>m. length (blake2s256 c m) = 32) \<and>
     (\<forall>k m. length (blake2s128 c k m) = 16) \<and>
     (\<forall>k n p ad. length (aead_Seal c k n p ad) = length p + 16) \<and>
     (\<forall>k n p ad. aead_Open c k n (aead_Seal c k n p ad) ad = Some p) \<and>
     (\<forall>k n x p ad. aead_Open c k n x ad = Some p \<longrightarrow> length x = length p + 16) \<and>
     (\<forall>k n p ad. length (xaead_Seal c k n p ad) = length p + 16) \<and>
     (\<forall>k n p ad. xaead_Open c k n (xaead_Seal c k n p ad) ad = Some p) \<and>
     (\<forall>k n x p ad. xaead_Open c k n x ad = Some p \<longrightarrow> length x = length p + 16) \<and>
     (\<forall>s. length (ScalarBaseMult c s) = 32) \<and>
     (\<forall>s p. length (ScalarMult c s p) = 32) \<and>
     (\<forall>a b. ScalarMult c a (ScalarBaseMult c b) = ScalarMult c b (ScalarBaseMult c a))"

lemma crypto_okD:
  assumes "crypto_ok c"
  shows "length (blake2s256 c m) = 32" "length (blake2s128 c k m) = 16"
    "length (aead_Seal c k n p ad) = length p + 16"
    "aead_Open c k n (aead_Seal c k n p ad) ad = Some p"
    "aead_Open c k n x ad = Some p \<Longrightarrow> length x = length p + 16"
    "length (xaead_Seal c k n p ad) = length p + 16"
    "xaead_Open c k n (xaead_Seal c k n p ad) ad = Some p"
    "xaead_Open c k n x ad = Some p \<Longrightarrow> length x = length p + 16"
    "length (ScalarBaseMult c s) = 32" "length (ScalarMult c s q) = 32"
    "ScalarMult c a (ScalarBaseMult c b) = ScalarMult c b (ScalarBaseMult c a)"
  using assms unfolding crypto_ok_def by simp_all metis+

text \<open>The laws are consistent: a toy instance, used by the witnesses.\<close>

definition fit :: "nat \<Rightarrow> bytes \<Rightarrow> bytes" where
  "fit n xs = take n (xs @ replicate n 0)"

lemma length_fit [simp]: "length (fit n xs) = n"
  by (simp add: fit_def)

definition toy_Open :: "bytes \<Rightarrow> bytes \<Rightarrow> bytes \<Rightarrow> bytes \<Rightarrow> bytes option" where
  "toy_Open k n x ad = (if length x \<ge> 16 then Some (take (length x - 16) x) else None)"

definition toy_crypto :: crypto where
  "toy_crypto =
     \<lparr>blake2s256 = (\<lambda>m. fit 32 (rev m)), blake2s128 = (\<lambda>k m. fit 16 (rev m)),
      aead_Seal = (\<lambda>k n p ad. p @ replicate 16 0), aead_Open = toy_Open,
      xaead_Seal = (\<lambda>k n p ad. p @ replicate 16 0), xaead_Open = toy_Open,
      ScalarBaseMult = fit 32,
      ScalarMult = (\<lambda>s p. map2 (XOR) (fit 32 s) (fit 32 p))\<rparr>"

lemma fit_fit [simp]: "fit n (fit n xs) = fit n xs"
  by (simp add: fit_def)

lemma toy_crypto_ok: "crypto_ok toy_crypto"
proof -
  have c: "map2 (XOR) (fit 32 a) (fit 32 b) = map2 (XOR) (fit 32 b) (fit 32 a)" for a b :: bytes
    by (rule nth_equalityI) (auto simp: xor.commute)
  show ?thesis
    unfolding crypto_ok_def toy_crypto_def by (auto simp: toy_Open_def c split: if_splits)
qed

section \<open>Key types\<close>

definition NoisePublicKeySize :: nat where "NoisePublicKeySize = 32"
definition NoisePrivateKeySize :: nat where "NoisePrivateKeySize = 32"
definition NoisePresharedKeySize :: nat where "NoisePresharedKeySize = 32"

type_synonym NoisePublicKey = bytes
type_synonym NoisePrivateKey = bytes
type_synonym NoisePresharedKey = bytes

definition zero_key :: bytes where
  "zero_key = replicate 32 0"

lemma length_zero_key [simp]: "length zero_key = 32"
  by (simp add: zero_key_def)

text \<open>\<open>hex.DecodeString\<close> of the Go library: an error on a bad digit or an odd length.\<close>

definition fromHexChar :: "char \<Rightarrow> u8 option" where
  "fromHexChar ch =
     (let n = of_char ch :: nat
      in if 48 \<le> n \<and> n \<le> 57 then Some (of_nat (n - 48))
         else if 97 \<le> n \<and> n \<le> 102 then Some (of_nat (n - 97 + 10))
         else if 65 \<le> n \<and> n \<le> 70 then Some (of_nat (n - 65 + 10))
         else None)"

fun hex_DecodeString :: "string \<Rightarrow> bytes option" where
  "hex_DecodeString [] = Some []"
| "hex_DecodeString [a] = None"
| "hex_DecodeString (a # b # s) =
     do {
       x \<leftarrow> fromHexChar a;
       y \<leftarrow> fromHexChar b;
       bs \<leftarrow> hex_DecodeString s;
       Some ((push_bit 4 x OR y) # bs)
     }"

datatype key_error = ErrHex | ErrHexSize

definition loadExactHex :: "bytes \<Rightarrow> string \<Rightarrow> key_error option \<times> bytes" where
  "loadExactHex dst src =
     (case hex_DecodeString src of
        None \<Rightarrow> (Some ErrHex, dst)
      | Some s \<Rightarrow> if length s \<noteq> length dst then (Some ErrHexSize, dst) else (None, s))"

definition Equals :: "bytes \<Rightarrow> bytes \<Rightarrow> bool" where
  "Equals key tar \<longleftrightarrow> key = tar"

definition IsZero :: "bytes \<Rightarrow> bool" where
  "IsZero key \<longleftrightarrow> Equals key zero_key"

definition isZero :: "bytes \<Rightarrow> bool" where
  "isZero val = (foldl (\<lambda>acc b. acc AND (if b = 0 then 1 else 0)) (1 :: int) val = 1)"

definition setZero :: "bytes \<Rightarrow> bytes" where
  "setZero arr = map (\<lambda>_. 0) arr"

definition clamp :: "NoisePrivateKey \<Rightarrow> NoisePrivateKey" where
  "clamp sk =
     (let sk = sk[0 := sk ! 0 AND 248]
      in sk[31 := (sk ! 31 AND 127) OR 64])"

definition PrivateKey_FromHex :: "string \<Rightarrow> key_error option \<times> NoisePrivateKey" where
  "PrivateKey_FromHex src = (let (err, key) = loadExactHex zero_key src in (err, clamp key))"

definition FromMaybeZeroHex :: "string \<Rightarrow> key_error option \<times> NoisePrivateKey" where
  "FromMaybeZeroHex src =
     (let (err, key) = loadExactHex zero_key src
      in if IsZero key then (err, key) else (err, clamp key))"

definition FromHex :: "bytes \<Rightarrow> string \<Rightarrow> key_error option \<times> bytes" where
  "FromHex key src = loadExactHex key src"

section \<open>Key derivation\<close>

text \<open>\<open>hmac.New\<close> over BLAKE2s-256, whose block size is 64.\<close>

definition hmac_pad :: "crypto \<Rightarrow> u8 \<Rightarrow> bytes \<Rightarrow> bytes" where
  "hmac_pad c x key =
     (let key = (if length key > 64 then blake2s256 c key else key)
      in map (\<lambda>b. b XOR x) (key @ replicate (64 - length key) 0))"

definition hmac_sum :: "crypto \<Rightarrow> bytes \<Rightarrow> bytes \<Rightarrow> bytes" where
  "hmac_sum c key msg = blake2s256 c (hmac_pad c 0x5c key @ blake2s256 c (hmac_pad c 0x36 key @ msg))"

definition HMAC1 :: "crypto \<Rightarrow> bytes \<Rightarrow> bytes \<Rightarrow> bytes" where
  "HMAC1 c key in0 = hmac_sum c key in0"

definition HMAC2 :: "crypto \<Rightarrow> bytes \<Rightarrow> bytes \<Rightarrow> bytes \<Rightarrow> bytes" where
  "HMAC2 c key in0 in1 = hmac_sum c key (in0 @ in1)"

definition KDF1 :: "crypto \<Rightarrow> bytes \<Rightarrow> bytes \<Rightarrow> bytes" where
  "KDF1 c key input =
     (let t0 = HMAC1 c key input
      in HMAC1 c t0 [0x1])"

definition KDF2 :: "crypto \<Rightarrow> bytes \<Rightarrow> bytes \<Rightarrow> bytes \<times> bytes" where
  "KDF2 c key input =
     (let prk = HMAC1 c key input;
          t0 = HMAC1 c prk [0x1];
          t1 = HMAC2 c prk t0 [0x2]
      in (t0, t1))"

definition KDF3 :: "crypto \<Rightarrow> bytes \<Rightarrow> bytes \<Rightarrow> bytes \<times> bytes \<times> bytes" where
  "KDF3 c key input =
     (let prk = HMAC1 c key input;
          t0 = HMAC1 c prk [0x1];
          t1 = HMAC2 c prk t0 [0x2];
          t2 = HMAC2 c prk t1 [0x3]
      in (t0, t1, t2))"

section \<open>Key pairs and shared secrets\<close>

text \<open>The result of \<open>rand.Read\<close> into an array: the bytes it left there and whether it succeeded.\<close>

type_synonym rand_read = "bytes \<times> bool"

definition newPrivateKey :: "rand_read \<Rightarrow> NoisePrivateKey \<times> bool" where
  "newPrivateKey rnd = (clamp (fst rnd), snd rnd)"

definition publicKey :: "crypto \<Rightarrow> NoisePrivateKey \<Rightarrow> NoisePublicKey" where
  "publicKey c sk = ScalarBaseMult c sk"

text \<open>The second component is false for the error \<open>errInvalidPublicKey\<close>.\<close>

definition sharedSecret :: "crypto \<Rightarrow> NoisePrivateKey \<Rightarrow> NoisePublicKey \<Rightarrow> bytes \<times> bool" where
  "sharedSecret c sk pk =
     (let ss = ScalarMult c sk pk
      in if isZero ss then (ss, False) else (ss, True))"

section \<open>Lemmas\<close>

lemma isZero_iff: "isZero val \<longleftrightarrow> (\<forall>b\<in>set val. b = 0)"
proof -
  let ?f = "\<lambda>acc b. acc AND (if b = (0 :: u8) then 1 else 0) :: int"
  have z: "foldl ?f 0 val = 0" for val by (induction val) auto
  have o: "foldl ?f 1 val = (if \<forall>b\<in>set val. b = 0 then 1 else 0)" for val
    by (induction val) (auto simp: z)
  show ?thesis by (simp add: isZero_def o)
qed

lemma isZero_zero_key [simp]: "isZero zero_key"
  by (simp add: isZero_iff zero_key_def)

lemma length_clamp [simp]: "length (clamp sk) = length sk"
  by (simp add: clamp_def Let_def)

lemma length_loadExactHex: "length (snd (loadExactHex dst src)) = length dst"
  by (auto simp: loadExactHex_def split: option.splits)

lemma sharedSecret_sym:
  "crypto_ok c \<Longrightarrow> sharedSecret c a (publicKey c b) = sharedSecret c b (publicKey c a)"
  unfolding sharedSecret_def publicKey_def by (subst crypto_okD(11)) auto

lemma length_publicKey [simp]: "crypto_ok c \<Longrightarrow> length (publicKey c sk) = 32"
  by (simp add: publicKey_def crypto_okD)

lemma length_kdf [simp]:
  assumes "crypto_ok c"
  shows "length (HMAC1 c k m) = 32" "length (HMAC2 c k m m') = 32" "length (KDF1 c k m) = 32"
    "length (fst (KDF2 c k m)) = 32" "length (snd (KDF2 c k m)) = 32"
  using assms by (simp_all add: HMAC1_def HMAC2_def hmac_sum_def KDF1_def KDF2_def crypto_okD Let_def)

text \<open>Clamping makes a scalar a multiple of eight in the upper half of the range, and is idempotent.\<close>

lemma clamp_bits:
  assumes "length sk = 32"
  shows "clamp sk ! 0 AND 7 = 0" and "bit (clamp sk ! 31) 6" and "\<not> bit (clamp sk ! 31) 7"
    and "0 < i \<Longrightarrow> i < 31 \<Longrightarrow> clamp sk ! i = sk ! i" and "clamp (clamp sk) = clamp sk"
proof -
  have "(x AND 248) AND (7 :: u8) = 0" for x by (simp add: and.assoc)
  then show "clamp sk ! 0 AND 7 = 0" using assms by (simp add: clamp_def Let_def)
  have b: "bit (64 :: u8) 6" "\<not> bit (64 :: u8) 7" "\<not> bit (127 :: u8) 7" by code_simp+
  then show "bit (clamp sk ! 31) 6" "\<not> bit (clamp sk ! 31) 7"
    using assms by (auto simp: clamp_def Let_def bit_simps)
  show "0 < i \<Longrightarrow> i < 31 \<Longrightarrow> clamp sk ! i = sk ! i" by (simp add: clamp_def Let_def)
  have m: "(x AND 248) AND 248 = x AND (248 :: u8)" for x by (simp add: and.assoc)
  have "(((x AND 127) OR 64) AND 127) OR 64 = (x AND 127) OR (64 :: u8)" for x
    by (rule bit_word_eqI) (auto simp only: bit_or_iff bit_and_iff)
  with m assms show "clamp (clamp sk) = clamp sk"
    by (auto simp: clamp_def Let_def list_eq_iff_nth_eq nth_list_update)
qed

end
