(* ===== verification/Messages.thy ===== *)
theory Messages
  imports NoiseTypes Tai64n
begin

text \<open>
  The wire format, \<^verbatim>\<open>src/device/noise-protocol.go\<close>: the handshake messages, their sizes and their
  \<open>marshal\<close> and \<open>unmarshal\<close> methods. A message is a record with the source's fields; fixed-size
  arrays are byte lists whose lengths the predicates \<open>wf_initiation\<close>, \<open>wf_response\<close> and
  \<open>wf_cookie_reply\<close> fix. The locale \<open>message_codec\<close> is the contract of a message format; it is
  interpreted for the three messages.
\<close>

section \<open>Constants\<close>

definition MessageInitiationType :: u32 where "MessageInitiationType = 1"
definition MessageResponseType :: u32 where "MessageResponseType = 2"
definition MessageCookieReplyType :: u32 where "MessageCookieReplyType = 3"
definition MessageTransportType :: u32 where "MessageTransportType = 4"

definition MessageInitiationSize :: nat where "MessageInitiationSize = 148"
definition MessageResponseSize :: nat where "MessageResponseSize = 92"
definition MessageCookieReplySize :: nat where "MessageCookieReplySize = 64"
definition MessageTransportHeaderSize :: nat where "MessageTransportHeaderSize = 16"
definition MessageTransportSize :: nat where "MessageTransportSize = MessageTransportHeaderSize + 16"
definition MessageKeepaliveSize :: nat where "MessageKeepaliveSize = MessageTransportSize"

definition MessageTransportOffsetReceiver :: nat where "MessageTransportOffsetReceiver = 4"
definition MessageTransportOffsetCounter :: nat where "MessageTransportOffsetCounter = 8"
definition MessageTransportOffsetContent :: nat where "MessageTransportOffsetContent = 16"

lemmas message_sizes = MessageInitiationSize_def MessageResponseSize_def MessageCookieReplySize_def
  MessageTransportHeaderSize_def MessageTransportSize_def MessageKeepaliveSize_def
  MessageTransportOffsetReceiver_def MessageTransportOffsetCounter_def MessageTransportOffsetContent_def

lemmas message_types = MessageInitiationType_def MessageResponseType_def MessageCookieReplyType_def
  MessageTransportType_def

section \<open>Messages\<close>

record MessageInitiation =
  mi_Type :: u32
  mi_Sender :: u32
  mi_Ephemeral :: NoisePublicKey
  mi_Static :: bytes
  mi_Timestamp :: bytes
  mi_MAC1 :: bytes
  mi_MAC2 :: bytes

record MessageResponse =
  mr_Type :: u32
  mr_Sender :: u32
  mr_Receiver :: u32
  mr_Ephemeral :: NoisePublicKey
  mr_Empty :: bytes
  mr_MAC1 :: bytes
  mr_MAC2 :: bytes

record MessageCookieReply =
  mc_Type :: u32
  mc_Receiver :: u32
  mc_Nonce :: bytes
  mc_Cookie :: bytes

datatype message_error = errMessageLengthMismatch

definition wf_initiation :: "MessageInitiation \<Rightarrow> bool" where
  "wf_initiation m \<longleftrightarrow> length (mi_Ephemeral m) = 32 \<and> length (mi_Static m) = 48 \<and>
     length (mi_Timestamp m) = 28 \<and> length (mi_MAC1 m) = 16 \<and> length (mi_MAC2 m) = 16"

definition wf_response :: "MessageResponse \<Rightarrow> bool" where
  "wf_response m \<longleftrightarrow> length (mr_Ephemeral m) = 32 \<and> length (mr_Empty m) = 16 \<and>
     length (mr_MAC1 m) = 16 \<and> length (mr_MAC2 m) = 16"

definition wf_cookie_reply :: "MessageCookieReply \<Rightarrow> bool" where
  "wf_cookie_reply m \<longleftrightarrow> length (mc_Nonce m) = 24 \<and> length (mc_Cookie m) = 32"

section \<open>Marshalling\<close>

definition unmarshal_initiation :: "bytes \<Rightarrow> message_error + MessageInitiation" where
  "unmarshal_initiation b =
     (if length b \<noteq> MessageInitiationSize then Inl errMessageLengthMismatch
      else Inr \<lparr>mi_Type = le_word (go_slice 0 4 b), mi_Sender = le_word (go_slice 4 8 b),
                mi_Ephemeral = go_slice 8 40 b, mi_Static = go_slice 40 88 b,
                mi_Timestamp = go_slice 88 116 b, mi_MAC1 = go_slice 116 132 b,
                mi_MAC2 = go_slice 132 148 b\<rparr>)"

definition marshal_initiation :: "MessageInitiation \<Rightarrow> bytes \<Rightarrow> message_error + bytes" where
  "marshal_initiation msg b =
     (if length b \<noteq> MessageInitiationSize then Inl errMessageLengthMismatch
      else
        let b = put_at 0 (le_bytes 4 (mi_Type msg)) b;
            b = put_at 4 (le_bytes 4 (mi_Sender msg)) b;
            b = put_at 8 (mi_Ephemeral msg) b;
            b = put_at (8 + length (mi_Ephemeral msg)) (mi_Static msg) b;
            b = put_at (8 + length (mi_Ephemeral msg) + length (mi_Static msg)) (mi_Timestamp msg) b;
            b = put_at (8 + length (mi_Ephemeral msg) + length (mi_Static msg) + length (mi_Timestamp msg))
                  (mi_MAC1 msg) b;
            b = put_at (8 + length (mi_Ephemeral msg) + length (mi_Static msg) + length (mi_Timestamp msg)
                  + length (mi_MAC1 msg)) (mi_MAC2 msg) b
        in Inr b)"

definition unmarshal_response :: "bytes \<Rightarrow> message_error + MessageResponse" where
  "unmarshal_response b =
     (if length b \<noteq> MessageResponseSize then Inl errMessageLengthMismatch
      else Inr \<lparr>mr_Type = le_word (go_slice 0 4 b), mr_Sender = le_word (go_slice 4 8 b),
                mr_Receiver = le_word (go_slice 8 12 b), mr_Ephemeral = go_slice 12 44 b,
                mr_Empty = go_slice 44 60 b, mr_MAC1 = go_slice 60 76 b, mr_MAC2 = go_slice 76 92 b\<rparr>)"

definition marshal_response :: "MessageResponse \<Rightarrow> bytes \<Rightarrow> message_error + bytes" where
  "marshal_response msg b =
     (if length b \<noteq> MessageResponseSize then Inl errMessageLengthMismatch
      else
        let b = put_at 0 (le_bytes 4 (mr_Type msg)) b;
            b = put_at 4 (le_bytes 4 (mr_Sender msg)) b;
            b = put_at 8 (le_bytes 4 (mr_Receiver msg)) b;
            b = put_at 12 (mr_Ephemeral msg) b;
            b = put_at (12 + length (mr_Ephemeral msg)) (mr_Empty msg) b;
            b = put_at (12 + length (mr_Ephemeral msg) + length (mr_Empty msg)) (mr_MAC1 msg) b;
            b = put_at (12 + length (mr_Ephemeral msg) + length (mr_Empty msg) + length (mr_MAC1 msg))
                  (mr_MAC2 msg) b
        in Inr b)"

definition unmarshal_cookie_reply :: "bytes \<Rightarrow> message_error + MessageCookieReply" where
  "unmarshal_cookie_reply b =
     (if length b \<noteq> MessageCookieReplySize then Inl errMessageLengthMismatch
      else Inr \<lparr>mc_Type = le_word (go_slice 0 4 b), mc_Receiver = le_word (go_slice 4 8 b),
                mc_Nonce = go_slice 8 32 b, mc_Cookie = go_slice 32 64 b\<rparr>)"

definition marshal_cookie_reply :: "MessageCookieReply \<Rightarrow> bytes \<Rightarrow> message_error + bytes" where
  "marshal_cookie_reply msg b =
     (if length b \<noteq> MessageCookieReplySize then Inl errMessageLengthMismatch
      else
        let b = put_at 0 (le_bytes 4 (mc_Type msg)) b;
            b = put_at 4 (le_bytes 4 (mc_Receiver msg)) b;
            b = put_at 8 (mc_Nonce msg) b;
            b = put_at (8 + length (mc_Nonce msg)) (mc_Cookie msg) b
        in Inr b)"

section \<open>The contract of a message format\<close>

locale message_codec =
  fixes msg_size :: nat and wf :: "'m \<Rightarrow> bool"
    and marshal :: "'m \<Rightarrow> bytes \<Rightarrow> message_error + bytes"
    and unmarshal :: "bytes \<Rightarrow> message_error + 'm"
  assumes marshal_short: "length b \<noteq> msg_size \<Longrightarrow> marshal m b = Inl errMessageLengthMismatch"
    and unmarshal_short: "length b \<noteq> msg_size \<Longrightarrow> unmarshal b = Inl errMessageLengthMismatch"
    and decode_encode: "wf m \<Longrightarrow> length b = msg_size \<Longrightarrow>
      \<exists>b'. marshal m b = Inr b' \<and> length b' = msg_size \<and> unmarshal b' = Inr m"
    and encode_decode: "length b = msg_size \<Longrightarrow> length b0 = msg_size \<Longrightarrow>
      \<exists>m. unmarshal b = Inr m \<and> wf m \<and> marshal m b0 = Inr b"
begin

lemma unmarshal_ok_iff: "(\<exists>m. unmarshal b = Inr m) \<longleftrightarrow> length b = msg_size"
  using unmarshal_short encode_decode [of b b] by (cases "length b = msg_size") auto

lemma unmarshal_wf: "unmarshal b = Inr m \<Longrightarrow> wf m"
  using unmarshal_short [of b] encode_decode [of b b] by (cases "length b = msg_size") auto

lemma marshal_ignores_buffer:
  assumes "wf m" "length b = msg_size" "length b' = msg_size"
  shows "marshal m b = marshal m b'"
proof -
  obtain x where x: "marshal m b = Inr x" "length x = msg_size" "unmarshal x = Inr m"
    using decode_encode [OF assms(1,2)] by blast
  with encode_decode [OF x(2) assms(3)] show ?thesis by auto
qed

lemma unmarshal_inj: "unmarshal b = Inr m \<Longrightarrow> unmarshal b' = Inr m \<Longrightarrow> b = b'"
  using unmarshal_ok_iff [of b] unmarshal_ok_iff [of b'] encode_decode [of b b] encode_decode [of b' b]
  by (metis sum.inject(2))

end

lemma put_at_append:
  "i = length xs \<Longrightarrow> length ys \<le> length rest \<Longrightarrow> put_at i ys (xs @ rest) = xs @ ys @ drop (length ys) rest"
  by (simp add: put_at_def)

lemma put_at_0: "length ys \<le> length b \<Longrightarrow> put_at 0 ys b = ys @ drop (length ys) b"
  by (simp add: put_at_def)

text \<open>What \<open>marshal\<close> writes is the concatenation of the fields.\<close>

lemma marshal_initiation_eq:
  assumes "wf_initiation m" "length b = MessageInitiationSize"
  shows "marshal_initiation m b = Inr (le_bytes 4 (mi_Type m) @ le_bytes 4 (mi_Sender m) @ mi_Ephemeral m
    @ mi_Static m @ mi_Timestamp m @ mi_MAC1 m @ mi_MAC2 m)"
  using assms
  by (simp add: marshal_initiation_def wf_initiation_def message_sizes Let_def put_at_0 put_at_append
      flip: append_assoc)

lemma marshal_response_eq:
  assumes "wf_response m" "length b = MessageResponseSize"
  shows "marshal_response m b = Inr (le_bytes 4 (mr_Type m) @ le_bytes 4 (mr_Sender m)
    @ le_bytes 4 (mr_Receiver m) @ mr_Ephemeral m @ mr_Empty m @ mr_MAC1 m @ mr_MAC2 m)"
  using assms
  by (simp add: marshal_response_def wf_response_def message_sizes Let_def put_at_0 put_at_append
      flip: append_assoc)

lemma marshal_cookie_reply_eq:
  assumes "wf_cookie_reply m" "length b = MessageCookieReplySize"
  shows "marshal_cookie_reply m b = Inr (le_bytes 4 (mc_Type m) @ le_bytes 4 (mc_Receiver m)
    @ mc_Nonce m @ mc_Cookie m)"
  using assms
  by (simp add: marshal_cookie_reply_def wf_cookie_reply_def message_sizes Let_def put_at_0 put_at_append
      flip: append_assoc)

lemma le_bytes_slice [simp]: "length b = 4 \<Longrightarrow> le_bytes 4 (le_word b :: u32) = b"
  using le_bytes_le_word [of b, where 'a = 32] by simp

lemma slice_all: "j = length xs \<Longrightarrow> go_slice 0 j xs = xs"
  by (simp add: go_slice_def)

interpretation initiation: message_codec MessageInitiationSize wf_initiation marshal_initiation unmarshal_initiation
proof unfold_locales
  fix m and b :: bytes assume "wf_initiation m" "length b = MessageInitiationSize"
  then show "\<exists>b'. marshal_initiation m b = Inr b' \<and> length b' = MessageInitiationSize
      \<and> unmarshal_initiation b' = Inr m"
    by (simp add: marshal_initiation_eq)
       (simp add: wf_initiation_def unmarshal_initiation_def message_sizes byte_simps)
next
  fix b b0 :: bytes assume a: "length b = MessageInitiationSize" "length b0 = MessageInitiationSize"
  obtain m where m: "unmarshal_initiation b = Inr m" "wf_initiation m"
    using a by (simp add: unmarshal_initiation_def wf_initiation_def message_sizes)
  have "marshal_initiation m b0 = Inr b"
    using m a unfolding marshal_initiation_eq [OF m(2) a(2)]
    by (auto simp: unmarshal_initiation_def message_sizes slice_adjacent slice_all)
  with m show "\<exists>m. unmarshal_initiation b = Inr m \<and> wf_initiation m \<and> marshal_initiation m b0 = Inr b" by blast
qed (simp_all add: marshal_initiation_def unmarshal_initiation_def)

interpretation response: message_codec MessageResponseSize wf_response marshal_response unmarshal_response
proof unfold_locales
  fix m and b :: bytes assume "wf_response m" "length b = MessageResponseSize"
  then show "\<exists>b'. marshal_response m b = Inr b' \<and> length b' = MessageResponseSize
      \<and> unmarshal_response b' = Inr m"
    by (simp add: marshal_response_eq)
       (simp add: wf_response_def unmarshal_response_def message_sizes byte_simps)
next
  fix b b0 :: bytes assume a: "length b = MessageResponseSize" "length b0 = MessageResponseSize"
  obtain m where m: "unmarshal_response b = Inr m" "wf_response m"
    using a by (simp add: unmarshal_response_def wf_response_def message_sizes)
  have "marshal_response m b0 = Inr b"
    using m a unfolding marshal_response_eq [OF m(2) a(2)]
    by (auto simp: unmarshal_response_def message_sizes slice_adjacent slice_all)
  with m show "\<exists>m. unmarshal_response b = Inr m \<and> wf_response m \<and> marshal_response m b0 = Inr b" by blast
qed (simp_all add: marshal_response_def unmarshal_response_def)

interpretation cookie_reply: message_codec MessageCookieReplySize wf_cookie_reply marshal_cookie_reply
  unmarshal_cookie_reply
proof unfold_locales
  fix m and b :: bytes assume "wf_cookie_reply m" "length b = MessageCookieReplySize"
  then show "\<exists>b'. marshal_cookie_reply m b = Inr b' \<and> length b' = MessageCookieReplySize
      \<and> unmarshal_cookie_reply b' = Inr m"
    by (simp add: marshal_cookie_reply_eq)
       (simp add: wf_cookie_reply_def unmarshal_cookie_reply_def message_sizes byte_simps)
next
  fix b b0 :: bytes assume a: "length b = MessageCookieReplySize" "length b0 = MessageCookieReplySize"
  obtain m where m: "unmarshal_cookie_reply b = Inr m" "wf_cookie_reply m"
    using a by (simp add: unmarshal_cookie_reply_def wf_cookie_reply_def message_sizes)
  have "marshal_cookie_reply m b0 = Inr b"
    using m a unfolding marshal_cookie_reply_eq [OF m(2) a(2)]
    by (auto simp: unmarshal_cookie_reply_def message_sizes slice_adjacent slice_all)
  with m show "\<exists>m. unmarshal_cookie_reply b = Inr m \<and> wf_cookie_reply m \<and> marshal_cookie_reply m b0 = Inr b"
    by blast
qed (simp_all add: marshal_cookie_reply_def unmarshal_cookie_reply_def)

section \<open>Properties\<close>

text \<open>C14. Decoding what was encoded: for every well-formed initiation, response and cookie reply,
  \<open>marshal\<close> into a buffer of the message's size succeeds and \<open>unmarshal\<close> gives the message back.\<close>

theorem messages_decode_encode:
  assumes "wf_initiation mi" and "wf_response mr" and "wf_cookie_reply mc"
  shows "\<exists>bi br bc. marshal_initiation mi (replicate 148 0) = Inr bi \<and> unmarshal_initiation bi = Inr mi
    \<and> marshal_response mr (replicate 92 0) = Inr br \<and> unmarshal_response br = Inr mr
    \<and> marshal_cookie_reply mc (replicate 64 0) = Inr bc \<and> unmarshal_cookie_reply bc = Inr mc"
  using initiation.decode_encode [OF assms(1), of "replicate 148 0"]
    response.decode_encode [OF assms(2), of "replicate 92 0"]
    cookie_reply.decode_encode [OF assms(3), of "replicate 64 0"]
  by (auto simp: message_sizes)

definition example_initiation :: MessageInitiation where
  "example_initiation = \<lparr>mi_Type = 1, mi_Sender = 0x01020304, mi_Ephemeral = replicate 32 7,
     mi_Static = replicate 48 8, mi_Timestamp = replicate 28 9, mi_MAC1 = replicate 16 10, mi_MAC2 = replicate 16 11\<rparr>"

definition example_response :: MessageResponse where
  "example_response = \<lparr>mr_Type = 2, mr_Sender = 5, mr_Receiver = 0x01020304, mr_Ephemeral = replicate 32 1,
     mr_Empty = replicate 16 2, mr_MAC1 = replicate 16 3, mr_MAC2 = replicate 16 4\<rparr>"

definition example_cookie_reply :: MessageCookieReply where
  "example_cookie_reply = \<lparr>mc_Type = 3, mc_Receiver = 0x01020304, mc_Nonce = replicate 24 1,
     mc_Cookie = replicate 32 2\<rparr>"

theorem messages_decode_encode_witness:
  "\<exists>bi. marshal_initiation example_initiation (replicate 148 0) = Inr bi
    \<and> unmarshal_initiation bi = Inr example_initiation"
  using messages_decode_encode [of example_initiation example_response example_cookie_reply]
  by (auto simp: wf_initiation_def wf_response_def wf_cookie_reply_def example_initiation_def
      example_response_def example_cookie_reply_def)

text \<open>The wire format is canonical: a datagram is decoded exactly when it has the message's size,
  and encoding the decoded message restores the datagram bit by bit.\<close>

theorem messages_encode_decode:
  "(if length b = 148 then \<exists>m. unmarshal_initiation b = Inr m \<and> wf_initiation m
        \<and> marshal_initiation m (replicate 148 0) = Inr b
    else unmarshal_initiation b = Inl errMessageLengthMismatch)
   \<and> (if length b = 92 then \<exists>m. unmarshal_response b = Inr m \<and> wf_response m
        \<and> marshal_response m (replicate 92 0) = Inr b
    else unmarshal_response b = Inl errMessageLengthMismatch)
   \<and> (if length b = 64 then \<exists>m. unmarshal_cookie_reply b = Inr m \<and> wf_cookie_reply m
        \<and> marshal_cookie_reply m (replicate 64 0) = Inr b
    else unmarshal_cookie_reply b = Inl errMessageLengthMismatch)"
  using initiation.encode_decode [of b "replicate 148 0"] initiation.unmarshal_short [of b]
    response.encode_decode [of b "replicate 92 0"] response.unmarshal_short [of b]
    cookie_reply.encode_decode [of b "replicate 64 0"] cookie_reply.unmarshal_short [of b]
  by (simp add: message_sizes)

end
