(* ===== verification/Cookie.thy ===== *)
theory Cookie
  imports Messages
begin

text \<open>
  The denial-of-service mitigation, \<^verbatim>\<open>src/device/cookie.go\<close>: MAC1 and MAC2 of handshake messages and
  the encrypted cookie replies. Every operation takes the current time and the results of its
  \<open>rand.Read\<close> calls; a slice expression out of range (a message shorter than two MACs) is a
  panic, the value \<open>None\<close>.
\<close>

definition CookieRefreshTime :: duration where
  "CookieRefreshTime = second * 120"

definition str_bytes :: "string \<Rightarrow> bytes" where
  "str_bytes s = map of_char s"

definition WGLabelMAC1 :: bytes where "WGLabelMAC1 = str_bytes ''mac1----''"
definition WGLabelCookie :: bytes where "WGLabelCookie = str_bytes ''cookie--''"

record CookieChecker =
  cc_mac1_key :: bytes
  cc_mac2_secret :: bytes
  cc_mac2_secretSet :: gotime
  cc_mac2_encryptionKey :: bytes

record CookieGenerator =
  cg_mac1_key :: bytes
  cg_mac2_cookie :: bytes
  cg_mac2_cookieSet :: gotime
  cg_mac2_hasLastMAC1 :: bool
  cg_mac2_lastMAC1 :: bytes
  cg_mac2_encryptionKey :: bytes

definition zero_CookieChecker :: CookieChecker where
  "zero_CookieChecker = \<lparr>cc_mac1_key = zero_key, cc_mac2_secret = zero_key, cc_mac2_secretSet = 0,
     cc_mac2_encryptionKey = zero_key\<rparr>"

definition zero_CookieGenerator :: CookieGenerator where
  "zero_CookieGenerator = \<lparr>cg_mac1_key = zero_key, cg_mac2_cookie = replicate 16 0, cg_mac2_cookieSet = 0,
     cg_mac2_hasLastMAC1 = False, cg_mac2_lastMAC1 = replicate 16 0, cg_mac2_encryptionKey = zero_key\<rparr>"

section \<open>Checker\<close>

definition CookieChecker_Init :: "crypto \<Rightarrow> NoisePublicKey \<Rightarrow> CookieChecker \<Rightarrow> CookieChecker" where
  "CookieChecker_Init c pk st =
     st\<lparr>cc_mac1_key := blake2s256 c (WGLabelMAC1 @ pk),
        cc_mac2_encryptionKey := blake2s256 c (WGLabelCookie @ pk),
        cc_mac2_secretSet := 0\<rparr>"

definition CheckMAC1 :: "crypto \<Rightarrow> CookieChecker \<Rightarrow> bytes \<Rightarrow> bool option" where
  "CheckMAC1 c st msg =
     (if length msg < 32 then None
      else
        let smac2 = length msg - 16;
            smac1 = smac2 - 16;
            mac1 = blake2s128 c (cc_mac1_key st) (take smac1 msg)
        in Some (mac1 = go_slice smac1 smac2 msg))"

definition CheckMAC2 :: "crypto \<Rightarrow> gotime \<Rightarrow> CookieChecker \<Rightarrow> bytes \<Rightarrow> bytes \<Rightarrow> bool option" where
  "CheckMAC2 c now st msg src =
     (if Sub now (cc_mac2_secretSet st) > CookieRefreshTime then Some False
      else if length msg < 16 then None
      else
        let cookie = blake2s128 c (cc_mac2_secret st) src;
            smac2 = length msg - 16;
            mac2 = blake2s128 c cookie (take smac2 msg)
        in Some (mac2 = drop smac2 msg))"

text \<open>\<open>CreateReply\<close>; \<open>Inl ()\<close> is the error of \<open>rand.Read\<close>. A failed read of the secret has already
  overwritten it, without renewing \<open>secretSet\<close>.\<close>

definition CreateReply ::
  "crypto \<Rightarrow> gotime \<Rightarrow> rand_read \<Rightarrow> rand_read \<Rightarrow> CookieChecker \<Rightarrow> bytes \<Rightarrow> u32 \<Rightarrow> bytes
     \<Rightarrow> ((unit + MessageCookieReply) \<times> CookieChecker) option" where
  "CreateReply c now secret nonce st msg recv src =
     (let refresh = Sub now (cc_mac2_secretSet st) > CookieRefreshTime;
          st' = (if refresh then st\<lparr>cc_mac2_secret := fst secret\<rparr> else st)
      in if refresh \<and> \<not> snd secret then Some (Inl (), st')
         else
           let st' = (if refresh then st'\<lparr>cc_mac2_secretSet := now\<rparr> else st');
               cookie = blake2s128 c (cc_mac2_secret st') src
           in if \<not> snd nonce then Some (Inl (), st')
              else if length msg < 32 then None
              else
                let smac2 = length msg - 16;
                    smac1 = smac2 - 16;
                    reply = \<lparr>mc_Type = MessageCookieReplyType, mc_Receiver = recv, mc_Nonce = fst nonce,
                      mc_Cookie = xaead_Seal c (cc_mac2_encryptionKey st') (fst nonce) cookie
                        (go_slice smac1 smac2 msg)\<rparr>
                in Some (Inr reply, st'))"

section \<open>Generator\<close>

definition CookieGenerator_Init :: "crypto \<Rightarrow> NoisePublicKey \<Rightarrow> CookieGenerator \<Rightarrow> CookieGenerator" where
  "CookieGenerator_Init c pk st =
     st\<lparr>cg_mac1_key := blake2s256 c (WGLabelMAC1 @ pk),
        cg_mac2_encryptionKey := blake2s256 c (WGLabelCookie @ pk),
        cg_mac2_cookieSet := 0\<rparr>"

definition ConsumeReply ::
  "crypto \<Rightarrow> gotime \<Rightarrow> CookieGenerator \<Rightarrow> MessageCookieReply \<Rightarrow> bool \<times> CookieGenerator" where
  "ConsumeReply c now st msg =
     (if \<not> cg_mac2_hasLastMAC1 st then (False, st)
      else
        case xaead_Open c (cg_mac2_encryptionKey st) (mc_Nonce msg) (mc_Cookie msg) (cg_mac2_lastMAC1 st) of
          None \<Rightarrow> (False, st)
        | Some cookie \<Rightarrow> (True, st\<lparr>cg_mac2_cookieSet := now, cg_mac2_cookie := cookie\<rparr>))"

definition AddMacs :: "crypto \<Rightarrow> gotime \<Rightarrow> CookieGenerator \<Rightarrow> bytes \<Rightarrow> (bytes \<times> CookieGenerator) option" where
  "AddMacs c now st msg =
     (if length msg < 32 then None
      else
        let smac2 = length msg - 16;
            smac1 = smac2 - 16;
            mac1 = blake2s128 c (cg_mac1_key st) (take smac1 msg);
            msg = put_at smac1 mac1 msg;
            st = st\<lparr>cg_mac2_lastMAC1 := mac1, cg_mac2_hasLastMAC1 := True\<rparr>
        in if Sub now (cg_mac2_cookieSet st) > CookieRefreshTime then Some (msg, st)
           else
             let mac2 = blake2s128 c (cg_mac2_cookie st) (take smac2 msg);
                 msg = put_at smac2 mac2 msg
             in Some (msg, st))"

section \<open>Lemmas\<close>

lemma cookie_fresh_iff: "Sub now t > CookieRefreshTime \<longleftrightarrow> now - t > CookieRefreshTime"
  by (rule Sub_gt_iff) (simp_all add: CookieRefreshTime_def second_def maxDuration_def)

text \<open>The layout of a message with MACs: body, MAC1, MAC2.\<close>

lemma AddMacs_layout:
  assumes c: "crypto_ok c" and len: "length msg \<ge> 32" and body: "body = take (length msg - 32) msg"
    and m1: "mac1 = blake2s128 c (cg_mac1_key st) body"
    and m2: "mac2 = (if now - cg_mac2_cookieSet st > CookieRefreshTime then drop (length msg - 16) msg
                     else blake2s128 c (cg_mac2_cookie st) (body @ mac1))"
  shows "AddMacs c now st msg = Some (body @ mac1 @ mac2, st\<lparr>cg_mac2_lastMAC1 := mac1, cg_mac2_hasLastMAC1 := True\<rparr>)"
    and "length body = length msg - 32" and "length mac1 = 16" and "length mac2 = 16"
proof -
  show l: "length body = length msg - 32" "length mac1 = 16" "length mac2 = 16"
    using c len body m1 m2 by (auto simp: crypto_okD)
  have e: "length msg - 16 - 16 = length msg - 32" by simp
  have p1: "put_at (length msg - 32) mac1 msg = body @ mac1 @ drop (length msg - 16) msg"
    using l len body by (simp add: put_at_def)
  have t: "take (length msg - 16) (body @ mac1 @ drop (length msg - 16) msg) = body @ mac1"
    using l len by simp
  have p2: "put_at (length msg - 16) x (body @ mac1 @ drop (length msg - 16) msg) = body @ mac1 @ x"
    if "length x = 16" for x
    using l len that by (simp add: put_at_def)
  show "AddMacs c now st msg = Some (body @ mac1 @ mac2, st\<lparr>cg_mac2_lastMAC1 := mac1, cg_mac2_hasLastMAC1 := True\<rparr>)"
    using len l unfolding AddMacs_def Let_def cookie_fresh_iff e
    by (auto simp: body [symmetric] m1 [symmetric] p1 t p2 m2 crypto_okD [OF c])
qed

lemma CheckMAC1_layout:
  assumes "length mac1 = 16" "length mac2 = 16"
  shows "CheckMAC1 c st (body @ mac1 @ mac2) = Some (mac1 = blake2s128 c (cc_mac1_key st) body)"
  using assms by (auto simp: CheckMAC1_def Let_def go_slice_def)

lemma CheckMAC2_layout:
  assumes "length mac1 = 16" "length mac2 = 16"
  shows "CheckMAC2 c now st (body @ mac1 @ mac2) src =
    Some (now - cc_mac2_secretSet st \<le> CookieRefreshTime
      \<and> mac2 = blake2s128 c (blake2s128 c (cc_mac2_secret st) src) (body @ mac1))"
  unfolding CheckMAC2_def cookie_fresh_iff using assms by (auto simp: Let_def)

lemma CreateReply_layout:
  assumes "length mac1 = 16" "length mac2 = 16" "snd secret" "snd nonce"
    and r: "refresh = (now - cc_mac2_secretSet st > CookieRefreshTime)"
    and st': "st' = (if refresh then st\<lparr>cc_mac2_secret := fst secret, cc_mac2_secretSet := now\<rparr> else st)"
  shows "CreateReply c now secret nonce st (body @ mac1 @ mac2) recv src =
    Some (Inr \<lparr>mc_Type = MessageCookieReplyType, mc_Receiver = recv, mc_Nonce = fst nonce,
      mc_Cookie = xaead_Seal c (cc_mac2_encryptionKey st') (fst nonce)
        (blake2s128 c (cc_mac2_secret st') src) mac1\<rparr>, st')"
proof -
  have "go_slice (length body) (16 + length body) (body @ mac1 @ mac2) = mac1"
    using assms(1) by (simp add: go_slice_def)
  then show ?thesis
    unfolding CreateReply_def cookie_fresh_iff using assms by (auto simp: Let_def)
qed

section \<open>Properties\<close>

text \<open>C13. Cookie exchange end to end. A handshake message stamped by the generator for a public key
  carries a MAC1 that the checker of that key accepts; the checker's cookie reply to it opens at
  the generator, and the next message the generator stamps within the cookie's lifetime carries a
  MAC2 that the checker accepts for the same source address, exactly while its secret is at most
  \<open>CookieRefreshTime\<close> old.\<close>

theorem cookie_exchange:
  assumes c: "crypto_ok c"
    and st: "st = CookieChecker_Init c pk st0" and g: "g = CookieGenerator_Init c pk g0"
    and len: "length msg1 \<ge> 32" "length msg2 \<ge> 32" and rnd: "snd secret" "snd nonce"
    and t2: "t2 > CookieRefreshTime" and t4: "t4 - t3 \<le> CookieRefreshTime"
  shows "\<exists>m1 g1 reply st' g2 m2 g3.
    AddMacs c t1 g msg1 = Some (m1, g1) \<and> CheckMAC1 c st m1 = Some True \<and>
    CreateReply c t2 secret nonce st m1 recv src = Some (Inr reply, st') \<and>
    ConsumeReply c t3 g1 reply = (True, g2) \<and>
    AddMacs c t4 g2 msg2 = Some (m2, g3) \<and> CheckMAC1 c st' m2 = Some True \<and>
    CheckMAC2 c t5 st' m2 src = Some (t5 - t2 \<le> CookieRefreshTime)"
proof -
  have keys: "cg_mac1_key g = cc_mac1_key st" "cg_mac2_encryptionKey g = cc_mac2_encryptionKey st"
    "cc_mac2_secretSet st = 0"
    by (simp_all add: st g CookieChecker_Init_def CookieGenerator_Init_def)
  define b1 where "b1 = take (length msg1 - 32) msg1"
  define x1 where "x1 = blake2s128 c (cg_mac1_key g) b1"
  define g1 where "g1 = g\<lparr>cg_mac2_lastMAC1 := x1, cg_mac2_hasLastMAC1 := True\<rparr>"
  define y1 where "y1 = (if t1 - cg_mac2_cookieSet g > CookieRefreshTime then drop (length msg1 - 16) msg1
      else blake2s128 c (cg_mac2_cookie g) (b1 @ x1))"
  note a1 = AddMacs_layout [OF c len(1) b1_def x1_def y1_def, folded g1_def]
  define st' where "st' = st\<lparr>cc_mac2_secret := fst secret, cc_mac2_secretSet := t2\<rparr>"
  define cookie where "cookie = blake2s128 c (fst secret) src"
  define reply where "reply = \<lparr>mc_Type = MessageCookieReplyType, mc_Receiver = recv, mc_Nonce = fst nonce,
      mc_Cookie = xaead_Seal c (cc_mac2_encryptionKey st) (fst nonce) cookie x1\<rparr>"
  have r: "CreateReply c t2 secret nonce st (b1 @ x1 @ y1) recv src = Some (Inr reply, st')"
    using CreateReply_layout [OF a1(3,4) rnd refl refl, of c t2 st b1 recv src] t2 keys
    by (simp add: st'_def reply_def cookie_def)
  define g2 where "g2 = g1\<lparr>cg_mac2_cookieSet := t3, cg_mac2_cookie := cookie\<rparr>"
  have o: "ConsumeReply c t3 g1 reply = (True, g2)"
    using keys by (simp add: ConsumeReply_def g1_def g2_def reply_def crypto_okD [OF c])
  define b2 where "b2 = take (length msg2 - 32) msg2"
  define x2 where "x2 = blake2s128 c (cg_mac1_key g2) b2"
  define y2 where "y2 = blake2s128 c cookie (b2 @ x2)"
  have y2: "y2 = (if t4 - cg_mac2_cookieSet g2 > CookieRefreshTime then drop (length msg2 - 16) msg2
      else blake2s128 c (cg_mac2_cookie g2) (b2 @ x2))"
    using t4 by (simp add: g2_def y2_def)
  note a2 = AddMacs_layout [OF c len(2) b2_def x2_def y2]
  have k: "cg_mac1_key g2 = cc_mac1_key st'" using keys by (simp add: g2_def g1_def st'_def)
  have "CheckMAC1 c st (b1 @ x1 @ y1) = Some True"
    using keys a1 by (simp add: CheckMAC1_layout x1_def)
  moreover have "CheckMAC1 c st' (b2 @ x2 @ y2) = Some True"
    using k a2 by (simp add: CheckMAC1_layout x2_def)
  moreover have "CheckMAC2 c t5 st' (b2 @ x2 @ y2) src = Some (t5 - t2 \<le> CookieRefreshTime)"
    using a2 by (simp add: CheckMAC2_layout y2_def cookie_def st'_def)
  ultimately show ?thesis using a1(1) r o a2(1) by blast
qed

theorem cookie_exchange_witness:
  "\<exists>m1 g1 reply st' g2 m2 g3.
    AddMacs toy_crypto (1000 * second) (CookieGenerator_Init toy_crypto zero_key zero_CookieGenerator)
      (replicate 148 1) = Some (m1, g1) \<and>
    CheckMAC1 toy_crypto (CookieChecker_Init toy_crypto zero_key zero_CookieChecker) m1 = Some True \<and>
    CreateReply toy_crypto (1001 * second) (replicate 32 5, True) (replicate 24 6, True)
      (CookieChecker_Init toy_crypto zero_key zero_CookieChecker) m1 77 [10, 0, 0, 1] = Some (Inr reply, st') \<and>
    ConsumeReply toy_crypto (1002 * second) g1 reply = (True, g2) \<and>
    AddMacs toy_crypto (1003 * second) g2 (replicate 148 2) = Some (m2, g3) \<and>
    CheckMAC1 toy_crypto st' m2 = Some True \<and>
    CheckMAC2 toy_crypto (1004 * second) st' m2 [10, 0, 0, 1]
      = Some (1004 * second - 1001 * second \<le> CookieRefreshTime)"
  by (rule cookie_exchange [OF toy_crypto_ok refl refl]) (simp_all add: second_def CookieRefreshTime_def)

end
