(* ===== verification/DeviceState.thy ===== *)
theory DeviceState
  imports Cookie Replay Ratelimiter AllowedIPs
begin

text \<open>
  The state of a device: the records of \<^verbatim>\<open>src/device/device.go\<close>, \<^verbatim>\<open>peer.go\<close>, \<^verbatim>\<open>keypair.go\<close>,
  \<^verbatim>\<open>timers.go\<close>, \<^verbatim>\<open>send.go\<close>, \<^verbatim>\<open>receive.go\<close> and of the handshake in \<^verbatim>\<open>noise-protocol.go\<close>, the
  specification constants, and the index table of \<^verbatim>\<open>src/device/indextable.go\<close>.

  Pointers are natural numbers into stores of the device record: \<open>peers\<close> holds every \<open>Peer\<close>
  object, \<open>keypair_heap\<close> every \<open>Keypair\<close>, \<open>outb_heap\<close> and \<open>inb_heap\<close> the containers that two
  queues share. A \<open>*Handshake\<close> is always \<open>&peer.handshake\<close>, so it is the peer's number. A Go map
  over which the code iterates is an association list; its order is the iteration order.
  Mutexes do not appear: a handler is one step. What the environment decides in a step (the time,
  random bytes, whether a system call succeeds) is in the record \<open>env\<close>.
\<close>

section \<open>Constants\<close>

definition RekeyAfterMessages :: u64 where "RekeyAfterMessages = 2 ^ 60"
definition RejectAfterMessages :: u64 where "RejectAfterMessages = - (2 ^ 13) - 1"
definition RekeyAfterTime :: duration where "RekeyAfterTime = second * 120"
definition RekeyAttemptTime :: duration where "RekeyAttemptTime = second * 90"
definition RekeyTimeout :: duration where "RekeyTimeout = second * 5"
definition MaxTimerHandshakes :: u32 where "MaxTimerHandshakes = 90 div 5"
definition RekeyTimeoutJitterMaxMs :: int where "RekeyTimeoutJitterMaxMs = 334"
definition RejectAfterTime :: duration where "RejectAfterTime = second * 180"
definition KeepaliveTimeout :: duration where "KeepaliveTimeout = second * 10"
definition HandshakeInitationRate :: duration where "HandshakeInitationRate = second div 50"
definition PaddingMultiple :: int where "PaddingMultiple = 16"

definition MaxSegmentSize :: nat where "MaxSegmentSize = 2 ^ 16 - 1"
definition MinMessageSize :: nat where "MinMessageSize = MessageKeepaliveSize"
definition MaxMessageSize :: nat where "MaxMessageSize = MaxSegmentSize"
definition MaxContentSize :: nat where "MaxContentSize = MaxSegmentSize - MessageTransportSize"
definition UnderLoadAfterTime :: duration where "UnderLoadAfterTime = second"
definition MaxPeers :: nat where "MaxPeers = 2 ^ 16"
definition QueueStagedSize :: nat where "QueueStagedSize = 128"
definition QueueOutboundSize :: nat where "QueueOutboundSize = 1024"
definition QueueInboundSize :: nat where "QueueInboundSize = 1024"
definition QueueHandshakeSize :: nat where "QueueHandshakeSize = 1024"
definition DefaultMTU :: int where "DefaultMTU = 1420"

lemmas protocol_times = RekeyAfterTime_def RekeyAttemptTime_def RekeyTimeout_def RejectAfterTime_def
  KeepaliveTimeout_def HandshakeInitationRate_def UnderLoadAfterTime_def

section \<open>Handshakes, key pairs, index table\<close>

type_synonym pid = nat
type_synonym kid = nat
type_synonym cid = nat

datatype handshakeState =
    handshakeZeroed | handshakeInitiationCreated | handshakeInitiationConsumed
  | handshakeResponseCreated | handshakeResponseConsumed

record Handshake =
  hs_state :: handshakeState
  hs_hash :: bytes
  hs_chainKey :: bytes
  hs_presharedKey :: NoisePresharedKey
  hs_localEphemeral :: NoisePrivateKey
  hs_localIndex :: u32
  hs_remoteIndex :: u32
  hs_remoteStatic :: NoisePublicKey
  hs_remoteEphemeral :: NoisePublicKey
  hs_precomputedStaticStatic :: bytes
  hs_lastTimestamp :: Timestamp
  hs_lastInitiationConsumption :: gotime
  hs_lastSentHandshake :: gotime

definition zero_Handshake :: Handshake where
  "zero_Handshake = \<lparr>hs_state = handshakeZeroed, hs_hash = zero_key, hs_chainKey = zero_key,
     hs_presharedKey = zero_key, hs_localEphemeral = zero_key, hs_localIndex = 0, hs_remoteIndex = 0,
     hs_remoteStatic = zero_key, hs_remoteEphemeral = zero_key, hs_precomputedStaticStatic = zero_key,
     hs_lastTimestamp = zero_timestamp, hs_lastInitiationConsumption = 0, hs_lastSentHandshake = 0\<rparr>"

text \<open>The AEAD instances of a key pair are their keys.\<close>

record Keypair =
  kp_sendNonce :: u64
  kp_send :: bytes
  kp_receive :: bytes
  kp_replayFilter :: Filter
  kp_isInitiator :: bool
  kp_created :: gotime
  kp_localIndex :: u32
  kp_remoteIndex :: u32

record Keypairs =
  ks_current :: "kid option"
  ks_previous :: "kid option"
  ks_next :: "kid option"

record IndexTableEntry =
  ie_peer :: pid
  ie_handshake :: "pid option"
  ie_keypair :: "kid option"

type_synonym IndexTable = "u32 \<Rightarrow> IndexTableEntry option"

definition IndexTable_Init :: IndexTable where
  "IndexTable_Init = (\<lambda>_. None)"

definition IndexTable_Delete :: "u32 \<Rightarrow> IndexTable \<Rightarrow> IndexTable" where
  "IndexTable_Delete index tbl = tbl(index := None)"

definition SwapIndexForKeypair :: "u32 \<Rightarrow> kid \<Rightarrow> IndexTable \<Rightarrow> IndexTable" where
  "SwapIndexForKeypair index keypair tbl =
     (case tbl index of
        None \<Rightarrow> tbl
      | Some entry \<Rightarrow>
          tbl(index \<mapsto> \<lparr>ie_peer = ie_peer entry, ie_handshake = None, ie_keypair = Some keypair\<rparr>))"

text \<open>\<open>NewIndexForHandshake\<close>, given the results of \<open>randUint32\<close> it will see: the integer and whether
  the read succeeded. \<open>None\<close>: every integer drawn was taken, the loop goes on.\<close>

fun NewIndexForHandshake ::
  "(u32 \<times> bool) list \<Rightarrow> pid \<Rightarrow> IndexTable \<Rightarrow> ((u32 \<times> bool) \<times> IndexTable) option" where
  "NewIndexForHandshake [] peer tbl = None"
| "NewIndexForHandshake ((index, ok) # draws) peer tbl =
     (if \<not> ok then Some ((index, False), tbl)
      else if tbl index \<noteq> None then NewIndexForHandshake draws peer tbl
      else Some ((index, True),
        tbl(index \<mapsto> \<lparr>ie_peer = peer, ie_handshake = Some peer, ie_keypair = None\<rparr>)))"

text \<open>\<open>Lookup\<close>: a missing index gives the zero entry, without peer, handshake or key pair.\<close>

definition IndexTable_Lookup :: "u32 \<Rightarrow> IndexTable \<Rightarrow> pid option \<times> pid option \<times> kid option" where
  "IndexTable_Lookup index tbl =
     (case tbl index of
        None \<Rightarrow> (None, None, None)
      | Some e \<Rightarrow> (Some (ie_peer e), ie_handshake e, ie_keypair e))"

section \<open>Endpoints, timers, queues\<close>

record Endpoint =
  ep_addr :: Addr
  ep_port :: u16
  ep_src :: bytes

definition ClearSrc :: "Endpoint \<Rightarrow> Endpoint" where
  "ClearSrc e = e\<lparr>ep_src := []\<rparr>"

text \<open>\<open>DstToBytes\<close> is \<open>netip.AddrPort.MarshalBinary\<close>: the address, then the port in little-endian.\<close>

definition DstToBytes :: "Endpoint \<Rightarrow> bytes" where
  "DstToBytes e = addr_bytes (ep_addr e) @ le_bytes 2 (ep_port e)"

definition DstIP :: "Endpoint \<Rightarrow> Addr" where
  "DstIP e = ep_addr e"

record Timer =
  tm_isPending :: bool
  tm_when :: "gotime option"

record Timers =
  retransmitHandshake :: Timer
  sendKeepalive :: Timer
  newHandshake :: Timer
  zeroKeyMaterial :: Timer
  persistentKeepalive :: Timer
  handshakeAttempts :: u32
  needAnotherKeepalive :: bool
  sentLastMinuteHandshake :: bool

record QueueOutboundElement =
  oe_packet :: bytes
  oe_nonce :: u64
  oe_keypair :: "kid option"
  oe_peer :: "pid option"

record QueueOutboundElementsContainer =
  oc_elems :: "QueueOutboundElement list"
  oc_locked :: bool

record QueueHandshakeElement =
  qh_msgType :: u32
  qh_packet :: bytes
  qh_endpoint :: Endpoint

text \<open>The packet of an inbound element is \<open>None\<close> for nil, after a failed decryption.\<close>

record QueueInboundElement =
  in_packet :: "bytes option"
  in_counter :: u64
  in_keypair :: kid
  in_endpoint :: Endpoint

record QueueInboundElementsContainer =
  ic_elems :: "QueueInboundElement list"
  ic_locked :: bool

section \<open>Peers and the device\<close>

record Peer =
  isRunning :: bool
  keypairs :: Keypairs
  handshake :: Handshake
  txBytes :: u64
  rxBytes :: u64
  lastHandshakeNano :: int
  endpoint_val :: "Endpoint option"
  endpoint_clearSrcOnTx :: bool
  endpoint_disableRoaming :: bool
  timers :: Timers
  q_staged :: "QueueOutboundElement list list"
  q_outbound :: "cid option list"
  q_inbound :: "cid option list"
  cookieGenerator :: CookieGenerator
  persistentKeepaliveInterval :: u32

definition zero_Timer :: Timer where
  "zero_Timer = \<lparr>tm_isPending = False, tm_when = None\<rparr>"

definition zero_Timers :: Timers where
  "zero_Timers = \<lparr>retransmitHandshake = zero_Timer, sendKeepalive = zero_Timer, newHandshake = zero_Timer,
     zeroKeyMaterial = zero_Timer, persistentKeepalive = zero_Timer, handshakeAttempts = 0,
     needAnotherKeepalive = False, sentLastMinuteHandshake = False\<rparr>"

definition zero_Keypairs :: Keypairs where
  "zero_Keypairs = \<lparr>ks_current = None, ks_previous = None, ks_next = None\<rparr>"

definition zero_Peer :: Peer where
  "zero_Peer = \<lparr>isRunning = False, keypairs = zero_Keypairs, handshake = zero_Handshake, txBytes = 0,
     rxBytes = 0, lastHandshakeNano = 0, endpoint_val = None, endpoint_clearSrcOnTx = False,
     endpoint_disableRoaming = False, timers = zero_Timers, q_staged = [], q_outbound = [], q_inbound = [],
     cookieGenerator = zero_CookieGenerator, persistentKeepaliveInterval = 0\<rparr>"

datatype deviceState = deviceStateDown | deviceStateUp | deviceStateClosed

text \<open>\<open>bind_open\<close> says whether the bind's sockets are open; \<open>udp_out\<close> lists the datagrams handed to
  \<open>bind.Send\<close> and \<open>tun_out\<close> the packets written to the TUN device. \<open>seal_log\<close> and \<open>accept_log\<close> record, for the
  theorems only, the pairs of key pair and counter that were passed to \<open>Seal\<close> by the encryption
  workers and that the replay filters accepted; no definition reads them.\<close>

record Device =
  dev_state :: deviceState
  bind_open :: bool
  net_port :: u16
  net_fwmark :: u32
  net_brokenRoaming :: bool
  sid_privateKey :: NoisePrivateKey
  sid_publicKey :: NoisePublicKey
  peers :: "pid \<Rightarrow> Peer"
  next_pid :: pid
  keyMap :: "(NoisePublicKey \<times> pid) list"
  keypair_heap :: "kid \<Rightarrow> Keypair"
  next_kid :: kid
  underLoadUntil :: int
  limiter :: "Addr Ratelimiter"
  allowedips :: "pid AllowedIPs"
  indexTable :: IndexTable
  cookieChecker :: CookieChecker
  q_handshake :: "QueueHandshakeElement list"
  q_encryption :: "cid list"
  q_decryption :: "cid list"
  outb_heap :: "cid \<Rightarrow> QueueOutboundElementsContainer"
  inb_heap :: "cid \<Rightarrow> QueueInboundElementsContainer"
  next_cid :: cid
  tun_mtu :: int
  tun_out :: "bytes list"
  udp_out :: "(Endpoint \<times> bytes) list"
  dev_closed :: bool
  seal_log :: "(kid \<times> u64) list"
  accept_log :: "(kid \<times> u64) list"

definition zero_Device :: Device where
  "zero_Device = \<lparr>dev_state = deviceStateDown, bind_open = False, net_port = 0, net_fwmark = 0,
     net_brokenRoaming = False, sid_privateKey = zero_key, sid_publicKey = zero_key,
     peers = (\<lambda>_. zero_Peer), next_pid = 0, keyMap = [],
     keypair_heap = (\<lambda>_. \<lparr>kp_sendNonce = 0, kp_send = [], kp_receive = [], kp_replayFilter = zero_filter,
       kp_isInitiator = False, kp_created = 0, kp_localIndex = 0, kp_remoteIndex = 0\<rparr>),
     next_kid = 0, underLoadUntil = 0, limiter = new_ratelimiter, allowedips = new_AllowedIPs,
     indexTable = IndexTable_Init, cookieChecker = zero_CookieChecker, q_handshake = [], q_encryption = [],
     q_decryption = [], outb_heap = (\<lambda>_. \<lparr>oc_elems = [], oc_locked = False\<rparr>),
     inb_heap = (\<lambda>_. \<lparr>ic_elems = [], ic_locked = False\<rparr>), next_cid = 0, tun_mtu = 0, tun_out = [],
     udp_out = [], dev_closed = False, seal_log = [], accept_log = []\<rparr>"

text \<open>What \<open>bind.Send\<close> does: it sends, it fails, or it turns UDP segmentation offload off and sends
  again, which succeeds or not (\<open>conn.ErrUDPGSODisabled\<close> with its \<open>RetryErr\<close>).\<close>

datatype send_outcome = SendOk | SendFails | SendGSODisabled bool

record env =
  env_now :: gotime
  env_ephemeral :: rand_read
  env_indices :: "(u32 \<times> bool) list"
  env_secret :: rand_read
  env_nonce :: rand_read
  env_jitter :: int
  env_send :: send_outcome

definition upd_peer :: "pid \<Rightarrow> (Peer \<Rightarrow> Peer) \<Rightarrow> Device \<Rightarrow> Device" where
  "upd_peer p f dev = dev\<lparr>peers := (peers dev)(p := f (peers dev p))\<rparr>"

definition set_handshake :: "pid \<Rightarrow> Handshake \<Rightarrow> Device \<Rightarrow> Device" where
  "set_handshake p hs dev = upd_peer p (\<lambda>q. q\<lparr>handshake := hs\<rparr>) dev"

definition set_keypairs :: "pid \<Rightarrow> Keypairs \<Rightarrow> Device \<Rightarrow> Device" where
  "set_keypairs p ks dev = upd_peer p (\<lambda>q. q\<lparr>keypairs := ks\<rparr>) dev"

definition upd_timers :: "pid \<Rightarrow> (Timers \<Rightarrow> Timers) \<Rightarrow> Device \<Rightarrow> Device" where
  "upd_timers p f dev = upd_peer p (\<lambda>q. q\<lparr>timers := f (timers q)\<rparr>) dev"

definition set_indexTable :: "IndexTable \<Rightarrow> Device \<Rightarrow> Device" where
  "set_indexTable tbl dev = dev\<lparr>indexTable := tbl\<rparr>"

definition upd_keypair :: "kid \<Rightarrow> (Keypair \<Rightarrow> Keypair) \<Rightarrow> Device \<Rightarrow> Device" where
  "upd_keypair k f dev = dev\<lparr>keypair_heap := (keypair_heap dev)(k := f (keypair_heap dev k))\<rparr>"

lemmas dev_upd_defs = upd_peer_def set_handshake_def set_keypairs_def upd_timers_def set_indexTable_def
  upd_keypair_def

text \<open>\<open>DeleteKeypair\<close>.\<close>

definition DeleteKeypair :: "kid option \<Rightarrow> Device \<Rightarrow> Device" where
  "DeleteKeypair key dev =
     (case key of
        None \<Rightarrow> dev
      | Some k \<Rightarrow> set_indexTable (IndexTable_Delete (kp_localIndex (keypair_heap dev k)) (indexTable dev)) dev)"

definition deviceState_isUp :: "Device \<Rightarrow> bool" where
  "deviceState_isUp dev \<longleftrightarrow> dev_state dev = deviceStateUp"

definition deviceState_isClosed :: "Device \<Rightarrow> bool" where
  "deviceState_isClosed dev \<longleftrightarrow> dev_state dev = deviceStateClosed"

definition LookupPeer :: "NoisePublicKey \<Rightarrow> Device \<Rightarrow> pid option" where
  "LookupPeer pk dev = map_of (keyMap dev) pk"

section \<open>Lemmas on the index table\<close>

text \<open>The index returned is fresh; nothing else changes; the loop ends as soon as a draw is free.\<close>

lemma NewIndexForHandshake_ok:
  "NewIndexForHandshake ds p tbl = Some ((i, True), tbl') \<Longrightarrow>
   tbl i = None \<and> tbl' = tbl(i \<mapsto> \<lparr>ie_peer = p, ie_handshake = Some p, ie_keypair = None\<rparr>) \<and> (i, True) \<in> set ds"
  by (induction ds p tbl rule: NewIndexForHandshake.induct) (auto split: if_splits)

lemma NewIndexForHandshake_err:
  "NewIndexForHandshake ds p tbl = Some ((i, False), tbl') \<Longrightarrow> tbl' = tbl \<and> (i, False) \<in> set ds"
  by (induction ds p tbl rule: NewIndexForHandshake.induct) (auto split: if_splits)

lemma NewIndexForHandshake_returns:
  "(\<exists>r. NewIndexForHandshake ds p tbl = Some r) \<longleftrightarrow> (\<exists>(i, ok)\<in>set ds. \<not> ok \<or> tbl i = None)"
  by (induction ds p tbl rule: NewIndexForHandshake.induct) auto

lemma RejectAfterMessages_val: "unat RejectAfterMessages = 2 ^ 64 - 2 ^ 13 - 1"
  by (simp add: RejectAfterMessages_def)

end
