(* ===== verification/Noise.thy ===== *)
theory Noise
  imports DeviceState
begin

text \<open>
  The handshake, \<^verbatim>\<open>src/device/noise-protocol.go\<close>: \<open>CreateMessageInitiation\<close>,
  \<open>ConsumeMessageInitiation\<close>, \<open>CreateMessageResponse\<close>, \<open>ConsumeMessageResponse\<close>,
  \<open>BeginSymmetricSession\<close> and \<open>ReceivedWithKeypair\<close> on the device state. A handler returns its
  result and the new state, with every assignment made before an early return; \<open>None\<close> stands for a
  call of \<open>NewIndexForHandshake\<close> that has not returned.
\<close>

section \<open>Transcript hash and chaining key\<close>

definition NoiseConstruction :: bytes where
  "NoiseConstruction = str_bytes ''Noise_IKpsk2_25519_ChaChaPoly_BLAKE2s''"
definition WGIdentifier :: bytes where
  "WGIdentifier = str_bytes ''WireGuard v1 zx2c4 Jason@zx2c4.com''"
definition ZeroNonce :: bytes where
  "ZeroNonce = replicate 12 0"

definition mixKey :: "crypto \<Rightarrow> bytes \<Rightarrow> bytes \<Rightarrow> bytes" where
  "mixKey c ck data = KDF1 c ck data"

definition mixHash :: "crypto \<Rightarrow> bytes \<Rightarrow> bytes \<Rightarrow> bytes" where
  "mixHash c h data = blake2s256 c (h @ data)"

definition InitialChainKey :: "crypto \<Rightarrow> bytes" where
  "InitialChainKey c = blake2s256 c NoiseConstruction"

definition InitialHash :: "crypto \<Rightarrow> bytes" where
  "InitialHash c = mixHash c (InitialChainKey c) WGIdentifier"

definition hs_mixHash :: "crypto \<Rightarrow> bytes \<Rightarrow> Handshake \<Rightarrow> Handshake" where
  "hs_mixHash c data h = h\<lparr>hs_hash := mixHash c (hs_hash h) data\<rparr>"

definition hs_mixKey :: "crypto \<Rightarrow> bytes \<Rightarrow> Handshake \<Rightarrow> Handshake" where
  "hs_mixKey c data h = h\<lparr>hs_chainKey := mixKey c (hs_chainKey h) data\<rparr>"

definition Handshake_Clear :: "Handshake \<Rightarrow> Handshake" where
  "Handshake_Clear h = h\<lparr>hs_localEphemeral := setZero (hs_localEphemeral h),
     hs_remoteEphemeral := setZero (hs_remoteEphemeral h), hs_chainKey := setZero (hs_chainKey h),
     hs_hash := setZero (hs_hash h), hs_localIndex := 0, hs_state := handshakeZeroed\<rparr>"

datatype noise_error =
  errRandom | errInvalidPublicKey | errNotConsumed | errInvalidState handshakeState

section \<open>Messages of the handshake\<close>

definition CreateMessageInitiation ::
  "crypto \<Rightarrow> env \<Rightarrow> pid \<Rightarrow> Device \<Rightarrow> ((noise_error + MessageInitiation) \<times> Device) option" where
  "CreateMessageInitiation c e peer dev =
     (let hs = handshake (peers dev peer);
          (eph, ok) = newPrivateKey (env_ephemeral e);
          hs = hs\<lparr>hs_hash := InitialHash c, hs_chainKey := InitialChainKey c, hs_localEphemeral := eph\<rparr>
      in if \<not> ok then Some (Inl errRandom, set_handshake peer hs dev) else
      let hs = hs_mixHash c (hs_remoteStatic hs) hs;
          ephemeral = publicKey c (hs_localEphemeral hs);
          hs = hs_mixKey c ephemeral hs;
          hs = hs_mixHash c ephemeral hs;
          (ss, ok) = sharedSecret c (hs_localEphemeral hs) (hs_remoteStatic hs)
      in if \<not> ok then Some (Inl errInvalidPublicKey, set_handshake peer hs dev) else
      let (ck, key) = KDF2 c (hs_chainKey hs) ss;
          hs = hs\<lparr>hs_chainKey := ck\<rparr>;
          static = aead_Seal c key ZeroNonce (sid_publicKey dev) (hs_hash hs);
          hs = hs_mixHash c static hs
      in if isZero (hs_precomputedStaticStatic hs)
         then Some (Inl errInvalidPublicKey, set_handshake peer hs dev) else
      let (ck, key) = KDF2 c (hs_chainKey hs) (hs_precomputedStaticStatic hs);
          hs = hs\<lparr>hs_chainKey := ck\<rparr>;
          timestamp = aead_Seal c key ZeroNonce (ts_bytes (stamp (env_now e))) (hs_hash hs);
          tbl = IndexTable_Delete (hs_localIndex hs) (indexTable dev)
      in case NewIndexForHandshake (env_indices e) peer tbl of
           None \<Rightarrow> None
         | Some ((index, ok), tbl) \<Rightarrow>
             let dev = set_indexTable tbl dev
             in if \<not> ok then Some (Inl errRandom, set_handshake peer hs dev) else
             let hs = hs\<lparr>hs_localIndex := index\<rparr>;
                 hs = hs_mixHash c timestamp hs;
                 hs = hs\<lparr>hs_state := handshakeInitiationCreated\<rparr>
             in Some (Inr \<lparr>mi_Type = MessageInitiationType, mi_Sender = index, mi_Ephemeral = ephemeral,
                   mi_Static = static, mi_Timestamp = timestamp, mi_MAC1 = replicate 16 0,
                   mi_MAC2 = replicate 16 0\<rparr>, set_handshake peer hs dev))"

definition ConsumeMessageInitiation ::
  "crypto \<Rightarrow> env \<Rightarrow> MessageInitiation \<Rightarrow> Device \<Rightarrow> pid option \<times> Device" where
  "ConsumeMessageInitiation c e msg dev =
     (if mi_Type msg \<noteq> MessageInitiationType then (None, dev) else
      let hash = mixHash c (InitialHash c) (sid_publicKey dev);
          hash = mixHash c hash (mi_Ephemeral msg);
          chainKey = mixKey c (InitialChainKey c) (mi_Ephemeral msg);
          (ss, ok) = sharedSecret c (sid_privateKey dev) (mi_Ephemeral msg)
      in if \<not> ok then (None, dev) else
      let (chainKey, key) = KDF2 c chainKey ss
      in case aead_Open c key ZeroNonce (mi_Static msg) hash of
           None \<Rightarrow> (None, dev)
         | Some peerPK \<Rightarrow>
      let hash = mixHash c hash (mi_Static msg)
      in case LookupPeer peerPK dev of
           None \<Rightarrow> (None, dev)
         | Some peer \<Rightarrow>
      if \<not> isRunning (peers dev peer) then (None, dev) else
      let hs = handshake (peers dev peer)
      in if isZero (hs_precomputedStaticStatic hs) then (None, dev) else
      let (chainKey, key) = KDF2 c chainKey (hs_precomputedStaticStatic hs)
      in case aead_Open c key ZeroNonce (mi_Timestamp msg) hash of
           None \<Rightarrow> (None, dev)
         | Some ts \<Rightarrow>
      let timestamp = Timestamp ts;
          hash = mixHash c hash (mi_Timestamp msg);
          replay = \<not> After timestamp (hs_lastTimestamp hs);
          flood = Sub (env_now e) (hs_lastInitiationConsumption hs) \<le> HandshakeInitationRate
      in if replay then (None, dev)
         else if flood then (None, dev)
         else
           let hs = hs\<lparr>hs_hash := hash, hs_chainKey := chainKey, hs_remoteIndex := mi_Sender msg,
                 hs_remoteEphemeral := mi_Ephemeral msg\<rparr>;
               hs = (if After timestamp (hs_lastTimestamp hs) then hs\<lparr>hs_lastTimestamp := timestamp\<rparr> else hs);
               hs = (if env_now e > hs_lastInitiationConsumption hs
                     then hs\<lparr>hs_lastInitiationConsumption := env_now e\<rparr> else hs);
               hs = hs\<lparr>hs_state := handshakeInitiationConsumed\<rparr>
           in (Some peer, set_handshake peer hs dev))"

definition CreateMessageResponse ::
  "crypto \<Rightarrow> env \<Rightarrow> pid \<Rightarrow> Device \<Rightarrow> ((noise_error + MessageResponse) \<times> Device) option" where
  "CreateMessageResponse c e peer dev =
     (let hs = handshake (peers dev peer)
      in if hs_state hs \<noteq> handshakeInitiationConsumed then Some (Inl errNotConsumed, dev) else
      let tbl = IndexTable_Delete (hs_localIndex hs) (indexTable dev)
      in case NewIndexForHandshake (env_indices e) peer tbl of
           None \<Rightarrow> None
         | Some ((index, ok), tbl) \<Rightarrow>
      let dev = set_indexTable tbl dev;
          hs = hs\<lparr>hs_localIndex := index\<rparr>
      in if \<not> ok then Some (Inl errRandom, set_handshake peer hs dev) else
      let (eph, ok) = newPrivateKey (env_ephemeral e);
          hs = hs\<lparr>hs_localEphemeral := eph\<rparr>
      in if \<not> ok then Some (Inl errRandom, set_handshake peer hs dev) else
      let ephemeral = publicKey c (hs_localEphemeral hs);
          hs = hs_mixHash c ephemeral hs;
          hs = hs_mixKey c ephemeral hs;
          (ss, ok) = sharedSecret c (hs_localEphemeral hs) (hs_remoteEphemeral hs)
      in if \<not> ok then Some (Inl errInvalidPublicKey, set_handshake peer hs dev) else
      let hs = hs_mixKey c ss hs;
          (ss, ok) = sharedSecret c (hs_localEphemeral hs) (hs_remoteStatic hs)
      in if \<not> ok then Some (Inl errInvalidPublicKey, set_handshake peer hs dev) else
      let hs = hs_mixKey c ss hs;
          (ck, tau, key) = KDF3 c (hs_chainKey hs) (hs_presharedKey hs);
          hs = hs\<lparr>hs_chainKey := ck\<rparr>;
          hs = hs_mixHash c tau hs;
          empty_field = aead_Seal c key ZeroNonce [] (hs_hash hs);
          hs = hs_mixHash c empty_field hs;
          hs = hs\<lparr>hs_state := handshakeResponseCreated\<rparr>
      in Some (Inr \<lparr>mr_Type = MessageResponseType, mr_Sender = index, mr_Receiver = hs_remoteIndex hs,
            mr_Ephemeral = ephemeral, mr_Empty = empty_field, mr_MAC1 = replicate 16 0,
            mr_MAC2 = replicate 16 0\<rparr>, set_handshake peer hs dev))"

text \<open>The body of \<open>ConsumeMessageResponse\<close> up to the update: the new hash and chaining key.\<close>

definition response_keys :: "crypto \<Rightarrow> MessageResponse \<Rightarrow> Handshake \<Rightarrow> NoisePrivateKey \<Rightarrow> (bytes \<times> bytes) option" where
  "response_keys c msg hs sk =
     (if hs_state hs \<noteq> handshakeInitiationCreated then None else
      let hash = mixHash c (hs_hash hs) (mr_Ephemeral msg);
          chainKey = mixKey c (hs_chainKey hs) (mr_Ephemeral msg);
          (ss, ok) = sharedSecret c (hs_localEphemeral hs) (mr_Ephemeral msg)
      in if \<not> ok then None else
      let chainKey = mixKey c chainKey ss;
          (ss, ok) = sharedSecret c sk (mr_Ephemeral msg)
      in if \<not> ok then None else
      let chainKey = mixKey c chainKey ss;
          (chainKey, tau, key) = KDF3 c chainKey (hs_presharedKey hs);
          hash = mixHash c hash tau
      in case aead_Open c key ZeroNonce (mr_Empty msg) hash of
           None \<Rightarrow> None
         | Some _ \<Rightarrow> Some (mixHash c hash (mr_Empty msg), chainKey))"

definition ConsumeMessageResponse :: "crypto \<Rightarrow> MessageResponse \<Rightarrow> Device \<Rightarrow> pid option \<times> Device" where
  "ConsumeMessageResponse c msg dev =
     (if mr_Type msg \<noteq> MessageResponseType then (None, dev) else
      case IndexTable_Lookup (mr_Receiver msg) (indexTable dev) of
        (lookup_peer, None, _) \<Rightarrow> (None, dev)
      | (lookup_peer, Some h, _) \<Rightarrow>
          let hs = handshake (peers dev h)
          in case response_keys c msg hs (sid_privateKey dev) of
               None \<Rightarrow> (None, dev)
             | Some (hash, chainKey) \<Rightarrow>
                 let hs = hs\<lparr>hs_hash := hash, hs_chainKey := chainKey, hs_remoteIndex := mr_Sender msg,
                       hs_state := handshakeResponseConsumed\<rparr>
                 in (lookup_peer, set_handshake h hs dev))"

section \<open>Sessions\<close>

text \<open>\<open>chacha20poly1305.New\<close> keeps the key it is given.\<close>

definition BeginSymmetricSession ::
  "crypto \<Rightarrow> env \<Rightarrow> pid \<Rightarrow> Device \<Rightarrow> noise_error option \<times> Device" where
  "BeginSymmetricSession c e peer dev =
     (let hs = handshake (peers dev peer)
      in if hs_state hs \<noteq> handshakeResponseConsumed \<and> hs_state hs \<noteq> handshakeResponseCreated
         then (Some (errInvalidState (hs_state hs)), dev) else
      let isInitiator = (hs_state hs = handshakeResponseConsumed);
          (k1, k2) = KDF2 c (hs_chainKey hs) [];
          sendKey = (if isInitiator then k1 else k2);
          recvKey = (if isInitiator then k2 else k1);
          hs = hs\<lparr>hs_chainKey := setZero (hs_chainKey hs), hs_hash := setZero (hs_hash hs),
            hs_localEphemeral := setZero (hs_localEphemeral hs), hs_state := handshakeZeroed\<rparr>;
          kp = \<lparr>kp_sendNonce = 0, kp_send = sendKey, kp_receive = recvKey,
            kp_replayFilter = Reset zero_filter, kp_isInitiator = isInitiator, kp_created = env_now e,
            kp_localIndex = hs_localIndex hs, kp_remoteIndex = hs_remoteIndex hs\<rparr>;
          k = next_kid dev;
          dev = dev\<lparr>keypair_heap := (keypair_heap dev)(k := kp), next_kid := Suc k\<rparr>;
          dev = set_indexTable (SwapIndexForKeypair (hs_localIndex hs) k (indexTable dev)) dev;
          hs = hs\<lparr>hs_localIndex := 0\<rparr>;
          dev = set_handshake peer hs dev;
          ks = keypairs (peers dev peer)
      in if isInitiator then
           let (ks', dev) = (if ks_next ks \<noteq> None
                 then (ks\<lparr>ks_next := None, ks_previous := ks_next ks\<rparr>, DeleteKeypair (ks_current ks) dev)
                 else (ks\<lparr>ks_previous := ks_current ks\<rparr>, dev));
               dev = DeleteKeypair (ks_previous ks) dev
           in (None, set_keypairs peer (ks'\<lparr>ks_current := Some k\<rparr>) dev)
         else
           let ks' = ks\<lparr>ks_next := Some k\<rparr>;
               dev = DeleteKeypair (ks_next ks) dev;
               ks' = ks'\<lparr>ks_previous := None\<rparr>;
               dev = DeleteKeypair (ks_previous ks) dev
           in (None, set_keypairs peer ks' dev))"

definition ReceivedWithKeypair :: "pid \<Rightarrow> kid \<Rightarrow> Device \<Rightarrow> bool \<times> Device" where
  "ReceivedWithKeypair peer receivedKeypair dev =
     (let ks = keypairs (peers dev peer)
      in if ks_next ks \<noteq> Some receivedKeypair then (False, dev)
         else
           let old = ks_previous ks;
               dev = DeleteKeypair old dev
           in (True, set_keypairs peer \<lparr>ks_current = ks_next ks, ks_previous = ks_current ks, ks_next = None\<rparr> dev))"

section \<open>The handshake as a pure protocol\<close>

text \<open>What the two sides compute, without state: the sealed fields and the resulting hash and
  chaining key of an initiation, then of a response.\<close>

definition ini_hash0 :: "crypto \<Rightarrow> bytes \<Rightarrow> bytes \<Rightarrow> bytes" where
  "ini_hash0 c rs eph = mixHash c (mixHash c (InitialHash c) rs) eph"

definition ini_kdf1 :: "crypto \<Rightarrow> bytes \<Rightarrow> bytes \<Rightarrow> bytes \<times> bytes" where
  "ini_kdf1 c eph ss = KDF2 c (mixKey c (InitialChainKey c) eph) ss"

definition ini_static :: "crypto \<Rightarrow> bytes \<Rightarrow> bytes \<Rightarrow> bytes \<Rightarrow> bytes \<Rightarrow> bytes" where
  "ini_static c rs eph ss spk = aead_Seal c (snd (ini_kdf1 c eph ss)) ZeroNonce spk (ini_hash0 c rs eph)"

definition ini_kdf2 :: "crypto \<Rightarrow> bytes \<Rightarrow> bytes \<Rightarrow> bytes \<Rightarrow> bytes \<times> bytes" where
  "ini_kdf2 c eph ss pss = KDF2 c (fst (ini_kdf1 c eph ss)) pss"

definition ini_hash1 :: "crypto \<Rightarrow> bytes \<Rightarrow> bytes \<Rightarrow> bytes \<Rightarrow> bytes" where
  "ini_hash1 c rs eph static = mixHash c (ini_hash0 c rs eph) static"

definition ini_timestamp :: "crypto \<Rightarrow> bytes \<Rightarrow> bytes \<Rightarrow> bytes \<Rightarrow> bytes \<Rightarrow> bytes \<Rightarrow> bytes \<Rightarrow> bytes" where
  "ini_timestamp c rs eph ss static pss ts =
     aead_Seal c (snd (ini_kdf2 c eph ss pss)) ZeroNonce ts (ini_hash1 c rs eph static)"

definition resp_kdf :: "crypto \<Rightarrow> bytes \<Rightarrow> bytes \<Rightarrow> bytes \<Rightarrow> bytes \<Rightarrow> bytes \<Rightarrow> bytes \<times> bytes \<times> bytes" where
  "resp_kdf c ck eph ee se psk = KDF3 c (mixKey c (mixKey c (mixKey c ck eph) ee) se) psk"

definition resp_hash :: "crypto \<Rightarrow> bytes \<Rightarrow> bytes \<Rightarrow> bytes \<Rightarrow> bytes" where
  "resp_hash c h eph tau = mixHash c (mixHash c h eph) tau"

definition resp_empty :: "crypto \<Rightarrow> bytes \<Rightarrow> bytes \<Rightarrow> bytes \<Rightarrow> bytes \<Rightarrow> bytes \<Rightarrow> bytes \<Rightarrow> bytes" where
  "resp_empty c h ck eph ee se psk =
     (let (ck', tau, key) = resp_kdf c ck eph ee se psk
      in aead_Seal c key ZeroNonce [] (resp_hash c h eph tau))"

text \<open>What the responder reads out of an initiation: peer, timestamp, hash and chaining key.\<close>

definition initiation_decode ::
  "crypto \<Rightarrow> MessageInitiation \<Rightarrow> Device \<Rightarrow> (pid \<times> Timestamp \<times> bytes \<times> bytes) option" where
  "initiation_decode c msg dev =
     (if mi_Type msg \<noteq> MessageInitiationType then None else
      let (ss, ok) = sharedSecret c (sid_privateKey dev) (mi_Ephemeral msg);
          (ck, key) = ini_kdf1 c (mi_Ephemeral msg) ss;
          h0 = ini_hash0 c (sid_publicKey dev) (mi_Ephemeral msg)
      in if \<not> ok then None else
      do {
        peerPK \<leftarrow> aead_Open c key ZeroNonce (mi_Static msg) h0;
        peer \<leftarrow> LookupPeer peerPK dev;
        let hs = handshake (peers dev peer);
        let pss = hs_precomputedStaticStatic hs;
        if \<not> isRunning (peers dev peer) \<or> isZero pss then None else do {
          let h1 = mixHash c h0 (mi_Static msg);
          let ck2 = KDF2 c ck pss;
          ts \<leftarrow> aead_Open c (snd ck2) ZeroNonce (mi_Timestamp msg) h1;
          Some (peer, Timestamp ts, mixHash c h1 (mi_Timestamp msg), fst ck2)
        }
      })"

lemma ConsumeMessageInitiation_eq:
  "ConsumeMessageInitiation c e msg dev =
     (case initiation_decode c msg dev of
        None \<Rightarrow> (None, dev)
      | Some (peer, ts, h, ck) \<Rightarrow>
          let hs = handshake (peers dev peer)
          in if \<not> hs_lastTimestamp hs < ts
               \<or> Sub (env_now e) (hs_lastInitiationConsumption hs) \<le> HandshakeInitationRate
             then (None, dev)
             else (Some peer, set_handshake peer (hs\<lparr>hs_hash := h, hs_chainKey := ck, hs_remoteIndex := mi_Sender msg,
                 hs_remoteEphemeral := mi_Ephemeral msg, hs_lastTimestamp := ts,
                 hs_lastInitiationConsumption := max (env_now e) (hs_lastInitiationConsumption hs),
                 hs_state := handshakeInitiationConsumed\<rparr>) dev))"
  unfolding ConsumeMessageInitiation_def initiation_decode_def ini_hash0_def ini_kdf1_def
  by (auto simp: Let_def split_beta max_def split: option.splits)

section \<open>Replay protection of initiations\<close>

text \<open>Consuming a sequence of initiations, each in its own environment: the accepted ones, in order.\<close>

fun consume_initiations ::
  "crypto \<Rightarrow> (env \<times> MessageInitiation) list \<Rightarrow> Device \<Rightarrow> MessageInitiation list \<times> Device" where
  "consume_initiations c [] dev = ([], dev)"
| "consume_initiations c ((e, msg) # ms) dev =
     (let (r, dev') = ConsumeMessageInitiation c e msg dev;
          (acc, dev'') = consume_initiations c ms dev'
      in (if r = None then acc else msg # acc, dev''))"

definition lastTimestamp :: "Device \<Rightarrow> pid \<Rightarrow> Timestamp" where
  "lastTimestamp dev p = hs_lastTimestamp (handshake (peers dev p))"

lemma initiation_decode_set_handshake:
  assumes "hs_precomputedStaticStatic hs = hs_precomputedStaticStatic (handshake (peers dev q))"
  shows "initiation_decode c msg (set_handshake q hs dev) = initiation_decode c msg dev"
proof -
  have "hs_precomputedStaticStatic (handshake (peers (set_handshake q hs dev) p))
      = hs_precomputedStaticStatic (handshake (peers dev p))"
    "isRunning (peers (set_handshake q hs dev) p) = isRunning (peers dev p)" for p
    using assms by (auto simp: dev_upd_defs)
  moreover have "sid_privateKey (set_handshake q hs dev) = sid_privateKey dev"
    "sid_publicKey (set_handshake q hs dev) = sid_publicKey dev"
    "LookupPeer pk (set_handshake q hs dev) = LookupPeer pk dev" for pk
    by (simp_all add: dev_upd_defs LookupPeer_def)
  ultimately show ?thesis unfolding initiation_decode_def by (simp add: Let_def split_beta cong: if_cong)
qed

text \<open>One step: the message decodes the same before and after, and an accepted one raises the
  peer's last timestamp to its own.\<close>

lemma consume_initiation_step:
  assumes "ConsumeMessageInitiation c e msg dev = (r, dev')"
  shows "initiation_decode c m dev' = initiation_decode c m dev"
    and "lastTimestamp dev p \<le> lastTimestamp dev' p"
    and "r = Some q \<Longrightarrow> \<exists>ts h ck. initiation_decode c msg dev = Some (q, ts, h, ck)
      \<and> lastTimestamp dev q < ts \<and> lastTimestamp dev' q = ts"
proof -
  have cases: "(r = None \<and> dev' = dev) \<or> (\<exists>q ts h ck hs. initiation_decode c msg dev = Some (q, ts, h, ck)
      \<and> r = Some q \<and> dev' = set_handshake q hs dev \<and> hs_lastTimestamp hs = ts \<and> lastTimestamp dev q < ts
      \<and> hs_precomputedStaticStatic hs = hs_precomputedStaticStatic (handshake (peers dev q)))"
  proof (cases "initiation_decode c msg dev")
    case None
    then show ?thesis using assms by (simp add: ConsumeMessageInitiation_eq)
  next
    case (Some d)
    obtain q ts h ck where d: "d = (q, ts, h, ck)" by (cases d) auto
    show ?thesis
    proof (cases "r = None")
      case True
      then show ?thesis using assms Some d by (auto simp: ConsumeMessageInitiation_eq Let_def split: if_splits)
    next
      case False
      define hs where "hs = (handshake (peers dev q))\<lparr>hs_hash := h, hs_chainKey := ck,
        hs_remoteIndex := mi_Sender msg, hs_remoteEphemeral := mi_Ephemeral msg, hs_lastTimestamp := ts,
        hs_lastInitiationConsumption := max (env_now e) (hs_lastInitiationConsumption (handshake (peers dev q))),
        hs_state := handshakeInitiationConsumed\<rparr>"
      have "r = Some q" "dev' = set_handshake q hs dev" "lastTimestamp dev q < ts"
        using assms Some d False
        by (auto simp: ConsumeMessageInitiation_eq Let_def hs_def lastTimestamp_def split: if_splits)
      moreover have "hs_lastTimestamp hs = ts"
        "hs_precomputedStaticStatic hs = hs_precomputedStaticStatic (handshake (peers dev q))"
        by (simp_all add: hs_def)
      ultimately show ?thesis using Some d by blast
    qed
  qed
  then show "initiation_decode c m dev' = initiation_decode c m dev"
    using initiation_decode_set_handshake by auto
  show "lastTimestamp dev p \<le> lastTimestamp dev' p"
    using cases by (auto simp: lastTimestamp_def dev_upd_defs)
  show "r = Some q \<Longrightarrow> \<exists>ts h ck. initiation_decode c msg dev = Some (q, ts, h, ck)
      \<and> lastTimestamp dev q < ts \<and> lastTimestamp dev' q = ts"
    using cases by (auto simp: lastTimestamp_def dev_upd_defs)
qed

lemma consume_initiations_fresh:
  assumes "consume_initiations c ms dev = (acc, dev')"
  shows "distinct acc \<and> (\<forall>m\<in>set acc. \<exists>q ts h ck. initiation_decode c m dev = Some (q, ts, h, ck)
    \<and> lastTimestamp dev q < ts)"
  using assms
proof (induction ms arbitrary: dev acc)
  case Nil
  then show ?case by simp
next
  case (Cons x ms)
  obtain e msg where x: "x = (e, msg)" by force
  obtain r dev1 where 1: "ConsumeMessageInitiation c e msg dev = (r, dev1)" by force
  obtain acc1 dev2 where 2: "consume_initiations c ms dev1 = (acc1, dev2)" by force
  have acc: "acc = (if r = None then acc1 else msg # acc1)" and d2: "dev' = dev2"
    using Cons.prems 1 2 by (auto simp: x)
  note step = consume_initiation_step [OF 1] and IH = Cons.IH [OF 2 [folded d2]]
  have later: "\<exists>q ts h ck. initiation_decode c m dev = Some (q, ts, h, ck) \<and> lastTimestamp dev1 q < ts"
    if "m \<in> set acc1" for m
    using IH that step(1) by simp
  then have old: "\<exists>q ts h ck. initiation_decode c m dev = Some (q, ts, h, ck) \<and> lastTimestamp dev q < ts"
    if "m \<in> set acc1" for m
    using that step(2) by (meson order.strict_trans1)
  show ?case
  proof (cases r)
    case None
    then show ?thesis using acc IH old by simp
  next
    case (Some q)
    obtain ts h ck where m: "initiation_decode c msg dev = Some (q, ts, h, ck)" "lastTimestamp dev q < ts"
      "lastTimestamp dev1 q = ts"
      using step(3) [OF Some] by blast
    have "msg \<notin> set acc1" using m later [of msg] by auto
    then show ?thesis using acc IH old Some m by auto
  qed
qed

section \<open>Agreement\<close>

text \<open>The successful runs of the four message functions, in terms of the pure protocol.\<close>

lemma CreateMessageInitiation_success:
  assumes e: "snd (env_ephemeral e)" and eph: "eph = clamp (fst (env_ephemeral e))"
    and hs: "hs = handshake (peers dev p)" and ss: "sharedSecret c eph (hs_remoteStatic hs) = (ss, True)"
    and pss: "\<not> isZero (hs_precomputedStaticStatic hs)"
    and idx: "NewIndexForHandshake (env_indices e) p (IndexTable_Delete (hs_localIndex hs) (indexTable dev))
      = Some ((i, True), tbl)"
    and pub: "pub = publicKey c eph" and rs: "rs = hs_remoteStatic hs"
    and st: "st = ini_static c rs pub ss (sid_publicKey dev)"
    and ts: "ts = ini_timestamp c rs pub ss st (hs_precomputedStaticStatic hs) (ts_bytes (stamp (env_now e)))"
  shows "CreateMessageInitiation c e p dev =
    Some (Inr \<lparr>mi_Type = MessageInitiationType, mi_Sender = i, mi_Ephemeral = pub, mi_Static = st,
      mi_Timestamp = ts, mi_MAC1 = replicate 16 0, mi_MAC2 = replicate 16 0\<rparr>,
      set_handshake p (hs\<lparr>hs_localEphemeral := eph,
        hs_chainKey := fst (ini_kdf2 c pub ss (hs_precomputedStaticStatic hs)), hs_localIndex := i,
        hs_hash := mixHash c (ini_hash1 c rs pub st) ts, hs_state := handshakeInitiationCreated\<rparr>)
        (set_indexTable tbl dev))"
  using assms
  by (simp add: CreateMessageInitiation_def newPrivateKey_def hs_mixHash_def hs_mixKey_def Let_def
      split_beta ini_static_def ini_timestamp_def ini_hash0_def ini_hash1_def ini_kdf1_def ini_kdf2_def)

lemma initiation_decode_success:
  assumes c: "crypto_ok c" and m: "mi_Type msg = MessageInitiationType"
    and ss: "sharedSecret c (sid_privateKey dev) (mi_Ephemeral msg) = (ss, True)"
    and st: "mi_Static msg = ini_static c (sid_publicKey dev) (mi_Ephemeral msg) ss spk"
    and lk: "LookupPeer spk dev = Some p" "isRunning (peers dev p)"
    and pss: "pss = hs_precomputedStaticStatic (handshake (peers dev p))" "\<not> isZero pss"
    and ts: "mi_Timestamp msg = ini_timestamp c (sid_publicKey dev) (mi_Ephemeral msg) ss (mi_Static msg) pss ts"
  shows "initiation_decode c msg dev = Some (p, Timestamp ts,
    mixHash c (ini_hash1 c (sid_publicKey dev) (mi_Ephemeral msg) (mi_Static msg)) (mi_Timestamp msg),
    fst (ini_kdf2 c (mi_Ephemeral msg) ss pss))"
proof -
  have o1: "aead_Open c (snd (ini_kdf1 c (mi_Ephemeral msg) ss)) ZeroNonce (mi_Static msg)
      (ini_hash0 c (sid_publicKey dev) (mi_Ephemeral msg)) = Some spk"
    unfolding st ini_static_def by (rule crypto_okD(4) [OF c])
  have o2: "aead_Open c (snd (ini_kdf2 c (mi_Ephemeral msg) ss pss)) ZeroNonce (mi_Timestamp msg)
      (ini_hash1 c (sid_publicKey dev) (mi_Ephemeral msg) (mi_Static msg)) = Some ts"
    unfolding ts ini_timestamp_def by (rule crypto_okD(4) [OF c])
  show ?thesis
    using m ss o1 lk pss o2
    by (simp add: initiation_decode_def Let_def split_beta ini_kdf2_def ini_hash1_def)
qed

lemma CreateMessageResponse_success:
  assumes e: "snd (env_ephemeral e)" and eph: "eph = clamp (fst (env_ephemeral e))"
    and hs: "hs = handshake (peers dev p)" and st: "hs_state hs = handshakeInitiationConsumed"
    and ee: "sharedSecret c eph (hs_remoteEphemeral hs) = (ee, True)"
    and se: "sharedSecret c eph (hs_remoteStatic hs) = (se, True)"
    and idx: "NewIndexForHandshake (env_indices e) p (IndexTable_Delete (hs_localIndex hs) (indexTable dev))
      = Some ((i, True), tbl)"
    and pub: "pub = publicKey c eph"
    and k: "resp_kdf c (hs_chainKey hs) pub ee se (hs_presharedKey hs) = (ck, tau, key)"
    and em: "em = resp_empty c (hs_hash hs) (hs_chainKey hs) pub ee se (hs_presharedKey hs)"
  shows "CreateMessageResponse c e p dev =
    Some (Inr \<lparr>mr_Type = MessageResponseType, mr_Sender = i, mr_Receiver = hs_remoteIndex hs,
      mr_Ephemeral = pub, mr_Empty = em, mr_MAC1 = replicate 16 0, mr_MAC2 = replicate 16 0\<rparr>,
      set_handshake p (hs\<lparr>hs_localIndex := i, hs_localEphemeral := eph, hs_chainKey := ck,
        hs_hash := mixHash c (resp_hash c (hs_hash hs) pub tau) em, hs_state := handshakeResponseCreated\<rparr>)
        (set_indexTable tbl dev))"
  using assms
  by (simp add: CreateMessageResponse_def newPrivateKey_def hs_mixHash_def hs_mixKey_def Let_def
      split_beta resp_kdf_def resp_empty_def resp_hash_def)

lemma response_keys_success:
  assumes c: "crypto_ok c" and st: "hs_state hs = handshakeInitiationCreated"
    and ee: "sharedSecret c (hs_localEphemeral hs) (mr_Ephemeral msg) = (ee, True)"
    and se: "sharedSecret c sk (mr_Ephemeral msg) = (se, True)"
    and k: "resp_kdf c (hs_chainKey hs) (mr_Ephemeral msg) ee se (hs_presharedKey hs) = (ck, tau, key)"
    and em: "mr_Empty msg = resp_empty c (hs_hash hs) (hs_chainKey hs) (mr_Ephemeral msg) ee se (hs_presharedKey hs)"
  shows "response_keys c msg hs sk
    = Some (mixHash c (resp_hash c (hs_hash hs) (mr_Ephemeral msg) tau) (mr_Empty msg), ck)"
proof -
  have "aead_Open c key ZeroNonce (mr_Empty msg) (resp_hash c (hs_hash hs) (mr_Ephemeral msg) tau) = Some []"
    unfolding em resp_empty_def k by (simp add: crypto_okD(4) [OF c])
  then show ?thesis
    using assms(2-5) by (simp add: response_keys_def Let_def split_beta resp_kdf_def resp_hash_def)
qed

lemma DeleteKeypair_other [simp]:
  "peers (DeleteKeypair k dev) = peers dev" "keypair_heap (DeleteKeypair k dev) = keypair_heap dev"
  "next_kid (DeleteKeypair k dev) = next_kid dev"
  by (simp_all add: DeleteKeypair_def dev_upd_defs split: option.splits)

lemma BeginSymmetricSession_keypair:
  assumes "hs = handshake (peers dev p)" "hs_state hs = handshakeResponseConsumed \<or> hs_state hs = handshakeResponseCreated"
    and init: "init = (hs_state hs = handshakeResponseConsumed)" and k: "k = next_kid dev"
  shows "\<exists>dev'. BeginSymmetricSession c e p dev = (None, dev')
    \<and> (if init then ks_current else ks_next) (keypairs (peers dev' p)) = Some k
    \<and> keypair_heap dev' k = \<lparr>kp_sendNonce = 0,
       kp_send = (if init then fst else snd) (KDF2 c (hs_chainKey hs) []),
       kp_receive = (if init then snd else fst) (KDF2 c (hs_chainKey hs) []),
       kp_replayFilter = Reset zero_filter, kp_isInitiator = init, kp_created = env_now e,
       kp_localIndex = hs_localIndex hs, kp_remoteIndex = hs_remoteIndex hs\<rparr>"
proof (cases init)
  case True
  then show ?thesis using assms
    by (simp add: BeginSymmetricSession_def Let_def split_beta dev_upd_defs)
next
  case False
  then show ?thesis using assms
    by (simp add: BeginSymmetricSession_def Let_def split_beta dev_upd_defs)
qed

text \<open>\<open>knows c dev p sk sk'\<close>: the device has private key \<open>sk\<close> and its peer \<open>p\<close> is the owner of
  \<open>sk'\<close>, with the static-static secret precomputed as \<open>NewPeer\<close> and \<open>SetPrivateKey\<close> do.\<close>

definition knows :: "crypto \<Rightarrow> Device \<Rightarrow> pid \<Rightarrow> NoisePrivateKey \<Rightarrow> NoisePrivateKey \<Rightarrow> bool" where
  "knows c dev p sk sk' \<longleftrightarrow>
     sid_privateKey dev = sk \<and> sid_publicKey dev = publicKey c sk \<and>
     hs_remoteStatic (handshake (peers dev p)) = publicKey c sk' \<and>
     sharedSecret c sk (publicKey c sk') = (hs_precomputedStaticStatic (handshake (peers dev p)), True)"

text \<open>The random numbers of a step suffice: the ephemeral key could be read, and a drawn index is free.\<close>

definition draws_free :: "env \<Rightarrow> pid \<Rightarrow> Device \<Rightarrow> bool" where
  "draws_free e p dev \<longleftrightarrow> snd (env_ephemeral e) \<and>
     (\<exists>i tbl. NewIndexForHandshake (env_indices e) p
        (IndexTable_Delete (hs_localIndex (handshake (peers dev p))) (indexTable dev)) = Some ((i, True), tbl))"

definition eph_key :: "env \<Rightarrow> NoisePrivateKey" where
  "eph_key e = clamp (fst (env_ephemeral e))"

lemma sharedSecret_ok: "snd (sharedSecret c a b) \<Longrightarrow> \<exists>s. sharedSecret c a b = (s, True)"
  by (metis prod.collapse)

lemma initiation_agreement:
  assumes c: "crypto_ok c"
    and A: "knows c A a skA skB" "draws_free eA a A"
    and B: "knows c B b skB skA" "LookupPeer (publicKey c skA) B = Some b" "isRunning (peers B b)"
    and fresh: "lastTimestamp B b < stamp (env_now eA)"
      "Sub (env_now eB) (hs_lastInitiationConsumption (handshake (peers B b))) > HandshakeInitationRate"
    and es: "snd (sharedSecret c (eph_key eA) (publicKey c skB))"
  obtains msg A' B' i h ck where "CreateMessageInitiation c eA a A = Some (Inr msg, A')"
    and "ConsumeMessageInitiation c eB msg B = (Some b, B')"
    and "mi_Sender msg = i" "indexTable A' i = Some \<lparr>ie_peer = a, ie_handshake = Some a, ie_keypair = None\<rparr>"
    and "handshake (peers A' a) = (handshake (peers A a))\<lparr>hs_localEphemeral := eph_key eA, hs_chainKey := ck,
       hs_localIndex := i, hs_hash := h, hs_state := handshakeInitiationCreated\<rparr>"
    and "handshake (peers B' b) = (handshake (peers B b))\<lparr>hs_hash := h, hs_chainKey := ck,
       hs_remoteIndex := i, hs_remoteEphemeral := publicKey c (eph_key eA), hs_lastTimestamp := stamp (env_now eA),
       hs_lastInitiationConsumption := max (env_now eB) (hs_lastInitiationConsumption (handshake (peers B b))),
       hs_state := handshakeInitiationConsumed\<rparr>"
    and "keypairs (peers A' a) = keypairs (peers A a)" "keypairs (peers B' b) = keypairs (peers B b)"
    and "sid_privateKey A' = skA" "indexTable B' = indexTable B" "next_kid A' = next_kid A" "wf_initiation msg"
proof -
  let ?hA = "handshake (peers A a)" and ?hB = "handshake (peers B b)" and ?pub = "publicKey c (eph_key eA)"
  obtain ss where ss: "sharedSecret c (eph_key eA) (publicKey c skB) = (ss, True)"
    using sharedSecret_ok [OF es] by blast
  have ssB: "sharedSecret c skB ?pub = (ss, True)"
    using ss sharedSecret_sym [OF c] by metis
  have pss: "hs_precomputedStaticStatic ?hB = hs_precomputedStaticStatic ?hA"
    using A(1) B(1) sharedSecret_sym [OF c, of skA skB] by (simp add: knows_def)
  have nz: "\<not> isZero (hs_precomputedStaticStatic ?hA)"
    using A(1) by (auto simp: knows_def sharedSecret_def Let_def split: if_splits)
  obtain i tbl where idx: "NewIndexForHandshake (env_indices eA) a
      (IndexTable_Delete (hs_localIndex ?hA) (indexTable A)) = Some ((i, True), tbl)" and re: "snd (env_ephemeral eA)"
    using A(2) by (auto simp: draws_free_def)
  define st where "st = ini_static c (hs_remoteStatic ?hA) ?pub ss (sid_publicKey A)"
  define ts where "ts = ini_timestamp c (hs_remoteStatic ?hA) ?pub ss st (hs_precomputedStaticStatic ?hA)
      (ts_bytes (stamp (env_now eA)))"
  define h where "h = mixHash c (ini_hash1 c (hs_remoteStatic ?hA) ?pub st) ts"
  define ck where "ck = fst (ini_kdf2 c ?pub ss (hs_precomputedStaticStatic ?hA))"
  define msg where "msg = \<lparr>mi_Type = MessageInitiationType, mi_Sender = i, mi_Ephemeral = ?pub, mi_Static = st,
      mi_Timestamp = ts, mi_MAC1 = replicate 16 0, mi_MAC2 = replicate 16 (0 :: u8)\<rparr>"
  have rs: "hs_remoteStatic ?hA = sid_publicKey B" "sid_privateKey B = skB" "sid_publicKey A = publicKey c skA"
    using A(1) B(1) by (auto simp: knows_def)
  have 1: "CreateMessageInitiation c eA a A = Some (Inr msg, set_handshake a (?hA\<lparr>hs_localEphemeral := eph_key eA,
      hs_chainKey := ck, hs_localIndex := i, hs_hash := h, hs_state := handshakeInitiationCreated\<rparr>)
      (set_indexTable tbl A))"
    unfolding msg_def h_def ck_def
    by (rule CreateMessageInitiation_success [OF re eph_key_def refl _ nz idx refl refl st_def ts_def])
       (use ss A(1) in \<open>simp add: knows_def\<close>)
  have d: "initiation_decode c msg B = Some (b, Timestamp (ts_bytes (stamp (env_now eA))), h, ck)"
    using initiation_decode_success [OF c, of msg B ss "sid_publicKey A" b] ssB B rs pss nz
    by (simp add: msg_def h_def ck_def st_def ts_def)
  have wf: "wf_initiation msg"
    by (simp add: msg_def wf_initiation_def st_def ts_def ini_static_def ini_timestamp_def crypto_okD [OF c]
        rs stamp_def c)
  have 2: "ConsumeMessageInitiation c eB msg B = (Some b, set_handshake b (?hB\<lparr>hs_hash := h, hs_chainKey := ck,
      hs_remoteIndex := i, hs_remoteEphemeral := ?pub, hs_lastTimestamp := stamp (env_now eA),
      hs_lastInitiationConsumption := max (env_now eB) (hs_lastInitiationConsumption ?hB),
      hs_state := handshakeInitiationConsumed\<rparr>) B)"
    using d fresh by (simp add: ConsumeMessageInitiation_eq Let_def msg_def lastTimestamp_def)
  show thesis
    by (rule that [OF 1 2, of i h ck])
       (use NewIndexForHandshake_ok [OF idx] A(1) wf in \<open>auto simp: dev_upd_defs msg_def knows_def\<close>)
qed

text \<open>The second half: the response to a consumed initiation gives both sides the same keys.\<close>

lemma response_agreement:
  assumes c: "crypto_ok c"
    and hA: "handshake (peers A a) = hA" "hs_state hA = handshakeInitiationCreated" "sid_privateKey A = skA"
      "indexTable A i = Some \<lparr>ie_peer = a, ie_handshake = Some a, ie_keypair = None\<rparr>"
    and hB: "handshake (peers B b) = hB" "hs_state hB = handshakeInitiationConsumed" "hs_remoteIndex hB = i"
      "hs_remoteEphemeral hB = publicKey c (hs_localEphemeral hA)" "hs_remoteStatic hB = publicKey c skA"
    and eq: "hs_hash hA = hs_hash hB" "hs_chainKey hA = hs_chainKey hB" "hs_presharedKey hA = hs_presharedKey hB"
    and d: "draws_free e b B"
    and ok: "snd (sharedSecret c (eph_key e) (hs_remoteEphemeral hB))" "snd (sharedSecret c (eph_key e) (hs_remoteStatic hB))"
  obtains msg A' B' j ck where "CreateMessageResponse c e b B = Some (Inr msg, B')"
    and "ConsumeMessageResponse c msg A = (Some a, A')" and "mr_Sender msg = j" "wf_response msg"
    and "hs_state (handshake (peers A' a)) = handshakeResponseConsumed" "hs_chainKey (handshake (peers A' a)) = ck"
      "hs_remoteIndex (handshake (peers A' a)) = j" "hs_localIndex (handshake (peers A' a)) = hs_localIndex hA"
    and "hs_state (handshake (peers B' b)) = handshakeResponseCreated" "hs_chainKey (handshake (peers B' b)) = ck"
      "hs_localIndex (handshake (peers B' b)) = j" "hs_remoteIndex (handshake (peers B' b)) = i"
proof -
  obtain j tbl where idx: "NewIndexForHandshake (env_indices e) b
      (IndexTable_Delete (hs_localIndex hB) (indexTable B)) = Some ((j, True), tbl)" and re: "snd (env_ephemeral e)"
    using d hB by (auto simp: draws_free_def)
  obtain ee se where ee: "sharedSecret c (eph_key e) (hs_remoteEphemeral hB) = (ee, True)"
    and se: "sharedSecret c (eph_key e) (hs_remoteStatic hB) = (se, True)"
    using ok sharedSecret_ok by metis
  let ?pub = "publicKey c (eph_key e)"
  have eA: "sharedSecret c (hs_localEphemeral hA) ?pub = (ee, True)" "sharedSecret c skA ?pub = (se, True)"
    using ee se sharedSecret_sym [OF c] hB by metis+
  obtain ck tau key where k: "resp_kdf c (hs_chainKey hB) ?pub ee se (hs_presharedKey hB) = (ck, tau, key)"
    by (metis prod.collapse)
  define em where "em = resp_empty c (hs_hash hB) (hs_chainKey hB) ?pub ee se (hs_presharedKey hB)"
  define msg where "msg = \<lparr>mr_Type = MessageResponseType, mr_Sender = j, mr_Receiver = i, mr_Ephemeral = ?pub,
      mr_Empty = em, mr_MAC1 = replicate 16 0, mr_MAC2 = replicate 16 (0 :: u8)\<rparr>"
  have 1: "CreateMessageResponse c e b B = Some (Inr msg, set_handshake b (hB\<lparr>hs_localIndex := j,
      hs_localEphemeral := eph_key e, hs_chainKey := ck, hs_hash := mixHash c (resp_hash c (hs_hash hB) ?pub tau) em,
      hs_state := handshakeResponseCreated\<rparr>) (set_indexTable tbl B))"
    using CreateMessageResponse_success [OF re eph_key_def hB(1) [symmetric] hB(2) ee se idx refl k em_def]
    by (simp add: msg_def hB(3))
  have rk: "response_keys c msg hA skA = Some (mixHash c (resp_hash c (hs_hash hA) ?pub tau) em, ck)"
    using response_keys_success [OF c hA(2), of msg ee skA se ck tau key] eA k eq
    by (simp add: msg_def em_def)
  have 2: "ConsumeMessageResponse c msg A = (Some a, set_handshake a (hA\<lparr>hs_hash := mixHash c (resp_hash c (hs_hash hA) ?pub tau) em,
      hs_chainKey := ck, hs_remoteIndex := j, hs_state := handshakeResponseConsumed\<rparr>) A)"
    using rk hA by (simp add: ConsumeMessageResponse_def IndexTable_Lookup_def msg_def Let_def)
  have "wf_response msg"
    by (simp add: msg_def wf_response_def em_def resp_empty_def crypto_okD [OF c] c split_beta)
  then show thesis
    by (intro that [OF 1 2]) (simp_all add: dev_upd_defs msg_def hB)
qed

section \<open>Properties\<close>

text \<open>C9. Handshake agreement. When two devices know each other's public keys and share the preshared
  key, the initiator's message is accepted by the responder, the response by the initiator, and the
  two sessions derived have opposite keys: what one side sends under, the other receives under, and
  each side's remote index is the other's local index. The initiator's key pair becomes its current
  one, the responder's its next one. Both messages are well formed, so they survive the wire.\<close>

theorem handshake_agreement:
  assumes "crypto_ok c"
    and "knows c A a skA skB" and "draws_free eA a A"
    and "knows c B b skB skA" and "LookupPeer (publicKey c skA) B = Some b" and "isRunning (peers B b)"
    and "draws_free eB b B"
    and "hs_presharedKey (handshake (peers A a)) = hs_presharedKey (handshake (peers B b))"
    and "lastTimestamp B b < stamp (env_now eA)"
    and "Sub (env_now eB) (hs_lastInitiationConsumption (handshake (peers B b))) > HandshakeInitationRate"
    and "snd (sharedSecret c (eph_key eA) (publicKey c skB))"
    and "snd (sharedSecret c (eph_key eB) (publicKey c (eph_key eA)))"
    and "snd (sharedSecret c (eph_key eB) (publicKey c skA))"
  shows "\<exists>msg1 A1 B1 msg2 B2 A2 A3 B3 kA kB.
    CreateMessageInitiation c eA a A = Some (Inr msg1, A1) \<and> wf_initiation msg1 \<and>
    ConsumeMessageInitiation c eB msg1 B = (Some b, B1) \<and>
    CreateMessageResponse c eB b B1 = Some (Inr msg2, B2) \<and> wf_response msg2 \<and>
    ConsumeMessageResponse c msg2 A1 = (Some a, A2) \<and>
    BeginSymmetricSession c eB b B2 = (None, B3) \<and>
    BeginSymmetricSession c eA' a A2 = (None, A3) \<and>
    ks_current (keypairs (peers A3 a)) = Some kA \<and> ks_next (keypairs (peers B3 b)) = Some kB \<and>
    kp_send (keypair_heap A3 kA) = kp_receive (keypair_heap B3 kB) \<and>
    kp_receive (keypair_heap A3 kA) = kp_send (keypair_heap B3 kB) \<and>
    kp_remoteIndex (keypair_heap A3 kA) = kp_localIndex (keypair_heap B3 kB) \<and>
    kp_localIndex (keypair_heap A3 kA) = kp_remoteIndex (keypair_heap B3 kB) \<and>
    kp_isInitiator (keypair_heap A3 kA) \<and> \<not> kp_isInitiator (keypair_heap B3 kB)"
proof -
  obtain msg1 A1 B1 i h ck where s1: "CreateMessageInitiation c eA a A = Some (Inr msg1, A1)"
      "ConsumeMessageInitiation c eB msg1 B = (Some b, B1)"
    and iA: "indexTable A1 i = Some \<lparr>ie_peer = a, ie_handshake = Some a, ie_keypair = None\<rparr>"
    and hA: "handshake (peers A1 a) = (handshake (peers A a))\<lparr>hs_localEphemeral := eph_key eA, hs_chainKey := ck,
       hs_localIndex := i, hs_hash := h, hs_state := handshakeInitiationCreated\<rparr>"
    and hB: "handshake (peers B1 b) = (handshake (peers B b))\<lparr>hs_hash := h, hs_chainKey := ck,
       hs_remoteIndex := i, hs_remoteEphemeral := publicKey c (eph_key eA), hs_lastTimestamp := stamp (env_now eA),
       hs_lastInitiationConsumption := max (env_now eB) (hs_lastInitiationConsumption (handshake (peers B b))),
       hs_state := handshakeInitiationConsumed\<rparr>"
    and sk: "sid_privateKey A1 = skA" and iB: "indexTable B1 = indexTable B" and wf1: "wf_initiation msg1"
    by (rule initiation_agreement [OF assms(1-6,9-11)]) blast
  have d: "draws_free eB b B1" using assms(7) iB hB by (simp add: draws_free_def)
  obtain msg2 A2 B2 j ck2 where s2: "CreateMessageResponse c eB b B1 = Some (Inr msg2, B2)"
      "ConsumeMessageResponse c msg2 A1 = (Some a, A2)" "wf_response msg2"
    and A2: "hs_state (handshake (peers A2 a)) = handshakeResponseConsumed" "hs_chainKey (handshake (peers A2 a)) = ck2"
      "hs_remoteIndex (handshake (peers A2 a)) = j" "hs_localIndex (handshake (peers A2 a)) = i"
    and B2: "hs_state (handshake (peers B2 b)) = handshakeResponseCreated" "hs_chainKey (handshake (peers B2 b)) = ck2"
      "hs_localIndex (handshake (peers B2 b)) = j" "hs_remoteIndex (handshake (peers B2 b)) = i"
    by (rule response_agreement [OF assms(1) refl _ sk iA refl _ _ _ _ _ _ _ d])
       (use assms hA hB in \<open>auto simp: knows_def\<close>)
  note a = BeginSymmetricSession_keypair [OF refl _ refl refl, of A2 a c eA']
  note b = BeginSymmetricSession_keypair [OF refl _ refl refl, of B2 b c eB]
  show ?thesis
    using a b A2 B2 s1 s2 wf1 by auto
qed

text \<open>Two concrete devices, with peer \<open>0\<close> of each being the other.\<close>

definition example_device :: "NoisePrivateKey \<Rightarrow> NoisePrivateKey \<Rightarrow> Device" where
  "example_device sk sk' =
     (let pss = fst (sharedSecret toy_crypto sk (publicKey toy_crypto sk'))
      in zero_Device\<lparr>dev_state := deviceStateUp, sid_privateKey := sk, sid_publicKey := publicKey toy_crypto sk,
           peers := (\<lambda>_. zero_Peer\<lparr>isRunning := True, handshake := zero_Handshake\<lparr>
             hs_remoteStatic := publicKey toy_crypto sk', hs_precomputedStaticStatic := pss\<rparr>\<rparr>),
           next_pid := 1, keyMap := [(publicKey toy_crypto sk', 0)]\<rparr>)"

definition example_env :: "gotime \<Rightarrow> u8 \<Rightarrow> u32 \<Rightarrow> env" where
  "example_env t x i = \<lparr>env_now = t, env_ephemeral = (replicate 32 x, True), env_indices = [(i, True)],
     env_secret = (replicate 32 1, True), env_nonce = (replicate 24 1, True), env_jitter = 0, env_send = SendOk\<rparr>"

definition example_sk :: "u8 \<Rightarrow> NoisePrivateKey" where
  "example_sk x = clamp (replicate 32 x)"

lemma example_devices:
  "knows toy_crypto (example_device (example_sk 8) (example_sk 16)) 0 (example_sk 8) (example_sk 16)"
  "knows toy_crypto (example_device (example_sk 16) (example_sk 8)) 0 (example_sk 16) (example_sk 8)"
  "LookupPeer (publicKey toy_crypto (example_sk 8)) (example_device (example_sk 16) (example_sk 8)) = Some 0"
  "lastTimestamp (example_device (example_sk 16) (example_sk 8)) 0 < stamp (unixToInternal * second)"
  by code_simp+

lemma example_draws: "draws_free (example_env t x i) 0 (example_device sk sk')"
  by (simp add: draws_free_def example_env_def example_device_def Let_def zero_Device_def IndexTable_Init_def
      IndexTable_Delete_def)

theorem handshake_agreement_witness:
  "\<exists>msg1 A1 B1 msg2 B2 A2 A3 B3 kA kB.
    CreateMessageInitiation toy_crypto (example_env (unixToInternal * second) 24 7) 0
      (example_device (example_sk 8) (example_sk 16)) = Some (Inr msg1, A1) \<and> wf_initiation msg1 \<and>
    ConsumeMessageInitiation toy_crypto (example_env (unixToInternal * second) 40 9) msg1
      (example_device (example_sk 16) (example_sk 8)) = (Some 0, B1) \<and>
    CreateMessageResponse toy_crypto (example_env (unixToInternal * second) 40 9) 0 B1 = Some (Inr msg2, B2) \<and>
    wf_response msg2 \<and>
    ConsumeMessageResponse toy_crypto msg2 A1 = (Some 0, A2) \<and>
    BeginSymmetricSession toy_crypto (example_env (unixToInternal * second) 40 9) 0 B2 = (None, B3) \<and>
    BeginSymmetricSession toy_crypto (example_env (unixToInternal * second) 24 7) 0 A2 = (None, A3) \<and>
    ks_current (keypairs (peers A3 0)) = Some kA \<and> ks_next (keypairs (peers B3 0)) = Some kB \<and>
    kp_send (keypair_heap A3 kA) = kp_receive (keypair_heap B3 kB) \<and>
    kp_receive (keypair_heap A3 kA) = kp_send (keypair_heap B3 kB) \<and>
    kp_remoteIndex (keypair_heap A3 kA) = kp_localIndex (keypair_heap B3 kB) \<and>
    kp_localIndex (keypair_heap A3 kA) = kp_remoteIndex (keypair_heap B3 kB) \<and>
    kp_isInitiator (keypair_heap A3 kA) \<and> \<not> kp_isInitiator (keypair_heap B3 kB)"
proof (rule handshake_agreement [OF toy_crypto_ok example_devices(1) example_draws example_devices(2,3) _ example_draws])
  show "isRunning (peers (example_device (example_sk 16) (example_sk 8)) 0)" by code_simp
  show "hs_presharedKey (handshake (peers (example_device (example_sk 8) (example_sk 16)) 0))
      = hs_presharedKey (handshake (peers (example_device (example_sk 16) (example_sk 8)) 0))" by code_simp
  show "lastTimestamp (example_device (example_sk 16) (example_sk 8)) 0
      < stamp (env_now (example_env (unixToInternal * second) 24 7))"
    using example_devices(4) by (simp add: example_env_def)
  show "HandshakeInitationRate < Sub (env_now (example_env (unixToInternal * second) 40 9))
      (hs_lastInitiationConsumption (handshake (peers (example_device (example_sk 16) (example_sk 8)) 0)))"
    by code_simp
  show "snd (sharedSecret toy_crypto (eph_key (example_env (unixToInternal * second) 24 7))
      (publicKey toy_crypto (example_sk 16)))" by code_simp
  show "snd (sharedSecret toy_crypto (eph_key (example_env (unixToInternal * second) 40 9))
      (publicKey toy_crypto (eph_key (example_env (unixToInternal * second) 24 7))))" by code_simp
  show "snd (sharedSecret toy_crypto (eph_key (example_env (unixToInternal * second) 40 9))
      (publicKey toy_crypto (example_sk 8)))" by code_simp
qed


end
