(* ===== verification/Sessions.thy ===== *)
theory Sessions
  imports Noise
begin

text \<open>
  The index table against the sessions: an invariant that ties every index of
  \<^verbatim>\<open>src/device/indextable.go\<close> to the one handshake or key pair it stands for, kept by the
  handshake functions, by \<open>BeginSymmetricSession\<close> and by \<open>ReceivedWithKeypair\<close>. The locale
  \<open>index_steps\<close> collects the operations and their laws. Index \<open>0\<close> doubles as \<open>no index\<close> in the
  code, so the invariant speaks of runs in which \<open>randUint32\<close> succeeds and does not return \<open>0\<close>;
  \<open>zero_index_collision\<close> shows what happens otherwise.
\<close>

section \<open>The invariant on the table and its abstract view\<close>

text \<open>The key pairs in a peer's slots, and that no key pair is in two of them.\<close>

definition slots :: "Keypairs \<Rightarrow> kid set" where
  "slots ks = set_option (ks_current ks) \<union> set_option (ks_previous ks) \<union> set_option (ks_next ks)"

definition slots_distinct :: "Keypairs \<Rightarrow> bool" where
  "slots_distinct ks \<longleftrightarrow>
     (ks_current ks \<noteq> None \<longrightarrow> ks_current ks \<noteq> ks_previous ks \<and> ks_current ks \<noteq> ks_next ks) \<and>
     (ks_previous ks \<noteq> None \<longrightarrow> ks_previous ks \<noteq> ks_next ks)"

definition hs_entry :: "pid \<Rightarrow> IndexTableEntry" where
  "hs_entry p = \<lparr>ie_peer = p, ie_handshake = Some p, ie_keypair = None\<rparr>"

definition kp_entry :: "pid \<Rightarrow> kid \<Rightarrow> IndexTableEntry" where
  "kp_entry p k = \<lparr>ie_peer = p, ie_handshake = None, ie_keypair = Some k\<rparr>"

lemma entry_inject [simp]:
  "hs_entry p = hs_entry q \<longleftrightarrow> p = q" "kp_entry p k = kp_entry q l \<longleftrightarrow> p = q \<and> k = l"
  "hs_entry p \<noteq> kp_entry q l" "kp_entry q l \<noteq> hs_entry p"
  by (simp_all add: hs_entry_def kp_entry_def)

text \<open>\<open>L\<close> gives the local index of each peer's handshake, \<open>S\<close> whether its state needs one, \<open>K\<close> the key
  pairs in the peer's slots, \<open>X\<close> their local indices, \<open>n\<close> the number of key pairs so far.\<close>

definition idx_inv ::
  "IndexTable \<Rightarrow> (pid \<Rightarrow> u32) \<Rightarrow> (pid \<Rightarrow> bool) \<Rightarrow> (pid \<Rightarrow> kid set) \<Rightarrow> (kid \<Rightarrow> u32) \<Rightarrow> nat \<Rightarrow> bool" where
  "idx_inv tbl L S K X n \<longleftrightarrow>
     tbl 0 = None \<and>
     (\<forall>i e. tbl i = Some e \<longrightarrow> (\<exists>p. e = hs_entry p \<and> L p = i) \<or> (\<exists>p k. e = kp_entry p k \<and> k \<in> K p \<and> X k = i)) \<and>
     (\<forall>p. L p \<noteq> 0 \<longrightarrow> tbl (L p) = Some (hs_entry p)) \<and>
     (\<forall>p. S p \<longrightarrow> L p \<noteq> 0) \<and>
     (\<forall>p k. k \<in> K p \<longrightarrow> k < n \<and> tbl (X k) = Some (kp_entry p k))"

lemma idx_invD:
  assumes "idx_inv tbl L S K X n"
  shows "tbl 0 = None"
    and "tbl i = Some e \<Longrightarrow> (\<exists>p. e = hs_entry p \<and> L p = i) \<or> (\<exists>p k. e = kp_entry p k \<and> k \<in> K p \<and> X k = i)"
    and "L p \<noteq> 0 \<Longrightarrow> tbl (L p) = Some (hs_entry p)" and "S p \<Longrightarrow> L p \<noteq> 0"
    and "k \<in> K p \<Longrightarrow> k < n \<and> tbl (X k) = Some (kp_entry p k)"
  using assms unfolding idx_inv_def by auto

lemma idx_drop_handshake:
  assumes "idx_inv tbl L S K X n"
  shows "idx_inv (tbl(L p := None)) (L(p := 0)) (S(p := False)) K X n"
proof -
  note d = idx_invD [OF assms]
  have K: "X k \<noteq> L p" if "k \<in> K q" for k q
    using d(1) d(3) [of p] d(5) [OF that] by (metis entry_inject(3) option.distinct(1) option.inject)
  have L: "q = p" if "L q = L p" "L p \<noteq> 0" for q
    using d(3) [of p] d(3) [of q] that by (metis entry_inject(1) option.inject)
  show ?thesis unfolding idx_inv_def
  proof (intro conjI allI impI)
    fix i e assume "(tbl(L p := None)) i = Some e"
    then have e: "tbl i = Some e" "i \<noteq> L p" by (auto split: if_splits)
    with d(2) [OF e(1)] show "(\<exists>q. e = hs_entry q \<and> (L(p := 0)) q = i) \<or> (\<exists>q k. e = kp_entry q k \<and> k \<in> K q \<and> X k = i)"
      by auto
  qed (use d K L in auto)
qed

lemma idx_add_handshake:
  assumes "idx_inv tbl L S K X n" "i \<noteq> 0" "tbl i = None" "L p = 0"
  shows "idx_inv (tbl(i \<mapsto> hs_entry p)) (L(p := i)) (S(p := s)) K X n"
proof -
  note d = idx_invD [OF assms(1)]
  have K: "X k \<noteq> i" if "k \<in> K q" for k q using d(5) [OF that] assms(3) by auto
  have L: "L q \<noteq> i" for q using d(3) [of q] assms(2,3) by auto
  show ?thesis unfolding idx_inv_def
  proof (intro conjI allI impI)
    fix j e assume "(tbl(i \<mapsto> hs_entry p)) j = Some e"
    then show "(\<exists>q. e = hs_entry q \<and> (L(p := i)) q = j) \<or> (\<exists>q k. e = kp_entry q k \<and> k \<in> K q \<and> X k = j)"
      using d(2) [of j e] assms d(1) by (auto split: if_splits) (metis option.distinct(1))
  qed (use d K L assms(2) in \<open>auto split: if_splits\<close>)
qed

lemma idx_new_handshake:
  assumes "idx_inv tbl L S K X n" "i \<noteq> 0" "(tbl(L p := None)) i = None"
  shows "idx_inv ((tbl(L p := None))(i \<mapsto> hs_entry p)) (L(p := i)) (S(p := s)) K X n"
proof -
  have "(L(p := 0)) p = 0" by simp
  from idx_add_handshake [OF idx_drop_handshake [OF assms(1), of p] assms(2,3) this, of s]
  show ?thesis by (simp only: fun_upd_upd)
qed

lemma idx_session:
  assumes "idx_inv tbl L S K X n" "L p \<noteq> 0"
  shows "idx_inv (tbl(L p \<mapsto> kp_entry p n)) (L(p := 0)) (S(p := False)) (K(p := insert n (K p))) (X(n := L p)) (Suc n)"
proof -
  note d = idx_invD [OF assms(1)]
  have K: "X k \<noteq> L p" "k \<noteq> n" if "k \<in> K q" for k q
    using d(3) [OF assms(2)] d(5) [OF that] by auto
  have L: "L q \<noteq> L p" if "L q \<noteq> 0" "q \<noteq> p" for q
    using d(3) [of p] d(3) [of q] that assms by (metis entry_inject(1) option.inject)
  show ?thesis unfolding idx_inv_def
  proof (intro conjI allI impI)
    fix i e assume "(tbl(L p \<mapsto> kp_entry p n)) i = Some e"
    then consider "i = L p" "e = kp_entry p n" | "i \<noteq> L p" "tbl i = Some e" by (auto split: if_splits)
    then show "(\<exists>q. e = hs_entry q \<and> (L(p := 0)) q = i)
        \<or> (\<exists>q k. e = kp_entry q k \<and> k \<in> (K(p := insert n (K p))) q \<and> (X(n := L p)) k = i)"
    proof cases
      case 2
      with d(2) [OF 2(2)] K(2) show ?thesis by (fastforce split: if_splits)
    qed auto
  next
    fix q k assume k: "k \<in> (K(p := insert n (K p))) q"
    show "k < Suc n" using k d(5) by (fastforce split: if_splits)
    show "(tbl(L p \<mapsto> kp_entry p n)) ((X(n := L p)) k) = Some (kp_entry q k)"
      using k d(5) K by (auto split: if_splits)
  qed (use d L assms(2) in \<open>auto split: if_splits\<close>)
qed

lemma idx_drop_keypair:
  assumes "idx_inv tbl L S K X n" "k \<in> K p"
  shows "idx_inv (tbl(X k := None)) L S (K(p := K p - {k})) X n"
proof -
  note d = idx_invD [OF assms(1)]
  have K: "X l \<noteq> X k" if "l \<in> K q" "l \<noteq> k \<or> q \<noteq> p" for l q
    using d(5) [OF assms(2)] d(5) [OF that(1)] that(2) by auto
  have L: "L q \<noteq> X k" if "L q \<noteq> 0" for q
    using d(3) [OF that] d(5) [OF assms(2)] by auto
  show ?thesis unfolding idx_inv_def
  proof (intro conjI allI impI)
    fix i e assume "(tbl(X k := None)) i = Some e"
    then have e: "tbl i = Some e" "i \<noteq> X k" by (auto split: if_splits)
    with d(2) [OF e(1)]
    show "(\<exists>q. e = hs_entry q \<and> L q = i) \<or> (\<exists>q l. e = kp_entry q l \<and> l \<in> (K(p := K p - {k})) q \<and> X l = i)"
      by (auto split: if_splits)
  next
    fix q l assume l: "l \<in> (K(p := K p - {k})) q"
    show "l < n" using l d(5) by (auto split: if_splits)
    show "(tbl(X k := None)) (X l) = Some (kp_entry q l)"
      using l d(5) [of l q] K [of l q] by (auto split: if_splits)
  qed (use d L in auto)
qed

lemma idx_state_mono:
  "idx_inv tbl L S K X n \<Longrightarrow> (\<And>p. S' p \<Longrightarrow> S p \<or> L p \<noteq> 0) \<Longrightarrow> idx_inv tbl L S' K X n"
  unfolding idx_inv_def by blast

section \<open>The invariant of the device\<close>

definition needs_index :: "handshakeState \<Rightarrow> bool" where
  "needs_index st \<longleftrightarrow> st \<in> {handshakeInitiationCreated, handshakeResponseCreated, handshakeResponseConsumed}"

definition index_inv :: "Device \<Rightarrow> bool" where
  "index_inv dev \<longleftrightarrow>
     idx_inv (indexTable dev) (\<lambda>p. hs_localIndex (handshake (peers dev p)))
       (\<lambda>p. needs_index (hs_state (handshake (peers dev p)))) (\<lambda>p. slots (keypairs (peers dev p)))
       (\<lambda>k. kp_localIndex (keypair_heap dev k)) (next_kid dev)
     \<and> (\<forall>p. slots_distinct (keypairs (peers dev p)))"

definition draws_ok :: "env \<Rightarrow> bool" where
  "draws_ok e \<longleftrightarrow> (\<forall>(i, ok)\<in>set (env_indices e). ok \<and> i \<noteq> 0)"

lemma index_invI:
  assumes "idx_inv tbl L S K X n" and "indexTable dev = tbl"
    and "\<And>p. hs_localIndex (handshake (peers dev p)) = L p"
    and "\<And>p. needs_index (hs_state (handshake (peers dev p))) \<Longrightarrow> S p \<or> L p \<noteq> 0"
    and "\<And>p. slots (keypairs (peers dev p)) = K p" and "\<And>k. kp_localIndex (keypair_heap dev k) = X k"
    and "next_kid dev = n" and "\<And>p. slots_distinct (keypairs (peers dev p))"
  shows "index_inv dev"
proof -
  have "idx_inv tbl L (\<lambda>p. needs_index (hs_state (handshake (peers dev p)))) K X n"
    using assms(1,4) by (rule idx_state_mono)
  with assms show ?thesis by (simp add: index_inv_def)
qed

lemma index_invD:
  assumes "index_inv dev"
  shows "idx_inv (indexTable dev) (\<lambda>p. hs_localIndex (handshake (peers dev p)))
       (\<lambda>p. needs_index (hs_state (handshake (peers dev p)))) (\<lambda>p. slots (keypairs (peers dev p)))
       (\<lambda>k. kp_localIndex (keypair_heap dev k)) (next_kid dev)"
    and "slots_distinct (keypairs (peers dev p))"
  using assms by (auto simp: index_inv_def)

lemmas index_inv_cong = index_invI [OF index_invD(1)]

text \<open>Assigning an index to a handshake, the common end of the two \<open>Create\<close> functions.\<close>

lemma index_inv_assign:
  assumes inv: "index_inv dev" and idx: "NewIndexForHandshake (env_indices e) p
      (IndexTable_Delete (hs_localIndex (handshake (peers dev p))) (indexTable dev)) = Some ((i, ok), tbl)"
    and dr: "draws_ok e" and hs: "hs_localIndex hs = i"
  shows "index_inv (set_handshake p hs (set_indexTable tbl dev))" and "ok"
proof -
  show "ok" using idx dr NewIndexForHandshake_err [of "env_indices e" p _ i tbl]
    by (cases ok) (auto simp: draws_ok_def)
  then have "NewIndexForHandshake (env_indices e) p
      (IndexTable_Delete (hs_localIndex (handshake (peers dev p))) (indexTable dev)) = Some ((i, True), tbl)"
    using idx by simp
  note n = NewIndexForHandshake_ok [OF this]
  have i: "i \<noteq> 0" using n dr by (auto simp: draws_ok_def)
  let ?L = "\<lambda>p. hs_localIndex (handshake (peers dev p))"
  have "idx_inv (((indexTable dev)(?L p := None))(i \<mapsto> hs_entry p)) (?L(p := i))
      ((\<lambda>p. needs_index (hs_state (handshake (peers dev p))))(p := needs_index (hs_state hs)))
      (\<lambda>p. slots (keypairs (peers dev p))) (\<lambda>k. kp_localIndex (keypair_heap dev k)) (next_kid dev)"
    by (rule idx_new_handshake) (use inv i n in \<open>auto simp: index_inv_def IndexTable_Delete_def\<close>)
  then show "index_inv (set_handshake p hs (set_indexTable tbl dev))"
    by (rule index_invI)
       (use n inv hs in \<open>auto simp: IndexTable_Delete_def hs_entry_def dev_upd_defs dest: index_invD(2)\<close>)
qed

lemma index_inv_set_handshake:
  assumes "index_inv dev" "hs_localIndex hs = hs_localIndex (handshake (peers dev p))"
    and "needs_index (hs_state hs) \<Longrightarrow> needs_index (hs_state (handshake (peers dev p))) \<or> hs_localIndex hs \<noteq> 0"
  shows "index_inv (set_handshake p hs dev)"
  by (rule index_inv_cong [OF assms(1)]) (use assms in \<open>auto simp: dev_upd_defs dest: index_invD(2) split: if_splits\<close>)

text \<open>The \<open>Create\<close> functions either leave table, index and state of the handshake alone, or assign
  the index drawn, or fail to draw one.\<close>

lemma hs_mix_simps [simp]:
  "hs_localIndex (hs_mixHash c d h) = hs_localIndex h" "hs_localIndex (hs_mixKey c d h) = hs_localIndex h"
  "hs_state (hs_mixHash c d h) = hs_state h" "hs_state (hs_mixKey c d h) = hs_state h"
  "hs_remoteIndex (hs_mixHash c d h) = hs_remoteIndex h" "hs_remoteIndex (hs_mixKey c d h) = hs_remoteIndex h"
  by (simp_all add: hs_mixHash_def hs_mixKey_def)

lemma CreateMessageInitiation_effect:
  assumes "CreateMessageInitiation c e p dev = Some (r, dev')"
  shows "(\<exists>hs. dev' = set_handshake p hs dev \<and> hs_localIndex hs = hs_localIndex (handshake (peers dev p))
      \<and> hs_state hs = hs_state (handshake (peers dev p)))
    \<or> (\<exists>i ok tbl hs. NewIndexForHandshake (env_indices e) p
        (IndexTable_Delete (hs_localIndex (handshake (peers dev p))) (indexTable dev)) = Some ((i, ok), tbl)
      \<and> dev' = set_handshake p hs (set_indexTable tbl dev) \<and> (ok \<longrightarrow> hs_localIndex hs = i))"
  using assms unfolding CreateMessageInitiation_def Let_def split_beta
  by (simp split: if_splits option.splits) (blast | force)+

lemma CreateMessageResponse_effect:
  assumes "CreateMessageResponse c e p dev = Some (r, dev')"
  shows "dev' = dev \<or> (\<exists>i ok tbl hs. NewIndexForHandshake (env_indices e) p
        (IndexTable_Delete (hs_localIndex (handshake (peers dev p))) (indexTable dev)) = Some ((i, ok), tbl)
      \<and> dev' = set_handshake p hs (set_indexTable tbl dev) \<and> hs_localIndex hs = i)"
  using assms unfolding CreateMessageResponse_def Let_def split_beta
  by (simp split: if_splits option.splits) (blast | force)+

lemma CreateMessageInitiation_index_inv:
  assumes "index_inv dev" "draws_ok e" "CreateMessageInitiation c e p dev = Some (r, dev')"
  shows "index_inv dev'"
  using CreateMessageInitiation_effect [OF assms(3)]
proof (elim disjE exE conjE)
  fix hs assume "dev' = set_handshake p hs dev" "hs_localIndex hs = hs_localIndex (handshake (peers dev p))"
    "hs_state hs = hs_state (handshake (peers dev p))"
  then show ?thesis using assms(1) by (auto intro: index_inv_set_handshake)
next
  fix i ok tbl hs assume n: "NewIndexForHandshake (env_indices e) p
        (IndexTable_Delete (hs_localIndex (handshake (peers dev p))) (indexTable dev)) = Some ((i, ok), tbl)"
    and d: "dev' = set_handshake p hs (set_indexTable tbl dev)" and l: "ok \<longrightarrow> hs_localIndex hs = i"
  have "ok" by (rule index_inv_assign(2) [OF assms(1) n assms(2), of "hs\<lparr>hs_localIndex := i\<rparr>"]) simp
  with l show ?thesis unfolding d by (intro index_inv_assign(1) [OF assms(1) n assms(2)]) simp
qed

lemma CreateMessageResponse_index_inv:
  assumes "index_inv dev" "draws_ok e" "CreateMessageResponse c e p dev = Some (r, dev')"
  shows "index_inv dev'"
  using CreateMessageResponse_effect [OF assms(3)] index_inv_assign(1) [OF assms(1) _ assms(2)] assms(1) by blast

lemma ConsumeMessageInitiation_index_inv:
  assumes "index_inv dev" "ConsumeMessageInitiation c e msg dev = (r, dev')"
  shows "index_inv dev'"
  using assms unfolding ConsumeMessageInitiation_eq
  by (auto simp: Let_def needs_index_def intro!: index_inv_set_handshake split: option.splits if_splits)

lemma ConsumeMessageResponse_index_inv:
  assumes "index_inv dev" "ConsumeMessageResponse c msg dev = (r, dev')"
  shows "index_inv dev'"
proof -
  have "response_keys c msg hs sk = Some x \<Longrightarrow> needs_index (hs_state hs)" for hs sk x
    by (auto simp: response_keys_def needs_index_def split: if_splits)
  then show ?thesis
    using assms unfolding ConsumeMessageResponse_def
    by (auto simp: Let_def split: option.splits if_splits prod.splits intro!: index_inv_set_handshake)
qed

text \<open>Dropping a key pair from a slot together with its index; the slots that remain are given.\<close>

lemma index_inv_drop_keypair:
  assumes inv: "index_inv dev" and k: "k = None \<or> (\<exists>x. k = Some x \<and> x \<in> slots (keypairs (peers dev p)))"
    and ks: "slots ks = slots (keypairs (peers dev p)) - set_option k" "slots_distinct ks"
  shows "index_inv (set_keypairs p ks (DeleteKeypair k dev))"
proof (cases k)
  case None
  show ?thesis
    by (rule index_inv_cong [OF inv])
       (use None ks inv in \<open>auto simp: DeleteKeypair_def dev_upd_defs dest: index_invD(2) split: if_splits\<close>)
next
  case (Some x)
  then have x: "x \<in> slots (keypairs (peers dev p))" using k by auto
  show ?thesis
    by (rule index_invI [OF idx_drop_keypair [OF index_invD(1) [OF inv] x]])
       (use Some ks inv in \<open>auto simp: DeleteKeypair_def dev_upd_defs IndexTable_Delete_def dest: index_invD(2) split: if_splits\<close>)
qed

lemma ReceivedWithKeypair_index_inv:
  assumes "index_inv dev" "ReceivedWithKeypair p k dev = (r, dev')"
  shows "index_inv dev'"
proof -
  let ?ks = "keypairs (peers dev p)"
  have d: "slots_distinct ?ks" using assms(1) by (rule index_invD(2))
  show ?thesis
  proof (cases "ks_next ?ks = Some k")
    case True
    have "index_inv (set_keypairs p \<lparr>ks_current = ks_next ?ks, ks_previous = ks_current ?ks, ks_next = None\<rparr>
        (DeleteKeypair (ks_previous ?ks) dev))"
      by (rule index_inv_drop_keypair [OF assms(1)])
         (use d True in \<open>auto simp: slots_def slots_distinct_def\<close>)
    then show ?thesis using assms(2) True by (simp add: ReceivedWithKeypair_def Let_def)
  qed (use assms in \<open>auto simp: ReceivedWithKeypair_def Let_def\<close>)
qed

text \<open>\<open>BeginSymmetricSession\<close> in two parts: the swap of the index, then the deletions of rotated key pairs.\<close>

definition del_index :: "(kid \<Rightarrow> u32) \<Rightarrow> kid option \<Rightarrow> IndexTable \<Rightarrow> IndexTable" where
  "del_index X k tbl = (case k of None \<Rightarrow> tbl | Some x \<Rightarrow> tbl(X x := None))"

lemma DeleteKeypair_del_index:
  "indexTable (DeleteKeypair k dev) = del_index (\<lambda>k. kp_localIndex (keypair_heap dev k)) k (indexTable dev)"
  by (simp add: DeleteKeypair_def del_index_def dev_upd_defs IndexTable_Delete_def split: option.splits)

lemma idx_del_index:
  assumes "idx_inv tbl L S K X n" "set_option k \<subseteq> K p"
  shows "idx_inv (del_index X k tbl) L S (K(p := K p - set_option k)) X n"
  using assms idx_drop_keypair [OF assms(1)] by (cases k) (auto simp: del_index_def)

text \<open>The rotation of the slots: the new slots, and the two key pairs whose indices are deleted.\<close>

definition rotate :: "bool \<Rightarrow> kid \<Rightarrow> Keypairs \<Rightarrow> Keypairs \<times> kid option \<times> kid option" where
  "rotate init k ks =
     (if init then
        if ks_next ks \<noteq> None
        then (ks\<lparr>ks_next := None, ks_previous := ks_next ks, ks_current := Some k\<rparr>, ks_current ks, ks_previous ks)
        else (ks\<lparr>ks_previous := ks_current ks, ks_current := Some k\<rparr>, None, ks_previous ks)
      else (ks\<lparr>ks_next := Some k, ks_previous := None\<rparr>, ks_next ks, ks_previous ks))"

lemma BeginSymmetricSession_run:
  assumes st: "needs_index (hs_state (handshake (peers dev p)))"
    "hs_state (handshake (peers dev p)) \<noteq> handshakeInitiationCreated"
    and r: "rotate (hs_state (handshake (peers dev p)) = handshakeResponseConsumed) (next_kid dev)
      (keypairs (peers dev p)) = (ks', d1, d2)"
  shows "\<exists>hs' kp. BeginSymmetricSession c e p dev = (None, set_keypairs p ks' (DeleteKeypair d2 (DeleteKeypair d1
      (set_handshake p hs' (set_indexTable
        (SwapIndexForKeypair (hs_localIndex (handshake (peers dev p))) (next_kid dev) (indexTable dev))
        (dev\<lparr>keypair_heap := (keypair_heap dev)(next_kid dev := kp), next_kid := Suc (next_kid dev)\<rparr>))))))
    \<and> hs_state hs' = handshakeZeroed \<and> hs_localIndex hs' = 0
    \<and> kp_localIndex kp = hs_localIndex (handshake (peers dev p)) \<and> kp_sendNonce kp = 0
    \<and> kp_replayFilter kp = Reset zero_filter"
proof -
  let ?hs = "handshake (peers dev p)" and ?ks = "keypairs (peers dev p)"
  define init where "init = (hs_state ?hs = handshakeResponseConsumed)"
  have st': "hs_state ?hs = handshakeResponseCreated" if "\<not> init"
    using st that by (auto simp: needs_index_def init_def)
  define hs' where "hs' = ?hs\<lparr>hs_chainKey := setZero (hs_chainKey ?hs), hs_hash := setZero (hs_hash ?hs),
      hs_localEphemeral := setZero (hs_localEphemeral ?hs), hs_state := handshakeZeroed, hs_localIndex := 0\<rparr>"
  define kk where "kk = KDF2 c (hs_chainKey ?hs) []"
  define kp where "kp = \<lparr>kp_sendNonce = 0, kp_send = (if init then fst kk else snd kk),
      kp_receive = (if init then snd kk else fst kk), kp_replayFilter = Reset zero_filter, kp_isInitiator = init,
      kp_created = env_now e, kp_localIndex = hs_localIndex ?hs, kp_remoteIndex = hs_remoteIndex ?hs\<rparr>"
  define dev1 where "dev1 = set_handshake p hs' (set_indexTable
      (SwapIndexForKeypair (hs_localIndex ?hs) (next_kid dev) (indexTable dev))
      (dev\<lparr>keypair_heap := (keypair_heap dev)(next_kid dev := kp), next_kid := Suc (next_kid dev)\<rparr>))"
  have run: "BeginSymmetricSession c e p dev
      = (None, set_keypairs p ks' (DeleteKeypair d2 (DeleteKeypair d1 dev1)))"
  proof (cases init)
    case True
    then have "hs_state ?hs = handshakeResponseConsumed" by (simp add: init_def)
    then show ?thesis
      using r True unfolding BeginSymmetricSession_def rotate_def dev1_def kp_def hs'_def kk_def Let_def split_beta
      by (cases "ks_next ?ks") (auto simp: set_handshake_def upd_peer_def set_indexTable_def DeleteKeypair_def)
  next
    case False
    then show ?thesis
      using r st' [OF False] unfolding BeginSymmetricSession_def rotate_def dev1_def kp_def hs'_def kk_def Let_def split_beta
      by (auto simp: set_handshake_def upd_peer_def set_indexTable_def)
  qed
  show ?thesis
    unfolding run dev1_def
    by (intro exI [of _ hs'] exI [of _ kp] conjI; (rule refl)?) (simp_all add: hs'_def kp_def)
qed

lemma BeginSymmetricSession_effect:
  assumes st: "needs_index (hs_state (handshake (peers dev p)))"
    "hs_state (handshake (peers dev p)) \<noteq> handshakeInitiationCreated"
    and r: "rotate (hs_state (handshake (peers dev p)) = handshakeResponseConsumed) (next_kid dev)
      (keypairs (peers dev p)) = (ks', d1, d2)"
  shows "\<exists>dev' hs' kp. BeginSymmetricSession c e p dev = (None, dev')
    \<and> hs_state hs' = handshakeZeroed \<and> hs_localIndex hs' = 0
    \<and> kp_localIndex kp = hs_localIndex (handshake (peers dev p))
    \<and> peers dev' = (peers dev)(p := (peers dev p)\<lparr>handshake := hs', keypairs := ks'\<rparr>)
    \<and> keypair_heap dev' = (keypair_heap dev)(next_kid dev := kp) \<and> next_kid dev' = Suc (next_kid dev)
    \<and> indexTable dev' = del_index (\<lambda>k. kp_localIndex (keypair_heap dev' k)) d2
      (del_index (\<lambda>k. kp_localIndex (keypair_heap dev' k)) d1
        (SwapIndexForKeypair (hs_localIndex (handshake (peers dev p))) (next_kid dev) (indexTable dev)))"
proof -
  obtain hs' kp dev1 where run: "BeginSymmetricSession c e p dev = (None, set_keypairs p ks' (DeleteKeypair d2 (DeleteKeypair d1 dev1)))"
    and d: "dev1 = set_handshake p hs' (set_indexTable
        (SwapIndexForKeypair (hs_localIndex (handshake (peers dev p))) (next_kid dev) (indexTable dev))
        (dev\<lparr>keypair_heap := (keypair_heap dev)(next_kid dev := kp), next_kid := Suc (next_kid dev)\<rparr>))"
    and h: "hs_state hs' = handshakeZeroed" "hs_localIndex hs' = 0" "kp_localIndex kp = hs_localIndex (handshake (peers dev p))"
    using BeginSymmetricSession_run [OF assms, of c e] by blast
  show ?thesis
    unfolding run
    by (intro exI [of _ hs'] exI [of _ kp] exI conjI; (rule refl)?)
       (simp_all add: h d DeleteKeypair_del_index set_keypairs_def set_handshake_def
        upd_peer_def set_indexTable_def)
qed

text \<open>The key pairs an index table refers to.\<close>

definition table_kids :: "IndexTable \<Rightarrow> kid set" where
  "table_kids tbl = {k. \<exists>i x. tbl i = Some x \<and> ie_keypair x = Some k}"

lemma table_kids_delete: "table_kids (IndexTable_Delete i tbl) \<subseteq> table_kids tbl"
  by (auto simp: table_kids_def IndexTable_Delete_def split: if_splits)

lemma table_kids_DeleteKeypair: "table_kids (indexTable (DeleteKeypair k dev)) \<subseteq> table_kids (indexTable dev)"
  using table_kids_delete by (auto simp: DeleteKeypair_def set_indexTable_def split: option.splits)

lemma table_kids_swap: "table_kids (SwapIndexForKeypair i k tbl) \<subseteq> insert k (table_kids tbl)"
  by (auto simp: table_kids_def SwapIndexForKeypair_def split: option.splits if_splits)

lemma table_kids_new: "NewIndexForHandshake ds p tbl = Some (r, tbl') \<Longrightarrow> table_kids tbl' \<subseteq> table_kids tbl"
  by (induction ds p tbl rule: NewIndexForHandshake.induct) (auto simp: table_kids_def split: if_splits, blast)

text \<open>All that \<open>BeginSymmetricSession\<close> changes, for the frame arguments on the rest of the device.\<close>

lemma DeleteKeypair_frame: "DeleteKeypair k dev = dev\<lparr>indexTable := indexTable (DeleteKeypair k dev)\<rparr>"
  by (simp add: DeleteKeypair_def set_indexTable_def split: option.splits)

lemma BeginSymmetricSession_frame:
  "snd (BeginSymmetricSession c e p dev) = dev
   \<or> (\<exists>tbl kp hs ks. snd (BeginSymmetricSession c e p dev) = dev\<lparr>keypair_heap := (keypair_heap dev)(next_kid dev := kp),
       next_kid := Suc (next_kid dev), indexTable := tbl, peers := (peers dev)(p := (peers dev p)\<lparr>handshake := hs, keypairs := ks\<rparr>)\<rparr>
     \<and> slots ks \<subseteq> insert (next_kid dev) (slots (keypairs (peers dev p))) \<and> kp_sendNonce kp = 0
     \<and> kp_replayFilter kp = Reset zero_filter
     \<and> table_kids tbl \<subseteq> insert (next_kid dev) (table_kids (indexTable dev)))"
proof (cases "needs_index (hs_state (handshake (peers dev p)))
    \<and> hs_state (handshake (peers dev p)) \<noteq> handshakeInitiationCreated")
  case False
  then show ?thesis by (auto simp: BeginSymmetricSession_def Let_def needs_index_def)
next
  case True
  let ?r = "rotate (hs_state (handshake (peers dev p)) = handshakeResponseConsumed) (next_kid dev) (keypairs (peers dev p))"
  obtain ks' d1 d2 where r: "?r = (ks', d1, d2)" by (cases ?r) auto
  have "slots ks' \<subseteq> insert (next_kid dev) (slots (keypairs (peers dev p)))"
    using r by (auto simp: rotate_def slots_def split: if_splits)
  moreover obtain hs' kp dev1 where run: "BeginSymmetricSession c e p dev = (None, set_keypairs p ks' (DeleteKeypair d2 (DeleteKeypair d1 dev1)))"
    and d: "dev1 = set_handshake p hs' (set_indexTable
        (SwapIndexForKeypair (hs_localIndex (handshake (peers dev p))) (next_kid dev) (indexTable dev))
        (dev\<lparr>keypair_heap := (keypair_heap dev)(next_kid dev := kp), next_kid := Suc (next_kid dev)\<rparr>))"
    and h: "kp_sendNonce kp = 0" "kp_replayFilter kp = Reset zero_filter"
    using BeginSymmetricSession_run [OF conjunct1 [OF True] conjunct2 [OF True] r, of c e] by blast
  moreover have "snd (BeginSymmetricSession c e p dev) = dev\<lparr>keypair_heap := (keypair_heap dev)(next_kid dev := kp),
       next_kid := Suc (next_kid dev), indexTable := indexTable (DeleteKeypair d2 (DeleteKeypair d1 dev1)),
       peers := (peers dev)(p := (peers dev p)\<lparr>handshake := hs', keypairs := ks'\<rparr>)\<rparr>"
    unfolding run snd_conv
    by (subst DeleteKeypair_frame, subst DeleteKeypair_frame)
       (simp add: d set_keypairs_def set_handshake_def upd_peer_def set_indexTable_def)
  moreover have "table_kids (indexTable (DeleteKeypair d2 (DeleteKeypair d1 dev1)))
      \<subseteq> insert (next_kid dev) (table_kids (indexTable dev))"
    using table_kids_DeleteKeypair [of d2 "DeleteKeypair d1 dev1"] table_kids_DeleteKeypair [of d1 dev1]
      table_kids_swap [of "hs_localIndex (handshake (peers dev p))" "next_kid dev" "indexTable dev"]
    unfolding d by (simp add: dev_upd_defs)
  ultimately show ?thesis by blast
qed

lemma rotate_slots:
  assumes "rotate init k ks = (ks', d1, d2)" "slots_distinct ks" "k \<notin> slots ks"
  shows "slots ks' = insert k (slots ks) - set_option d1 - set_option d2" and "slots_distinct ks'"
    and "set_option d1 \<subseteq> slots ks" and "set_option d2 \<subseteq> slots ks - set_option d1"
  using assms by (auto simp: rotate_def slots_def slots_distinct_def split: if_splits)

lemma BeginSymmetricSession_index_inv:
  assumes inv: "index_inv dev" and b: "BeginSymmetricSession c e p dev = (r, dev')"
  shows "index_inv dev'"
proof (cases "needs_index (hs_state (handshake (peers dev p)))
    \<and> hs_state (handshake (peers dev p)) \<noteq> handshakeInitiationCreated")
  case False
  then have "dev' = dev" using b by (auto simp: BeginSymmetricSession_def Let_def needs_index_def split: if_splits)
  with inv show ?thesis by simp
next
  case True
  let ?hs = "handshake (peers dev p)" and ?ks = "keypairs (peers dev p)" and ?n = "next_kid dev"
  obtain ks' d1 d2 where r: "rotate (hs_state ?hs = handshakeResponseConsumed) ?n ?ks = (ks', d1, d2)"
    by (cases "rotate (hs_state ?hs = handshakeResponseConsumed) ?n ?ks") auto
  obtain hs' kp where e: "hs_state hs' = handshakeZeroed" "hs_localIndex hs' = 0"
    "kp_localIndex kp = hs_localIndex ?hs"
    "peers dev' = (peers dev)(p := (peers dev p)\<lparr>handshake := hs', keypairs := ks'\<rparr>)"
    "keypair_heap dev' = (keypair_heap dev)(?n := kp)" "next_kid dev' = Suc ?n"
    "indexTable dev' = del_index (\<lambda>k. kp_localIndex (keypair_heap dev' k)) d2
      (del_index (\<lambda>k. kp_localIndex (keypair_heap dev' k)) d1
        (SwapIndexForKeypair (hs_localIndex ?hs) ?n (indexTable dev)))"
    using BeginSymmetricSession_effect [OF conjunct1 [OF True] conjunct2 [OF True] r, of c e] b by auto
  note i = index_invD [OF inv]
  have L: "hs_localIndex ?hs \<noteq> 0" using idx_invD(4) [OF i(1), of p] True by simp
  have fresh: "?n \<notin> slots (keypairs (peers dev q))" for q
    using idx_invD(5) [OF i(1), of ?n q] by auto
  note rs = rotate_slots [OF r i(2) fresh]
  have X: "(\<lambda>k. kp_localIndex (keypair_heap dev' k))
      = (\<lambda>k. kp_localIndex (keypair_heap dev k))(?n := hs_localIndex ?hs)"
    using e(3,5) by auto
  have swap: "SwapIndexForKeypair (hs_localIndex ?hs) ?n (indexTable dev)
      = (indexTable dev)(hs_localIndex ?hs \<mapsto> kp_entry p ?n)"
    using idx_invD(3) [OF i(1) L] by (simp add: SwapIndexForKeypair_def hs_entry_def kp_entry_def)
  note s1 = idx_session [OF i(1) L, folded X swap]
  note s2 = idx_del_index [OF idx_del_index [OF s1, of d1 p], of d2 p]
  show ?thesis
    by (rule index_invI [OF s2])
       (use e rs i(2) fresh in \<open>auto simp: needs_index_def split: if_splits\<close>)
qed

section \<open>The interface and the properties\<close>

datatype session_op =
    OpCreateInitiation env pid
  | OpConsumeInitiation env MessageInitiation
  | OpCreateResponse env pid
  | OpConsumeResponse MessageResponse
  | OpBeginSession env pid
  | OpReceivedWith pid kid

definition session_step :: "crypto \<Rightarrow> session_op \<Rightarrow> Device \<Rightarrow> Device option" where
  "session_step c r dev =
     (case r of
        OpCreateInitiation e p \<Rightarrow> map_option snd (CreateMessageInitiation c e p dev)
      | OpConsumeInitiation e m \<Rightarrow> Some (snd (ConsumeMessageInitiation c e m dev))
      | OpCreateResponse e p \<Rightarrow> map_option snd (CreateMessageResponse c e p dev)
      | OpConsumeResponse m \<Rightarrow> Some (snd (ConsumeMessageResponse c m dev))
      | OpBeginSession e p \<Rightarrow> Some (snd (BeginSymmetricSession c e p dev))
      | OpReceivedWith p k \<Rightarrow> Some (snd (ReceivedWithKeypair p k dev)))"

fun session_op_ok :: "session_op \<Rightarrow> bool" where
  "session_op_ok (OpCreateInitiation e p) = draws_ok e"
| "session_op_ok (OpCreateResponse e p) = draws_ok e"
| "session_op_ok _ = True"

text \<open>What the packet paths rely on: a step keeps the invariant, and an index in a state that
  satisfies it names at most one live session, of the peer recorded with it.\<close>

locale index_steps =
  fixes step :: "'r \<Rightarrow> Device \<Rightarrow> Device option" and ok :: "'r \<Rightarrow> bool"
  assumes step_inv: "index_inv dev \<Longrightarrow> ok r \<Longrightarrow> step r dev = Some dev' \<Longrightarrow> index_inv dev'"
begin

lemma run_inv: "index_inv dev \<Longrightarrow> list_all ok rs \<Longrightarrow> run_ops step rs dev = Some dev' \<Longrightarrow> index_inv dev'"
proof (induction rs arbitrary: dev)
  case (Cons r rs)
  then obtain d where "step r dev = Some d" "run_ops step rs d = Some dev'"
    by (auto simp: bind_eq_Some_conv)
  then show ?case using Cons step_inv by fastforce
qed simp

lemma keypair_of_index:
  assumes "index_inv dev" "list_all ok rs" "run_ops step rs dev = Some dev'"
    and "indexTable dev' i = Some x" "ie_keypair x = Some k"
  shows "k \<in> slots (keypairs (peers dev' (ie_peer x))) \<and> kp_localIndex (keypair_heap dev' k) = i
    \<and> (\<forall>q. k \<in> slots (keypairs (peers dev' q)) \<longrightarrow> q = ie_peer x)"
proof -
  note d = idx_invD [OF index_invD(1) [OF run_inv [OF assms(1-3)]]]
  obtain p where p: "x = kp_entry p k" "k \<in> slots (keypairs (peers dev' p))" "kp_localIndex (keypair_heap dev' k) = i"
    using d(2) [OF assms(4)]
  proof (elim disjE exE conjE)
    fix p assume "x = hs_entry p"
    then show thesis using assms(5) by (simp add: hs_entry_def)
  next
    fix p l assume "x = kp_entry p l" "l \<in> slots (keypairs (peers dev' p))" "kp_localIndex (keypair_heap dev' l) = i"
    then show thesis using assms(5) that [of p] by (simp add: kp_entry_def)
  qed
  have "q = p" if "k \<in> slots (keypairs (peers dev' q))" for q
    using d(5) [OF that] d(5) [OF p(2)] by simp
  moreover have "ie_peer x = p" by (simp add: p(1) kp_entry_def)
  ultimately show ?thesis using p(2,3) by blast
qed

lemma index_of_keypair:
  assumes "index_inv dev" "list_all ok rs" "run_ops step rs dev = Some dev'"
    and "k \<in> slots (keypairs (peers dev' p))"
  shows "indexTable dev' (kp_localIndex (keypair_heap dev' k)) = Some (kp_entry p k)"
  using idx_invD(5) [OF index_invD(1) [OF run_inv [OF assms(1-3)]] assms(4)] by simp

end

interpretation session_steps: index_steps "session_step c" session_op_ok for c
proof unfold_locales
  fix dev dev' r assume "index_inv dev" "session_op_ok r" "session_step c r dev = Some dev'"
  then show "index_inv dev'"
    by (cases r)
       (auto simp: session_step_def intro: CreateMessageInitiation_index_inv CreateMessageResponse_index_inv
         ConsumeMessageInitiation_index_inv [OF _ prod.collapse [symmetric]]
         ConsumeMessageResponse_index_inv [OF _ prod.collapse [symmetric]]
         BeginSymmetricSession_index_inv [OF _ prod.collapse [symmetric]]
         ReceivedWithKeypair_index_inv [OF _ prod.collapse [symmetric]])
qed

lemma zero_Device_index_inv: "index_inv zero_Device"
  by (simp add: index_inv_def idx_inv_def zero_Device_def IndexTable_Init_def zero_Peer_def zero_Handshake_def
      zero_Keypairs_def slots_def slots_distinct_def needs_index_def)


definition example_session_ops :: "session_op list" where
  "example_session_ops = [OpCreateInitiation (example_env (unixToInternal * second) 24 7) 0,
     OpConsumeResponse example_response, OpReceivedWith 0 3]"

lemma example_device_index_inv: "index_inv (example_device sk sk')"
  by (rule index_inv_cong [OF zero_Device_index_inv])
     (simp_all add: example_device_def Let_def zero_Device_def zero_Peer_def zero_Handshake_def
       slots_distinct_def zero_Keypairs_def)


text \<open>C12. The index \<open>0\<close> is both a possible draw of \<open>randUint32\<close> and the value of \<open>localIndex\<close> in a
  handshake that has none. So when a peer without a handshake creates an initiation, whatever session
  or handshake of another peer had drawn index \<open>0\<close> becomes unreachable.\<close>

theorem zero_index_dropped:
  assumes "CreateMessageInitiation c e q dev = Some (Inr msg, dev')"
    and "hs_localIndex (handshake (peers dev q)) = 0" and "mi_Sender msg \<noteq> 0"
  shows "indexTable dev' 0 = None"
proof -
  obtain i tbl hs where n: "NewIndexForHandshake (env_indices e) q
      (IndexTable_Delete 0 (indexTable dev)) = Some ((i, True), tbl)" "mi_Sender msg = i"
    "dev' = set_handshake q hs (set_indexTable tbl dev)"
    using assms(1,2) unfolding CreateMessageInitiation_def Let_def split_beta
    by (simp split: if_splits option.splits) force
  from NewIndexForHandshake_ok [OF n(1)] n assms(3) show ?thesis
    by (simp add: dev_upd_defs IndexTable_Delete_def)
qed

lemma Inr_result:
  "\<not> Option.is_none r \<Longrightarrow> \<not> isl (fst (the r)) \<Longrightarrow> r = Some (Inr (projr (fst (the r))), snd (the r))"
  by (cases r) (auto simp: Option.is_none_def)

theorem zero_index_dropped_witness:
  "\<exists>msg0 dev0 msg1 dev1. CreateMessageInitiation toy_crypto (example_env (unixToInternal * second) 24 0) 0
      (example_device (example_sk 8) (example_sk 16)) = Some (Inr msg0, dev0)
    \<and> indexTable dev0 0 = Some (hs_entry 0)
    \<and> CreateMessageInitiation toy_crypto (example_env (unixToInternal * second) 32 9) 1 dev0 = Some (Inr msg1, dev1)
    \<and> indexTable dev1 0 = None"
proof -
  let ?r0 = "CreateMessageInitiation toy_crypto (example_env (unixToInternal * second) 24 0) 0
      (example_device (example_sk 8) (example_sk 16))"
  let ?dev0 = "snd (the ?r0)"
  let ?r1 = "CreateMessageInitiation toy_crypto (example_env (unixToInternal * second) 32 9) 1 ?dev0"
  have a: "\<not> Option.is_none ?r0" "\<not> isl (fst (the ?r0))" "indexTable ?dev0 0 = Some (hs_entry 0)"
    "hs_localIndex (handshake (peers ?dev0 1)) = 0"
    by code_simp+
  have b: "\<not> Option.is_none ?r1" "\<not> isl (fst (the ?r1))" "mi_Sender (projr (fst (the ?r1))) = 9"
    by code_simp+
  note r = Inr_result [OF a(1,2)] Inr_result [OF b(1,2)]
  have "mi_Sender (projr (fst (the ?r1))) \<noteq> 0" unfolding b(3) by simp
  from zero_index_dropped [OF r(2) a(4) this] r a(3) show ?thesis by blast
qed

end
