(* ===== verification/Timers.thy ===== *)
theory Timers
  imports Noise
begin

text \<open>
  Timers, \<^verbatim>\<open>src/device/timers.go\<close>. A \<open>Timer\<close> is its \<open>isPending\<close> flag and the time its \<open>time.Timer\<close>
  is armed for. The events \<open>timersDataSent\<close> and so on are definitions on the device; the functions
  a timer runs when it expires send packets and are defined with the sending path.
\<close>

definition millisecond :: duration where
  "millisecond = 1000000"

section \<open>One timer\<close>

definition NewTimer :: Timer where
  "NewTimer = \<lparr>tm_isPending = False, tm_when = None\<rparr>"

definition Timer_Mod :: "gotime \<Rightarrow> duration \<Rightarrow> Timer \<Rightarrow> Timer" where
  "Timer_Mod now d t = t\<lparr>tm_isPending := True, tm_when := Some (now + d)\<rparr>"

definition Timer_Del :: "Timer \<Rightarrow> Timer" where
  "Timer_Del t = t\<lparr>tm_isPending := False, tm_when := None\<rparr>"

definition Timer_DelSync :: "Timer \<Rightarrow> Timer" where
  "Timer_DelSync t = Timer_Del (Timer_Del t)"

definition Timer_IsPending :: "Timer \<Rightarrow> bool" where
  "Timer_IsPending t = tm_isPending t"

text \<open>The function given to \<open>time.AfterFunc\<close>, up to the call of the expiration function: the result
  says whether that call is made. \<open>Timer_due\<close>: the runtime runs it once the time has come.\<close>

definition Timer_due :: "gotime \<Rightarrow> Timer \<Rightarrow> bool" where
  "Timer_due now t \<longleftrightarrow> (case tm_when t of None \<Rightarrow> False | Some w \<Rightarrow> w \<le> now)"

definition Timer_fire :: "Timer \<Rightarrow> bool \<times> Timer" where
  "Timer_fire t =
     (let t = t\<lparr>tm_when := None\<rparr>
      in if \<not> tm_isPending t then (False, t) else (True, t\<lparr>tm_isPending := False\<rparr>))"

section \<open>The events\<close>

definition timersActive :: "pid \<Rightarrow> Device \<Rightarrow> bool" where
  "timersActive p dev \<longleftrightarrow> isRunning (peers dev p) \<and> deviceState_isUp dev"

definition timersDataSent :: "env \<Rightarrow> pid \<Rightarrow> Device \<Rightarrow> Device" where
  "timersDataSent e p dev =
     (if timersActive p dev \<and> \<not> Timer_IsPending (newHandshake (timers (peers dev p)))
      then upd_timers p (newHandshake_update
        (Timer_Mod (env_now e) (KeepaliveTimeout + RekeyTimeout + millisecond * env_jitter e))) dev
      else dev)"

definition timersDataReceived :: "env \<Rightarrow> pid \<Rightarrow> Device \<Rightarrow> Device" where
  "timersDataReceived e p dev =
     (if timersActive p dev then
        if \<not> Timer_IsPending (sendKeepalive (timers (peers dev p)))
        then upd_timers p (sendKeepalive_update (Timer_Mod (env_now e) KeepaliveTimeout)) dev
        else upd_timers p (\<lambda>t. t\<lparr>needAnotherKeepalive := True\<rparr>) dev
      else dev)"

definition timersAnyAuthenticatedPacketSent :: "pid \<Rightarrow> Device \<Rightarrow> Device" where
  "timersAnyAuthenticatedPacketSent p dev =
     (if timersActive p dev then upd_timers p (sendKeepalive_update Timer_Del) dev else dev)"

definition timersAnyAuthenticatedPacketReceived :: "pid \<Rightarrow> Device \<Rightarrow> Device" where
  "timersAnyAuthenticatedPacketReceived p dev =
     (if timersActive p dev then upd_timers p (newHandshake_update Timer_Del) dev else dev)"

definition timersHandshakeInitiated :: "env \<Rightarrow> pid \<Rightarrow> Device \<Rightarrow> Device" where
  "timersHandshakeInitiated e p dev =
     (if timersActive p dev
      then upd_timers p (retransmitHandshake_update
        (Timer_Mod (env_now e) (RekeyTimeout + millisecond * env_jitter e))) dev
      else dev)"

definition timersHandshakeComplete :: "env \<Rightarrow> pid \<Rightarrow> Device \<Rightarrow> Device" where
  "timersHandshakeComplete e p dev =
     (let dev = (if timersActive p dev then upd_timers p (retransmitHandshake_update Timer_Del) dev else dev);
          dev = upd_timers p (\<lambda>t. t\<lparr>handshakeAttempts := 0, sentLastMinuteHandshake := False\<rparr>) dev
      in upd_peer p (\<lambda>q. q\<lparr>lastHandshakeNano := UnixNano (env_now e)\<rparr>) dev)"

definition timersSessionDerived :: "env \<Rightarrow> pid \<Rightarrow> Device \<Rightarrow> Device" where
  "timersSessionDerived e p dev =
     (if timersActive p dev
      then upd_timers p (zeroKeyMaterial_update (Timer_Mod (env_now e) (RejectAfterTime * 3))) dev
      else dev)"

definition timersAnyAuthenticatedPacketTraversal :: "env \<Rightarrow> pid \<Rightarrow> Device \<Rightarrow> Device" where
  "timersAnyAuthenticatedPacketTraversal e p dev =
     (let keepalive = persistentKeepaliveInterval (peers dev p)
      in if keepalive > 0 \<and> timersActive p dev
         then upd_timers p (persistentKeepalive_update
           (Timer_Mod (env_now e) (int (unat keepalive) * second))) dev
         else dev)"

definition timersInit :: "pid \<Rightarrow> Device \<Rightarrow> Device" where
  "timersInit p dev = upd_timers p (\<lambda>t. t\<lparr>retransmitHandshake := NewTimer, sendKeepalive := NewTimer,
     newHandshake := NewTimer, zeroKeyMaterial := NewTimer, persistentKeepalive := NewTimer\<rparr>) dev"

definition timersStart :: "pid \<Rightarrow> Device \<Rightarrow> Device" where
  "timersStart p dev = upd_timers p (\<lambda>t. t\<lparr>handshakeAttempts := 0, sentLastMinuteHandshake := False,
     needAnotherKeepalive := False\<rparr>) dev"

definition timersStop :: "pid \<Rightarrow> Device \<Rightarrow> Device" where
  "timersStop p dev = upd_timers p (\<lambda>t. t\<lparr>
     retransmitHandshake := Timer_DelSync (retransmitHandshake t),
     sendKeepalive := Timer_DelSync (sendKeepalive t),
     newHandshake := Timer_DelSync (newHandshake t),
     zeroKeyMaterial := Timer_DelSync (zeroKeyMaterial t),
     persistentKeepalive := Timer_DelSync (persistentKeepalive t)\<rparr>) dev"

lemmas timer_defs = Timer_Mod_def Timer_Del_def Timer_DelSync_def Timer_IsPending_def Timer_due_def
  Timer_fire_def NewTimer_def

lemmas timers_event_defs = timersDataSent_def timersDataReceived_def timersAnyAuthenticatedPacketSent_def
  timersAnyAuthenticatedPacketReceived_def timersHandshakeInitiated_def timersHandshakeComplete_def
  timersSessionDerived_def timersAnyAuthenticatedPacketTraversal_def timersInit_def timersStart_def
  timersStop_def

section \<open>What timer events leave alone\<close>

text \<open>Timer events touch the timers of one peer and its time of last handshake, nothing else; \<open>same_core\<close>
  is the relation between the states before and after.\<close>

definition peer_core :: "Peer \<Rightarrow> Peer" where
  "peer_core q = q\<lparr>timers := zero_Timers, lastHandshakeNano := 0\<rparr>"

definition same_core :: "Device \<Rightarrow> Device \<Rightarrow> bool" where
  "same_core dev dev' \<longleftrightarrow> dev\<lparr>peers := \<lambda>_. zero_Peer\<rparr> = dev'\<lparr>peers := \<lambda>_. zero_Peer\<rparr>
     \<and> (\<forall>p. peer_core (peers dev p) = peer_core (peers dev' p))"

lemma same_core_refl [simp]: "same_core dev dev"
  by (simp add: same_core_def)

lemma same_core_trans: "same_core a b \<Longrightarrow> same_core b d \<Longrightarrow> same_core a d"
  by (simp add: same_core_def)

lemma same_core_upd:
  "(\<And>q. peer_core (f q) = peer_core q) \<Longrightarrow> same_core dev (upd_peer p f dev)"
  by (simp add: same_core_def upd_peer_def)

lemma same_core_upd_timers: "same_core dev (upd_timers p f dev)"
  unfolding upd_timers_def by (rule same_core_upd) (simp add: peer_core_def)

lemma peer_core_fields:
  assumes "peer_core a = peer_core b"
  shows "isRunning a = isRunning b" "keypairs a = keypairs b" "handshake a = handshake b"
    "txBytes a = txBytes b" "rxBytes a = rxBytes b" "endpoint_val a = endpoint_val b"
    "q_staged a = q_staged b" "q_outbound a = q_outbound b" "q_inbound a = q_inbound b"
    "cookieGenerator a = cookieGenerator b" "persistentKeepaliveInterval a = persistentKeepaliveInterval b"
  using arg_cong [OF assms, of isRunning] arg_cong [OF assms, of keypairs] arg_cong [OF assms, of handshake]
    arg_cong [OF assms, of txBytes] arg_cong [OF assms, of rxBytes] arg_cong [OF assms, of endpoint_val]
    arg_cong [OF assms, of q_staged] arg_cong [OF assms, of q_outbound] arg_cong [OF assms, of q_inbound]
    arg_cong [OF assms, of cookieGenerator] arg_cong [OF assms, of persistentKeepaliveInterval]
  by (simp_all add: peer_core_def)

lemma timer_events_core:
  "same_core dev (timersDataSent e p dev)" "same_core dev (timersDataReceived e p dev)"
  "same_core dev (timersAnyAuthenticatedPacketSent p dev)"
  "same_core dev (timersAnyAuthenticatedPacketReceived p dev)" "same_core dev (timersHandshakeInitiated e p dev)"
  "same_core dev (timersSessionDerived e p dev)" "same_core dev (timersAnyAuthenticatedPacketTraversal e p dev)"
  "same_core dev (timersStart p dev)" "same_core dev (timersStop p dev)"
  by (auto simp: timers_event_defs Let_def intro: same_core_upd_timers)

lemma timersHandshakeComplete_core: "same_core dev (timersHandshakeComplete e p dev)"
  unfolding timersHandshakeComplete_def Let_def
  by (auto intro!: same_core_trans [OF same_core_upd_timers same_core_upd]
      same_core_trans [OF same_core_upd_timers same_core_trans [OF same_core_upd_timers same_core_upd]]
      simp: peer_core_def)

end
