(* ===== verification/Send.thy ===== *)
theory Send
  imports Timers "HOL-Library.AList"
begin

text \<open>
  The outbound path, \<^verbatim>\<open>src/device/send.go\<close>, with \<open>SendBuffers\<close> and the endpoint functions of
  \<^verbatim>\<open>src/device/peer.go\<close>, the expiration functions of \<^verbatim>\<open>src/device/timers.go\<close> and
  \<open>keepKeyFreshReceiving\<close>. The goroutines are modelled by one iteration of their loop:
  \<open>RoutineReadFromTUN_step\<close>, \<open>RoutineEncryption_step\<close>, \<open>RoutineSequentialSender_step\<close>. A container
  is in the peer's outbound queue and in the encryption queue at once; the sequential sender takes
  it only when the encryption worker has unlocked it. \<open>None\<close> is a panic, or an unfinished search for
  a free index.
\<close>

section \<open>Endpoints and sending\<close>

datatype send_error = errNoEndpoint | errBindSend | errGSODisabled bool | errNoise noise_error

definition delivered :: "env \<Rightarrow> bool" where
  "delivered e \<longleftrightarrow> env_send e = SendOk \<or> env_send e = SendGSODisabled True"

definition markEndpointSrcForClearing :: "pid \<Rightarrow> Device \<Rightarrow> Device" where
  "markEndpointSrcForClearing p dev =
     (if endpoint_val (peers dev p) = None then dev
      else upd_peer p (\<lambda>q. q\<lparr>endpoint_clearSrcOnTx := True\<rparr>) dev)"

definition SetEndpointFromPacket :: "pid \<Rightarrow> Endpoint \<Rightarrow> Device \<Rightarrow> Device" where
  "SetEndpointFromPacket p ep dev =
     (if endpoint_disableRoaming (peers dev p) then dev
      else upd_peer p (\<lambda>q. q\<lparr>endpoint_clearSrcOnTx := False, endpoint_val := Some ep\<rparr>) dev)"

definition SendBuffers :: "env \<Rightarrow> pid \<Rightarrow> bytes list \<Rightarrow> Device \<Rightarrow> send_error option \<times> Device" where
  "SendBuffers e p buffers dev =
     (if deviceState_isClosed dev then (None, dev)
      else case endpoint_val (peers dev p) of
        None \<Rightarrow> (Some errNoEndpoint, dev)
      | Some endpoint \<Rightarrow>
          let clear = endpoint_clearSrcOnTx (peers dev p);
              endpoint = (if clear then ClearSrc endpoint else endpoint);
              dev = (if clear then upd_peer p (\<lambda>q. q\<lparr>endpoint_val := Some endpoint,
                endpoint_clearSrcOnTx := False\<rparr>) dev else dev)
          in let dev = (if delivered e then dev\<lparr>udp_out := udp_out dev @ map (Pair endpoint) buffers\<rparr> else dev)
          in case env_send e of
               SendOk \<Rightarrow>
                 (None, upd_peer p (\<lambda>q. q\<lparr>txBytes := txBytes q + (\<Sum>b\<leftarrow>buffers. of_nat (length b))\<rparr>) dev)
             | SendFails \<Rightarrow> (Some errBindSend, dev)
             | SendGSODisabled retry_ok \<Rightarrow> (Some (errGSODisabled retry_ok), dev))"

section \<open>Handshake messages\<close>

definition SendHandshakeInitiation ::
  "crypto \<Rightarrow> env \<Rightarrow> bool \<Rightarrow> pid \<Rightarrow> Device \<Rightarrow> (send_error option \<times> Device) option" where
  "SendHandshakeInitiation c e isRetry p dev =
     (let dev = (if \<not> isRetry then upd_timers p (\<lambda>t. t\<lparr>handshakeAttempts := 0\<rparr>) dev else dev);
          hs = handshake (peers dev p)
      in if Sub (env_now e) (hs_lastSentHandshake hs) < RekeyTimeout then Some (None, dev)
         else
           let dev = set_handshake p (hs\<lparr>hs_lastSentHandshake := env_now e\<rparr>) dev
           in do {
             (r, dev) \<leftarrow> CreateMessageInitiation c e p dev;
             case r of
               Inl err \<Rightarrow> Some (Some (errNoise err), dev)
             | Inr msg \<Rightarrow>
                 case marshal_initiation msg (replicate MessageInitiationSize 0) of
                   Inl _ \<Rightarrow> None
                 | Inr packet \<Rightarrow> do {
                     (packet, gen) \<leftarrow> AddMacs c (env_now e) (cookieGenerator (peers dev p)) packet;
                     let dev = upd_peer p (\<lambda>q. q\<lparr>cookieGenerator := gen\<rparr>) dev;
                     let dev = timersAnyAuthenticatedPacketTraversal e p dev;
                     let dev = timersAnyAuthenticatedPacketSent p dev;
                     let (err, dev) = SendBuffers e p [packet] dev;
                     Some (err, timersHandshakeInitiated e p dev)
                   }
           })"

definition SendHandshakeResponse ::
  "crypto \<Rightarrow> env \<Rightarrow> pid \<Rightarrow> Device \<Rightarrow> (send_error option \<times> Device) option" where
  "SendHandshakeResponse c e p dev =
     (let hs = handshake (peers dev p);
          dev = set_handshake p (hs\<lparr>hs_lastSentHandshake := env_now e\<rparr>) dev
      in do {
        (r, dev) \<leftarrow> CreateMessageResponse c e p dev;
        case r of
          Inl err \<Rightarrow> Some (Some (errNoise err), dev)
        | Inr response \<Rightarrow>
            case marshal_response response (replicate MessageResponseSize 0) of
              Inl _ \<Rightarrow> None
            | Inr packet \<Rightarrow> do {
                (packet, gen) \<leftarrow> AddMacs c (env_now e) (cookieGenerator (peers dev p)) packet;
                let dev = upd_peer p (\<lambda>q. q\<lparr>cookieGenerator := gen\<rparr>) dev;
                let (err, dev) = BeginSymmetricSession c e p dev;
                case err of
                  Some err \<Rightarrow> Some (Some (errNoise err), dev)
                | None \<Rightarrow>
                    let dev = timersSessionDerived e p dev;
                        dev = timersAnyAuthenticatedPacketTraversal e p dev;
                        dev = timersAnyAuthenticatedPacketSent p dev
                    in Some (SendBuffers e p [packet] dev)
              }
      })"

text \<open>The error of \<open>bind.Send\<close> is ignored here; the cookie checker keeps a refreshed secret even when
  the reply fails.\<close>

definition SendHandshakeCookie ::
  "crypto \<Rightarrow> env \<Rightarrow> QueueHandshakeElement \<Rightarrow> Device \<Rightarrow> (bool \<times> Device) option" where
  "SendHandshakeCookie c e elem dev =
     do {
       let sender = le_word (go_slice 4 8 (qh_packet elem));
       (r, st) \<leftarrow> CreateReply c (env_now e) (env_secret e) (env_nonce e) (cookieChecker dev) (qh_packet elem)
         sender (DstToBytes (qh_endpoint elem));
       let dev = dev\<lparr>cookieChecker := st\<rparr>;
       case r of
         Inl _ \<Rightarrow> Some (False, dev)
       | Inr reply \<Rightarrow>
           case marshal_cookie_reply reply (replicate MessageCookieReplySize 0) of
             Inl _ \<Rightarrow> None
           | Inr packet \<Rightarrow>
               Some (True, if delivered e then dev\<lparr>udp_out := udp_out dev @ [(qh_endpoint elem, packet)]\<rparr> else dev)
     }"

definition keepKeyFreshSending :: "crypto \<Rightarrow> env \<Rightarrow> pid \<Rightarrow> Device \<Rightarrow> Device option" where
  "keepKeyFreshSending c e p dev =
     (case ks_current (keypairs (peers dev p)) of
        None \<Rightarrow> Some dev
      | Some k \<Rightarrow>
          let keypair = keypair_heap dev k;
              nonce = kp_sendNonce keypair
          in if nonce > RekeyAfterMessages
               \<or> kp_isInitiator keypair \<and> Sub (env_now e) (kp_created keypair) > RekeyAfterTime
             then map_option snd (SendHandshakeInitiation c e False p dev)
             else Some dev)"

definition keepKeyFreshReceiving :: "crypto \<Rightarrow> env \<Rightarrow> pid \<Rightarrow> Device \<Rightarrow> Device option" where
  "keepKeyFreshReceiving c e p dev =
     (if sentLastMinuteHandshake (timers (peers dev p)) then Some dev
      else case ks_current (keypairs (peers dev p)) of
        None \<Rightarrow> Some dev
      | Some k \<Rightarrow>
          let keypair = keypair_heap dev k
          in if kp_isInitiator keypair
               \<and> Sub (env_now e) (kp_created keypair) > RejectAfterTime - KeepaliveTimeout - RekeyTimeout
             then
               let dev = upd_timers p (\<lambda>t. t\<lparr>sentLastMinuteHandshake := True\<rparr>) dev
               in map_option snd (SendHandshakeInitiation c e False p dev)
             else Some dev)"

section \<open>Staged packets\<close>

definition new_elem :: "bytes \<Rightarrow> QueueOutboundElement" where
  "new_elem packet = \<lparr>oe_packet = packet, oe_nonce = 0, oe_keypair = None, oe_peer = None\<rparr>"

function StagePackets :: "'a \<Rightarrow> 'a list \<Rightarrow> 'a list" where
  "StagePackets elems staged =
     (if length staged < QueueStagedSize then staged @ [elems] else StagePackets elems (tl staged))"
  by pat_completeness auto
termination
  by (relation "measure (\<lambda>(_, staged). length staged)") (auto simp: QueueStagedSize_def)

text \<open>The inner loop of \<open>SendStagedPackets\<close>: nonces for the elements of one container. The result is
  the elements kept, those over the limit, and the counter of the key pair.\<close>

fun assign_nonces ::
  "pid \<Rightarrow> kid \<Rightarrow> u64 \<Rightarrow> QueueOutboundElement list
     \<Rightarrow> QueueOutboundElement list \<times> QueueOutboundElement list \<times> u64" where
  "assign_nonces p k sendNonce [] = ([], [], sendNonce)"
| "assign_nonces p k sendNonce (elem # elems) =
     (let elem = elem\<lparr>oe_peer := Some p, oe_nonce := sendNonce\<rparr>;
          sendNonce' = sendNonce + 1
      in if oe_nonce elem \<ge> RejectAfterMessages then
           let (kept, ooo, n) = assign_nonces p k RejectAfterMessages elems
           in (kept, elem # ooo, n)
         else
           let (kept, ooo, n) = assign_nonces p k sendNonce' elems
           in (elem\<lparr>oe_keypair := Some k\<rparr> # kept, ooo, n))"

lemma assign_nonces_over:
  "assign_nonces p k n xs = (kept, ooo, n') \<Longrightarrow> ooo \<noteq> [] \<or> n = RejectAfterMessages \<Longrightarrow> n' = RejectAfterMessages"
proof (induction xs arbitrary: n kept ooo)
  case (Cons x xs)
  show ?case
  proof (cases "n \<ge> RejectAfterMessages")
    case True
    with Cons.prems(1) obtain kept1 ooo1 where "assign_nonces p k RejectAfterMessages xs = (kept1, ooo1, n')"
      by (auto simp: Let_def split: prod.splits)
    with Cons.IH show ?thesis by blast
  next
    case False
    with Cons.prems obtain kept1 where "assign_nonces p k (n + 1) xs = (kept1, ooo, n')" "ooo \<noteq> []"
      by (auto simp: Let_def split: prod.splits)
    with Cons.IH show ?thesis by blast
  qed
qed simp

lemma length_StagePackets: "length (StagePackets x q) \<le> Suc (length q)"
  by (induction x q rule: StagePackets.induct) (subst StagePackets.simps, auto simp del: StagePackets.simps)

declare StagePackets.simps [simp del]

text \<open>The loop of \<open>SendStagedPackets\<close> from a state in which a usable key pair was found, or, with
  \<open>from_top\<close>, from the label \<open>top\<close>. The result is the list of containers released to the queues, the
  packets still staged, the counter, and whether the loop ended asking for a new handshake.\<close>

function staged_loop ::
  "pid \<Rightarrow> kid \<Rightarrow> bool \<Rightarrow> u64 \<Rightarrow> QueueOutboundElement list list
     \<Rightarrow> QueueOutboundElement list list \<times> QueueOutboundElement list list \<times> u64 \<times> bool" where
  "staged_loop p k from_top sendNonce staged =
     (if from_top \<and> staged \<noteq> [] \<and> sendNonce \<ge> RejectAfterMessages then ([], staged, sendNonce, True)
      else case staged of
        [] \<Rightarrow> ([], [], sendNonce, False)
      | elems # rest \<Rightarrow>
          let (kept, ooo, sendNonce') = assign_nonces p k sendNonce elems;
              staged' = (if ooo \<noteq> [] then StagePackets ooo rest else rest)
          in if kept = [] then staged_loop p k True sendNonce' staged'
             else
               let (released, staged'', n, hs) = staged_loop p k (ooo \<noteq> []) sendNonce' staged'
               in (kept # released, staged'', n, hs))"
  by pat_completeness auto
termination
proof (relation "measure (\<lambda>(p, k, top, n, staged). if top \<and> n \<ge> RejectAfterMessages then 0 else Suc (length staged))",
    goal_cases)
  case (2 p k from_top n staged elems rest r kept y ooo n' staged')
  then have a: "assign_nonces p k n elems = (kept, ooo, n')" "staged = elems # rest" by auto
  from 2 have m: "\<not> (from_top \<and> n \<ge> RejectAfterMessages)" by auto
  show ?case
  proof (cases "ooo = []")
    case True
    with 2 m show ?thesis by auto
  next
    case False
    with assign_nonces_over [OF a(1)] m show ?thesis by auto
  qed
next
  case (3 p k from_top n staged elems rest r kept y ooo n' staged')
  then have a: "assign_nonces p k n elems = (kept, ooo, n')" "staged = elems # rest" by auto
  from 3 have m: "\<not> (from_top \<and> n \<ge> RejectAfterMessages)" by auto
  show ?case
  proof (cases "ooo = []")
    case True
    with 3 m show ?thesis by auto
  next
    case False
    with assign_nonces_over [OF a(1)] m show ?thesis by auto
  qed
qed auto

declare staged_loop.simps [simp del]

definition release_container :: "pid \<Rightarrow> QueueOutboundElement list \<Rightarrow> Device \<Rightarrow> Device" where
  "release_container p elems dev =
     (if isRunning (peers dev p) then
        let cid = next_cid dev;
            dev = dev\<lparr>outb_heap := (outb_heap dev)(cid := \<lparr>oc_elems = elems, oc_locked = True\<rparr>), next_cid := Suc cid\<rparr>;
            dev = upd_peer p (\<lambda>q. q\<lparr>q_outbound := q_outbound q @ [Some cid]\<rparr>) dev
        in dev\<lparr>q_encryption := q_encryption dev @ [cid]\<rparr>
      else dev)"

definition SendStagedPackets :: "crypto \<Rightarrow> env \<Rightarrow> pid \<Rightarrow> Device \<Rightarrow> Device option" where
  "SendStagedPackets c e p dev =
     (let peer = peers dev p
      in if q_staged peer = [] \<or> \<not> deviceState_isUp dev then Some dev
         else case ks_current (keypairs peer) of
           None \<Rightarrow> map_option snd (SendHandshakeInitiation c e False p dev)
         | Some k \<Rightarrow>
             let keypair = keypair_heap dev k
             in if kp_sendNonce keypair \<ge> RejectAfterMessages
                  \<or> Sub (env_now e) (kp_created keypair) \<ge> RejectAfterTime
                then map_option snd (SendHandshakeInitiation c e False p dev)
                else
                  let (released, staged, n, hs) = staged_loop p k False (kp_sendNonce keypair) (q_staged peer);
                      dev = upd_keypair k (\<lambda>kp. kp\<lparr>kp_sendNonce := n\<rparr>) dev;
                      dev = upd_peer p (\<lambda>q. q\<lparr>q_staged := staged\<rparr>) dev;
                      dev = fold (release_container p) released dev
                  in if hs then map_option snd (SendHandshakeInitiation c e False p dev) else Some dev)"

definition SendKeepalive :: "crypto \<Rightarrow> env \<Rightarrow> pid \<Rightarrow> Device \<Rightarrow> Device option" where
  "SendKeepalive c e p dev =
     (let dev = (if q_staged (peers dev p) = [] \<and> isRunning (peers dev p)
            then upd_peer p (\<lambda>q. q\<lparr>q_staged := [[new_elem []]]\<rparr>) dev else dev)
      in SendStagedPackets c e p dev)"

definition FlushStagedPackets :: "pid \<Rightarrow> Device \<Rightarrow> Device" where
  "FlushStagedPackets p dev = upd_peer p (\<lambda>q. q\<lparr>q_staged := []\<rparr>) dev"

section \<open>Packets from the TUN device\<close>

definition IPv4offsetTotalLength :: nat where "IPv4offsetTotalLength = 2"
definition IPv4offsetSrc :: nat where "IPv4offsetSrc = 12"
definition IPv4offsetDst :: nat where "IPv4offsetDst = IPv4offsetSrc + 4"
definition IPv6offsetPayloadLength :: nat where "IPv6offsetPayloadLength = 4"
definition IPv6offsetSrc :: nat where "IPv6offsetSrc = 8"
definition IPv6offsetDst :: nat where "IPv6offsetDst = IPv6offsetSrc + 16"

lemmas ip_offsets = IPv4offsetTotalLength_def IPv4offsetSrc_def IPv4offsetDst_def IPv6offsetPayloadLength_def
  IPv6offsetSrc_def IPv6offsetDst_def

text \<open>The peer a packet is for: \<open>Some None\<close> when it is dropped, \<open>None\<close> for a panic in \<open>Lookup\<close>.\<close>

definition tun_packet_peer :: "bytes \<Rightarrow> Device \<Rightarrow> pid option option" where
  "tun_packet_peer packet dev =
     (if length packet < 1 then Some None
      else
        let version = drop_bit 4 (packet ! 0)
        in if version = 4 then
             if length packet < 20 then Some None
             else Lookup (allowedips dev) (go_slice IPv4offsetDst (IPv4offsetDst + 4) packet)
           else if version = 6 then
             if length packet < 40 then Some None
             else Lookup (allowedips dev) (go_slice IPv6offsetDst (IPv6offsetDst + 16) packet)
           else Some None)"

text \<open>\<open>elemsByPeer\<close>, an association list from peers to the elements of their containers.\<close>

fun group_packets ::
  "bytes list \<Rightarrow> Device \<Rightarrow> (pid \<times> QueueOutboundElement list) list
     \<Rightarrow> (pid \<times> QueueOutboundElement list) list option" where
  "group_packets [] dev m = Some m"
| "group_packets (packet # packets) dev m =
     do {
       peer \<leftarrow> tun_packet_peer packet dev;
       case peer of
         None \<Rightarrow> group_packets packets dev m
       | Some p \<Rightarrow>
           let elems = (case map_of m p of None \<Rightarrow> [] | Some es \<Rightarrow> es)
           in group_packets packets dev (AList.update p (elems @ [new_elem packet]) m)
     }"

fun stage_groups ::
  "crypto \<Rightarrow> env \<Rightarrow> (pid \<times> QueueOutboundElement list) list \<Rightarrow> Device \<Rightarrow> Device option" where
  "stage_groups c e [] dev = Some dev"
| "stage_groups c e ((p, elems) # groups) dev =
     (if isRunning (peers dev p) then do {
        let dev = upd_peer p (\<lambda>q. q\<lparr>q_staged := StagePackets elems (q_staged q)\<rparr>) dev;
        dev \<leftarrow> SendStagedPackets c e p dev;
        stage_groups c e groups dev
      }
      else stage_groups c e groups dev)"

datatype tun_read_error = ErrTooManySegments | ErrTunRead

datatype tun_reader_next = ReadOn | ReaderStops bool

text \<open>One iteration: the packets \<open>tun.Read\<close> delivered and its error. \<open>ReaderStops True\<close> starts
  \<open>device.Close\<close> in a goroutine of its own.\<close>

definition RoutineReadFromTUN_step ::
  "crypto \<Rightarrow> env \<Rightarrow> bytes list \<Rightarrow> tun_read_error option \<Rightarrow> Device \<Rightarrow> (tun_reader_next \<times> Device) option" where
  "RoutineReadFromTUN_step c e packets readErr dev =
     do {
       groups \<leftarrow> group_packets packets dev [];
       dev \<leftarrow> stage_groups c e groups dev;
       Some (case readErr of
           None \<Rightarrow> (ReadOn, dev)
         | Some ErrTooManySegments \<Rightarrow> (ReadOn, dev)
         | Some ErrTunRead \<Rightarrow> (ReaderStops (\<not> deviceState_isClosed dev), dev))
     }"

section \<open>Encryption\<close>

text \<open>Go's remainder takes the sign of the dividend, here a size, so its absolute value is that of the
  remainder by \<open>\<bar>mtu\<bar>\<close>.\<close>

definition calculatePaddingSize :: "int \<Rightarrow> int \<Rightarrow> int" where
  "calculatePaddingSize packetSize mtu =
     (let lastUnit = packetSize
      in if mtu = 0 then ((lastUnit + PaddingMultiple - 1) AND NOT (PaddingMultiple - 1)) - lastUnit
         else
           let lastUnit = (if lastUnit > mtu then lastUnit mod \<bar>mtu\<bar> else lastUnit);
               paddedSize = (lastUnit + PaddingMultiple - 1) AND NOT (PaddingMultiple - 1);
               paddedSize = (if paddedSize > mtu then mtu else paddedSize)
           in paddedSize - lastUnit)"

definition nonce_bytes :: "u64 \<Rightarrow> bytes" where
  "nonce_bytes n = replicate 4 0 @ le_bytes 8 n"

definition transport_header :: "u32 \<Rightarrow> u64 \<Rightarrow> bytes" where
  "transport_header receiver nonce = le_bytes 4 MessageTransportType @ le_bytes 4 receiver @ le_bytes 8 nonce"

definition encrypt_elem :: "crypto \<Rightarrow> Device \<Rightarrow> QueueOutboundElement \<Rightarrow> QueueOutboundElement option" where
  "encrypt_elem c dev elem =
     do {
       k \<leftarrow> oe_keypair elem;
       let keypair = keypair_heap dev k;
       let header = transport_header (kp_remoteIndex keypair) (oe_nonce elem);
       let paddingSize = calculatePaddingSize (int (length (oe_packet elem))) (tun_mtu dev);
       if paddingSize < 0 \<or> paddingSize > PaddingMultiple then None
       else
         let packet = oe_packet elem @ replicate (nat paddingSize) 0
         in Some (elem\<lparr>oe_packet := header @ aead_Seal c (kp_send keypair) (nonce_bytes (oe_nonce elem)) packet []\<rparr>)
     }"

fun encrypt_elems :: "crypto \<Rightarrow> Device \<Rightarrow> QueueOutboundElement list \<Rightarrow> QueueOutboundElement list option" where
  "encrypt_elems c dev [] = Some []"
| "encrypt_elems c dev (x # xs) = do { y \<leftarrow> encrypt_elem c dev x; ys \<leftarrow> encrypt_elems c dev xs; Some (y # ys) }"

definition seal_pair :: "QueueOutboundElement \<Rightarrow> kid \<times> u64" where
  "seal_pair x = (the (oe_keypair x), oe_nonce x)"

text \<open>One container taken from the encryption queue. Several workers run, so any queued container can
  be the next to be finished.\<close>

definition RoutineEncryption_step :: "crypto \<Rightarrow> cid \<Rightarrow> Device \<Rightarrow> Device option" where
  "RoutineEncryption_step c cid dev =
     (if cid \<in> set (q_encryption dev) then do {
        elems \<leftarrow> encrypt_elems c dev (oc_elems (outb_heap dev cid));
        Some (dev\<lparr>q_encryption := remove1 cid (q_encryption dev),
          outb_heap := (outb_heap dev)(cid := \<lparr>oc_elems = elems, oc_locked = False\<rparr>),
          seal_log := seal_log dev @ map seal_pair (oc_elems (outb_heap dev cid))\<rparr>)
      }
      else None)"

section \<open>Sequential sending\<close>

text \<open>One iteration for the next container of the outbound queue: \<open>None\<close> when there is none or it is
  still locked by its encryption worker. The flag says whether the routine goes on.\<close>

definition RoutineSequentialSender_step ::
  "crypto \<Rightarrow> env \<Rightarrow> pid \<Rightarrow> Device \<Rightarrow> (bool \<times> Device) option" where
  "RoutineSequentialSender_step c e p dev =
     (case q_outbound (peers dev p) of
        [] \<Rightarrow> None
      | None # rest \<Rightarrow> Some (False, upd_peer p (\<lambda>q. q\<lparr>q_outbound := rest\<rparr>) dev)
      | Some cid # rest \<Rightarrow>
          if oc_locked (outb_heap dev cid) then None
          else
            let dev = upd_peer p (\<lambda>q. q\<lparr>q_outbound := rest\<rparr>) dev
            in if \<not> isRunning (peers dev p) then Some (True, dev)
               else
                 let bufs = map oe_packet (oc_elems (outb_heap dev cid));
                     dataSent = (\<exists>b\<in>set bufs. length b \<noteq> MessageKeepaliveSize);
                     dev = timersAnyAuthenticatedPacketTraversal e p dev;
                     dev = timersAnyAuthenticatedPacketSent p dev;
                     (err, dev) = SendBuffers e p bufs dev;
                     dev = (if dataSent then timersDataSent e p dev else dev);
                     err = (if err = Some (errGSODisabled True) then None else err)
                 in if err \<noteq> None then Some (True, dev)
                    else map_option (Pair True) (keepKeyFreshSending c e p dev))"

section \<open>Expired timers\<close>

definition ZeroAndFlushAll :: "pid \<Rightarrow> Device \<Rightarrow> Device" where
  "ZeroAndFlushAll p dev =
     (let ks = keypairs (peers dev p);
          dev = DeleteKeypair (ks_previous ks) dev;
          dev = DeleteKeypair (ks_current ks) dev;
          dev = DeleteKeypair (ks_next ks) dev;
          dev = set_keypairs p \<lparr>ks_current = None, ks_previous = None, ks_next = None\<rparr> dev;
          hs = handshake (peers dev p);
          dev = set_indexTable (IndexTable_Delete (hs_localIndex hs) (indexTable dev)) dev;
          dev = set_handshake p (Handshake_Clear hs) dev
      in FlushStagedPackets p dev)"

definition expiredRetransmitHandshake :: "crypto \<Rightarrow> env \<Rightarrow> pid \<Rightarrow> Device \<Rightarrow> Device option" where
  "expiredRetransmitHandshake c e p dev =
     (if handshakeAttempts (timers (peers dev p)) > MaxTimerHandshakes then
        let dev = (if timersActive p dev then upd_timers p (sendKeepalive_update Timer_Del) dev else dev);
            dev = FlushStagedPackets p dev
        in Some (if timersActive p dev \<and> \<not> Timer_IsPending (zeroKeyMaterial (timers (peers dev p)))
             then upd_timers p (zeroKeyMaterial_update (Timer_Mod (env_now e) (RejectAfterTime * 3))) dev
             else dev)
      else
        let dev = upd_timers p (\<lambda>t. t\<lparr>handshakeAttempts := handshakeAttempts t + 1\<rparr>) dev;
            dev = markEndpointSrcForClearing p dev
        in map_option snd (SendHandshakeInitiation c e True p dev))"

definition expiredSendKeepalive :: "crypto \<Rightarrow> env \<Rightarrow> pid \<Rightarrow> Device \<Rightarrow> Device option" where
  "expiredSendKeepalive c e p dev =
     do {
       dev \<leftarrow> SendKeepalive c e p dev;
       Some (if needAnotherKeepalive (timers (peers dev p)) then
           let dev = upd_timers p (\<lambda>t. t\<lparr>needAnotherKeepalive := False\<rparr>) dev
           in if timersActive p dev then upd_timers p (sendKeepalive_update (Timer_Mod (env_now e) KeepaliveTimeout)) dev
              else dev
         else dev)
     }"

definition expiredNewHandshake :: "crypto \<Rightarrow> env \<Rightarrow> pid \<Rightarrow> Device \<Rightarrow> Device option" where
  "expiredNewHandshake c e p dev =
     (let dev = markEndpointSrcForClearing p dev
      in map_option snd (SendHandshakeInitiation c e False p dev))"

definition expiredZeroKeyMaterial :: "pid \<Rightarrow> Device \<Rightarrow> Device" where
  "expiredZeroKeyMaterial p dev = ZeroAndFlushAll p dev"

definition expiredPersistentKeepalive :: "crypto \<Rightarrow> env \<Rightarrow> pid \<Rightarrow> Device \<Rightarrow> Device option" where
  "expiredPersistentKeepalive c e p dev =
     (if persistentKeepaliveInterval (peers dev p) > 0 then SendKeepalive c e p dev else Some dev)"

definition ExpireCurrentKeypairs :: "env \<Rightarrow> pid \<Rightarrow> Device \<Rightarrow> Device" where
  "ExpireCurrentKeypairs e p dev =
     (let hs = handshake (peers dev p);
          dev = set_indexTable (IndexTable_Delete (hs_localIndex hs) (indexTable dev)) dev;
          hs = Handshake_Clear hs;
          hs = hs\<lparr>hs_lastSentHandshake := env_now e + - (RekeyTimeout + second)\<rparr>;
          dev = set_handshake p hs dev;
          ks = keypairs (peers dev p);
          expire = (\<lambda>k dev. case k of None \<Rightarrow> dev
            | Some k \<Rightarrow> upd_keypair k (\<lambda>kp. kp\<lparr>kp_sendNonce := RejectAfterMessages\<rparr>) dev)
      in expire (ks_next ks) (expire (ks_current ks) dev))"

section \<open>Padding\<close>

lemma and_not_15: "x AND NOT (15 :: int) = x - x mod 16"
proof -
  have "x AND NOT (mask 4) = push_bit 4 (drop_bit 4 x)"
    by (rule bit_eqI) (auto simp: bit_simps)
  also have "\<dots> = x - take_bit 4 x" using bits_ident [of 4 x] by linarith
  finally show ?thesis by (simp add: mask_eq_exp_minus_1 take_bit_eq_mod)
qed

lemma padded_size: "(x + PaddingMultiple - 1) AND NOT (PaddingMultiple - 1) = x + 15 - (x + 15) mod 16"
  using and_not_15 [of "x + 15"] by (simp add: PaddingMultiple_def add.commute)

lemma calculatePaddingSize_bounds:
  assumes "0 \<le> sz" "0 \<le> mtu"
  shows "0 \<le> calculatePaddingSize sz mtu \<and> calculatePaddingSize sz mtu < PaddingMultiple"
proof -
  define l where "l = (if sz > mtu then sz mod \<bar>mtu\<bar> else sz)"
  define d where "d = l + 15 - (l + 15) mod 16"
  have d: "l \<le> d" "d < l + 16"
    using pos_mod_bound [of 16 "l + 15"] pos_mod_sign [of 16 "l + 15"] by (simp_all add: d_def)
  show ?thesis
  proof (cases "mtu = 0")
    case True
    then have "calculatePaddingSize sz mtu = 15 - (sz + 15) mod 16"
      by (simp add: calculatePaddingSize_def padded_size)
    then show ?thesis
      using pos_mod_bound [of 16 "sz + 15"] pos_mod_sign [of 16 "sz + 15"]
      unfolding PaddingMultiple_def by linarith
  next
    case False
    with assms have "l \<le> mtu" by (simp add: l_def order.strict_implies_order)
    moreover have "calculatePaddingSize sz mtu = (if d > mtu then mtu else d) - l"
      using False unfolding calculatePaddingSize_def padded_size Let_def l_def [symmetric] d_def [symmetric] by simp
    ultimately show ?thesis using d by (simp add: PaddingMultiple_def)
  qed
qed

text \<open>A packet that fits the MTU is padded to the next multiple of 16, or to the MTU if that is less.\<close>

lemma calculatePaddingSize_fits:
  assumes "0 \<le> sz" "sz \<le> mtu"
  shows "sz + calculatePaddingSize sz mtu = min mtu (16 * ((sz + 15) div 16))"
proof -
  have "sz + 15 - (sz + 15) mod 16 = 16 * ((sz + 15) div 16)"
    by (rule minus_mod_eq_mult_div)
  with assms show ?thesis
    by (auto simp: calculatePaddingSize_def padded_size min_def Let_def)
qed

section \<open>Nonces of staged packets\<close>

lemma assign_nonces_spec:
  assumes "assign_nonces p k n xs = (kept, ooo, n')" "n \<le> RejectAfterMessages"
  shows "map (unat \<circ> oe_nonce) kept = [unat n..<unat n + length kept]
    \<and> unat n' = unat n + length kept \<and> n' \<le> RejectAfterMessages
    \<and> (\<forall>x\<in>set kept. oe_keypair x = Some k) \<and> map oe_packet (kept @ ooo) = map oe_packet xs"
  using assms
proof (induction xs arbitrary: n kept ooo n')
  case (Cons x xs)
  show ?case
  proof (cases "n \<ge> RejectAfterMessages")
    case True
    with Cons.prems have n: "n = RejectAfterMessages" by simp
    obtain kept1 ooo1 where a: "assign_nonces p k RejectAfterMessages xs = (kept1, ooo1, n')" "kept = kept1"
      "ooo = x\<lparr>oe_peer := Some p, oe_nonce := n\<rparr> # ooo1"
      using Cons.prems True by (auto simp: Let_def split: prod.splits)
    have "kept1 = []"
      using Cons.IH [OF a(1)] assign_nonces_over [OF a(1)] by auto
    with a n Cons.IH [OF a(1)] show ?thesis by simp
  next
    case False
    then have lt: "n < RejectAfterMessages" by simp
    obtain kept1 where a: "assign_nonces p k (n + 1) xs = (kept1, ooo, n')"
      "kept = x\<lparr>oe_peer := Some p, oe_nonce := n, oe_keypair := Some k\<rparr> # kept1"
      using Cons.prems False by (auto simp: Let_def split: prod.splits)
    have u: "unat (n + 1) = Suc (unat n)"
      using lt by (simp add: unat_word_ariths word_less_nat_alt RejectAfterMessages_val)
    have "n + 1 \<le> RejectAfterMessages" using lt by (rule inc_le)
    note IH = Cons.IH [OF a(1) this]
    have "[unat n..<unat n + length kept] = unat n # [Suc (unat n)..<Suc (unat n) + length kept1]"
      using a(2) by (simp add: upt_conv_Cons del: upt_Suc)
    with IH a u show ?thesis by (auto simp del: upt_Suc)
  qed
qed simp

text \<open>All containers released by one \<open>SendStagedPackets\<close>, in order: consecutive nonces from the counter
  of the key pair, all below the limit; and, unless the counter reached the limit, every staged packet
  is released, in order.\<close>

lemma staged_loop_spec:
  assumes "staged_loop p k ft n staged = (released, staged', n', hs)" "n \<le> RejectAfterMessages"
  shows "map (unat \<circ> oe_nonce) (concat released) = [unat n..<unat n + length (concat released)]
    \<and> unat n' = unat n + length (concat released) \<and> n' \<le> RejectAfterMessages
    \<and> (\<forall>x\<in>set (concat released). oe_keypair x = Some k)
    \<and> (n' < RejectAfterMessages \<longrightarrow> map oe_packet (concat released) = map oe_packet (concat staged) \<and> staged' = [])"
  using assms
proof (induction p k ft n staged arbitrary: released staged' n' hs rule: staged_loop.induct)
  case (1 p k ft n staged)
  let ?stop = "ft \<and> staged \<noteq> [] \<and> RejectAfterMessages \<le> n"
  consider (stop) ?stop | (nil) "\<not> ?stop" "staged = []"
    | (go) elems rest kept ooo n1 where "\<not> ?stop" "staged = elems # rest" "assign_nonces p k n elems = (kept, ooo, n1)"
    by (metis prod_cases3 list.exhaust)
  then show ?case
  proof cases
    case go
    define st where "st = (if ooo \<noteq> [] then StagePackets ooo rest else rest)"
    note a = assign_nonces_spec [OF go(3) "1.prems"(2)]
    have over: "ooo \<noteq> [] \<Longrightarrow> n1 = RejectAfterMessages" using assign_nonces_over [OF go(3)] by simp
    have eq: "staged_loop p k ft n staged = (if kept = [] then staged_loop p k True n1 st
        else let (released, staged'', n, hs) = staged_loop p k (ooo \<noteq> []) n1 st in (kept # released, staged'', n, hs))"
      using go(1) by (subst staged_loop.simps) (auto simp: go(2,3) st_def)
    obtain rel1 where r: "staged_loop p k (kept = [] \<or> ooo \<noteq> []) n1 st = (rel1, staged', n', hs)"
      "concat released = kept @ concat rel1"
      using "1.prems"(1) unfolding eq by (auto split: if_splits prod.splits)
    have IH: "map (unat \<circ> oe_nonce) (concat rel1) = [unat n1..<unat n1 + length (concat rel1)]
      \<and> unat n' = unat n1 + length (concat rel1) \<and> n' \<le> RejectAfterMessages
      \<and> (\<forall>x\<in>set (concat rel1). oe_keypair x = Some k)
      \<and> (n' < RejectAfterMessages \<longrightarrow> map oe_packet (concat rel1) = map oe_packet (concat st) \<and> staged' = [])"
    proof (cases "kept = []")
      case True
      from "1.IH"(1) [OF go(1,2) refl go(3) [symmetric] refl st_def True] a r(1) True show ?thesis by (simp add: comp_def)
    next
      case False
      from "1.IH"(2) [OF go(1,2) refl go(3) [symmetric] refl st_def False] a r(1) False show ?thesis by (simp add: comp_def)
    qed
    have n1: "unat n1 = unat n + length kept" using a by blast
    have "[unat n..<unat n + length (concat released)]
        = [unat n..<unat n + length kept] @ [unat n1..<unat n1 + length (concat rel1)]"
      unfolding r(2) n1 length_append add.assoc [symmetric] by (rule upt_add_eq_append) simp
    then have 1: "map (unat \<circ> oe_nonce) (concat released) = [unat n..<unat n + length (concat released)]"
      using a IH unfolding r(2) map_append by metis
    have 2: "ooo = [] \<and> st = rest" if "n' < RejectAfterMessages"
      using that IH over by (auto simp: st_def word_less_nat_alt)
    have 3: "map oe_packet (concat released) = map oe_packet (concat staged) \<and> staged' = []"
      if "n' < RejectAfterMessages"
      using a IH 2 [OF that] that by (simp add: r(2) go(2))
    have 4: "\<forall>x\<in>set (concat released). oe_keypair x = Some k" using a IH unfolding r(2) by auto
    have 5: "unat n' = unat n + length (concat released)" using IH n1 by (simp add: r(2))
    show ?thesis using 1 3 4 5 IH by blast
  qed (use "1.prems" in \<open>subst (asm) staged_loop.simps, auto\<close>)+
qed

end
