(* ===== verification/Nonces.thy ===== *)
theory Nonces
  imports Sessions Send "HOL-Library.Multiset"
begin

text \<open>
  Nonce uniqueness on the outbound path. \<open>pending\<close> lists the pairs of key pair and counter that the
  encryption workers have yet to seal; \<open>nonce_inv\<close> says that these and the pairs sealed so far are
  all different and below the counters. \<open>evolves\<close> is the relation that every handler other than
  \<open>SendStagedPackets\<close> and the encryption worker establishes between the states before and after.
\<close>

section \<open>The invariant\<close>

definition cid_pairs :: "Device \<Rightarrow> cid \<Rightarrow> (kid \<times> u64) list" where
  "cid_pairs dev cid = map seal_pair (oc_elems (outb_heap dev cid))"

definition pending :: "Device \<Rightarrow> (kid \<times> u64) list" where
  "pending dev = concat (map (cid_pairs dev) (q_encryption dev))"

definition pairs_below :: "Device \<Rightarrow> (kid \<times> u64) set \<Rightarrow> bool" where
  "pairs_below dev S \<longleftrightarrow> (\<forall>(k, n)\<in>S. k < next_kid dev \<and> n < kp_sendNonce (keypair_heap dev k))"

lemma pairs_below_Un: "pairs_below dev (A \<union> B) \<longleftrightarrow> pairs_below dev A \<and> pairs_below dev B"
  by (auto simp: pairs_below_def)

definition counters_ok :: "Device \<Rightarrow> bool" where
  "counters_ok dev \<longleftrightarrow> (\<forall>k. kp_sendNonce (keypair_heap dev k) \<le> RejectAfterMessages)
     \<and> (\<forall>p. \<forall>k\<in>slots (keypairs (peers dev p)). k < next_kid dev)
     \<and> distinct (q_encryption dev) \<and> (\<forall>cid\<in>set (q_encryption dev). cid < next_cid dev)"

definition nonce_inv :: "Device \<Rightarrow> bool" where
  "nonce_inv dev \<longleftrightarrow> counters_ok dev \<and> distinct (seal_log dev @ pending dev)
     \<and> pairs_below dev (set (seal_log dev @ pending dev))"

section \<open>Steps that leave the containers alone\<close>

text \<open>\<open>in_evolves\<close> is the part of the relation that the inbound path relies on: inbound containers,
  replay filters of existing key pairs, routes and the TUN output are kept, new key pairs start with
  an empty filter, the index table gains at most new key pairs, and \<open>same_life\<close>: no peer is added,
  removed, started or stopped. \<open>evolves\<close> adds the outbound part.\<close>

definition same_life :: "Device \<Rightarrow> Device \<Rightarrow> bool" where
  "same_life dev dev' \<longleftrightarrow> keyMap dev' = keyMap dev \<and> dev_state dev' = dev_state dev \<and> next_pid dev' = next_pid dev
     \<and> dev_closed dev' = dev_closed dev \<and> bind_open dev' = bind_open dev \<and> allowedips dev' = allowedips dev
     \<and> (\<forall>p. isRunning (peers dev' p) = isRunning (peers dev p))"

lemma same_life_trans: "same_life a b \<Longrightarrow> same_life b d \<Longrightarrow> same_life a d"
  by (simp add: same_life_def)

definition in_evolves :: "Device \<Rightarrow> Device \<Rightarrow> bool" where
  "in_evolves dev dev' \<longleftrightarrow>
     next_kid dev \<le> next_kid dev' \<and> inb_heap dev' = inb_heap dev
     \<and> allowedips dev' = allowedips dev \<and> tun_out dev' = tun_out dev \<and> accept_log dev' = accept_log dev
     \<and> (\<forall>k<next_kid dev. kp_replayFilter (keypair_heap dev' k) = kp_replayFilter (keypair_heap dev k))
     \<and> (\<forall>k\<in>{next_kid dev..<next_kid dev'}. kp_replayFilter (keypair_heap dev' k) = Reset zero_filter)
     \<and> table_kids (indexTable dev') \<subseteq> table_kids (indexTable dev) \<union> {next_kid dev..<next_kid dev'}
     \<and> same_life dev dev'"

definition out_evolves :: "Device \<Rightarrow> Device \<Rightarrow> bool" where
  "out_evolves dev dev' \<longleftrightarrow>
     next_kid dev \<le> next_kid dev' \<and> next_cid dev \<le> next_cid dev' \<and> q_encryption dev' = q_encryption dev
     \<and> outb_heap dev' = outb_heap dev \<and> seal_log dev' = seal_log dev
     \<and> (\<forall>k<next_kid dev. kp_sendNonce (keypair_heap dev k) \<le> kp_sendNonce (keypair_heap dev' k))
     \<and> (\<forall>k. kp_sendNonce (keypair_heap dev k) \<le> RejectAfterMessages \<longrightarrow>
         kp_sendNonce (keypair_heap dev' k) \<le> RejectAfterMessages)
     \<and> (\<forall>p. slots (keypairs (peers dev' p)) \<subseteq> slots (keypairs (peers dev p)) \<union> {next_kid dev..<next_kid dev'})"

definition evolves :: "Device \<Rightarrow> Device \<Rightarrow> bool" where
  "evolves dev dev' \<longleftrightarrow> out_evolves dev dev' \<and> in_evolves dev dev'"

lemmas evolves_defs = evolves_def out_evolves_def in_evolves_def same_life_def

lemma out_evolvesD:
  assumes "out_evolves dev dev'"
  shows "next_kid dev \<le> next_kid dev'" "next_cid dev \<le> next_cid dev'" "q_encryption dev' = q_encryption dev"
    "outb_heap dev' = outb_heap dev \<and> seal_log dev' = seal_log dev"
    "k < next_kid dev \<Longrightarrow> kp_sendNonce (keypair_heap dev k) \<le> kp_sendNonce (keypair_heap dev' k)"
    "kp_sendNonce (keypair_heap dev k) \<le> RejectAfterMessages \<Longrightarrow> kp_sendNonce (keypair_heap dev' k) \<le> RejectAfterMessages"
    "x \<in> slots (keypairs (peers dev' p)) \<Longrightarrow> x \<in> slots (keypairs (peers dev p)) \<or> next_kid dev \<le> x \<and> x < next_kid dev'"
proof -
  show "x \<in> slots (keypairs (peers dev' p)) \<Longrightarrow> x \<in> slots (keypairs (peers dev p)) \<or> next_kid dev \<le> x \<and> x < next_kid dev'"
    using assms unfolding out_evolves_def by fastforce
qed (use assms in \<open>auto simp: out_evolves_def\<close>)

lemma out_evolves_trans:
  assumes "out_evolves a b" "out_evolves b d"
  shows "out_evolves a d"
proof -
  note x = out_evolvesD [OF assms(1)] and y = out_evolvesD [OF assms(2)]
  have "slots (keypairs (peers d p)) \<subseteq> slots (keypairs (peers a p)) \<union> {next_kid a..<next_kid d}" for p
    using x(7) [of _ p] y(7) [of _ p] x(1) y(1) by fastforce
  moreover have "k < next_kid a \<Longrightarrow> kp_sendNonce (keypair_heap a k) \<le> kp_sendNonce (keypair_heap d k)" for k
    using x(1) x(5) [of k] y(5) [of k] by (meson dual_order.trans order_less_le_trans)
  ultimately show ?thesis using x(1-4,6) y(1-4,6) by (simp add: out_evolves_def)
qed

lemma in_evolvesD:
  assumes "in_evolves dev dev'"
  shows "next_kid dev \<le> next_kid dev'" "inb_heap dev' = inb_heap dev" "allowedips dev' = allowedips dev"
    "tun_out dev' = tun_out dev \<and> accept_log dev' = accept_log dev"
    "k < next_kid dev \<Longrightarrow> kp_replayFilter (keypair_heap dev' k) = kp_replayFilter (keypair_heap dev k)"
    "next_kid dev \<le> k \<Longrightarrow> k < next_kid dev' \<Longrightarrow> kp_replayFilter (keypair_heap dev' k) = Reset zero_filter"
    "k \<in> table_kids (indexTable dev') \<Longrightarrow> k \<in> table_kids (indexTable dev) \<or> next_kid dev \<le> k \<and> k < next_kid dev'"
    "same_life dev dev'"
proof -
  show "k \<in> table_kids (indexTable dev') \<Longrightarrow> k \<in> table_kids (indexTable dev) \<or> next_kid dev \<le> k \<and> k < next_kid dev'"
    using assms unfolding in_evolves_def by fastforce
qed (use assms in \<open>auto simp: in_evolves_def\<close>)

lemma in_evolves_refl [simp, intro]: "in_evolves dev dev"
  by (simp add: in_evolves_def same_life_def)

lemma in_evolves_trans:
  assumes "in_evolves a b" "in_evolves b d"
  shows "in_evolves a d"
proof -
  note x = in_evolvesD [OF assms(1)] and y = in_evolvesD [OF assms(2)]
  have "table_kids (indexTable d) \<subseteq> table_kids (indexTable a) \<union> {next_kid a..<next_kid d}"
    using x(7) y(7) x(1) y(1) by fastforce
  moreover have "k < next_kid a \<Longrightarrow> kp_replayFilter (keypair_heap d k) = kp_replayFilter (keypair_heap a k)" for k
    using x(1) x(5) [of k] y(5) [of k] by simp
  moreover have "kp_replayFilter (keypair_heap d k) = Reset zero_filter" if "next_kid a \<le> k" "k < next_kid d" for k
    using that x(6) [of k] y(5) [of k] y(6) [of k] by (cases "k < next_kid b") auto
  ultimately show ?thesis using x(1-4) y(1-4) same_life_trans [OF x(8) y(8)] by (simp add: in_evolves_def)
qed

lemma evolves_refl [simp, intro]: "evolves dev dev"
  by (auto simp: evolves_def out_evolves_def)

lemma evolves_trans [trans]: "evolves a b \<Longrightarrow> evolves b d \<Longrightarrow> evolves a d"
  by (simp add: evolves_def) (meson out_evolves_trans in_evolves_trans)

lemma evolves_in: "evolves dev dev' \<Longrightarrow> in_evolves dev dev'"
  by (simp add: evolves_def)

lemma out_evolves_nonce_inv:
  assumes "nonce_inv dev" "out_evolves dev dev'"
  shows "nonce_inv dev'"
proof -
  note e = out_evolvesD [OF assms(2)]
  have "pending dev' = pending dev" by (simp add: pending_def cid_pairs_def [abs_def] e(3,4))
  moreover have "counters_ok dev'"
    using assms(1) e(1,2,3,6) e(7) unfolding nonce_inv_def counters_ok_def by (metis order_less_le_trans)
  moreover have "pairs_below dev S \<Longrightarrow> pairs_below dev' S" for S
    using e(1,5) unfolding pairs_below_def by (fastforce intro: order_less_le_trans)
  ultimately show ?thesis using assms(1) e(4) by (simp add: nonce_inv_def)
qed

lemma evolves_nonce_inv: "nonce_inv dev \<Longrightarrow> evolves dev dev' \<Longrightarrow> nonce_inv dev'"
  using out_evolves_nonce_inv by (simp add: evolves_def)

lemma evolves_upd_peer:
  "(\<And>q. slots (keypairs (f q)) \<subseteq> slots (keypairs q) \<and> isRunning (f q) = isRunning q) \<Longrightarrow> evolves dev (upd_peer p f dev)"
  by (auto simp: evolves_defs upd_peer_def)

lemma evolves_basic [simp, intro]:
  "evolves dev (set_handshake p hs dev)" "evolves dev (upd_timers p g dev)" "evolves dev (set_indexTable (IndexTable_Delete i (indexTable dev)) dev)"
  "evolves dev (DeleteKeypair k dev)" "evolves dev (dev\<lparr>udp_out := u\<rparr>)" "evolves dev (dev\<lparr>cookieChecker := cc\<rparr>)"
  "evolves dev (upd_peer p (\<lambda>q. q\<lparr>q_staged := h q\<rparr>) dev)" "evolves dev (upd_peer p (\<lambda>q. q\<lparr>q_outbound := ob\<rparr>) dev)"
  "evolves dev (upd_peer p (\<lambda>q. q\<lparr>txBytes := tx q\<rparr>) dev)" "evolves dev (upd_peer p (\<lambda>q. q\<lparr>cookieGenerator := g'\<rparr>) dev)"
  "evolves dev (FlushStagedPackets p dev)" "evolves dev (markEndpointSrcForClearing p dev)"
  "evolves dev (SetEndpointFromPacket p ep dev)" "evolves dev (upd_peer p (\<lambda>q. q\<lparr>rxBytes := rx q\<rparr>) dev)"
  "evolves dev (upd_peer p (\<lambda>q. q\<lparr>q_inbound := ib\<rparr>) dev)" "evolves dev (dev\<lparr>q_handshake := qh\<rparr>)"
  "evolves dev (dev\<lparr>underLoadUntil := un\<rparr>)" "evolves dev (dev\<lparr>limiter := li\<rparr>)"
  using table_kids_delete
  by (auto simp: evolves_defs dev_upd_defs DeleteKeypair_def FlushStagedPackets_def markEndpointSrcForClearing_def
      SetEndpointFromPacket_def split: option.splits)

lemma evolves_same_core:
  assumes "same_core dev dev'"
  shows "evolves dev dev'"
proof -
  have s: "dev\<lparr>peers := \<lambda>_. zero_Peer\<rparr> = dev'\<lparr>peers := \<lambda>_. zero_Peer\<rparr>"
    using assms unfolding same_core_def by (rule conjunct1)
  have k: "keypairs (peers dev p) = keypairs (peers dev' p)" for p
    by (rule peer_core_fields(2)) (use assms in \<open>simp only: same_core_def\<close>)
  have f: "next_kid dev = next_kid dev'" "next_cid dev = next_cid dev'" "q_encryption dev = q_encryption dev'"
    "outb_heap dev = outb_heap dev'" "keypair_heap dev = keypair_heap dev'" "inb_heap dev = inb_heap dev'"
    "allowedips dev = allowedips dev'" "tun_out dev = tun_out dev'" "indexTable dev = indexTable dev'"
    "seal_log dev = seal_log dev'" "accept_log dev = accept_log dev'"
    "keyMap dev = keyMap dev'" "dev_state dev = dev_state dev'" "next_pid dev = next_pid dev'"
    "dev_closed dev = dev_closed dev'" "bind_open dev = bind_open dev'"
    using arg_cong [OF s, of next_kid] arg_cong [OF s, of next_cid] arg_cong [OF s, of q_encryption]
      arg_cong [OF s, of outb_heap] arg_cong [OF s, of keypair_heap]
      arg_cong [OF s, of inb_heap] arg_cong [OF s, of allowedips] arg_cong [OF s, of tun_out]
      arg_cong [OF s, of indexTable] arg_cong [OF s, of seal_log] arg_cong [OF s, of accept_log]
      arg_cong [OF s, of keyMap] arg_cong [OF s, of dev_state] arg_cong [OF s, of next_pid]
      arg_cong [OF s, of dev_closed] arg_cong [OF s, of bind_open] by simp_all
  have "isRunning (peers dev p) = isRunning (peers dev' p)" for p
    by (rule peer_core_fields(1)) (use assms in \<open>simp only: same_core_def\<close>)
  then show ?thesis by (simp add: evolves_defs f k)
qed

lemmas evolves_timers [simp, intro] =
  timer_events_core [THEN evolves_same_core] timersHandshakeComplete_core [THEN evolves_same_core]

lemma evolves_SendBuffers: "evolves dev (snd (SendBuffers e p bufs dev))"
  by (auto simp: SendBuffers_def Let_def evolves_defs upd_peer_def split: option.splits send_outcome.splits)

text \<open>The same facts as rules that peel the outermost operation off a state.\<close>

lemma evolves_step: "evolves d d' \<Longrightarrow> evolves dev d \<Longrightarrow> evolves dev d'"
  by (rule evolves_trans)

lemmas evolves_steps = evolves_basic [THEN evolves_step] evolves_timers [THEN evolves_step]
  evolves_SendBuffers [THEN evolves_step]

section \<open>The handshake functions\<close>

lemma evolves_new_index:
  "NewIndexForHandshake ds p (IndexTable_Delete i (indexTable dev)) = Some (r, tbl) \<Longrightarrow>
   evolves dev (set_indexTable tbl dev)"
  using table_kids_new table_kids_delete by (fastforce simp: evolves_defs set_indexTable_def)

lemma evolves_CreateMessageInitiation: "CreateMessageInitiation c e p dev = Some (r, dev') \<Longrightarrow> evolves dev dev'"
  by (drule CreateMessageInitiation_effect) (auto intro: evolves_trans [OF evolves_new_index])

lemma evolves_CreateMessageResponse: "CreateMessageResponse c e p dev = Some (r, dev') \<Longrightarrow> evolves dev dev'"
  by (drule CreateMessageResponse_effect) (auto intro: evolves_trans [OF evolves_new_index])

lemma evolves_ConsumeMessageInitiation: "evolves dev (snd (ConsumeMessageInitiation c e m dev))"
  by (auto simp: ConsumeMessageInitiation_eq Let_def split: option.splits)

lemma evolves_ConsumeMessageResponse: "evolves dev (snd (ConsumeMessageResponse c m dev))"
  by (auto simp: ConsumeMessageResponse_def Let_def split: option.splits prod.splits)

lemma evolves_ReceivedWithKeypair: "evolves dev (snd (ReceivedWithKeypair p k dev))"
  using table_kids_delete
  by (auto simp: ReceivedWithKeypair_def Let_def evolves_defs dev_upd_defs DeleteKeypair_def slots_def split: option.splits)

lemma evolves_BeginSymmetricSession: "evolves dev (snd (BeginSymmetricSession c e p dev))"
  using BeginSymmetricSession_frame [of c e p dev]
proof (elim disjE exE conjE)
  fix tbl kp hs ks
  assume d: "snd (BeginSymmetricSession c e p dev) = dev\<lparr>keypair_heap := (keypair_heap dev)(next_kid dev := kp),
       next_kid := Suc (next_kid dev), indexTable := tbl, peers := (peers dev)(p := (peers dev p)\<lparr>handshake := hs, keypairs := ks\<rparr>)\<rparr>"
    and "slots ks \<subseteq> insert (next_kid dev) (slots (keypairs (peers dev p)))" "kp_sendNonce kp = 0"
    "kp_replayFilter kp = Reset zero_filter" "table_kids tbl \<subseteq> insert (next_kid dev) (table_kids (indexTable dev))"
  then show ?thesis unfolding d by (auto simp: evolves_defs)
qed simp

lemma evolves_Create:
  assumes "evolves dev d"
  shows "pred_option (\<lambda>r. evolves dev (snd r)) (CreateMessageInitiation c e p d)"
    "pred_option (\<lambda>r. evolves dev (snd r)) (CreateMessageResponse c e p d)"
  by (rule pred_optionI,
      use evolves_CreateMessageInitiation evolves_CreateMessageResponse evolves_trans [OF assms] in fastforce)+

lemmas evolves_bind = pred_option_bind_pair [OF evolves_Create(1)] pred_option_bind_pair [OF evolves_Create(2)]
  pred_option_bind_any_pair [where m = "AddMacs c t g m" for c t g m]

lemma evolves_SendHandshakeInitiation:
  "pred_option (\<lambda>r. evolves dev (snd r)) (SendHandshakeInitiation c e isRetry p dev)"
  unfolding SendHandshakeInitiation_def
  by (auto simp: Let_def split_beta split: sum.splits intro!: evolves_bind evolves_steps)

lemma evolves_handshake_snd:
  assumes "evolves dev d"
  shows "pred_option (evolves dev) (map_option snd (SendHandshakeInitiation c e isRetry p d))"
  unfolding pred_option_map
  by (rule pred_option_weaken [OF evolves_SendHandshakeInitiation]) (rule evolves_trans [OF assms])

lemma evolves_SendHandshakeResponse:
  "pred_option (\<lambda>r. evolves dev (snd r)) (SendHandshakeResponse c e p dev)"
  unfolding SendHandshakeResponse_def
  by (auto simp: Let_def split_beta split: sum.splits option.splits intro!: evolves_bind evolves_steps
      evolves_BeginSymmetricSession [THEN evolves_step])

lemma evolves_SendHandshakeCookie:
  "pred_option (\<lambda>r. evolves dev (snd r)) (SendHandshakeCookie c e elem dev)"
  unfolding SendHandshakeCookie_def
  by (auto simp: Let_def split_beta split: sum.splits intro!: pred_option_bind_any evolves_steps)

lemma evolves_keepKeyFresh:
  "pred_option (evolves dev) (keepKeyFreshSending c e p dev)"
  "pred_option (evolves dev) (keepKeyFreshReceiving c e p dev)"
  by (auto simp: keepKeyFreshSending_def keepKeyFreshReceiving_def Let_def intro!: evolves_handshake_snd
      split: option.splits)

lemma evolves_RoutineSequentialSender:
  "pred_option (\<lambda>r. evolves dev (snd r)) (RoutineSequentialSender_step c e p dev)"
proof -
  have "evolves dev (snd (SendBuffers e p bufs (timersAnyAuthenticatedPacketSent p
      (timersAnyAuthenticatedPacketTraversal e p (upd_peer p (\<lambda>q. q\<lparr>q_outbound := ob\<rparr>) dev)))))" for bufs ob
    by (rule evolves_steps)+ simp
  then show ?thesis
    unfolding RoutineSequentialSender_step_def
    by (auto simp: Let_def split_beta pred_option_map intro!: evolves_steps
        pred_option_weaken [OF evolves_keepKeyFresh(1)] elim!: evolves_step split: list.splits option.splits)
qed

lemma evolves_ZeroAndFlushAll: "evolves dev (ZeroAndFlushAll p dev)"
proof -
  have "evolves d (set_keypairs p \<lparr>ks_current = None, ks_previous = None, ks_next = None\<rparr> d)" for d
    unfolding set_keypairs_def by (rule evolves_upd_peer) (simp add: slots_def)
  then show ?thesis
    unfolding ZeroAndFlushAll_def Let_def by (blast intro: evolves_steps evolves_step)
qed

lemma evolves_ExpireCurrentKeypairs: "counters_ok dev \<Longrightarrow> evolves dev (ExpireCurrentKeypairs e p dev)"
  using table_kids_delete
  by (auto simp: ExpireCurrentKeypairs_def Let_def evolves_defs counters_ok_def dev_upd_defs split: option.splits)

section \<open>Releasing containers\<close>

lemma release_running:
  "isRunning (peers dev p) \<Longrightarrow> release_container p elems dev =
   dev\<lparr>outb_heap := (outb_heap dev)(next_cid dev := \<lparr>oc_elems = elems, oc_locked = True\<rparr>),
     next_cid := Suc (next_cid dev), peers := (peers dev)(p := (peers dev p)\<lparr>q_outbound := q_outbound (peers dev p)
       @ [Some (next_cid dev)]\<rparr>), q_encryption := q_encryption dev @ [next_cid dev]\<rparr>"
  by (simp add: release_container_def Let_def upd_peer_def)

lemma release_fold:
  assumes "isRunning (peers dev p)" and d: "d = fold (release_container p) rel dev"
  shows "next_cid d = next_cid dev + length rel
    \<and> q_encryption d = q_encryption dev @ [next_cid dev..<next_cid dev + length rel]
    \<and> (\<forall>i<length rel. outb_heap d (next_cid dev + i) = \<lparr>oc_elems = rel ! i, oc_locked = True\<rparr>)
    \<and> (\<forall>cid<next_cid dev. outb_heap d cid = outb_heap dev cid)
    \<and> keypair_heap d = keypair_heap dev \<and> next_kid d = next_kid dev \<and> seal_log d = seal_log dev
    \<and> peers d = (peers dev)(p := (peers dev p)\<lparr>q_outbound := q_outbound (peers dev p)
        @ map Some [next_cid dev..<next_cid dev + length rel]\<rparr>)"
  unfolding d
proof (induction rel rule: rev_induct)
  case (snoc x xs)
  then have "isRunning (peers (fold (release_container p) xs dev) p)" using assms(1) by simp
  then show ?case
    using snoc by (simp add: release_running nth_append less_Suc_eq) metis
qed (use assms(1) in simp)

lemma release_not_running: "\<not> isRunning (peers dev p) \<Longrightarrow> fold (release_container p) rel dev = dev"
  by (induction rel) (simp_all add: release_container_def)

lemma pending_release:
  assumes "isRunning (peers dev p)" "counters_ok dev"
  shows "pending (fold (release_container p) rel dev) = pending dev @ map seal_pair (concat rel)"
proof -
  let ?d = "fold (release_container p) rel dev"
  note r = release_fold [OF assms(1) refl, of rel]
  have old: "map (cid_pairs ?d) (q_encryption dev) = map (cid_pairs dev) (q_encryption dev)"
    using r assms(2) by (auto simp: cid_pairs_def counters_ok_def)
  have new: "map (cid_pairs ?d) [next_cid dev..<next_cid dev + length rel] = map (map seal_pair) rel"
    by (rule nth_equalityI) (use r in \<open>auto simp: cid_pairs_def\<close>)
  show ?thesis
    using r by (simp add: pending_def old new map_concat)
qed

lemma map_nonces:
  assumes m: "map (unat \<circ> oe_nonce) xs = [unat n..<m]" and k: "\<forall>x\<in>set xs. oe_keypair x = Some k"
  shows "distinct (map seal_pair xs)"
    and "(l, x) \<in> set (map seal_pair xs) \<Longrightarrow> l = k \<and> n \<le> x \<and> unat x < m"
proof -
  have "distinct (map (unat \<circ> oe_nonce) xs)" unfolding m by simp
  moreover have "map (unat \<circ> oe_nonce) xs = map (unat \<circ> snd) (map seal_pair xs)" by (simp add: seal_pair_def comp_def)
  ultimately show "distinct (map seal_pair xs)" by (metis distinct_map)
  assume "(l, x) \<in> set (map seal_pair xs)"
  then obtain y where y: "y \<in> set xs" "l = the (oe_keypair y)" "x = oe_nonce y" by (auto simp: seal_pair_def)
  have "(unat \<circ> oe_nonce) y \<in> set [unat n..<m]" unfolding m [symmetric] using y by simp
  with y k show "l = k \<and> n \<le> x \<and> unat x < m" by (simp add: word_le_nat_alt)
qed

text \<open>Raising the counter of a key pair and queueing the elements that received the nonces skipped.\<close>

lemma nonce_inv_release:
  assumes inv: "nonce_inv dev" and k: "k < next_kid dev" and n: "n = kp_sendNonce (keypair_heap dev k)"
    and l: "staged_loop p k False n staged = (rel, staged', n', hs)"
    and d: "d = fold (release_container p) rel (upd_peer p (\<lambda>q. q\<lparr>q_staged := staged'\<rparr>)
      (upd_keypair k (\<lambda>kp. kp\<lparr>kp_sendNonce := n'\<rparr>) dev))"
  shows "nonce_inv d"
proof -
  let ?d0 = "upd_peer p (\<lambda>q. q\<lparr>q_staged := staged'\<rparr>) (upd_keypair k (\<lambda>kp. kp\<lparr>kp_sendNonce := n'\<rparr>) dev)"
  have "n \<le> RejectAfterMessages" using inv n by (simp add: nonce_inv_def counters_ok_def)
  note s = staged_loop_spec [OF l this]
  then have le: "n \<le> n'" "n' \<le> RejectAfterMessages" by (simp_all add: word_le_nat_alt)
  have e: "evolves dev ?d0"
    using le n by (auto simp: evolves_defs dev_upd_defs)
  have i0: "nonce_inv ?d0" by (rule evolves_nonce_inv [OF inv e])
  have m: "map (unat \<circ> oe_nonce) (concat rel) = [unat n..<unat n']" using s by auto
  have kk: "\<forall>x\<in>set (concat rel). oe_keypair x = Some k" using s by blast
  show ?thesis
  proof (cases "isRunning (peers ?d0 p)")
    case False
    then show ?thesis using i0 release_not_running d by simp
  next
    case True
    have c0: "counters_ok ?d0" using i0 by (simp add: nonce_inv_def)
    note r = release_fold [OF True d]
    have p: "pending d = pending ?d0 @ map seal_pair (concat rel)" unfolding d by (rule pending_release [OF True c0])
    have l0: "seal_log ?d0 = seal_log dev" by (simp add: dev_upd_defs)
    have lg: "seal_log d = seal_log dev" using r l0 by simp
    have p0: "pending ?d0 = pending dev" by (simp add: pending_def cid_pairs_def [abs_def] dev_upd_defs)
    have old: "x < n" if "(k, x) \<in> set (seal_log dev @ pending dev)" for x
      using inv n that by (auto simp: nonce_inv_def pairs_below_def)
    note new = map_nonces(1) [OF m kk]
    have lo: "l = k \<and> n \<le> x \<and> x < n'" if "(l, x) \<in> set (map seal_pair (concat rel))" for l x
      using map_nonces(2) [OF m kk that] by (simp add: word_less_nat_alt)
    have disj: "set (seal_log dev @ pending dev) \<inter> set (map seal_pair (concat rel)) = {}"
      using old lo by (metis disjoint_iff linorder_not_le surj_pair)
    have f: "keypair_heap d = keypair_heap ?d0" "next_kid d = next_kid ?d0" "\<And>q. keypairs (peers d q) = keypairs (peers ?d0 q)"
      "q_encryption d = q_encryption ?d0 @ [next_cid ?d0..<next_cid d]" "next_cid ?d0 \<le> next_cid d"
      using r by simp_all
    have "counters_ok d"
      using c0 f(5) unfolding counters_ok_def f by auto
    moreover have "distinct (seal_log d @ pending d)"
      using i0 new disj unfolding p p0 lg nonce_inv_def l0 by auto
    moreover {
    have "pairs_below d (set (map seal_pair (concat rel)))"
      unfolding pairs_below_def f
      by (intro ballI) (use lo k in \<open>auto simp: dev_upd_defs simp del: set_map dest: lo\<close>)
    moreover have "pairs_below d (set (seal_log dev @ pending ?d0))"
      using i0 unfolding nonce_inv_def pairs_below_def f l0 by blast
    ultimately have "pairs_below d (set (seal_log d @ pending d))"
      unfolding p lg append_assoc [symmetric] set_append [of "seal_log dev @ _"] pairs_below_Un by simp
    }
    ultimately show ?thesis by (simp add: nonce_inv_def)
  qed
qed

lemma current_slot: "ks_current ks = Some k \<Longrightarrow> k \<in> slots ks"
  by (simp add: slots_def)

lemma nonce_inv_handshake:
  "nonce_inv dev \<Longrightarrow> pred_option nonce_inv (map_option snd (SendHandshakeInitiation c e isRetry p dev))"
  by (rule pred_option_weaken [OF evolves_handshake_snd [OF evolves_refl]]) (rule evolves_nonce_inv)

lemma nonce_inv_SendStagedPackets:
  assumes "nonce_inv dev"
  shows "pred_option nonce_inv (SendStagedPackets c e p dev)"
proof (cases "ks_current (keypairs (peers dev p))")
  case None
  then show ?thesis using assms by (auto simp: SendStagedPackets_def Let_def intro: nonce_inv_handshake)
next
  case (Some k)
  then have k: "k < next_kid dev" using assms current_slot [OF Some] by (auto simp: nonce_inv_def counters_ok_def)
  obtain rel staged' n' hs where l: "staged_loop p k False (kp_sendNonce (keypair_heap dev k)) (q_staged (peers dev p))
      = (rel, staged', n', hs)" by (metis prod_cases4)
  note r = nonce_inv_release [OF assms k refl l refl]
  show ?thesis
    using Some l r assms by (auto simp: SendStagedPackets_def Let_def intro!: nonce_inv_handshake)
qed

lemma nonce_inv_SendKeepalive:
  assumes "nonce_inv dev"
  shows "pred_option nonce_inv (SendKeepalive c e p dev)"
proof -
  have "nonce_inv (upd_peer p (\<lambda>q. q\<lparr>q_staged := [[new_elem []]]\<rparr>) dev)"
    by (rule evolves_nonce_inv [OF assms]) simp
  with assms show ?thesis by (auto simp: SendKeepalive_def Let_def intro: nonce_inv_SendStagedPackets)
qed

lemma nonce_inv_stage_groups: "nonce_inv dev \<Longrightarrow> pred_option nonce_inv (stage_groups c e gs dev)"
proof (induction gs arbitrary: dev)
  case (Cons g gs)
  obtain p elems where g: "g = (p, elems)" by (cases g)
  have "nonce_inv (upd_peer p (\<lambda>q. q\<lparr>q_staged := StagePackets elems (q_staged q)\<rparr>) dev)"
    by (rule evolves_nonce_inv [OF Cons.prems]) simp
  with Cons show ?case
    by (auto simp: g intro!: pred_option_bind [OF nonce_inv_SendStagedPackets])
qed simp

lemma nonce_inv_expired:
  assumes "nonce_inv dev"
  shows "pred_option nonce_inv (expiredRetransmitHandshake c e p dev)"
    "pred_option nonce_inv (expiredSendKeepalive c e p dev)"
    "pred_option nonce_inv (expiredNewHandshake c e p dev)"
    "nonce_inv (expiredZeroKeyMaterial p dev)"
    "pred_option nonce_inv (expiredPersistentKeepalive c e p dev)"
proof -
  note ev = evolves_nonce_inv [OF assms]
  show "pred_option nonce_inv (expiredRetransmitHandshake c e p dev)"
    by (auto simp: expiredRetransmitHandshake_def Let_def intro!: ev evolves_steps nonce_inv_handshake)
  show "pred_option nonce_inv (expiredSendKeepalive c e p dev)"
    unfolding expiredSendKeepalive_def
    by (rule pred_option_bind [OF nonce_inv_SendKeepalive [OF assms]])
       (auto simp: Let_def elim!: evolves_nonce_inv intro!: evolves_steps)
  show "pred_option nonce_inv (expiredNewHandshake c e p dev)"
    by (auto simp: expiredNewHandshake_def Let_def intro!: ev nonce_inv_handshake)
  show "nonce_inv (expiredZeroKeyMaterial p dev)"
    unfolding expiredZeroKeyMaterial_def by (rule ev [OF evolves_ZeroAndFlushAll])
  show "pred_option nonce_inv (expiredPersistentKeepalive c e p dev)"
    using assms by (simp add: expiredPersistentKeepalive_def nonce_inv_SendKeepalive)
qed

section \<open>Sealing\<close>

lemma distinct_move:
  "distinct (log @ concat (map f xs)) \<Longrightarrow> cid \<in> set xs \<Longrightarrow>
   distinct (log @ f cid @ concat (map f (remove1 cid xs)))
   \<and> set (log @ f cid @ concat (map f (remove1 cid xs))) = set (log @ concat (map f xs))"
proof -
  assume d: "distinct (log @ concat (map f xs))" and c: "cid \<in> set xs"
  have m: "mset (log @ concat (map f xs)) = mset (log @ f cid @ concat (map f (remove1 cid xs)))"
    using c by (induction xs) auto
  show ?thesis using d mset_eq_imp_distinct_iff [OF m] mset_eq_setD [OF m] by simp
qed

text \<open>A worker seals all elements of a container; their pairs move to the log.\<close>

lemma nonce_inv_seal:
  assumes inv: "nonce_inv dev" and step: "RoutineEncryption_step c cid dev = Some dev'"
  shows "nonce_inv dev'"
proof -
  obtain elems where d: "cid \<in> set (q_encryption dev)" "dev' = dev\<lparr>q_encryption := remove1 cid (q_encryption dev),
      outb_heap := (outb_heap dev)(cid := \<lparr>oc_elems = elems, oc_locked = False\<rparr>), seal_log := seal_log dev @ cid_pairs dev cid\<rparr>"
    using step by (auto simp: cid_pairs_def RoutineEncryption_step_def bind_eq_Some_conv split: if_splits)
  have c: "counters_ok dev" "distinct (q_encryption dev)" using inv by (auto simp: nonce_inv_def counters_ok_def)
  have p: "pending dev' = concat (map (cid_pairs dev) (remove1 cid (q_encryption dev)))"
    unfolding pending_def using c(2) d by (auto simp: cid_pairs_def intro!: arg_cong [where f = concat])
  have lg: "seal_log dev' = seal_log dev @ cid_pairs dev cid" by (simp add: d(2))
  have "counters_ok dev'"
    using c d by (auto simp: counters_ok_def dest: notin_set_remove1)
  moreover have "distinct (seal_log dev @ concat (map (cid_pairs dev) (q_encryption dev)))"
    using inv by (simp only: nonce_inv_def pending_def)
  note m = distinct_move [OF this d(1)]
  have "pairs_below dev' S = pairs_below dev S" for S by (simp add: pairs_below_def d(2))
  ultimately show ?thesis
    using inv m unfolding nonce_inv_def p lg append_assoc by (simp only: pending_def)
qed

section \<open>The inbound part of the sending functions\<close>

lemma in_evolves_release: "in_evolves dev (fold (release_container p) rel dev)"
proof (induction rel arbitrary: dev)
  case (Cons x xs)
  have "in_evolves dev (release_container p x dev)"
    by (simp add: release_container_def Let_def upd_peer_def in_evolves_def same_life_def)
  then show ?case using Cons in_evolves_trans by fastforce
qed simp

lemma in_evolves_handshake:
  "in_evolves dev d \<Longrightarrow> pred_option (in_evolves dev) (map_option snd (SendHandshakeInitiation c e isRetry p d))"
  by (rule pred_option_weaken [OF evolves_handshake_snd [OF evolves_refl]])
     (blast intro: in_evolves_trans evolves_in)

lemma in_evolves_SendStagedPackets: "pred_option (in_evolves dev) (SendStagedPackets c e p dev)"
proof (cases "ks_current (keypairs (peers dev p))")
  case None
  then show ?thesis by (auto simp: SendStagedPackets_def Let_def intro: in_evolves_handshake)
next
  case (Some k)
  obtain rel staged' n' hs where l: "staged_loop p k False (kp_sendNonce (keypair_heap dev k)) (q_staged (peers dev p))
      = (rel, staged', n', hs)" by (metis prod_cases4)
  have "in_evolves dev (upd_peer p (\<lambda>q. q\<lparr>q_staged := staged'\<rparr>) (upd_keypair k (\<lambda>kp. kp\<lparr>kp_sendNonce := n'\<rparr>) dev))"
    by (simp add: in_evolves_def same_life_def dev_upd_defs)
  note r = in_evolves_trans [OF this in_evolves_release [where p = p and rel = rel]]
  show ?thesis
    using Some l r by (auto simp: SendStagedPackets_def Let_def intro!: in_evolves_handshake)
qed

lemma in_evolves_SendStagedPackets_from:
  "in_evolves dev d \<Longrightarrow> pred_option (in_evolves dev) (SendStagedPackets c e p d)"
  by (rule pred_option_weaken [OF in_evolves_SendStagedPackets]) (rule in_evolves_trans)

lemma in_evolves_SendKeepalive:
  assumes "in_evolves dev d"
  shows "pred_option (in_evolves dev) (SendKeepalive c e p d)"
proof -
  have "in_evolves dev (upd_peer p (\<lambda>q. q\<lparr>q_staged := [[new_elem []]]\<rparr>) d)"
    by (rule in_evolves_trans [OF assms evolves_in]) simp
  with assms show ?thesis
    unfolding SendKeepalive_def Let_def by (intro in_evolves_SendStagedPackets_from) simp
qed

lemma in_evolves_stage_groups: "in_evolves dev d \<Longrightarrow> pred_option (in_evolves dev) (stage_groups c e gs d)"
proof (induction gs arbitrary: d)
  case (Cons g gs)
  obtain p elems where g: "g = (p, elems)" by (cases g)
  have "in_evolves dev (upd_peer p (\<lambda>q. q\<lparr>q_staged := StagePackets elems (q_staged q)\<rparr>) d)"
    by (rule in_evolves_trans [OF Cons.prems]) (simp add: evolves_in)
  with Cons show ?case
    by (auto simp: g intro!: pred_option_bind [OF in_evolves_SendStagedPackets_from])
qed simp

lemma in_evolves_expired:
  "pred_option (in_evolves dev) (expiredRetransmitHandshake c e p dev)"
  "pred_option (in_evolves dev) (expiredSendKeepalive c e p dev)"
  "pred_option (in_evolves dev) (expiredNewHandshake c e p dev)"
  "in_evolves dev (expiredZeroKeyMaterial p dev)"
  "pred_option (in_evolves dev) (expiredPersistentKeepalive c e p dev)"
proof -
  show "pred_option (in_evolves dev) (expiredRetransmitHandshake c e p dev)"
    by (auto simp: expiredRetransmitHandshake_def Let_def intro!: evolves_in evolves_steps in_evolves_handshake)
  have "in_evolves dev (upd_timers p f d)" if "in_evolves dev d" for f d
    by (rule in_evolves_trans [OF that evolves_in]) simp
  then show "pred_option (in_evolves dev) (expiredSendKeepalive c e p dev)"
    unfolding expiredSendKeepalive_def
    by (auto simp: Let_def intro!: pred_option_bind [OF in_evolves_SendKeepalive])
  show "pred_option (in_evolves dev) (expiredNewHandshake c e p dev)"
    by (auto simp: expiredNewHandshake_def Let_def intro!: evolves_in in_evolves_handshake)
  show "in_evolves dev (expiredZeroKeyMaterial p dev)"
    unfolding expiredZeroKeyMaterial_def by (rule evolves_in [OF evolves_ZeroAndFlushAll])
  show "pred_option (in_evolves dev) (expiredPersistentKeepalive c e p dev)"
    by (simp add: expiredPersistentKeepalive_def in_evolves_SendKeepalive)
qed

lemma in_evolves_RoutineEncryption: "pred_option (in_evolves dev) (RoutineEncryption_step c cid dev)"
  unfolding RoutineEncryption_step_def
  by (auto intro!: pred_option_bind_any simp: in_evolves_def same_life_def)

lemma in_evolves_ExpireCurrentKeypairs: "in_evolves dev (ExpireCurrentKeypairs e p dev)"
  using table_kids_delete
  by (auto simp: ExpireCurrentKeypairs_def Let_def in_evolves_def same_life_def dev_upd_defs split: option.splits)

end
