(* ===== verification/Receive.thy ===== *)
theory Receive
  imports Nonces
begin

text \<open>
  The inbound path, \<^verbatim>\<open>src/device/receive.go\<close>, and \<open>IsUnderLoad\<close> of \<^verbatim>\<open>src/device/device.go\<close>. Each
  goroutine is one iteration of its loop: \<open>RoutineReceiveIncoming_step\<close> takes what \<open>recv\<close> returned,
  \<open>RoutineDecryption_step\<close> one container, \<open>RoutineHandshake_step\<close> the next handshake message,
  \<open>RoutineSequentialReceiver_step\<close> the next container of a peer. \<open>None\<close> is a panic, a wait (an empty
  queue, a container that is still locked) or an unfinished search for a free index.
\<close>

section \<open>Incoming datagrams\<close>

datatype recv_error = NetErrClosed | NetErrPermanent | NetErrOther

datatype recv_result = RecvErr recv_error | RecvBatch "(bytes \<times> Endpoint) list"

text \<open>\<open>elemsByPeer\<close> is an association list from peers to the elements of their containers.\<close>

type_synonym inbound_groups = "(pid \<times> QueueInboundElement list) list"

definition group_append :: "pid \<Rightarrow> QueueInboundElement \<Rightarrow> inbound_groups \<Rightarrow> inbound_groups" where
  "group_append peer elem m =
     (let elems = (case map_of m peer of None \<Rightarrow> [] | Some es \<Rightarrow> es)
      in AList.update peer (elems @ [elem]) m)"

definition receive_transport ::
  "env \<Rightarrow> bytes \<Rightarrow> Endpoint \<Rightarrow> Device \<Rightarrow> inbound_groups \<Rightarrow> inbound_groups" where
  "receive_transport e packet ep dev m =
     (if length packet < MessageTransportSize then m
      else
        let receiver = le_word (go_slice MessageTransportOffsetReceiver MessageTransportOffsetCounter packet)
        in case indexTable dev receiver of
             None \<Rightarrow> m
           | Some value \<Rightarrow>
               case ie_keypair value of
                 None \<Rightarrow> m
               | Some keypair \<Rightarrow>
                   if kp_created (keypair_heap dev keypair) + RejectAfterTime < env_now e then m
                   else
                     let peer = ie_peer value;
                         elem = \<lparr>in_packet = Some packet, in_counter = 0, in_keypair = keypair, in_endpoint = ep\<rparr>
                     in group_append peer elem m)"

text \<open>The length a handshake message of a type must have.\<close>

definition handshake_length :: "u32 \<Rightarrow> nat option" where
  "handshake_length msgType =
     (if msgType = MessageInitiationType then Some MessageInitiationSize
      else if msgType = MessageResponseType then Some MessageResponseSize
      else if msgType = MessageCookieReplyType then Some MessageCookieReplySize
      else None)"

fun receive_packets ::
  "env \<Rightarrow> (bytes \<times> Endpoint) list \<Rightarrow> Device \<Rightarrow> inbound_groups \<Rightarrow> inbound_groups \<times> Device" where
  "receive_packets e [] dev m = (m, dev)"
| "receive_packets e ((packet, ep) # batch) dev m =
     (if length packet < MinMessageSize then receive_packets e batch dev m
      else
        let msgType = le_word (go_slice 0 4 packet)
        in if msgType = MessageTransportType
           then receive_packets e batch dev (receive_transport e packet ep dev m)
           else if handshake_length msgType \<noteq> Some (length packet) then receive_packets e batch dev m
           else if length (q_handshake dev) < QueueHandshakeSize
           then receive_packets e batch (dev\<lparr>q_handshake := q_handshake dev
             @ [\<lparr>qh_msgType = msgType, qh_packet = packet, qh_endpoint = ep\<rparr>]\<rparr>) m
           else receive_packets e batch dev m)"

fun queue_groups :: "inbound_groups \<Rightarrow> Device \<Rightarrow> Device" where
  "queue_groups [] dev = dev"
| "queue_groups ((p, elems) # groups) dev =
     (if isRunning (peers dev p) then
        let cid = next_cid dev;
            dev = dev\<lparr>inb_heap := (inb_heap dev)(cid := \<lparr>ic_elems = elems, ic_locked = True\<rparr>), next_cid := Suc cid\<rparr>;
            dev = upd_peer p (\<lambda>q. q\<lparr>q_inbound := q_inbound q @ [Some cid]\<rparr>) dev
        in queue_groups groups (dev\<lparr>q_decryption := q_decryption dev @ [cid]\<rparr>)
      else queue_groups groups dev)"

text \<open>The flag says whether the routine goes on; the number is \<open>deathSpiral\<close>.\<close>

definition RoutineReceiveIncoming_step ::
  "env \<Rightarrow> recv_result \<Rightarrow> nat \<Rightarrow> Device \<Rightarrow> bool \<times> nat \<times> Device" where
  "RoutineReceiveIncoming_step e r deathSpiral dev =
     (case r of
        RecvErr NetErrClosed \<Rightarrow> (False, deathSpiral, dev)
      | RecvErr NetErrPermanent \<Rightarrow> (False, deathSpiral, dev)
      | RecvErr NetErrOther \<Rightarrow>
          if deathSpiral < 10 then (True, deathSpiral + 1, dev) else (False, deathSpiral, dev)
      | RecvBatch batch \<Rightarrow>
          let (m, dev) = receive_packets e batch dev []
          in (True, 0, queue_groups m dev))"

section \<open>Decryption\<close>

definition decrypt_elem :: "crypto \<Rightarrow> Device \<Rightarrow> QueueInboundElement \<Rightarrow> QueueInboundElement option" where
  "decrypt_elem c dev elem =
     (case in_packet elem of
        None \<Rightarrow> None
      | Some packet \<Rightarrow>
          if length packet < MessageTransportOffsetContent then None
          else
            let counter = le_word (go_slice MessageTransportOffsetCounter MessageTransportOffsetContent packet);
                content = drop MessageTransportOffsetContent packet
            in Some (elem\<lparr>in_counter := counter,
                 in_packet := aead_Open c (kp_receive (keypair_heap dev (in_keypair elem))) (nonce_bytes counter)
                   content []\<rparr>))"

fun decrypt_elems :: "crypto \<Rightarrow> Device \<Rightarrow> QueueInboundElement list \<Rightarrow> QueueInboundElement list option" where
  "decrypt_elems c dev [] = Some []"
| "decrypt_elems c dev (x # xs) = do { y \<leftarrow> decrypt_elem c dev x; ys \<leftarrow> decrypt_elems c dev xs; Some (y # ys) }"

definition RoutineDecryption_step :: "crypto \<Rightarrow> cid \<Rightarrow> Device \<Rightarrow> Device option" where
  "RoutineDecryption_step c cid dev =
     (if cid \<in> set (q_decryption dev) then do {
        elems \<leftarrow> decrypt_elems c dev (ic_elems (inb_heap dev cid));
        Some (dev\<lparr>q_decryption := remove1 cid (q_decryption dev),
          inb_heap := (inb_heap dev)(cid := \<lparr>ic_elems = elems, ic_locked = False\<rparr>)\<rparr>)
      }
      else None)"

section \<open>Handshake messages\<close>

definition IsUnderLoad :: "env \<Rightarrow> Device \<Rightarrow> bool \<times> Device" where
  "IsUnderLoad e dev =
     (let now = env_now e;
          underLoad = (length (q_handshake dev) \<ge> QueueHandshakeSize div 8)
      in if underLoad then (True, dev\<lparr>underLoadUntil := UnixNano (now + UnderLoadAfterTime)\<rparr>)
         else (underLoadUntil dev > UnixNano now, dev))"

definition handle_cookie_reply :: "crypto \<Rightarrow> env \<Rightarrow> QueueHandshakeElement \<Rightarrow> Device \<Rightarrow> Device" where
  "handle_cookie_reply c e elem dev =
     (case unmarshal_cookie_reply (qh_packet elem) of
        Inl _ \<Rightarrow> dev
      | Inr reply \<Rightarrow>
          case IndexTable_Lookup (mc_Receiver reply) (indexTable dev) of
            (None, _) \<Rightarrow> dev
          | (Some peer, _) \<Rightarrow>
              if isRunning (peers dev peer) then
                upd_peer peer (\<lambda>q. q\<lparr>cookieGenerator :=
                  snd (ConsumeReply c (env_now e) (cookieGenerator (peers dev peer)) reply)\<rparr>) dev
              else dev)"

text \<open>The MAC checks and the rate limit: whether the message is processed further.\<close>

definition handshake_admit ::
  "crypto \<Rightarrow> env \<Rightarrow> QueueHandshakeElement \<Rightarrow> Device \<Rightarrow> (bool \<times> Device) option" where
  "handshake_admit c e elem dev =
     do {
       mac1 \<leftarrow> CheckMAC1 c (cookieChecker dev) (qh_packet elem);
       if \<not> mac1 then Some (False, dev)
       else
         let (underLoad, dev) = IsUnderLoad e dev
         in if \<not> underLoad then Some (True, dev)
            else do {
              mac2 \<leftarrow> CheckMAC2 c (env_now e) (cookieChecker dev) (qh_packet elem) (DstToBytes (qh_endpoint elem));
              if \<not> mac2 then do {
                (_, dev) \<leftarrow> SendHandshakeCookie c e elem dev;
                Some (False, dev)
              }
              else
                case Rate_Allow (env_now e) (DstIP (qh_endpoint elem)) (limiter dev) of
                  Inl _ \<Rightarrow> None
                | Inr (allow, lim) \<Rightarrow> Some (allow, dev\<lparr>limiter := lim\<rparr>)
            }
     }"

definition handle_initiation ::
  "crypto \<Rightarrow> env \<Rightarrow> QueueHandshakeElement \<Rightarrow> Device \<Rightarrow> Device option" where
  "handle_initiation c e elem dev =
     (case unmarshal_initiation (qh_packet elem) of
        Inl _ \<Rightarrow> Some dev
      | Inr msg \<Rightarrow>
          case ConsumeMessageInitiation c e msg dev of
            (None, dev) \<Rightarrow> Some dev
          | (Some peer, dev) \<Rightarrow>
              let dev = timersAnyAuthenticatedPacketTraversal e peer dev;
                  dev = timersAnyAuthenticatedPacketReceived peer dev;
                  dev = SetEndpointFromPacket peer (qh_endpoint elem) dev;
                  dev = upd_peer peer (\<lambda>q. q\<lparr>rxBytes := rxBytes q + of_nat (length (qh_packet elem))\<rparr>) dev
              in map_option snd (SendHandshakeResponse c e peer dev))"

definition handle_response ::
  "crypto \<Rightarrow> env \<Rightarrow> QueueHandshakeElement \<Rightarrow> Device \<Rightarrow> Device option" where
  "handle_response c e elem dev =
     (case unmarshal_response (qh_packet elem) of
        Inl _ \<Rightarrow> Some dev
      | Inr msg \<Rightarrow>
          case ConsumeMessageResponse c msg dev of
            (None, dev) \<Rightarrow> Some dev
          | (Some peer, dev) \<Rightarrow>
              let dev = SetEndpointFromPacket peer (qh_endpoint elem) dev;
                  dev = upd_peer peer (\<lambda>q. q\<lparr>rxBytes := rxBytes q + of_nat (length (qh_packet elem))\<rparr>) dev;
                  dev = timersAnyAuthenticatedPacketTraversal e peer dev;
                  dev = timersAnyAuthenticatedPacketReceived peer dev;
                  (err, dev) = BeginSymmetricSession c e peer dev
              in if err \<noteq> None then Some dev
                 else
                   let dev = timersSessionDerived e peer dev;
                       dev = timersHandshakeComplete e peer dev
                   in SendKeepalive c e peer dev)"

definition RoutineHandshake_step :: "crypto \<Rightarrow> env \<Rightarrow> Device \<Rightarrow> Device option" where
  "RoutineHandshake_step c e dev =
     (case q_handshake dev of
        [] \<Rightarrow> None
      | elem # rest \<Rightarrow>
          let dev = dev\<lparr>q_handshake := rest\<rparr>
          in if qh_msgType elem = MessageCookieReplyType then Some (handle_cookie_reply c e elem dev)
             else if qh_msgType elem = MessageInitiationType \<or> qh_msgType elem = MessageResponseType then do {
               (admit, dev) \<leftarrow> handshake_admit c e elem dev;
               if \<not> admit then Some dev
               else if qh_msgType elem = MessageInitiationType then handle_initiation c e elem dev
               else handle_response c e elem dev
             }
             else Some dev)"

section \<open>Sequential receiving\<close>

text \<open>The checks on a decrypted packet: \<open>Some (Some b)\<close> for the bytes to be written to the TUN device,
  \<open>Some None\<close> when it is dropped. The IPv6 length is computed in 16 bits and may wrap; the source
  address is then still read from the buffer behind the slice.\<close>

definition inner_packet :: "pid \<Rightarrow> bytes \<Rightarrow> Device \<Rightarrow> bytes option option" where
  "inner_packet p packet dev =
     (let version = drop_bit 4 (packet ! 0)
      in if version = 4 then
           if length packet < 20 then Some None
           else
             let len = unat (be_word (go_slice IPv4offsetTotalLength (IPv4offsetTotalLength + 2) packet) :: u16)
             in if len > length packet \<or> len < 20 then Some None
                else do {
                  owner \<leftarrow> Lookup (allowedips dev) (go_slice IPv4offsetSrc (IPv4offsetSrc + 4) packet);
                  Some (if owner \<noteq> Some p then None else Some (take len packet))
                }
         else if version = 6 then
           if length packet < 40 then Some None
           else
             let len = unat ((be_word (go_slice IPv6offsetPayloadLength (IPv6offsetPayloadLength + 2) packet) :: u16) + 40)
             in if len > length packet then Some None
                else do {
                  owner \<leftarrow> Lookup (allowedips dev) (go_slice IPv6offsetSrc (IPv6offsetSrc + 16) packet);
                  Some (if owner \<noteq> Some p then None else Some (take len packet))
                }
         else Some None)"

text \<open>The variables of one iteration: the endpoint of \<open>validTailPacket\<close>, \<open>dataPacketReceived\<close>,
  \<open>rxBytesLen\<close> and \<open>bufs\<close>.\<close>

record recv_vars =
  rv_tail :: "Endpoint option"
  rv_data :: bool
  rv_rx :: u64
  rv_bufs :: "bytes list"

definition confirm_keypair :: "crypto \<Rightarrow> env \<Rightarrow> pid \<Rightarrow> QueueInboundElement \<Rightarrow> Device \<Rightarrow> Device option" where
  "confirm_keypair c e p elem dev =
     (let (confirmed, dev) = ReceivedWithKeypair p (in_keypair elem) dev
      in if confirmed then
           let dev = SetEndpointFromPacket p (in_endpoint elem) dev;
               dev = timersHandshakeComplete e p dev
           in SendStagedPackets c e p dev
         else Some dev)"

definition accept_packet :: "pid \<Rightarrow> bytes \<Rightarrow> recv_vars \<Rightarrow> Device \<Rightarrow> recv_vars option" where
  "accept_packet p packet v dev =
     (let v = v\<lparr>rv_rx := rv_rx v + of_nat (length packet + MinMessageSize)\<rparr>
      in if packet = [] then Some v
         else do {
           let v = v\<lparr>rv_data := True\<rparr>;
           r \<leftarrow> inner_packet p packet dev;
           Some (case r of None \<Rightarrow> v | Some b \<Rightarrow> v\<lparr>rv_bufs := rv_bufs v @ [b]\<rparr>)
         })"

text \<open>\<open>ValidateCounter\<close> on the filter of the element's key pair.\<close>

definition validate_elem :: "QueueInboundElement \<Rightarrow> Device \<Rightarrow> bool \<times> Device" where
  "validate_elem elem dev =
     (let k = in_keypair elem;
          (ok, filt) = ValidateCounter (kp_replayFilter (keypair_heap dev k)) (in_counter elem) RejectAfterMessages;
          dev = upd_keypair k (\<lambda>kp. kp\<lparr>kp_replayFilter := filt\<rparr>) dev
      in (ok, if ok then dev\<lparr>accept_log := accept_log dev @ [(k, in_counter elem)]\<rparr> else dev))"

definition receive_elem ::
  "crypto \<Rightarrow> env \<Rightarrow> pid \<Rightarrow> QueueInboundElement \<Rightarrow> recv_vars \<Rightarrow> Device \<Rightarrow> (recv_vars \<times> Device) option" where
  "receive_elem c e p elem v dev =
     (case in_packet elem of
        None \<Rightarrow> Some (v, dev)
      | Some packet \<Rightarrow>
          let (ok, dev) = validate_elem elem dev
          in if \<not> ok then Some (v, dev)
             else do {
               dev \<leftarrow> confirm_keypair c e p elem dev;
               v \<leftarrow> accept_packet p packet (v\<lparr>rv_tail := Some (in_endpoint elem)\<rparr>) dev;
               Some (v, dev)
             })"

fun receive_elems ::
  "crypto \<Rightarrow> env \<Rightarrow> pid \<Rightarrow> QueueInboundElement list \<Rightarrow> recv_vars \<Rightarrow> Device \<Rightarrow> (recv_vars \<times> Device) option" where
  "receive_elems c e p [] v dev = Some (v, dev)"
| "receive_elems c e p (elem # elems) v dev =
     do { (v, dev) \<leftarrow> receive_elem c e p elem v dev; receive_elems c e p elems v dev }"

text \<open>The end of an iteration of the sequential receiver, after the loop over the container.\<close>

definition receive_tail :: "crypto \<Rightarrow> env \<Rightarrow> pid \<Rightarrow> recv_vars \<Rightarrow> Device \<Rightarrow> Device option" where
  "receive_tail c e p v dev = do {
     let dev = upd_peer p (\<lambda>q. q\<lparr>rxBytes := rxBytes q + rv_rx v\<rparr>) dev;
     dev \<leftarrow> (case rv_tail v of
         None \<Rightarrow> Some dev
       | Some ep \<Rightarrow> do {
           let dev = SetEndpointFromPacket p ep dev;
           dev \<leftarrow> keepKeyFreshReceiving c e p dev;
           let dev = timersAnyAuthenticatedPacketTraversal e p dev;
           Some (timersAnyAuthenticatedPacketReceived p dev)
         });
     Some (if rv_data v then timersDataReceived e p dev else dev)
   }"

definition RoutineSequentialReceiver_step ::
  "crypto \<Rightarrow> env \<Rightarrow> pid \<Rightarrow> Device \<Rightarrow> (bool \<times> Device) option" where
  "RoutineSequentialReceiver_step c e p dev =
     (case q_inbound (peers dev p) of
        [] \<Rightarrow> None
      | None # rest \<Rightarrow> Some (False, upd_peer p (\<lambda>q. q\<lparr>q_inbound := rest\<rparr>) dev)
      | Some cid # rest \<Rightarrow>
          if ic_locked (inb_heap dev cid) then None
          else do {
            let elems = ic_elems (inb_heap dev cid);
            let dev = upd_peer p (\<lambda>q. q\<lparr>q_inbound := rest\<rparr>) dev;
            (v, dev) \<leftarrow> receive_elems c e p elems
              \<lparr>rv_tail = None, rv_data = False, rv_rx = 0, rv_bufs = []\<rparr> dev;
            dev \<leftarrow> receive_tail c e p v dev;
            let dev = (if rv_bufs v \<noteq> [] then dev\<lparr>tun_out := tun_out dev @ rv_bufs v\<rparr> else dev);
            Some (True, dev)
          })"

section \<open>What is accepted and delivered\<close>

text \<open>The elements of a container whose counters the replay filters accept, and the filters after.\<close>

fun accepted_elems ::
  "QueueInboundElement list \<Rightarrow> (kid \<Rightarrow> Filter) \<Rightarrow> QueueInboundElement list \<times> (kid \<Rightarrow> Filter)" where
  "accepted_elems [] F = ([], F)"
| "accepted_elems (x # xs) F =
     (if in_packet x = None then accepted_elems xs F
      else
        let (ok, f) = ValidateCounter (F (in_keypair x)) (in_counter x) RejectAfterMessages;
            (as, F') = accepted_elems xs (F(in_keypair x := f))
        in (if ok then x # as else as, F'))"

text \<open>What an accepted element adds to the packets for the TUN device.\<close>

definition deliver :: "pid \<Rightarrow> Device \<Rightarrow> QueueInboundElement \<Rightarrow> bytes list" where
  "deliver p dev x =
     (case in_packet x of
        None \<Rightarrow> []
      | Some packet \<Rightarrow>
          if packet = [] then []
          else case inner_packet p packet dev of Some (Some b) \<Rightarrow> [b] | _ \<Rightarrow> [])"

lemma inner_packet_cong: "allowedips dev' = allowedips dev \<Longrightarrow> inner_packet p x dev' = inner_packet p x dev"
  by (simp only: inner_packet_def)

lemma deliver_cong: "allowedips dev' = allowedips dev \<Longrightarrow> deliver p dev' x = deliver p dev x"
  by (cases "in_packet x") (simp_all add: deliver_def inner_packet_cong [of dev' dev])

text \<open>\<open>recv_inv\<close>: the pairs of key pair and counter accepted so far are all different, and each filter
  knows its own.\<close>

definition counters_of :: "kid \<Rightarrow> (kid \<times> u64) list \<Rightarrow> nat set" where
  "counters_of k log = {unat n |n. (k, n) \<in> set log}"

definition recv_inv :: "Device \<Rightarrow> bool" where
  "recv_inv dev \<longleftrightarrow>
     (\<forall>k<next_kid dev. filter_inv (kp_replayFilter (keypair_heap dev k)) (counters_of k (accept_log dev)))
     \<and> distinct (accept_log dev) \<and> (\<forall>(k, n)\<in>set (accept_log dev). k < next_kid dev)
     \<and> (\<forall>k\<in>table_kids (indexTable dev). k < next_kid dev)
     \<and> (\<forall>cid. \<forall>x\<in>set (ic_elems (inb_heap dev cid)). in_keypair x < next_kid dev)"

lemma recv_invD:
  assumes "recv_inv dev"
  shows "k < next_kid dev \<Longrightarrow> filter_inv (kp_replayFilter (keypair_heap dev k)) (counters_of k (accept_log dev))"
    "distinct (accept_log dev)" "(k, n) \<in> set (accept_log dev) \<Longrightarrow> k < next_kid dev" "k \<in> table_kids (indexTable dev) \<Longrightarrow> k < next_kid dev"
    "x \<in> set (ic_elems (inb_heap dev cid)) \<Longrightarrow> in_keypair x < next_kid dev"
  using assms by (auto simp: recv_inv_def)

lemma recv_inv_evolves:
  assumes "recv_inv dev" "in_evolves dev d"
  shows "recv_inv d"
proof -
  note i = recv_invD [OF assms(1)] and e = in_evolvesD [OF assms(2)]
  have "filter_inv (kp_replayFilter (keypair_heap d k)) (counters_of k (accept_log dev))" if k: "k < next_kid d" for k
  proof (cases "k < next_kid dev")
    case True
    then show ?thesis using i(1) e(5) by simp
  next
    case False
    then have "counters_of k (accept_log dev) = {}" using i(3) by (auto simp: counters_of_def)
    then show ?thesis using e(6) [of k] False k by (simp add: filter_inv_Reset zero_filter_def)
  qed
  moreover have "k < next_kid d" if "k \<in> table_kids (indexTable d)" for k
    using e(7) [OF that] i(4) e(1) by (meson order_less_le_trans)
  ultimately show ?thesis
    using i(2,3,5) e(1,2,4) unfolding recv_inv_def by (auto dest!: i(3,5) elim!: order_less_le_trans)
qed

section \<open>The receive loop\<close>

lemma validate_elem_frame:
  assumes "validate_elem x dev = (ok, d)"
  shows "next_kid d = next_kid dev" "allowedips d = allowedips dev" "tun_out d = tun_out dev"
    "(\<lambda>k. kp_replayFilter (keypair_heap d k)) = (\<lambda>k. kp_replayFilter (keypair_heap dev k))(in_keypair x :=
      snd (ValidateCounter (kp_replayFilter (keypair_heap dev (in_keypair x))) (in_counter x) RejectAfterMessages))"
    "ok = fst (ValidateCounter (kp_replayFilter (keypair_heap dev (in_keypair x))) (in_counter x) RejectAfterMessages)"
    "out_evolves dev d" "same_life dev d"
  using assms by (auto simp: validate_elem_def Let_def split_beta upd_keypair_def out_evolves_def same_life_def)

lemma recv_inv_validate:
  assumes "recv_inv dev" "in_keypair x < next_kid dev" "validate_elem x dev = (ok, d)"
  shows "recv_inv d"
proof -
  note i = recv_invD [OF assms(1)]
  let ?k = "in_keypair x" and ?n = "in_counter x" and ?log = "accept_log dev"
  obtain ok' f where v: "ValidateCounter (kp_replayFilter (keypair_heap dev ?k)) ?n RejectAfterMessages = (ok', f)" by fastforce
  with assms(3) have ok: "ok' = ok" by (auto simp: validate_elem_def Let_def)
  have f: "filter_inv f (if ok then insert (unat ?n) (counters_of ?k ?log) else counters_of ?k ?log)"
    by (rule wg_replay.rel_step [OF i(1) [OF assms(2)] v [unfolded ok]])
  have new: "(?k, ?n) \<notin> set ?log" if ok
    using that wg_replay.no_second_accept [OF i(1) [OF assms(2)] _ v] ok by (auto simp: counters_of_def)
  have c: "counters_of j (?log @ [(?k, ?n)]) = (if j = ?k then insert (unat ?n) (counters_of ?k ?log) else counters_of j ?log)" for j
    by (auto simp: counters_of_def)
  have d: "d = (if ok then (upd_keypair ?k (\<lambda>kp. kp\<lparr>kp_replayFilter := f\<rparr>) dev)\<lparr>accept_log := ?log @ [(?k, ?n)]\<rparr>
      else upd_keypair ?k (\<lambda>kp. kp\<lparr>kp_replayFilter := f\<rparr>) dev)"
    using assms(3) v by (auto simp: validate_elem_def Let_def upd_keypair_def)
  show ?thesis
    using f new c i assms(2) by (auto simp: d recv_inv_def upd_keypair_def)
qed

lemma confirm_keypair_evolves: "pred_option (in_evolves dev) (confirm_keypair c e p x dev)"
proof -
  let ?d = "snd (ReceivedWithKeypair p (in_keypair x) dev)"
  have 1: "in_evolves dev ?d" by (rule evolves_in [OF evolves_ReceivedWithKeypair])
  have "in_evolves dev (timersHandshakeComplete e p (SetEndpointFromPacket p ep ?d))" for ep
    by (rule in_evolves_trans [OF 1]) (auto intro!: evolves_in evolves_steps)
  with 1 show ?thesis
    by (auto simp: confirm_keypair_def Let_def split_beta intro: in_evolves_SendStagedPackets_from)
qed

lemma accept_packet_bufs:
  assumes "in_packet x = Some packet"
  shows "pred_option (\<lambda>v'. rv_bufs v' = rv_bufs v @ deliver p dev x) (accept_packet p packet v dev)"
  by (cases "inner_packet p packet dev") (auto simp: accept_packet_def deliver_def Let_def assms split: option.split)

lemma receive_elem_frame:
  assumes "in_packet x = Some packet" and v: "validate_elem x dev = (ok, d0)"
  shows "pred_option (\<lambda>r. in_evolves d0 (snd r)
      \<and> rv_bufs (fst r) = rv_bufs v @ (if ok then deliver p dev x else [])) (receive_elem c e p x v dev)"
proof (cases ok)
  case False
  then show ?thesis using assms by (simp add: receive_elem_def)
next
  case True
  let ?v = "v\<lparr>rv_tail := Some (in_endpoint x)\<rparr>"
  have run: "receive_elem c e p x v dev = do { d \<leftarrow> confirm_keypair c e p x d0;
      v \<leftarrow> accept_packet p packet ?v d; Some (v, d) }"
    using True assms by (simp add: receive_elem_def)
  show ?thesis
    unfolding run
  proof (rule pred_option_bind [OF confirm_keypair_evolves])
    fix d assume d: "in_evolves d0 d"
    then have "deliver p d x = deliver p dev x"
      using in_evolvesD(3) [OF d] validate_elem_frame(2) [OF v] deliver_cong by metis
    with d True show "pred_option (\<lambda>r. in_evolves d0 (snd r)
        \<and> rv_bufs (fst r) = rv_bufs v @ (if ok then deliver p dev x else []))
        (do { v \<leftarrow> accept_packet p packet ?v d; Some (v, d) })"
      by (auto intro!: pred_option_bind [OF accept_packet_bufs [OF assms(1)]])
  qed
qed

lemma accepted_elems_local:
  "\<forall>x\<in>set xs. in_keypair x < n \<Longrightarrow> (\<And>k. k < n \<Longrightarrow> F k = G k) \<Longrightarrow> fst (accepted_elems xs F) = fst (accepted_elems xs G)"
proof (induction xs arbitrary: F G)
  case (Cons x xs)
  have "fst (accepted_elems xs (F(in_keypair x := f))) = fst (accepted_elems xs (G(in_keypair x := f)))" for f
    by (rule Cons.IH) (use Cons.prems in auto)
  moreover have "fst (accepted_elems xs F) = fst (accepted_elems xs G)"
    by (rule Cons.IH) (use Cons.prems in auto)
  moreover have "F (in_keypair x) = G (in_keypair x)" using Cons.prems by simp
  ultimately show ?case by (simp add: Let_def split_beta)
qed simp

text \<open>The loop over a container accepts exactly \<open>accepted_elems\<close>, and collects for the TUN device exactly
  what these deliver, in order.\<close>

lemma receive_elems_spec:
  assumes "recv_inv dev" "\<forall>x\<in>set elems. in_keypair x < next_kid dev"
    and "as = fst (accepted_elems elems (\<lambda>k. kp_replayFilter (keypair_heap dev k)))"
  shows "pred_option (\<lambda>r. recv_inv (snd r) \<and> allowedips (snd r) = allowedips dev \<and> tun_out (snd r) = tun_out dev
      \<and> rv_bufs (fst r) = rv_bufs v @ concat (map (deliver p dev) as)) (receive_elems c e p elems v dev)"
  using assms
proof (induction elems arbitrary: v dev as)
  case (Cons x xs)
  show ?case
  proof (cases "in_packet x")
    case None
    then show ?thesis using Cons by (simp add: receive_elem_def)
  next
    case (Some packet)
    let ?F = "\<lambda>k. kp_replayFilter (keypair_heap dev k)"
    obtain ok d0 where v: "validate_elem x dev = (ok, d0)" by fastforce
    note n = validate_elem_frame [OF v]
    have inv: "recv_inv d0" using recv_inv_validate [OF Cons.prems(1) _ v] Cons.prems(2) by simp
    let ?as = "fst (accepted_elems xs (\<lambda>k. kp_replayFilter (keypair_heap d0 k)))"
    have as: "as = (if ok then x # ?as else ?as)"
      using Cons.prems(3) Some unfolding n(4,5) by (simp add: Let_def split_beta)
    show ?thesis
      unfolding receive_elems.simps
    proof (rule pred_option_bind_pair [OF receive_elem_frame [OF Some v]], clarsimp)
      fix v' :: recv_vars and d :: Device assume e: "in_evolves d0 d"
        and b: "rv_bufs v' = rv_bufs v @ (if ok then deliver p dev x else [])"
      have i: "recv_inv d" by (rule recv_inv_evolves [OF inv e])
      have al: "allowedips d = allowedips dev" "tun_out d = tun_out dev" using in_evolvesD(3,4) [OF e] n by simp_all
      have kd: "\<forall>y\<in>set xs. in_keypair y < next_kid d" using Cons.prems(2) in_evolvesD(1) [OF e] n by fastforce
      have "fst (accepted_elems xs (\<lambda>k. kp_replayFilter (keypair_heap d k))) = ?as"
        by (rule accepted_elems_local [of _ "next_kid dev"]) (use Cons.prems(2) in_evolvesD(5) [OF e] n(1) in auto)
      note IH = Cons.IH [OF i kd this [symmetric], of v']
      have dl: "deliver p d = deliver p dev" using deliver_cong [OF al(1)] by auto
      show "pred_option (\<lambda>r. recv_inv (snd r) \<and> allowedips (snd r) = allowedips dev \<and> tun_out (snd r) = tun_out dev
          \<and> rv_bufs (fst r) = rv_bufs v @ concat (map (deliver p dev) as)) (receive_elems c e p xs v' d)"
        by (rule pred_option_weaken [OF IH]) (auto simp: as b al dl)
    qed
  qed
qed simp

section \<open>The steps of the inbound path\<close>

lemma set_update_groups:
  "(q, ys) \<in> set (AList.update p zs m) \<Longrightarrow> (q, ys) = (p, zs) \<or> (q, ys) \<in> set m"
  by (induction m) (auto split: if_splits)

lemma map_of_groups:
  "x \<in> set (case map_of m p of None \<Rightarrow> [] | Some es \<Rightarrow> es) \<Longrightarrow> \<exists>q ys. (q, ys) \<in> set m \<and> x \<in> set ys"
  by (cases "map_of m p") (auto dest: map_of_SomeD)

definition groups_ok :: "nat \<Rightarrow> inbound_groups \<Rightarrow> bool" where
  "groups_ok n m \<longleftrightarrow> (\<forall>(p, xs)\<in>set m. \<forall>x\<in>set xs. in_keypair x < n)"

lemma group_append_ok:
  assumes "groups_ok n m" "in_keypair x < n"
  shows "groups_ok n (group_append p x m)"
proof -
  define es where "es = (case map_of m p of None \<Rightarrow> [] | Some es \<Rightarrow> es)"
  have "in_keypair y < n" if "(q, ys) \<in> set (AList.update p (es @ [x]) m)" "y \<in> set ys" for q ys y
  proof -
    from set_update_groups [OF that(1)] that(2) consider "y = x" | "y \<in> set es" | "(q, ys) \<in> set m" by auto
    then show ?thesis
      using map_of_groups [of y m p, folded es_def] assms that(2) unfolding groups_ok_def by cases fast+
  qed
  then show ?thesis by (auto simp: groups_ok_def group_append_def es_def [symmetric])
qed

lemma receive_transport_ok:
  assumes "groups_ok n m" "\<forall>k\<in>table_kids (indexTable dev). k < n"
  shows "groups_ok n (receive_transport e packet ep dev m)"
  using assms
  by (auto simp: receive_transport_def Let_def table_kids_def intro!: group_append_ok split: option.splits) blast

lemma receive_packets_frame:
  "\<exists>q. snd (receive_packets e batch dev m) = dev\<lparr>q_handshake := q\<rparr>"
proof (induction e batch dev m rule: receive_packets.induct)
  case (1 e dev m)
  show ?case by (rule exI [of _ "q_handshake dev"]) simp
next
  case (2 e packet ep batch dev m)
  then show ?case by (auto simp: Let_def)
qed

lemma receive_packets_ok:
  "groups_ok n m \<Longrightarrow> \<forall>k\<in>table_kids (indexTable dev). k < n \<Longrightarrow> groups_ok n (fst (receive_packets e batch dev m))"
  by (induction e batch dev m rule: receive_packets.induct) (simp_all add: Let_def receive_transport_ok)

lemma queue_groups_out: "out_evolves dev (queue_groups m dev)"
proof (induction m dev rule: queue_groups.induct)
  case (2 p elems groups dev)
  let ?d = "(upd_peer p (\<lambda>q. q\<lparr>q_inbound := q_inbound q @ [Some (next_cid dev)]\<rparr>)
    (dev\<lparr>inb_heap := (inb_heap dev)(next_cid dev := \<lparr>ic_elems = elems, ic_locked = True\<rparr>), next_cid := Suc (next_cid dev)\<rparr>))"
  have "out_evolves dev (?d\<lparr>q_decryption := q_decryption ?d @ [next_cid dev]\<rparr>)"
    by (simp add: out_evolves_def upd_peer_def)
  with 2 show ?case by (auto simp: Let_def intro: out_evolves_trans)
qed (auto simp: out_evolves_def)

lemma queue_groups_recv_inv:
  "recv_inv dev \<Longrightarrow> groups_ok (next_kid dev) m \<Longrightarrow> recv_inv (queue_groups m dev)"
proof (induction m dev rule: queue_groups.induct)
  case (2 p elems groups dev)
  let ?d = "(upd_peer p (\<lambda>q. q\<lparr>q_inbound := q_inbound q @ [Some (next_cid dev)]\<rparr>)
    (dev\<lparr>inb_heap := (inb_heap dev)(next_cid dev := \<lparr>ic_elems = elems, ic_locked = True\<rparr>), next_cid := Suc (next_cid dev)\<rparr>))"
  have "recv_inv (?d\<lparr>q_decryption := q_decryption ?d @ [next_cid dev]\<rparr>)"
    using 2(3,4) by (auto simp: recv_inv_def upd_peer_def groups_ok_def)
  moreover have "groups_ok (next_kid (?d\<lparr>q_decryption := q_decryption ?d @ [next_cid dev]\<rparr>)) groups"
    using 2(4) by (auto simp: groups_ok_def upd_peer_def)
  ultimately show ?case using 2 by (auto simp: Let_def groups_ok_def)
qed simp

lemma RoutineReceiveIncoming_inv:
  assumes "RoutineReceiveIncoming_step e r ds dev = (go, ds', dev')"
  shows "nonce_inv dev \<Longrightarrow> nonce_inv dev'" and "recv_inv dev \<Longrightarrow> recv_inv dev'"
    and "tun_out dev' = tun_out dev" and "same_life dev dev'"
proof -
  obtain m d where r: "dev' = dev \<or> dev' = queue_groups m d \<and> (\<exists>batch. receive_packets e batch dev [] = (m, d))"
    using assms
    by (fastforce simp: RoutineReceiveIncoming_step_def split: recv_result.splits recv_error.splits if_splits prod.splits)
  then have d: "dev' \<noteq> dev \<Longrightarrow> \<exists>q. d = dev\<lparr>q_handshake := q\<rparr>" by (metis receive_packets_frame snd_conv)
  have e: "dev' \<noteq> dev \<Longrightarrow> evolves dev d" using d by auto
  show "nonce_inv dev'" if "nonce_inv dev"
    using r e that out_evolves_nonce_inv [OF evolves_nonce_inv [OF that] queue_groups_out] by metis
  show "recv_inv dev'" if i: "recv_inv dev"
  proof (cases "dev' = dev")
    case False
    then obtain batch where b: "receive_packets e batch dev [] = (m, d)" "dev' = queue_groups m d" using r by auto
    have "groups_ok (next_kid dev) (fst (receive_packets e batch dev []))"
      by (rule receive_packets_ok) (use recv_invD(4) [OF i] in \<open>auto simp: groups_ok_def\<close>)
    moreover have "next_kid d = next_kid dev" using d [OF False] by auto
    ultimately show ?thesis
      using queue_groups_recv_inv [OF recv_inv_evolves [OF i evolves_in [OF e [OF False]]]] b by simp
  qed (use i in simp)
  have "tun_out (queue_groups m d) = tun_out d" for m d
    by (induction m d rule: queue_groups.induct) (simp_all add: Let_def upd_peer_def)
  then show "tun_out dev' = tun_out dev" using r d by (cases "dev' = dev") auto
  have "same_life d (queue_groups m d)" for m d
  proof (induction m d rule: queue_groups.induct)
    case (2 p elems groups dev)
    then show ?case by (auto simp: Let_def upd_peer_def same_life_def)
  qed (simp add: same_life_def)
  then show "same_life dev dev'"
    using r e in_evolvesD(8) evolves_in same_life_trans by (cases "dev' = dev") (auto simp: same_life_def)
qed

lemma decrypt_elems_kids:
  "decrypt_elems c dev xs = Some ys \<Longrightarrow> map in_keypair ys = map in_keypair xs"
  by (induction xs arbitrary: ys) (auto simp: bind_eq_Some_conv decrypt_elem_def Let_def split: option.splits if_splits)

lemma RoutineDecryption_inv:
  assumes "RoutineDecryption_step c cid dev = Some dev'"
  shows "nonce_inv dev \<Longrightarrow> nonce_inv dev'" and "recv_inv dev \<Longrightarrow> recv_inv dev'"
    and "tun_out dev' = tun_out dev" and "same_life dev dev'"
proof -
  obtain ys where d: "decrypt_elems c dev (ic_elems (inb_heap dev cid)) = Some ys"
    "dev' = dev\<lparr>q_decryption := remove1 cid (q_decryption dev),
      inb_heap := (inb_heap dev)(cid := \<lparr>ic_elems = ys, ic_locked = False\<rparr>)\<rparr>"
    using assms by (auto simp: RoutineDecryption_step_def bind_eq_Some_conv split: if_splits)
  show "nonce_inv dev \<Longrightarrow> nonce_inv dev'"
    by (erule out_evolves_nonce_inv) (simp add: d(2) out_evolves_def)
  show "recv_inv dev \<Longrightarrow> recv_inv dev'"
  proof -
    assume i: "recv_inv dev"
    have "in_keypair y < next_kid dev" if "y \<in> set ys" for y
    proof -
      have "in_keypair y \<in> set (map in_keypair (ic_elems (inb_heap dev cid)))"
        unfolding decrypt_elems_kids [OF d(1), symmetric] using that by simp
      then show ?thesis using recv_invD(5) [OF i] by auto
    qed
    then show ?thesis using i by (auto simp: d(2) recv_inv_def)
  qed
  show "tun_out dev' = tun_out dev" "same_life dev dev'" by (simp_all add: d(2) same_life_def)
qed

lemma evolves_handshake_admit: "pred_option (\<lambda>r. evolves dev (snd r)) (handshake_admit c e elem dev)"
proof -
  have load: "evolves dev (snd (IsUnderLoad e dev))" by (simp add: IsUnderLoad_def Let_def)
  have cookie: "pred_option (\<lambda>r. evolves dev (snd r)) (SendHandshakeCookie c e elem d)" if "evolves dev d" for d
    by (rule pred_option_weaken [OF evolves_SendHandshakeCookie]) (rule evolves_trans [OF that])
  show ?thesis
    unfolding handshake_admit_def
    by (auto simp: split_beta load Let_def intro!: pred_option_bind_any [where m = "CheckMAC1 k s m" for k s m]
        pred_option_bind_any [where m = "CheckMAC2 k t s m a" for k t s m a] pred_option_bind_pair [OF cookie] evolves_steps
        split: sum.splits)
qed

lemma evolves_handle_cookie_reply: "evolves dev (handle_cookie_reply c e elem dev)"
  by (auto simp: handle_cookie_reply_def split: sum.splits prod.splits option.splits)

lemma evolves_handle_initiation: "pred_option (evolves dev) (handle_initiation c e elem dev)"
proof -
  have r: "pred_option (evolves dev) (map_option snd (SendHandshakeResponse c e p d))" if "evolves dev d" for p d
    unfolding pred_option_map
    by (rule pred_option_weaken [OF evolves_SendHandshakeResponse]) (rule evolves_trans [OF that])
  have m: "evolves dev d" if "ConsumeMessageInitiation c e msg dev = (p, d)" for p d msg
    using evolves_ConsumeMessageInitiation [of dev c e msg] that by simp
  show ?thesis
    by (auto simp: handle_initiation_def Let_def intro!: r evolves_steps dest: m
        split: sum.splits prod.splits option.splits)
qed

text \<open>The state in which \<open>handle_response\<close> sends its keepalive, or ends.\<close>

lemma handle_response_cases:
  "\<exists>d. evolves dev d \<and> (handle_response c e elem dev = Some d \<or> (\<exists>p. handle_response c e elem dev = SendKeepalive c e p d))"
proof -
  have m: "evolves dev d" if "ConsumeMessageResponse c msg dev = (p, d)" for p d msg
    using evolves_ConsumeMessageResponse [of dev c msg] that by simp
  show ?thesis
  proof (cases "unmarshal_response (qh_packet elem)")
    case (Inl u)
    then show ?thesis by (intro exI [of _ dev]) (simp add: handle_response_def)
  next
    case (Inr msg)
    obtain r d0 where c: "ConsumeMessageResponse c msg dev = (r, d0)" by fastforce
    show ?thesis
    proof (cases r)
      case None
      then show ?thesis using Inr c m [OF c] by (auto simp: handle_response_def)
    next
      case (Some p)
      define d1 where "d1 = timersAnyAuthenticatedPacketReceived p (timersAnyAuthenticatedPacketTraversal e p
        (upd_peer p (\<lambda>q. q\<lparr>rxBytes := rxBytes q + of_nat (length (qh_packet elem))\<rparr>)
          (SetEndpointFromPacket p (qh_endpoint elem) d0)))"
      have 1: "evolves dev d1" unfolding d1_def by (rule evolves_steps m [OF c])+
      obtain err d2 where b: "BeginSymmetricSession c e p d1 = (err, d2)" by fastforce
      have 2: "evolves dev d2" using evolves_trans [OF 1 evolves_BeginSymmetricSession [of d1 c e p]] b by simp
      have 3: "evolves dev (timersHandshakeComplete e p (timersSessionDerived e p d2))" by (rule evolves_steps 2)+
      show ?thesis
        using Inr c Some b 2 3 by (cases "err = None") (auto simp: handle_response_def d1_def [symmetric] Let_def)
    qed
  qed
qed

text \<open>Whatever holds after every evolution, and after a keepalive sent from one, holds after the step.\<close>

lemma RoutineHandshake_preserves:
  assumes P: "\<And>d. evolves dev d \<Longrightarrow> P d" "\<And>d p. evolves dev d \<Longrightarrow> pred_option P (SendKeepalive c e p d)"
  shows "pred_option P (RoutineHandshake_step c e dev)"
proof -
  have i: "pred_option P (handle_initiation c e elem d)" if "evolves dev d" for d elem
    by (rule pred_option_weaken [OF evolves_handle_initiation]) (rule P(1) [OF evolves_trans [OF that]])
  have r: "pred_option P (handle_response c e elem d)" if d: "evolves dev d" for d elem
    using handle_response_cases [of d c e elem]
  proof (elim exE conjE disjE)
    fix d' assume "evolves d d'" "handle_response c e elem d = Some d'"
    then show ?thesis using P(1) evolves_trans [OF d] by simp
  next
    fix d' p assume "evolves d d'" "handle_response c e elem d = SendKeepalive c e p d'"
    then show ?thesis using P(2) evolves_trans [OF d] by simp
  qed
  have q: "evolves dev (dev\<lparr>q_handshake := rest\<rparr>)" for rest by simp
  have a: "pred_option (\<lambda>r. evolves dev (snd r)) (handshake_admit c e elem (dev\<lparr>q_handshake := rest\<rparr>))" for elem rest
    by (rule pred_option_weaken [OF evolves_handshake_admit]) (rule evolves_trans [OF q])
  have k: "P (handle_cookie_reply c e elem (dev\<lparr>q_handshake := rest\<rparr>))" for elem rest
    by (rule P(1) [OF evolves_trans [OF q evolves_handle_cookie_reply]])
  show ?thesis
    by (auto simp: RoutineHandshake_step_def Let_def intro!: pred_option_bind_pair [OF a] i r k P(1) [OF q] P(1)
        split: list.splits)
qed

lemma RoutineHandshake_inv:
  shows "nonce_inv dev \<Longrightarrow> pred_option nonce_inv (RoutineHandshake_step c e dev)"
    and "pred_option (in_evolves dev) (RoutineHandshake_step c e dev)"
  by (rule RoutineHandshake_preserves; blast intro: evolves_nonce_inv nonce_inv_SendKeepalive in_evolves_SendKeepalive evolves_in)+

lemma evolves_receive_tail: "pred_option (evolves dev) (receive_tail c e p v dev)"
proof -
  have k: "pred_option (evolves dev) (keepKeyFreshReceiving c e p d)" if "evolves dev d" for d
    by (rule pred_option_weaken [OF evolves_keepKeyFresh(2)]) (rule evolves_trans [OF that])
  have d: "evolves dev (if rv_data v then timersDataReceived e p d else d)" if "evolves dev d" for d
    using that by (auto intro: evolves_steps)
  show ?thesis
  proof (cases "rv_tail v")
    case None
    then show ?thesis by (auto simp: receive_tail_def Let_def intro: evolves_steps)
  next
    case (Some ep)
    then show ?thesis
      by (auto simp: receive_tail_def Let_def intro!: pred_option_bind [OF k] evolves_steps)
  qed
qed

lemma nonce_inv_receive_elem:
  assumes "nonce_inv dev"
  shows "pred_option (\<lambda>r. nonce_inv (snd r)) (receive_elem c e p x v dev)"
proof (cases "in_packet x")
  case None
  then show ?thesis using assms by (simp add: receive_elem_def)
next
  case (Some packet)
  obtain ok d0 where d0: "validate_elem x dev = (ok, d0)" by fastforce
  have v: "nonce_inv d0" by (rule out_evolves_nonce_inv [OF assms validate_elem_frame(6) [OF d0]])
  let ?r = "ReceivedWithKeypair p (in_keypair x) d0"
  have 1: "nonce_inv (snd ?r)" by (rule evolves_nonce_inv [OF v evolves_ReceivedWithKeypair])
  have 2: "nonce_inv (timersHandshakeComplete e p (SetEndpointFromPacket p ep (snd ?r)))" for ep
    by (rule evolves_nonce_inv [OF 1]) (auto intro!: evolves_steps)
  have "pred_option nonce_inv (confirm_keypair c e p x d0)"
    using 1 2 by (auto simp: confirm_keypair_def Let_def split_beta intro: nonce_inv_SendStagedPackets)
  then show ?thesis
    using Some v
    by (auto simp: receive_elem_def d0
        intro!: pred_option_bind pred_option_bind_any [where m = "accept_packet p q w d" for p q w d])
qed

lemma nonce_inv_receive_elems:
  "nonce_inv dev \<Longrightarrow> pred_option (\<lambda>r. nonce_inv (snd r)) (receive_elems c e p xs v dev)"
  by (induction xs arbitrary: v dev) (auto intro!: pred_option_bind_pair [OF nonce_inv_receive_elem])

lemma RoutineSequentialReceiver_nonce_inv:
  assumes "nonce_inv dev"
  shows "pred_option (\<lambda>r. nonce_inv (snd r)) (RoutineSequentialReceiver_step c e p dev)"
proof -
  have q: "nonce_inv (upd_peer p (\<lambda>q. q\<lparr>q_inbound := rest\<rparr>) dev)" for rest
    by (rule evolves_nonce_inv [OF assms]) simp
  have t: "nonce_inv d \<Longrightarrow> pred_option nonce_inv (receive_tail c e p v d)" for d v
    by (rule pred_option_weaken [OF evolves_receive_tail]) (rule evolves_nonce_inv)
  have w: "nonce_inv (d\<lparr>tun_out := ps\<rparr>)" if "nonce_inv d" for d ps
    by (rule out_evolves_nonce_inv [OF that]) (simp add: out_evolves_def)
  show ?thesis
    by (auto simp: RoutineSequentialReceiver_step_def Let_def q w split: list.splits option.splits
        intro!: pred_option_bind_pair [OF nonce_inv_receive_elems [OF q]] pred_option_bind [OF t])
qed

lemma receive_elem_same_life: "pred_option (\<lambda>r. same_life dev (snd r)) (receive_elem c e p x v dev)"
proof (cases "in_packet x")
  case None
  then show ?thesis by (simp add: receive_elem_def same_life_def)
next
  case (Some packet)
  obtain ok d0 where v: "validate_elem x dev = (ok, d0)" by fastforce
  show ?thesis
    by (rule pred_option_weaken [OF receive_elem_frame [OF Some v]])
       (use same_life_trans [OF validate_elem_frame(7) [OF v]] in_evolvesD(8) in blast)
qed

lemma receive_elems_same_life: "pred_option (\<lambda>r. same_life dev (snd r)) (receive_elems c e p xs v dev)"
proof (induction xs arbitrary: v dev)
  case (Cons x xs)
  show ?case
    unfolding receive_elems.simps
    by (rule pred_option_bind_pair [OF receive_elem_same_life], rule pred_option_weaken [OF Cons.IH])
       (auto intro: same_life_trans)
qed (simp add: same_life_def)

lemma RoutineSequentialReceiver_same_life:
  "pred_option (\<lambda>r. same_life dev (snd r)) (RoutineSequentialReceiver_step c e p dev)"
proof -
  let ?d = "\<lambda>rest. upd_peer p (\<lambda>q. q\<lparr>q_inbound := rest\<rparr>) dev"
  have q: "same_life dev (?d rest)" for rest by (simp add: same_life_def upd_peer_def)
  have l: "pred_option (\<lambda>r. same_life dev (snd r)) (receive_elems c e p xs v (?d rest))" for xs v rest
    by (rule pred_option_weaken [OF receive_elems_same_life]) (rule same_life_trans [OF q])
  have t: "pred_option (same_life dev) (receive_tail c e p v d)" if "same_life dev d" for v d
    by (rule pred_option_weaken [OF evolves_receive_tail])
       (rule same_life_trans [OF that in_evolvesD(8) [OF evolves_in]])
  have w: "same_life dev (d\<lparr>tun_out := ps\<rparr>) = same_life dev d" for d ps by (simp add: same_life_def)
  show ?thesis
    by (auto simp: RoutineSequentialReceiver_step_def Let_def q w split: list.splits option.splits
        intro!: pred_option_bind_pair [OF l] pred_option_bind [OF t])
qed

text \<open>The elements of the container at the head of a peer's queue that its receiver accepts.\<close>

definition accepted_next :: "pid \<Rightarrow> Device \<Rightarrow> QueueInboundElement list" where
  "accepted_next p dev =
     (case q_inbound (peers dev p) of
        Some cid # _ \<Rightarrow> fst (accepted_elems (ic_elems (inb_heap dev cid)) (\<lambda>k. kp_replayFilter (keypair_heap dev k)))
      | _ \<Rightarrow> [])"

lemma RoutineSequentialReceiver_spec:
  assumes "recv_inv dev"
  shows "pred_option (\<lambda>r. recv_inv (snd r)
      \<and> allowedips (snd r) = allowedips dev
      \<and> tun_out (snd r) = tun_out dev @ concat (map (deliver p dev) (accepted_next p dev)))
    (RoutineSequentialReceiver_step c e p dev)"
proof -
  let ?d = "\<lambda>rest. upd_peer p (\<lambda>q. q\<lparr>q_inbound := rest\<rparr>) dev"
  have q: "recv_inv (?d rest)" for rest
    by (rule recv_inv_evolves [OF assms evolves_in]) simp
  have f: "keypair_heap (?d rest) = keypair_heap dev" "next_kid (?d rest) = next_kid dev"
    "allowedips (?d rest) = allowedips dev" "tun_out (?d rest) = tun_out dev" for rest
    by (simp_all add: upd_peer_def)
  have dl: "deliver p (?d rest) = deliver p dev" for rest using deliver_cong [OF f(3)] by auto
  show ?thesis
  proof (cases "\<exists>cid rest. q_inbound (peers dev p) = Some cid # rest \<and> \<not> ic_locked (inb_heap dev cid)")
    case False
    then show ?thesis
      using q f by (auto simp: RoutineSequentialReceiver_step_def accepted_next_def split: list.splits option.splits)
  next
    case True
    then obtain cid rest where c: "q_inbound (peers dev p) = Some cid # rest" "\<not> ic_locked (inb_heap dev cid)" by blast
    let ?as = "accepted_next p dev" and ?v = "\<lparr>rv_tail = None, rv_data = False, rv_rx = 0, rv_bufs = []\<rparr>"
    have "\<forall>x\<in>set (ic_elems (inb_heap dev cid)). in_keypair x < next_kid (?d rest)"
      using recv_invD(5) [OF assms] f by auto
    moreover have "?as = fst (accepted_elems (ic_elems (inb_heap dev cid)) (\<lambda>k. kp_replayFilter (keypair_heap (?d rest) k)))"
      using c f by (simp add: accepted_next_def)
    ultimately have l: "pred_option (\<lambda>r. recv_inv (snd r)
        \<and> allowedips (snd r) = allowedips dev \<and> tun_out (snd r) = tun_out dev
        \<and> rv_bufs (fst r) = concat (map (deliver p dev) ?as))
      (receive_elems c e p (ic_elems (inb_heap dev cid)) ?v (?d rest))"
      using receive_elems_spec [OF q, of _ rest ?as ?v p c e] by (simp add: f dl)
    have step: "RoutineSequentialReceiver_step c e p dev = do {
        (v, d) \<leftarrow> receive_elems c e p (ic_elems (inb_heap dev cid)) ?v (?d rest);
        d \<leftarrow> receive_tail c e p v d;
        Some (True, if rv_bufs v \<noteq> [] then d\<lparr>tun_out := tun_out d @ rv_bufs v\<rparr> else d) }"
      using c by (simp add: RoutineSequentialReceiver_step_def Let_def)
    show ?thesis
      unfolding step
    proof (rule pred_option_bind_pair [OF l], rule pred_option_bind [OF evolves_receive_tail], goal_cases)
      case (1 v d d')
      then have "recv_inv d'"
        by (intro recv_inv_evolves [OF _ evolves_in [OF 1(2)]]) simp
      moreover have "recv_inv (d'\<lparr>tun_out := t\<rparr>) = recv_inv d'" for t by (simp add: recv_inv_def)
      moreover note in_evolvesD(3,4) [OF evolves_in [OF 1(2)]]
      ultimately show ?case using 1(1) by simp
    qed
  qed
qed

section \<open>Properties\<close>

text \<open>The source address field of an inner packet.\<close>

definition source_field :: "bytes \<Rightarrow> bytes" where
  "source_field x = (if drop_bit 4 (x ! 0) = 4 then go_slice IPv4offsetSrc (IPv4offsetSrc + 4) x
     else go_slice IPv6offsetSrc (IPv6offsetSrc + 16) x)"

lemma deliver_authorised:
  assumes "b \<in> set (deliver p dev x)"
  shows "\<exists>packet. in_packet x = Some packet \<and> b = take (length b) packet
    \<and> Lookup (allowedips dev) (source_field packet) = Some (Some p)"
proof -
  obtain packet where x: "in_packet x = Some packet" "inner_packet p packet dev = Some (Some b)"
  proof (cases "in_packet x")
    case (Some packet)
    then show thesis
      using assms that by (cases "inner_packet p packet dev"; cases "the (inner_packet p packet dev)")
        (simp_all add: deliver_def split: if_split_asm)
  qed (use assms in \<open>simp add: deliver_def\<close>)
  then show ?thesis
    by (auto simp: inner_packet_def Let_def bind_eq_Some_conv source_field_def split: if_split_asm)
qed

lemma accepted_subset: "set (fst (accepted_elems xs F)) \<subseteq> {x \<in> set xs. in_packet x \<noteq> None}"
proof (induction xs arbitrary: F)
  case (Cons x xs)
  obtain ok f where "ValidateCounter (F (in_keypair x)) (in_counter x) RejectAfterMessages = (ok, f)" by fastforce
  then show ?case using Cons.IH [of F] Cons.IH [of "F(in_keypair x := f)"]
    by (auto simp: Let_def split_beta simp del: fun_upd_apply)
qed simp

lemma accepted_next_container:
  assumes "x \<in> set (accepted_next p dev)"
  shows "\<exists>cid rest. q_inbound (peers dev p) = Some cid # rest \<and> x \<in> set (ic_elems (inb_heap dev cid))"
proof (cases "q_inbound (peers dev p)")
  case (Cons y rest)
  then show ?thesis using assms accepted_subset by (cases y) (fastforce simp: accepted_next_def)+
qed (use assms in \<open>simp add: accepted_next_def\<close>)

text \<open>C15. Cryptokey routing on receive: one iteration of a peer's sequential receiver appends to the
  TUN output exactly what the elements accepted by the replay filters deliver, in order, and every
  packet it writes is a prefix of an authenticated plaintext of the container whose source address
  the routing table assigns to that peer.\<close>

theorem receiver_writes_authorised_packets:
  assumes "recv_inv dev" and "RoutineSequentialReceiver_step c e p dev = Some (go, dev')"
  shows "tun_out dev' = tun_out dev @ concat (map (deliver p dev) (accepted_next p dev))
    \<and> (\<forall>b\<in>set (concat (map (deliver p dev) (accepted_next p dev))).
        \<exists>cid rest x packet. q_inbound (peers dev p) = Some cid # rest \<and> x \<in> set (ic_elems (inb_heap dev cid))
          \<and> in_packet x = Some packet \<and> b = take (length b) packet
          \<and> Lookup (allowedips dev) (source_field packet) = Some (Some p))"
proof -
  have "tun_out dev' = tun_out dev @ concat (map (deliver p dev) (accepted_next p dev))"
    using RoutineSequentialReceiver_spec [OF assms(1), of p c e] assms(2) by simp
  moreover have "\<exists>cid rest x packet. q_inbound (peers dev p) = Some cid # rest \<and> x \<in> set (ic_elems (inb_heap dev cid))
          \<and> in_packet x = Some packet \<and> b = take (length b) packet
          \<and> Lookup (allowedips dev) (source_field packet) = Some (Some p)"
    if "b \<in> set (concat (map (deliver p dev) (accepted_next p dev)))" for b
  proof -
    from that obtain x where x: "x \<in> set (accepted_next p dev)" "b \<in> set (deliver p dev x)" by auto
    with accepted_next_container [OF x(1)] deliver_authorised [OF x(2)] show ?thesis by blast
  qed
  ultimately show ?thesis by blast
qed

definition example_packet :: bytes where
  "example_packet = [0x45, 0, 0, 20, 0, 0, 0, 0, 64, 17, 0, 0, 10, 1, 2, 3, 10, 9, 9, 9]"

definition example_receiver :: Device where
  "example_receiver = zero_Device\<lparr>dev_state := deviceStateUp, next_kid := 1, allowedips := example_table,
     peers := (\<lambda>_. zero_Peer\<lparr>isRunning := True, q_inbound := [Some 0]\<rparr>),
     inb_heap := (\<lambda>_. \<lparr>ic_elems = [\<lparr>in_packet = Some example_packet, in_counter = 7, in_keypair = 0,
       in_endpoint = \<lparr>ep_addr = Addr4 [9, 9, 9, 9], ep_port = 1000, ep_src = []\<rparr>\<rparr>], ic_locked = False\<rparr>)\<rparr>"

lemma example_receiver_inv: "recv_inv example_receiver"
  by (simp add: recv_inv_def example_receiver_def zero_Device_def counters_of_def filter_inv_zero table_kids_def
      IndexTable_Init_def)

theorem receiver_writes_authorised_packets_witness:
  "\<exists>go dev'. RoutineSequentialReceiver_step toy_crypto (example_env 0 1 1) 2 example_receiver = Some (go, dev')
    \<and> tun_out dev' = [example_packet]"
proof -
  let ?r = "RoutineSequentialReceiver_step toy_crypto (example_env 0 1 1) 2 example_receiver"
  have "\<not> Option.is_none ?r" by code_simp
  then obtain go dev' where r: "?r = Some (go, dev')" by (cases ?r) (auto simp: Option.is_none_def)
  have "tun_out example_receiver @ concat (map (deliver 2 example_receiver) (accepted_next 2 example_receiver)) = [example_packet]"
    by code_simp
  with receiver_writes_authorised_packets [OF example_receiver_inv r] r show ?thesis by auto
qed

text \<open>An inner packet whose length field agrees with its length.\<close>

definition ip_exact :: "bytes \<Rightarrow> bool" where
  "ip_exact x \<longleftrightarrow>
     drop_bit 4 (x ! 0) = 4 \<and> 20 \<le> length x
       \<and> unat (be_word (go_slice IPv4offsetTotalLength (IPv4offsetTotalLength + 2) x) :: u16) = length x
     \<or> drop_bit 4 (x ! 0) = 6 \<and> 40 \<le> length x \<and> length x < 2 ^ 16
       \<and> unat (be_word (go_slice IPv6offsetPayloadLength (IPv6offsetPayloadLength + 2) x) :: u16) + 40 = length x"

lemma inner_packet_unpads:
  assumes "ip_exact x" "Lookup (allowedips dev) (source_field x) = Some (Some p)"
  shows "inner_packet p (x @ zs) dev = Some (Some x)"
proof -
  have ne: "x \<noteq> []" using assms(1) by (auto simp: ip_exact_def)
  then have h: "(x @ zs) ! 0 = x ! 0" by (simp add: nth_append)
  have 46: "drop_bit 4 (x ! 0) = 6 \<Longrightarrow> drop_bit 4 (x ! 0) \<noteq> 4" by simp
  have w: "unat (w + 40) = length x" if "unat w + 40 = length x" "length x < 2 ^ 16" for w :: u16
    using that by (simp add: unat_word_ariths)
  from assms show ?thesis
    unfolding ip_exact_def inner_packet_def h Let_def
    by (elim disjE conjE) (simp_all add: slice_append_left ip_offsets source_field_def w)
qed

text \<open>C16. Transport round trip: with keys that belong together (as a handshake leaves them) and a
  nonnegative MTU, the encryption worker never panics, its message carries the receiver index of the
  key pair, the decryption worker of the other side recovers counter and plaintext, and when the
  packet is an IP packet of the length it announces, from an address routed to the peer, what goes
  to the TUN device is the packet itself: the padding is gone.\<close>

theorem transport_roundtrip:
  assumes "crypto_ok c" and "0 \<le> tun_mtu A" and "oe_keypair x = Some k"
    and "kp_receive (keypair_heap B l) = kp_send (keypair_heap A k)"
  shows "\<exists>y z. encrypt_elem c A x = Some y
    \<and> length (oe_packet y) \<ge> MessageTransportSize
    \<and> le_word (go_slice MessageTransportOffsetReceiver MessageTransportOffsetCounter (oe_packet y))
        = kp_remoteIndex (keypair_heap A k)
    \<and> decrypt_elem c B \<lparr>in_packet = Some (oe_packet y), in_counter = 0, in_keypair = l, in_endpoint = ep\<rparr> = Some z
    \<and> in_counter z = oe_nonce x \<and> in_keypair z = l
    \<and> (\<exists>n<16. in_packet z = Some (oe_packet x @ replicate n 0))
    \<and> (ip_exact (oe_packet x) \<and> Lookup (allowedips B) (source_field (oe_packet x)) = Some (Some p)
        \<longrightarrow> deliver p B z = [oe_packet x])"
proof -
  define n where "n = nat (calculatePaddingSize (int (length (oe_packet x))) (tun_mtu A))"
  have pad: "0 \<le> calculatePaddingSize (int (length (oe_packet x))) (tun_mtu A)"
    "calculatePaddingSize (int (length (oe_packet x))) (tun_mtu A) < PaddingMultiple"
    using calculatePaddingSize_bounds [of "int (length (oe_packet x))" "tun_mtu A"] assms(2) by simp_all
  then have n: "n < 16" by (simp add: n_def PaddingMultiple_def)
  let ?p = "oe_packet x @ replicate n 0" and ?kp = "keypair_heap A k"
  define s where "s = aead_Seal c (kp_send ?kp) (nonce_bytes (oe_nonce x)) ?p []"
  define h where "h = transport_header (kp_remoteIndex ?kp) (oe_nonce x)"
  have enc: "encrypt_elem c A x = Some (x\<lparr>oe_packet := h @ s\<rparr>)"
    using pad assms(3) by (simp add: encrypt_elem_def Let_def n_def h_def s_def)
  have ls: "length s = length ?p + 16" by (simp add: s_def crypto_okD(3) [OF assms(1)])
  have lh: "length h = 16" by (simp add: h_def transport_header_def)
  have sl: "go_slice 4 8 (h @ s) = le_bytes 4 (kp_remoteIndex ?kp)" "go_slice 8 16 (h @ s) = le_bytes 8 (oe_nonce x)"
    by (simp_all add: h_def transport_header_def byte_simps slice_append_left slice_append_right)
  define z where "z = \<lparr>in_packet = Some ?p, in_counter = oe_nonce x, in_keypair = l, in_endpoint = ep\<rparr>"
  have dec: "decrypt_elem c B \<lparr>in_packet = Some (h @ s), in_counter = 0, in_keypair = l, in_endpoint = ep\<rparr> = Some z"
    using lh assms(4) sl
    by (simp add: decrypt_elem_def Let_def z_def MessageTransportOffsetContent_def MessageTransportOffsetCounter_def
        le_word_le_bytes s_def crypto_okD(4) [OF assms(1)])
  have "deliver p B z = [oe_packet x]" if "ip_exact (oe_packet x)" "Lookup (allowedips B) (source_field (oe_packet x)) = Some (Some p)"
    using inner_packet_unpads [OF that] that(1) by (auto simp: deliver_def z_def ip_exact_def)
  then show ?thesis
    by (intro exI [of _ "x\<lparr>oe_packet := h @ s\<rparr>"] exI [of _ z])
       (use enc dec ls lh sl n in \<open>auto simp: z_def MessageTransportSize_def MessageTransportHeaderSize_def
          MessageTransportOffsetReceiver_def MessageTransportOffsetCounter_def le_word_le_bytes\<close>)
qed

theorem transport_roundtrip_witness:
  "\<exists>y z. encrypt_elem toy_crypto example_receiver ((new_elem example_packet)\<lparr>oe_keypair := Some 0, oe_nonce := 5\<rparr>) = Some y
    \<and> in_counter z = 5 \<and> deliver 2 example_receiver z = [example_packet]"
proof -
  let ?x = "(new_elem example_packet)\<lparr>oe_keypair := Some 0, oe_nonce := 5\<rparr>"
  have "0 \<le> tun_mtu example_receiver" "oe_keypair ?x = Some 0"
    "kp_receive (keypair_heap example_receiver 0) = kp_send (keypair_heap example_receiver 0)"
    by (simp_all add: example_receiver_def zero_Device_def)
  note t = transport_roundtrip [OF toy_crypto_ok this, of _ 2]
  have e: "ip_exact example_packet" "Lookup (allowedips example_receiver) (source_field example_packet) = Some (Some 2)"
    by code_simp+
  have "oe_packet ?x = example_packet" "oe_nonce ?x = 5" by (simp_all add: new_elem_def)
  with t e show ?thesis by metis
qed

lemma SendHandshakeCookie_frame:
  assumes "SendHandshakeCookie c e elem dev = Some (b, d)" "length (fst (env_nonce e)) = 24"
  shows "peers d = peers dev \<and> indexTable d = indexTable dev \<and> keypair_heap d = keypair_heap dev
    \<and> next_kid d = next_kid dev \<and> tun_out d = tun_out dev \<and> limiter d = limiter dev
    \<and> (udp_out d = udp_out dev
       \<or> (\<exists>reply. udp_out d = udp_out dev @ [(qh_endpoint elem, reply)] \<and> length reply = MessageCookieReplySize))"
proof -
  obtain r st where r: "CreateReply c (env_now e) (env_secret e) (env_nonce e) (cookieChecker dev) (qh_packet elem)
         (le_word (go_slice 4 8 (qh_packet elem))) (DstToBytes (qh_endpoint elem)) = Some (r, st)"
    using assms(1) by (auto simp: SendHandshakeCookie_def bind_eq_Some_conv)
  have "length (mc_Nonce x) = 24" if "r = Inr x" for x
    using r assms(2) that by (auto simp: CreateReply_def Let_def split: if_splits)
  then show ?thesis
    using assms(1) by (cases r) (auto simp: SendHandshakeCookie_def r marshal_cookie_reply_def MessageCookieReplySize_def
        Let_def split: if_splits)
qed

lemma handshake_admit_rejects:
  assumes r: "handshake_admit c e elem dev = Some (a, d)"
    and n: "CheckMAC1 c (cookieChecker dev) (qh_packet elem) = Some False \<or> fst (IsUnderLoad e dev)
      \<and> CheckMAC2 c (env_now e) (cookieChecker dev) (qh_packet elem) (DstToBytes (qh_endpoint elem)) = Some False"
    and l24: "length (fst (env_nonce e)) = 24"
  shows "\<not> a \<and> peers d = peers dev \<and> indexTable d = indexTable dev \<and> keypair_heap d = keypair_heap dev
    \<and> next_kid d = next_kid dev \<and> tun_out d = tun_out dev \<and> limiter d = limiter dev
    \<and> (udp_out d = udp_out dev
       \<or> CheckMAC1 c (cookieChecker dev) (qh_packet elem) = Some True
         \<and> (\<exists>reply. udp_out d = udp_out dev @ [(qh_endpoint elem, reply)] \<and> length reply = MessageCookieReplySize))"
proof -
  let ?l = "snd (IsUnderLoad e dev)"
  have l: "\<exists>u. ?l = dev\<lparr>underLoadUntil := u\<rparr>"
    by (cases "QueueHandshakeSize div 8 \<le> length (q_handshake dev)")
       (auto simp: IsUnderLoad_def Let_def intro: exI [of _ "underLoadUntil dev"])
  then have k: "cookieChecker ?l = cookieChecker dev" by auto
  show ?thesis
  proof (cases "CheckMAC1 c (cookieChecker dev) (qh_packet elem) = Some False")
    case True
    then show ?thesis using r by (auto simp: handshake_admit_def)
  next
    case False
    then obtain b where s: "CheckMAC1 c (cookieChecker dev) (qh_packet elem) = Some True"
      "SendHandshakeCookie c e elem ?l = Some (b, d)" "\<not> a"
      using r n k by (auto simp: handshake_admit_def bind_eq_Some_conv split_beta split: if_splits)
    show ?thesis using SendHandshakeCookie_frame [OF s(2) l24] s(1,3) l by auto
  qed
qed

text \<open>C17. Handshake flood: a handshake message whose first MAC is wrong changes no peer, session or
  index and is not answered; so does, under load, one whose second MAC is wrong, except that a cookie
  reply, shorter than the message, may go back to where it came from.\<close>

theorem handshake_needs_macs:
  assumes "q_handshake dev = elem # rest"
    and "qh_msgType elem = MessageInitiationType \<or> qh_msgType elem = MessageResponseType"
    and "length (qh_packet elem) = (if qh_msgType elem = MessageInitiationType then MessageInitiationSize else MessageResponseSize)"
    and "CheckMAC1 c (cookieChecker dev) (qh_packet elem) = Some False
      \<or> fst (IsUnderLoad e (dev\<lparr>q_handshake := rest\<rparr>))
        \<and> CheckMAC2 c (env_now e) (cookieChecker dev) (qh_packet elem) (DstToBytes (qh_endpoint elem)) = Some False"
    and "length (fst (env_nonce e)) = 24" and "RoutineHandshake_step c e dev = Some dev'"
  shows "peers dev' = peers dev \<and> indexTable dev' = indexTable dev \<and> keypair_heap dev' = keypair_heap dev
    \<and> next_kid dev' = next_kid dev \<and> tun_out dev' = tun_out dev \<and> limiter dev' = limiter dev
    \<and> (udp_out dev' = udp_out dev
       \<or> CheckMAC1 c (cookieChecker dev) (qh_packet elem) = Some True
         \<and> (\<exists>reply. udp_out dev' = udp_out dev @ [(qh_endpoint elem, reply)] \<and> length reply < length (qh_packet elem)))"
proof -
  let ?dev = "dev\<lparr>q_handshake := rest\<rparr>"
  obtain a d where a: "handshake_admit c e elem ?dev = Some (a, d)" "\<not> a \<Longrightarrow> dev' = d"
    using assms(1,2,6)
    by (auto simp: RoutineHandshake_step_def Let_def bind_eq_Some_conv MessageInitiationType_def MessageResponseType_def
        MessageCookieReplyType_def split: if_splits)
  have "MessageCookieReplySize < length (qh_packet elem)"
    using assms(3) by (simp add: MessageInitiationSize_def MessageResponseSize_def MessageCookieReplySize_def)
  then show ?thesis
    using handshake_admit_rejects [OF a(1) _ assms(5)] assms(4) a(2) by auto
qed

definition example_flooded :: Device where
  "example_flooded = zero_Device\<lparr>underLoadUntil := 1000, q_handshake := [\<lparr>qh_msgType = 1,
     qh_packet = replicate 148 1, qh_endpoint = \<lparr>ep_addr = Addr4 [9, 9, 9, 9], ep_port = 1, ep_src = []\<rparr>\<rparr>]\<rparr>"

theorem handshake_needs_macs_witness:
  "\<exists>dev'. RoutineHandshake_step toy_crypto (example_env 200000000000 1 1) example_flooded = Some dev'
    \<and> indexTable dev' = indexTable example_flooded \<and> tun_out dev' = []"
proof -
  let ?e = "example_env 200000000000 1 1"
  let ?r = "RoutineHandshake_step toy_crypto ?e example_flooded"
  have "\<not> Option.is_none ?r" by code_simp
  then obtain dev' where r: "?r = Some dev'" by (cases ?r) (auto simp: Option.is_none_def)
  obtain elem where q: "q_handshake example_flooded = [elem]" and elem: "elem = \<lparr>qh_msgType = 1,
     qh_packet = replicate 148 1, qh_endpoint = \<lparr>ep_addr = Addr4 [9, 9, 9, 9], ep_port = 1, ep_src = []\<rparr>\<rparr>"
    by (simp add: example_flooded_def)
  have m: "qh_msgType elem = MessageInitiationType \<or> qh_msgType elem = MessageResponseType"
    "length (qh_packet elem) = (if qh_msgType elem = MessageInitiationType then MessageInitiationSize else MessageResponseSize)"
    by (simp_all add: elem MessageInitiationType_def MessageInitiationSize_def)
  have n: "CheckMAC1 toy_crypto (cookieChecker example_flooded) (qh_packet elem) = Some False
      \<or> fst (IsUnderLoad ?e (example_flooded\<lparr>q_handshake := []\<rparr>))
        \<and> CheckMAC2 toy_crypto (env_now ?e) (cookieChecker example_flooded) (qh_packet elem) (DstToBytes (qh_endpoint elem)) = Some False"
    unfolding elem by code_simp
  have "tun_out example_flooded = []" by (simp add: example_flooded_def zero_Device_def)
  moreover have "length (fst (env_nonce ?e)) = 24" by (simp add: example_env_def)
  ultimately show ?thesis using handshake_needs_macs [OF q m n _ r] r by metis
qed

end
