(* ===== verification/DeviceOps.thy ===== *)
theory DeviceOps
  imports Receive Tai64n
begin

text \<open>
  The life of peers and of the device: \<^verbatim>\<open>src/device/device.go\<close>, \<^verbatim>\<open>peer.go\<close>, \<^verbatim>\<open>channels.go\<close>, \<^verbatim>\<open>pools.go\<close>,
  \<^verbatim>\<open>tun.go\<close> and \<^verbatim>\<open>mobilequirks.go\<close>. A call of the bind answers as the record \<open>bind_env\<close> says. A peer's \<open>Stop\<close>
  waits for the sequential routines; \<open>drain_inbound\<close> and \<open>drain_outbound\<close> run them, and the workers they
  wait for, up to the sentinel. \<open>None\<close>: the code panics or waits for an event that is not in the state.
  \<open>life_inv\<close> relates the device's state, its peer map and the peers that run.
\<close>

section \<open>The bind\<close>

record bind_env =
  be_close :: bool
  be_open :: "u16 \<Rightarrow> u16 option"
  be_listener :: bool
  be_mark :: bool

datatype dev_error = errBindClose | errBindOpen | errRouteListener | errBindMark

definition peer_list :: "Device \<Rightarrow> pid list" where
  "peer_list dev = map snd (keyMap dev)"

definition closeBindLocked :: "bind_env \<Rightarrow> Device \<Rightarrow> dev_error option \<times> Device" where
  "closeBindLocked b dev = (if be_close b then None else Some errBindClose, dev\<lparr>bind_open := False\<rparr>)"

definition BindClose :: "bind_env \<Rightarrow> Device \<Rightarrow> dev_error option \<times> Device" where
  "BindClose b dev = closeBindLocked b dev"

definition mark_all_endpoints :: "Device \<Rightarrow> Device" where
  "mark_all_endpoints dev = fold markEndpointSrcForClearing (peer_list dev) dev"

definition BindSetMark :: "bind_env \<Rightarrow> u32 \<Rightarrow> Device \<Rightarrow> dev_error option \<times> Device" where
  "BindSetMark b mark dev =
     (if net_fwmark dev = mark then (None, dev)
      else
        let dev = dev\<lparr>net_fwmark := mark\<rparr>
        in if deviceState_isUp dev \<and> \<not> be_mark b then (Some errBindMark, dev)
           else (None, mark_all_endpoints dev))"

definition BindUpdate :: "bind_env \<Rightarrow> Device \<Rightarrow> dev_error option \<times> Device" where
  "BindUpdate b dev =
     (case closeBindLocked b dev of
        (Some err, dev) \<Rightarrow> (Some err, dev)
      | (None, dev) \<Rightarrow>
          if \<not> deviceState_isUp dev then (None, dev)
          else
            case be_open b (net_port dev) of
              None \<Rightarrow> (Some errBindOpen, dev\<lparr>net_port := 0\<rparr>)
            | Some port \<Rightarrow>
                if \<not> be_listener b then (Some errRouteListener, dev\<lparr>net_port := 0\<rparr>)
                else
                  let dev = dev\<lparr>net_port := port, bind_open := True\<rparr>
                  in if net_fwmark dev \<noteq> 0 \<and> \<not> be_mark b then (Some errBindMark, dev)
                     else (None, mark_all_endpoints dev))"

section \<open>Queues of a peer\<close>

text \<open>\<open>flushInboundQueue\<close> and \<open>flushOutboundQueue\<close> take every container, locking each: a locked one
  makes them wait and a nil entry panics.\<close>

fun flush_ready :: "(cid \<Rightarrow> bool) \<Rightarrow> cid option list \<Rightarrow> bool" where
  "flush_ready locked [] = True"
| "flush_ready locked (None # q) = False"
| "flush_ready locked (Some cid # q) = (\<not> locked cid \<and> flush_ready locked q)"

definition flushInboundQueue :: "pid \<Rightarrow> Device \<Rightarrow> Device option" where
  "flushInboundQueue p dev =
     (if flush_ready (\<lambda>cid. ic_locked (inb_heap dev cid)) (q_inbound (peers dev p))
      then Some (upd_peer p (\<lambda>q. q\<lparr>q_inbound := []\<rparr>) dev) else None)"

definition flushOutboundQueue :: "pid \<Rightarrow> Device \<Rightarrow> Device option" where
  "flushOutboundQueue p dev =
     (if flush_ready (\<lambda>cid. oc_locked (outb_heap dev cid)) (q_outbound (peers dev p))
      then Some (upd_peer p (\<lambda>q. q\<lparr>q_outbound := []\<rparr>) dev) else None)"

text \<open>The sequential routines from now to their sentinel, with the worker that unlocks a container
  run when it is needed. The number bounds the containers; the length of the queue is enough.\<close>

fun drain_inbound :: "crypto \<Rightarrow> env \<Rightarrow> pid \<Rightarrow> nat \<Rightarrow> Device \<Rightarrow> Device option" where
  "drain_inbound c e p 0 dev = None"
| "drain_inbound c e p (Suc n) dev = do {
     dev \<leftarrow> (case q_inbound (peers dev p) of
         Some cid # _ \<Rightarrow> if ic_locked (inb_heap dev cid) then RoutineDecryption_step c cid dev else Some dev
       | _ \<Rightarrow> Some dev);
     (go, dev) \<leftarrow> RoutineSequentialReceiver_step c e p dev;
     if go then drain_inbound c e p n dev else Some dev
   }"

fun drain_outbound :: "crypto \<Rightarrow> env \<Rightarrow> pid \<Rightarrow> nat \<Rightarrow> Device \<Rightarrow> Device option" where
  "drain_outbound c e p 0 dev = None"
| "drain_outbound c e p (Suc n) dev = do {
     dev \<leftarrow> (case q_outbound (peers dev p) of
         Some cid # _ \<Rightarrow> if oc_locked (outb_heap dev cid) then RoutineEncryption_step c cid dev else Some dev
       | _ \<Rightarrow> Some dev);
     (go, dev) \<leftarrow> RoutineSequentialSender_step c e p dev;
     if go then drain_outbound c e p n dev else Some dev
   }"

section \<open>Peers\<close>

definition NewPeer :: "crypto \<Rightarrow> NoisePublicKey \<Rightarrow> Device \<Rightarrow> (string + pid) \<times> Device" where
  "NewPeer c pk dev =
     (if deviceState_isClosed dev then (Inl ''device closed'', dev)
      else if length (keyMap dev) \<ge> MaxPeers then (Inl ''too many peers'', dev)
      else if map_of (keyMap dev) pk \<noteq> None then (Inl ''adding existing peer'', dev)
      else
        let p = next_pid dev;
            peer = zero_Peer\<lparr>
              cookieGenerator := CookieGenerator_Init c pk zero_CookieGenerator,
              handshake := zero_Handshake\<lparr>
                hs_precomputedStaticStatic := fst (sharedSecret c (sid_privateKey dev) pk),
                hs_remoteStatic := pk\<rparr>,
              endpoint_val := None, endpoint_disableRoaming := False, endpoint_clearSrcOnTx := False\<rparr>;
            dev = upd_peer p (\<lambda>_. peer) (dev\<lparr>next_pid := p + 1\<rparr>);
            dev = timersInit p dev
        in (Inr p, dev\<lparr>keyMap := keyMap dev @ [(pk, p)]\<rparr>))"

definition Peer_Start :: "env \<Rightarrow> pid \<Rightarrow> Device \<Rightarrow> Device option" where
  "Peer_Start e p dev =
     (if deviceState_isClosed dev then Some dev
      else if isRunning (peers dev p) then Some dev
      else do {
        let hs = handshake (peers dev p);
        let dev = set_handshake p (hs\<lparr>hs_lastSentHandshake := env_now e + - (RekeyTimeout + second)\<rparr>) dev;
        let dev = timersStart p dev;
        dev \<leftarrow> flushInboundQueue p dev;
        dev \<leftarrow> flushOutboundQueue p dev;
        Some (upd_peer p (\<lambda>q. q\<lparr>isRunning := True\<rparr>) dev)
      })"

definition Peer_Stop :: "crypto \<Rightarrow> env \<Rightarrow> pid \<Rightarrow> Device \<Rightarrow> Device option" where
  "Peer_Stop c e p dev =
     (if \<not> isRunning (peers dev p) then Some dev
      else do {
        let dev = upd_peer p (\<lambda>q. q\<lparr>isRunning := False\<rparr>) dev;
        let dev = timersStop p dev;
        let dev = upd_peer p (\<lambda>q. q\<lparr>q_inbound := q_inbound q @ [None]\<rparr>) dev;
        let dev = upd_peer p (\<lambda>q. q\<lparr>q_outbound := q_outbound q @ [None]\<rparr>) dev;
        dev \<leftarrow> drain_inbound c e p (length (q_inbound (peers dev p))) dev;
        dev \<leftarrow> drain_outbound c e p (length (q_outbound (peers dev p))) dev;
        Some (ZeroAndFlushAll p dev)
      })"

text \<open>\<open>removePeerLocked\<close>.\<close>

definition removePeerLocked :: "crypto \<Rightarrow> env \<Rightarrow> pid \<Rightarrow> NoisePublicKey \<Rightarrow> Device \<Rightarrow> Device option" where
  "removePeerLocked c e p key dev =
     do {
       t \<leftarrow> RemoveByPeer (allowedips dev) p;
       dev \<leftarrow> Peer_Stop c e p (dev\<lparr>allowedips := t\<rparr>);
       Some (dev\<lparr>keyMap := filter (\<lambda>(k, _). k \<noteq> key) (keyMap dev)\<rparr>)
     }"

text \<open>A loop over the peers, whose body may not return.\<close>

fun for_each :: "('a \<Rightarrow> Device \<Rightarrow> Device option) \<Rightarrow> 'a list \<Rightarrow> Device \<Rightarrow> Device option" where
  "for_each f [] dev = Some dev"
| "for_each f (p # ps) dev = do { dev \<leftarrow> f p dev; for_each f ps dev }"

definition RemovePeer :: "crypto \<Rightarrow> env \<Rightarrow> NoisePublicKey \<Rightarrow> Device \<Rightarrow> Device option" where
  "RemovePeer c e key dev =
     (case map_of (keyMap dev) key of
        None \<Rightarrow> Some dev
      | Some p \<Rightarrow> removePeerLocked c e p key dev)"

definition RemoveAllPeers :: "crypto \<Rightarrow> env \<Rightarrow> Device \<Rightarrow> Device option" where
  "RemoveAllPeers c e dev =
     do {
       dev \<leftarrow> for_each (\<lambda>(key, p). removePeerLocked c e p key) (keyMap dev) dev;
       Some (dev\<lparr>keyMap := []\<rparr>)
     }"

definition SendKeepalivesToPeersWithCurrentKeypair :: "crypto \<Rightarrow> env \<Rightarrow> Device \<Rightarrow> Device option" where
  "SendKeepalivesToPeersWithCurrentKeypair c e dev =
     (if \<not> deviceState_isUp dev then Some dev
      else for_each (\<lambda>p dev.
        case ks_current (keypairs (peers dev p)) of
          None \<Rightarrow> Some dev
        | Some k \<Rightarrow>
            if \<not> kp_created (keypair_heap dev k) + RejectAfterTime < env_now e
            then SendKeepalive c e p dev else Some dev) (peer_list dev) dev)"

definition DisableSomeRoamingForBrokenMobileSemantics :: "Device \<Rightarrow> Device" where
  "DisableSomeRoamingForBrokenMobileSemantics dev =
     (let dev = dev\<lparr>net_brokenRoaming := True\<rparr>
      in fold (\<lambda>p. upd_peer p (\<lambda>q. q\<lparr>endpoint_disableRoaming := endpoint_val q \<noteq> None\<rparr>)) (peer_list dev) dev)"

section \<open>The device\<close>

text \<open>\<open>upLocked\<close> and \<open>downLocked\<close>; the result of the loops is the device, the error that of the bind.\<close>

definition upLocked :: "crypto \<Rightarrow> env \<Rightarrow> bind_env \<Rightarrow> Device \<Rightarrow> (dev_error option \<times> Device) option" where
  "upLocked c e b dev =
     (case BindUpdate b dev of
        (Some err, dev) \<Rightarrow> Some (Some err, dev)
      | (None, dev) \<Rightarrow>
          map_option (Pair None)
            (for_each (\<lambda>p dev. do {
               dev \<leftarrow> Peer_Start e p dev;
               if persistentKeepaliveInterval (peers dev p) > 0 then SendKeepalive c e p dev else Some dev
             }) (peer_list dev) dev))"

definition downLocked :: "crypto \<Rightarrow> env \<Rightarrow> bind_env \<Rightarrow> Device \<Rightarrow> (dev_error option \<times> Device) option" where
  "downLocked c e b dev =
     (let (err, dev) = BindClose b dev
      in map_option (Pair err) (for_each (Peer_Stop c e) (peer_list dev) dev))"

text \<open>\<open>changeState\<close>: the second bind record is for the way back down.\<close>

definition changeState ::
  "crypto \<Rightarrow> env \<Rightarrow> bind_env \<Rightarrow> bind_env \<Rightarrow> deviceState \<Rightarrow> Device \<Rightarrow> (dev_error option \<times> Device) option" where
  "changeState c e b b' want dev =
     (let old = dev_state dev;
          down = (\<lambda>err dev. do {
            (errDown, dev) \<leftarrow> downLocked c e b' (dev\<lparr>dev_state := deviceStateDown\<rparr>);
            Some (if err = None then errDown else err, dev)
          })
      in if old = deviceStateClosed then Some (None, dev)
         else if want = old then Some (None, dev)
         else case want of
             deviceStateUp \<Rightarrow> do {
               (err, dev) \<leftarrow> upLocked c e b (dev\<lparr>dev_state := deviceStateUp\<rparr>);
               if err = None then Some (None, dev) else down err dev
             }
           | deviceStateDown \<Rightarrow> down None dev
           | deviceStateClosed \<Rightarrow> Some (None, dev))"

definition Device_Up where "Device_Up c e b b' dev = changeState c e b b' deviceStateUp dev"
definition Device_Down where "Device_Down c e b dev = changeState c e b b deviceStateDown dev"

definition SetPrivateKey :: "crypto \<Rightarrow> env \<Rightarrow> NoisePrivateKey \<Rightarrow> Device \<Rightarrow> Device option" where
  "SetPrivateKey c e sk dev =
     (if Equals sk (sid_privateKey dev) then Some dev
      else do {
        let pub = publicKey c sk;
        dev \<leftarrow> for_each (\<lambda>(key, p) dev.
            if Equals (hs_remoteStatic (handshake (peers dev p))) pub
            then removePeerLocked c e p key dev else Some dev) (keyMap dev) dev;
        let dev = dev\<lparr>sid_privateKey := sk, sid_publicKey := pub,
          cookieChecker := CookieChecker_Init c pub (cookieChecker dev)\<rparr>;
        let dev = fold (\<lambda>p dev.
            let hs = handshake (peers dev p)
            in set_handshake p (hs\<lparr>hs_precomputedStaticStatic := fst (sharedSecret c sk (hs_remoteStatic hs))\<rparr>) dev)
          (peer_list dev) dev;
        Some (fold (ExpireCurrentKeypairs e) (peer_list dev) dev)
      })"

text \<open>\<open>NewDevice\<close>, given what the TUN device's \<open>MTU\<close> returns; \<open>int32\<close> truncates it.\<close>

definition to_int32 :: "int \<Rightarrow> int" where
  "to_int32 x = sint (word_of_int x :: u32)"

definition NewDevice :: "int option \<Rightarrow> Device option" where
  "NewDevice tun_mtu_result =
     (let mtu = (case tun_mtu_result of None \<Rightarrow> DefaultMTU | Some mtu \<Rightarrow> mtu)
      in case Rate_Init new_ratelimiter of
           Inl _ \<Rightarrow> None
         | Inr rate \<Rightarrow> Some (zero_Device\<lparr>dev_state := deviceStateDown, tun_mtu := to_int32 mtu, keyMap := [],
             limiter := rate, indexTable := IndexTable_Init\<rparr>))"

definition Device_Close :: "crypto \<Rightarrow> env \<Rightarrow> bind_env \<Rightarrow> Device \<Rightarrow> Device option" where
  "Device_Close c e b dev =
     (if deviceState_isClosed dev then Some dev
      else do {
        let dev = dev\<lparr>dev_state := deviceStateClosed\<rparr>;
        (err, dev) \<leftarrow> downLocked c e b dev;
        dev \<leftarrow> RemoveAllPeers c e dev;
        case Rate_Close (limiter dev) of
          Inl _ \<Rightarrow> None
        | Inr rate \<Rightarrow> Some (dev\<lparr>limiter := rate, dev_closed := True\<rparr>)
      })"

definition BatchSize :: "int \<Rightarrow> int \<Rightarrow> int" where
  "BatchSize bindSize dSize = (if bindSize < dSize then dSize else bindSize)"

text \<open>Events of the TUN device (\<^verbatim>\<open>src/tun/tun.go\<close>) and their reader. A failed MTU update ends the iteration.\<close>

definition EventUp :: int where "EventUp = 1"
definition EventDown :: int where "EventDown = 2"
definition EventMTUUpdate :: int where "EventMTUUpdate = 4"

definition update_mtu :: "int option \<Rightarrow> Device \<Rightarrow> Device option" where
  "update_mtu mtu_result dev =
     (case mtu_result of
        None \<Rightarrow> None
      | Some mtu \<Rightarrow>
          if mtu < 0 then None
          else
            let mtu = (if mtu > int MaxContentSize then int MaxContentSize else mtu)
            in Some (dev\<lparr>tun_mtu := to_int32 mtu\<rparr>))"

definition RoutineTUNEventReader_step ::
  "crypto \<Rightarrow> env \<Rightarrow> bind_env \<Rightarrow> bind_env \<Rightarrow> bind_env \<Rightarrow> int option \<Rightarrow> int \<Rightarrow> Device \<Rightarrow> Device option" where
  "RoutineTUNEventReader_step c e b b' b'' mtu_result event dev =
     (case (if event AND EventMTUUpdate \<noteq> 0 then update_mtu mtu_result dev else Some dev) of
        None \<Rightarrow> Some dev
      | Some dev \<Rightarrow> do {
          dev \<leftarrow> (if event AND EventUp \<noteq> 0 then map_option snd (Device_Up c e b b' dev) else Some dev);
          if event AND EventDown \<noteq> 0 then map_option snd (Device_Down c e b'' dev) else Some dev
        })"

end
