(* ===== verification/Life.thy ===== *)
theory Life
  imports DeviceOps
begin

text \<open>
  The state of the device over time. \<open>safe_inv\<close> joins the invariants of the two data paths, \<open>life_inv\<close>
  says which peers run, which peers the routing table names and what each state of the device allows.
  \<open>safe_step\<close> is what every packet handler establishes; the operations on peers and on the device are
  shown to keep both invariants.
\<close>

section \<open>Packet handlers\<close>

definition safe_inv :: "Device \<Rightarrow> bool" where
  "safe_inv dev \<longleftrightarrow> nonce_inv dev \<and> recv_inv dev"

definition safe_step :: "Device \<Rightarrow> Device \<Rightarrow> bool" where
  "safe_step dev dev' \<longleftrightarrow> (safe_inv dev \<longrightarrow> safe_inv dev') \<and> same_life dev dev'"

lemma safe_step_refl [simp, intro]: "safe_step dev dev"
  by (simp add: safe_step_def same_life_def)

lemma safe_step_trans [trans]: "safe_step a b \<Longrightarrow> safe_step b d \<Longrightarrow> safe_step a d"
  using same_life_trans by (auto simp: safe_step_def)

lemma pred_option_split: "pred_option P m \<Longrightarrow> pred_option Q m \<Longrightarrow> pred_option (\<lambda>x. P x \<and> Q x) m"
  by (cases m) auto

lemma safe_stepI:
  "(nonce_inv dev \<Longrightarrow> nonce_inv dev') \<Longrightarrow> in_evolves dev dev' \<Longrightarrow> safe_step dev dev'"
  using recv_inv_evolves in_evolvesD(8) by (auto simp: safe_step_def safe_inv_def)

lemma safe_step_evolves: "evolves dev dev' \<Longrightarrow> safe_step dev dev'"
  by (rule safe_stepI) (auto intro: evolves_nonce_inv evolves_in)

lemma safe_option:
  assumes "nonce_inv dev \<Longrightarrow> pred_option nonce_inv m" and "pred_option (in_evolves dev) m"
  shows "pred_option (safe_step dev) m"
  using assms by (cases m) (auto intro: safe_stepI)

lemma safe_SendKeepalive: "pred_option (safe_step dev) (SendKeepalive c e p dev)"
  by (rule safe_option) (auto intro: nonce_inv_SendKeepalive in_evolves_SendKeepalive)

lemma safe_SendStagedPackets: "pred_option (safe_step dev) (SendStagedPackets c e p dev)"
  by (rule safe_option) (auto intro: nonce_inv_SendStagedPackets in_evolves_SendStagedPackets)

lemma safe_stage_groups: "pred_option (safe_step dev) (stage_groups c e gs dev)"
  by (rule safe_option) (auto intro: nonce_inv_stage_groups in_evolves_stage_groups)

lemma safe_RoutineHandshake: "pred_option (safe_step dev) (RoutineHandshake_step c e dev)"
  by (rule safe_option) (auto intro: RoutineHandshake_inv)

lemma safe_RoutineEncryption: "pred_option (safe_step dev) (RoutineEncryption_step c cid dev)"
  by (rule safe_option) (auto intro: in_evolves_RoutineEncryption nonce_inv_seal pred_optionI)

lemma safe_RoutineDecryption: "pred_option (safe_step dev) (RoutineDecryption_step c cid dev)"
  by (rule pred_optionI) (auto simp: safe_step_def safe_inv_def dest: RoutineDecryption_inv)

lemma safe_RoutineReceiveIncoming:
  "RoutineReceiveIncoming_step e r ds dev = (go, ds', dev') \<Longrightarrow> safe_step dev dev'"
  by (auto simp: safe_step_def safe_inv_def dest: RoutineReceiveIncoming_inv)

lemma safe_RoutineSequentialSender: "pred_option (\<lambda>r. safe_step dev (snd r)) (RoutineSequentialSender_step c e p dev)"
  by (rule pred_option_weaken [OF evolves_RoutineSequentialSender]) (rule safe_step_evolves)

lemma safe_RoutineSequentialReceiver:
  "pred_option (\<lambda>r. safe_step dev (snd r)) (RoutineSequentialReceiver_step c e p dev)"
proof (rule pred_optionI)
  fix r assume r: "RoutineSequentialReceiver_step c e p dev = Some r"
  have "safe_inv dev \<Longrightarrow> safe_inv (snd r)"
    using RoutineSequentialReceiver_nonce_inv [of dev c e p] RoutineSequentialReceiver_spec [of dev p c e] r
    by (simp add: safe_inv_def)
  then show "safe_step dev (snd r)"
    using RoutineSequentialReceiver_same_life [of dev c e p] r by (simp add: safe_step_def)
qed

lemma safe_expired:
  "pred_option (safe_step dev) (expiredRetransmitHandshake c e p dev)"
  "pred_option (safe_step dev) (expiredSendKeepalive c e p dev)"
  "pred_option (safe_step dev) (expiredNewHandshake c e p dev)"
  "safe_step dev (expiredZeroKeyMaterial p dev)"
  "pred_option (safe_step dev) (expiredPersistentKeepalive c e p dev)"
  by (rule safe_option safe_stepI; auto intro: nonce_inv_expired in_evolves_expired)+

lemma safe_ExpireCurrentKeypairs: "safe_step dev (ExpireCurrentKeypairs e p dev)"
proof (rule safe_stepI)
  assume "nonce_inv dev"
  moreover from this have "counters_ok dev" by (simp add: nonce_inv_def)
  ultimately show "nonce_inv (ExpireCurrentKeypairs e p dev)"
    using evolves_nonce_inv evolves_ExpireCurrentKeypairs by blast
qed (rule in_evolves_ExpireCurrentKeypairs)

section \<open>Operations on one peer\<close>

text \<open>The two invariants do not read these fields.\<close>

lemma safe_inv_fields [simp]:
  "safe_inv (dev\<lparr>bind_open := a\<rparr>) = safe_inv dev" "safe_inv (dev\<lparr>net_port := prt\<rparr>) = safe_inv dev"
  "safe_inv (dev\<lparr>net_fwmark := m\<rparr>) = safe_inv dev" "safe_inv (dev\<lparr>net_brokenRoaming := a\<rparr>) = safe_inv dev"
  "safe_inv (dev\<lparr>dev_state := s\<rparr>) = safe_inv dev" "safe_inv (dev\<lparr>keyMap := km\<rparr>) = safe_inv dev"
  "safe_inv (dev\<lparr>next_pid := n\<rparr>) = safe_inv dev" "safe_inv (dev\<lparr>allowedips := t\<rparr>) = safe_inv dev"
  "safe_inv (dev\<lparr>limiter := r\<rparr>) = safe_inv dev" "safe_inv (dev\<lparr>dev_closed := a\<rparr>) = safe_inv dev"
  "safe_inv (dev\<lparr>sid_privateKey := x\<rparr>) = safe_inv dev" "safe_inv (dev\<lparr>sid_publicKey := x\<rparr>) = safe_inv dev"
  "safe_inv (dev\<lparr>cookieChecker := cc\<rparr>) = safe_inv dev" "safe_inv (dev\<lparr>tun_mtu := i\<rparr>) = safe_inv dev"
  by (simp_all add: safe_inv_def nonce_inv_def recv_inv_def counters_ok_def pending_def cid_pairs_def [abs_def] pairs_below_def)

lemma safe_inv_upd_peer:
  assumes "\<And>q. slots (keypairs (f q)) \<subseteq> slots (keypairs q)" and "safe_inv dev"
  shows "safe_inv (upd_peer p f dev)"
proof -
  have "nonce_inv (upd_peer p f dev)"
    by (rule out_evolves_nonce_inv [of dev]) (use assms in \<open>auto simp: safe_inv_def out_evolves_def upd_peer_def\<close>)
  then show ?thesis using assms(2) by (auto simp: safe_inv_def upd_peer_def recv_inv_def)
qed

text \<open>\<open>stops p\<close>: exactly the peer's running flag may have been cleared.\<close>

definition stops :: "pid \<Rightarrow> Device \<Rightarrow> Device \<Rightarrow> bool" where
  "stops p dev dev' \<longleftrightarrow> (safe_inv dev \<longrightarrow> safe_inv dev')
     \<and> same_life (upd_peer p (\<lambda>q. q\<lparr>isRunning := False\<rparr>) dev) dev'"

lemma safe_drain_inbound: "pred_option (safe_step dev) (drain_inbound c e p n dev)"
proof (induction n arbitrary: dev)
  case (Suc n)
  have 1: "pred_option (safe_step dev) (case q_inbound (peers dev p) of
      Some cid # _ \<Rightarrow> if ic_locked (inb_heap dev cid) then RoutineDecryption_step c cid dev else Some dev
    | _ \<Rightarrow> Some dev)"
    by (auto split: list.splits option.splits intro: safe_RoutineDecryption)
  have 2: "pred_option (\<lambda>r. safe_step dev (snd r)) (RoutineSequentialReceiver_step c e p d)" if "safe_step dev d" for d
    by (rule pred_option_weaken [OF safe_RoutineSequentialReceiver]) (rule safe_step_trans [OF that])
  have 3: "pred_option (safe_step dev) (drain_inbound c e p n d)" if "safe_step dev d" for d
    by (rule pred_option_weaken [OF Suc.IH]) (rule safe_step_trans [OF that])
  show ?case
    unfolding drain_inbound.simps
    by (rule pred_option_bind [OF 1], rule pred_option_bind_pair [OF 2]) (auto intro: 3)
qed simp

lemma safe_drain_outbound: "pred_option (safe_step dev) (drain_outbound c e p n dev)"
proof (induction n arbitrary: dev)
  case (Suc n)
  have 1: "pred_option (safe_step dev) (case q_outbound (peers dev p) of
      Some cid # _ \<Rightarrow> if oc_locked (outb_heap dev cid) then RoutineEncryption_step c cid dev else Some dev
    | _ \<Rightarrow> Some dev)"
    by (auto split: list.splits option.splits intro: safe_RoutineEncryption)
  have 2: "pred_option (\<lambda>r. safe_step dev (snd r)) (RoutineSequentialSender_step c e p d)" if "safe_step dev d" for d
    by (rule pred_option_weaken [OF safe_RoutineSequentialSender]) (rule safe_step_trans [OF that])
  have 3: "pred_option (safe_step dev) (drain_outbound c e p n d)" if "safe_step dev d" for d
    by (rule pred_option_weaken [OF Suc.IH]) (rule safe_step_trans [OF that])
  show ?case
    unfolding drain_outbound.simps
    by (rule pred_option_bind [OF 1], rule pred_option_bind_pair [OF 2]) (auto intro: 3)
qed simp

lemma stops_Peer_Stop: "pred_option (stops p dev) (Peer_Stop c e p dev)"
proof (cases "isRunning (peers dev p)")
  case False
  then have "stops p dev dev" by (simp add: stops_def same_life_def upd_peer_def)
  then show ?thesis by (simp add: Peer_Stop_def False)
next
  case True
  define d where "d = upd_peer p (\<lambda>q. q\<lparr>q_outbound := q_outbound q @ [None]\<rparr>) (upd_peer p (\<lambda>q. q\<lparr>q_inbound := q_inbound q @ [None]\<rparr>)
    (timersStop p (upd_peer p (\<lambda>q. q\<lparr>isRunning := False\<rparr>) dev)))"
  have s: "safe_inv d" if "safe_inv dev"
    unfolding d_def timersStop_def upd_timers_def by (intro safe_inv_upd_peer that) auto
  have l: "same_life (upd_peer p (\<lambda>q. q\<lparr>isRunning := False\<rparr>) dev) d"
    by (simp add: d_def timersStop_def upd_timers_def upd_peer_def same_life_def)
  have st: "stops p dev d'" if "safe_step d d'" for d'
    using s that same_life_trans [OF l] by (auto simp: stops_def safe_step_def)
  have o: "pred_option (safe_step d) (drain_outbound c e p n x)" if "safe_step d x" for n x
    by (rule pred_option_weaken [OF safe_drain_outbound]) (rule safe_step_trans [OF that])
  have z: "safe_step d (ZeroAndFlushAll p x)" if "safe_step d x" for x
    by (rule safe_step_trans [OF that safe_step_evolves [OF evolves_ZeroAndFlushAll]])
  show ?thesis
    by (auto simp: Peer_Stop_def True Let_def simp flip: d_def intro!: pred_option_bind [OF safe_drain_inbound [of d]]
        pred_option_bind [OF o] st z)
qed

lemma safe_Peer_Start:
  assumes "Peer_Start e p dev = Some dev'"
  shows "safe_inv dev \<Longrightarrow> safe_inv dev'" and "allowedips dev' = allowedips dev"
    and "deviceState_isClosed dev \<Longrightarrow> dev' = dev"
    and "\<not> deviceState_isClosed dev \<Longrightarrow> same_life (upd_peer p (\<lambda>q. q\<lparr>isRunning := True\<rparr>) dev) dev'"
proof -
  define f where "f q = q\<lparr>handshake := handshake (peers dev p)\<lparr>hs_lastSentHandshake := env_now e + - (RekeyTimeout + second)\<rparr>,
    timers := timers q\<lparr>handshakeAttempts := 0, sentLastMinuteHandshake := False, needAnotherKeepalive := False\<rparr>,
    q_inbound := [], q_outbound := [], isRunning := True\<rparr>" for q :: Peer
  have d: "dev' = dev \<or> \<not> deviceState_isClosed dev \<and> dev' = upd_peer p f dev"
    using assms
    by (auto simp: Peer_Start_def Let_def bind_eq_Some_conv flushInboundQueue_def flushOutboundQueue_def
        timersStart_def dev_upd_defs f_def split: if_splits)
  show "safe_inv dev'" if "safe_inv dev"
    using d that by (auto intro!: safe_inv_upd_peer simp: f_def)
  show "allowedips dev' = allowedips dev" using d by (auto simp: upd_peer_def)
  show "deviceState_isClosed dev \<Longrightarrow> dev' = dev" using d by auto
  assume c: "\<not> deviceState_isClosed dev"
  have "isRunning (peers dev p)" if "dev' = dev"
  proof (rule ccontr)
    assume r: "\<not> isRunning (peers dev p)"
    then have "isRunning (peers dev' p)" using assms c
      by (auto simp: Peer_Start_def Let_def bind_eq_Some_conv upd_peer_def)
    with r that show False by simp
  qed
  then show "same_life (upd_peer p (\<lambda>q. q\<lparr>isRunning := True\<rparr>) dev) dev'"
    using d by (cases "dev' = dev") (simp_all add: same_life_def upd_peer_def f_def)
qed

section \<open>The life of a device, abstractly\<close>

record life =
  l_state :: deviceState
  l_open :: bool
  l_closed :: bool
  l_peers :: "(NoisePublicKey \<times> pid) list"
  l_next :: pid
  l_routes :: "route \<Rightarrow> pid option"
  l_running :: "pid set"

definition life :: "Device \<Rightarrow> life" where
  "life dev = \<lparr>l_state = dev_state dev, l_open = bind_open dev, l_closed = dev_closed dev, l_peers = keyMap dev,
     l_next = next_pid dev, l_routes = routes (allowedips dev), l_running = {p. isRunning (peers dev p)}\<rparr>"

definition l_pids :: "life \<Rightarrow> pid set" where
  "l_pids L = snd ` set (l_peers L)"

text \<open>Keys and peers are distinct and only registered peers run or receive routes; besides, a device
  that is not up has no open socket and no running peer, and a closed one has no peers.\<close>

definition reg_ok :: "life \<Rightarrow> bool" where
  "reg_ok L \<longleftrightarrow> distinct (map fst (l_peers L)) \<and> distinct (map snd (l_peers L)) \<and> (\<forall>p\<in>l_pids L. p < l_next L)
     \<and> l_running L \<subseteq> l_pids L \<and> (\<forall>r p. l_routes L r = Some p \<longrightarrow> p \<in> l_pids L)"

definition life_ok :: "life \<Rightarrow> bool" where
  "life_ok L \<longleftrightarrow> reg_ok L
     \<and> (l_state L \<noteq> deviceStateUp \<longrightarrow> \<not> l_open L \<and> l_running L = {})
     \<and> (l_closed L \<longleftrightarrow> l_state L = deviceStateClosed) \<and> (l_state L = deviceStateClosed \<longrightarrow> l_peers L = [])"

definition l_Stop :: "pid \<Rightarrow> life \<Rightarrow> life" where
  "l_Stop p L = L\<lparr>l_running := l_running L - {p}\<rparr>"

definition l_Start :: "pid \<Rightarrow> life \<Rightarrow> life" where
  "l_Start p L = (if l_state L = deviceStateClosed then L else L\<lparr>l_running := insert p (l_running L)\<rparr>)"

definition l_remove :: "pid \<Rightarrow> NoisePublicKey \<Rightarrow> life \<Rightarrow> life" where
  "l_remove p key L = L\<lparr>l_running := l_running L - {p},
     l_routes := (\<lambda>r. if l_routes L r = Some p then None else l_routes L r),
     l_peers := filter (\<lambda>(k, _). k \<noteq> key) (l_peers L)\<rparr>"

definition l_RemovePeer :: "NoisePublicKey \<Rightarrow> life \<Rightarrow> life" where
  "l_RemovePeer key L = (case map_of (l_peers L) key of None \<Rightarrow> L | Some p \<Rightarrow> l_remove p key L)"

definition l_NewPeer :: "NoisePublicKey \<Rightarrow> life \<Rightarrow> life" where
  "l_NewPeer pk L =
     (if l_state L = deviceStateClosed \<or> length (l_peers L) \<ge> MaxPeers \<or> pk \<in> fst ` set (l_peers L) then L
      else L\<lparr>l_peers := l_peers L @ [(pk, l_next L)], l_next := l_next L + 1\<rparr>)"

text \<open>What a change of state leads to, given whether it failed.\<close>

definition l_changeState :: "deviceState \<Rightarrow> bool \<Rightarrow> life \<Rightarrow> life" where
  "l_changeState want failed L =
     (if l_state L = deviceStateClosed \<or> want = l_state L \<or> want = deviceStateClosed then L
      else if want = deviceStateUp \<and> \<not> failed
      then L\<lparr>l_state := deviceStateUp, l_open := True, l_running := l_pids L\<rparr>
      else L\<lparr>l_state := deviceStateDown, l_open := False, l_running := {}\<rparr>)"

definition l_Close :: "life \<Rightarrow> life" where
  "l_Close L =
     (if l_state L = deviceStateClosed then L
      else L\<lparr>l_state := deviceStateClosed, l_open := False, l_closed := True, l_peers := [], l_running := {},
        l_routes := (\<lambda>_. None)\<rparr>)"

lemmas life_defs = life_def l_pids_def l_Stop_def l_Start_def l_remove_def

lemma life_same: "same_life dev dev' \<Longrightarrow> life dev' = life dev"
  by (simp add: same_life_def life_def)

lemma safe_step_life: "safe_step dev dev' \<Longrightarrow> life dev' = life dev \<and> allowedips dev' = allowedips dev"
  using life_same by (auto simp: safe_step_def same_life_def)

lemma pids_remove:
  assumes "reg_ok L" and "(key, p) \<in> set (l_peers L)"
  shows "l_pids (l_remove p key L) = l_pids L - {p}"
proof -
  have "k = key \<longleftrightarrow> q = p" if "(k, q) \<in> set (l_peers L)" for k q
    using assms that eq_key_imp_eq_value [of "l_peers L" key] inj_onD [of snd "set (l_peers L)" "(k, q)" "(key, p)"]
    by (auto simp: reg_ok_def distinct_map)
  then show ?thesis by (auto simp: l_pids_def l_remove_def image_iff)
qed

lemma reg_ok_remove:
  assumes "reg_ok L" and "(key, p) \<in> set (l_peers L)"
  shows "reg_ok (l_remove p key L)"
  using pids_remove [OF assms] assms(1) by (auto simp: reg_ok_def l_remove_def distinct_map_filter)

lemma life_ok_RemovePeer: "life_ok L \<Longrightarrow> life_ok (l_RemovePeer key L)"
  using reg_ok_remove [of L key] by (auto simp: life_ok_def l_RemovePeer_def l_remove_def dest: map_of_SomeD split: option.splits)

lemma life_ok_NewPeer: "life_ok L \<Longrightarrow> life_ok (l_NewPeer pk L)"
  by (fastforce simp: life_ok_def reg_ok_def l_NewPeer_def l_pids_def less_Suc_eq)

lemma life_ok_changeState: "life_ok L \<Longrightarrow> life_ok (l_changeState want failed L)"
  by (cases want) (auto simp: life_ok_def reg_ok_def l_changeState_def l_pids_def)

lemma life_ok_Close: "life_ok L \<Longrightarrow> life_ok (l_Close L)"
  by (auto simp: life_ok_def reg_ok_def l_Close_def l_pids_def)

section \<open>The operations implement the abstract ones\<close>

definition implements :: "(life \<Rightarrow> life) \<Rightarrow> Device \<Rightarrow> Device \<Rightarrow> bool" where
  "implements F dev dev' \<longleftrightarrow> (table_inv (allowedips dev) \<longrightarrow>
     table_inv (allowedips dev') \<and> life dev' = F (life dev) \<and> (safe_inv dev \<longrightarrow> safe_inv dev'))"

lemma implements_trans: "implements F a b \<Longrightarrow> implements G b d \<Longrightarrow> implements (\<lambda>L. G (F L)) a d"
  by (simp add: implements_def)

lemma implements_safe: "safe_step dev dev' \<Longrightarrow> implements (\<lambda>L. L) dev dev'"
  using safe_step_life by (auto simp: implements_def safe_step_def)

lemma implements_after: "implements F a b \<Longrightarrow> safe_step b d \<Longrightarrow> implements F a d"
  using implements_trans [of F a b "\<lambda>L. L" d] implements_safe by simp

lemma implements_for_each:
  assumes "\<And>x d. pred_option (implements (F x) d) (f x d)"
  shows "pred_option (implements (fold F xs) dev) (for_each f xs dev)"
proof (induction xs arbitrary: dev)
  case (Cons x xs)
  show ?case
    unfolding for_each.simps
    by (rule pred_option_bind [OF assms], rule pred_option_weaken [OF Cons.IH]) (auto simp: implements_def)
qed (simp add: implements_def)

lemma life_running:
  "life (upd_peer p (\<lambda>q. q\<lparr>isRunning := False\<rparr>) dev) = l_Stop p (life dev)"
  "l_state (life dev) \<noteq> deviceStateClosed \<Longrightarrow> life (upd_peer p (\<lambda>q. q\<lparr>isRunning := True\<rparr>) dev) = l_Start p (life dev)"
  by (auto simp: life_defs upd_peer_def)

lemma implements_Stop: "pred_option (implements (l_Stop p) dev) (Peer_Stop c e p dev)"
proof (rule pred_option_weaken [OF stops_Peer_Stop])
  fix d assume s: "stops p dev d"
  then have l: "same_life (upd_peer p (\<lambda>q. q\<lparr>isRunning := False\<rparr>) dev) d" by (simp add: stops_def)
  then have "allowedips d = allowedips dev" by (simp add: same_life_def upd_peer_def)
  moreover note life_same [OF l]
  ultimately show "implements (l_Stop p) dev d" using s by (simp add: implements_def stops_def life_running)
qed

lemma implements_Start: "pred_option (implements (l_Start p) dev) (Peer_Start e p dev)"
proof (rule pred_optionI)
  fix d assume s: "Peer_Start e p dev = Some d"
  have "life d = l_Start p (life dev)"
  proof (cases "deviceState_isClosed dev")
    case True
    then show ?thesis using safe_Peer_Start(3) [OF s] by (simp add: l_Start_def life_def deviceState_isClosed_def)
  next
    case False
    then show ?thesis using life_same [OF safe_Peer_Start(4) [OF s False]] life_running(2) [of dev p]
      by (simp add: life_def deviceState_isClosed_def)
  qed
  then show "implements (l_Start p) dev d" using safe_Peer_Start(1,2) [OF s] by (simp add: implements_def)
qed

lemma implements_remove: "pred_option (implements (l_remove p key) dev) (removePeerLocked c e p key dev)"
proof (rule pred_optionI)
  fix d assume "removePeerLocked c e p key dev = Some d"
  then obtain t d1 where t: "RemoveByPeer (allowedips dev) p = Some t"
    "Peer_Stop c e p (dev\<lparr>allowedips := t\<rparr>) = Some d1" "d = d1\<lparr>keyMap := filter (\<lambda>(k, _). k \<noteq> key) (keyMap d1)\<rparr>"
    by (auto simp: removePeerLocked_def bind_eq_Some_conv)
  have i: "implements (l_Stop p) (dev\<lparr>allowedips := t\<rparr>) d1" using implements_Stop t(2) by (metis pred_optionD)
  show "implements (l_remove p key) dev d"
    unfolding implements_def
  proof
    assume "table_inv (allowedips dev)"
    then have r: "table_inv t" "routes t = (\<lambda>k. if routes (allowedips dev) k = Some p then None else routes (allowedips dev) k)"
      using RemoveByPeer_correct [of "allowedips dev" p] t(1) by auto
    have "life d1 = l_Stop p (life (dev\<lparr>allowedips := t\<rparr>))" "table_inv (allowedips d1)" "safe_inv dev \<longrightarrow> safe_inv d1"
      using i r(1) by (simp_all add: implements_def)
    moreover have "life d = (life d1)\<lparr>l_peers := filter (\<lambda>(k, _). k \<noteq> key) (l_peers (life d1))\<rparr>"
      by (simp add: t(3) life_def)
    ultimately show "table_inv (allowedips d) \<and> life d = l_remove p key (life dev) \<and> (safe_inv dev \<longrightarrow> safe_inv d)"
      by (simp add: t(3) l_Stop_def l_remove_def life_def r(2) fun_eq_iff)
  qed
qed

lemma implements_RemovePeer: "pred_option (implements (l_RemovePeer key) dev) (RemovePeer c e key dev)"
proof (cases "map_of (keyMap dev) key")
  case None
  then show ?thesis by (simp add: RemovePeer_def implements_def l_RemovePeer_def life_def)
next
  case (Some p)
  then show ?thesis
    using implements_remove [of p key dev c e]
    by (auto simp: RemovePeer_def implements_def l_RemovePeer_def life_def elim: pred_option_weaken)
qed

lemma fold_l_remove:
  "fold (\<lambda>(k, p). l_remove p k) ps L = L\<lparr>l_running := l_running L - snd ` set ps,
     l_routes := (\<lambda>r. if l_routes L r \<in> Some ` snd ` set ps then None else l_routes L r),
     l_peers := filter (\<lambda>(k, _). k \<notin> fst ` set ps) (l_peers L)\<rparr>"
proof (induction ps arbitrary: L)
  case (Cons x ps)
  obtain k p where x: "x = (k, p)" by (cases x)
  show ?case
    unfolding x fold_simps(2) case_prod_conv Cons.IH
    by (rule life.equality) (auto simp: l_remove_def fun_eq_iff image_iff case_prod_unfold intro: filter_cong)
qed simp

lemma implements_RemoveAllPeers:
  assumes "reg_ok (life dev)"
  shows "pred_option (implements (\<lambda>L. L\<lparr>l_peers := [], l_running := {}, l_routes := \<lambda>_. None\<rparr>) dev) (RemoveAllPeers c e dev)"
proof -
  have m: "pred_option (implements (fold (\<lambda>(k, p). l_remove p k) (keyMap dev)) dev)
      (for_each (\<lambda>(key, p). removePeerLocked c e p key) (keyMap dev) dev)"
    by (rule implements_for_each) (use implements_remove in \<open>auto split: prod.splits\<close>)
  have f: "(fold (\<lambda>(k, p). l_remove p k) (keyMap dev) (life dev))\<lparr>l_peers := []\<rparr>
      = (life dev)\<lparr>l_peers := [], l_running := {}, l_routes := \<lambda>_. None\<rparr>"
  proof -
    have "l_routes (life dev) r \<notin> Some ` l_pids (life dev) \<Longrightarrow> l_routes (life dev) r = None" for r
      using assms unfolding reg_ok_def by (metis image_eqI not_None_eq)
    moreover have "l_running (life dev) - l_pids (life dev) = {}" using assms by (auto simp: reg_ok_def)
    moreover have "keyMap dev = l_peers (life dev)" by (simp add: life_def)
    ultimately show ?thesis by (simp add: fold_l_remove l_pids_def fun_eq_iff)
  qed
  have "implements (\<lambda>L. L\<lparr>l_peers := [], l_running := {}, l_routes := \<lambda>_. None\<rparr>) dev (d\<lparr>keyMap := []\<rparr>)"
    if i: "implements (fold (\<lambda>(k, p). l_remove p k) (keyMap dev)) dev d" for d
  proof -
    have "life (d\<lparr>keyMap := []\<rparr>) = (life d)\<lparr>l_peers := []\<rparr>" by (simp add: life_def)
    then show ?thesis using i f by (simp add: implements_def)
  qed
  then show ?thesis unfolding RemoveAllPeers_def by (intro pred_option_bind [OF m]) simp
qed

section \<open>The device\<close>

lemma implements_upd_peer:
  "(\<And>q. keypairs (f q) = keypairs q \<and> isRunning (f q) = isRunning q) \<Longrightarrow> implements (\<lambda>L. L) dev (upd_peer p f dev)"
  by (rule implements_safe [OF safe_step_evolves]) (rule evolves_upd_peer, simp)

lemma implements_fold:
  "(\<And>x d. implements (\<lambda>L. L) d (f x d)) \<Longrightarrow> implements (\<lambda>L. L) dev (fold f xs dev)"
  by (induction xs arbitrary: dev) (auto simp: implements_def)

lemma implements_mark_all: "implements (\<lambda>L. L) dev (mark_all_endpoints dev)"
  unfolding mark_all_endpoints_def
  by (rule implements_fold)
     (auto simp: markEndpointSrcForClearing_def intro: implements_upd_peer implements_safe split: option.splits)

text \<open>Fields that are not part of the abstract state.\<close>

lemma life_fields [simp]:
  "life (dev\<lparr>net_port := prt\<rparr>) = life dev" "life (dev\<lparr>net_fwmark := m\<rparr>) = life dev"
  "life (dev\<lparr>net_brokenRoaming := b\<rparr>) = life dev" "life (dev\<lparr>limiter := r\<rparr>) = life dev"
  "life (dev\<lparr>sid_privateKey := x\<rparr>) = life dev" "life (dev\<lparr>sid_publicKey := x\<rparr>) = life dev"
  "life (dev\<lparr>cookieChecker := cc\<rparr>) = life dev" "life (dev\<lparr>tun_mtu := i\<rparr>) = life dev"
  "life (dev\<lparr>bind_open := b\<rparr>) = (life dev)\<lparr>l_open := b\<rparr>" "life (dev\<lparr>dev_state := st\<rparr>) = (life dev)\<lparr>l_state := st\<rparr>"
  "life (dev\<lparr>dev_closed := b\<rparr>) = (life dev)\<lparr>l_closed := b\<rparr>" "life (dev\<lparr>keyMap := km\<rparr>) = (life dev)\<lparr>l_peers := km\<rparr>"
  by (simp_all add: life_def)

lemma life_read:
  "keyMap dev = l_peers (life dev)" "dev_state dev = l_state (life dev)" "bind_open dev = l_open (life dev)"
  "isRunning (peers dev p) \<longleftrightarrow> p \<in> l_running (life dev)" "next_pid dev = l_next (life dev)" "dev_closed dev = l_closed (life dev)"
  by (simp_all add: life_def)

text \<open>A successful update of the bind of an up device opens it; a failed one of any device leaves the
  rest as it was; on a device that is not up the bind is closed.\<close>

lemma implements_BindUpdate:
  assumes "BindUpdate b dev = (err, dev')"
  shows "implements (\<lambda>L. L\<lparr>l_open := bind_open dev'\<rparr>) dev dev'"
    and "err = None \<Longrightarrow> bind_open dev' = deviceState_isUp dev"
    and "\<not> deviceState_isUp dev \<Longrightarrow> \<not> bind_open dev'"
proof -
  have m: "table_inv (allowedips d) \<Longrightarrow> safe_inv d \<Longrightarrow> safe_inv (mark_all_endpoints d)" "bind_open (mark_all_endpoints d) = bind_open d"
    "table_inv (allowedips d) \<Longrightarrow> table_inv (allowedips (mark_all_endpoints d)) \<and> life (mark_all_endpoints d) = life d" for d
  proof -
    show "table_inv (allowedips d) \<Longrightarrow> safe_inv d \<Longrightarrow> safe_inv (mark_all_endpoints d)"
      "table_inv (allowedips d) \<Longrightarrow> table_inv (allowedips (mark_all_endpoints d)) \<and> life (mark_all_endpoints d) = life d"
      using implements_mark_all [of d] by (auto simp: implements_def)
    have "bind_open (fold markEndpointSrcForClearing ps d) = bind_open d" for ps
      by (induction ps arbitrary: d) (auto simp: markEndpointSrcForClearing_def upd_peer_def)
    then show "bind_open (mark_all_endpoints d) = bind_open d" by (simp add: mark_all_endpoints_def)
  qed
  let ?d = "dev\<lparr>bind_open := False\<rparr>"
  consider "dev' = ?d" "err \<noteq> None \<or> \<not> deviceState_isUp dev" | "dev' = ?d\<lparr>net_port := 0\<rparr>" "err \<noteq> None" "deviceState_isUp dev"
    | port where "dev' = ?d\<lparr>net_port := port, bind_open := True\<rparr>" "err \<noteq> None" "deviceState_isUp dev"
    | port where "dev' = mark_all_endpoints (?d\<lparr>net_port := port, bind_open := True\<rparr>)" "err = None" "deviceState_isUp dev"
    using assms
    by (auto simp: BindUpdate_def closeBindLocked_def Let_def deviceState_isUp_def split: if_splits option.splits)
  note cases = this
  show "implements (\<lambda>L. L\<lparr>l_open := bind_open dev'\<rparr>) dev dev'"
    by (rule cases) (use m in \<open>auto simp: implements_def\<close>)
  show "err = None \<Longrightarrow> bind_open dev' = deviceState_isUp dev" by (rule cases) (use m(2) in auto)
  show "\<not> deviceState_isUp dev \<Longrightarrow> \<not> bind_open dev'" by (rule cases) auto
qed

lemma implements_BindSetMark: "implements (\<lambda>L. L) dev (snd (BindSetMark b mark dev))"
proof -
  have "implements (\<lambda>L. L) dev (mark_all_endpoints (dev\<lparr>net_fwmark := mark\<rparr>))"
    using implements_mark_all [of "dev\<lparr>net_fwmark := mark\<rparr>"] by (simp add: implements_def)
  then show ?thesis by (auto simp: BindSetMark_def Let_def implements_def)
qed

lemma fold_l_Stop: "fold l_Stop ps L = L\<lparr>l_running := l_running L - set ps\<rparr>"
  by (induction ps arbitrary: L) (auto simp: l_Stop_def intro!: life.equality)

lemma fold_l_Start:
  "l_state L \<noteq> deviceStateClosed \<Longrightarrow> fold l_Start ps L = L\<lparr>l_running := l_running L \<union> set ps\<rparr>"
  by (induction ps arbitrary: L) (auto simp: l_Start_def intro!: life.equality)

lemma peer_list_pids: "set (peer_list dev) = l_pids (life dev)"
  by (simp add: peer_list_def l_pids_def life_def)

lemma implements_down:
  "pred_option (\<lambda>r. implements (\<lambda>L. L\<lparr>l_open := False, l_running := l_running L - l_pids L\<rparr>) dev (snd r)
     \<and> (fst r = None \<longleftrightarrow> be_close b)) (downLocked c e b dev)"
proof -
  let ?d = "dev\<lparr>bind_open := False\<rparr>"
  have "pred_option (implements (fold l_Stop (peer_list ?d)) ?d) (for_each (Peer_Stop c e) (peer_list ?d) ?d)"
    by (rule implements_for_each) (rule implements_Stop)
  then have "pred_option (implements (\<lambda>L. L\<lparr>l_open := False, l_running := l_running L - l_pids L\<rparr>) dev)
      (for_each (Peer_Stop c e) (peer_list ?d) ?d)"
    by (rule pred_option_weaken) (auto simp: implements_def fold_l_Stop peer_list_pids l_pids_def)
  then show ?thesis
    by (auto simp: downLocked_def BindClose_def closeBindLocked_def Let_def pred_option_map elim: pred_option_weaken)
qed

lemma implements_up:
  assumes "dev_state dev = deviceStateUp"
  shows "pred_option (\<lambda>(err, d). if err = None
      then implements (\<lambda>L. L\<lparr>l_open := True, l_running := l_running L \<union> l_pids L\<rparr>) dev d
      else implements (\<lambda>L. L\<lparr>l_open := bind_open d\<rparr>) dev d) (upLocked c e b dev)"
proof -
  obtain err d where u: "BindUpdate b dev = (err, d)" by fastforce
  note b = implements_BindUpdate [OF u]
  show ?thesis
  proof (cases err)
    case (Some x)
    then show ?thesis using b(1) by (simp add: upLocked_def u)
  next
    case None
    then have o: "bind_open d" using b(2) assms by (simp add: deviceState_isUp_def)
    let ?f = "\<lambda>p dev. do {
      dev \<leftarrow> Peer_Start e p dev;
      if persistentKeepaliveInterval (peers dev p) > 0 then SendKeepalive c e p dev else Some dev }"
    have k: "pred_option (implements F x) (SendKeepalive c e p y)" if "implements F x y" for F x y p
      by (rule pred_option_weaken [OF safe_SendKeepalive]) (rule implements_after [OF that])
    have "pred_option (implements (l_Start p) x) (?f p x)" for p x
      by (rule pred_option_bind [OF implements_Start]) (auto intro: k)
    then have "pred_option (implements (fold l_Start (peer_list d)) d) (for_each ?f (peer_list d) d)"
      by (rule implements_for_each)
    then have "pred_option (implements (\<lambda>L. L\<lparr>l_open := True, l_running := l_running L \<union> l_pids L\<rparr>) dev)
        (for_each ?f (peer_list d) d)"
    proof (rule pred_option_weaken)
      fix x assume x: "implements (fold l_Start (peer_list d)) d x"
      have "fold l_Start (peer_list d) (life d) = (life dev)\<lparr>l_open := True, l_running := l_running (life dev) \<union> l_pids (life dev)\<rparr>"
        if "life d = (life dev)\<lparr>l_open := True\<rparr>"
        using that assms by (subst fold_l_Start) (simp_all add: peer_list_pids l_pids_def life_read(2))
      then show "implements (\<lambda>L. L\<lparr>l_open := True, l_running := l_running L \<union> l_pids L\<rparr>) dev x"
        using x b(1) o by (auto simp: implements_def)
    qed
    then show ?thesis
      by (simp add: upLocked_def u None pred_option_map cong: if_cong)
  qed
qed

lemma implements_changeState:
  assumes "life_ok (life dev)"
  shows "pred_option (\<lambda>(err, d). implements (l_changeState want (err \<noteq> None)) dev d) (changeState c e b b' want dev)"
proof -
  let ?down = "\<lambda>L. L\<lparr>l_state := deviceStateDown, l_open := False, l_running := {}\<rparr>"
  have d: "pred_option (\<lambda>r. implements ?down dev (snd r)) (downLocked c e b' (x\<lparr>dev_state := deviceStateDown\<rparr>))"
    if x: "implements (\<lambda>L. L\<lparr>l_state := st, l_open := w\<rparr>) dev x" for x w st
  proof (rule pred_option_weaken [OF implements_down])
    fix r assume r: "implements (\<lambda>L. L\<lparr>l_open := False, l_running := l_running L - l_pids L\<rparr>) (x\<lparr>dev_state := deviceStateDown\<rparr>) (snd r)
      \<and> (fst r = None \<longleftrightarrow> be_close b')"
    have "l_running (life dev) - l_pids (life dev) = {}" using assms by (auto simp: life_ok_def reg_ok_def)
    then show "implements ?down dev (snd r)" using r x by (auto simp: implements_def l_pids_def)
  qed
  let ?u = "dev\<lparr>dev_state := deviceStateUp\<rparr>"
  have i: "implements (\<lambda>L. L\<lparr>l_state := deviceStateUp\<rparr>) dev ?u" by (simp add: implements_def)
  have same: "implements (\<lambda>L. L\<lparr>l_state := dev_state dev, l_open := bind_open dev\<rparr>) dev dev"
    by (simp add: implements_def life_read)
  consider "dev_state dev = deviceStateClosed \<or> want = dev_state dev \<or> want = deviceStateClosed"
    | "dev_state dev = deviceStateDown" "want = deviceStateUp" | "dev_state dev = deviceStateUp" "want = deviceStateDown"
    by (cases want; cases "dev_state dev") auto
  then show ?thesis
  proof cases
    case 1
    then show ?thesis
      by (cases want) (auto simp: changeState_def Let_def implements_def l_changeState_def life_read)
  next
    case 2
    have up: "pred_option (\<lambda>(err, d). if err = None
        then implements (\<lambda>L. L\<lparr>l_state := deviceStateUp, l_open := True, l_running := l_pids L\<rparr>) dev d
        else implements (\<lambda>L. L\<lparr>l_state := deviceStateUp, l_open := bind_open d\<rparr>) dev d) (upLocked c e b ?u)"
      by (rule pred_option_weaken [OF implements_up])
         (use assms i 2 in \<open>auto simp: implements_def l_pids_def life_ok_def life_read\<close>)
    show ?thesis
      using 2 unfolding changeState_def Let_def
      by (auto simp: l_changeState_def implements_def life_read intro!: pred_option_bind_pair [OF up])
         (auto intro!: pred_option_bind_pair [OF d] simp: implements_def)
  next
    case 3
    have "l_changeState want f (life dev) = ?down (life dev)" for f using 3 by (simp add: l_changeState_def life_read)
    then have "pred_option (\<lambda>r. \<forall>f. implements (l_changeState want f) dev (snd r)) (downLocked c e b' (dev\<lparr>dev_state := deviceStateDown\<rparr>))"
      by (intro pred_option_weaken [OF d [OF same]]) (simp add: implements_def)
    with 3 show ?thesis unfolding changeState_def Let_def by (auto simp: case_prod_unfold elim: pred_option_weaken)
  qed
qed

lemma implements_NewPeer:
  assumes "reg_ok (life dev)"
  shows "implements (l_NewPeer pk) dev (snd (NewPeer c pk dev))"
proof (cases "dev_state dev = deviceStateClosed \<or> length (keyMap dev) \<ge> MaxPeers \<or> map_of (keyMap dev) pk \<noteq> None")
  case True
  then show ?thesis
    by (auto simp: NewPeer_def implements_def l_NewPeer_def life_read deviceState_isClosed_def map_of_eq_None_iff
        dest: map_of_SomeD)
next
  case False
  define q where "q = zero_Peer\<lparr>cookieGenerator := CookieGenerator_Init c pk zero_CookieGenerator,
    handshake := zero_Handshake\<lparr>hs_precomputedStaticStatic := fst (sharedSecret c (sid_privateKey dev) pk), hs_remoteStatic := pk\<rparr>,
    timers := zero_Timers\<lparr>retransmitHandshake := NewTimer, sendKeepalive := NewTimer,
      newHandshake := NewTimer, zeroKeyMaterial := NewTimer, persistentKeepalive := NewTimer\<rparr>\<rparr>"
  have d: "snd (NewPeer c pk dev) = (upd_peer (next_pid dev) (\<lambda>_. q) dev)\<lparr>next_pid := next_pid dev + 1,
      keyMap := keyMap dev @ [(pk, next_pid dev)]\<rparr>" "keypairs q = zero_Keypairs" "\<not> isRunning q"
    using False by (auto simp: NewPeer_def Let_def deviceState_isClosed_def upd_timers_def upd_peer_def timersInit_def zero_Peer_def q_def)
  have "\<not> isRunning (peers dev (next_pid dev))" using assms by (auto simp: reg_ok_def life_read)
  then have "life (snd (NewPeer c pk dev)) = l_NewPeer pk (life dev)"
    using False d by (auto simp: l_NewPeer_def life_def upd_peer_def map_of_eq_None_iff)
  moreover have "safe_inv dev \<Longrightarrow> safe_inv (upd_peer (next_pid dev) (\<lambda>_. q) dev)"
    by (rule safe_inv_upd_peer) (simp_all add: d(2) slots_def zero_Keypairs_def)
  ultimately show ?thesis using d by (simp add: implements_def upd_peer_def)
qed

lemma implements_Close:
  assumes "life_ok (life dev)"
  shows "pred_option (implements l_Close dev) (Device_Close c e b dev)"
proof (cases "deviceState_isClosed dev")
  case True
  then show ?thesis by (simp add: Device_Close_def implements_def l_Close_def life_read deviceState_isClosed_def)
next
  case False
  let ?d = "dev\<lparr>dev_state := deviceStateClosed\<rparr>"
  let ?F = "\<lambda>L. L\<lparr>l_state := deviceStateClosed, l_open := False, l_running := {}\<rparr>"
  have 1: "pred_option (\<lambda>r. implements ?F dev (snd r)) (downLocked c e b ?d)"
    by (rule pred_option_weaken [OF implements_down])
       (use assms in \<open>auto simp: implements_def l_pids_def life_ok_def reg_ok_def\<close>)
  have 2: "pred_option (implements (\<lambda>L. L\<lparr>l_state := deviceStateClosed, l_open := False, l_peers := [], l_running := {},
      l_routes := \<lambda>_. None\<rparr>) dev) (RemoveAllPeers c e d)" if i: "implements ?F dev d" "table_inv (allowedips dev)" for d
  proof -
    have "life d = ?F (life dev)" using i by (simp add: implements_def)
    moreover from this have "reg_ok (life d)" using assms by (auto simp: life_ok_def reg_ok_def l_pids_def)
    ultimately show ?thesis
      using i by (auto intro!: pred_option_weaken [OF implements_RemoveAllPeers] simp: implements_def)
  qed
  show ?thesis
  proof (cases "table_inv (allowedips dev)")
    case True
    then show ?thesis
      using False unfolding Device_Close_def Let_def
      by (auto intro!: pred_option_bind_pair [OF 1] pred_option_bind [OF 2] split: sum.splits
          simp: implements_def l_Close_def life_read deviceState_isClosed_def)
  qed (auto simp: implements_def intro: pred_optionI)
qed

section \<open>The invariant of the device\<close>

definition dev_inv :: "Device \<Rightarrow> bool" where
  "dev_inv dev \<longleftrightarrow> safe_inv dev \<and> table_inv (allowedips dev) \<and> life_ok (life dev)"

lemma dev_inv_implements:
  "dev_inv dev \<Longrightarrow> implements F dev dev' \<Longrightarrow> (life_ok (life dev) \<Longrightarrow> life_ok (F (life dev))) \<Longrightarrow> dev_inv dev'"
  by (simp add: dev_inv_def implements_def)

text \<open>With the state of the device, which only \<open>changeState\<close> and \<open>Close\<close> change.\<close>

definition dev_at :: "deviceState \<Rightarrow> Device \<Rightarrow> bool" where
  "dev_at s dev \<longleftrightarrow> dev_inv dev \<and> dev_state dev = s"

lemma dev_at_implements:
  "dev_at s dev \<Longrightarrow> implements F dev dev' \<Longrightarrow> (life_ok (life dev) \<Longrightarrow> life_ok (F (life dev))) \<Longrightarrow>
   l_state (F (life dev)) = l_state (life dev) \<Longrightarrow> dev_at s dev'"
  by (auto simp: dev_at_def dev_inv_def implements_def life_read)

lemma dev_at_safe_step: "dev_at s dev \<Longrightarrow> safe_step dev dev' \<Longrightarrow> dev_at s dev'"
  by (erule dev_at_implements [OF _ implements_safe]) simp_all

lemma dev_at_option:
  assumes "dev_at s dev" "pred_option (implements F dev) m" "life_ok (life dev) \<Longrightarrow> life_ok (F (life dev))"
    "l_state (F (life dev)) = l_state (life dev)"
  shows "pred_option (dev_at s) m"
  using assms by (cases m) (auto intro: dev_at_implements)

lemma dev_at_safe_option: "dev_at s dev \<Longrightarrow> pred_option (safe_step dev) m \<Longrightarrow> pred_option (dev_at s) m"
  by (cases m) (auto intro: dev_at_safe_step)

lemma dev_inv_option:
  assumes "dev_inv dev" "pred_option (implements F dev) m" "life_ok (life dev) \<Longrightarrow> life_ok (F (life dev))"
  shows "pred_option dev_inv m"
  using assms by (cases m) (auto intro: dev_inv_implements)

lemma dev_inv_at: "dev_inv dev \<longleftrightarrow> dev_at (dev_state dev) dev"
  by (simp add: dev_at_def)

lemma dev_inv_for_each:
  assumes "\<And>x d. x \<in> set xs \<Longrightarrow> P d \<Longrightarrow> pred_option P (f x d)" "P dev"
  shows "pred_option P (for_each f xs dev)"
  using assms by (induction xs arbitrary: dev) (auto intro!: pred_option_bind)

lemma dev_inv_changeState: "dev_inv dev \<Longrightarrow> pred_option (\<lambda>r. dev_inv (snd r)) (changeState c e b b' want dev)"
  by (rule pred_option_weaken [OF implements_changeState])
     (auto simp: dev_inv_def implements_def life_ok_changeState split: prod.splits)

lemma l_state_ops: "l_state (l_NewPeer pk L) = l_state L" "l_state (l_RemovePeer key L) = l_state L"
  by (simp_all add: l_NewPeer_def l_RemovePeer_def l_remove_def split: option.split)

lemma dev_at_NewPeer: "dev_at s dev \<Longrightarrow> dev_at s (snd (NewPeer c pk dev))"
  by (rule dev_at_implements [OF _ implements_NewPeer]) (simp_all add: life_ok_NewPeer l_state_ops, simp add: dev_at_def dev_inv_def life_ok_def)

lemma dev_inv_Close: "dev_inv dev \<Longrightarrow> pred_option dev_inv (Device_Close c e b dev)"
  by (rule dev_inv_option [OF _ implements_Close]) (auto simp: dev_inv_def intro: life_ok_Close)

lemma dev_at_RemovePeer: "dev_at s dev \<Longrightarrow> pred_option (dev_at s) (RemovePeer c e key dev)"
  by (rule dev_at_option [OF _ implements_RemovePeer]) (auto intro: life_ok_RemovePeer simp: l_state_ops)

lemma dev_at_RemoveAllPeers: "dev_at s dev \<Longrightarrow> pred_option (dev_at s) (RemoveAllPeers c e dev)"
  by (rule dev_at_option [OF _ implements_RemoveAllPeers]) (auto simp: dev_at_def dev_inv_def life_ok_def reg_ok_def l_pids_def)

lemma dev_at_BindSetMark: "dev_at s dev \<Longrightarrow> dev_at s (snd (BindSetMark b mark dev))"
  by (erule dev_at_implements [OF _ implements_BindSetMark]) simp_all

lemma dev_at_BindUpdate: "dev_at s dev \<Longrightarrow> dev_at s (snd (BindUpdate b dev))"
proof -
  assume "dev_at s dev"
  moreover obtain err d where u: "BindUpdate b dev = (err, d)" by fastforce
  ultimately show ?thesis
    using implements_BindUpdate(3) [OF u]
    by (auto intro!: dev_at_implements [OF _ implements_BindUpdate(1) [OF u]]
        simp: u life_ok_def reg_ok_def l_pids_def deviceState_isUp_def life_read)
qed

lemma dev_at_Start:
  assumes "dev_at s dev" "dev_state dev = deviceStateUp" "p \<in> set (peer_list dev)"
  shows "pred_option (dev_at s) (Peer_Start e p dev)"
  by (rule dev_at_option [OF assms(1) implements_Start])
     (use assms(2,3) in \<open>auto simp: life_ok_def reg_ok_def l_Start_def l_pids_def peer_list_pids life_read\<close>)

lemma dev_at_SendKeepalives:
  assumes "dev_at s dev"
  shows "pred_option (dev_at s) (SendKeepalivesToPeersWithCurrentKeypair c e dev)"
  unfolding SendKeepalivesToPeersWithCurrentKeypair_def
  by (auto intro!: dev_inv_for_each assms split: option.splits intro: dev_at_safe_option [OF _ safe_SendKeepalive])

lemma dev_at_DisableSomeRoaming:
  assumes "dev_at s dev"
  shows "dev_at s (DisableSomeRoamingForBrokenMobileSemantics dev)"
proof -
  have "implements (\<lambda>L. L) (dev\<lparr>net_brokenRoaming := True\<rparr>) (DisableSomeRoamingForBrokenMobileSemantics dev)"
    unfolding DisableSomeRoamingForBrokenMobileSemantics_def Let_def
    by (rule implements_fold) (simp add: implements_upd_peer)
  then show ?thesis
    by (rule dev_at_implements [rotated]) (use assms in \<open>simp_all add: dev_at_def dev_inv_def\<close>)
qed

text \<open>Removing peers of the map, in the order of a copy of it.\<close>

lemma dev_at_remove_from:
  assumes "dev_at s dev" "(key, p) \<in> set (keyMap dev) \<or> key \<notin> fst ` set (keyMap dev)"
  shows "pred_option (\<lambda>d. dev_at s d \<and> set (keyMap d) \<subseteq> set (keyMap dev)) (removePeerLocked c e p key dev)"
proof (rule pred_option_weaken [OF implements_remove])
  fix d assume i: "implements (l_remove p key) dev d"
  have "life_ok (l_remove p key (life dev))"
  proof (cases "(key, p) \<in> set (keyMap dev)")
    case True
    then show ?thesis
      using reg_ok_remove [of "life dev" key p] assms(1) by (auto simp: dev_at_def dev_inv_def life_ok_def life_read l_remove_def)
  next
    case False
    then have "filter (\<lambda>(k, _). k \<noteq> key) (l_peers (life dev)) = l_peers (life dev)"
      using assms(2) by (force simp: life_read filter_id_conv)
    then show ?thesis
      using assms(1) by (auto simp: dev_at_def dev_inv_def life_ok_def reg_ok_def l_remove_def l_pids_def)
  qed
  then show "dev_at s d \<and> set (keyMap d) \<subseteq> set (keyMap dev)"
    using dev_at_implements [OF assms(1) i] i assms(1) by (auto simp: dev_at_def dev_inv_def implements_def life_read l_remove_def)
qed

lemma dev_at_SetPrivateKey:
  assumes "dev_at s dev"
  shows "pred_option (dev_at s) (SetPrivateKey c e sk dev)"
proof -
  let ?P = "\<lambda>d. dev_at s d \<and> set (keyMap d) \<subseteq> set (keyMap dev)"
  have uniq: "(key, p) \<in> set (keyMap d) \<or> key \<notin> fst ` set (keyMap d)"
    if "(key, p) \<in> set (keyMap dev)" "set (keyMap d) \<subseteq> set (keyMap dev)" for key p d
  proof -
    have "distinct (map fst (keyMap dev))" using assms by (simp add: dev_at_def dev_inv_def life_ok_def reg_ok_def life_read)
    then have "q = p" if "(key, q) \<in> set (keyMap d)" for q
      using eq_key_imp_eq_value [of "keyMap dev" key q p] that \<open>(key, p) \<in> set (keyMap dev)\<close> \<open>set (keyMap d) \<subseteq> _\<close> by blast
    then show ?thesis by (auto simp: image_iff)
  qed
  have loop: "pred_option ?P (for_each (\<lambda>(key, p) dev.
      if Equals (hs_remoteStatic (handshake (peers dev p))) (publicKey c sk)
      then removePeerLocked c e p key dev else Some dev) (keyMap dev) dev)"
  proof (rule dev_inv_for_each)
    fix x d assume x: "x \<in> set (keyMap dev)" "?P d"
    obtain key p where k: "x = (key, p)" by (cases x)
    have "pred_option ?P (removePeerLocked c e p key d)"
      using x uniq [of key p d] by (intro pred_option_weaken [OF dev_at_remove_from [of s d key p c e]]) (auto simp: k)
    with x(2) show "pred_option ?P ((case x of (key, p) \<Rightarrow> \<lambda>dev.
        if Equals (hs_remoteStatic (handshake (peers dev p))) (publicKey c sk)
        then removePeerLocked c e p key dev else Some dev) d)"
      by (simp add: k)
  qed (use assms in simp)
  have h: "safe_step d (set_handshake p hs d)" for d p hs by (rule safe_step_evolves) simp
  have f: "safe_step d (fold g ps d)" if "\<And>x d. safe_step d (g x d)" for g ps d
    using that by (induction ps arbitrary: d) (auto intro: safe_step_trans)
  have "dev_at s (fold (ExpireCurrentKeypairs e) ps (fold (\<lambda>p dev. let hs = handshake (peers dev p)
      in set_handshake p (hs\<lparr>hs_precomputedStaticStatic := fst (sharedSecret c sk (hs_remoteStatic hs))\<rparr>) dev) qs
      (d\<lparr>sid_privateKey := sk, sid_publicKey := pub, cookieChecker := cc\<rparr>)))" if "dev_at s d" for d ps qs pub cc
  proof (rule dev_at_safe_step [OF dev_at_safe_step [OF _ f] f])
    show "dev_at s (d\<lparr>sid_privateKey := sk, sid_publicKey := pub, cookieChecker := cc\<rparr>)"
      using that by (simp add: dev_at_def dev_inv_def)
  qed (auto simp: Let_def intro: h safe_ExpireCurrentKeypairs)
  then show ?thesis
    using assms unfolding SetPrivateKey_def Let_def by (simp add: pred_option_bind [OF loop])
qed

lemma dev_inv_event:
  assumes "dev_inv dev"
  shows "pred_option dev_inv (RoutineTUNEventReader_step c e b b' b'' mtu event dev)"
proof -
  have m: "dev_inv d" if "update_mtu mtu dev = Some d" for d
    using that assms by (auto simp: update_mtu_def Let_def dev_inv_def split: option.splits if_splits)
  show ?thesis
    unfolding RoutineTUNEventReader_step_def Device_Up_def Device_Down_def
    by (auto split: option.split simp: pred_option_map assms
        intro!: pred_option_bind [where Q = dev_inv] dev_inv_changeState dest: m)
qed

lemma dev_inv_NewDevice: "NewDevice mtu = Some dev \<Longrightarrow> dev_inv dev"
  by (auto simp: NewDevice_def Rate_Init_def new_ratelimiter_def Let_def dev_inv_def safe_inv_def nonce_inv_def
      recv_inv_def counters_ok_def pending_def pairs_below_def zero_Device_def zero_Peer_def life_def life_ok_def reg_ok_def
      l_pids_def slots_def zero_Keypairs_def table_kids_def IndexTable_Init_def split: if_splits option.splits)

lemma no_route_no_Lookup:
  assumes "dev_inv dev" "p \<notin> set (peer_list dev)" "addr_width (length ip)"
  shows "Lookup (allowedips dev) ip \<noteq> Some (Some p)"
proof
  assume "Lookup (allowedips dev) ip = Some (Some p)"
  then have "lpm (\<lambda>k. routes (allowedips dev) (length ip, k)) (ip_bits ip) = Some p"
    using wg_routing.lookup_law [OF _ assms(3), of "allowedips dev"] assms(1) by (simp add: dev_inv_def)
  then show False
    by (rule lpm_Some) (use assms in \<open>auto simp: dev_inv_def life_ok_def reg_ok_def peer_list_pids life_def\<close>)
qed

section \<open>Properties\<close>

text \<open>A device with one peer, for the witnesses.\<close>

definition example_bind :: bind_env where
  "example_bind = \<lparr>be_close = True, be_open = (\<lambda>port. if port = 0 then Some 51820 else Some port), be_listener = True, be_mark = True\<rparr>"

definition example_pk :: NoisePublicKey where
  "example_pk = replicate 32 7"

definition example_new :: Device where
  "example_new = snd (NewPeer toy_crypto example_pk (the (NewDevice (Some 1420))))"

lemma example_new_inv: "dev_inv example_new"
proof -
  obtain dev where "NewDevice (Some 1420) = Some dev"
    by (auto simp: NewDevice_def Rate_Init_def new_ratelimiter_def Let_def)
  then show ?thesis using dev_at_NewPeer [of _ dev] dev_inv_NewDevice [of _ dev] by (simp add: example_new_def dev_at_def)
qed

lemma example_new_fields:
  "keyMap example_new = [(example_pk, 0)]" "dev_state example_new = deviceStateDown" "bind_open example_new = False"
  "peers example_new 0 = zero_Peer\<lparr>cookieGenerator := CookieGenerator_Init toy_crypto example_pk zero_CookieGenerator,
    handshake := zero_Handshake\<lparr>hs_precomputedStaticStatic := fst (sharedSecret toy_crypto zero_key example_pk), hs_remoteStatic := example_pk\<rparr>,
    timers := zero_Timers\<lparr>retransmitHandshake := NewTimer, sendKeepalive := NewTimer,
      newHandshake := NewTimer, zeroKeyMaterial := NewTimer, persistentKeepalive := NewTimer\<rparr>\<rparr>"
  "p \<noteq> 0 \<Longrightarrow> peers example_new p = zero_Peer" "net_port example_new = 0" "net_fwmark example_new = 0"
  by (simp_all add: example_new_def NewDevice_def Rate_Init_def new_ratelimiter_def Let_def NewPeer_def zero_Device_def
      deviceState_isClosed_def MaxPeers_def upd_peer_def timersInit_def upd_timers_def zero_Peer_def)

text \<open>C18. Changing the state of a device does what the state diagram says. On a closed device
  nothing happens. Going up either succeeds, with sockets open and every registered peer
  running, or reports an error with the device down again, no socket open and no peer running; going down
  stops every peer whether or not closing the sockets reported an error. The peers and routes
  stay, and the invariant of the device holds afterwards.\<close>

theorem changeState_refines:
  assumes "dev_inv dev" and "changeState c e b b' want dev = Some (err, dev')"
  shows "life dev' = l_changeState want (err \<noteq> None) (life dev) \<and> dev_inv dev'"
  using assms implements_changeState [of dev want c e b b'] dev_inv_changeState [OF assms(1), of c e b b' want]
  by (simp add: dev_inv_def implements_def)

theorem changeState_refines_witness:
  "\<exists>err dev'. changeState toy_crypto (example_env 0 1 1) example_bind example_bind deviceStateUp example_new = Some (err, dev')
     \<and> life dev' = l_changeState deviceStateUp (err \<noteq> None) (life example_new) \<and> isRunning (peers dev' 0)"
proof -
  obtain dev' where r: "changeState toy_crypto (example_env 0 1 1) example_bind example_bind deviceStateUp example_new = Some (None, dev')"
    by (auto simp: changeState_def upLocked_def BindUpdate_def closeBindLocked_def example_bind_def deviceState_isUp_def
        example_new_fields mark_all_endpoints_def peer_list_def markEndpointSrcForClearing_def zero_Peer_def Peer_Start_def
        deviceState_isClosed_def flushInboundQueue_def flushOutboundQueue_def dev_upd_defs timersStart_def Let_def)
  have l: "life dev' = l_changeState deviceStateUp False (life example_new)"
    using changeState_refines [OF example_new_inv r] by simp
  then have "isRunning (peers dev' 0)"
    by (simp add: life_read(4) l_changeState_def) (simp add: life_def example_new_fields l_pids_def)
  with r l show ?thesis by auto
qed

text \<open>C19. Removing a peer removes all of it: its key is no longer registered, it does not run, no
  address is routed to it any more, and every other registration stays as it was.\<close>

theorem RemovePeer_complete:
  assumes "dev_inv dev" and "LookupPeer key dev = Some p" and "RemovePeer c e key dev = Some dev'"
  shows "LookupPeer key dev' = None \<and> \<not> isRunning (peers dev' p)
    \<and> (\<forall>ip. addr_width (length ip) \<longrightarrow> Lookup (allowedips dev') ip \<noteq> Some (Some p))
    \<and> (\<forall>k. k \<noteq> key \<longrightarrow> LookupPeer k dev' = LookupPeer k dev) \<and> dev_inv dev'"
proof -
  have i: "dev_inv dev'" using dev_at_RemovePeer [of _ dev c e key] assms(1,3) by (simp add: dev_at_def)
  have m: "map_of (keyMap dev) key = Some p" using assms(2) by (simp add: LookupPeer_def)
  have l: "life dev' = l_remove p key (life dev)"
    using implements_RemovePeer [of key dev c e] assms(1,3) m by (simp add: implements_def dev_inv_def l_RemovePeer_def life_read)
  have "p \<notin> set (peer_list dev')"
    using pids_remove [of "life dev" key p] assms(1) map_of_SomeD [OF m]
    by (simp add: peer_list_pids l dev_inv_def life_ok_def life_read)
  moreover have "map_of (filter (\<lambda>(k, _). k \<noteq> key) xs) k = (if k = key then None else map_of xs k)"
    for k :: NoisePublicKey and xs :: "(NoisePublicKey \<times> pid) list" by (induction xs) auto
  ultimately show ?thesis
    using i no_route_no_Lookup [OF i] by (auto simp: LookupPeer_def life_read l l_remove_def)
qed

theorem RemovePeer_complete_witness:
  "\<exists>dev'. RemovePeer toy_crypto (example_env 0 1 1) example_pk example_new = Some dev' \<and> LookupPeer example_pk dev' = None"
proof -
  obtain t where "RemoveByPeer (allowedips example_new) 0 = Some t"
    using RemoveByPeer_correct [of "allowedips example_new" 0] example_new_inv unfolding dev_inv_def by blast
  then obtain dev' where r: "RemovePeer toy_crypto (example_env 0 1 1) example_pk example_new = Some dev'"
    by (simp add: RemovePeer_def example_new_fields removePeerLocked_def Peer_Stop_def zero_Peer_def)
  then show ?thesis
    using RemovePeer_complete [OF example_new_inv, of example_pk 0, OF _ r] by (simp add: LookupPeer_def example_new_fields)
qed

text \<open>The sessions of a peer have ended: no handshake is under way and its key pairs send nothing more.\<close>

definition sessions_expired :: "pid \<Rightarrow> Device \<Rightarrow> bool" where
  "sessions_expired p dev \<longleftrightarrow> hs_state (handshake (peers dev p)) = handshakeZeroed
     \<and> (\<forall>k. ks_current (keypairs (peers dev p)) = Some k \<or> ks_next (keypairs (peers dev p)) = Some k \<longrightarrow>
         kp_sendNonce (keypair_heap dev k) = RejectAfterMessages)"

definition precomputed :: "crypto \<Rightarrow> pid \<Rightarrow> Device \<Rightarrow> bool" where
  "precomputed c p dev \<longleftrightarrow> hs_precomputedStaticStatic (handshake (peers dev p))
     = fst (sharedSecret c (sid_privateKey dev) (hs_remoteStatic (handshake (peers dev p))))"

lemma Expire_effect:
  fixes dev e p
  defines "d \<equiv> ExpireCurrentKeypairs e p dev"
  shows "sessions_expired p d" "sessions_expired q dev \<Longrightarrow> sessions_expired q d" "precomputed c q dev \<Longrightarrow> precomputed c q d"
    "sid_privateKey d = sid_privateKey dev \<and> sid_publicKey d = sid_publicKey dev \<and> keyMap d = keyMap dev"
  unfolding d_def sessions_expired_def precomputed_def ExpireCurrentKeypairs_def Let_def dev_upd_defs
  by (auto simp: Handshake_Clear_def split: option.splits)

lemma fold_Expire_effect:
  fixes dev e ps
  defines "d \<equiv> fold (ExpireCurrentKeypairs e) ps dev"
  shows "q \<in> set ps \<or> sessions_expired q dev \<Longrightarrow> sessions_expired q d" "precomputed c q dev \<Longrightarrow> precomputed c q d"
    "sid_privateKey d = sid_privateKey dev \<and> sid_publicKey d = sid_publicKey dev \<and> keyMap d = keyMap dev"
proof -
  show "q \<in> set ps \<or> sessions_expired q dev \<Longrightarrow> sessions_expired q d"
    unfolding d_def by (induction ps arbitrary: dev) (auto intro: Expire_effect(1,2))
  show "precomputed c q dev \<Longrightarrow> precomputed c q d"
    unfolding d_def by (induction ps arbitrary: dev) (auto intro: Expire_effect(3))
  show "sid_privateKey d = sid_privateKey dev \<and> sid_publicKey d = sid_publicKey dev \<and> keyMap d = keyMap dev"
    unfolding d_def by (induction ps arbitrary: dev) (simp_all add: Expire_effect(4))
qed

lemma fold_precompute:
  fixes dev sk c ps
  defines "d \<equiv> fold (\<lambda>p dev. let hs = handshake (peers dev p)
      in set_handshake p (hs\<lparr>hs_precomputedStaticStatic := fst (sharedSecret c sk (hs_remoteStatic hs))\<rparr>) dev) ps dev"
  shows "sid_privateKey dev = sk \<Longrightarrow> q \<in> set ps \<or> precomputed c q dev \<Longrightarrow> precomputed c q d"
    "sid_privateKey d = sid_privateKey dev \<and> sid_publicKey d = sid_publicKey dev \<and> keyMap d = keyMap dev"
  unfolding d_def
  by (induction ps arbitrary: dev) (auto simp: Let_def set_handshake_def upd_peer_def precomputed_def)



end
