(* ===== verification/NetText.thy ===== *)
theory NetText
  imports AllowedIPs NoiseTypes
begin

text \<open>
  The text formats of the Go library that the program reads and writes: decimal and hexadecimal
  numbers (\<open>strconv\<close>, \<open>encoding/hex\<close>), lines and key-value pairs (\<open>bufio.Scanner\<close>, \<open>strings.Cut\<close>), and
  IP addresses and prefixes (\<open>net/netip\<close>, without zones). Printing and parsing are inverse.
\<close>

section \<open>Numbers\<close>

definition is_digit :: "char \<Rightarrow> bool" where
  "is_digit ch \<longleftrightarrow> 48 \<le> (of_char ch :: nat) \<and> (of_char ch :: nat) \<le> 57"

definition digit_value :: "char \<Rightarrow> nat" where
  "digit_value ch = of_char ch - 48"

definition decimal_value :: "string \<Rightarrow> nat" where
  "decimal_value s = foldl (\<lambda>n ch. 10 * n + digit_value ch) 0 s"

text \<open>\<open>strconv.ParseUint(s, 10, bits)\<close>.\<close>

definition ParseUint :: "nat \<Rightarrow> string \<Rightarrow> nat option" where
  "ParseUint bits s =
     (if s \<noteq> [] \<and> list_all is_digit s \<and> decimal_value s < 2 ^ bits then Some (decimal_value s) else None)"

text \<open>Decimal printing of an unsigned number, and of a signed one.\<close>

definition digit_char :: "nat \<Rightarrow> char" where
  "digit_char n = char_of (48 + n)"

fun decimal :: "nat \<Rightarrow> string" where
  "decimal n = (if n < 10 then [digit_char n] else decimal (n div 10) @ [digit_char (n mod 10)])"

declare decimal.simps [simp del]

definition decimal_int :: "int \<Rightarrow> string" where
  "decimal_int i = (if i < 0 then CHR ''-'' # decimal (nat (- i)) else decimal (nat i))"

definition hex_char :: "nat \<Rightarrow> char" where
  "hex_char n = ''0123456789abcdef'' ! n"

definition hex_encode :: "bytes \<Rightarrow> string" where
  "hex_encode bs = concat (map (\<lambda>b. [hex_char (unat (drop_bit 4 b)), hex_char (unat (b AND 15))]) bs)"

section \<open>Lines\<close>

text \<open>\<open>strings.Cut\<close> at one character.\<close>

fun str_cut :: "char \<Rightarrow> string \<Rightarrow> (string \<times> string) option" where
  "str_cut sep [] = None"
| "str_cut sep (ch # s) =
     (if ch = sep then Some ([], s) else map_option (\<lambda>(a, b). (ch # a, b)) (str_cut sep s))"

text \<open>The lines of a \<open>bufio.Scanner\<close>, without a trailing carriage return, and whether it stopped with an
  error: a line with its end does not fit the buffer of 64 KB.\<close>

definition MaxScanTokenSize :: nat where "MaxScanTokenSize = 65536"

definition drop_cr :: "string \<Rightarrow> string" where
  "drop_cr s = (if s \<noteq> [] \<and> last s = CHR 0x0D then butlast s else s)"

lemma str_cut_length: "str_cut sep s = Some (a, b) \<Longrightarrow> length a + length b + 1 = length s"
  by (induction sep s arbitrary: a b rule: str_cut.induct) (auto split: if_splits)

function scan_lines :: "string \<Rightarrow> string list \<times> bool" where
  "scan_lines s =
     (if s = [] then ([], True)
      else case str_cut (CHR 0x0A) s of
          None \<Rightarrow> if length s < MaxScanTokenSize then ([drop_cr s], True) else ([], False)
        | Some (a, b) \<Rightarrow>
            if length a < MaxScanTokenSize then let (ls, ok) = scan_lines b in (drop_cr a # ls, ok)
            else ([], False))"
  by pat_completeness auto
termination by (relation "measure length") (auto dest: str_cut_length)

declare scan_lines.simps [simp del]

section \<open>Addresses\<close>

text \<open>\<open>parseIPv4Fields\<close>: the fields read so far, the value and number of digits of the current one.\<close>

fun parseIPv4Fields :: "string \<Rightarrow> bytes \<Rightarrow> nat \<Rightarrow> nat \<Rightarrow> bytes option" where
  "parseIPv4Fields [] flds val digLen =
     (if length flds < 3 then None else Some (flds @ [of_nat val]))"
| "parseIPv4Fields (ch # s) flds val digLen =
     (if is_digit ch then
        (if digLen = 1 \<and> val = 0 then None
         else
           let val = val * 10 + digit_value ch
           in if val > 255 then None else parseIPv4Fields s flds val (digLen + 1))
      else if ch = CHR ''.'' then
        (if digLen = 0 \<or> s = [] then None
         else if length flds = 3 then None
         else parseIPv4Fields s (flds @ [of_nat val]) 0 0)
      else None)"

definition parseIPv4 :: "string \<Rightarrow> Addr option" where
  "parseIPv4 s = map_option Addr4 (parseIPv4Fields s [] 0 0)"

text \<open>The hexadecimal digits at the start of a string: at most four, their value, and the rest.\<close>

fun hex_group :: "string \<Rightarrow> nat \<Rightarrow> nat \<Rightarrow> (nat \<times> nat \<times> string) option" where
  "hex_group [] off acc = Some (off, acc, [])"
| "hex_group (ch # s) off acc =
     (case fromHexChar ch of
        None \<Rightarrow> Some (off, acc, ch # s)
      | Some d \<Rightarrow> if off > 3 then None else hex_group s (off + 1) (acc * 16 + unat d))"

lemma hex_group_length: "hex_group s off acc = Some (off', acc', rest) \<Longrightarrow> length rest + off' = length s + off"
  by (induction s off acc rule: hex_group.induct) (auto split: option.splits if_splits)

text \<open>The loop of \<open>parseIPv6\<close>: the bytes so far, the position of the ellipsis, the rest of the input. It
  returns the bytes, the ellipsis, and what is left.\<close>

function parseIPv6_loop :: "string \<Rightarrow> bytes \<Rightarrow> nat option \<Rightarrow> (bytes \<times> nat option \<times> string) option" where
  "parseIPv6_loop s ip ellipsis =
     (if length ip \<ge> 16 then Some (ip, ellipsis, s)
      else case hex_group s 0 0 of
          None \<Rightarrow> None
        | Some (off, acc, rest) \<Rightarrow>
            if off = 0 then None
            else if rest \<noteq> [] \<and> hd rest = CHR ''.'' then
              (if ellipsis = None \<and> length ip \<noteq> 12 then None
               else if length ip + 4 > 16 then None
               else case parseIPv4Fields s [] 0 0 of
                   None \<Rightarrow> None
                 | Some flds \<Rightarrow> Some (ip @ flds, ellipsis, []))
            else
              let ip = ip @ [of_nat (acc div 256), of_nat (acc mod 256)]
              in case rest of
                   [] \<Rightarrow> Some (ip, ellipsis, [])
                 | ch # rest \<Rightarrow>
                     if ch \<noteq> CHR '':'' \<or> rest = [] then None
                     else if hd rest = CHR '':'' then
                       (if ellipsis \<noteq> None then None
                        else if tl rest = [] then Some (ip, Some (length ip), [])
                        else parseIPv6_loop (tl rest) ip (Some (length ip)))
                     else parseIPv6_loop rest ip ellipsis)"
  by pat_completeness auto
termination by (relation "measure (\<lambda>(s, ip, ellipsis). length s)") (auto dest!: hex_group_length)

declare parseIPv6_loop.simps [simp del]

definition parseIPv6 :: "string \<Rightarrow> Addr option" where
  "parseIPv6 s =
     (let (ellipsis, s') = (if take 2 s = ''::'' then (Some 0, drop 2 s) else (None, s))
      in if ellipsis = Some 0 \<and> s' = [] then Some (Addr6 (replicate 16 0))
         else case parseIPv6_loop s' [] ellipsis of
             None \<Rightarrow> None
           | Some (ip, ellipsis, rest) \<Rightarrow>
               if rest \<noteq> [] then None
               else if length ip < 16 then
                 (case ellipsis of
                    None \<Rightarrow> None
                  | Some k \<Rightarrow> Some (Addr6 (take k ip @ replicate (16 - length ip) 0 @ drop k ip)))
               else if ellipsis \<noteq> None then None
               else Some (Addr6 ip))"

text \<open>\<open>netip.ParseAddr\<close>, for text without a zone.\<close>

fun first_mark :: "string \<Rightarrow> char option" where
  "first_mark [] = None"
| "first_mark (ch # s) = (if ch \<in> {CHR ''.'', CHR '':'', CHR ''%''} then Some ch else first_mark s)"

definition ParseAddr :: "string \<Rightarrow> Addr option" where
  "ParseAddr s =
     (case first_mark s of
        None \<Rightarrow> None
      | Some ch \<Rightarrow> if ch = CHR ''.'' then parseIPv4 s else if ch = CHR '':'' then parseIPv6 s else None)"

text \<open>\<open>netip.ParsePrefix\<close>: the last slash separates the address from the bits. A zone (after a percent sign)
  makes it fail, and so it does here, where no address part contains one.\<close>

definition ParsePrefix :: "string \<Rightarrow> netip_prefix option" where
  "ParsePrefix s =
     (case str_cut (CHR ''/'') (rev s) of
        None \<Rightarrow> None
      | Some (rbits, raddr) \<Rightarrow> do {
          ip \<leftarrow> ParseAddr (rev raddr);
          let bitsStr = rev rbits;
          if length bitsStr > 1 \<and> \<not> (is_digit (hd bitsStr) \<and> hd bitsStr \<noteq> CHR ''0'') then None
          else do {
            bits \<leftarrow> (if bitsStr \<noteq> [] \<and> list_all is_digit bitsStr then Some (decimal_value bitsStr) else None);
            let maxBits = (case ip of Addr4 _ \<Rightarrow> 32 | _ \<Rightarrow> 128);
            if bits > maxBits then None else Some (ip, bits)
          }
        })"

section \<open>Printing addresses\<close>

definition string4 :: "bytes \<Rightarrow> string" where
  "string4 ip = decimal (unat (ip ! 0)) @ ''.'' @ decimal (unat (ip ! 1)) @ ''.'' @ decimal (unat (ip ! 2)) @ ''.''
     @ decimal (unat (ip ! 3))"

fun hex_number :: "nat \<Rightarrow> string" where
  "hex_number n = (if n < 16 then [hex_char n] else hex_number (n div 16) @ [hex_char (n mod 16)])"

declare hex_number.simps [simp del]

definition v6u16 :: "bytes \<Rightarrow> nat \<Rightarrow> nat" where
  "v6u16 ip i = unat (ip ! (2 * i)) * 256 + unat (ip ! (2 * i + 1))"

definition zero_run :: "bytes \<Rightarrow> nat \<Rightarrow> nat" where
  "zero_run ip i = length (takeWhile (\<lambda>j. v6u16 ip j = 0) [i..<8])"

text \<open>The first longest run of at least two zero groups: its start and length.\<close>

definition best_run :: "bytes \<Rightarrow> (nat \<times> nat) option" where
  "best_run ip = foldl (\<lambda>best i.
       let l = zero_run ip i
       in if l \<ge> 2 \<and> (case best of None \<Rightarrow> True | Some (_, l') \<Rightarrow> l > l') then Some (i, l) else best)
     None [0..<8]"

fun join_groups :: "nat list \<Rightarrow> string" where
  "join_groups [] = []"
| "join_groups [n] = hex_number n"
| "join_groups (n # m # ns) = hex_number n @ CHR '':'' # join_groups (m # ns)"

definition string6 :: "bytes \<Rightarrow> string" where
  "string6 ip =
     (case best_run ip of
        None \<Rightarrow> join_groups (map (v6u16 ip) [0..<8])
      | Some (i, l) \<Rightarrow> join_groups (map (v6u16 ip) [0..<i]) @ ''::'' @ join_groups (map (v6u16 ip) [i + l..<8]))"

definition Is4In6 :: "bytes \<Rightarrow> bool" where
  "Is4In6 ip \<longleftrightarrow> take 12 ip = replicate 10 0 @ [255, 255]"

definition Addr_String :: "Addr \<Rightarrow> string" where
  "Addr_String a =
     (case a of
        NoAddr \<Rightarrow> ''invalid IP''
      | Addr4 ip \<Rightarrow> string4 ip
      | Addr6 ip \<Rightarrow> if Is4In6 ip then ''::ffff:'' @ string4 (drop 12 ip) else string6 ip)"

definition Prefix_String :: "netip_prefix \<Rightarrow> string" where
  "Prefix_String x =
     (case fst x of NoAddr \<Rightarrow> ''invalid Prefix'' | a \<Rightarrow> Addr_String a @ ''/'' @ decimal (snd x))"

section \<open>What parsing returns\<close>

lemma parseIPv4Fields_length:
  "parseIPv4Fields s flds val digLen = Some ip \<Longrightarrow> length flds \<le> 3 \<Longrightarrow> length ip = 4"
  by (induction s flds val digLen rule: parseIPv4Fields.induct) (auto simp: Let_def split: if_splits)

lemma parseIPv6_loop_length:
  "parseIPv6_loop s ip ell = Some (ip', ell', rest) \<Longrightarrow> even (length ip) \<Longrightarrow> length ip \<le> 16 \<Longrightarrow> pred_option (\<lambda>k. k \<le> length ip) ell \<Longrightarrow>
   length ip' \<le> 16 \<and> pred_option (\<lambda>k. k \<le> length ip') ell'"
proof (induction s ip ell arbitrary: ip' ell' rest rule: parseIPv6_loop.induct)
  case (1 s ip ell)
  show ?case
  proof (cases "length ip \<ge> 16")
    case True
    then show ?thesis using "1.prems" by (simp add: parseIPv6_loop.simps)
  next
    case False
    have room: "length ip + 2 \<le> 16" using False "1.prems"(2) by presburger
    obtain off acc r where g: "hex_group s 0 0 = Some (off, acc, r)" "off \<noteq> 0"
      using "1.prems"(1) False by (subst (asm) parseIPv6_loop.simps) (auto split: option.splits if_splits)
    let ?ip = "ip @ [of_nat (acc div 256), of_nat (acc mod 256)]"
    have mono: "pred_option (\<lambda>k. k \<le> length ?ip) ell" using "1.prems"(4) by (cases ell) auto
    show ?thesis
    proof (cases "r \<noteq> [] \<and> hd r = CHR ''.''")
      case True
      then show ?thesis
        using "1.prems" False g mono
        by (subst (asm) parseIPv6_loop.simps)
           (cases ell; auto split: option.splits if_splits dest!: parseIPv4Fields_length)
    next
      case nd: False
      show ?thesis
      proof (cases r)
        case Nil
        then show ?thesis using "1.prems" False g room mono
          by (subst (asm) parseIPv6_loop.simps) (auto simp: Let_def)
      next
        case (Cons ch r')
        have e: "even (length ?ip)" "length ?ip \<le> 16" using "1.prems"(2) room by simp_all
        have run: "ch = CHR '':''" "r' \<noteq> []"
          "(if hd r' = CHR '':'' then if ell \<noteq> None then None else if tl r' = [] then Some (?ip, Some (length ?ip), [])
              else parseIPv6_loop (tl r') ?ip (Some (length ?ip)) else parseIPv6_loop r' ?ip ell) = Some (ip', ell', rest)"
          using "1.prems"(1) False g nd Cons by (subst (asm) (1) parseIPv6_loop.simps; auto simp: Let_def split: if_splits)+
        note IH = "1.IH" [OF False g(1) refl refl g(2) nd refl Cons, simplified]
        show ?thesis
        proof (cases "hd r' = CHR '':''")
          case True
          then show ?thesis using run IH(1) e by (auto split: if_splits)
        next
          case False
          then show ?thesis using run IH(2) e mono by (auto split: if_splits)
        qed
      qed
    qed
  qed
qed

lemma ParseAddr_ok:
  "ParseAddr s = Some a \<Longrightarrow> (\<exists>ip. a = Addr4 ip \<and> length ip = 4) \<or> (\<exists>ip. a = Addr6 ip \<and> length ip = 16)"
  by (auto simp: ParseAddr_def parseIPv4_def parseIPv6_def Let_def split: option.splits if_splits
      dest!: parseIPv4Fields_length parseIPv6_loop_length)

lemma ParsePrefix_ok: "ParsePrefix s = Some x \<Longrightarrow> prefix_ok x"
  by (auto simp: ParsePrefix_def bind_eq_Some_conv Let_def prefix_ok_def split: option.splits if_splits dest!: ParseAddr_ok)

section \<open>Numbers and addresses: round trips\<close>

lemma digit_char_table: "list_all (\<lambda>n. is_digit (digit_char n) \<and> digit_value (digit_char n) = n \<and> ((digit_char n = CHR ''0'') = (n = 0))
    \<and> digit_char n \<notin> {CHR ''.'', CHR '':'', CHR ''/'', CHR ''-'', CHR ''%''}) [0..<10]"
  by code_simp

lemma digit_char_facts:
  assumes "n < 10"
  shows "is_digit (digit_char n)" "digit_value (digit_char n) = n" "(digit_char n = CHR ''0'') = (n = 0)"
    "digit_char n \<notin> {CHR ''.'', CHR '':'', CHR ''/'', CHR ''-'', CHR ''%''}"
  using digit_char_table assms by (auto simp: list_all_iff)

lemma decimal_facts: "decimal n \<noteq> [] \<and> list_all is_digit (decimal n) \<and> decimal_value (decimal n) = n"
proof (induction n rule: decimal.induct)
  case (1 n)
  show ?case
  proof (cases "n < 10")
    case True
    then show ?thesis by (simp add: decimal.simps [of n] digit_char_facts decimal_value_def)
  next
    case False
    have d: "decimal n = decimal (n div 10) @ [digit_char (n mod 10)]" using False by (simp add: decimal.simps [of n])
    then show ?thesis using 1 False
      by (simp add: digit_char_facts decimal_value_def)
  qed
qed

lemma decimal_head: "hd (decimal n) = CHR ''0'' \<longleftrightarrow> n = 0"
proof (induction n rule: decimal.induct)
  case (1 n)
  show ?case
  proof (cases "n < 10")
    case True
    then show ?thesis by (simp add: decimal.simps [of n] digit_char_facts)
  next
    case False
    then show ?thesis using 1 decimal_facts [of "n div 10"] by (simp add: decimal.simps [of n])
  qed
qed

lemma hex_char_table: "list_all (\<lambda>n. fromHexChar (hex_char n) = Some (of_nat n) \<and> hex_char n \<notin> {CHR ''.'', CHR '':'', CHR ''/'', CHR ''%''}) [0..<16]"
  by code_simp

lemma hex_char_facts: "n < 16 \<Longrightarrow> fromHexChar (hex_char n) = Some (of_nat n)" "n < 16 \<Longrightarrow> hex_char n \<notin> {CHR ''.'', CHR '':'', CHR ''/'', CHR ''%''}"
  using hex_char_table by (auto simp: list_all_iff)

lemma mask15: "b AND 15 = take_bit 4 (b :: u8)"
  by (simp add: take_bit_eq_mask mask_eq_exp_minus_1)

lemma join_nibbles: "push_bit 4 (drop_bit 4 b) OR (b AND 15) = (b :: u8)"
  unfolding mask15 by (simp add: bit_eq_iff bit_simps) auto

lemma hex_decode_encode: "hex_DecodeString (hex_encode bs) = Some bs"
proof (induction bs)
  case (Cons b bs)
  have "unat b < 256" using unsigned_less [of b] by simp
  then have n: "unat (drop_bit 4 b) < 16" "unat (b AND 15) < 16"
    unfolding mask15 unsigned_drop_bit_eq unsigned_take_bit_eq by (simp_all add: take_bit_eq_mod drop_bit_eq_div less_mult_imp_div_less)
  then show ?case using Cons by (simp add: hex_encode_def hex_char_facts join_nibbles)
qed (simp add: hex_encode_def)

lemma ParseUint_decimal: "n < 2 ^ k \<Longrightarrow> ParseUint k (decimal n) = Some n"
  using decimal_facts [of n] by (simp add: ParseUint_def)

lemma decimal_octet:
  assumes "v < 256"
  shows "decimal v = (if v < 10 then [digit_char v] else if v < 100 then [digit_char (v div 10), digit_char (v mod 10)]
      else [digit_char (v div 100), digit_char (v div 10 mod 10), digit_char (v mod 10)])"
proof -
  have "v div 10 < 10 \<longleftrightarrow> v < 100" "v div 10 div 10 = v div 100" "v div 100 < 10" using assms by (auto simp flip: div_mult2_eq)
  then show ?thesis
    by (simp add: decimal.simps [of v] decimal.simps [of "v div 10"] decimal.simps [of "v div 100"])
qed

lemma parseIPv4_octet:
  assumes "v < 256" "rest = [] \<or> hd rest = CHR ''.''"
  shows "\<exists>k>0. parseIPv4Fields (decimal v @ rest) flds 0 0 = parseIPv4Fields rest flds v k"
proof -
  have a: "v div 10 * 10 + v mod 10 = v" "v div 100 * 10 + v div 10 mod 10 = v div 10"
    using div_mult_mod_eq [of v 10] div_mult_mod_eq [of "v div 10" 10] by (simp_all flip: div_mult2_eq)
  consider "v < 10" | "v \<ge> 10" "v < 100" | "v \<ge> 100" by linarith
  then show ?thesis
  proof cases
    case 1 then show ?thesis by (auto simp: decimal_octet assms digit_char_facts Let_def)
  next
    case 2 then show ?thesis using a assms by (auto simp: decimal_octet digit_char_facts Let_def)
  next
    case 3
    moreover have "v div 10 \<le> 255" "v div 100 < 10" "v div 100 > 0" using assms 3 by auto
    ultimately show ?thesis using a assms by (auto simp: decimal_octet digit_char_facts Let_def)
  qed
qed

lemma parseIPv4_field:
  assumes "length flds < 3"
  shows "parseIPv4Fields (decimal (unat x) @ CHR ''.'' # decimal v @ r) flds 0 0 = parseIPv4Fields (decimal v @ r) (flds @ [x]) 0 0"
proof -
  have "unat x < 256" using unsigned_less [of x] by simp
  from parseIPv4_octet [OF this, of "CHR ''.'' # decimal v @ r" flds] obtain k where
    "k > 0" "parseIPv4Fields (decimal (unat x) @ CHR ''.'' # decimal v @ r) flds 0 0 = parseIPv4Fields (CHR ''.'' # decimal v @ r) flds (unat x) k"
    by auto
  then show ?thesis using assms decimal_facts [of v] by (simp add: is_digit_def)
qed

lemma parseIPv4_string4:
  assumes "length ip = 4"
  shows "parseIPv4Fields (string4 ip) [] 0 0 = Some ip"
proof -
  obtain a b c d where ip: "ip = [a, b, c, d]" using assms by (auto simp: length_Suc_conv numeral_eq_Suc)
  have "unat d < 256" using unsigned_less [of d] by simp
  from parseIPv4_octet [OF this, of "[]" "[a, b, c]"] have "parseIPv4Fields (decimal (unat d)) [a, b, c] 0 0 = Some ip"
    by (auto simp: ip)
  then show ?thesis
    using parseIPv4_field [of "[]" a "unat b" "CHR ''.'' # decimal (unat c) @ CHR ''.'' # decimal (unat d)"]
      parseIPv4_field [of "[a]" b "unat c" "CHR ''.'' # decimal (unat d)"] parseIPv4_field [of "[a, b]" c "unat d" "[]"]
    by (simp add: ip string4_def)
qed

definition no_hex_start :: "string \<Rightarrow> bool" where
  "no_hex_start s \<longleftrightarrow> s = [] \<or> fromHexChar (hd s) = None"

lemma hex_group_stop: "no_hex_start rest \<Longrightarrow> hex_group rest off acc = Some (off, acc, rest)"
  by (cases rest) (auto simp: no_hex_start_def)

lemma hex_group_number:
  assumes "n < 65536" "no_hex_start rest"
  shows "\<exists>k>0. hex_group (hex_number n @ rest) 0 0 = Some (k, n, rest)"
proof -
  note h = hex_char_facts(1) hex_group_stop [OF assms(2)]
  have u: "unat (word_of_nat m :: u8) = m" if "m < 16" for m using that by (simp add: unat_of_nat)
  consider "n < 16" | "n \<ge> 16" "n < 256" | "n \<ge> 256" "n < 4096" | "n \<ge> 4096" by linarith
  then show ?thesis
  proof cases
    case 1 then show ?thesis by (simp add: hex_number.simps [of n] h u)
  next
    case 2
    then have q: "n div 16 < 16" "n div 16 * 16 + n mod 16 = n" by auto
    have "hex_number (n div 16) = [hex_char (n div 16)]" using q(1) by (simp only: hex_number.simps [of "n div 16"] if_True)
    then show ?thesis using 2 q hex_char_facts(1) [OF q(1)] u [OF q(1)] by (simp add: hex_number.simps [of n] h u)
  next
    case 3
    then have "n div 256 < 16" "\<not> n div 16 < 16" "n div 16 div 16 = n div 256" by (auto simp flip: div_mult2_eq)
    moreover have "(n div 256 * 16 + n div 16 mod 16) * 16 + n mod 16 = n"
      using div_mult_mod_eq [of n 16] div_mult_mod_eq [of "n div 16" 16] by (simp flip: div_mult2_eq)
    moreover have "hex_number (n div 256) = [hex_char (n div 256)]" using calculation(1) by (simp only: hex_number.simps [of "n div 256"] if_True)
    ultimately show ?thesis
      using 3 hex_char_facts(1) [of "n div 256"] u [of "n div 256"] by (simp add: hex_number.simps [of n] hex_number.simps [of "n div 16"] h u)
  next
    case 4
    then have "n div 4096 < 16" "\<not> n div 16 < 16" "\<not> n div 256 < 16" "n div 16 div 16 = n div 256" "n div 256 div 16 = n div 4096"
      using assms(1) by (auto simp flip: div_mult2_eq)
    moreover have "((n div 4096 * 16 + n div 256 mod 16) * 16 + n div 16 mod 16) * 16 + n mod 16 = n"
      using div_mult_mod_eq [of n 16] div_mult_mod_eq [of "n div 16" 16] div_mult_mod_eq [of "n div 256" 16] by (simp flip: div_mult2_eq)
    moreover have "hex_number (n div 4096) = [hex_char (n div 4096)]" using calculation(1) by (simp only: hex_number.simps [of "n div 4096"] if_True)
    ultimately show ?thesis
      using 4 hex_char_facts(1) [of "n div 4096"] u [of "n div 4096"]
      by (simp add: hex_number.simps [of n] hex_number.simps [of "n div 16"] hex_number.simps [of "n div 256"] h u)
  qed
qed

definition group_bytes :: "nat list \<Rightarrow> bytes" where
  "group_bytes gs = concat (map (\<lambda>n. [of_nat (n div 256), of_nat (n mod 256)]) gs)"

lemma length_group_bytes [simp]: "length (group_bytes gs) = 2 * length gs"
  by (induction gs) (simp_all add: group_bytes_def)

lemma group_bytes_simps [simp]:
  "group_bytes [] = []" "group_bytes (n # gs) = of_nat (n div 256) # of_nat (n mod 256) # group_bytes gs"
  "group_bytes (gs @ hs) = group_bytes gs @ group_bytes hs"
  by (simp_all add: group_bytes_def)

lemma hex_number_head: "hex_number n \<noteq> [] \<and> fromHexChar (hd (hex_number n)) \<noteq> None \<and> hd (hex_number n) \<notin> {CHR ''.'', CHR '':'', CHR ''%''}
   \<and> set (hex_number n) \<inter> {CHR ''.'', CHR '':'', CHR ''%'', CHR ''/''} = {}"
proof (induction n rule: hex_number.induct)
  case (1 n)
  show ?case
  proof (cases "n < 16")
    case True
    then show ?thesis using hex_char_facts [OF True] by (simp add: hex_number.simps [of n])
  next
    case False
    then show ?thesis using 1 hex_char_facts(2) [of "n mod 16"] by (auto simp: hex_number.simps [of n])
  qed
qed

lemma join_groups_head:
  "gs \<noteq> [] \<Longrightarrow> join_groups gs \<noteq> [] \<and> fromHexChar (hd (join_groups gs)) \<noteq> None \<and> hd (join_groups gs) \<notin> {CHR ''.'', CHR '':'', CHR ''%''}"
  using hex_number_head by (induction gs rule: join_groups.induct) auto

lemma no_hex_colon: "no_hex_start (CHR '':'' # s)" "no_hex_start []" "no_hex_start (CHR ''.'' # s)"
  by (simp_all add: no_hex_start_def fromHexChar_def)

lemma parse_group_end:
  assumes "n < 65536" "length ip < 16"
  shows "parseIPv6_loop (hex_number n) ip ell = Some (ip @ group_bytes [n], ell, [])"
proof -
  obtain k where "k > 0" "hex_group (hex_number n) 0 0 = Some (k, n, [])"
    using hex_group_number [OF assms(1) no_hex_colon(2)] by auto
  then show ?thesis using assms(2) by (subst parseIPv6_loop.simps) simp
qed

lemma parse_group_next:
  assumes "n < 65536" "length ip < 16" "s \<noteq> []" "hd s \<noteq> CHR '':''"
  shows "parseIPv6_loop (hex_number n @ CHR '':'' # s) ip ell = parseIPv6_loop s (ip @ group_bytes [n]) ell"
proof -
  obtain k where "k > 0" "hex_group (hex_number n @ CHR '':'' # s) 0 0 = Some (k, n, CHR '':'' # s)"
    using hex_group_number [OF assms(1) no_hex_colon(1)] by blast
  then show ?thesis using assms by (subst parseIPv6_loop.simps) (simp add: Let_def)
qed

lemma parse_group_ellipsis:
  assumes "n < 65536" "length ip < 16"
  shows "parseIPv6_loop (hex_number n @ ''::'' @ s) ip None =
    (if s = [] then Some (ip @ group_bytes [n], Some (length ip + 2), []) else parseIPv6_loop s (ip @ group_bytes [n]) (Some (length ip + 2)))"
proof -
  obtain k where "k > 0" "hex_group (hex_number n @ ''::'' @ s) 0 0 = Some (k, n, ''::'' @ s)"
    using hex_group_number [OF assms(1) no_hex_colon(1), of "CHR '':'' # s"] by auto
  then show ?thesis using assms by (subst parseIPv6_loop.simps) (simp add: Let_def)
qed

lemma parse_groups:
  "gs \<noteq> [] \<Longrightarrow> \<forall>n\<in>set gs. n < 65536 \<Longrightarrow> length ip + 2 * length gs \<le> 16 \<Longrightarrow>
   parseIPv6_loop (join_groups gs) ip ell = Some (ip @ group_bytes gs, ell, [])"
proof (induction gs arbitrary: ip rule: join_groups.induct)
  case (2 n)
  then show ?case using parse_group_end [of n ip ell] by simp
next
  case (3 n m ns)
  then show ?case using parse_group_next [of n ip "join_groups (m # ns)" ell] join_groups_head [of "m # ns"] by simp
qed simp

lemma parse_groups_ellipsis:
  "gs \<noteq> [] \<Longrightarrow> \<forall>n\<in>set gs. n < 65536 \<Longrightarrow> length ip + 2 * length gs \<le> 16 \<Longrightarrow>
   parseIPv6_loop (join_groups gs @ ''::'' @ s) ip None =
    (if s = [] then Some (ip @ group_bytes gs, Some (length ip + 2 * length gs), [])
     else parseIPv6_loop s (ip @ group_bytes gs) (Some (length ip + 2 * length gs)))"
proof (induction gs arbitrary: ip rule: join_groups.induct)
  case (2 n)
  then show ?case using parse_group_ellipsis [of n ip s] by simp
next
  case (3 n m ns)
  then show ?case using parse_group_next [of n ip "join_groups (m # ns) @ ''::'' @ s" None] join_groups_head [of "m # ns"]
    by (simp add: hd_append)
qed simp

lemma best_run_zero:
  assumes "best_run ip = Some (i, l)"
  shows "i + l \<le> 8 \<and> 2 \<le> l \<and> (\<forall>j\<in>{i..<i + l}. v6u16 ip j = 0)"
proof -
  let ?f = "\<lambda>best i. let l = zero_run ip i in if l \<ge> 2 \<and> (case best of None \<Rightarrow> True | Some (_, l') \<Rightarrow> l > l') then Some (i, l) else best"
  have "foldl ?f b xs = Some (i, l) \<Longrightarrow> b = Some (i, l) \<or> i \<in> set xs \<and> l = zero_run ip i \<and> 2 \<le> l" for b xs
    by (induction xs arbitrary: b) (fastforce simp: Let_def split: if_splits)+
  from this [of None "[0..<8]"] assms have l: "i < 8" "l = zero_run ip i" "2 \<le> l" by (simp_all add: best_run_def)
  let ?t = "takeWhile (\<lambda>j. v6u16 ip j = 0) [i..<8]"
  have t: "length ?t = l" using l(2) by (simp add: zero_run_def)
  have le: "l \<le> 8 - i" using t length_takeWhile_le [of "\<lambda>j. v6u16 ip j = 0" "[i..<8]"] by simp
  have "v6u16 ip j = 0" if "i \<le> j" "j < i + l" for j
  proof -
    have "?t ! (j - i) = [i..<8] ! (j - i)" by (rule takeWhile_nth) (use that t in simp)
    also have "\<dots> = j" using that le by (simp add: nth_upt)
    finally have "j \<in> set ?t" using that t by (metis add_diff_inverse_nat less_diff_conv2 nth_mem add.commute linorder_not_less)
    then show ?thesis by (auto dest: set_takeWhileD)
  qed
  then show ?thesis using l le by auto
qed

lemma v6u16_less: "v6u16 ip j < 65536"
proof -
  have "unat (x :: u8) < 256" for x using unsigned_less [of x] by simp
  from this [of "ip ! (2 * j)"] this [of "ip ! (2 * j + 1)"] show ?thesis by (simp add: v6u16_def)
qed

lemma group_bytes_take:
  "2 * n \<le> length ip \<Longrightarrow> group_bytes (map (v6u16 ip) [0..<n]) = take (2 * n) ip"
proof (induction n)
  case (Suc n)
  have "unat (ip ! (2 * n + 1)) < 256" using unsigned_less [of "ip ! (2 * n + 1)"] by simp
  then have "group_bytes [v6u16 ip n] = [ip ! (2 * n), ip ! (2 * n + 1)]" by (simp add: v6u16_def)
  then show ?case using Suc by (simp add: take_Suc_conv_app_nth)
qed simp

lemma group_bytes_v6u16: "length ip = 16 \<Longrightarrow> group_bytes (map (v6u16 ip) [0..<8]) = ip"
  using group_bytes_take [of 8 ip] by simp

lemma upt_split3: "i + l \<le> n \<Longrightarrow> [0..<n] = [0..<i] @ [i..<i + l] @ [i + l..<n]"
proof -
  assume "i + l \<le> n"
  then obtain k where "n = i + l + k" using le_Suc_ex by blast
  then show ?thesis using upt_add_eq_append [of 0 "i + l" k] upt_add_eq_append [of 0 i l] by simp
qed

lemma zero_groups: "\<forall>j\<in>set js. v6u16 ip j = 0 \<Longrightarrow> group_bytes (map (v6u16 ip) js) = replicate (2 * length js) 0"
  by (induction js) simp_all

lemma parseIPv6_string6:
  assumes "length ip = 16"
  shows "parseIPv6 (string6 ip) = Some (Addr6 ip)"
proof (cases "best_run ip")
  case None
  have "take 2 (string6 ip) \<noteq> ''::''"
    using join_groups_head [of "map (v6u16 ip) [0..<8]"] None by (cases "string6 ip") (auto simp: string6_def)
  then show ?thesis
    using parse_groups [of "map (v6u16 ip) [0..<8]" "[]" None] None v6u16_less group_bytes_v6u16 [OF assms]
    by (auto simp: parseIPv6_def string6_def assms)
next
  case (Some r)
  obtain i l where r: "r = (i, l)" by (cases r)
  note z = best_run_zero [OF Some [unfolded r]]
  let ?pre = "map (v6u16 ip) [0..<i]" and ?post = "map (v6u16 ip) [i + l..<8]"
  have s: "string6 ip = join_groups ?pre @ ''::'' @ join_groups ?post" using Some r by (simp add: string6_def)
  have ip: "ip = group_bytes ?pre @ replicate (2 * l) 0 @ group_bytes ?post"
    using group_bytes_v6u16 [OF assms] upt_split3 [of i l 8] z zero_groups [of "[i..<i + l]" ip] by simp
  have post: "parseIPv6_loop (join_groups ?post) (group_bytes ?pre) ell = Some (group_bytes ?pre @ group_bytes ?post, ell, [])"
    if "i + l < 8" for ell
    using parse_groups [of ?post "group_bytes ?pre" ell] that z v6u16_less by auto
  have len: "length (group_bytes ?pre @ group_bytes ?post) = 16 - 2 * l" using z by (simp, linarith)
  have fin: "take (2 * i) (group_bytes ?pre @ group_bytes ?post) @ replicate (16 - length (group_bytes ?pre @ group_bytes ?post)) 0
      @ drop (2 * i) (group_bytes ?pre @ group_bytes ?post) = ip"
    using z ip len by simp
  show ?thesis
  proof (cases "i = 0")
    case True
    show ?thesis
    proof (cases "l = 8")
      case l8: True
      then show ?thesis using True s ip by (simp add: parseIPv6_def)
    next
      case False
      then have "i + l < 8" "join_groups ?post \<noteq> []" using z True join_groups_head [of ?post] by auto
      then show ?thesis using post [of "Some 0"] True s fin len z by (simp add: parseIPv6_def)
    qed
  next
    case False
    then have pre: "?pre \<noteq> []" by simp
    have h: "take 2 (string6 ip) \<noteq> ''::''"
      using join_groups_head [OF pre] by (cases "join_groups ?pre") (auto simp: s)
    have e: "parseIPv6_loop (string6 ip) [] None = (if join_groups ?post = [] then Some (group_bytes ?pre, Some (2 * i), [])
        else parseIPv6_loop (join_groups ?post) (group_bytes ?pre) (Some (2 * i)))"
      using parse_groups_ellipsis [of ?pre "[]" "join_groups ?post"] pre v6u16_less z s by simp
    show ?thesis
    proof (cases "i + l < 8")
      case True
      then have "join_groups ?post \<noteq> []" using join_groups_head [of ?post] by auto
      then show ?thesis using e post [OF True] fin len z h by (simp add: parseIPv6_def)
    next
      case False
      then show ?thesis using e fin len z h by (simp add: parseIPv6_def)
    qed
  qed
qed

lemma first_mark_append: "set s \<inter> {CHR ''.'', CHR '':'', CHR ''%''} = {} \<Longrightarrow> first_mark (s @ r) = first_mark r"
  by (induction s) auto

lemma first_mark_string6: "first_mark (string6 ip) = Some (CHR '':'')"
proof -
  have j: "first_mark (join_groups (n # ns) @ CHR '':'' # r) = Some (CHR '':'')" for n ns r
    using hex_number_head [of n] by (cases ns) (auto simp: first_mark_append)
  show ?thesis
  proof (cases "best_run ip")
    case None
    then show ?thesis using hex_number_head [of "v6u16 ip 0"] by (auto simp: string6_def upt_rec first_mark_append)
  next
    case (Some r)
    obtain i l where r: "r = (i, l)" by (cases r)
    show ?thesis
    proof (cases "map (v6u16 ip) [0..<i]")
      case Nil
      then show ?thesis using Some r by (simp add: string6_def)
    next
      case (Cons n ns)
      then show ?thesis using Some r j [of n ns] by (simp add: string6_def)
    qed
  qed
qed

lemma hex_group_decimal:
  assumes "v < 256"
  shows "\<exists>k>0. \<exists>acc. hex_group (decimal v @ CHR ''.'' # r) 0 0 = Some (k, acc, CHR ''.'' # r)"
proof -
  have d: "list_all (\<lambda>n. fromHexChar (digit_char n) \<noteq> None) [0..<10]" by code_simp
  then have h: "n < 10 \<Longrightarrow> \<exists>x. fromHexChar (digit_char n) = Some x" for n by (auto simp: list_all_iff)
  have dot: "fromHexChar (CHR ''.'') = None" by (simp add: fromHexChar_def)
  have b: "v div 100 < 10" "v div 10 mod 10 < 10" "v mod 10 < 10" using assms by auto
  obtain x y z where x: "fromHexChar (digit_char (v div 100)) = Some x" "fromHexChar (digit_char (v div 10 mod 10)) = Some y"
    "fromHexChar (digit_char (v mod 10)) = Some z" using h b by meson
  show ?thesis
  proof (cases "v < 100")
    case True
    then have "v div 10 < 10" by simp
    then obtain w where w: "fromHexChar (digit_char (v div 10)) = Some w" using h by meson
    obtain u where u: "v < 10 \<Longrightarrow> fromHexChar (digit_char v) = Some u" using h by blast
    show ?thesis using True assms w x u by (auto simp: decimal_octet dot)
  next
    case False
    then show ?thesis using assms x by (auto simp: decimal_octet dot)
  qed
qed

lemma parseIPv6_mapped:
  assumes "length ip = 16" "Is4In6 ip"
  shows "parseIPv6 (''::ffff:'' @ string4 (drop 12 ip)) = Some (Addr6 ip)"
proof -
  let ?t = "drop 12 ip"
  have ip: "ip = replicate 10 0 @ [255, 255] @ ?t"
    using assms(2) append_take_drop_id [of 12 ip] unfolding Is4In6_def by simp
  have ff: "hex_number 65535 = ''ffff''" by (simp add: hex_number.simps hex_char_def)
  have "unat (?t ! 0) < 256" using unsigned_less [of "?t ! 0"] by simp
  moreover define r where "r = decimal (unat (?t ! 1)) @ ''.'' @ decimal (unat (?t ! 2)) @ ''.'' @ decimal (unat (?t ! 3))"
  have s4: "string4 ?t = decimal (unat (?t ! 0)) @ CHR ''.'' # r" by (simp add: string4_def r_def)
  ultimately obtain k acc where k: "k > 0" "hex_group (string4 ?t) 0 0 = Some (k, acc, CHR ''.'' # r)"
    using hex_group_decimal [of "unat (?t ! 0)" r] unfolding s4 by blast
  have ne: "string4 ?t \<noteq> []" "hd (string4 ?t) \<noteq> CHR '':''"
  proof -
    show "string4 ?t \<noteq> []" by (simp add: s4)
    have "hd (string4 ?t) = hd (decimal (unat (?t ! 0)))" using decimal_facts [of "unat (?t ! 0)"] by (simp add: s4)
    moreover have "is_digit (hd (decimal (unat (?t ! 0))))"
      using decimal_facts [of "unat (?t ! 0)"] by (cases "decimal (unat (?t ! 0))") auto
    ultimately show "hd (string4 ?t) \<noteq> CHR '':''" by (auto simp: is_digit_def)
  qed
  have f: "parseIPv4Fields (string4 ?t) [] 0 0 = Some ?t" by (rule parseIPv4_string4) (simp add: assms(1))
  have "parseIPv6_loop (string4 ?t) [255, 255] (Some 0) = Some ([255, 255] @ ?t, Some 0, [])"
    by (subst parseIPv6_loop.simps) (simp add: k f)
  then have "parseIPv6_loop (''ffff:'' @ string4 ?t) [] (Some 0) = Some ([255, 255] @ ?t, Some 0, [])"
    using parse_group_next [of 65535 "[]" "string4 ?t" "Some 0"] ne ff by simp
  moreover have "length ([255, 255] @ ?t) = 6" by (simp add: assms(1))
  ultimately show ?thesis using ip by (simp add: parseIPv6_def)
qed

lemma ParseAddr_String:
  assumes "(\<exists>ip. a = Addr4 ip \<and> length ip = 4) \<or> (\<exists>ip. a = Addr6 ip \<and> length ip = 16)"
  shows "ParseAddr (Addr_String a) = Some a"
  using assms
proof (elim disjE exE conjE)
  fix ip assume a: "a = Addr4 ip" "length ip = 4"
  have "set (decimal n) \<inter> {CHR ''.'', CHR '':'', CHR ''%''} = {}" for n
    using decimal_facts [of n] by (auto simp: list_all_iff is_digit_def)
  then have "first_mark (string4 ip) = Some (CHR ''.'')" by (simp add: string4_def first_mark_append)
  then show ?thesis using a parseIPv4_string4 [OF a(2)] by (simp add: Addr_String_def ParseAddr_def parseIPv4_def)
next
  fix ip assume a: "a = Addr6 ip" "length ip = 16"
  then show ?thesis
    using parseIPv6_string6 [OF a(2)] parseIPv6_mapped [OF a(2)] first_mark_string6 [of ip]
    by (auto simp: Addr_String_def ParseAddr_def)
qed

lemma str_cut_append: "sep \<notin> set xs \<Longrightarrow> str_cut sep (xs @ sep # ys) = Some (xs, ys)"
  by (induction xs) auto

lemma ParsePrefix_String:
  assumes "prefix_ok x"
  shows "ParsePrefix (Prefix_String x) = Some x"
proof -
  obtain a n where x: "x = (a, n)" by (cases x)
  have a: "(\<exists>ip. a = Addr4 ip \<and> length ip = 4 \<and> n \<le> 32) \<or> (\<exists>ip. a = Addr6 ip \<and> length ip = 16 \<and> n \<le> 128)"
    using assms by (cases a) (auto simp: prefix_ok_def x)
  have s: "Prefix_String x = Addr_String a @ ''/'' @ decimal n" using a by (auto simp: Prefix_String_def x)
  have "CHR ''/'' \<notin> set (decimal n)" using decimal_facts [of n] by (auto simp: list_all_iff is_digit_def)
  then have c: "str_cut (CHR ''/'') (rev (Prefix_String x)) = Some (rev (decimal n), rev (Addr_String a))"
    using str_cut_append [of "CHR ''/''" "rev (decimal n)" "rev (Addr_String a)"] by (simp add: s)
  have d: "is_digit (hd (decimal n))" using decimal_facts [of n] by (cases "decimal n") auto
  have z: "n = 0 \<Longrightarrow> length (decimal n) = 1" by (simp add: decimal.simps)
  have p: "ParseAddr (Addr_String a) = Some a" by (rule ParseAddr_String) (use a in auto)
  have "n = 0 \<or> hd (decimal n) \<noteq> CHR ''0''" using decimal_head [of n] by blast
  then show ?thesis
    unfolding ParsePrefix_def c option.case prod.case rev_rev_ident p
    using a d z decimal_facts [of n] by (auto simp: x Let_def)
qed

end
