(* ===== verification/Pools.thy ===== *)
theory Pools
  imports DeviceState
begin

text \<open>
  Two helpers of the device: the counting pools of \<^verbatim>\<open>src/device/pools.go\<close> and the name of a peer in
  log messages (\<open>String\<close> of \<^verbatim>\<open>src/device/peer.go\<close>), an abbreviated base64 key.
\<close>

section \<open>Wait pools\<close>

text \<open>\<open>None\<close>: \<open>Get\<close> waits for a \<open>Put\<close>.\<close>

record WaitPool =
  wp_count :: u32
  wp_max :: u32

definition NewWaitPool :: "u32 \<Rightarrow> WaitPool" where
  "NewWaitPool m = \<lparr>wp_count = 0, wp_max = m\<rparr>"

definition WaitPool_Get :: "WaitPool \<Rightarrow> WaitPool option" where
  "WaitPool_Get w =
     (if wp_max w \<noteq> 0 then
        (if wp_count w \<ge> wp_max w then None else Some (w\<lparr>wp_count := wp_count w + 1\<rparr>))
      else Some w)"

definition WaitPool_Put :: "WaitPool \<Rightarrow> WaitPool" where
  "WaitPool_Put w = (if wp_max w = 0 then w else w\<lparr>wp_count := wp_count w - 1\<rparr>)"

datatype pool_op = PoolGet | PoolPut

definition pool_step :: "pool_op \<Rightarrow> WaitPool \<Rightarrow> WaitPool option" where
  "pool_step a w = (case a of PoolGet \<Rightarrow> WaitPool_Get w | PoolPut \<Rightarrow> Some (WaitPool_Put w))"

lemma pool_step_simps [simp]:
  "pool_step PoolGet w = WaitPool_Get w" "pool_step PoolPut w = Some (WaitPool_Put w)"
  by (simp_all add: pool_step_def)

text \<open>The items out: gets less puts. A run is balanced when it never puts back more than it got.\<close>

fun outstanding :: "pool_op list \<Rightarrow> nat \<Rightarrow> nat option" where
  "outstanding [] n = Some n"
| "outstanding (PoolGet # ops) n = outstanding ops (n + 1)"
| "outstanding (PoolPut # ops) n = (if n = 0 then None else outstanding ops (n - 1))"

lemma pool_run:
  assumes "wp_max w \<noteq> 0" "unat (wp_count w) = n" "wp_count w \<le> wp_max w"
    and "outstanding ops n = Some m" "run_ops pool_step ops w = Some w'"
  shows "unat (wp_count w') = m \<and> wp_max w' = wp_max w \<and> wp_count w' \<le> wp_max w'"
  using assms
proof (induction ops n arbitrary: w rule: outstanding.induct)
  case (2 ops n)
  then have lt: "wp_count w < wp_max w"
    and r: "run_ops pool_step ops (w\<lparr>wp_count := wp_count w + 1\<rparr>) = Some w'"
    by (auto simp: WaitPool_Get_def split: if_splits)
  have "unat (wp_max w) < 4294967296" using unsigned_less [of "wp_max w"] by simp
  then have "unat (wp_count w + 1) = n + 1" "wp_count w + 1 \<le> wp_max w"
    using lt 2(3)
    by (auto simp: word_less_nat_alt word_le_nat_alt unat_word_ariths)
  with 2(1) [of "w\<lparr>wp_count := wp_count w + 1\<rparr>"] 2(2,5) r show ?case by auto
next
  case (3 ops n)
  then have "wp_count w \<noteq> 0" "n \<noteq> 0" by (auto split: if_splits)
  then have "unat (wp_count w - 1) = n - 1" "wp_count w - 1 \<le> wp_max w"
    using 3(3,4) unat_minus_one [of "wp_count w"] by (auto simp: word_le_nat_alt)
  with 3(1) [of "w\<lparr>wp_count := wp_count w - 1\<rparr>"] 3(2,5,6) \<open>n \<noteq> 0\<close> show ?case by (auto simp: WaitPool_Put_def)
qed simp

section \<open>The name of a peer\<close>

definition b64 :: "u8 \<Rightarrow> u8" where
  "b64 input =
     (let i = uint input
      in input + 65 + word_of_int (drop_bit 8 (25 - i) AND 6) - word_of_int (drop_bit 8 (51 - i) AND 75)
           - word_of_int (drop_bit 8 (61 - i) AND 15) + word_of_int (drop_bit 8 (62 - i) AND 3))"

text \<open>\<open>String\<close>, for a key of 32 bytes; the ellipsis is three bytes in UTF-8.\<close>

definition Peer_String :: "NoisePublicKey \<Rightarrow> bytes" where
  "Peer_String src =
     str_bytes ''peer('' @
     [b64 (drop_bit 2 (src ! 0) AND 63),
      b64 ((push_bit 4 (src ! 0) OR drop_bit 4 (src ! 1)) AND 63),
      b64 ((push_bit 2 (src ! 1) OR drop_bit 6 (src ! 2)) AND 63),
      b64 ((src ! 2) AND 63)] @
     [0xE2, 0x80, 0xA6] @
     [b64 ((src ! 29) AND 63),
      b64 (drop_bit 2 (src ! 30) AND 63),
      b64 ((push_bit 4 (src ! 30) OR drop_bit 4 (src ! 31)) AND 63),
      b64 (push_bit 2 (src ! 31) AND 63)] @
     str_bytes '')''"

text \<open>Standard base64: every three bytes are four digits of six bits, a rest is padded with \<open>=\<close>.\<close>

definition base64_alphabet :: bytes where
  "base64_alphabet = str_bytes ''ABCDEFGHIJKLMNOPQRSTUVWXYZabcdefghijklmnopqrstuvwxyz0123456789+/''"

definition digit64 :: "nat \<Rightarrow> u8" where
  "digit64 n = base64_alphabet ! (n mod 64)"

fun base64_encode :: "bytes \<Rightarrow> bytes" where
  "base64_encode [] = []"
| "base64_encode [a] =
     (let n = unat a * 16 in [digit64 (n div 64), digit64 n] @ str_bytes ''=='')"
| "base64_encode [a, b] =
     (let n = unat a * 1024 + unat b * 4 in [digit64 (n div 4096), digit64 (n div 64), digit64 n] @ str_bytes ''='')"
| "base64_encode (a # b # c # rest) =
     (let n = unat a * 65536 + unat b * 256 + unat c
      in [digit64 (n div 262144), digit64 (n div 4096), digit64 (n div 64), digit64 n] @ base64_encode rest)"

lemma b64_digit:
  assumes "x < 64"
  shows "b64 x = digit64 (unat x)"
proof -
  have "map (\<lambda>n. b64 (of_nat n)) [0..<64] = map digit64 [0..<64]"
    by (simp add: upt_rec digit64_def b64_def Let_def base64_alphabet_def str_bytes_def)
  then have "n < 64 \<Longrightarrow> b64 (of_nat n) = digit64 n" for n by (simp add: map_eq_conv)
  note this [of "unat x"]
  moreover have "unat x < 64" using assms by (simp add: word_less_nat_alt)
  ultimately show ?thesis by simp
qed

lemma mask_63: "x AND 63 = take_bit 6 (x :: u8)"
  by (simp add: take_bit_eq_mask mask_eq_exp_minus_1)

lemma b64_and_63: "b64 (x AND 63) = digit64 (unat x)"
proof -
  have u: "unat (x AND 63) = unat x mod 64" unfolding mask_63 unsigned_take_bit_eq by (simp add: take_bit_eq_mod)
  then have "x AND 63 < 64" by (simp add: word_less_nat_alt)
  then show ?thesis by (simp add: b64_digit u digit64_def)
qed

lemma digit64_mod: "m mod 64 = n mod 64 \<Longrightarrow> digit64 m = digit64 n"
  by (simp add: digit64_def)

lemma unat_join:
  fixes a b :: u8
  assumes "i + j = 8"
  shows "unat (push_bit i a OR drop_bit j b) = (unat a * 2 ^ i + unat b div 2 ^ j) mod 256"
proof -
  have "push_bit i a OR drop_bit j b = push_bit i a + drop_bit j b"
    using assms by (intro disjunctive_add [symmetric]) (auto simp: bit_simps dest: bit_imp_le_length)
  moreover have "unat b < 256" using unsigned_less [of b] by simp
  then have "unat (drop_bit j b) = unat b div 2 ^ j" by (simp only: unsigned_drop_bit_eq) (simp add: drop_bit_eq_div take_bit_eq_mod)
  moreover have "unat (push_bit i a) = unat a * 2 ^ i mod 256"
    unfolding unsigned_push_bit_eq by (simp add: push_bit_eq_mult take_bit_eq_mod)
  ultimately show ?thesis by (simp only: unat_word_ariths) (simp add: mod_simps)
qed

lemma div_byte: "y < 256 \<Longrightarrow> (x * 256 + y) div (256 * k) = x div k" for x y k :: nat
  by (simp add: div_mult2_eq)

lemma base64_digits:
  fixes a b c :: u8
  shows "digit64 ((unat a * 65536 + unat b * 256 + unat c) div 262144) = b64 (drop_bit 2 a AND 63)"
    "digit64 ((unat a * 65536 + unat b * 256 + unat c) div 4096) = b64 ((push_bit 4 a OR drop_bit 4 b) AND 63)"
    "digit64 ((unat a * 65536 + unat b * 256 + unat c) div 64) = b64 ((push_bit 2 b OR drop_bit 6 c) AND 63)"
    "digit64 (unat a * 65536 + unat b * 256 + unat c) = b64 (c AND 63)"
    "digit64 ((unat a * 1024 + unat b * 4) div 4096) = b64 (drop_bit 2 a AND 63)"
    "digit64 ((unat a * 1024 + unat b * 4) div 64) = b64 ((push_bit 4 a OR drop_bit 4 b) AND 63)"
    "digit64 ((unat a * 1024 + unat b * 4)) = b64 (push_bit 2 b AND 63)"
proof -
  let ?a = "unat a" and ?b = "unat b" and ?c = "unat c"
  have l: "?a < 256" "?b < 256" "?c < 256" using unsigned_less [of a] unsigned_less [of b] unsigned_less [of c] by simp_all
  have d: "unat (drop_bit 2 a) = ?a div 4"
    by (simp only: unsigned_drop_bit_eq) (use l in \<open>simp add: drop_bit_eq_div take_bit_eq_mod\<close>)
  have p: "unat (push_bit 2 b) = ?b * 4 mod 256" unfolding unsigned_push_bit_eq by (simp add: push_bit_eq_mult take_bit_eq_mod)
  have m: "x mod 256 mod 64 = x mod 64" for x :: nat by (simp add: mod_mod_cancel)
  have n: "?a * 65536 + ?b * 256 + ?c = (?a * 256 + ?b) * 256 + ?c" by simp
  have d4: "(?a * 1024 + ?b * 4) div (4 * k) = (?a * 256 + ?b) div k" for k
    using div_mult_mult1 [of 4 "?a * 256 + ?b" k] by (simp add: algebra_simps)
  have q: "(?a * 256 + ?b) div 16 = ?a * 16 + ?b div 16" by simp
  have q64: "(?a * 65536 + ?b * 256 + ?c) div 64 = ?a * 1024 + ?b * 4 + ?c div 64" by simp
  have z: "(?a * 1024 + x) mod 64 = x mod 64" for x using mod_mult_self3 [of "?a * 16" 64 x] by (simp add: mult.commute)
  show "digit64 ((?a * 65536 + ?b * 256 + ?c) div 262144) = b64 (drop_bit 2 a AND 63)"
    unfolding b64_and_63 d n using div_byte [OF l(3), of "?a * 256 + ?b" 1024] div_byte [OF l(2), of ?a 4] by simp
  show "digit64 ((?a * 65536 + ?b * 256 + ?c) div 4096) = b64 ((push_bit 4 a OR drop_bit 4 b) AND 63)"
    unfolding b64_and_63 n using div_byte [OF l(3), of "?a * 256 + ?b" 16] q
    by (intro digit64_mod) (simp add: unat_join m)
  show "digit64 ((?a * 65536 + ?b * 256 + ?c) div 64) = b64 ((push_bit 2 b OR drop_bit 6 c) AND 63)"
    unfolding b64_and_63 q64 using z [of "?b * 4 + ?c div 64"] by (intro digit64_mod) (simp add: unat_join m add.assoc)
  show "digit64 (?a * 65536 + ?b * 256 + ?c) = b64 (c AND 63)"
    unfolding b64_and_63 by (intro digit64_mod) (simp add: mod_add_eq [symmetric])
  show "digit64 ((?a * 1024 + ?b * 4) div 4096) = b64 (drop_bit 2 a AND 63)"
    unfolding b64_and_63 d using d4 [of 1024] div_byte [OF l(2), of ?a 4] by simp
  show "digit64 ((?a * 1024 + ?b * 4) div 64) = b64 ((push_bit 4 a OR drop_bit 4 b) AND 63)"
    unfolding b64_and_63 using d4 [of 16] q by (intro digit64_mod) (simp add: unat_join m)
  show "digit64 ((?a * 1024 + ?b * 4)) = b64 (push_bit 2 b AND 63)"
    unfolding b64_and_63 p using z [of "?b * 4"] by (intro digit64_mod) (simp add: m)
qed

lemma base64_triples:
  "length xs mod 3 = 0 \<Longrightarrow> 3 * length (base64_encode xs) = 4 * length xs
     \<and> base64_encode (xs @ ys) = base64_encode xs @ base64_encode ys"
proof (induction xs rule: base64_encode.induct)
  case (4 a b c rest)
  have "length (a # b # c # rest) mod 3 = length rest mod 3"
    using mod_add_self2 [of "length rest" 3] by (simp del: mod_add_self2)
  with 4 show ?case by (simp add: Let_def)
qed simp_all

text \<open>The hand-written name of a peer is what its comment says: the first four digits and the
  last four before the padding of the standard base64 form of the public key.\<close>

theorem Peer_String_is_base64:
  assumes "length src = 32"
  shows "Peer_String src = str_bytes ''peer('' @ take 4 (base64_encode src) @ [0xE2, 0x80, 0xA6]
    @ take 4 (drop 39 (base64_encode src)) @ str_bytes '')''"
proof -
  have n: "i < length xs \<Longrightarrow> drop i xs = xs ! i # drop (Suc i) xs" for i and xs :: bytes by (simp add: Cons_nth_drop_Suc)
  have h: "take 27 src = src ! 0 # src ! 1 # src ! 2 # drop 3 (take 27 src)"
    using n [of 0 "take 27 src"] n [of 1 "take 27 src"] n [of 2 "take 27 src"] assms by (simp add: numeral_2_eq_2 numeral_3_eq_3)
  have t: "drop 27 src = [src ! 27, src ! 28, src ! 29, src ! 30, src ! 31]"
    using n [of 27 src] n [of 28 src] n [of 29 src] n [of 30 src] n [of 31 src] assms by simp
  have e: "base64_encode src = base64_encode (take 27 src) @ base64_encode (drop 27 src)"
    using base64_triples [of "take 27 src" "drop 27 src"] assms by simp
  have l: "length (base64_encode (take 27 src)) = 36" using base64_triples [of "take 27 src"] assms by simp
  have 1: "take 4 (base64_encode src) = take 4 (base64_encode (take 27 src))" using l by (simp add: e)
  have 2: "drop 39 (base64_encode src) = drop 3 (base64_encode (drop 27 src))" using l by (simp add: e)
  show ?thesis
    unfolding 1 2 t by (subst h) (simp add: Peer_String_def Let_def base64_digits)
qed

theorem Peer_String_is_base64_witness:
  "Peer_String (replicate 32 0) = str_bytes ''peer('' @ str_bytes ''AAAA'' @ [0xE2, 0x80, 0xA6] @ str_bytes ''AAAA'' @ str_bytes '')''"
proof -
  have r: "replicate 32 (0 :: u8) = [0, 0, 0, 0, 0, 0, 0, 0, 0, 0, 0, 0, 0, 0, 0, 0, 0, 0, 0, 0, 0, 0, 0, 0, 0, 0, 0, 0, 0, 0, 0, 0]"
    by (simp add: numeral_eq_Suc)
  have z: "digit64 0 = 65" by (simp add: digit64_def base64_alphabet_def str_bytes_def)
  have "base64_encode (replicate 32 0) = str_bytes ''AAAAAAAAAAAAAAAAAAAAAAAAAAAAAAAAAAAAAAAAAAA=''"
    unfolding r by (simp add: Let_def z str_bytes_def)
  then show ?thesis using Peer_String_is_base64 [of "replicate 32 0"] by (simp add: str_bytes_def)
qed

end
