(* ===== verification/Uapi.thy ===== *)
theory Uapi
  imports Life NetText "HOL-Library.Signed_Division"
begin

text \<open>
  The configuration protocol of \<^verbatim>\<open>src/device/uapi.go\<close>: the \<open>set\<close> and \<open>get\<close> operations and the request loop.
  A line runs with its own \<open>uapi_env\<close> (time, randomness, answers of the bind). The bind's
  \<open>ParseEndpoint\<close> and the endpoint's \<open>DstToString\<close> are the parameters of the record \<open>endpoint_text\<close>.
  \<open>None\<close>: a call that the operation makes waits or panics.
\<close>

section \<open>Errors and parameters\<close>

datatype IPCError = IpcErrorIO | IpcErrorProtocol | IpcErrorInvalid | IpcErrorPortInUse | IpcErrorUnknown

fun ErrorCode :: "IPCError \<Rightarrow> int" where
  "ErrorCode IpcErrorIO = - 5"
| "ErrorCode IpcErrorProtocol = - 71"
| "ErrorCode IpcErrorInvalid = - 22"
| "ErrorCode IpcErrorPortInUse = - 98"
| "ErrorCode IpcErrorUnknown = - 55"

record endpoint_text =
  et_parse :: "string \<Rightarrow> Endpoint option"
  et_string :: "Endpoint \<Rightarrow> string"

record uapi_env =
  ue_env :: env
  ue_bind :: bind_env

section \<open>Get\<close>

definition newline :: string where "newline = [CHR 0x0A]"

definition keyf :: "string \<Rightarrow> bytes \<Rightarrow> string" where
  "keyf prefx key = prefx @ ''='' @ hex_encode key @ newline"

definition sendf :: "string \<Rightarrow> string \<Rightarrow> string" where
  "sendf prefx val = prefx @ ''='' @ val @ newline"

definition get_peer :: "endpoint_text \<Rightarrow> Device \<Rightarrow> pid \<Rightarrow> string" where
  "get_peer t dev p =
     (let peer = peers dev p;
          nano = lastHandshakeNano peer;
          secs = nano sdiv 1000000000;
          nano = nano smod 1000000000
      in keyf ''public_key'' (hs_remoteStatic (handshake peer))
         @ keyf ''preshared_key'' (hs_presharedKey (handshake peer))
         @ sendf ''protocol_version'' ''1''
         @ (case endpoint_val peer of None \<Rightarrow> [] | Some ep \<Rightarrow> sendf ''endpoint'' (et_string t ep))
         @ sendf ''last_handshake_time_sec'' (decimal_int secs)
         @ sendf ''last_handshake_time_nsec'' (decimal_int nano)
         @ sendf ''tx_bytes'' (decimal (unat (txBytes peer)))
         @ sendf ''rx_bytes'' (decimal (unat (rxBytes peer)))
         @ sendf ''persistent_keepalive_interval'' (decimal (unat (persistentKeepaliveInterval peer)))
         @ EntriesForPeer (allowedips dev) p (\<lambda>prefx buf. (buf @ sendf ''allowed_ip'' (Prefix_String prefx), True)) [])"

definition IpcGetOperation :: "endpoint_text \<Rightarrow> Device \<Rightarrow> string" where
  "IpcGetOperation t dev =
     (if \<not> IsZero (sid_privateKey dev) then keyf ''private_key'' (sid_privateKey dev) else [])
     @ (if net_port dev \<noteq> 0 then sendf ''listen_port'' (decimal (unat (net_port dev))) else [])
     @ (if net_fwmark dev \<noteq> 0 then sendf ''fwmark'' (decimal (unat (net_fwmark dev))) else [])
     @ concat (map (get_peer t dev) (peer_list dev))"

section \<open>Set\<close>

record ipcSetPeer =
  sp_Peer :: "pid option"
  sp_dummy :: bool
  sp_created :: bool
  sp_pkaOn :: bool

text \<open>\<open>&Peer{}\<close>: a fresh object that no map holds.\<close>

definition dummy_peer :: "Device \<Rightarrow> pid \<times> Device" where
  "dummy_peer dev = (next_pid dev, upd_peer (next_pid dev) (\<lambda>_. zero_Peer) (dev\<lparr>next_pid := next_pid dev + 1\<rparr>))"

definition handleDeviceLine ::
  "crypto \<Rightarrow> uapi_env \<Rightarrow> string \<Rightarrow> string \<Rightarrow> Device \<Rightarrow> (IPCError option \<times> Device) option" where
  "handleDeviceLine c u key val dev =
     (if key = ''private_key'' then
        (case FromMaybeZeroHex val of
           (Some _, _) \<Rightarrow> Some (Some IpcErrorInvalid, dev)
         | (None, sk) \<Rightarrow> map_option (Pair None) (SetPrivateKey c (ue_env u) sk dev))
      else if key = ''listen_port'' then
        (case ParseUint 16 val of
           None \<Rightarrow> Some (Some IpcErrorInvalid, dev)
         | Some port \<Rightarrow>
             (case BindUpdate (ue_bind u) (dev\<lparr>net_port := of_nat port\<rparr>) of
                (Some _, dev) \<Rightarrow> Some (Some IpcErrorPortInUse, dev)
              | (None, dev) \<Rightarrow> Some (None, dev)))
      else if key = ''fwmark'' then
        (case ParseUint 32 val of
           None \<Rightarrow> Some (Some IpcErrorInvalid, dev)
         | Some mark \<Rightarrow>
             (case BindSetMark (ue_bind u) (of_nat mark) dev of
                (Some _, dev) \<Rightarrow> Some (Some IpcErrorPortInUse, dev)
              | (None, dev) \<Rightarrow> Some (None, dev)))
      else if key = ''replace_peers'' then
        (if val \<noteq> ''true'' then Some (Some IpcErrorInvalid, dev)
         else map_option (Pair None) (RemoveAllPeers c (ue_env u) dev))
      else Some (Some IpcErrorInvalid, dev))"

definition handlePostConfig :: "crypto \<Rightarrow> uapi_env \<Rightarrow> ipcSetPeer \<Rightarrow> Device \<Rightarrow> Device option" where
  "handlePostConfig c u sp dev =
     (case sp_Peer sp of
        None \<Rightarrow> Some dev
      | Some p \<Rightarrow>
          if sp_dummy sp then Some dev
          else
            let dev = (if sp_created sp
                  then upd_peer p (\<lambda>q. q\<lparr>endpoint_disableRoaming := net_brokenRoaming dev \<and> endpoint_val q \<noteq> None\<rparr>) dev
                  else dev)
            in if deviceState_isUp dev then do {
                 dev \<leftarrow> Peer_Start (ue_env u) p dev;
                 dev \<leftarrow> (if sp_pkaOn sp then SendKeepalive c (ue_env u) p dev else Some dev);
                 SendStagedPackets c (ue_env u) p dev
               }
               else Some dev)"

definition handlePublicKeyLine ::
  "crypto \<Rightarrow> string \<Rightarrow> ipcSetPeer \<Rightarrow> Device \<Rightarrow> IPCError option \<times> ipcSetPeer \<times> Device" where
  "handlePublicKeyLine c val sp dev =
     (case FromHex zero_key val of
        (Some _, _) \<Rightarrow> (Some IpcErrorInvalid, sp, dev)
      | (None, pk) \<Rightarrow>
          let sp = sp\<lparr>sp_dummy := Equals (sid_publicKey dev) pk\<rparr>
          in if sp_dummy sp then
               let (p, dev) = dummy_peer dev
               in (None, sp\<lparr>sp_Peer := Some p, sp_created := False\<rparr>, dev)
             else
               let peer = LookupPeer pk dev;
                   sp = sp\<lparr>sp_Peer := peer, sp_created := (peer = None)\<rparr>
               in if sp_created sp then
                    (case NewPeer c pk dev of
                       (Inl _, dev) \<Rightarrow> (Some IpcErrorInvalid, sp, dev)
                     | (Inr p, dev) \<Rightarrow> (None, sp\<lparr>sp_Peer := Some p\<rparr>, dev))
                  else (None, sp, dev))"

text \<open>\<open>handlePeerLine\<close> for the peer \<open>p\<close> of \<open>sp\<close>; the first branch is a nil dereference.\<close>

definition become_dummy :: "ipcSetPeer \<Rightarrow> Device \<Rightarrow> ipcSetPeer \<times> Device" where
  "become_dummy sp dev = (let (p, dev) = dummy_peer dev in (sp\<lparr>sp_Peer := Some p, sp_dummy := True\<rparr>, dev))"

definition handlePeerLine ::
  "crypto \<Rightarrow> endpoint_text \<Rightarrow> uapi_env \<Rightarrow> string \<Rightarrow> string \<Rightarrow> ipcSetPeer \<Rightarrow> Device \<Rightarrow>
   (IPCError option \<times> ipcSetPeer \<times> Device) option" where
  "handlePeerLine c t u key val sp dev =
     (case sp_Peer sp of
        None \<Rightarrow> None
      | Some p \<Rightarrow>
          let invalid = Some (Some IpcErrorInvalid, sp, dev);
              remove = RemovePeer c (ue_env u) (hs_remoteStatic (handshake (peers dev p)))
          in if key = ''update_only'' then
               (if val \<noteq> ''true'' then invalid
                else if sp_created sp \<and> \<not> sp_dummy sp then do {
                  dev \<leftarrow> remove dev;
                  Some (None, become_dummy sp dev)
                }
                else Some (None, sp, dev))
             else if key = ''remove'' then
               (if val \<noteq> ''true'' then invalid
                else do {
                  dev \<leftarrow> (if \<not> sp_dummy sp then remove dev else Some dev);
                  Some (None, become_dummy sp dev)
                })
             else if key = ''preshared_key'' then
               (let (err, psk) = FromHex (hs_presharedKey (handshake (peers dev p))) val;
                    dev = set_handshake p ((handshake (peers dev p))\<lparr>hs_presharedKey := psk\<rparr>) dev
                in Some (if err \<noteq> None then Some IpcErrorInvalid else None, sp, dev))
             else if key = ''endpoint'' then
               (case et_parse t val of
                  None \<Rightarrow> invalid
                | Some ep \<Rightarrow> Some (None, sp, upd_peer p (\<lambda>q. q\<lparr>endpoint_val := Some ep\<rparr>) dev))
             else if key = ''persistent_keepalive_interval'' then
               (case ParseUint 16 val of
                  None \<Rightarrow> invalid
                | Some secs \<Rightarrow>
                    let old = persistentKeepaliveInterval (peers dev p)
                    in Some (None, sp\<lparr>sp_pkaOn := (old = 0 \<and> secs \<noteq> 0)\<rparr>,
                         upd_peer p (\<lambda>q. q\<lparr>persistentKeepaliveInterval := of_nat secs\<rparr>) dev))
             else if key = ''replace_allowed_ips'' then
               (if val \<noteq> ''true'' then invalid
                else if sp_dummy sp then Some (None, sp, dev)
                else do {
                  tbl \<leftarrow> RemoveByPeer (allowedips dev) p;
                  Some (None, sp, dev\<lparr>allowedips := tbl\<rparr>)
                })
             else if key = ''allowed_ip'' then
               (let (add, val) = (if val \<noteq> [] \<and> hd val = CHR ''-'' then (False, tl val) else (True, val))
                in case ParsePrefix val of
                     None \<Rightarrow> invalid
                   | Some prefx \<Rightarrow>
                       if sp_dummy sp then Some (None, sp, dev)
                       else do {
                         tbl \<leftarrow> (if add then Insert (allowedips dev) prefx p else Remove (allowedips dev) prefx p);
                         Some (None, sp, dev\<lparr>allowedips := tbl\<rparr>)
                       })
             else if key = ''protocol_version'' then
               (if val \<noteq> ''1'' then invalid else Some (None, sp, dev))
             else invalid)"

text \<open>\<open>IpcSetOperation\<close>: the lines scanned, with \<open>us n\<close> the environment of line \<open>n\<close>; \<open>ok\<close> is false when the
  scanner stopped with an error.\<close>

fun IpcSet_loop ::
  "crypto \<Rightarrow> endpoint_text \<Rightarrow> (nat \<Rightarrow> uapi_env) \<Rightarrow> bool \<Rightarrow> nat \<Rightarrow> string list \<Rightarrow> bool \<Rightarrow> ipcSetPeer \<Rightarrow> Device \<Rightarrow>
   (IPCError option \<times> Device) option" where
  "IpcSet_loop c t us ok n [] deviceConfig sp dev =
     map_option (Pair (if ok then None else Some IpcErrorIO)) (handlePostConfig c (us n) sp dev)"
| "IpcSet_loop c t us ok n (line # lines) deviceConfig sp dev =
     (if line = [] then map_option (Pair None) (handlePostConfig c (us n) sp dev)
      else case str_cut (CHR ''='') line of
          None \<Rightarrow> Some (Some IpcErrorProtocol, dev)
        | Some (key, val) \<Rightarrow>
            if key = ''public_key'' then do {
              dev \<leftarrow> handlePostConfig c (us n) sp dev;
              (case handlePublicKeyLine c val sp dev of
                 (Some err, sp, dev) \<Rightarrow> Some (Some err, dev)
               | (None, sp, dev) \<Rightarrow> IpcSet_loop c t us ok (n + 1) lines False sp dev)
            }
            else if deviceConfig then do {
              (err, dev) \<leftarrow> handleDeviceLine c (us n) key val dev;
              if err \<noteq> None then Some (err, dev) else IpcSet_loop c t us ok (n + 1) lines True sp dev
            }
            else do {
              (err, sp, dev) \<leftarrow> handlePeerLine c t (us n) key val sp dev;
              if err \<noteq> None then Some (err, dev) else IpcSet_loop c t us ok (n + 1) lines False sp dev
            })"

definition new_ipcSetPeer :: ipcSetPeer where
  "new_ipcSetPeer = \<lparr>sp_Peer = None, sp_dummy = False, sp_created = False, sp_pkaOn = False\<rparr>"

definition IpcSetOperation ::
  "crypto \<Rightarrow> endpoint_text \<Rightarrow> (nat \<Rightarrow> uapi_env) \<Rightarrow> string \<Rightarrow> Device \<Rightarrow> (IPCError option \<times> Device) option" where
  "IpcSetOperation c t us r dev =
     (let (lines, ok) = scan_lines r in IpcSet_loop c t us ok 0 lines True new_ipcSetPeer dev)"

section \<open>Requests\<close>

text \<open>One round of \<open>IpcHandle\<close>: the operation line, its end included, and what follows it on the socket. The
  answer is \<open>None\<close> when the connection is closed without one.\<close>

definition IpcHandle_step ::
  "crypto \<Rightarrow> endpoint_text \<Rightarrow> (nat \<Rightarrow> uapi_env) \<Rightarrow> string \<Rightarrow> string \<Rightarrow> Device \<Rightarrow> (string option \<times> Device) option" where
  "IpcHandle_step c t us operation rest dev =
     (let answer = (\<lambda>err. ''errno='' @ (case err of None \<Rightarrow> ''0'' | Some x \<Rightarrow> decimal_int (ErrorCode x)) @ newline @ newline)
      in if operation = ''set=1'' @ newline then do {
           (err, dev) \<leftarrow> IpcSetOperation c t us rest dev;
           Some (Some (answer err), dev)
         }
         else if operation = ''get=1'' @ newline then
           (case rest of
              [] \<Rightarrow> Some (None, dev)
            | ch # _ \<Rightarrow>
                if [ch] \<noteq> newline then Some (Some (answer (Some IpcErrorInvalid)), dev)
                else Some (Some (IpcGetOperation t dev @ answer None), dev))
         else Some (None, dev))"

section \<open>The invariant\<close>

text \<open>A peer under configuration that is not a dummy is registered.\<close>

definition sp_ok :: "Device \<Rightarrow> ipcSetPeer \<Rightarrow> bool" where
  "sp_ok dev sp \<longleftrightarrow> (\<forall>p. sp_Peer sp = Some p \<and> \<not> sp_dummy sp \<longrightarrow> p \<in> set (peer_list dev))"

lemma dev_at_dummy:
  assumes "dev_at s dev"
  shows "dev_at s (snd (dummy_peer dev))"
proof -
  have "\<not> isRunning (peers dev (next_pid dev))" using assms by (auto simp: dev_at_def dev_inv_def life_ok_def reg_ok_def life_read)
  then have "life (snd (dummy_peer dev)) = (life dev)\<lparr>l_next := l_next (life dev) + 1\<rparr>"
    by (auto simp: dummy_peer_def life_def upd_peer_def zero_Peer_def)
  moreover have "safe_inv (snd (dummy_peer dev))"
    using assms by (auto simp: dummy_peer_def dev_at_def dev_inv_def slots_def zero_Peer_def zero_Keypairs_def intro!: safe_inv_upd_peer)
  moreover have "allowedips (snd (dummy_peer dev)) = allowedips dev" "dev_state (snd (dummy_peer dev)) = dev_state dev"
    by (simp_all add: dummy_peer_def upd_peer_def)
  ultimately show ?thesis
    using assms by (auto simp: dev_at_def dev_inv_def life_ok_def reg_ok_def l_pids_def)
qed

lemma dev_at_upd_peer:
  "dev_at s dev \<Longrightarrow> (\<And>q. keypairs (f q) = keypairs q \<and> isRunning (f q) = isRunning q) \<Longrightarrow> dev_at s (upd_peer p f dev)"
  by (erule dev_at_implements [OF _ implements_upd_peer]) simp_all

lemma pred_option_if: "pred_option P a \<Longrightarrow> pred_option P b \<Longrightarrow> pred_option P (if x then a else b)"
  by simp

lemma dev_at_handleDeviceLine:
  assumes "dev_at s dev"
  shows "pred_option (\<lambda>r. dev_at s (snd r)) (handleDeviceLine c u key val dev)"
proof -
  let ?P = "\<lambda>r. dev_at s (snd r)"
  have p: "dev_at s (dev\<lparr>net_port := prt\<rparr>)" for prt using assms by (simp add: dev_at_def dev_inv_def)
  have 1: "pred_option ?P (case FromMaybeZeroHex val of (Some _, _) \<Rightarrow> Some (Some IpcErrorInvalid, dev)
      | (None, sk) \<Rightarrow> map_option (Pair None) (SetPrivateKey c (ue_env u) sk dev))"
    using assms by (auto simp: pred_option_map dev_at_SetPrivateKey split: prod.splits option.splits)
  have 2: "pred_option ?P (case BindUpdate (ue_bind u) (dev\<lparr>net_port := prt\<rparr>) of
      (Some _, dev) \<Rightarrow> Some (Some IpcErrorPortInUse, dev) | (None, dev) \<Rightarrow> Some (None, dev))" for prt
    using dev_at_BindUpdate [OF p, of "ue_bind u" prt] by (auto split: prod.splits option.splits)
  have 3: "pred_option ?P (case BindSetMark (ue_bind u) m dev of
      (Some _, dev) \<Rightarrow> Some (Some IpcErrorPortInUse, dev) | (None, dev) \<Rightarrow> Some (None, dev))" for m
    using dev_at_BindSetMark [OF assms, of "ue_bind u" m] by (auto split: prod.splits option.splits)
  have 4: "pred_option ?P (map_option (Pair (None :: IPCError option)) (RemoveAllPeers c (ue_env u) dev))"
    using assms by (simp add: pred_option_map dev_at_RemoveAllPeers)
  have 5: "pred_option ?P (Some (err :: IPCError option, dev))" for err using assms by simp
  have o: "pred_option ?P (case x of None \<Rightarrow> Some (err, dev) | Some n \<Rightarrow> f n)"
    if "\<And>n. pred_option ?P (f n)" for x err and f :: "nat \<Rightarrow> (IPCError option \<times> Device) option"
    using that assms by (cases x) auto
  show ?thesis unfolding handleDeviceLine_def by (intro pred_option_if o 1 2 3 4 5)
qed

lemma keepalive_inv: "dev_at s dev \<Longrightarrow> pred_option (dev_at s) (SendKeepalive c e p dev)"
  by (erule dev_at_safe_option) (rule safe_SendKeepalive)

lemma staged_inv: "dev_at s dev \<Longrightarrow> pred_option (dev_at s) (SendStagedPackets c e p dev)"
  by (erule dev_at_safe_option) (rule safe_SendStagedPackets)

lemma dev_at_handlePostConfig:
  assumes "dev_at s dev" "sp_ok dev sp"
  shows "pred_option (dev_at s) (handlePostConfig c u sp dev)"
proof (cases "sp_Peer sp = None \<or> sp_dummy sp")
  case True
  then show ?thesis using assms(1) by (auto simp: handlePostConfig_def split: option.splits)
next
  case False
  then obtain p where p: "sp_Peer sp = Some p" "\<not> sp_dummy sp" "p \<in> set (peer_list dev)"
    using assms(2) by (auto simp: sp_ok_def)
  have d: "dev_at s (upd_peer p (\<lambda>q. q\<lparr>endpoint_disableRoaming := b \<and> endpoint_val q \<noteq> None\<rparr>) dev)" for b
    by (rule dev_at_upd_peer [OF assms(1)]) simp
  have l: "peer_list (upd_peer p f dev) = peer_list dev" "dev_state (upd_peer p f dev) = dev_state dev" for f
    by (simp_all add: peer_list_def upd_peer_def)
  show ?thesis
    using p d assms(1) unfolding handlePostConfig_def
    by (auto simp: Let_def deviceState_isUp_def l
        intro!: pred_option_bind [where Q = "dev_at s"] dev_at_Start staged_inv keepalive_inv)
qed

lemma dev_at_handlePublicKeyLine:
  assumes "dev_at s dev" "handlePublicKeyLine c val sp dev = (err, sp', dev')"
  shows "dev_at s dev'" and "err = None \<Longrightarrow> sp_ok dev' sp'"
proof -
  obtain e pk where k: "FromHex zero_key val = (e, pk)" by fastforce
  consider "e \<noteq> None" | "e = None" "Equals (sid_publicKey dev) pk"
    | p where "e = None" "\<not> Equals (sid_publicKey dev) pk" "LookupPeer pk dev = Some p"
    | "e = None" "\<not> Equals (sid_publicKey dev) pk" "LookupPeer pk dev = None"
    by fastforce
  then have "dev_at s dev' \<and> (err = None \<longrightarrow> sp_ok dev' sp')"
  proof cases
    case 1
    then show ?thesis using assms k by (auto simp: handlePublicKeyLine_def)
  next
    case 2
    then show ?thesis
      using assms(2) k dev_at_dummy [OF assms(1)] by (auto simp: handlePublicKeyLine_def case_prod_unfold sp_ok_def Let_def)
  next
    case (3 p)
    then show ?thesis
      using assms k by (auto simp: handlePublicKeyLine_def sp_ok_def LookupPeer_def peer_list_def dest!: map_of_SomeD intro: rev_image_eqI)
  next
    case 4
    have n: "fst (NewPeer c pk dev) = Inr q \<Longrightarrow> q \<in> set (peer_list (snd (NewPeer c pk dev)))" for q
      by (auto simp: NewPeer_def Let_def peer_list_def split: if_splits)
    show ?thesis
      using 4 assms(2) k dev_at_NewPeer [OF assms(1), of c pk] n
      by (cases "NewPeer c pk dev") (auto simp: handlePublicKeyLine_def sp_ok_def Let_def split: sum.splits)
  qed
  then show "dev_at s dev'" and "err = None \<Longrightarrow> sp_ok dev' sp'" by auto
qed

lemma dev_at_routes:
  assumes "dev_at s dev" "table_inv tbl" "\<And>r q. routes tbl r = Some q \<Longrightarrow> q \<in> set (peer_list dev)"
  shows "dev_at s (dev\<lparr>allowedips := tbl\<rparr>)"
  using assms by (auto simp: dev_at_def dev_inv_def life_ok_def reg_ok_def life_def l_pids_def peer_list_def)

lemma routes_registered: "dev_at s dev \<Longrightarrow> routes (allowedips dev) r = Some q \<Longrightarrow> q \<in> set (peer_list dev)"
  by (cases r) (auto simp: dev_at_def dev_inv_def life_ok_def reg_ok_def life_def l_pids_def peer_list_def)

lemma dev_at_replace_allowed_ips:
  assumes "dev_at s dev"
  shows "pred_option (\<lambda>tbl. dev_at s (dev\<lparr>allowedips := tbl\<rparr>)) (RemoveByPeer (allowedips dev) p)"
proof -
  have "table_inv (allowedips dev)" using assms by (simp add: dev_at_def dev_inv_def)
  from RemoveByPeer_correct [OF this, of p] obtain tbl where t: "RemoveByPeer (allowedips dev) p = Some tbl" "table_inv tbl"
    "routes tbl = (\<lambda>k. if routes (allowedips dev) k = Some p then None else routes (allowedips dev) k)" by blast
  have "dev_at s (dev\<lparr>allowedips := tbl\<rparr>)"
    by (rule dev_at_routes [OF assms t(2)]) (use routes_registered [OF assms] in \<open>auto simp: t(3) split: if_splits\<close>)
  then show ?thesis by (simp add: t(1))
qed

lemma dev_at_allowed_ip:
  assumes "dev_at s dev" "p \<in> set (peer_list dev)" "prefix_ok x"
  shows "pred_option (\<lambda>tbl. dev_at s (dev\<lparr>allowedips := tbl\<rparr>))
    (if add then Insert (allowedips dev) x p else Remove (allowedips dev) x p)"
proof -
  let ?r = "if add then OpInsert x p else OpRemove x p"
  have "table_inv (allowedips dev)" using assms(1) by (simp add: dev_at_def dev_inv_def)
  moreover have "op_ok ?r" using assms(3) by simp
  ultimately obtain tbl where t: "table_op ?r (allowedips dev) = Some tbl" "table_inv tbl" "routes tbl = route_spec ?r (routes (allowedips dev))"
    using wg_routing.step_law by blast
  have "q \<in> set (peer_list dev)" if "routes tbl r = Some q" for r q
    using that routes_registered [OF assms(1), of r q] assms(2) by (auto simp: t(3) split: if_splits)
  with t show ?thesis by (auto split: if_splits intro: dev_at_routes [OF assms(1)])
qed

lemma dev_at_become_dummy: "dev_at s dev \<Longrightarrow> become_dummy sp dev = (sp', dev') \<Longrightarrow> dev_at s dev' \<and> sp_ok dev' sp'"
  using dev_at_dummy [of s dev] by (auto simp: become_dummy_def sp_ok_def case_prod_unfold Let_def)

lemma dev_at_handlePeerLine:
  assumes "dev_at s dev" "sp_ok dev sp"
  shows "pred_option (\<lambda>r. dev_at s (snd (snd r)) \<and> sp_ok (snd (snd r)) (fst (snd r))) (handlePeerLine c t u key val sp dev)"
proof (cases "sp_Peer sp")
  case None
  then show ?thesis by (simp add: handlePeerLine_def)
next
  case (Some p)
  let ?P = "\<lambda>r :: IPCError option \<times> ipcSetPeer \<times> Device. dev_at s (snd (snd r)) \<and> sp_ok (snd (snd r)) (fst (snd r))"
  have keep: "sp_ok d (sp\<lparr>sp_pkaOn := b\<rparr>) \<and> sp_ok d sp" if "keyMap d = keyMap dev" for d b
    using assms(2) that by (simp add: sp_ok_def peer_list_def)
  have b: "?P (err, become_dummy sp d)" if "dev_at s d" for d err
    using dev_at_become_dummy [OF that] by (cases "become_dummy sp d") auto
  have rm: "pred_option ?P (do { d \<leftarrow> RemovePeer c (ue_env u) k dev; Some (err, become_dummy sp d) })" for k err
    by (rule pred_option_bind [OF dev_at_RemovePeer [OF assms(1)]]) (use b in simp)
  have pr: "\<not> sp_dummy sp \<Longrightarrow> p \<in> set (peer_list dev)" using assms(2) Some by (simp add: sp_ok_def)
  have peer: "dev_at s (upd_peer p f dev)" "keyMap (upd_peer p f dev) = keyMap dev"
    if "\<And>q. keypairs (f q) = keypairs q \<and> isRunning (f q) = isRunning q" for f
    using dev_at_upd_peer [OF assms(1)] that by (auto simp: upd_peer_def)
  have ip: "pred_option ?P (do { tbl \<leftarrow> (if add then Insert (allowedips dev) x p else Remove (allowedips dev) x p);
      Some (err, sp, dev\<lparr>allowedips := tbl\<rparr>) })" if "\<not> sp_dummy sp" "ParsePrefix v = Some x" for add x err v
    by (rule pred_option_bind [OF dev_at_allowed_ip [OF assms(1) pr ParsePrefix_ok]]) (use that keep in auto)
  have rep: "pred_option ?P (do { tbl \<leftarrow> RemoveByPeer (allowedips dev) p; Some (err, sp, dev\<lparr>allowedips := tbl\<rparr>) })" for err
    by (rule pred_option_bind [OF dev_at_replace_allowed_ips [OF assms(1)]]) (use keep in auto)
  have inv: "pred_option ?P (Some (err, sp, dev))" for err using assms by simp
  have dum: "pred_option ?P (Some (err, become_dummy sp dev))" for err using b [OF assms(1)] by simp
  have psk: "pred_option ?P (Some (err, sp, set_handshake p hs dev))" for hs err
    using peer [of "\<lambda>q. q\<lparr>handshake := hs\<rparr>"] keep by (simp add: set_handshake_def)
  have ep: "pred_option ?P (Some (err, sp, upd_peer p (\<lambda>q. q\<lparr>endpoint_val := x\<rparr>) dev))" for x err
    using peer [of "\<lambda>q. q\<lparr>endpoint_val := x\<rparr>"] keep by simp
  have ka: "pred_option ?P (Some (err, sp\<lparr>sp_pkaOn := y\<rparr>, upd_peer p (\<lambda>q. q\<lparr>persistentKeepaliveInterval := x\<rparr>) dev))" for x y err
    using peer [of "\<lambda>q. q\<lparr>persistentKeepaliveInterval := x\<rparr>"] keep by simp
  have o: "pred_option ?P (case x of None \<Rightarrow> Some (err, sp, dev) | Some n \<Rightarrow> f n)"
    if "\<And>n. x = Some n \<Longrightarrow> pred_option ?P (f n)" for x :: "'x option" and err f
    using that inv by (cases x) simp_all
  have l: "pred_option ?P (case ParsePrefix v of None \<Rightarrow> Some (err, sp, dev) | Some prefx \<Rightarrow>
      if sp_dummy sp then Some (err', sp, dev) else do {
        tbl \<leftarrow> (if add then Insert (allowedips dev) prefx p else Remove (allowedips dev) prefx p);
        Some (err'', sp, dev\<lparr>allowedips := tbl\<rparr>) })" for v add err err' err''
    using ip inv by (cases "ParsePrefix v"; cases "sp_dummy sp") simp_all
  have rmd: "pred_option ?P (do { d \<leftarrow> (if \<not> sp_dummy sp then RemovePeer c (ue_env u) k dev else Some dev);
      Some (err, become_dummy sp d) })" for k err
    using rm dum by simp
  show ?thesis
    unfolding handlePeerLine_def Some option.case Let_def case_prod_unfold
    by (intro pred_option_if rm rmd rep inv psk ep ka o l)
qed

lemma dev_at_IpcSet_loop:
  "dev_at s dev \<Longrightarrow> sp_ok dev sp \<Longrightarrow> (deviceConfig \<Longrightarrow> sp_Peer sp = None) \<Longrightarrow>
   pred_option (\<lambda>r. dev_at s (snd r)) (IpcSet_loop c t us ok n lines deviceConfig sp dev)"
proof (induction lines arbitrary: n deviceConfig sp dev)
  case Nil
  then show ?case by (simp add: pred_option_map dev_at_handlePostConfig)
next
  case (Cons line lines)
  let ?P = "\<lambda>r :: IPCError option \<times> Device. dev_at s (snd r)"
  note post = dev_at_handlePostConfig [OF Cons.prems(1,2)]
  have 1: "pred_option ?P (map_option (Pair err) (handlePostConfig c (us n) sp dev))" for err
    using post by (simp add: pred_option_map)
  have key: "pred_option ?P (case handlePublicKeyLine c val sp d of (Some err, sp, dev) \<Rightarrow> Some (Some err, dev)
       | (None, sp, dev) \<Rightarrow> IpcSet_loop c t us ok (n + 1) lines False sp dev)" if d: "dev_at s d" for val d
  proof -
    obtain err sp' d' where r: "handlePublicKeyLine c val sp d = (err, sp', d')" by (cases "handlePublicKeyLine c val sp d") auto
    show ?thesis
      using dev_at_handlePublicKeyLine [OF d r] Cons.IH [of d' sp' False "n + 1"] by (cases err) (simp_all add: r)
  qed
  have 2: "pred_option ?P (do { dev \<leftarrow> handlePostConfig c (us n) sp dev;
      (case handlePublicKeyLine c val sp dev of (Some err, sp, dev) \<Rightarrow> Some (Some err, dev)
       | (None, sp, dev) \<Rightarrow> IpcSet_loop c t us ok (n + 1) lines False sp dev) })" for val
    by (rule pred_option_bind [OF post]) (rule key)
  have 3: "pred_option ?P (do { (err, dev) \<leftarrow> handleDeviceLine c (us n) k val dev;
      if err \<noteq> None then Some (err, dev) else IpcSet_loop c t us ok (n + 1) lines True sp dev })" if deviceConfig for k val
    by (rule pred_option_bind_pair [OF dev_at_handleDeviceLine [OF Cons.prems(1)]])
       (use Cons.IH [of _ sp True "n + 1"] Cons.prems(3) [OF that] in \<open>simp add: sp_ok_def\<close>)
  have 4: "pred_option ?P (do { (err, sp, dev) \<leftarrow> handlePeerLine c t (us n) k val sp dev;
      if err \<noteq> None then Some (err, dev) else IpcSet_loop c t us ok (n + 1) lines False sp dev })" for k val
    by (rule pred_option_bind_pair [OF dev_at_handlePeerLine [OF Cons.prems(1,2)]])
       (use Cons.IH [of _ _ False "n + 1"] in auto)
  show ?case
  proof (cases "str_cut (CHR ''='') line")
    case None
    then show ?thesis using 1 Cons.prems(1) by (simp add: pred_option_if)
  next
    case (Some kv)
    obtain k val where kv: "kv = (k, val)" by (cases kv)
    show ?thesis
      unfolding IpcSet_loop.simps Some option.case kv prod.case
      by (cases deviceConfig) (use 1 2 3 4 in \<open>simp_all only: if_True if_False pred_option_if simp_thms\<close>)
  qed
qed

lemma dev_at_IpcSetOperation:
  assumes "dev_at s dev"
  shows "pred_option (\<lambda>r. dev_at s (snd r)) (IpcSetOperation c t us input dev)"
  using dev_at_IpcSet_loop [OF assms, of new_ipcSetPeer True]
  by (auto simp: IpcSetOperation_def sp_ok_def new_ipcSetPeer_def split: prod.split)

section \<open>Lines and their effects\<close>

lemma Prefix_String_head:
  assumes "prefix_ok x"
  shows "Prefix_String x \<noteq> [] \<and> hd (Prefix_String x) \<noteq> CHR ''-''"
proof -
  have dec: "decimal n \<noteq> [] \<and> hd (decimal n) \<noteq> CHR ''-''" for n
    using decimal_facts [of n] by (cases "decimal n") (auto simp: is_digit_def)
  have hex: "gs \<noteq> [] \<Longrightarrow> join_groups gs \<noteq> [] \<and> hd (join_groups gs) \<noteq> CHR ''-''" for gs
    using join_groups_head [of gs] by (auto simp: fromHexChar_def)
  have "string6 ip \<noteq> [] \<and> hd (string6 ip) \<noteq> CHR ''-''" for ip
  proof (cases "best_run ip")
    case None
    then show ?thesis using hex [of "map (v6u16 ip) [0..<8]"] by (simp add: string6_def)
  next
    case (Some r)
    then show ?thesis
      using hex [of "map (v6u16 ip) [0..<fst r]"] by (cases r; cases "fst r = 0") (auto simp: string6_def hd_append)
  qed
  with dec assms show ?thesis
    by (cases x; cases "fst x") (auto simp: Prefix_String_def Addr_String_def string4_def prefix_ok_def hd_append)
qed

lemma allowed_ip_line:
  assumes "dev_inv dev" "sp_Peer sp = Some p" "\<not> sp_dummy sp" "prefix_ok x"
  shows "\<exists>tbl. handlePeerLine c t u ''allowed_ip'' (Prefix_String x) sp dev = Some (None, sp, dev\<lparr>allowedips := tbl\<rparr>)
      \<and> routes tbl = (routes (allowedips dev))(prefix_route x \<mapsto> p)"
    and "\<exists>tbl. handlePeerLine c t u ''allowed_ip'' (CHR ''-'' # Prefix_String x) sp dev = Some (None, sp, dev\<lparr>allowedips := tbl\<rparr>)
      \<and> routes tbl = (if routes (allowedips dev) (prefix_route x) = Some p then (routes (allowedips dev))(prefix_route x := None)
          else routes (allowedips dev))"
proof -
  have i: "table_inv (allowedips dev)" using assms(1) by (simp add: dev_inv_def)
  obtain tbl where t: "Insert (allowedips dev) x p = Some tbl" "routes tbl = (routes (allowedips dev))(prefix_route x \<mapsto> p)"
    using wg_routing.step_law [OF i, of "OpInsert x p"] assms(4) by auto
  note h = Prefix_String_head [OF assms(4)]
  have n: "(''allowed_ip'' = ''update_only'') = False" "(''allowed_ip'' = ''remove'') = False" "(''allowed_ip'' = ''preshared_key'') = False"
    "(''allowed_ip'' = ''endpoint'') = False" "(''allowed_ip'' = ''persistent_keepalive_interval'') = False" "(''allowed_ip'' = ''replace_allowed_ips'') = False"
    by simp_all
  show "\<exists>tbl. handlePeerLine c t u ''allowed_ip'' (Prefix_String x) sp dev = Some (None, sp, dev\<lparr>allowedips := tbl\<rparr>)
      \<and> routes tbl = (routes (allowedips dev))(prefix_route x \<mapsto> p)"
    unfolding handlePeerLine_def assms(2) option.case Let_def n if_False simp_thms if_True
    using h t assms(3) ParsePrefix_String [OF assms(4)] by (intro exI [of _ tbl]) simp
  obtain tbl' where t': "Remove (allowedips dev) x p = Some tbl'" "routes tbl' = route_spec (OpRemove x p) (routes (allowedips dev))"
    using wg_routing.step_law [OF i, of "OpRemove x p"] assms(4) by auto
  show "\<exists>tbl. handlePeerLine c t u ''allowed_ip'' (CHR ''-'' # Prefix_String x) sp dev = Some (None, sp, dev\<lparr>allowedips := tbl\<rparr>)
      \<and> routes tbl = (if routes (allowedips dev) (prefix_route x) = Some p then (routes (allowedips dev))(prefix_route x := None)
          else routes (allowedips dev))"
    unfolding handlePeerLine_def assms(2) option.case Let_def n if_False simp_thms if_True
    using t' assms(3) ParsePrefix_String [OF assms(4)] by (intro exI [of _ tbl']) simp
qed

lemma FromHex_encode: "length key = length dst \<Longrightarrow> FromHex dst (hex_encode key) = (None, key)"
  by (simp add: FromHex_def loadExactHex_def hex_decode_encode)

lemma preshared_key_line:
  assumes "sp_Peer sp = Some p" "length psk = length (hs_presharedKey (handshake (peers dev p)))"
  shows "handlePeerLine c t u ''preshared_key'' (hex_encode psk) sp dev
    = Some (None, sp, set_handshake p ((handshake (peers dev p))\<lparr>hs_presharedKey := psk\<rparr>) dev)"
  using assms by (simp add: handlePeerLine_def FromHex_encode)

lemma keepalive_line:
  assumes "sp_Peer sp = Some p" "n < 65536"
  shows "handlePeerLine c t u ''persistent_keepalive_interval'' (decimal n) sp dev
    = Some (None, sp\<lparr>sp_pkaOn := (persistentKeepaliveInterval (peers dev p) = 0 \<and> n \<noteq> 0)\<rparr>,
        upd_peer p (\<lambda>q. q\<lparr>persistentKeepaliveInterval := of_nat n\<rparr>) dev)"
  using assms ParseUint_decimal [of n 16] by (simp add: handlePeerLine_def)

lemma endpoint_line:
  assumes "sp_Peer sp = Some p" "et_parse t (et_string t ep) = Some ep"
  shows "handlePeerLine c t u ''endpoint'' (et_string t ep) sp dev = Some (None, sp, upd_peer p (\<lambda>q. q\<lparr>endpoint_val := Some ep\<rparr>) dev)"
  using assms by (simp add: handlePeerLine_def)

lemma dummy_lines:
  assumes "sp_Peer sp = Some p" "sp_dummy sp" "p \<notin> set (peer_list dev)" "dev_inv dev"
    and "handlePeerLine c t u key val sp dev = Some (err, sp', dev')"
  shows "(\<exists>q. sp_Peer sp' = Some q \<and> q \<notin> set (peer_list dev)) \<and> sp_dummy sp'
    \<and> (\<exists>f n. dev' = dev\<lparr>peers := f, next_pid := n\<rparr> \<and> (\<forall>q\<in>set (peer_list dev). f q = peers dev q))"
proof -
  have fresh: "next_pid dev \<notin> set (peer_list dev)"
    using assms(4) by (auto simp: dev_inv_def life_ok_def reg_ok_def peer_list_pids life_def)
  have id: "dev = dev\<lparr>peers := peers dev, next_pid := next_pid dev\<rparr>" by simp
  have up: "\<exists>f' n. upd_peer p f dev = dev\<lparr>peers := f', next_pid := n\<rparr> \<and> (\<forall>q\<in>set (peer_list dev). f' q = peers dev q)" for f
    using assms(3) by (intro exI [of _ "(peers dev)(p := f (peers dev p))"] exI [of _ "next_pid dev"]) (auto simp: upd_peer_def)
  have dm: "\<exists>f' n. snd (become_dummy sp dev) = dev\<lparr>peers := f', next_pid := n\<rparr> \<and> (\<forall>q\<in>set (peer_list dev). f' q = peers dev q)"
    using fresh by (intro exI [of _ "(peers dev)(next_pid dev := zero_Peer)"] exI [of _ "next_pid dev + 1"])
       (auto simp: become_dummy_def dummy_peer_def upd_peer_def Let_def)
  have dm': "fst (become_dummy sp dev) = sp\<lparr>sp_Peer := Some (next_pid dev), sp_dummy := True\<rparr>"
    by (simp add: become_dummy_def dummy_peer_def Let_def)
  have "dev' = dev \<and> sp' = sp \<or> (\<exists>f. dev' = upd_peer p f dev) \<and> (\<exists>b. sp' = sp\<lparr>sp_pkaOn := b\<rparr>) \<or> (sp', dev') = become_dummy sp dev"
    using assms(5) unfolding handlePeerLine_def assms(1) option.case Let_def set_handshake_def
    by (auto simp: assms(2) case_prod_unfold split: if_splits option.splits) (metis ipcSetPeer.surjective ipcSetPeer.update_convs(4))+
  then show ?thesis
  proof (elim disjE conjE exE)
    assume "dev' = dev" "sp' = sp"
    then show ?thesis using assms(1-3) id by blast
  next
    fix f b assume "dev' = upd_peer p f dev" "sp' = sp\<lparr>sp_pkaOn := b\<rparr>"
    then show ?thesis using assms(1-3) up [of f] by simp
  next
    assume "(sp', dev') = become_dummy sp dev"
    then have "dev' = snd (become_dummy sp dev)" "sp' = fst (become_dummy sp dev)" by (metis fst_conv snd_conv)+
    then show ?thesis using dm dm' fresh by simp
  qed
qed

section \<open>Properties\<close>

text \<open>C21. Any text on the configuration socket is safe: a \<open>set\<close> operation that returns, with or
  without an error and whatever its input was, leaves the invariant of the device intact (nonces and
  replay windows, a well-formed routing table that routes to registered peers only, and no running
  peer or open socket on a device that is not up), and does not change whether the device is up, down or closed.\<close>

theorem IpcSet_keeps_invariant:
  assumes "dev_inv dev" and "IpcSetOperation c t us input dev = Some (err, dev')"
  shows "dev_inv dev' \<and> dev_state dev' = dev_state dev"
  using dev_at_IpcSetOperation [of _ dev c t us input] assms by (simp add: dev_at_def)

definition example_text :: endpoint_text where
  "example_text = \<lparr>et_parse = (\<lambda>_. None), et_string = (\<lambda>_. [])\<rparr>"

definition example_uapi :: uapi_env where
  "example_uapi = \<lparr>ue_env = example_env 0 1 1, ue_bind = example_bind\<rparr>"

definition example_input :: string where
  "example_input = ''fwmark=5'' @ newline @ ''replace_peers=true'' @ newline @ ''x=y''"

theorem IpcSet_keeps_invariant_witness:
  "\<exists>dev'. IpcSetOperation toy_crypto example_text (\<lambda>_. example_uapi) example_input example_new
     = Some (Some IpcErrorInvalid, dev') \<and> dev_inv dev' \<and> dev_state dev' = dev_state example_new"
proof -
  have s: "scan_lines example_input = ([''fwmark=5'', ''replace_peers=true'', ''x=y''], True)"
    by (simp add: example_input_def newline_def scan_lines.simps drop_cr_def MaxScanTokenSize_def)
  have u: "ParseUint 32 ''5'' = Some 5" by (simp add: ParseUint_def is_digit_def decimal_value_def digit_value_def)
  define d0 where "d0 = example_new\<lparr>net_fwmark := 5\<rparr>"
  have m: "BindSetMark example_bind 5 example_new = (None, d0)"
    by (simp add: BindSetMark_def Let_def example_new_fields deviceState_isUp_def mark_all_endpoints_def peer_list_def
        markEndpointSrcForClearing_def zero_Peer_def d0_def)
  have k: "keyMap d0 = [(example_pk, 0)]" "\<not> isRunning (peers d0 0)" "dev_inv d0"
    using dev_at_BindSetMark [of _ example_new example_bind 5] example_new_inv by (simp_all add: m dev_at_def) (simp_all add: d0_def example_new_fields zero_Peer_def)
  obtain t where t: "RemoveByPeer (allowedips d0) 0 = Some t"
    using RemoveByPeer_correct [of "allowedips d0" 0] k(3) unfolding dev_inv_def by blast
  obtain d where d: "RemoveAllPeers toy_crypto (example_env 0 1 1) d0 = Some d"
    by (simp add: RemoveAllPeers_def k t removePeerLocked_def Peer_Stop_def)
  have "IpcSetOperation toy_crypto example_text (\<lambda>_. example_uapi) example_input example_new = Some (Some IpcErrorInvalid, d)"
    by (simp add: IpcSetOperation_def s u handleDeviceLine_def example_uapi_def m d)
  then show ?thesis using IpcSet_keeps_invariant [OF example_new_inv] by blast
qed


definition example_ep :: Endpoint where
  "example_ep = \<lparr>ep_addr = Addr4 [192, 0, 2, 1], ep_port = 51820, ep_src = []\<rparr>"

definition example_text2 :: endpoint_text where
  "example_text2 = \<lparr>et_parse = (\<lambda>s. if s = ''192.0.2.1:51820'' then Some example_ep else None), et_string = (\<lambda>_. ''192.0.2.1:51820'')\<rparr>"


text \<open>A device never configures itself: after the public key line of its own key, every line up
  to the next one works on a placeholder. No registered peer, route, session or other part of the device
  changes, and the placeholder stays unregistered.\<close>

theorem own_key_ignored:
  assumes "dev_inv dev" and "FromHex zero_key val = (None, sid_publicKey dev)"
    and "handlePublicKeyLine c val sp0 dev = (None, sp, dev1)"
    and "handlePeerLine c t u key val' sp dev1 = Some (err, sp', dev')"
  shows "sp_dummy sp \<and> sp_dummy sp' \<and> (\<exists>q. sp_Peer sp' = Some q \<and> q \<notin> set (peer_list dev))
    \<and> (\<exists>f n. dev' = dev\<lparr>peers := f, next_pid := n\<rparr> \<and> (\<forall>q\<in>set (peer_list dev). f q = peers dev q))"
proof -
  have fresh: "next_pid dev \<notin> set (peer_list dev)"
    using assms(1) by (auto simp: dev_inv_def life_ok_def reg_ok_def peer_list_pids life_def)
  have d1: "dev1 = snd (dummy_peer dev)" "sp_dummy sp" "sp_Peer sp = Some (next_pid dev)"
    using assms(2,3) by (auto simp: handlePublicKeyLine_def Equals_def dummy_peer_def)
  have p: "peer_list dev1 = peer_list dev" "\<forall>q\<in>set (peer_list dev). peers dev1 q = peers dev q"
    "dev1 = dev\<lparr>peers := peers dev1, next_pid := next_pid dev1\<rparr>"
    using fresh by (auto simp: d1(1) dummy_peer_def upd_peer_def peer_list_def image_iff)
  have i: "dev_inv dev1" using dev_at_dummy [of _ dev] assms(1) by (simp add: d1(1) dev_at_def)
  from dummy_lines [OF d1(3,2) _ i assms(4)] fresh p obtain f n where
    "\<exists>q. sp_Peer sp' = Some q \<and> q \<notin> set (peer_list dev)" "sp_dummy sp'" "dev' = dev1\<lparr>peers := f, next_pid := n\<rparr>"
    "\<forall>q\<in>set (peer_list dev). f q = peers dev q" by (metis p(1,2))
  moreover from this(3) have "dev' = dev\<lparr>peers := f, next_pid := n\<rparr>" by (subst (asm) p(3)) simp
  ultimately show ?thesis using d1(2) by blast
qed

theorem own_key_ignored_witness:
  "\<exists>sp dev1 err sp' dev'. handlePublicKeyLine toy_crypto (hex_encode zero_key) new_ipcSetPeer example_new = (None, sp, dev1)
     \<and> handlePeerLine toy_crypto example_text2 example_uapi ''remove'' ''true'' sp dev1 = Some (err, sp', dev') \<and> sp_dummy sp'"
proof -
  have k: "FromHex zero_key (hex_encode zero_key) = (None, sid_publicKey example_new)"
    by (simp add: FromHex_encode) (simp add: example_new_def NewDevice_def Rate_Init_def new_ratelimiter_def Let_def NewPeer_def zero_Device_def
        deviceState_isClosed_def MaxPeers_def upd_peer_def timersInit_def upd_timers_def)
  then obtain sp dev1 where 1: "handlePublicKeyLine toy_crypto (hex_encode zero_key) new_ipcSetPeer example_new = (None, sp, dev1)"
    "sp_dummy sp" "sp_Peer sp \<noteq> None"
    by (auto simp: handlePublicKeyLine_def Equals_def dummy_peer_def Let_def)
  then obtain err sp' dev' where 2: "handlePeerLine toy_crypto example_text2 example_uapi ''remove'' ''true'' sp dev1 = Some (err, sp', dev')"
    by (cases "become_dummy sp dev1") (auto simp: handlePeerLine_def)
  from own_key_ignored [OF example_new_inv k 1(1) 2] 1(1) 2 show ?thesis by blast
qed

end
