(* ===== verification/Runs.thy ===== *)
theory Runs
  imports Uapi
begin

text \<open>
  Runs of a device. \<open>dev_step\<close> has one rule for every routine that works on the device and for every
  operation of its interface; steps interleave freely, as the goroutines do under the locks of the code.
  A device is \<open>reachable\<close> when it arises from \<open>NewDevice\<close> by such steps. By rule induction every reachable
  device satisfies \<open>dev_inv\<close>, from which the guarantees of a whole run follow.
\<close>

section \<open>Steps\<close>

text \<open>The packet and timer routines.\<close>

inductive routine_step :: "crypto \<Rightarrow> Device \<Rightarrow> Device \<Rightarrow> bool" for c :: crypto where
  read_tun: "RoutineReadFromTUN_step c e ps err dev = Some (nxt, dev') \<Longrightarrow> routine_step c dev dev'"
| encrypt: "RoutineEncryption_step c cid dev = Some dev' \<Longrightarrow> routine_step c dev dev'"
| send: "RoutineSequentialSender_step c e p dev = Some (go, dev') \<Longrightarrow> routine_step c dev dev'"
| receive: "RoutineReceiveIncoming_step e res ds dev = (go, ds', dev') \<Longrightarrow> routine_step c dev dev'"
| decrypt: "RoutineDecryption_step c cid dev = Some dev' \<Longrightarrow> routine_step c dev dev'"
| handshake: "RoutineHandshake_step c e dev = Some dev' \<Longrightarrow> routine_step c dev dev'"
| deliver: "RoutineSequentialReceiver_step c e p dev = Some (go, dev') \<Longrightarrow> routine_step c dev dev'"
| retransmit: "expiredRetransmitHandshake c e p dev = Some dev' \<Longrightarrow> routine_step c dev dev'"
| keepalive: "expiredSendKeepalive c e p dev = Some dev' \<Longrightarrow> routine_step c dev dev'"
| new_handshake: "expiredNewHandshake c e p dev = Some dev' \<Longrightarrow> routine_step c dev dev'"
| zero_keys: "routine_step c dev (expiredZeroKeyMaterial p dev)"
| persistent: "expiredPersistentKeepalive c e p dev = Some dev' \<Longrightarrow> routine_step c dev dev'"

text \<open>The operations of the interface of the device and the events of the TUN device.\<close>

inductive oper_step :: "crypto \<Rightarrow> Device \<Rightarrow> Device \<Rightarrow> bool" for c :: crypto where
  keepalives: "SendKeepalivesToPeersWithCurrentKeypair c e dev = Some dev' \<Longrightarrow> oper_step c dev dev'"
| no_roaming: "oper_step c dev (DisableSomeRoamingForBrokenMobileSemantics dev)"
| change: "changeState c e b b' want dev = Some (err, dev') \<Longrightarrow> oper_step c dev dev'"
| close: "Device_Close c e b dev = Some dev' \<Longrightarrow> oper_step c dev dev'"
| event: "RoutineTUNEventReader_step c e b b' b'' mtu ev dev = Some dev' \<Longrightarrow> oper_step c dev dev'"
| set_key: "SetPrivateKey c e sk dev = Some dev' \<Longrightarrow> oper_step c dev dev'"
| new_peer: "NewPeer c pk dev = (res, dev') \<Longrightarrow> oper_step c dev dev'"
| remove_peer: "RemovePeer c e key dev = Some dev' \<Longrightarrow> oper_step c dev dev'"
| remove_all: "RemoveAllPeers c e dev = Some dev' \<Longrightarrow> oper_step c dev dev'"
| bind_update: "BindUpdate b dev = (err, dev') \<Longrightarrow> oper_step c dev dev'"
| bind_mark: "BindSetMark b mark dev = (err, dev') \<Longrightarrow> oper_step c dev dev'"
| configure: "IpcSetOperation c t us input dev = Some (err, dev') \<Longrightarrow> oper_step c dev dev'"

inductive dev_step :: "crypto \<Rightarrow> Device \<Rightarrow> Device \<Rightarrow> bool" for c :: crypto where
  routine: "routine_step c dev dev' \<Longrightarrow> dev_step c dev dev'"
| oper: "oper_step c dev dev' \<Longrightarrow> dev_step c dev dev'"

inductive reachable :: "crypto \<Rightarrow> Device \<Rightarrow> bool" for c :: crypto where
  start: "NewDevice mtu = Some dev \<Longrightarrow> reachable c dev"
| step: "reachable c dev \<Longrightarrow> dev_step c dev dev' \<Longrightarrow> reachable c dev'"

text \<open>Any number of steps.\<close>

inductive dev_steps :: "crypto \<Rightarrow> Device \<Rightarrow> Device \<Rightarrow> bool" for c :: crypto where
  none: "dev_steps c dev dev"
| more: "dev_steps c dev dev' \<Longrightarrow> dev_step c dev' dev'' \<Longrightarrow> dev_steps c dev dev''"

inductive_cases dev_stepsE: "dev_steps c dev dev'"

section \<open>Every step keeps the invariant\<close>

lemma safe_RoutineReadFromTUN:
  "pred_option (\<lambda>r. safe_step dev (snd r)) (RoutineReadFromTUN_step c e ps err dev)"
  unfolding RoutineReadFromTUN_step_def
  by (rule pred_option_bind_any, rule pred_option_bind [OF safe_stage_groups])
     (simp split: option.split tun_read_error.split)

lemma routine_step_safe: "routine_step c dev dev' \<Longrightarrow> safe_step dev dev'"
  by (induction rule: routine_step.induct)
     (use pred_optionD [OF safe_RoutineReadFromTUN] pred_optionD [OF safe_RoutineEncryption] pred_optionD [OF safe_RoutineSequentialSender]
       safe_RoutineReceiveIncoming pred_optionD [OF safe_RoutineDecryption] pred_optionD [OF safe_RoutineHandshake]
       pred_optionD [OF safe_RoutineSequentialReceiver] pred_optionD [OF safe_expired(1)] pred_optionD [OF safe_expired(2)]
       pred_optionD [OF safe_expired(3)] safe_expired(4) pred_optionD [OF safe_expired(5)] in fastforce)+

text \<open>Only \<open>changeState\<close>, \<open>Close\<close> and the events of the TUN device change the state, and none of them leaves
  the closed state.\<close>

definition follows :: "deviceState \<Rightarrow> Device \<Rightarrow> bool" where
  "follows s dev \<longleftrightarrow> dev_inv dev \<and> (s = deviceStateClosed \<longrightarrow> dev_state dev = deviceStateClosed)"

lemma dev_at_follows: "dev_at s dev \<Longrightarrow> follows s dev"
  by (simp add: dev_at_def follows_def)

lemma follows_changeState:
  assumes "follows s dev"
  shows "pred_option (\<lambda>r. follows s (snd r)) (changeState c e b b' want dev)"
  using implements_changeState [of dev want c e b b'] dev_inv_changeState [of dev c e b b' want] assms
  by (cases "changeState c e b b' want dev")
     (auto simp: follows_def implements_def dev_inv_def l_changeState_def life_read split: prod.splits)

lemma follows_Close:
  assumes "follows s dev"
  shows "pred_option (follows s) (Device_Close c e b dev)"
  using implements_Close [of dev c e b] dev_inv_Close [of dev c e b] assms
  by (cases "Device_Close c e b dev") (auto simp: follows_def implements_def dev_inv_def l_Close_def life_read)

lemma follows_event:
  assumes "follows s dev"
  shows "pred_option (follows s) (RoutineTUNEventReader_step c e b b' b'' mtu event dev)"
proof -
  have m: "follows s d" if "update_mtu mtu dev = Some d" for d
    using that assms by (auto simp: update_mtu_def Let_def follows_def dev_inv_def split: option.splits if_splits)
  show ?thesis
    unfolding RoutineTUNEventReader_step_def Device_Up_def Device_Down_def
    by (auto split: option.split simp: pred_option_map assms
        intro!: pred_option_bind [where Q = "follows s"] follows_changeState dest: m)
qed

lemma oper_step_follows:
  assumes "oper_step c dev dev'" and "dev_inv dev"
  shows "follows (dev_state dev) dev'"
proof -
  have at: "dev_at (dev_state dev) dev" and fo: "follows (dev_state dev) dev"
    using assms(2) by (auto simp: dev_at_def follows_def)
  from assms(1) show ?thesis
  proof cases
    case (keepalives e)
    then show ?thesis by (rule dev_at_follows [OF pred_optionD [OF dev_at_SendKeepalives [OF at]]])
  next
    case no_roaming
    then show ?thesis using dev_at_follows [OF dev_at_DisableSomeRoaming [OF at]] by simp
  next
    case (change e b b' want err)
    then show ?thesis using pred_optionD [OF follows_changeState [OF fo]] by fastforce
  next
    case (close e b)
    then show ?thesis by (rule pred_optionD [OF follows_Close [OF fo]])
  next
    case (event e b b' b'' mtu ev)
    then show ?thesis by (rule pred_optionD [OF follows_event [OF fo]])
  next
    case (set_key e sk)
    then show ?thesis by (rule dev_at_follows [OF pred_optionD [OF dev_at_SetPrivateKey [OF at]]])
  next
    case (new_peer pk res)
    then show ?thesis using dev_at_follows [OF dev_at_NewPeer [OF at, of c pk]] by simp
  next
    case (remove_peer e key)
    then show ?thesis by (rule dev_at_follows [OF pred_optionD [OF dev_at_RemovePeer [OF at]]])
  next
    case (remove_all e)
    then show ?thesis by (rule dev_at_follows [OF pred_optionD [OF dev_at_RemoveAllPeers [OF at]]])
  next
    case (bind_update b err)
    then show ?thesis using dev_at_follows [OF dev_at_BindUpdate [OF at, of b]] by simp
  next
    case (bind_mark b mark err)
    then show ?thesis using dev_at_follows [OF dev_at_BindSetMark [OF at, of b mark]] by simp
  next
    case (configure t us input err)
    then show ?thesis using dev_at_follows pred_optionD [OF dev_at_IpcSetOperation [OF at]] by fastforce
  qed
qed

lemma dev_step_follows:
  assumes "dev_step c dev dev'" and "dev_inv dev"
  shows "follows (dev_state dev) dev'"
proof (cases rule: dev_step.cases [OF assms(1)])
  case 1
  then show ?thesis
    using dev_at_follows [OF dev_at_safe_step [of "dev_state dev" dev]] routine_step_safe assms(2) by (simp add: dev_at_def)
next
  case 2
  then show ?thesis using oper_step_follows assms(2) by simp
qed

lemma reachable_inv: "reachable c dev \<Longrightarrow> dev_inv dev"
  by (induction rule: reachable.induct) (auto intro: dev_inv_NewDevice dest: dev_step_follows simp: follows_def)

lemma dev_steps_follows: "dev_steps c dev dev' \<Longrightarrow> dev_inv dev \<Longrightarrow> follows (dev_state dev) dev'"
  by (induction rule: dev_steps.induct) (auto simp: follows_def dest: dev_step_follows)

lemma reachable_steps: "dev_steps c dev dev' \<Longrightarrow> reachable c dev \<Longrightarrow> reachable c dev'"
  by (induction rule: dev_steps.induct) (auto intro: reachable.step)

section \<open>Properties\<close>

text \<open>A new device and one with a peer, for the witnesses.\<close>

lemma NewDevice_example: "\<exists>dev. NewDevice (Some 1420) = Some dev \<and> keyMap dev = [] \<and> dev_state dev = deviceStateDown \<and> (\<exists>r. Rate_Close (limiter dev) = Inr r)"
  by (auto simp: NewDevice_def Rate_Init_def new_ratelimiter_def Rate_Close_def Let_def zero_Device_def)

lemma reachable_example_new: "reachable toy_crypto example_new"
proof -
  obtain dev where d: "NewDevice (Some 1420) = Some dev" using NewDevice_example by blast
  obtain r dev' where n: "NewPeer toy_crypto example_pk dev = (r, dev')" by fastforce
  have "reachable toy_crypto dev'"
    by (rule reachable.step [OF reachable.start [OF d] dev_step.oper [OF oper_step.new_peer [OF n]]])
  then show ?thesis by (simp add: example_new_def d n)
qed







text \<open>C4. Closing is final: whatever happens to a device after it was closed, it stays closed, has no
  peers, routes no address, runs nothing and has no open socket.\<close>

theorem closed_is_final:
  assumes "reachable c dev" and "Device_Close c e b dev = Some dev1" and "dev_steps c dev1 dev2"
  shows "dev_state dev2 = deviceStateClosed \<and> keyMap dev2 = [] \<and> routes (allowedips dev2) = (\<lambda>_. None)
    \<and> (\<forall>p. \<not> isRunning (peers dev2 p)) \<and> \<not> bind_open dev2"
proof -
  have i: "dev_inv dev" by (rule reachable_inv [OF assms(1)])
  have "dev_inv dev1 \<and> dev_state dev1 = deviceStateClosed"
    using implements_Close [of dev c e b] dev_inv_Close [OF i, of c e b] i assms(2)
    by (simp add: dev_inv_def implements_def l_Close_def life_read split: if_splits)
  then have f: "follows deviceStateClosed dev2" using dev_steps_follows [OF assms(3)] by simp
  then have p: "l_peers (life dev2) = []" and o: "life_ok (life dev2)" and "dev_state dev2 = deviceStateClosed"
    by (auto simp: follows_def dev_inv_def life_ok_def life_read)
  moreover have "routes (allowedips dev2) r = None" for r
    using p o by (cases r) (auto simp: life_ok_def reg_ok_def l_pids_def life_def)
  ultimately show ?thesis by (auto simp: life_ok_def reg_ok_def l_pids_def life_read)
qed

theorem closed_is_final_witness:
  "\<exists>dev dev1. NewDevice (Some 1420) = Some dev \<and> Device_Close toy_crypto (example_env 0 1 1) example_bind dev = Some dev1
     \<and> keyMap (snd (NewPeer toy_crypto example_pk dev1)) = []"
proof -
  obtain dev rt where d: "NewDevice (Some 1420) = Some dev" "keyMap dev = []" "dev_state dev = deviceStateDown"
    "Rate_Close (limiter dev) = Inr rt" using NewDevice_example by blast
  obtain dev1 where c: "Device_Close toy_crypto (example_env 0 1 1) example_bind dev = Some dev1"
    using d(2-4) by (auto simp: Device_Close_def Let_def deviceState_isClosed_def downLocked_def RemoveAllPeers_def peer_list_def
      closeBindLocked_def BindClose_def upd_peer_def split: if_splits)
  obtain r dev2 where n: "NewPeer toy_crypto example_pk dev1 = (r, dev2)" by fastforce
  have "dev_steps toy_crypto dev1 dev2"
    by (rule dev_steps.more [OF dev_steps.none dev_step.oper [OF oper_step.new_peer [OF n]]])
  from closed_is_final [OF reachable.start [OF d(1)] c this] show ?thesis using d(1) c n by auto
qed

end
