(* ===== verification/Checksum.thy ===== *)
theory Checksum
  imports Prelude
begin

unbundle bit_operations_syntax

text \<open>
  The Internet checksum of the TUN offloads, \<^verbatim>\<open>src/tun/checksum.go\<close>. \<open>binary.NativeEndian\<close> depends on the machine, so
  its byte order is an argument; the unrolled additions are \<open>add_words\<close> with the number of lines. The code sums eight
  bytes at a time in native order with end-around carry and swaps the bytes of the result; it is
  shown to be the sum of big-endian 16-bit words of RFC 1071 for both byte orders.
\<close>

section \<open>Code\<close>

datatype byte_order = LittleEndian | BigEndian

definition native_word :: "byte_order \<Rightarrow> bytes \<Rightarrow> 'a::len word" where
  "native_word order bs = (case order of LittleEndian \<Rightarrow> le_word bs | BigEndian \<Rightarrow> be_word bs)"

definition native_bytes :: "byte_order \<Rightarrow> nat \<Rightarrow> 'a::len word \<Rightarrow> bytes" where
  "native_bytes order n w = (case order of LittleEndian \<Rightarrow> le_bytes n w | BigEndian \<Rightarrow> be_bytes n w)"

text \<open>\<open>bits.Add64\<close>: the sum with carry, and the carry out.\<close>

definition Add64 :: "u64 \<Rightarrow> u64 \<Rightarrow> u64 \<Rightarrow> u64 \<times> u64" where
  "Add64 x y carry = (x + y + carry, if unat x + unat y + unat carry \<ge> 2 ^ 64 then 1 else 0)"

primrec add_words :: "byte_order \<Rightarrow> nat \<Rightarrow> bytes \<Rightarrow> u64 \<Rightarrow> u64 \<Rightarrow> u64 \<times> u64" where
  "add_words order 0 b ac carry = (ac, carry)"
| "add_words order (Suc n) b ac carry =
     (let (ac, carry) = Add64 ac (native_word order (take 8 b)) carry in add_words order n (drop 8 b) ac carry)"

definition add_block :: "byte_order \<Rightarrow> nat \<Rightarrow> bytes \<Rightarrow> u64 \<Rightarrow> u64" where
  "add_block order n b ac = (let (ac, carry) = add_words order n b ac 0 in ac + carry)"

function sum_128 :: "byte_order \<Rightarrow> u64 \<Rightarrow> bytes \<Rightarrow> u64 \<times> bytes" where
  "sum_128 order ac b = (if length b \<ge> 128 then sum_128 order (add_block order 16 b ac) (drop 128 b) else (ac, b))"
  by pat_completeness auto
termination by (relation "measure (\<lambda>(_, _, b). length b)") auto

declare sum_128.simps [simp del]

definition add_value :: "u64 \<Rightarrow> u64 \<Rightarrow> u64" where
  "add_value x ac = (let (ac, carry) = Add64 ac x 0 in ac + carry)"

definition checksumNoFold :: "byte_order \<Rightarrow> bytes \<Rightarrow> u64 \<Rightarrow> u64" where
  "checksumNoFold order b initial =
     (let ac = be_word (native_bytes order 8 initial);
          (ac, b) = sum_128 order ac b;
          (ac, b) = (if length b \<ge> 64 then (add_block order 8 b ac, drop 64 b) else (ac, b));
          (ac, b) = (if length b \<ge> 32 then (add_block order 4 b ac, drop 32 b) else (ac, b));
          (ac, b) = (if length b \<ge> 16 then (add_block order 2 b ac, drop 16 b) else (ac, b));
          (ac, b) = (if length b \<ge> 8 then (add_block order 1 b ac, drop 8 b) else (ac, b));
          (ac, b) = (if length b \<ge> 4 then (add_value (ucast (native_word order (take 4 b) :: u32)) ac, drop 4 b) else (ac, b));
          (ac, b) = (if length b \<ge> 2 then (add_value (ucast (native_word order (take 2 b) :: u16)) ac, drop 2 b) else (ac, b));
          ac = (if length b = 1 then add_value (ucast (native_word order [b ! 0, 0] :: u16)) ac else ac)
      in be_word (native_bytes order 8 ac))"

definition fold_once :: "u64 \<Rightarrow> u64" where
  "fold_once ac = drop_bit 16 ac + (ac AND 0xffff)"

definition checksum :: "byte_order \<Rightarrow> bytes \<Rightarrow> u64 \<Rightarrow> u16" where
  "checksum order b initial =
     (let ac = checksumNoFold order b initial;
          ac = fold_once ac; ac = fold_once ac; ac = fold_once ac; ac = fold_once ac
      in ucast ac)"

definition pseudoHeaderChecksumNoFold :: "byte_order \<Rightarrow> u8 \<Rightarrow> bytes \<Rightarrow> bytes \<Rightarrow> u16 \<Rightarrow> u64" where
  "pseudoHeaderChecksumNoFold order protocol srcAddr dstAddr totalLen =
     (let sum = checksumNoFold order srcAddr 0;
          sum = checksumNoFold order dstAddr sum;
          sum = checksumNoFold order [0, protocol] sum
      in checksumNoFold order (be_bytes 2 totalLen) sum)"

section \<open>The sum of RFC 1071\<close>

text \<open>The sum of the big-endian 16-bit words of a byte string, the last byte padded with zero.\<close>

fun word_sum :: "bytes \<Rightarrow> nat" where
  "word_sum [] = 0"
| "word_sum [x] = 256 * unat x"
| "word_sum (x # y # bs) = 256 * unat x + unat y + word_sum bs"

text \<open>Folding a sum to 16 bits with end-around carry: the representative from 1 to 65535 of its class, 0 only for 0.\<close>

definition fold16 :: "nat \<Rightarrow> nat" where
  "fold16 t = (if t = 0 then 0 else (t - 1) mod 65535 + 1)"

lemma word_sum_append: "even (length xs) \<Longrightarrow> word_sum (xs @ ys) = word_sum xs + word_sum ys"
  by (induction xs rule: word_sum.induct) auto

fun le_val :: "bytes \<Rightarrow> nat" where
  "le_val [] = 0"
| "le_val (b # bs) = unat b + 256 * le_val bs"

lemma le_val_less: "le_val bs < 2 ^ (8 * length bs)"
proof (induction bs)
  case (Cons b bs)
  have "unat b < 256" using unat_less_exp [of b] by simp
  then show ?case using Cons by (simp add: power_add)
qed simp

lemma unat_le_word: "8 * length bs \<le> LENGTH('a) \<Longrightarrow> unat (le_word bs :: 'a::len word) = le_val bs"
proof (induction bs)
  case (Cons b bs)
  have b: "unat b < 2 ^ 8" using unat_less_exp [of b] by simp
  have l: "LENGTH('a) \<ge> 8" and ih: "unat (le_word bs :: 'a word) = le_val bs" using Cons by auto
  have u: "unat (ucast b :: 'a word) = unat b"
    using less_le_trans [OF b power_increasing [OF l]] by (simp add: unsigned_ucast_eq take_bit_nat_eq_self)
  have "256 * le_val bs < 2 ^ LENGTH('a)"
    using le_val_less [of "b # bs"] less_le_trans [OF _ power_increasing [OF Cons.prems, of "2 :: nat"]] by fastforce
  then have p: "unat (push_bit 8 (le_word bs :: 'a word)) = push_bit 8 (le_val bs)"
    unfolding unsigned_push_bit_eq ih by (intro take_bit_nat_eq_self) (simp add: push_bit_eq_mult mult.commute)
  have "unat b + push_bit 8 (le_val bs) = unat b OR push_bit 8 (le_val bs)"
    by (rule disjunctive_add) (auto simp: bit_push_bit_iff bit_unsigned_iff dest: bit_u8_less)
  then have "unat (le_word (b # bs) :: 'a word) = unat b + push_bit 8 (le_val bs)" unfolding le_word.simps unsigned_or_eq u p by simp
  then show ?case by (simp add: push_bit_eq_mult)
qed simp


text \<open>Two bytes weigh 65536, which is 1 modulo 65535: reading a word in little-endian order multiplies its sum by 256.\<close>

lemma le_val_word_sum: "even (length bs) \<Longrightarrow> le_val bs mod 65535 = 256 * word_sum bs mod 65535"
proof (induction bs rule: word_sum.induct)
  case (3 x y bs)
  then have ih: "le_val bs mod 65535 = 256 * word_sum bs mod 65535" by simp
  have "le_val (x # y # bs) = (unat x + 256 * unat y + le_val bs) + 65535 * le_val bs" by simp
  then have "le_val (x # y # bs) mod 65535 = (unat x + 256 * unat y + le_val bs) mod 65535" by (simp only: mod_mult_self2)
  also have "\<dots> = (unat x + 256 * unat y + 256 * word_sum bs) mod 65535" by (rule mod_add_cong [OF refl ih])
  also have "\<dots> = ((unat x + 256 * unat y + 256 * word_sum bs) + 65535 * unat x) mod 65535" by (simp only: mod_mult_self2)
  finally show ?case by (simp add: algebra_simps)
qed auto

lemma le_val_append: "le_val (xs @ ys) = le_val xs + 256 ^ length xs * le_val ys"
  by (induction xs) (simp_all add: algebra_simps)

lemma be_val_word_sum: "even (length bs) \<Longrightarrow> le_val (rev bs) mod 65535 = word_sum bs mod 65535"
proof (induction bs rule: word_sum.induct)
  case (3 x y bs)
  then have ih: "le_val (rev bs) mod 65535 = word_sum bs mod 65535" and e: "even (length bs)" by simp_all
  from e obtain k where k: "length bs = 2 * k" by (elim evenE)
  have p: "65536 ^ k mod 65535 = (1 :: nat)" using power_mod [of 65536 "65535 :: nat" k] by simp
  have "(256 :: nat) ^ (2 * k) = 65536 ^ k" by (simp add: power_mult)
  then have "le_val (rev (x # y # bs)) = le_val (rev bs) + 65536 ^ k * (unat y + 256 * unat x)"
    using k by (simp add: le_val_append algebra_simps)
  also have "\<dots> mod 65535 = (word_sum bs + 1 * (unat y + 256 * unat x)) mod 65535"
    using p by (intro mod_add_cong [OF ih] mod_mult_cong refl) simp
  finally show ?case by (simp add: algebra_simps)
qed auto

lemma le_val_0: "le_val bs = 0 \<longleftrightarrow> word_sum bs = 0" "le_val (rev bs) = 0 \<longleftrightarrow> word_sum bs = 0"
proof -
  have "le_val bs = 0 \<longleftrightarrow> set bs \<subseteq> {0}" for bs by (induction bs) (auto simp: unat_eq_zero)
  moreover have "word_sum bs = 0 \<longleftrightarrow> set bs \<subseteq> {0}" by (induction bs rule: word_sum.induct) (auto simp: unat_eq_zero)
  ultimately show "le_val bs = 0 \<longleftrightarrow> word_sum bs = 0" "le_val (rev bs) = 0 \<longleftrightarrow> word_sum bs = 0" by simp_all
qed

section \<open>The accumulator\<close>

text \<open>\<open>scale order\<close> is what reading in native order multiplies a sum by. A number represents a sum \<open>t\<close> when it is congruent to
  the scaled sum and is zero only for it; the accumulator and its carry together are such a number below \<open>2 ^ 64\<close>.\<close>

definition scale :: "byte_order \<Rightarrow> nat" where
  "scale order = (case order of LittleEndian \<Rightarrow> 256 | BigEndian \<Rightarrow> 1)"

definition represents :: "byte_order \<Rightarrow> nat \<Rightarrow> nat \<Rightarrow> bool" where
  "represents order a t \<longleftrightarrow> a mod 65535 = scale order * t mod 65535 \<and> (a = 0 \<longleftrightarrow> t = 0)"

lemma represents_native:
  assumes "even (length bs)" "8 * length bs \<le> LENGTH('a)"
  shows "represents order (unat (native_word order bs :: 'a::len word)) (word_sum bs)"
  using assms le_val_word_sum [of bs] be_val_word_sum [of bs] le_val_0 [of bs]
  by (cases order) (simp_all add: represents_def native_word_def scale_def unat_le_word be_word_def)

lemma represents_add:
  assumes "represents order a s" "represents order b t"
  shows "represents order (a + b) (s + t)"
  using assms mod_add_cong [of a 65535 "scale order * s" b "scale order * t"] by (auto simp: represents_def algebra_simps)

lemma represents_carry:
  assumes "represents order a t" "2 ^ 64 \<le> a"
  shows "represents order (a - (2 ^ 64 - 1)) t"
proof -
  obtain d where d: "a = d + 65535 * 281479271743489" using assms(2) le_Suc_ex [of "65535 * 281479271743489" a] by (auto simp: add.commute)
  then have "(a - (2 ^ 64 - 1)) = d" by simp
  moreover have "d mod 65535 = a mod 65535" unfolding d by (simp only: mod_mult_self2)
  ultimately show ?thesis using assms by (auto simp: represents_def)
qed

text \<open>One addition with carry: the carry is never lost, because the accumulator is not full when there is one.\<close>

definition acc_ok :: "byte_order \<Rightarrow> u64 \<Rightarrow> u64 \<Rightarrow> nat \<Rightarrow> bool" where
  "acc_ok order ac carry t \<longleftrightarrow> unat carry \<le> 1 \<and> unat ac + unat carry < 2 ^ 64 \<and> represents order (unat ac + unat carry) t"

lemma Add64_ok:
  assumes "acc_ok order ac carry s" "represents order (unat w) t" "Add64 ac w carry = (ac', carry')"
  shows "acc_ok order ac' carry' (s + t)"
proof -
  let ?n = "unat ac + unat w + unat carry"
  have w: "unat w < 2 ^ 64" and n: "unat ac + unat carry < 2 ^ 64" using unat_less_exp [of w] assms(1) by (simp_all add: acc_ok_def)
  have "represents order (unat ac + unat carry + unat w) (s + t)" using assms(1,2) by (intro represents_add) (auto simp: acc_ok_def)
  then have r: "represents order ?n (s + t)" by (simp only: add.assoc add.commute [of "unat w"])
  have s: "ac' = ac + w + carry" "carry' = (if ?n \<ge> 2 ^ 64 then 1 else 0)" using assms(3) unfolding Add64_def prod.inject by simp_all
  have "unat ac' = ?n mod 2 ^ 64" unfolding s(1) unat_word_ariths by (simp only: mod_add_left_eq len_num0 len_num1 len_bit0 len_bit1 mult_2 mod_simps) simp
  moreover have "?n mod 2 ^ 64 = (if ?n \<ge> 2 ^ 64 then ?n - 2 ^ 64 else ?n)" using w n by (simp add: le_mod_geq)
  ultimately have "unat ac' + unat carry' = (if ?n \<ge> 2 ^ 64 then ?n - (2 ^ 64 - 1) else ?n)"
    using s(2) Suc_diff_le [of "2 ^ 64" ?n] by (simp split: if_splits)
  moreover have "?n - (2 ^ 64 - 1) < 2 ^ 64" using w n by linarith
  ultimately show ?thesis using r represents_carry [OF r] s(2) by (simp add: acc_ok_def)
qed

lemma acc_ok_start: "represents order (unat ac) t \<Longrightarrow> acc_ok order ac 0 t"
  using unat_less_exp [of ac] by (simp add: acc_ok_def)

lemma acc_ok_final: "acc_ok order ac carry t \<Longrightarrow> represents order (unat (ac + carry)) t"
  by (simp add: acc_ok_def unat_word_ariths)

lemma add_value_ok:
  assumes "represents order (unat ac) s" "represents order (unat w) t"
  shows "represents order (unat (add_value w ac)) (s + t)"
  using Add64_ok [OF acc_ok_start [OF assms(1)] assms(2)] acc_ok_final by (simp add: add_value_def split: prod.split)

lemma add_words_ok:
  assumes "8 * n \<le> length b" "acc_ok order ac carry s" "add_words order n b ac carry = (ac', carry')"
  shows "acc_ok order ac' carry' (s + word_sum (take (8 * n) b))"
  using assms
proof (induction n arbitrary: b ac carry s)
  case (Suc n)
  obtain a c where a: "Add64 ac (native_word order (take 8 b)) carry = (a, c)" by fastforce
  have "represents order (unat (native_word order (take 8 b) :: u64)) (word_sum (take 8 b))"
    using Suc.prems(1) by (intro represents_native) simp_all
  from Add64_ok [OF Suc.prems(2) this a] Suc.prems(1,3) a
  have "acc_ok order ac' carry' (s + word_sum (take 8 b) + word_sum (take (8 * n) (drop 8 b)))"
    by (intro Suc.IH [of "drop 8 b" a c]) simp_all
  moreover have "take (8 * Suc n) b = take 8 b @ take (8 * n) (drop 8 b)" by (simp add: take_add)
  ultimately show ?case using Suc.prems(1) by (simp add: word_sum_append add.assoc)
qed simp

lemma add_block_ok:
  assumes "8 * n \<le> length b" "represents order (unat ac) s"
  shows "represents order (unat (add_block order n b ac)) (s + word_sum (take (8 * n) b))"
  using add_words_ok [OF assms(1) acc_ok_start [OF assms(2)]] acc_ok_final by (simp add: add_block_def split: prod.split)

lemma sum_128_ok:
  assumes "represents order (unat ac) s" "sum_128 order ac b = (ac', b')"
  shows "(\<exists>t. represents order (unat ac') t \<and> t + word_sum b' = s + word_sum b) \<and> length b' < 128"
  using assms
proof (induction order ac b arbitrary: s rule: sum_128.induct)
  case (1 order ac b)
  show ?case
  proof (cases "length b \<ge> 128")
    case True
    have "represents order (unat (add_block order 16 b ac)) (s + word_sum (take 128 b))" using add_block_ok [OF _ 1(2), of 16 b] True by simp
    from 1(1) [OF True this] 1(3) True obtain t where "represents order (unat ac') t" "t + word_sum b' = s + word_sum (take 128 b) + word_sum (drop 128 b)" "length b' < 128"
      by (auto simp: sum_128.simps [of order ac b])
    then show ?thesis using word_sum_append [of "take 128 b" "drop 128 b"] True by (auto simp: add.assoc)
  next
    case False
    then show ?thesis using 1(2,3) by (auto simp: sum_128.simps [of order ac b])
  qed
qed

text \<open>A step of the tail: a prefix of even length is added when the string is long enough, which halves the bound of its length.\<close>

definition tail_ok :: "byte_order \<Rightarrow> nat \<Rightarrow> nat \<Rightarrow> u64 \<times> bytes \<Rightarrow> bool" where
  "tail_ok order t m ab \<longleftrightarrow> (\<exists>s. represents order (unat (fst ab)) s \<and> s + word_sum (snd ab) = t) \<and> length (snd ab) < m"

lemma tail_okI:
  assumes "tail_ok order t m (ac, b)" "m = 2 * k" "even k" "(if length b \<ge> k then (ac', drop k b) else (ac, b)) = r"
    and "\<And>s. represents order (unat ac) s \<Longrightarrow> k \<le> length b \<Longrightarrow> represents order (unat ac') (s + word_sum (take k b))"
  shows "tail_ok order t k r"
proof (cases "length b \<ge> k")
  case True
  then have "word_sum b = word_sum (take k b) + word_sum (drop k b)" using word_sum_append [of "take k b" "drop k b"] assms(3) by (simp add: min_absorb2)
  moreover have "length b - k < k" using True assms(1,2) unfolding tail_ok_def by auto
  ultimately show ?thesis using True assms(1,4,5) by (auto simp: tail_ok_def add.assoc)
qed (use assms in \<open>auto simp: tail_ok_def\<close>)

lemma tail_ok_block:
  assumes "tail_ok order t m (ac, b)" "m = 2 * k" "k = 8 * n" "(if length b \<ge> k then (add_block order n b ac, drop k b) else (ac, b)) = r"
  shows "tail_ok order t k r"
  by (rule tail_okI [OF assms(1,2) _ assms(4)]) (auto simp: assms(3) intro: add_block_ok)

lemma represents_ucast_native:
  assumes "even (length bs)" "8 * length bs = LENGTH('a)" "LENGTH('a) \<le> 64"
  shows "represents order (unat (ucast (native_word order bs :: 'a::len word) :: u64)) (word_sum bs)"
proof -
  have "unat (native_word order bs :: 'a word) < 2 ^ 64" using less_le_trans [OF unat_less_exp power_increasing [OF assms(3)]] by simp
  then show ?thesis using represents_native [of bs order, where 'a = 'a] assms by (simp add: unsigned_ucast_eq take_bit_nat_eq_self)
qed

lemma mod_256_cancel: "256 * s mod 65535 = 256 * t mod 65535 \<longleftrightarrow> s mod 65535 = (t :: nat) mod 65535"
proof
  assume "256 * s mod 65535 = 256 * t mod 65535"
  then have "256 * (256 * s) mod 65535 = 256 * (256 * t) mod 65535" by (rule mod_mult_cong [OF refl])
  moreover have "256 * (256 * x) mod 65535 = x mod 65535" for x :: nat
  proof -
    have "256 * (256 * x) = x + 65535 * x" by simp
    then show ?thesis by (simp only: mod_mult_self2)
  qed
  ultimately show "s mod 65535 = t mod 65535" by simp
qed (rule mod_mult_cong [OF refl])

lemma tail_ok_value:
  assumes "tail_ok order t m (ac, b)" "m = 2 * k" "8 * k = LENGTH('a)" "k \<in> {2, 4}"
    and "(if length b \<ge> k then (add_value (ucast (native_word order (take k b) :: 'a::len word)) ac, drop k b) else (ac, b)) = r"
  shows "tail_ok order t k r"
proof (rule tail_okI [OF assms(1,2) _ assms(5)])
  fix s assume "represents order (unat ac) s" "k \<le> length b"
  then show "represents order (unat (add_value (ucast (native_word order (take k b) :: 'a word)) ac)) (s + word_sum (take k b))"
    using assms(3,4) by (intro add_value_ok represents_ucast_native) (auto simp: min_absorb2)
qed (use assms(4) in auto)

lemma represents_swap: "represents BigEndian (unat (be_word (native_bytes order 8 ac) :: u64)) t \<longleftrightarrow> represents order (unat (ac :: u64)) t"
proof (cases order)
  case LittleEndian
  let ?b = "le_bytes 8 ac"
  have "unat ac = le_val ?b" using unat_le_word [of ?b, where 'a = 64] by (simp add: le_word_le_bytes)
  moreover have "unat (be_word ?b :: u64) = le_val (rev ?b)" by (simp add: be_word_def unat_le_word)
  ultimately show ?thesis
    using le_val_word_sum [of ?b] be_val_word_sum [of ?b] le_val_0 [of ?b] mod_256_cancel [of "word_sum ?b" t] LittleEndian
    by (simp add: represents_def scale_def native_bytes_def)
qed (simp add: native_bytes_def be_word_be_bytes)

text \<open>The whole sum before folding.\<close>

lemma swap_swap: "be_word (native_bytes order 8 (be_word (native_bytes order 8 (w :: u64)) :: u64)) = w"
proof (cases order)
  case LittleEndian
  have "le_bytes 8 (be_word (le_bytes 8 w) :: u64) = rev (le_bytes 8 w)"
    using le_bytes_le_word [of "rev (le_bytes 8 w)", where 'a = 64] by (simp add: be_word_def)
  then have "be_word (le_bytes 8 (be_word (le_bytes 8 w) :: u64)) = (le_word (le_bytes 8 w) :: u64)" by (simp only: be_word_def rev_rev_ident)
  then show ?thesis using LittleEndian by (simp add: native_bytes_def le_word_le_bytes)
qed (simp add: native_bytes_def be_word_be_bytes)

lemma checksumNoFold_represents:
  assumes "represents BigEndian (unat initial) t"
  shows "represents BigEndian (unat (checksumNoFold order b initial)) (t + word_sum b)"
proof -
  let ?T = "t + word_sum b" and ?a0 = "be_word (native_bytes order 8 initial) :: u64"
  have r0: "represents order (unat ?a0) t" using assms represents_swap [of order ?a0 t] by (simp add: swap_swap)
  obtain a1 b1 where 1: "sum_128 order ?a0 b = (a1, b1)" by fastforce
  have t1: "tail_ok order ?T 128 (a1, b1)" using sum_128_ok [OF r0 1] by (auto simp: tail_ok_def)
  obtain a2 b2 where 2: "(if length b1 \<ge> 64 then (add_block order 8 b1 a1, drop 64 b1) else (a1, b1)) = (a2, b2)" by fastforce
  obtain a3 b3 where 3: "(if length b2 \<ge> 32 then (add_block order 4 b2 a2, drop 32 b2) else (a2, b2)) = (a3, b3)" by fastforce
  obtain a4 b4 where 4: "(if length b3 \<ge> 16 then (add_block order 2 b3 a3, drop 16 b3) else (a3, b3)) = (a4, b4)" by fastforce
  obtain a5 b5 where 5: "(if length b4 \<ge> 8 then (add_block order 1 b4 a4, drop 8 b4) else (a4, b4)) = (a5, b5)" by fastforce
  obtain a6 b6 where 6: "(if length b5 \<ge> 4 then (add_value (ucast (native_word order (take 4 b5) :: u32)) a5, drop 4 b5) else (a5, b5)) = (a6, b6)" by fastforce
  obtain a7 b7 where 7: "(if length b6 \<ge> 2 then (add_value (ucast (native_word order (take 2 b6) :: u16)) a6, drop 2 b6) else (a6, b6)) = (a7, b7)" by fastforce
  have "tail_ok order ?T 64 (a2, b2)" by (rule tail_ok_block [OF t1 _ _ 2]) simp_all
  then have "tail_ok order ?T 32 (a3, b3)" by (rule tail_ok_block [OF _ _ _ 3]) simp_all
  then have "tail_ok order ?T 16 (a4, b4)" by (rule tail_ok_block [OF _ _ _ 4]) simp_all
  then have "tail_ok order ?T 8 (a5, b5)" by (rule tail_ok_block [OF _ _ _ 5]) simp_all
  then have "tail_ok order ?T 4 (a6, b6)" by (rule tail_ok_value [OF _ _ _ _ 6]) simp_all
  then have "tail_ok order ?T 2 (a7, b7)" by (rule tail_ok_value [OF _ _ _ _ 7]) simp_all
  then obtain s where s: "represents order (unat a7) s" "s + word_sum b7 = ?T" "length b7 < 2" by (auto simp: tail_ok_def)
  let ?a8 = "if length b7 = 1 then add_value (ucast (native_word order [b7 ! 0, 0] :: u16)) a7 else a7"
  have "represents order (unat ?a8) ?T"
  proof (cases "length b7 = 1")
    case True
    then obtain x where x: "b7 = [x]" by (auto simp: length_Suc_conv)
    have "represents order (unat (ucast (native_word order [x, 0] :: u16) :: u64)) (word_sum [x, 0])" by (intro represents_ucast_native) simp_all
    from add_value_ok [OF s(1) this] show ?thesis using s(2) x by simp
  next
    case False
    then have "b7 = []" using s(3) by (cases b7) auto
    then show ?thesis using s by simp
  qed
  moreover have "checksumNoFold order b initial = be_word (native_bytes order 8 ?a8)"
    unfolding checksumNoFold_def Let_def 1 prod.case 2 3 4 5 6 7 ..
  ultimately show ?thesis using represents_swap [of order ?a8 ?T] by simp
qed

section \<open>Folding\<close>

lemma unat_fold_once: "unat (fold_once ac) = unat ac div 65536 + unat ac mod 65536"
proof -
  have m: "unat (ac AND 0xffff) = unat ac mod 65536" using unat_and_mask [of ac 16] by (simp add: mask_eq_exp_minus_1)
  have d: "unat (drop_bit 16 ac) = unat ac div 65536" by (simp add: unat_drop_bit)
  have "unat ac < 2 ^ 64" using unat_less_exp [of ac] by simp
  then have "unat ac div 65536 < 2 ^ 48" by (simp add: less_mult_imp_div_less)
  moreover have "unat ac mod 65536 < 65536" by simp
  ultimately have "unat ac div 65536 + unat ac mod 65536 < 2 ^ 48 + 65536" by (rule add_strict_mono)
  then have "unat ac div 65536 + unat ac mod 65536 < 2 ^ 64" by simp
  then show ?thesis unfolding fold_once_def unat_word_ariths m d by simp
qed

lemma fold_once_represents:
  assumes "represents BigEndian (unat ac) t"
  shows "represents BigEndian (unat (fold_once ac)) t"
proof -
  have "unat ac = unat (fold_once ac) + 65535 * (unat ac div 65536)" using unat_fold_once [of ac] div_mult_mod_eq [of "unat ac" 65536] by linarith
  then have "unat ac mod 65535 = unat (fold_once ac) mod 65535" by (metis mod_mult_self2)
  moreover have "unat (fold_once ac) = 0 \<longleftrightarrow> unat ac = 0" using unat_fold_once [of ac] div_mult_mod_eq [of "unat ac" 65536] by auto
  ultimately show ?thesis using assms by (simp add: represents_def)
qed

lemma fold_bound:
  assumes "unat ac \<le> 65536 * k + 65534"
  shows "unat (fold_once ac) \<le> k + 65534"
proof (cases "unat ac div 65536 < k")
  case True
  have "unat ac mod 65536 \<le> 65535" using mod_less_divisor [of 65536 "unat ac"] by linarith
  then show ?thesis using True unfolding unat_fold_once by linarith
next
  case False
  then have "65536 * k \<le> 65536 * (unat ac div 65536)" by simp
  then have "65536 * (unat ac div 65536) + unat ac mod 65536 \<le> 65536 * k + 65534" "unat ac div 65536 \<le> k" using assms by simp_all
  then show ?thesis unfolding unat_fold_once using \<open>65536 * k \<le> 65536 * (unat ac div 65536)\<close> by linarith
qed

lemma fold16_unique:
  assumes "represents BigEndian v t" "v \<le> 65535"
  shows "v = fold16 t"
proof (cases "t = 0")
  case False
  then have v: "0 < v" "v mod 65535 = t mod 65535" using assms by (auto simp: represents_def scale_def)
  have p: "(x + 65534) mod 65535 = (x - 1) mod 65535" if "0 < x" for x :: nat
    using that mod_add_self2 [of "x - 1" 65535] by (simp add: add.commute)
  have "(v - 1) mod 65535 = (t - 1) mod 65535"
    using p [OF v(1)] p [of t] False mod_add_cong [OF v(2) refl, of 65534] by simp
  then show ?thesis using v(1) assms(2) False by (simp add: fold16_def)
qed (use assms in \<open>simp add: represents_def fold16_def\<close>)

lemma checksum_fold16:
  assumes "represents BigEndian (unat initial) t"
  shows "unat (checksum order b initial) = fold16 (t + word_sum b)"
proof -
  define a where "a = checksumNoFold order b initial"
  let ?f = "fold_once (fold_once (fold_once (fold_once a)))"
  have r: "represents BigEndian (unat ?f) (t + word_sum b)"
    unfolding a_def by (intro fold_once_represents checksumNoFold_represents assms)
  have "unat a \<le> 65536 * 2 ^ 48 + 65534" using unat_less_exp [of a] by simp
  then have "unat (fold_once a) \<le> 65536 * 2 ^ 32 + 65534" using fold_bound by fastforce
  then have "unat (fold_once (fold_once a)) \<le> 65536 * 65536 + 65534" using fold_bound by fastforce
  then have "unat (fold_once (fold_once (fold_once a))) \<le> 65536 * 1 + 65534" using fold_bound by fastforce
  then have b: "unat ?f \<le> 65535" using fold_bound by fastforce
  have "unat (checksum order b initial) = unat ?f" using b by (simp add: checksum_def Let_def a_def unsigned_ucast_eq take_bit_nat_eq_self)
  then show ?thesis using fold16_unique [OF r b] by simp
qed

lemma represents_unat: "represents BigEndian (unat w) (unat w)"
  by (simp add: represents_def scale_def)

lemma pseudoHeader_represents:
  "represents BigEndian (unat (pseudoHeaderChecksumNoFold order protocol src dst len)) (word_sum src + word_sum dst + unat protocol + unat len)"
proof -
  have l: "word_sum (be_bytes 2 len) = unat len"
  proof -
    have d: "unat (ucast (drop_bit 8 len) :: u8) = unat len div 256" "unat (ucast len :: u8) = unat len mod 256"
      using unat_less_exp [of len] by (simp_all add: unsigned_ucast_eq unat_drop_bit take_bit_eq_mod)
    have "be_bytes 2 len = [ucast (drop_bit 8 len), ucast len]" by (simp add: be_bytes_def le_bytes_def upt_rec)
    then show ?thesis by (simp add: d)
  qed
  have "represents BigEndian (unat (0 :: u64)) 0" by (simp add: represents_def)
  note s1 = checksumNoFold_represents [OF this, of order src]
  note s2 = checksumNoFold_represents [OF s1, of order dst]
  note s3 = checksumNoFold_represents [OF s2, of order "[0, protocol]"]
  from checksumNoFold_represents [OF s3, of order "be_bytes 2 len"]
  show ?thesis by (simp add: pseudoHeaderChecksumNoFold_def Let_def l)
qed

section \<open>Property\<close>

text \<open>C32. The checksum of the offloads is that of RFC 1071: on machines of either byte order, for every byte string and
  initial value, the unrolled 64-bit sum with end-around carry, byte swap and four folds gives the one's complement sum
  of the initial value and the big-endian 16-bit words, an odd last byte padded with zero.\<close>

theorem checksum_is_rfc1071: "unat (checksum order b initial) = fold16 (unat initial + word_sum b)"
  by (rule checksum_fold16) (rule represents_unat)

end
