(* ===== verification/Virtio.thy ===== *)
theory Virtio
  imports Checksum "HOL-Library.Monad_Syntax"
begin

unbundle bit_operations_syntax

text \<open>
  Segmentation of large packets read from the TUN device: the virtio header, \<open>gsoSplit\<close> and \<open>gsoNoneChecksum\<close> of
  \<^verbatim>\<open>src/tun/offload_linux.go\<close> and \<open>handleVirtioRead\<close> of \<^verbatim>\<open>src/tun/tun_linux.go\<close>. \<open>None\<close> is a panic: an index or slice out of
  range. A slice is the bytes it shows; slicing past its length, which Go allows up to the capacity, is a panic here,
  and the theorems show that it does not happen. \<open>order\<close> is the byte order of the machine.
\<close>

section \<open>Slices with bounds checks\<close>

definition idx :: "nat \<Rightarrow> 'a list \<Rightarrow> 'a option" where
  "idx i xs = (if i < length xs then Some (xs ! i) else None)"

definition store :: "nat \<Rightarrow> 'a \<Rightarrow> 'a list \<Rightarrow> 'a list option" where
  "store i v xs = (if i < length xs then Some (xs[i := v]) else None)"

definition slice_at :: "nat \<Rightarrow> nat \<Rightarrow> 'a list \<Rightarrow> 'a list option" where
  "slice_at i j xs = (if i \<le> j \<and> j \<le> length xs then Some (go_slice i j xs) else None)"

definition slice_from :: "nat \<Rightarrow> 'a list \<Rightarrow> 'a list option" where
  "slice_from i xs = (if i \<le> length xs then Some (drop i xs) else None)"

text \<open>\<open>copy(xs[i:], ys)\<close>, and the functions of \<open>binary.BigEndian\<close> on \<open>xs[i:]\<close>.\<close>

definition copy_at :: "nat \<Rightarrow> 'a list \<Rightarrow> 'a list \<Rightarrow> 'a list option" where
  "copy_at i ys xs = (if i \<le> length xs then Some (put_at i ys xs) else None)"

definition Uint16_at :: "nat \<Rightarrow> bytes \<Rightarrow> u16 option" where
  "Uint16_at i xs = (if i + 2 \<le> length xs then Some (be_word (go_slice i (i + 2) xs)) else None)"

definition Uint32_at :: "nat \<Rightarrow> bytes \<Rightarrow> u32 option" where
  "Uint32_at i xs = (if i + 4 \<le> length xs then Some (be_word (go_slice i (i + 4) xs)) else None)"

definition PutUint16_at :: "nat \<Rightarrow> u16 \<Rightarrow> bytes \<Rightarrow> bytes option" where
  "PutUint16_at i v xs = (if i + 2 \<le> length xs then Some (put_at i (be_bytes 2 v) xs) else None)"

definition PutUint32_at :: "nat \<Rightarrow> u32 \<Rightarrow> bytes \<Rightarrow> bytes option" where
  "PutUint32_at i v xs = (if i + 4 \<le> length xs then Some (put_at i (be_bytes 4 v) xs) else None)"

section \<open>Constants and the virtio header\<close>

definition tcpFlagsOffset :: nat where "tcpFlagsOffset = 13"
definition tcpFlagFIN :: u8 where "tcpFlagFIN = 0x01"
definition tcpFlagPSH :: u8 where "tcpFlagPSH = 0x08"
definition tcpFlagACK :: u8 where "tcpFlagACK = 0x10"
definition ipv4SrcAddrOffset :: nat where "ipv4SrcAddrOffset = 12"
definition ipv6SrcAddrOffset :: nat where "ipv6SrcAddrOffset = 8"

text \<open>Numbers of the Linux interface.\<close>

definition IPPROTO_TCP :: u8 where "IPPROTO_TCP = 6"
definition IPPROTO_UDP :: u8 where "IPPROTO_UDP = 17"
definition VIRTIO_NET_HDR_F_NEEDS_CSUM :: u8 where "VIRTIO_NET_HDR_F_NEEDS_CSUM = 1"
definition VIRTIO_NET_HDR_GSO_NONE :: u8 where "VIRTIO_NET_HDR_GSO_NONE = 0"
definition VIRTIO_NET_HDR_GSO_TCPV4 :: u8 where "VIRTIO_NET_HDR_GSO_TCPV4 = 1"
definition VIRTIO_NET_HDR_GSO_TCPV6 :: u8 where "VIRTIO_NET_HDR_GSO_TCPV6 = 4"
definition VIRTIO_NET_HDR_GSO_UDP_L4 :: u8 where "VIRTIO_NET_HDR_GSO_UDP_L4 = 5"

lemmas virtio_defs = tcpFlagsOffset_def tcpFlagFIN_def tcpFlagPSH_def tcpFlagACK_def ipv4SrcAddrOffset_def ipv6SrcAddrOffset_def
  IPPROTO_TCP_def IPPROTO_UDP_def VIRTIO_NET_HDR_F_NEEDS_CSUM_def VIRTIO_NET_HDR_GSO_NONE_def VIRTIO_NET_HDR_GSO_TCPV4_def
  VIRTIO_NET_HDR_GSO_TCPV6_def VIRTIO_NET_HDR_GSO_UDP_L4_def

record virtioNetHdr =
  vh_flags :: u8
  vh_gsoType :: u8
  vh_hdrLen :: u16
  vh_gsoSize :: u16
  vh_csumStart :: u16
  vh_csumOffset :: u16

definition virtioNetHdrLen :: nat where "virtioNetHdrLen = 10"

datatype offload_error =
  ErrShortBuffer | ErrTooManySegments | ErrReadOverflow nat nat | ErrGSOType u8 | ErrVersionGSOType u8 u8 | ErrIPVersion u8
  | ErrPacketTooShort | ErrTCPHeaderLen nat | ErrHdrLen nat nat | ErrHdrBeforeCsum nat nat | ErrCsumOffset nat nat | ErrInvalidOffset

definition hdr_decode :: "byte_order \<Rightarrow> bytes \<Rightarrow> offload_error + virtioNetHdr" where
  "hdr_decode order b =
     (if length b < virtioNetHdrLen then Inl ErrShortBuffer
      else Inr \<lparr>vh_flags = b ! 0, vh_gsoType = b ! 1, vh_hdrLen = native_word order (go_slice 2 4 b), vh_gsoSize = native_word order (go_slice 4 6 b),
        vh_csumStart = native_word order (go_slice 6 8 b), vh_csumOffset = native_word order (go_slice 8 10 b)\<rparr>)"

definition hdr_encode :: "byte_order \<Rightarrow> virtioNetHdr \<Rightarrow> bytes \<Rightarrow> offload_error + bytes" where
  "hdr_encode order v b =
     (if length b < virtioNetHdrLen then Inl ErrShortBuffer
      else Inr (put_at 0 ([vh_flags v, vh_gsoType v] @ native_bytes order 2 (vh_hdrLen v) @ native_bytes order 2 (vh_gsoSize v)
        @ native_bytes order 2 (vh_csumStart v) @ native_bytes order 2 (vh_csumOffset v)) b))"

section \<open>Splitting\<close>

text \<open>The protocol and the offsets of the addresses.\<close>

definition is_tcp_gso :: "virtioNetHdr \<Rightarrow> bool" where
  "is_tcp_gso hdr \<longleftrightarrow> vh_gsoType hdr = VIRTIO_NET_HDR_GSO_TCPV4 \<or> vh_gsoType hdr = VIRTIO_NET_HDR_GSO_TCPV6"

definition addr_offset :: "bool \<Rightarrow> nat" where
  "addr_offset isV6 = (if isV6 then ipv6SrcAddrOffset else ipv4SrcAddrOffset)"

definition addr_size :: "bool \<Rightarrow> nat" where
  "addr_size isV6 = (if isV6 then 16 else 4)"

text \<open>The IP header of segment \<open>i\<close>.\<close>

definition gso_ip_header :: "byte_order \<Rightarrow> bytes \<Rightarrow> nat \<Rightarrow> bool \<Rightarrow> nat \<Rightarrow> nat \<Rightarrow> bytes \<Rightarrow> bytes option" where
  "gso_ip_header order inp iphLen isV6 i totalLen out =
     do {
       h \<leftarrow> slice_at 0 iphLen inp;
       let out = put_at 0 h out;
       if \<not> isV6 then do {
         out \<leftarrow> (if i > 0 then do {
                    v \<leftarrow> Uint16_at 4 out;
                    PutUint16_at 4 (v + of_nat i) out
                  } else Some out);
         out \<leftarrow> PutUint16_at 2 (of_nat totalLen) out;
         h \<leftarrow> slice_at 0 iphLen out;
         PutUint16_at 10 (NOT (checksum order h 0)) out
       }
       else PutUint16_at 4 (of_int (int totalLen - int iphLen)) out
     }"

text \<open>The transport header of segment \<open>i\<close> with \<open>dataLen\<close> bytes of data; \<open>isLast\<close>: it reaches the end of the packet.\<close>

definition gso_transport_header ::
  "bytes \<Rightarrow> virtioNetHdr \<Rightarrow> u8 \<Rightarrow> u32 \<Rightarrow> nat \<Rightarrow> nat \<Rightarrow> bool \<Rightarrow> bytes \<Rightarrow> bytes option" where
  "gso_transport_header inp hdr protocol firstTCPSeqNum i dataLen isLast out =
     do {
       th \<leftarrow> slice_at (unat (vh_csumStart hdr)) (unat (vh_hdrLen hdr)) inp;
       _ \<leftarrow> slice_at (unat (vh_csumStart hdr)) (unat (vh_hdrLen hdr)) out;
       let out = put_at (unat (vh_csumStart hdr)) th out;
       if protocol = IPPROTO_TCP then do {
         out \<leftarrow> PutUint32_at (unat (vh_csumStart hdr + 4)) (firstTCPSeqNum + ucast (vh_gsoSize hdr * of_nat i)) out;
         if \<not> isLast then do {
           flags \<leftarrow> idx (unat (vh_csumStart hdr + of_nat tcpFlagsOffset)) out;
           store (unat (vh_csumStart hdr + of_nat tcpFlagsOffset)) (flags AND NOT (tcpFlagFIN OR tcpFlagPSH)) out
         }
         else Some out
       }
       else PutUint16_at (unat (vh_csumStart hdr + 4)) (of_nat dataLen + (vh_hdrLen hdr - vh_csumStart hdr)) out
     }"

definition gso_checksum :: "byte_order \<Rightarrow> bytes \<Rightarrow> virtioNetHdr \<Rightarrow> bool \<Rightarrow> u8 \<Rightarrow> nat \<Rightarrow> nat \<Rightarrow> bytes \<Rightarrow> bytes option" where
  "gso_checksum order inp hdr isV6 protocol dataLen totalLen out =
     do {
       let transportHeaderLen = unat (vh_hdrLen hdr - vh_csumStart hdr);
       let at = addr_offset isV6;
       src \<leftarrow> slice_at at (at + addr_size isV6) inp;
       dst \<leftarrow> slice_at (at + addr_size isV6) (at + addr_size isV6 * 2) inp;
       let transportCSumNoFold = pseudoHeaderChecksumNoFold order protocol src dst (of_nat (transportHeaderLen + dataLen));
       t \<leftarrow> slice_at (unat (vh_csumStart hdr)) totalLen out;
       PutUint16_at (unat (vh_csumStart hdr + vh_csumOffset hdr)) (NOT (checksum order t transportCSumNoFold)) out
     }"

definition gso_segment ::
  "byte_order \<Rightarrow> bytes \<Rightarrow> virtioNetHdr \<Rightarrow> bool \<Rightarrow> u8 \<Rightarrow> u32 \<Rightarrow> nat \<Rightarrow> nat \<Rightarrow> bytes \<Rightarrow> (bytes \<times> nat) option" where
  "gso_segment order inp hdr isV6 protocol firstTCPSeqNum i nextSegmentDataAt out =
     (let nextSegmentEnd = min (nextSegmentDataAt + unat (vh_gsoSize hdr)) (length inp);
          segmentDataLen = nextSegmentEnd - nextSegmentDataAt;
          totalLen = unat (vh_hdrLen hdr) + segmentDataLen
      in do {
        out \<leftarrow> gso_ip_header order inp (unat (vh_csumStart hdr)) isV6 i totalLen out;
        out \<leftarrow> gso_transport_header inp hdr protocol firstTCPSeqNum i segmentDataLen (nextSegmentEnd = length inp) out;
        payload \<leftarrow> slice_at nextSegmentDataAt nextSegmentEnd inp;
        out \<leftarrow> copy_at (unat (vh_hdrLen hdr)) payload out;
        out \<leftarrow> gso_checksum order inp hdr isV6 protocol segmentDataLen totalLen out;
        Some (out, totalLen)
      })"

text \<open>The loop; the buffers and sizes it has filled, the number it returns and its error.\<close>

function gso_loop ::
  "byte_order \<Rightarrow> bytes \<Rightarrow> virtioNetHdr \<Rightarrow> bool \<Rightarrow> u8 \<Rightarrow> u32 \<Rightarrow> nat \<Rightarrow> nat \<Rightarrow> nat \<Rightarrow> bytes list \<Rightarrow> nat list
     \<Rightarrow> ((int \<times> offload_error option) \<times> bytes list \<times> nat list) option" where
  "gso_loop order inp hdr isV6 protocol firstTCPSeqNum outOffset i nextSegmentDataAt outBuffs sizes =
     (if \<not> nextSegmentDataAt < length inp then Some ((int i, None), outBuffs, sizes)
      else if i = length outBuffs then Some ((int i - 1, Some ErrTooManySegments), outBuffs, sizes)
      else if i \<ge> length outBuffs \<or> i \<ge> length sizes then None
      else case slice_from outOffset (outBuffs ! i) of
             None \<Rightarrow> None
           | Some out \<Rightarrow>
               (case gso_segment order inp hdr isV6 protocol firstTCPSeqNum i nextSegmentDataAt out of
                  None \<Rightarrow> None
                | Some (out, totalLen) \<Rightarrow>
                    gso_loop order inp hdr isV6 protocol firstTCPSeqNum outOffset (Suc i) (nextSegmentDataAt + unat (vh_gsoSize hdr))
                      (outBuffs[i := take outOffset (outBuffs ! i) @ out]) (sizes[i := totalLen])))"
  by pat_completeness auto
termination by (relation "measure (\<lambda>(_, _, _, _, _, _, _, i, _, outBuffs, _). length outBuffs - i)") auto

declare gso_loop.simps [simp del]

definition gsoSplit ::
  "byte_order \<Rightarrow> bytes \<Rightarrow> virtioNetHdr \<Rightarrow> bytes list \<Rightarrow> nat list \<Rightarrow> nat \<Rightarrow> bool
     \<Rightarrow> ((int \<times> offload_error option) \<times> bytes list \<times> nat list) option" where
  "gsoSplit order inp hdr outBuffs sizes outOffset isV6 =
     do {
       inp \<leftarrow> (if \<not> isV6 then do { inp \<leftarrow> store 10 0 inp; store 11 0 inp } else Some inp);
       let transportCsumAt = unat (vh_csumStart hdr + vh_csumOffset hdr);
       inp \<leftarrow> store transportCsumAt 0 inp;
       inp \<leftarrow> store (transportCsumAt + 1) 0 inp;
       firstTCPSeqNum \<leftarrow> (if is_tcp_gso hdr then Uint32_at (unat (vh_csumStart hdr + 4)) inp else Some 0);
       let protocol = (if is_tcp_gso hdr then IPPROTO_TCP else IPPROTO_UDP);
       gso_loop order inp hdr isV6 protocol firstTCPSeqNum outOffset 0 (unat (vh_hdrLen hdr)) outBuffs sizes
     }"

definition gsoNoneChecksum :: "byte_order \<Rightarrow> bytes \<Rightarrow> u16 \<Rightarrow> u16 \<Rightarrow> bytes option" where
  "gsoNoneChecksum order inp cSumStart cSumOffset =
     do {
       let cSumAt = unat (cSumStart + cSumOffset);
       initial \<leftarrow> Uint16_at cSumAt inp;
       inp \<leftarrow> store cSumAt 0 inp;
       inp \<leftarrow> store (unat (cSumStart + cSumOffset + 1)) 0 inp;
       t \<leftarrow> slice_from (unat cSumStart) inp;
       PutUint16_at cSumAt (NOT (checksum order t (ucast initial))) inp
     }"

section \<open>Reading\<close>

text \<open>The length of the headers, computed from the packet because \<open>hdrLen\<close> of the kernel is not reliable.\<close>

definition gso_hdrLen :: "bytes \<Rightarrow> virtioNetHdr \<Rightarrow> (offload_error + u16) option" where
  "gso_hdrLen inp hdr =
     (if vh_gsoType hdr = VIRTIO_NET_HDR_GSO_UDP_L4 then Some (Inr (vh_csumStart hdr + 8))
      else if length inp \<le> unat (vh_csumStart hdr + 12) then Some (Inl ErrPacketTooShort)
      else do {
        b \<leftarrow> idx (unat (vh_csumStart hdr + 12)) inp;
        let tcpHLen = (ucast (drop_bit 4 b * 4) :: u16);
        Some (if tcpHLen < 20 \<or> tcpHLen > 60 then Inl (ErrTCPHeaderLen (unat tcpHLen)) else Inr (vh_csumStart hdr + tcpHLen))
      })"

definition handleVirtioRead ::
  "byte_order \<Rightarrow> bytes \<Rightarrow> bytes list \<Rightarrow> nat list \<Rightarrow> nat \<Rightarrow> ((int \<times> offload_error option) \<times> bytes list \<times> nat list) option" where
  "handleVirtioRead order inp bufs sizes offset =
     (case hdr_decode order inp of
        Inl e \<Rightarrow> Some ((0, Some e), bufs, sizes)
      | Inr hdr \<Rightarrow>
          let inp = drop virtioNetHdrLen inp; err = (\<lambda>e. Some ((0, Some e), bufs, sizes)) in
          if vh_gsoType hdr = VIRTIO_NET_HDR_GSO_NONE then do {
            inp \<leftarrow> (if vh_flags hdr AND VIRTIO_NET_HDR_F_NEEDS_CSUM \<noteq> 0
                    then gsoNoneChecksum order inp (vh_csumStart hdr) (vh_csumOffset hdr) else Some inp);
            buf \<leftarrow> idx 0 bufs;
            dst \<leftarrow> slice_from offset buf;
            if length inp > length dst then err (ErrReadOverflow (length inp) (length dst))
            else do {
              sizes \<leftarrow> store 0 (length inp) sizes;
              Some ((1, None), bufs[0 := put_at offset inp buf], sizes)
            }
          }
          else if vh_gsoType hdr \<noteq> VIRTIO_NET_HDR_GSO_TCPV4 \<and> vh_gsoType hdr \<noteq> VIRTIO_NET_HDR_GSO_TCPV6 \<and> vh_gsoType hdr \<noteq> VIRTIO_NET_HDR_GSO_UDP_L4
          then err (ErrGSOType (vh_gsoType hdr))
          else do {
            b \<leftarrow> idx 0 inp;
            let ipVersion = drop_bit 4 b;
            if ipVersion = 4 \<and> vh_gsoType hdr \<noteq> VIRTIO_NET_HDR_GSO_TCPV4 \<and> vh_gsoType hdr \<noteq> VIRTIO_NET_HDR_GSO_UDP_L4
            then err (ErrVersionGSOType ipVersion (vh_gsoType hdr))
            else if ipVersion = 6 \<and> vh_gsoType hdr \<noteq> VIRTIO_NET_HDR_GSO_TCPV6 \<and> vh_gsoType hdr \<noteq> VIRTIO_NET_HDR_GSO_UDP_L4
            then err (ErrVersionGSOType ipVersion (vh_gsoType hdr))
            else if ipVersion \<noteq> 4 \<and> ipVersion \<noteq> 6 then err (ErrIPVersion ipVersion)
            else do {
              r \<leftarrow> gso_hdrLen inp hdr;
              case r of
                Inl e \<Rightarrow> err e
              | Inr hdrLen \<Rightarrow>
                  let hdr = hdr\<lparr>vh_hdrLen := hdrLen\<rparr>; cSumAt = unat (vh_csumStart hdr + vh_csumOffset hdr) in
                  if length inp < unat (vh_hdrLen hdr) then err (ErrHdrLen (length inp) (unat (vh_hdrLen hdr)))
                  else if vh_hdrLen hdr < vh_csumStart hdr then err (ErrHdrBeforeCsum (unat (vh_hdrLen hdr)) (unat (vh_csumStart hdr)))
                  else if cSumAt + 1 \<ge> length inp then err (ErrCsumOffset (cSumAt + 1) (length inp))
                  else gsoSplit order inp hdr bufs sizes offset (ipVersion = 6)
            }
          })"

section \<open>Writing into a buffer\<close>

text \<open>Every write is a \<open>put_at\<close> inside the buffer; the lemmas read single bytes and sums through it.\<close>

lemma nth_put_at:
  assumes "i + length ys \<le> length xs" "k < length xs"
  shows "put_at i ys xs ! k = (if i \<le> k \<and> k < i + length ys then ys ! (k - i) else xs ! k)"
  using assms by (auto simp: put_at_def nth_append min_def)

lemma store_put: "i < length xs \<Longrightarrow> xs[i := v] = put_at i [v] xs"
  by (simp add: put_at_def upd_conv_take_nth_drop)

lemma be_bytes_2: "be_bytes 2 (v :: u16) = [ucast (drop_bit 8 v), ucast v]"
  by (simp add: be_bytes_def le_bytes_def upt_rec)

lemma Uint16_put [simp]: "i + 2 \<le> length xs \<Longrightarrow> Uint16_at i (put_at i (be_bytes 2 v) xs) = Some v"
  using put_at_slice_same [of i "be_bytes 2 v" xs] by (simp add: Uint16_at_def be_word_be_bytes)

lemma Uint32_put [simp]: "i + 4 \<le> length xs \<Longrightarrow> Uint32_at i (put_at i (be_bytes 4 v) xs) = Some v"
  using put_at_slice_same [of i "be_bytes 4 v" xs] by (simp add: Uint32_at_def be_word_be_bytes)

lemma go_slice_nth_eq:
  assumes "length xs = length ys" "\<And>k. i \<le> k \<Longrightarrow> k < j \<Longrightarrow> xs ! k = ys ! k" "j \<le> length xs"
  shows "go_slice i j xs = go_slice i j ys"
  using assms by (intro nth_equalityI) (auto simp: go_slice_def)

lemma Uint16_cong:
  assumes "length xs = length ys" "xs ! i = ys ! i" "xs ! (i + 1) = ys ! (i + 1)"
  shows "Uint16_at i xs = Uint16_at i ys"
proof -
  have "go_slice i (i + 2) xs = go_slice i (i + 2) ys" if "i + 2 \<le> length xs"
    using assms that by (intro go_slice_nth_eq) (auto simp: less_Suc_eq)
  then show ?thesis using assms(1) by (simp add: Uint16_at_def)
qed

lemma Uint32_cong:
  assumes "length xs = length ys" "\<And>k. i \<le> k \<Longrightarrow> k < i + 4 \<Longrightarrow> xs ! k = ys ! k"
  shows "Uint32_at i xs = Uint32_at i ys"
  using go_slice_nth_eq [OF assms(1), of i "i + 4"] assms by (auto simp: Uint32_at_def)

text \<open>Filling a zero checksum field adds its value to the sum.\<close>

lemma word_sum_put:
  assumes "even i" "i + 2 \<le> length xs" "xs ! i = 0" "xs ! Suc i = 0"
  shows "word_sum (put_at i (be_bytes 2 v) xs) = word_sum xs + unat (v :: u16)"
proof -
  have x: "xs = take i xs @ [0, 0] @ drop (i + 2) xs"
    using id_take_nth_drop [of i xs] Cons_nth_drop_Suc [of "Suc i" xs] assms(2-4) by simp
  have p: "put_at i (be_bytes 2 v) xs = take i xs @ be_bytes 2 v @ drop (i + 2) xs" using assms(2) by (simp add: put_at_def)
  have "unat (ucast (drop_bit 8 v) :: u8) = unat v div 256" "unat (ucast v :: u8) = unat v mod 256"
    using unat_less_exp [of v] by (simp_all add: unsigned_ucast_eq unat_drop_bit take_bit_eq_mod)
  then have "word_sum (be_bytes 2 v @ ys) = unat v + word_sum ys" for ys by (simp add: be_bytes_2)
  moreover have "even (length (take i xs))" using assms(1,2) by (simp add: min_absorb2)
  ultimately show ?thesis unfolding p by (subst (2) x) (simp add: word_sum_append)
qed

lemma fold16_complement:
  assumes "unat c = fold16 t"
  shows "fold16 (t + unat (NOT c :: u16)) = 65535"
proof -
  have c: "unat c \<le> 65535" using unat_less_exp [of c] by simp
  have "NOT c = - 1 - c" by (simp add: not_eq_complement)
  then have n: "unat (NOT c) = 65535 - unat c"
    by (simp add: unat_sub word_le_nat_alt c unsigned_minus_1_eq_mask mask_eq_exp_minus_1)
  have m: "fold16 (65535 * Suc q) = 65535" for q
  proof -
    have "65535 * Suc q - 1 = 65534 + 65535 * q" by simp
    then show ?thesis by (simp only: fold16_def mod_mult_self2) simp
  qed
  show ?thesis
  proof (cases "t = 0")
    case True
    then show ?thesis using n assms m [of 0] by (simp add: fold16_def)
  next
    case False
    let ?q = "(t - 1) div 65535"
    have "t = 65535 * ?q + unat c" using False div_mult_mod_eq [of "t - 1" 65535] assms by (simp add: fold16_def)
    then have "t + unat (NOT c) = 65535 * Suc ?q" using n c by simp
    then show ?thesis using m by simp
  qed
qed

section \<open>The segments\<close>

text \<open>\<open>checksumValid\<close> is used by the coalescing of packets; here it says what a receiver of a segment finds.\<close>

definition checksumValid :: "byte_order \<Rightarrow> bytes \<Rightarrow> nat \<Rightarrow> u8 \<Rightarrow> bool \<Rightarrow> bool option" where
  "checksumValid order pkt iphLen proto isV6 =
     do {
       let srcAddrAt = addr_offset isV6;
       let addrSize = addr_size isV6;
       let lenForPseudo = (of_int (int (length pkt) - int iphLen) :: u16);
       src \<leftarrow> slice_at srcAddrAt (srcAddrAt + addrSize) pkt;
       dst \<leftarrow> slice_at (srcAddrAt + addrSize) (srcAddrAt + addrSize * 2) pkt;
       t \<leftarrow> slice_from iphLen pkt;
       Some (NOT (checksum order t (pseudoHeaderChecksumNoFold order proto src dst lenForPseudo)) = 0)
     }"

text \<open>A packet to split: the header lengths and checksum offset that virtio documents, and a length that fits 16 bits. The checksum
  fields are already cleared.\<close>

definition gso_packet :: "bool \<Rightarrow> bytes \<Rightarrow> virtioNetHdr \<Rightarrow> bool" where
  "gso_packet isV6 inp hdr \<longleftrightarrow>
     (if isV6 then unat (vh_csumStart hdr) = 40 else 20 \<le> unat (vh_csumStart hdr) \<and> even (unat (vh_csumStart hdr)))
     \<and> unat (vh_csumStart hdr) + (if is_tcp_gso hdr then 20 else 8) \<le> unat (vh_hdrLen hdr)
     \<and> vh_csumOffset hdr = (if is_tcp_gso hdr then 16 else 6)
     \<and> unat (vh_hdrLen hdr) \<le> length inp \<and> length inp \<le> 65535 \<and> 0 < vh_gsoSize hdr"

lemma u16_plus:
  assumes "unat (x :: u16) + n < 65536"
  shows "unat (x + of_nat n) = unat x + n"
  using assms by (simp add: unat_word_ariths unsigned_of_nat take_bit_nat_eq_self)

lemma checksum_complement:
  assumes "even i" "i + 2 \<le> length xs" "xs ! i = 0" "xs ! Suc i = 0"
  shows "NOT (checksum order (put_at i (be_bytes 2 (NOT (checksum order xs initial))) xs) initial) = 0"
proof -
  let ?c = "checksum order xs initial"
  have "unat (checksum order (put_at i (be_bytes 2 (NOT ?c)) xs) initial) = fold16 (unat initial + word_sum xs + unat (NOT ?c))"
    unfolding checksum_fold16 [OF represents_unat] word_sum_put [OF assms] add.assoc ..
  also have "\<dots> = 65535" by (rule fold16_complement) (rule checksum_fold16 [OF represents_unat])
  finally have "checksum order (put_at i (be_bytes 2 (NOT ?c)) xs) initial = - 1"
    by (simp add: word_unat_eq_iff unsigned_minus_1_eq_mask mask_eq_exp_minus_1)
  then show ?thesis by simp
qed

lemma take_put_at: "i + length ys \<le> n \<Longrightarrow> n \<le> length xs \<Longrightarrow> take n (put_at i ys xs) = put_at i ys (take n xs)"
proof -
  assume a: "i + length ys \<le> n" "n \<le> length xs"
  then have "i \<le> n" by simp
  with a show ?thesis by (simp add: put_at_def min_absorb1 min_absorb2 drop_take)
qed

lemma gso_ip_header_v4:
  assumes "20 \<le> n" "n \<le> length inp" "n \<le> length out" "inp ! 10 = 0" "inp ! 11 = 0"
  shows "\<exists>out'. gso_ip_header order inp n False i totalLen out = Some out' \<and> length out' = length out
     \<and> (\<forall>k<length out. k \<notin> {2, 3, 4, 5, 10, 11} \<longrightarrow> out' ! k = (if k < n then inp ! k else out ! k))
     \<and> Uint16_at 2 out' = Some (of_nat totalLen) \<and> (\<exists>v. Uint16_at 4 inp = Some v \<and> Uint16_at 4 out' = Some (v + of_nat i))
     \<and> NOT (checksum order (take n out') 0) = 0"
proof -
  let ?o1 = "put_at 0 (take n inp) out"
  have n1: "?o1 ! k = (if k < n then inp ! k else out ! k)" if "k < length out" for k
    using that assms by (subst nth_put_at) (auto simp: min_absorb2)
  obtain v where v: "Uint16_at 4 inp = Some v" using assms by (auto simp: Uint16_at_def)
  have "go_slice 4 6 ?o1 = go_slice 4 6 inp"
    using assms by (intro nth_equalityI) (auto simp: go_slice_def n1)
  then have v1: "Uint16_at 4 ?o1 = Some v" using v assms by (simp add: Uint16_at_def)
  define o2 where "o2 = (if i > 0 then put_at 4 (be_bytes 2 (v + of_nat i)) ?o1 else ?o1)"
  have o2: "length o2 = length out" "\<And>k. k < length out \<Longrightarrow> k \<notin> {4, 5} \<Longrightarrow> o2 ! k = ?o1 ! k" "Uint16_at 4 o2 = Some (v + of_nat i)"
    using assms v1 by (auto simp: o2_def nth_put_at)
  define o3 where "o3 = put_at 2 (be_bytes 2 (of_nat totalLen :: u16)) o2"
  have o3: "length o3 = length out" "\<And>k. k < length out \<Longrightarrow> k \<notin> {2, 3} \<Longrightarrow> o3 ! k = o2 ! k" "Uint16_at 2 o3 = Some (of_nat totalLen)"
    using assms o2(1) by (auto simp: o3_def nth_put_at)
  let ?c = "NOT (checksum order (take n o3) 0)" and ?o4 = "put_at 10 (be_bytes 2 (NOT (checksum order (take n o3) 0))) o3"
  have o4: "length ?o4 = length out" "\<And>k. k < length out \<Longrightarrow> k \<notin> {10, 11} \<Longrightarrow> ?o4 ! k = o3 ! k" using assms o3(1) by (auto simp: nth_put_at)
  have z: "take n o3 ! 10 = 0" "take n o3 ! Suc 10 = 0" using assms o2 o3 n1 by simp_all
  have "take n ?o4 = put_at 10 (be_bytes 2 ?c) (take n o3)" using assms o3(1) by (intro take_put_at) simp_all
  then have "NOT (checksum order (take n ?o4) 0) = 0" using checksum_complement [of 10 "take n o3"] z assms o3(1) by simp
  moreover have "Uint16_at 2 ?o4 = Some (of_nat totalLen)" "Uint16_at 4 ?o4 = Some (v + of_nat i)"
    using o3(3) o2(3) o3(1,2) o2(1) o4 assms Uint16_cong [of ?o4 o3 2] Uint16_cong [of ?o4 o2 4] by simp_all
  moreover have "gso_ip_header order inp n False i totalLen out = Some ?o4"
    using assms v1 o2(1) o3(1) by (simp add: gso_ip_header_def slice_at_def go_slice_def PutUint16_at_def o3_def o2_def Let_def)
  moreover have "\<forall>k<length out. k \<notin> {2, 3, 4, 5, 10, 11} \<longrightarrow> ?o4 ! k = (if k < n then inp ! k else out ! k)"
    using o4(2) o3(2) o2(2) n1 by simp
  ultimately show ?thesis using v o4(1) by blast
qed

lemma gso_ip_header_v6:
  assumes "40 \<le> length inp" "40 \<le> length out" "40 \<le> totalLen"
  shows "\<exists>out'. gso_ip_header order inp 40 True i totalLen out = Some out' \<and> length out' = length out
     \<and> (\<forall>k<length out. k \<notin> {4, 5} \<longrightarrow> out' ! k = (if k < 40 then inp ! k else out ! k))
     \<and> Uint16_at 4 out' = Some (of_nat (totalLen - 40))"
proof -
  let ?o1 = "put_at 0 (take 40 inp) out" and ?o2 = "put_at 4 (be_bytes 2 (of_nat (totalLen - 40) :: u16)) (put_at 0 (take 40 inp) out)"
  have "(of_int (int totalLen - 40) :: u16) = of_nat (totalLen - 40)" using assms(3) by (simp add: of_nat_diff)
  then have "gso_ip_header order inp 40 True i totalLen out = Some ?o2"
    using assms by (simp add: gso_ip_header_def slice_at_def go_slice_def PutUint16_at_def)
  moreover have "\<forall>k<length out. k \<notin> {4, 5} \<longrightarrow> ?o2 ! k = (if k < 40 then inp ! k else out ! k)"
    using assms by (auto simp: nth_put_at min_absorb2)
  ultimately show ?thesis using assms by simp
qed

lemma gso_transport_tcp:
  assumes "st = unat (vh_csumStart hdr)" "hl = unat (vh_hdrLen hdr)" "st + 20 \<le> hl" "hl \<le> length inp" "hl \<le> length out"
  shows "\<exists>out'. gso_transport_header inp hdr IPPROTO_TCP first i dataLen isLast out = Some out' \<and> length out' = length out
     \<and> (\<forall>k<length out. k \<notin> {st + 4..<st + 8} \<longrightarrow> k \<noteq> st + 13 \<longrightarrow> out' ! k = (if st \<le> k \<and> k < hl then inp ! k else out ! k))
     \<and> Uint32_at (st + 4) out' = Some (first + ucast (vh_gsoSize hdr * of_nat i))
     \<and> out' ! (st + 13) = (if isLast then inp ! (st + 13) else inp ! (st + 13) AND NOT (tcpFlagFIN OR tcpFlagPSH))"
proof -
  let ?o1 = "put_at st (go_slice st hl inp) out" and ?v = "first + ucast (vh_gsoSize hdr * of_nat i) :: u32"
  have hl: "hl < 65536" using unat_less_exp [of "vh_hdrLen hdr"] assms(2) by simp
  have u: "unat (vh_csumStart hdr + 4) = st + 4" "unat (vh_csumStart hdr + 13) = st + 13"
    using u16_plus [of "vh_csumStart hdr" 4] u16_plus [of "vh_csumStart hdr" 13] assms(1,3) hl by simp_all
  have n1: "?o1 ! k = (if st \<le> k \<and> k < hl then inp ! k else out ! k)" if "k < length out" for k
    using that assms by (subst nth_put_at) (auto simp: go_slice_def)
  let ?o2 = "put_at (st + 4) (be_bytes 4 ?v) ?o1"
  have o2: "length ?o2 = length out" "\<And>k. k < length out \<Longrightarrow> k \<notin> {st + 4..<st + 8} \<Longrightarrow> ?o2 ! k = ?o1 ! k" "Uint32_at (st + 4) ?o2 = Some ?v"
    using assms(3,5) by (auto simp: nth_put_at)
  let ?o3 = "if isLast then ?o2 else ?o2[st + 13 := ?o2 ! (st + 13) AND NOT (tcpFlagFIN OR tcpFlagPSH)]"
  have "gso_transport_header inp hdr IPPROTO_TCP first i dataLen isLast out = Some ?o3"
    using assms o2(1)
    by (simp add: gso_transport_header_def slice_at_def PutUint32_at_def u Let_def idx_def store_def tcpFlagsOffset_def)
  moreover have "Uint32_at (st + 4) ?o3 = Some ?v" using o2(3) by (subst Uint32_cong [of _ ?o2]) (auto simp: o2(1))
  moreover have "?o2 ! (st + 13) = inp ! (st + 13)" using o2(2) n1 assms(3,5) by simp
  ultimately show ?thesis using o2 n1 assms(3,5) by (intro exI [of _ ?o3]) auto
qed

lemma gso_transport_udp:
  assumes "st = unat (vh_csumStart hdr)" "hl = unat (vh_hdrLen hdr)" "st + 8 \<le> hl" "hl \<le> length inp" "hl \<le> length out"
  shows "\<exists>out'. gso_transport_header inp hdr IPPROTO_UDP first i dataLen isLast out = Some out' \<and> length out' = length out
     \<and> (\<forall>k<length out. k \<notin> {st + 4, st + 5} \<longrightarrow> out' ! k = (if st \<le> k \<and> k < hl then inp ! k else out ! k))
     \<and> Uint16_at (st + 4) out' = Some (of_nat dataLen + (vh_hdrLen hdr - vh_csumStart hdr))"
proof -
  let ?o1 = "put_at st (go_slice st hl inp) out" and ?v = "of_nat dataLen + (vh_hdrLen hdr - vh_csumStart hdr)"
  have hl: "hl < 65536" using unat_less_exp [of "vh_hdrLen hdr"] assms(2) by simp
  have u: "unat (vh_csumStart hdr + 4) = st + 4" using u16_plus [of "vh_csumStart hdr" 4] assms(1,3) hl by simp
  have n1: "?o1 ! k = (if st \<le> k \<and> k < hl then inp ! k else out ! k)" if "k < length out" for k
    using that assms by (subst nth_put_at) (auto simp: go_slice_def)
  let ?o2 = "put_at (st + 4) (be_bytes 2 ?v) ?o1"
  have "gso_transport_header inp hdr IPPROTO_UDP first i dataLen isLast out = Some ?o2"
    using assms by (simp add: gso_transport_header_def slice_at_def PutUint16_at_def u Let_def virtio_defs)
  moreover have "length ?o2 = length out" "\<And>k. k < length out \<Longrightarrow> k \<notin> {st + 4, st + 5} \<Longrightarrow> ?o2 ! k = ?o1 ! k" "Uint16_at (st + 4) ?o2 = Some ?v"
    using assms(3,5) by (auto simp: nth_put_at)
  ultimately show ?thesis using n1 by (intro exI [of _ ?o2]) auto
qed

lemma go_slice_put:
  assumes "a \<le> i" "i + length ys \<le> b" "b \<le> length xs"
  shows "go_slice a b (put_at i ys xs) = put_at (i - a) ys (go_slice a b xs)"
proof (rule nth_equalityI)
  fix k assume "k < length (go_slice a b (put_at i ys xs))"
  then have k: "k < b - a" using assms by simp
  then have "go_slice a b (put_at i ys xs) ! k = put_at i ys xs ! (a + k)" using assms by (simp add: go_slice_def)
  also have "\<dots> = put_at (i - a) ys (go_slice a b xs) ! k"
    using k assms by (subst (1 2) nth_put_at) (auto simp: go_slice_def add.commute)
  finally show "go_slice a b (put_at i ys xs) ! k = put_at (i - a) ys (go_slice a b xs) ! k" .
qed (use assms in simp)

lemma take_slice: "j \<le> n \<Longrightarrow> go_slice i j (take n xs) = go_slice i j xs"
  by (auto simp: go_slice_def drop_take min_def)

lemma gso_checksum_ok:
  assumes st: "st = unat (vh_csumStart hdr)" "hl = unat (vh_hdrLen hdr)" and off: "vh_csumOffset hdr = of_nat off" "even off" "off < 64"
    and len: "st + off + 2 \<le> hl" "totalLen = hl + dataLen" "totalLen \<le> length out" "totalLen < 65536" "addr_offset isV6 + addr_size isV6 * 2 \<le> st" "hl \<le> length inp"
    and zero: "out ! (st + off) = 0" "out ! (st + off + 1) = 0"
    and addr: "\<And>k. addr_offset isV6 \<le> k \<Longrightarrow> k < addr_offset isV6 + addr_size isV6 * 2 \<Longrightarrow> out ! k = inp ! k"
  shows "\<exists>out'. gso_checksum order inp hdr isV6 protocol dataLen totalLen out = Some out' \<and> length out' = length out
     \<and> (\<forall>k<length out. k \<notin> {st + off, st + off + 1} \<longrightarrow> out' ! k = out ! k)
     \<and> checksumValid order (take totalLen out') st protocol isV6 = Some True"
proof -
  let ?a = "addr_offset isV6" and ?n = "addr_size isV6"
  let ?src = "go_slice ?a (?a + ?n) inp" and ?dst = "go_slice (?a + ?n) (?a + ?n * 2) inp"
  let ?p = "pseudoHeaderChecksumNoFold order protocol ?src ?dst (of_nat (totalLen - st))" and ?t = "go_slice st totalLen out"
  let ?c = "NOT (checksum order ?t ?p)"
  let ?o = "put_at (st + off) (be_bytes 2 ?c) out"
  have s: "st + off < 65536" using len unat_less_exp [of "vh_hdrLen hdr"] st(2) by simp
  then have u: "unat (vh_csumStart hdr + vh_csumOffset hdr) = st + off" using u16_plus [of "vh_csumStart hdr" off] st(1) off(1) by simp
  have th: "unat (vh_hdrLen hdr - vh_csumStart hdr) = hl - st" using len(1) st by (simp add: unat_sub word_le_nat_alt)
  have o: "length ?o = length out" "\<And>k. k < length out \<Longrightarrow> k \<notin> {st + off, st + off + 1} \<Longrightarrow> ?o ! k = out ! k" using len by (auto simp: nth_put_at)
  have "hl - st + dataLen = totalLen - st" using len by simp
  then have g: "gso_checksum order inp hdr isV6 protocol dataLen totalLen out = Some ?o"
    using len by (simp add: gso_checksum_def Let_def slice_at_def PutUint16_at_def u th diff_add_eq flip: st)
  have sl: "go_slice i j (take totalLen ?o) = go_slice i j inp" if "?a \<le> i" "j \<le> ?a + ?n * 2" for i j
  proof (rule nth_equalityI)
    have j: "j \<le> st" using that len by simp
    then show "length (go_slice i j (take totalLen ?o)) = length (go_slice i j inp)" using len o(1) by (simp add: go_slice_def)
    fix k assume "k < length (go_slice i j (take totalLen ?o))"
    then have "k < j - i" by (simp add: go_slice_def)
    then have k: "i + k < j" by simp
    then have "go_slice i j (take totalLen ?o) ! k = ?o ! (i + k)" using j len o(1) by (simp add: go_slice_def)
    also have "\<dots> = out ! (i + k)" using k j len by (intro o(2)) auto
    also have "\<dots> = inp ! (i + k)" using k that by (intro addr) auto
    also have "\<dots> = go_slice i j inp ! k" using k j len by (simp add: go_slice_def)
    finally show "go_slice i j (take totalLen ?o) ! k = go_slice i j inp ! k" .
  qed
  have d: "drop st (take totalLen ?o) = put_at off (be_bytes 2 ?c) ?t"
    using go_slice_put [of st "st + off" "be_bytes 2 ?c" totalLen out] len by (simp add: go_slice_def drop_take)
  have z: "?t ! off = 0" "?t ! Suc off = 0" using zero len by (simp_all add: go_slice_def)
  have "NOT (checksum order (drop st (take totalLen ?o)) ?p) = 0"
    unfolding d using off(2) len z by (intro checksum_complement) simp_all
  moreover have "(of_int (int totalLen - int st) :: u16) = of_nat (totalLen - st)" using len by (simp add: of_nat_diff)
  ultimately have "checksumValid order (take totalLen ?o) st protocol isV6 = Some True"
    using len o(1) sl by (simp add: checksumValid_def Let_def slice_at_def slice_from_def min_absorb2)
  then show ?thesis using g o by blast
qed

text \<open>What segment \<open>i\<close> has to be. \<open>changed\<close> are the header fields a segment has of its own.\<close>

definition gso_protocol :: "virtioNetHdr \<Rightarrow> u8" where
  "gso_protocol hdr = (if is_tcp_gso hdr then IPPROTO_TCP else IPPROTO_UDP)"

definition changed :: "bool \<Rightarrow> virtioNetHdr \<Rightarrow> nat set" where
  "changed isV6 hdr =
     (let st = unat (vh_csumStart hdr)
      in (if isV6 then {4, 5} else {2, 3, 4, 5, 10, 11})
         \<union> (if is_tcp_gso hdr then {st + 4..<st + 8} \<union> {st + 13, st + 16, st + 17} else {st + 4..<st + 8}))"

definition segment_data :: "bytes \<Rightarrow> virtioNetHdr \<Rightarrow> nat \<Rightarrow> bytes" where
  "segment_data inp hdr i = take (unat (vh_gsoSize hdr)) (drop (unat (vh_hdrLen hdr) + i * unat (vh_gsoSize hdr)) inp)"

definition ip_fields :: "byte_order \<Rightarrow> bool \<Rightarrow> bytes \<Rightarrow> nat \<Rightarrow> nat \<Rightarrow> bytes \<Rightarrow> bool" where
  "ip_fields order isV6 inp st i seg \<longleftrightarrow>
     (if isV6 then Uint16_at 4 seg = Some (of_nat (length seg - 40))
      else Uint16_at 2 seg = Some (of_nat (length seg)) \<and> Uint16_at 4 seg = map_option (\<lambda>v. v + of_nat i) (Uint16_at 4 inp)
        \<and> NOT (checksum order (take st seg) 0) = 0)"

definition transport_fields :: "bytes \<Rightarrow> virtioNetHdr \<Rightarrow> nat \<Rightarrow> bool \<Rightarrow> bytes \<Rightarrow> bool" where
  "transport_fields inp hdr i isLast seg \<longleftrightarrow>
     (let st = unat (vh_csumStart hdr) in
      if is_tcp_gso hdr
      then Uint32_at (st + 4) seg = map_option (\<lambda>s. s + of_nat (i * unat (vh_gsoSize hdr))) (Uint32_at (st + 4) inp)
        \<and> seg ! (st + 13) = (if isLast then inp ! (st + 13) else inp ! (st + 13) AND NOT (tcpFlagFIN OR tcpFlagPSH))
      else Uint16_at (st + 4) seg = Some (of_nat (length seg - st)))"

definition segment_ok :: "byte_order \<Rightarrow> bool \<Rightarrow> bytes \<Rightarrow> virtioNetHdr \<Rightarrow> nat \<Rightarrow> bytes \<Rightarrow> bool" where
  "segment_ok order isV6 inp hdr i seg \<longleftrightarrow>
     (let st = unat (vh_csumStart hdr); hl = unat (vh_hdrLen hdr) in
      length seg = hl + length (segment_data inp hdr i) \<and> drop hl seg = segment_data inp hdr i
      \<and> (\<forall>k<hl. k \<notin> changed isV6 hdr \<longrightarrow> seg ! k = inp ! k)
      \<and> ip_fields order isV6 inp st i seg
      \<and> transport_fields inp hdr i (hl + Suc i * unat (vh_gsoSize hdr) \<ge> length inp) seg
      \<and> checksumValid order seg st (gso_protocol hdr) isV6 = Some True)"

lemma Uint16_take: "i + 2 \<le> n \<Longrightarrow> n \<le> length xs \<Longrightarrow> Uint16_at i (take n xs) = Uint16_at i xs"
  by (simp add: Uint16_at_def take_slice)

text \<open>The two headers for either family and protocol. Later writes leave the bytes alone on which their fields depend.\<close>

lemma gso_ip_stage:
  assumes "gso_packet isV6 inp hdr" "unat (vh_csumStart hdr) = st" "st \<le> length out" "st \<le> totalLen" "\<not> isV6 \<Longrightarrow> inp ! 10 = 0 \<and> inp ! 11 = 0"
  shows "\<exists>o1. gso_ip_header order inp st isV6 i totalLen out = Some o1 \<and> length o1 = length out
      \<and> (\<forall>k<length out. k \<notin> (if isV6 then {4, 5} else {2, 3, 4, 5, 10, 11}) \<longrightarrow> o1 ! k = (if k < st then inp ! k else out ! k))
      \<and> (\<forall>seg. length seg = totalLen \<longrightarrow> take st seg = take st o1 \<longrightarrow> ip_fields order isV6 inp st i seg)"
proof -
  have st: "20 \<le> st" "st \<le> length inp" using assms(1,2) by (auto simp: gso_packet_def split: if_splits)
  have u: "Uint16_at j seg = Uint16_at j o1" if "take st seg = take st o1" "j + 2 \<le> 20" "length seg = totalLen" "length o1 = length out" for j seg o1
    using that st(1) assms(3,4) Uint16_take [of j st seg] Uint16_take [of j st o1] by simp
  show ?thesis
  proof (cases isV6)
    case False
    from gso_ip_header_v4 [OF st assms(3), of order i totalLen] assms(5) [OF False] obtain o1 where
      "gso_ip_header order inp st False i totalLen out = Some o1" "length o1 = length out"
      "\<forall>k<length out. k \<notin> {2, 3, 4, 5, 10, 11} \<longrightarrow> o1 ! k = (if k < st then inp ! k else out ! k)"
      "Uint16_at 2 o1 = Some (of_nat totalLen)" "\<exists>v. Uint16_at 4 inp = Some v \<and> Uint16_at 4 o1 = Some (v + of_nat i)"
      "NOT (checksum order (take st o1) 0) = 0" by blast
    then show ?thesis using False u by (intro exI [of _ o1]) (auto simp: ip_fields_def)
  next
    case True
    then have 40: "st = 40" using assms(1,2) by (simp add: gso_packet_def)
    from gso_ip_header_v6 [of inp out totalLen order i] st assms(3,4) obtain o1 where
      "gso_ip_header order inp 40 True i totalLen out = Some o1" "length o1 = length out"
      "\<forall>k<length out. k \<notin> {4, 5} \<longrightarrow> o1 ! k = (if k < 40 then inp ! k else out ! k)" "Uint16_at 4 o1 = Some (of_nat (totalLen - 40))"
      unfolding 40 by blast
    then show ?thesis using True u unfolding 40 by (intro exI [of _ o1]) (auto simp: ip_fields_def)
  qed
qed

lemma gso_transport_stage:
  assumes "gso_packet isV6 inp hdr" "unat (vh_csumStart hdr) = st" "unat (vh_hdrLen hdr) = hl" "hl \<le> length out"
    and "is_tcp_gso hdr \<Longrightarrow> Uint32_at (st + 4) inp = Some first" "i * unat (vh_gsoSize hdr) < 65536" "totalLen = hl + dataLen"
  shows "\<exists>o2. gso_transport_header inp hdr (gso_protocol hdr) first i dataLen isLast out = Some o2 \<and> length o2 = length out
      \<and> (\<forall>k<length out. k \<notin> {st + 4..<st + 8} \<longrightarrow> k \<noteq> st + 13 \<longrightarrow> o2 ! k = (if st \<le> k \<and> k < hl then inp ! k else out ! k))
      \<and> (\<not> is_tcp_gso hdr \<longrightarrow> (\<forall>k<length out. k \<notin> {st + 4, st + 5} \<longrightarrow> o2 ! k = (if st \<le> k \<and> k < hl then inp ! k else out ! k)))
      \<and> (\<forall>seg. length seg = totalLen \<longrightarrow> (\<forall>k. st + 4 \<le> k \<longrightarrow> k < st + 8 \<longrightarrow> is_tcp_gso hdr \<or> k < st + 6 \<longrightarrow> seg ! k = o2 ! k)
           \<longrightarrow> (is_tcp_gso hdr \<longrightarrow> seg ! (st + 13) = o2 ! (st + 13)) \<longrightarrow> transport_fields inp hdr i isLast seg)"
proof (cases "is_tcp_gso hdr")
  case True
  then have h: "st + 20 \<le> hl" "hl \<le> length inp" using assms(1-3) by (auto simp: gso_packet_def)
  let ?v = "first + ucast (vh_gsoSize hdr * of_nat i)"
  have m: "unat (vh_gsoSize hdr * of_nat i) = i * unat (vh_gsoSize hdr)"
  proof -
    have "i \<le> i * unat (vh_gsoSize hdr)" using assms(1) by (simp add: gso_packet_def word_less_nat_alt)
    then have "i < 2 ^ 16" using assms(6) by (rule le_less_trans [THEN less_le_trans]) simp
    then have "unat (of_nat i :: u16) = i" by (simp add: unsigned_of_nat take_bit_nat_eq_self)
    then show ?thesis using assms(6) by (simp add: unat_word_ariths mult.commute)
  qed
  have v: "(ucast (vh_gsoSize hdr * of_nat i) :: u32) = of_nat (i * unat (vh_gsoSize hdr))"
    unfolding m [symmetric] of_nat_unat ..
  from gso_transport_tcp [OF assms(2) [symmetric] assms(3) [symmetric] h assms(4), of first i dataLen isLast] obtain o2 where
    o2: "gso_transport_header inp hdr IPPROTO_TCP first i dataLen isLast out = Some o2" "length o2 = length out"
      "\<forall>k<length out. k \<notin> {st + 4..<st + 8} \<longrightarrow> k \<noteq> st + 13 \<longrightarrow> o2 ! k = (if st \<le> k \<and> k < hl then inp ! k else out ! k)"
      "Uint32_at (st + 4) o2 = Some ?v" "o2 ! (st + 13) = (if isLast then inp ! (st + 13) else inp ! (st + 13) AND NOT (tcpFlagFIN OR tcpFlagPSH))" by blast
  have "transport_fields inp hdr i isLast seg" if "length seg = totalLen"
    "\<forall>k. st + 4 \<le> k \<longrightarrow> k < st + 8 \<longrightarrow> seg ! k = o2 ! k" "seg ! (st + 13) = o2 ! (st + 13)" for seg
  proof -
    have "go_slice (st + 4) (st + 4 + 4) seg = go_slice (st + 4) (st + 4 + 4) o2"
      using that h assms(4,7) o2(2) by (intro nth_equalityI) (auto simp: go_slice_def)
    then have "Uint32_at (st + 4) seg = Some ?v" using o2(2,4) that(1) h assms(4,7) by (simp add: Uint32_at_def)
    then show ?thesis using True that(3) o2(5) assms(2,5) v by (simp add: transport_fields_def)
  qed
  then show ?thesis using True o2 by (intro exI [of _ o2]) (simp add: gso_protocol_def)
next
  case False
  then have h: "st + 8 \<le> hl" "hl \<le> length inp" using assms(1-3) by (auto simp: gso_packet_def)
  from gso_transport_udp [OF assms(2) [symmetric] assms(3) [symmetric] h assms(4), of first i dataLen isLast] obtain o2 where
    o2: "gso_transport_header inp hdr IPPROTO_UDP first i dataLen isLast out = Some o2" "length o2 = length out"
      "\<forall>k<length out. k \<notin> {st + 4, st + 5} \<longrightarrow> o2 ! k = (if st \<le> k \<and> k < hl then inp ! k else out ! k)"
      "Uint16_at (st + 4) o2 = Some (of_nat dataLen + (vh_hdrLen hdr - vh_csumStart hdr))" by blast
  have v: "of_nat dataLen + (vh_hdrLen hdr - vh_csumStart hdr) = of_nat (totalLen - st)"
  proof -
    have "vh_hdrLen hdr = of_nat hl" "vh_csumStart hdr = of_nat st" by (simp_all flip: assms(2,3))
    then show ?thesis using h(1) assms(7) by (simp add: of_nat_diff)
  qed
  have "transport_fields inp hdr i isLast seg" if "length seg = totalLen" "\<forall>k. st + 4 \<le> k \<longrightarrow> k < st + 8 \<longrightarrow> k < st + 6 \<longrightarrow> seg ! k = o2 ! k" for seg
  proof -
    have "go_slice (st + 4) (st + 4 + 2) seg = go_slice (st + 4) (st + 4 + 2) o2"
      using that h assms(4,7) o2(2) by (intro nth_equalityI) (auto simp: go_slice_def)
    then have "Uint16_at (st + 4) seg = Some (of_nat (totalLen - st))" using o2(2,4) that(1) h assms(4,7) v by (simp add: Uint16_at_def)
    then show ?thesis using False that(1) assms(2) by (simp add: transport_fields_def)
  qed
  moreover have "\<forall>k<length out. k \<notin> {st + 4..<st + 8} \<longrightarrow> k \<noteq> st + 13 \<longrightarrow> o2 ! k = (if st \<le> k \<and> k < hl then inp ! k else out ! k)"
  proof -
    have "{st + 4, st + 5} \<subseteq> {st + 4..<st + 8}" by simp
    then show ?thesis using o2(3) by blast
  qed
  ultimately show ?thesis using False o2 by (intro exI [of _ o2]) (simp add: gso_protocol_def)
qed

text \<open>One segment.\<close>

lemma gso_segment_ok:
  assumes p: "gso_packet isV6 inp hdr" and z: "\<not> isV6 \<Longrightarrow> inp ! 10 = 0 \<and> inp ! 11 = 0"
    and c: "inp ! (unat (vh_csumStart hdr) + unat (vh_csumOffset hdr)) = 0" "inp ! (unat (vh_csumStart hdr) + unat (vh_csumOffset hdr) + 1) = 0"
    and f: "is_tcp_gso hdr \<Longrightarrow> Uint32_at (unat (vh_csumStart hdr) + 4) inp = Some first"
    and at: "nextSegmentDataAt = unat (vh_hdrLen hdr) + i * unat (vh_gsoSize hdr)" "nextSegmentDataAt < length inp"
    and out: "unat (vh_hdrLen hdr) + length (segment_data inp hdr i) \<le> length out"
  shows "\<exists>out' n. gso_segment order inp hdr isV6 (gso_protocol hdr) first i nextSegmentDataAt out = Some (out', n)
     \<and> length out' = length out \<and> n = unat (vh_hdrLen hdr) + length (segment_data inp hdr i) \<and> segment_ok order isV6 inp hdr i (take n out')"
proof -
  define st hl g where d: "st = unat (vh_csumStart hdr)" "hl = unat (vh_hdrLen hdr)" "g = unat (vh_gsoSize hdr)"
  define off where "off = unat (vh_csumOffset hdr)"
  let ?data = "segment_data inp hdr i" and ?stop = "min (nextSegmentDataAt + g) (length inp)"
  define total where "total = hl + length ?data"
  note d' = d [symmetric]
  have off: "off = (if is_tcp_gso hdr then 16 else 6)" using p by (auto simp: gso_packet_def off_def)
  have h: "st + (if is_tcp_gso hdr then 20 else 8) \<le> hl" "hl \<le> length inp" "length inp < 65536" "i * g < 65536"
    "20 \<le> st" "isV6 \<Longrightarrow> st = 40"
    using p at by (auto simp: gso_packet_def d split: if_splits)
  have dl: "length ?data = ?stop - nextSegmentDataAt" by (simp add: segment_data_def at d)
  have "hl \<le> nextSegmentDataAt" "length ?data \<le> length inp - nextSegmentDataAt" using dl by (auto simp: at(1) d)
  then have total: "hl \<le> total" "total \<le> length out" "total < 65536" using out h(3) at(2) unfolding total_def d by linarith+
  have z': "\<not> isV6 \<Longrightarrow> inp ! 10 = 0 \<and> inp ! 11 = 0" by (rule z)
  from gso_ip_stage [OF p d'(1) _ _ z', of out total order i] total h obtain o1 where
    o1: "gso_ip_header order inp st isV6 i total out = Some o1" "length o1 = length out"
      "\<forall>k<length out. k \<notin> (if isV6 then {4, 5} else {2, 3, 4, 5, 10, 11}) \<longrightarrow> o1 ! k = (if k < st then inp ! k else out ! k)"
      "\<forall>seg. length seg = total \<longrightarrow> take st seg = take st o1 \<longrightarrow> ip_fields order isV6 inp st i seg" by auto
  have "hl \<le> length o1" using total o1(2) by simp
  from gso_transport_stage [OF p d'(1,2) this f [folded d] h(4) [unfolded d] refl, of "length ?data" "?stop = length inp"] obtain o2 where
    o2: "gso_transport_header inp hdr (gso_protocol hdr) first i (length ?data) (?stop = length inp) o1 = Some o2" "length o2 = length out"
      "\<forall>k<length out. k \<notin> {st + 4..<st + 8} \<longrightarrow> k \<noteq> st + 13 \<longrightarrow> o2 ! k = (if st \<le> k \<and> k < hl then inp ! k else o1 ! k)"
      "\<not> is_tcp_gso hdr \<longrightarrow> (\<forall>k<length out. k \<notin> {st + 4, st + 5} \<longrightarrow> o2 ! k = (if st \<le> k \<and> k < hl then inp ! k else o1 ! k))"
      "\<forall>seg. length seg = total \<longrightarrow> (\<forall>k. st + 4 \<le> k \<longrightarrow> k < st + 8 \<longrightarrow> is_tcp_gso hdr \<or> k < st + 6 \<longrightarrow> seg ! k = o2 ! k)
           \<longrightarrow> (is_tcp_gso hdr \<longrightarrow> seg ! (st + 13) = o2 ! (st + 13)) \<longrightarrow> transport_fields inp hdr i (?stop = length inp) seg"
    unfolding o1(2) total_def by blast
  let ?o3 = "put_at hl ?data o2"
  have o3: "length ?o3 = length out" "\<And>k. k < hl \<Longrightarrow> ?o3 ! k = o2 ! k" using total o2(2) by (auto simp: nth_put_at total_def)
  have hlo: "hl \<le> length out" using total by simp
  have oa: "o2 ! k = o1 ! k" if "k < st" for k using o2(3) that h(1) hlo by auto
  have ok: "o2 ! k = inp ! k" if "st \<le> k" "k < hl" "k \<notin> {st + 4, st + 5}" "is_tcp_gso hdr \<Longrightarrow> k \<notin> {st + 4..<st + 8} \<and> k \<noteq> st + 13" for k
    using o2(3,4) that hlo by (cases "is_tcp_gso hdr") (auto split: if_splits)
  have cz: "inp ! (st + off) = 0" "inp ! (st + off + 1) = 0" using c by (simp_all add: d off_def)
  have oc: "o2 ! (st + off) = 0" "o2 ! (st + off + 1) = 0"
    using ok [of "st + off"] ok [of "st + off + 1"] cz off h(1) by (auto split: if_splits)
  have "\<exists>o4. gso_checksum order inp hdr isV6 (gso_protocol hdr) (length ?data) total ?o3 = Some o4 \<and> length o4 = length ?o3
     \<and> (\<forall>k<length ?o3. k \<notin> {st + off, st + off + 1} \<longrightarrow> o4 ! k = ?o3 ! k) \<and> checksumValid order (take total o4) st (gso_protocol hdr) isV6 = Some True"
  proof (rule gso_checksum_ok)
    show "vh_csumOffset hdr = of_nat off" by (simp add: off_def)
    show "addr_offset isV6 + addr_size isV6 * 2 \<le> st" using h by (auto simp: addr_offset_def addr_size_def virtio_defs)
    fix k assume "addr_offset isV6 \<le> k" "k < addr_offset isV6 + addr_size isV6 * 2"
    then have "k < st" "k \<notin> (if isV6 then {4, 5} else {2, 3, 4, 5, 10, 11})" using h by (auto simp: addr_offset_def addr_size_def virtio_defs split: if_splits)
    then show "?o3 ! k = inp ! k" using o1(3) o3(2) oa h(1) total by simp
  qed (use h total off oc o3 in \<open>auto simp: d total_def split: if_splits\<close>)
  then obtain o4 where o4: "gso_checksum order inp hdr isV6 (gso_protocol hdr) (length ?data) total ?o3 = Some o4" "length o4 = length out"
     "\<And>k. k < length out \<Longrightarrow> k \<notin> {st + off, st + off + 1} \<Longrightarrow> o4 ! k = ?o3 ! k" "checksumValid order (take total o4) st (gso_protocol hdr) isV6 = Some True"
    using o3(1) by auto
  let ?seg = "take total o4"
  have seg: "length ?seg = total" "\<And>k. k < hl \<Longrightarrow> k \<notin> {st + off, st + off + 1} \<Longrightarrow> ?seg ! k = o2 ! k"
    using o4(2,3) o3(2) total hlo by simp_all
  have ip: "take st ?seg = take st o1"
    using seg oa h(1) total o1(2) by (intro nth_equalityI) auto
  have pay: "drop hl ?seg = ?data"
  proof (rule nth_equalityI)
    fix k assume "k < length (drop hl ?seg)"
    then have k: "k < length ?data" "hl + k < length out" using seg(1) total by (simp_all add: total_def)
    then have "drop hl ?seg ! k = o4 ! (hl + k)" using seg(1) by (simp add: total_def)
    also have "\<dots> = ?o3 ! (hl + k)" using k off h(1) by (intro o4(3)) (auto split: if_splits)
    also have "\<dots> = ?data ! k" using k total o2(2) by (simp add: nth_put_at total_def)
    finally show "drop hl ?seg ! k = ?data ! k" .
  qed (use seg(1) in \<open>simp add: total_def\<close>)
  have hdrs: "?seg ! k = inp ! k" if k: "k < hl" "k \<notin> changed isV6 hdr" for k
  proof (cases "k < st")
    case True
    then have "?seg ! k = o1 ! k" using seg(2) [of k] oa k(1) by simp
    then show ?thesis using o1(3) True k hlo by (auto simp: changed_def Let_def)
  next
    case False
    then show ?thesis using seg(2) [of k] ok [of k] k off by (cases "is_tcp_gso hdr") (auto simp: changed_def d(1) Let_def)
  qed
  have tr: "transport_fields inp hdr i (?stop = length inp) ?seg"
  proof -
    have "?seg ! k = o2 ! k" if "st + 4 \<le> k" "k < st + 8" "is_tcp_gso hdr \<or> k < st + 6" for k
      using that seg(2) [of k] off h(1) by (auto split: if_splits)
    moreover have "?seg ! (st + 13) = o2 ! (st + 13)" if "is_tcp_gso hdr" using seg(2) [of "st + 13"] off h(1) that by simp
    ultimately show ?thesis using o2(5) seg(1) by blast
  qed
  have last: "?stop = length inp \<longleftrightarrow> length inp \<le> hl + Suc i * g" by (auto simp: at(1) d min_def)
  have "segment_ok order isV6 inp hdr i ?seg"
    unfolding segment_ok_def Let_def d' using seg(1) pay hdrs o1(4) ip tr o4(4) last by (simp add: total_def)
  moreover have "gso_segment order inp hdr isV6 (gso_protocol hdr) first i nextSegmentDataAt out = Some (o4, total)"
  proof -
    have "slice_at nextSegmentDataAt ?stop inp = Some ?data"
      using at by (simp add: slice_at_def go_slice_def segment_data_def d min_def take_all drop_take)
    moreover have "copy_at hl ?data o2 = Some ?o3" using hlo o2(2) by (simp add: copy_at_def)
    ultimately show ?thesis using o1(1) o2(1) o4(1) by (simp add: gso_segment_def Let_def d' flip: dl total_def)
  qed
  ultimately show ?thesis using o4(2) by (simp add: total_def d)
qed

text \<open>All segments. \<open>gso_count\<close> is their number.\<close>

definition gso_count :: "bytes \<Rightarrow> virtioNetHdr \<Rightarrow> nat" where
  "gso_count inp hdr = (length inp - unat (vh_hdrLen hdr) + unat (vh_gsoSize hdr) - 1) div unat (vh_gsoSize hdr)"

lemma gso_count_less:
  assumes "0 < vh_gsoSize hdr" "unat (vh_hdrLen hdr) \<le> length inp"
  shows "unat (vh_hdrLen hdr) + i * unat (vh_gsoSize hdr) < length inp \<longleftrightarrow> i < gso_count inp hdr"
proof -
  let ?g = "unat (vh_gsoSize hdr)" and ?n = "length inp - unat (vh_hdrLen hdr)"
  have g: "0 < ?g" using assms(1) by (simp add: word_less_nat_alt)
  have "i < gso_count inp hdr \<longleftrightarrow> Suc i * ?g \<le> ?n + ?g - 1"
    unfolding gso_count_def Suc_le_eq [symmetric] using g by (simp add: less_eq_div_iff_mult_less_eq)
  also have "\<dots> \<longleftrightarrow> i * ?g < ?n" using g by (simp add: mult_Suc) linarith
  finally show ?thesis using assms(2) by linarith
qed

lemma segment_data_concat:
  "concat (map (segment_data inp hdr) [0..<n]) = take (n * unat (vh_gsoSize hdr)) (drop (unat (vh_hdrLen hdr)) inp)"
proof (induction n)
  case (Suc n)
  have eq: "Suc n * unat (vh_gsoSize hdr) = n * unat (vh_gsoSize hdr) + unat (vh_gsoSize hdr)" by simp
  show ?case unfolding eq take_add using Suc by (simp add: segment_data_def add.commute)
qed simp

lemma gso_loop_ok:
  assumes p: "gso_packet isV6 inp hdr" and z: "\<not> isV6 \<longrightarrow> inp ! 10 = 0 \<and> inp ! 11 = 0"
    and c: "inp ! (unat (vh_csumStart hdr) + unat (vh_csumOffset hdr)) = 0" "inp ! (unat (vh_csumStart hdr) + unat (vh_csumOffset hdr) + 1) = 0"
    and f: "is_tcp_gso hdr \<longrightarrow> Uint32_at (unat (vh_csumStart hdr) + 4) inp = Some first"
    and "length bufs \<le> length sizes" "i \<le> gso_count inp hdr" "i \<le> length bufs" "hl = unat (vh_hdrLen hdr)"
    and "\<forall>j<length bufs. off + hl + min (unat (vh_gsoSize hdr)) (length inp - hl) \<le> length (bufs ! j)"
  shows "\<exists>bufs' sizes'. gso_loop order inp hdr isV6 (gso_protocol hdr) first off i (hl + i * unat (vh_gsoSize hdr)) bufs sizes
       = Some (if gso_count inp hdr \<le> length bufs then (int (gso_count inp hdr), None) else (int (length bufs) - 1, Some ErrTooManySegments), bufs', sizes')
     \<and> map length bufs' = map length bufs \<and> length sizes' = length sizes
     \<and> (\<forall>j. j < i \<or> gso_count inp hdr \<le> j \<longrightarrow> bufs' ! j = bufs ! j \<and> sizes' ! j = sizes ! j)
     \<and> (\<forall>j. i \<le> j \<longrightarrow> j < gso_count inp hdr \<longrightarrow> j < length bufs \<longrightarrow>
          take off (bufs' ! j) = take off (bufs ! j) \<and> segment_ok order isV6 inp hdr j (take (sizes' ! j) (drop off (bufs' ! j))))"
  using assms(6-10)
proof (induction "length bufs - i" arbitrary: i bufs sizes)
  case 0
  note less = gso_count_less [of hdr inp i] and q = p [unfolded gso_packet_def]
  have i: "i = length bufs" using 0 by simp
  show ?case using less q 0(2-) i
    by (subst gso_loop.simps) auto
next
  case (Suc d)
  let ?g = "unat (vh_gsoSize hdr)" and ?n = "gso_count inp hdr" and ?at = "hl + i * unat (vh_gsoSize hdr)"
  note q = p [unfolded gso_packet_def]
  have less: "?at < length inp \<longleftrightarrow> i < ?n" using gso_count_less [of hdr inp i] q Suc.prems(4) by simp
  show ?case
  proof (cases "i < ?n")
    case False
    then show ?thesis using less Suc.prems Suc(2) by (subst gso_loop.simps) auto
  next
    case True
    have i: "i < length bufs" "i < length sizes" using Suc(2) Suc.prems(1) by simp_all
    have "length (segment_data inp hdr i) \<le> min ?g (length inp - hl)" by (simp add: segment_data_def Suc.prems(4))
    then have b: "off + hl + length (segment_data inp hdr i) \<le> length (bufs ! i)" using Suc.prems(5) i(1) by fastforce
    then have ob: "off \<le> length (bufs ! i)" by simp
    have "\<exists>out' n. gso_segment order inp hdr isV6 (gso_protocol hdr) first i ?at (drop off (bufs ! i)) = Some (out', n)
       \<and> length out' = length (drop off (bufs ! i)) \<and> n = unat (vh_hdrLen hdr) + length (segment_data inp hdr i) \<and> segment_ok order isV6 inp hdr i (take n out')"
      using True less b Suc.prems(4) by (intro gso_segment_ok p z [rule_format] c f [rule_format]) auto
    then obtain out' n where o: "gso_segment order inp hdr isV6 (gso_protocol hdr) first i ?at (drop off (bufs ! i)) = Some (out', n)"
      "length out' = length (bufs ! i) - off" "segment_ok order isV6 inp hdr i (take n out')" by auto
    let ?bufs = "bufs[i := take off (bufs ! i) @ out']" and ?sizes = "sizes[i := n]"
    have lb: "map length ?bufs = map length bufs" using i(1) ob o(2) by (auto simp: list_eq_iff_nth_eq nth_list_update)
    have "\<forall>j<length ?bufs. off + hl + min ?g (length inp - hl) \<le> length (?bufs ! j)"
      using Suc.prems(5) i(1) ob o(2) by (simp add: nth_list_update)
    moreover have "d = length ?bufs - Suc i" "length ?bufs \<le> length ?sizes" "Suc i \<le> ?n" "Suc i \<le> length ?bufs"
      using Suc(2) Suc.prems(1) True i by simp_all
    ultimately obtain bufs' sizes' where
      r: "gso_loop order inp hdr isV6 (gso_protocol hdr) first off (Suc i) (hl + Suc i * ?g) ?bufs ?sizes
        = Some (if ?n \<le> length bufs then (int ?n, None) else (int (length bufs) - 1, Some ErrTooManySegments), bufs', sizes')"
      "map length bufs' = map length bufs" "length sizes' = length sizes"
      "\<forall>j. j < Suc i \<or> ?n \<le> j \<longrightarrow> bufs' ! j = ?bufs ! j \<and> sizes' ! j = ?sizes ! j"
      "\<forall>j. Suc i \<le> j \<longrightarrow> j < ?n \<longrightarrow> j < length bufs \<longrightarrow>
          take off (bufs' ! j) = take off (?bufs ! j) \<and> segment_ok order isV6 inp hdr j (take (sizes' ! j) (drop off (bufs' ! j)))"
      using Suc(1) [of ?bufs "Suc i" ?sizes] Suc.prems(4) unfolding lb length_list_update by blast
    have loop: "gso_loop order inp hdr isV6 (gso_protocol hdr) first off i ?at bufs sizes
      = gso_loop order inp hdr isV6 (gso_protocol hdr) first off (Suc i) (hl + Suc i * ?g) ?bufs ?sizes"
      using True less i ob o(1) by (subst gso_loop.simps) (simp add: slice_from_def ac_simps)
    have "take off (bufs' ! i) = take off (bufs ! i) \<and> segment_ok order isV6 inp hdr i (take (sizes' ! i) (drop off (bufs' ! i)))"
      using r(4) i ob o(3) by simp
    then have "take off (bufs' ! j) = take off (bufs ! j) \<and> segment_ok order isV6 inp hdr j (take (sizes' ! j) (drop off (bufs' ! j)))"
      if "i \<le> j" "j < ?n" "j < length bufs" for j using that r(5) by (cases "i = j") simp_all
    moreover have "bufs' ! j = bufs ! j \<and> sizes' ! j = sizes ! j" if "j < i \<or> ?n \<le> j" for j
    proof -
      have "j \<noteq> i" "j < Suc i \<or> ?n \<le> j" using that True by auto
      moreover from this(2) have "bufs' ! j = ?bufs ! j \<and> sizes' ! j = ?sizes ! j" using r(4) by blast
      ultimately show ?thesis by simp
    qed
    ultimately show ?thesis unfolding loop r(1) using r(2,3) by blast
  qed
qed

text \<open>Clearing the checksum fields of the packet leaves everything as it is that a segment is compared with.\<close>

definition csum_fields :: "bool \<Rightarrow> virtioNetHdr \<Rightarrow> nat set" where
  "csum_fields isV6 hdr =
     (if isV6 then {} else {10, 11}) \<union> {unat (vh_csumStart hdr) + unat (vh_csumOffset hdr), unat (vh_csumStart hdr) + unat (vh_csumOffset hdr) + 1}"

lemma segment_ok_cong:
  assumes p: "gso_packet isV6 inp hdr" and l: "length inp' = length inp" and e: "\<And>k. k \<notin> csum_fields isV6 hdr \<Longrightarrow> inp' ! k = inp ! k"
  shows "segment_ok order isV6 inp' hdr i seg \<longleftrightarrow> segment_ok order isV6 inp hdr i seg"
proof -
  let ?st = "unat (vh_csumStart hdr)" and ?hl = "unat (vh_hdrLen hdr)"
  note q = p [unfolded gso_packet_def]
  have c: "unat (vh_csumOffset hdr) = (if is_tcp_gso hdr then 16 else 6)" using q by simp
  have st: "20 \<le> ?st" using q by (auto split: if_splits)
  have data: "segment_data inp' hdr i = segment_data inp hdr i"
  proof -
    have "drop ?hl inp' = drop ?hl inp"
      using l q st c by (intro nth_equalityI) (auto intro!: e simp: csum_fields_def split: if_splits)
    then show ?thesis unfolding segment_data_def add.commute [of ?hl] drop_drop [symmetric] by simp
  qed
  have ip: "ip_fields order isV6 inp' ?st i seg \<longleftrightarrow> ip_fields order isV6 inp ?st i seg"
    using st e Uint16_cong [OF l, of 4] by (simp add: ip_fields_def csum_fields_def)
  have tr: "transport_fields inp' hdr i b seg \<longleftrightarrow> transport_fields inp hdr i b seg" for b
    using st c e Uint32_cong [OF l, of "?st + 4"] by (auto simp: transport_fields_def csum_fields_def)
  have "csum_fields isV6 hdr \<subseteq> changed isV6 hdr" using c by (auto simp: csum_fields_def changed_def Let_def)
  then have "inp' ! k = inp ! k" if "k \<notin> changed isV6 hdr" for k using e that by blast
  then have "(\<forall>k<?hl. k \<notin> changed isV6 hdr \<longrightarrow> seg ! k = inp' ! k) \<longleftrightarrow> (\<forall>k<?hl. k \<notin> changed isV6 hdr \<longrightarrow> seg ! k = inp ! k)"
    by simp
  then show ?thesis unfolding segment_ok_def Let_def data ip tr l by simp
qed

lemma gsoSplit_loop:
  assumes p: "gso_packet isV6 inp hdr"
  shows "\<exists>inp' first. gsoSplit order inp hdr bufs sizes off isV6
       = gso_loop order inp' hdr isV6 (gso_protocol hdr) first off 0 (unat (vh_hdrLen hdr)) bufs sizes
     \<and> length inp' = length inp \<and> (\<forall>k. k \<notin> csum_fields isV6 hdr \<longrightarrow> inp' ! k = inp ! k) \<and> (\<forall>k\<in>csum_fields isV6 hdr. inp' ! k = 0)
     \<and> (is_tcp_gso hdr \<longrightarrow> Uint32_at (unat (vh_csumStart hdr) + 4) inp' = Some first)"
proof -
  let ?st = "unat (vh_csumStart hdr)" and ?off = "unat (vh_csumOffset hdr)"
  note q = p [unfolded gso_packet_def]
  have c: "?off = (if is_tcp_gso hdr then 16 else 6)" using q by simp
  have st: "20 \<le> ?st" "?st + ?off + 2 \<le> length inp" "?st + 8 \<le> length inp" "length inp < 65536" using q c by (auto split: if_splits)
  have u: "unat (vh_csumStart hdr + vh_csumOffset hdr) = ?st + ?off" "unat (vh_csumStart hdr + 4) = ?st + 4"
    using u16_plus [of "vh_csumStart hdr" ?off] u16_plus [of "vh_csumStart hdr" 4] st by simp_all
  define in1 where "in1 = (if isV6 then inp else inp[10 := 0, 11 := 0])"
  define in2 where "in2 = in1[?st + ?off := 0, ?st + ?off + 1 := 0]"
  have l: "length in1 = length inp" "length in2 = length inp" by (simp_all add: in1_def in2_def)
  have "(if \<not> isV6 then do { inp \<leftarrow> store 10 0 inp; store 11 0 inp } else Some inp) = Some in1" using st by (simp add: store_def in1_def)
  then have "gsoSplit order inp hdr bufs sizes off isV6
      = do { first \<leftarrow> (if is_tcp_gso hdr then Uint32_at (?st + 4) in2 else Some 0);
             gso_loop order in2 hdr isV6 (gso_protocol hdr) first off 0 (unat (vh_hdrLen hdr)) bufs sizes }"
    using st l by (simp add: gsoSplit_def store_def in2_def u gso_protocol_def Let_def)
  moreover obtain first where "(if is_tcp_gso hdr then Uint32_at (?st + 4) in2 else Some 0) = Some first"
    using st l by (cases "is_tcp_gso hdr") (simp_all add: Uint32_at_def)
  moreover have "\<forall>k. k \<notin> csum_fields isV6 hdr \<longrightarrow> in2 ! k = inp ! k" by (auto simp: csum_fields_def in1_def in2_def)
  moreover have "\<forall>k\<in>csum_fields isV6 hdr. in2 ! k = 0" using st by (auto simp: csum_fields_def in1_def in2_def nth_list_update)
  ultimately show ?thesis using l by (intro exI [of _ in2] exI [of _ first]) (auto split: if_splits)
qed

lemma gsoSplit_ok:
  assumes "gso_packet isV6 inp hdr" "hl = unat (vh_hdrLen hdr)" "length bufs \<le> length sizes"
    and "\<forall>j<length bufs. off + hl + min (unat (vh_gsoSize hdr)) (length inp - hl) \<le> length (bufs ! j)"
  shows "\<exists>bufs' sizes'. gsoSplit order inp hdr bufs sizes off isV6
       = Some (if gso_count inp hdr \<le> length bufs then (int (gso_count inp hdr), None) else (int (length bufs) - 1, Some ErrTooManySegments), bufs', sizes')
     \<and> map length bufs' = map length bufs
     \<and> (\<forall>j. j < gso_count inp hdr \<longrightarrow> j < length bufs \<longrightarrow>
          take off (bufs' ! j) = take off (bufs ! j) \<and> segment_ok order isV6 inp hdr j (take (sizes' ! j) (drop off (bufs' ! j))))
     \<and> (gso_count inp hdr \<le> length bufs \<longrightarrow>
          concat (map (\<lambda>j. drop hl (take (sizes' ! j) (drop off (bufs' ! j)))) [0..<gso_count inp hdr]) = drop hl inp)"
proof -
  let ?n = "gso_count inp hdr"
  note q = assms(1) [unfolded gso_packet_def]
  from gsoSplit_loop [OF assms(1), of order bufs sizes off] obtain inp' first where
    r: "gsoSplit order inp hdr bufs sizes off isV6 = gso_loop order inp' hdr isV6 (gso_protocol hdr) first off 0 hl bufs sizes"
      "length inp' = length inp" "\<And>k. k \<notin> csum_fields isV6 hdr \<Longrightarrow> inp' ! k = inp ! k" "\<And>k. k \<in> csum_fields isV6 hdr \<Longrightarrow> inp' ! k = 0"
      "is_tcp_gso hdr \<longrightarrow> Uint32_at (unat (vh_csumStart hdr) + 4) inp' = Some first" unfolding assms(2) by blast
  have n: "gso_count inp' hdr = ?n" using r(2) by (simp add: gso_count_def)
  have p: "gso_packet isV6 inp' hdr" using assms(1) r(2) by (simp add: gso_packet_def)
  obtain bufs' sizes' where s: "gsoSplit order inp hdr bufs sizes off isV6
       = Some (if ?n \<le> length bufs then (int ?n, None) else (int (length bufs) - 1, Some ErrTooManySegments), bufs', sizes')"
     "map length bufs' = map length bufs"
     "\<And>j. j < ?n \<Longrightarrow> j < length bufs \<Longrightarrow>
          take off (bufs' ! j) = take off (bufs ! j) \<and> segment_ok order isV6 inp hdr j (take (sizes' ! j) (drop off (bufs' ! j)))"
  proof -
    have z: "\<not> isV6 \<longrightarrow> inp' ! 10 = 0 \<and> inp' ! 11 = 0" "inp' ! (unat (vh_csumStart hdr) + unat (vh_csumOffset hdr)) = 0"
      "inp' ! (unat (vh_csumStart hdr) + unat (vh_csumOffset hdr) + 1) = 0" by (simp_all add: r(4) csum_fields_def)
    have loop: "gso_loop order inp' hdr isV6 (gso_protocol hdr) first off 0 (hl + 0 * unat (vh_gsoSize hdr)) bufs sizes
      = gsoSplit order inp hdr bufs sizes off isV6" using r(1) by simp
    have cong: "segment_ok order isV6 inp' hdr j seg \<longleftrightarrow> segment_ok order isV6 inp hdr j seg" for j seg
      using assms(1) r(2,3) by (rule segment_ok_cong)
    have b: "\<forall>j<length bufs. off + hl + min (unat (vh_gsoSize hdr)) (length inp' - hl) \<le> length (bufs ! j)" using assms(4) r(2) by simp
    from gso_loop_ok [OF p z r(5) assms(3) le0 le0 assms(2) b, of order] show ?thesis
      unfolding n cong loop by (elim exE conjE) (rule that, assumption+, simp)
  qed
  have "concat (map (\<lambda>j. drop hl (take (sizes' ! j) (drop off (bufs' ! j)))) [0..<?n]) = drop hl inp" if "?n \<le> length bufs"
  proof -
    have m: "map (\<lambda>j. drop hl (take (sizes' ! j) (drop off (bufs' ! j)))) [0..<?n] = map (segment_data inp hdr) [0..<?n]"
      using s(3) that by (simp add: segment_ok_def Let_def assms(2))
    have "length inp \<le> hl + ?n * unat (vh_gsoSize hdr)" using gso_count_less [of hdr inp ?n] q assms(2) by simp
    then show ?thesis unfolding m segment_data_concat using assms(2) by simp
  qed
  with s show ?thesis by blast
qed

text \<open>C31. \<open>gsoSplit\<close> cuts a packet into segments that are packets of their own: with enough buffers it fills as many as the data needs,
  and otherwise it fills all of them and returns \<open>ErrTooManySegments\<close>. Each filled buffer holds the headers of the packet with the lengths,
  the IPv4 identification, the TCP sequence number and the flags of its place, a valid IPv4 header checksum, a valid transport checksum, and
  its part of the data; the parts in order are the data of the packet. The first \<open>off\<close> bytes of a buffer are left alone.\<close>

theorem gsoSplit_segments:
  assumes "gso_packet isV6 inp hdr" "hl = unat (vh_hdrLen hdr)" "length bufs \<le> length sizes"
    and "\<forall>j<length bufs. off + hl + min (unat (vh_gsoSize hdr)) (length inp - hl) \<le> length (bufs ! j)"
  shows "\<exists>bufs' sizes'. gsoSplit order inp hdr bufs sizes off isV6
       = Some (if gso_count inp hdr \<le> length bufs then (int (gso_count inp hdr), None) else (int (length bufs) - 1, Some ErrTooManySegments), bufs', sizes')
     \<and> map length bufs' = map length bufs
     \<and> (\<forall>j. j < gso_count inp hdr \<longrightarrow> j < length bufs \<longrightarrow>
          take off (bufs' ! j) = take off (bufs ! j) \<and> segment_ok order isV6 inp hdr j (take (sizes' ! j) (drop off (bufs' ! j))))
     \<and> (gso_count inp hdr \<le> length bufs \<longrightarrow>
          concat (map (\<lambda>j. drop hl (take (sizes' ! j) (drop off (bufs' ! j)))) [0..<gso_count inp hdr]) = drop hl inp)"
  using assms by (rule gsoSplit_ok)

definition sample_hdr :: virtioNetHdr where
  "sample_hdr = \<lparr>vh_flags = 1, vh_gsoType = 5, vh_hdrLen = 28, vh_gsoSize = 2, vh_csumStart = 20, vh_csumOffset = 6\<rparr>"

text \<open>Three bytes of data over IPv4 and UDP, cut at two bytes: two segments.\<close>

theorem gsoSplit_segments_witness:
  "\<exists>bufs' sizes'. gsoSplit LittleEndian (replicate 28 0 @ [1, 2, 3]) sample_hdr (replicate 3 (replicate 30 9)) [0, 0, 0] 0 False = Some ((2, None), bufs', sizes')
     \<and> segment_ok LittleEndian False (replicate 28 0 @ [1, 2, 3]) sample_hdr 1 (take (sizes' ! 1) (bufs' ! 1))
     \<and> concat (map (\<lambda>j. drop 28 (take (sizes' ! j) (bufs' ! j))) [0..<2]) = [1, 2, 3]"
proof -
  let ?inp = "replicate 28 0 @ [1, 2, 3] :: bytes" and ?bufs = "replicate 3 (replicate 30 9) :: bytes list"
  have p: "gso_packet False ?inp sample_hdr" "28 = unat (vh_hdrLen sample_hdr)" by (simp_all add: gso_packet_def sample_hdr_def is_tcp_gso_def virtio_defs)
  have n: "gso_count ?inp sample_hdr = 2" by (simp add: gso_count_def sample_hdr_def)
  have b: "\<forall>j<length ?bufs. 0 + 28 + min (unat (vh_gsoSize sample_hdr)) (length ?inp - 28) \<le> length (?bufs ! j)" by (simp add: sample_hdr_def)
  from gsoSplit_segments [OF p _ b, of "[0, 0, 0]" LittleEndian, unfolded n] obtain bufs' sizes' where
    "gsoSplit LittleEndian ?inp sample_hdr ?bufs [0, 0, 0] 0 False = Some ((2, None), bufs', sizes')"
    "segment_ok LittleEndian False ?inp sample_hdr 1 (take (sizes' ! 1) (drop 0 (bufs' ! 1)))"
    "concat (map (\<lambda>j. drop 28 (take (sizes' ! j) (drop 0 (bufs' ! j)))) [0..<2]) = drop 28 ?inp" by force
  then show ?thesis by (intro exI [of _ bufs'] exI [of _ sizes']) simp
qed

end
