(* ===== verification/Gro.thy ===== *)
theory Gro
  imports Virtio "HOL-Library.AList"
begin

unbundle bit_operations_syntax

text \<open>
  Coalescing of packets before they are written to the TUN device: the flow tables, \<open>tcpGRO\<close>, \<open>udpGRO\<close> and \<open>handleGRO\<close> of
  \<^verbatim>\<open>src/tun/offload_linux.go\<close>, and \<open>Write\<close> of \<^verbatim>\<open>src/tun/tun_linux.go\<close>. The theorems are in \<open>GroInvariant\<close>, \<open>GroProofs\<close> and \<open>GroWrite\<close>. As in
  \<open>Virtio\<close>, \<open>None\<close> is a panic.
\<close>

section \<open>Buffers and flow tables\<close>

text \<open>A buffer is a slice with its capacity. The code extends a buffer only within its capacity, so that no array is reallocated.\<close>

record gro_buf =
  gb_data :: bytes
  gb_cap :: nat

definition IdealBatchSize :: nat where "IdealBatchSize = 128"

text \<open>\<open>tcpGROTable\<close> and \<open>udpGROTable\<close> differ in their keys and items only. Flows are in the order of their insertion.\<close>

record ('k, 'i) gro_table =
  itemsByFlow :: "('k \<times> 'i list) list"
  itemsPool :: "'i list list"

record tcpFlowKey =
  tk_srcAddr :: bytes
  tk_dstAddr :: bytes
  tk_srcPort :: u16
  tk_dstPort :: u16
  tk_rxAck :: u32
  tk_isV6 :: bool

record tcpGROItem =
  ti_key :: tcpFlowKey
  ti_sentSeq :: u32
  ti_bufsIndex :: u16
  ti_numMerged :: u16
  ti_gsoSize :: u16
  ti_iphLen :: u8
  ti_tcphLen :: u8
  ti_pshSet :: bool

record udpFlowKey =
  uk_srcAddr :: bytes
  uk_dstAddr :: bytes
  uk_srcPort :: u16
  uk_dstPort :: u16
  uk_isV6 :: bool

record udpGROItem =
  ui_key :: udpFlowKey
  ui_bufsIndex :: u16
  ui_numMerged :: u16
  ui_gsoSize :: u16
  ui_iphLen :: u8
  ui_cSumKnownInvalid :: bool

type_synonym tcpGROTable = "(tcpFlowKey, tcpGROItem) gro_table"
type_synonym udpGROTable = "(udpFlowKey, udpGROItem) gro_table"

definition newTCPGROTable :: tcpGROTable where
  "newTCPGROTable = \<lparr>itemsByFlow = [], itemsPool = replicate IdealBatchSize []\<rparr>"

definition newUDPGROTable :: udpGROTable where
  "newUDPGROTable = \<lparr>itemsByFlow = [], itemsPool = replicate IdealBatchSize []\<rparr>"

definition newItems :: "('k, 'i) gro_table \<Rightarrow> ('i list \<times> ('k, 'i) gro_table) option" where
  "newItems t = (if itemsPool t = [] then None else Some (last (itemsPool t), t\<lparr>itemsPool := butlast (itemsPool t)\<rparr>))"

definition insert_item :: "'k \<Rightarrow> 'i \<Rightarrow> ('k, 'i) gro_table \<Rightarrow> ('k, 'i) gro_table option" where
  "insert_item key item t =
     do {
       (items, t) \<leftarrow> (case map_of (itemsByFlow t) key of Some items \<Rightarrow> Some (items, t) | None \<Rightarrow> newItems t);
       Some (t\<lparr>itemsByFlow := AList.update key (items @ [item]) (itemsByFlow t)\<rparr>)
     }"

text \<open>A missing flow is a nil slice: writing to it panics.\<close>

definition flow_items :: "'k \<Rightarrow> ('k, 'i) gro_table \<Rightarrow> 'i list" where
  "flow_items key t = (case map_of (itemsByFlow t) key of Some items \<Rightarrow> items | None \<Rightarrow> [])"

definition updateAt :: "'k \<Rightarrow> 'i \<Rightarrow> nat \<Rightarrow> ('k, 'i) gro_table \<Rightarrow> ('k, 'i) gro_table option" where
  "updateAt key item i t =
     do {
       items \<leftarrow> store i item (flow_items key t);
       Some (t\<lparr>itemsByFlow := AList.update key items (itemsByFlow t)\<rparr>)
     }"

definition deleteAt :: "'k \<Rightarrow> nat \<Rightarrow> ('k, 'i) gro_table \<Rightarrow> ('k, 'i) gro_table option" where
  "deleteAt key i t =
     do {
       l \<leftarrow> slice_at 0 i (flow_items key t);
       r \<leftarrow> slice_from (i + 1) (flow_items key t);
       Some (t\<lparr>itemsByFlow := AList.update key (l @ r) (itemsByFlow t)\<rparr>)
     }"

definition table_reset :: "('k, 'i) gro_table \<Rightarrow> ('k, 'i) gro_table" where
  "table_reset t = \<lparr>itemsByFlow = [], itemsPool = itemsPool t @ map (\<lambda>_. []) (itemsByFlow t)\<rparr>"

text \<open>Addresses are arrays of 16 bytes.\<close>

definition addr16 :: "bytes \<Rightarrow> bytes" where
  "addr16 b = put_at 0 b (replicate 16 0)"

definition newTCPFlowKey :: "bytes \<Rightarrow> nat \<Rightarrow> nat \<Rightarrow> nat \<Rightarrow> tcpFlowKey option" where
  "newTCPFlowKey pkt srcAddrOffset dstAddrOffset tcphOffset =
     do {
       let addrSize = dstAddrOffset - srcAddrOffset;
       src \<leftarrow> slice_at srcAddrOffset dstAddrOffset pkt;
       dst \<leftarrow> slice_at dstAddrOffset (dstAddrOffset + addrSize) pkt;
       srcPort \<leftarrow> Uint16_at tcphOffset pkt;
       dstPort \<leftarrow> Uint16_at (tcphOffset + 2) pkt;
       rxAck \<leftarrow> Uint32_at (tcphOffset + 8) pkt;
       Some \<lparr>tk_srcAddr = addr16 src, tk_dstAddr = addr16 dst, tk_srcPort = srcPort, tk_dstPort = dstPort, tk_rxAck = rxAck, tk_isV6 = (addrSize = 16)\<rparr>
     }"

definition tcp_insert :: "bytes \<Rightarrow> nat \<Rightarrow> nat \<Rightarrow> nat \<Rightarrow> nat \<Rightarrow> nat \<Rightarrow> tcpGROTable \<Rightarrow> tcpGROTable option" where
  "tcp_insert pkt srcAddrOffset dstAddrOffset tcphOffset tcphLen bufsIndex t =
     do {
       key \<leftarrow> newTCPFlowKey pkt srcAddrOffset dstAddrOffset tcphOffset;
       payload \<leftarrow> slice_from (tcphOffset + tcphLen) pkt;
       sentSeq \<leftarrow> Uint32_at (tcphOffset + 4) pkt;
       flags \<leftarrow> idx (tcphOffset + tcpFlagsOffset) pkt;
       insert_item key \<lparr>ti_key = key, ti_sentSeq = sentSeq, ti_bufsIndex = of_nat bufsIndex, ti_numMerged = 0, ti_gsoSize = of_nat (length payload),
         ti_iphLen = of_nat tcphOffset, ti_tcphLen = of_nat tcphLen, ti_pshSet = (flags AND tcpFlagPSH \<noteq> 0)\<rparr> t
     }"

definition tcp_lookupOrInsert ::
  "bytes \<Rightarrow> nat \<Rightarrow> nat \<Rightarrow> nat \<Rightarrow> nat \<Rightarrow> nat \<Rightarrow> tcpGROTable \<Rightarrow> (tcpGROItem list option \<times> tcpGROTable) option" where
  "tcp_lookupOrInsert pkt srcAddrOffset dstAddrOffset tcphOffset tcphLen bufsIndex t =
     do {
       key \<leftarrow> newTCPFlowKey pkt srcAddrOffset dstAddrOffset tcphOffset;
       case map_of (itemsByFlow t) key of
         Some items \<Rightarrow> Some (Some items, t)
       | None \<Rightarrow> do {
           t \<leftarrow> tcp_insert pkt srcAddrOffset dstAddrOffset tcphOffset tcphLen bufsIndex t;
           Some (None, t)
         }
     }"

definition udphLen :: nat where "udphLen = 8"

definition newUDPFlowKey :: "bytes \<Rightarrow> nat \<Rightarrow> nat \<Rightarrow> nat \<Rightarrow> udpFlowKey option" where
  "newUDPFlowKey pkt srcAddrOffset dstAddrOffset udphOffset =
     do {
       let addrSize = dstAddrOffset - srcAddrOffset;
       src \<leftarrow> slice_at srcAddrOffset dstAddrOffset pkt;
       dst \<leftarrow> slice_at dstAddrOffset (dstAddrOffset + addrSize) pkt;
       srcPort \<leftarrow> Uint16_at udphOffset pkt;
       dstPort \<leftarrow> Uint16_at (udphOffset + 2) pkt;
       Some \<lparr>uk_srcAddr = addr16 src, uk_dstAddr = addr16 dst, uk_srcPort = srcPort, uk_dstPort = dstPort, uk_isV6 = (addrSize = 16)\<rparr>
     }"

definition udp_insert :: "bytes \<Rightarrow> nat \<Rightarrow> nat \<Rightarrow> nat \<Rightarrow> nat \<Rightarrow> bool \<Rightarrow> udpGROTable \<Rightarrow> udpGROTable option" where
  "udp_insert pkt srcAddrOffset dstAddrOffset udphOffset bufsIndex cSumKnownInvalid u =
     do {
       key \<leftarrow> newUDPFlowKey pkt srcAddrOffset dstAddrOffset udphOffset;
       payload \<leftarrow> slice_from (udphOffset + udphLen) pkt;
       insert_item key \<lparr>ui_key = key, ui_bufsIndex = of_nat bufsIndex, ui_numMerged = 0, ui_gsoSize = of_nat (length payload),
         ui_iphLen = of_nat udphOffset, ui_cSumKnownInvalid = cSumKnownInvalid\<rparr> u
     }"

definition udp_lookupOrInsert :: "bytes \<Rightarrow> nat \<Rightarrow> nat \<Rightarrow> nat \<Rightarrow> nat \<Rightarrow> udpGROTable \<Rightarrow> (udpGROItem list option \<times> udpGROTable) option" where
  "udp_lookupOrInsert pkt srcAddrOffset dstAddrOffset udphOffset bufsIndex u =
     do {
       key \<leftarrow> newUDPFlowKey pkt srcAddrOffset dstAddrOffset udphOffset;
       case map_of (itemsByFlow u) key of
         Some items \<Rightarrow> Some (Some items, u)
       | None \<Rightarrow> do {
           u \<leftarrow> udp_insert pkt srcAddrOffset dstAddrOffset udphOffset bufsIndex False u;
           Some (None, u)
         }
     }"

section \<open>Which packets coalesce\<close>

datatype canCoalesce = coalescePrepend | coalesceUnavailable | coalesceAppend

definition ipHeadersCanCoalesce :: "bytes \<Rightarrow> bytes \<Rightarrow> bool" where
  "ipHeadersCanCoalesce pktA pktB \<longleftrightarrow>
     (if length pktA < 9 \<or> length pktB < 9 then False
      else if drop_bit 4 (pktA ! 0) = 6
      then \<not> (pktA ! 0 \<noteq> pktB ! 0 \<or> drop_bit 4 (pktA ! 1) \<noteq> drop_bit 4 (pktB ! 1)) \<and> \<not> pktA ! 7 \<noteq> pktB ! 7
      else \<not> pktA ! 1 \<noteq> pktB ! 1 \<and> \<not> drop_bit 5 (pktA ! 6) \<noteq> drop_bit 5 (pktB ! 6) \<and> \<not> pktA ! 8 \<noteq> pktB ! 8)"

text \<open>\<open>bufs[i][off:]\<close>, and the test whether the data after the headers fills whole segments: a remainder by zero panics.\<close>

definition packet_at :: "gro_buf list \<Rightarrow> nat \<Rightarrow> nat \<Rightarrow> bytes option" where
  "packet_at bufs i off = do { b \<leftarrow> idx i bufs; slice_from off (gb_data b) }"

definition whole_segments :: "bytes \<Rightarrow> u8 \<Rightarrow> u16 \<Rightarrow> bool option" where
  "whole_segments pkt hdrLen gsoSize =
     do {
       data \<leftarrow> slice_from (unat hdrLen) pkt;
       if gsoSize = 0 then None else Some (length data mod unat gsoSize = 0)
     }"

definition udpPacketsCanCoalesce :: "bytes \<Rightarrow> u8 \<Rightarrow> u16 \<Rightarrow> udpGROItem \<Rightarrow> gro_buf list \<Rightarrow> nat \<Rightarrow> canCoalesce option" where
  "udpPacketsCanCoalesce pkt iphLen gsoSize item bufs bufsOffset =
     do {
       pktTarget \<leftarrow> packet_at bufs (unat (ui_bufsIndex item)) bufsOffset;
       if \<not> ipHeadersCanCoalesce pkt pktTarget then Some coalesceUnavailable
       else do {
         whole \<leftarrow> whole_segments pktTarget (iphLen + of_nat udphLen) (ui_gsoSize item);
         if \<not> whole then Some coalesceUnavailable
         else if gsoSize > ui_gsoSize item then Some coalesceUnavailable
         else Some coalesceAppend
       }
     }"

definition tcp_options_equal :: "bytes \<Rightarrow> u8 \<Rightarrow> u8 \<Rightarrow> u8 \<Rightarrow> bytes \<Rightarrow> bool option" where
  "tcp_options_equal pkt iphLen tcphLen item_iphLen pktTarget =
     (if tcphLen > 20 then do {
        a \<leftarrow> slice_at (unat (iphLen + 20)) (unat (iphLen + tcphLen)) pkt;
        b \<leftarrow> slice_at (unat (item_iphLen + 20)) (unat (iphLen + tcphLen)) pktTarget;
        Some (a = b)
      } else Some True)"

definition tcpPacketsCanCoalesce ::
  "bytes \<Rightarrow> u8 \<Rightarrow> u8 \<Rightarrow> u32 \<Rightarrow> bool \<Rightarrow> u16 \<Rightarrow> tcpGROItem \<Rightarrow> gro_buf list \<Rightarrow> nat \<Rightarrow> canCoalesce option" where
  "tcpPacketsCanCoalesce pkt iphLen tcphLen seq pshSet gsoSize item bufs bufsOffset =
     do {
       pktTarget \<leftarrow> packet_at bufs (unat (ti_bufsIndex item)) bufsOffset;
       if tcphLen \<noteq> ti_tcphLen item then Some coalesceUnavailable
       else do {
         options \<leftarrow> tcp_options_equal pkt iphLen tcphLen (ti_iphLen item) pktTarget;
         if \<not> options then Some coalesceUnavailable
         else if \<not> ipHeadersCanCoalesce pkt pktTarget then Some coalesceUnavailable
         else let lhsLen = ti_gsoSize item + ti_numMerged item * ti_gsoSize item in
           if seq = ti_sentSeq item + ucast lhsLen then
             if ti_pshSet item then Some coalesceUnavailable
             else do {
               whole \<leftarrow> whole_segments pktTarget (iphLen + tcphLen) (ti_gsoSize item);
               if \<not> whole then Some coalesceUnavailable
               else if gsoSize > ti_gsoSize item then Some coalesceUnavailable
               else Some coalesceAppend
             }
           else if seq + ucast gsoSize = ti_sentSeq item then
             if pshSet then Some coalesceUnavailable
             else if gsoSize < ti_gsoSize item then Some coalesceUnavailable
             else if gsoSize > ti_gsoSize item \<and> ti_numMerged item > 0 then Some coalesceUnavailable
             else Some coalescePrepend
           else Some coalesceUnavailable
       }
     }"

section \<open>Coalescing\<close>

datatype coalesceResult = coalesceInsufficientCap | coalescePSHEnding | coalesceItemInvalidCSum | coalescePktInvalidCSum | coalesceSuccess

text \<open>\<open>bufs[i] = append(bufs[i], make([]byte, extendBy)...)\<close> and the copy of \<open>data\<close> to \<open>bufs[i][at:]\<close>; \<open>make\<close> panics on a
  negative length.\<close>

definition extend_copy :: "nat \<Rightarrow> int \<Rightarrow> nat \<Rightarrow> bytes \<Rightarrow> gro_buf list \<Rightarrow> gro_buf list option" where
  "extend_copy i extendBy at data bufs =
     do {
       b \<leftarrow> idx i bufs;
       if extendBy < 0 then None
       else do {
         d \<leftarrow> copy_at at data (gb_data b @ replicate (nat extendBy) 0);
         Some (bufs[i := b\<lparr>gb_data := d\<rparr>])
       }
     }"

text \<open>\<open>cap(bufs[i][off:]) - off\<close>.\<close>

definition spare_cap :: "gro_buf list \<Rightarrow> nat \<Rightarrow> nat \<Rightarrow> int option" where
  "spare_cap bufs i off = do { b \<leftarrow> idx i bufs; Some (int (gb_cap b) - int off - int off) }"

definition coalesceUDPPackets ::
  "byte_order \<Rightarrow> bytes \<Rightarrow> udpGROItem \<Rightarrow> gro_buf list \<Rightarrow> nat \<Rightarrow> bool \<Rightarrow> (coalesceResult \<times> udpGROItem \<times> gro_buf list) option" where
  "coalesceUDPPackets order pkt item bufs bufsOffset isV6 =
     do {
       let i = unat (ui_bufsIndex item);
       pktHead \<leftarrow> packet_at bufs i bufsOffset;
       let headersLen = ui_iphLen item + of_nat udphLen;
       let coalescedLen = int (length pktHead) + int (length pkt) - int (unat headersLen);
       room \<leftarrow> spare_cap bufs i bufsOffset;
       if room < coalescedLen then Some (coalesceInsufficientCap, item, bufs)
       else do {
         headValid \<leftarrow> (if ui_numMerged item = 0
           then if ui_cSumKnownInvalid item then Some False else checksumValid order pktHead (unat (ui_iphLen item)) IPPROTO_UDP isV6
           else Some True);
         if \<not> headValid then Some (coalesceItemInvalidCSum, item, bufs)
         else do {
           pktValid \<leftarrow> checksumValid order pkt (unat (ui_iphLen item)) IPPROTO_UDP isV6;
           if \<not> pktValid then Some (coalescePktInvalidCSum, item, bufs)
           else do {
             payload \<leftarrow> slice_from (unat headersLen) pkt;
             bufs \<leftarrow> extend_copy i (int (length pkt) - int (unat headersLen)) (bufsOffset + length pktHead) payload bufs;
             Some (coalesceSuccess, item\<lparr>ui_numMerged := ui_numMerged item + 1\<rparr>, bufs)
           }
         }
       }
     }"

definition item_csum_valid :: "byte_order \<Rightarrow> tcpGROItem \<Rightarrow> bytes \<Rightarrow> bool \<Rightarrow> bool option" where
  "item_csum_valid order item pkt isV6 =
     (if ti_numMerged item = 0 then checksumValid order pkt (unat (ti_iphLen item)) IPPROTO_TCP isV6 else Some True)"

text \<open>The packet in front of the item; the buffers of the two are swapped.\<close>

definition coalesce_prepend ::
  "byte_order \<Rightarrow> bytes \<Rightarrow> nat \<Rightarrow> u32 \<Rightarrow> bool \<Rightarrow> tcpGROItem \<Rightarrow> gro_buf list \<Rightarrow> nat \<Rightarrow> bool \<Rightarrow> (coalesceResult \<times> tcpGROItem \<times> gro_buf list) option" where
  "coalesce_prepend order pkt pktBuffsIndex seq pshSet item bufs bufsOffset isV6 =
     do {
       let i = unat (ti_bufsIndex item);
       let headersLen = ti_iphLen item + ti_tcphLen item;
       pktItem \<leftarrow> packet_at bufs i bufsOffset;
       let coalescedLen = int (length pktItem) + int (length pkt) - int (unat headersLen);
       room \<leftarrow> spare_cap bufs pktBuffsIndex bufsOffset;
       if room < coalescedLen then Some (coalesceInsufficientCap, item, bufs)
       else if pshSet then Some (coalescePSHEnding, item, bufs)
       else do {
         headValid \<leftarrow> item_csum_valid order item pktItem isV6;
         if \<not> headValid then Some (coalesceItemInvalidCSum, item, bufs)
         else do {
           pktValid \<leftarrow> checksumValid order pkt (unat (ti_iphLen item)) IPPROTO_TCP isV6;
           if \<not> pktValid then Some (coalescePktInvalidCSum, item, bufs)
           else do {
             payload \<leftarrow> slice_from (unat headersLen) pktItem;
             bufs \<leftarrow> extend_copy pktBuffsIndex (coalescedLen - int (length pkt)) (bufsOffset + length pkt) payload bufs;
             a \<leftarrow> idx i bufs;
             b \<leftarrow> idx pktBuffsIndex bufs;
             Some (coalesceSuccess, item\<lparr>ti_sentSeq := seq\<rparr>, bufs[i := b, pktBuffsIndex := a])
           }
         }
       }
     }"

text \<open>The packet after the item.\<close>

definition coalesce_append ::
  "byte_order \<Rightarrow> bytes \<Rightarrow> bool \<Rightarrow> tcpGROItem \<Rightarrow> gro_buf list \<Rightarrow> nat \<Rightarrow> bool \<Rightarrow> (coalesceResult \<times> tcpGROItem \<times> gro_buf list) option" where
  "coalesce_append order pkt pshSet item bufs bufsOffset isV6 =
     do {
       let i = unat (ti_bufsIndex item);
       let headersLen = ti_iphLen item + ti_tcphLen item;
       pktHead \<leftarrow> packet_at bufs i bufsOffset;
       let coalescedLen = int (length pktHead) + int (length pkt) - int (unat headersLen);
       room \<leftarrow> spare_cap bufs i bufsOffset;
       if room < coalescedLen then Some (coalesceInsufficientCap, item, bufs)
       else do {
         headValid \<leftarrow> item_csum_valid order item pktHead isV6;
         if \<not> headValid then Some (coalesceItemInvalidCSum, item, bufs)
         else do {
           pktValid \<leftarrow> checksumValid order pkt (unat (ti_iphLen item)) IPPROTO_TCP isV6;
           if \<not> pktValid then Some (coalescePktInvalidCSum, item, bufs)
           else do {
             (item, bufs) \<leftarrow> (if pshSet then do {
                 let flagsAt = unat (ti_iphLen item + of_nat tcpFlagsOffset);
                 flags \<leftarrow> idx flagsAt pktHead;
                 b \<leftarrow> idx i bufs;
                 Some (item\<lparr>ti_pshSet := True\<rparr>, bufs[i := b\<lparr>gb_data := (gb_data b)[bufsOffset + flagsAt := flags OR tcpFlagPSH]\<rparr>])
               } else Some (item, bufs));
             payload \<leftarrow> slice_from (unat headersLen) pkt;
             bufs \<leftarrow> extend_copy i (int (length pkt) - int (unat headersLen)) (bufsOffset + length pktHead) payload bufs;
             Some (coalesceSuccess, item, bufs)
           }
         }
       }
     }"

definition coalesceTCPPackets ::
  "byte_order \<Rightarrow> canCoalesce \<Rightarrow> bytes \<Rightarrow> nat \<Rightarrow> u16 \<Rightarrow> u32 \<Rightarrow> bool \<Rightarrow> tcpGROItem \<Rightarrow> gro_buf list \<Rightarrow> nat \<Rightarrow> bool
     \<Rightarrow> (coalesceResult \<times> tcpGROItem \<times> gro_buf list) option" where
  "coalesceTCPPackets order mode pkt pktBuffsIndex gsoSize seq pshSet item bufs bufsOffset isV6 =
     do {
       (result, item, bufs) \<leftarrow> (if mode = coalescePrepend then coalesce_prepend order pkt pktBuffsIndex seq pshSet item bufs bufsOffset isV6
                               else coalesce_append order pkt pshSet item bufs bufsOffset isV6);
       if result \<noteq> coalesceSuccess then Some (result, item, bufs)
       else let item = (if gsoSize > ti_gsoSize item then item\<lparr>ti_gsoSize := gsoSize\<rparr> else item)
            in Some (coalesceSuccess, item\<lparr>ti_numMerged := ti_numMerged item + 1\<rparr>, bufs)
     }"

section \<open>One packet\<close>

definition ipv4FlagMoreFragments :: u8 where "ipv4FlagMoreFragments = 0x20"
definition maxUint16 :: nat where "maxUint16 = 2 ^ 16 - 1"

datatype groResult = groResultNoop | groResultTableInsert | groResultCoalesced

text \<open>\<open>clear(bufs[i][off-virtioNetHdrLen : off])\<close>.\<close>

definition clear_hdr :: "nat \<Rightarrow> nat \<Rightarrow> gro_buf list \<Rightarrow> gro_buf list option" where
  "clear_hdr i off bufs =
     do {
       b \<leftarrow> idx i bufs;
       if virtioNetHdrLen \<le> off \<and> off \<le> length (gb_data b)
       then Some (bufs[i := b\<lparr>gb_data := put_at (off - virtioNetHdrLen) (replicate virtioNetHdrLen 0) (gb_data b)\<rparr>])
       else None
     }"

text \<open>The checks both protocols begin with: the length of the IP header of a packet that is a candidate.\<close>

definition gro_iphLen :: "bytes \<Rightarrow> bool \<Rightarrow> nat option option" where
  "gro_iphLen pkt isV6 =
     (if length pkt > maxUint16 then Some None
      else do {
        b \<leftarrow> idx 0 pkt;
        let iphLen = (if isV6 then 40 else unat ((b AND 0x0F) * 4));
        whole \<leftarrow> (if isV6 then do { n \<leftarrow> Uint16_at 4 pkt; Some (int (unat n) = int (length pkt) - int iphLen) }
                  else do { n \<leftarrow> Uint16_at 2 pkt; Some (unat n = length pkt) });
        Some (if \<not> whole then None else if length pkt < iphLen then None else Some iphLen)
      })"

definition gro_fragmented :: "bytes \<Rightarrow> bool \<Rightarrow> bool option" where
  "gro_fragmented pkt isV6 =
     (if isV6 then Some False
      else do {
        a \<leftarrow> idx 6 pkt;
        b \<leftarrow> idx 7 pkt;
        Some (a AND ipv4FlagMoreFragments \<noteq> 0 \<or> push_bit 3 a \<noteq> 0 \<or> b \<noteq> 0)
      })"

text \<open>The loop over the items of the flow, from the last one: \<open>i\<close> items are left. \<open>items\<close> is the slice found before the loop;
  \<open>deleteAt\<close> moves only elements behind the one it deletes.\<close>

primrec tcp_gro_loop ::
  "byte_order \<Rightarrow> bytes \<Rightarrow> nat \<Rightarrow> nat \<Rightarrow> nat \<Rightarrow> u32 \<Rightarrow> bool \<Rightarrow> u16 \<Rightarrow> nat \<Rightarrow> bool \<Rightarrow> tcpGROItem list \<Rightarrow> nat \<Rightarrow> gro_buf list \<Rightarrow> tcpGROTable
     \<Rightarrow> (groResult option \<times> gro_buf list \<times> tcpGROTable) option" where
  "tcp_gro_loop order pkt pktI iphLen tcphLen seq pshSet gsoSize offset isV6 items 0 bufs table = Some (None, bufs, table)"
| "tcp_gro_loop order pkt pktI iphLen tcphLen seq pshSet gsoSize offset isV6 items (Suc i) bufs table =
     do {
       item \<leftarrow> idx i items;
       can \<leftarrow> tcpPacketsCanCoalesce pkt (of_nat iphLen) (of_nat tcphLen) seq pshSet gsoSize item bufs offset;
       if can = coalesceUnavailable
       then tcp_gro_loop order pkt pktI iphLen tcphLen seq pshSet gsoSize offset isV6 items i bufs table
       else do {
         (result, item, bufs) \<leftarrow> coalesceTCPPackets order can pkt pktI gsoSize seq pshSet item bufs offset isV6;
         case result of
           coalesceSuccess \<Rightarrow> do {
             table \<leftarrow> updateAt (ti_key item) item i table;
             Some (Some groResultCoalesced, bufs, table)
           }
         | coalesceItemInvalidCSum \<Rightarrow> do {
             table \<leftarrow> deleteAt (ti_key item) i table;
             bufs \<leftarrow> clear_hdr (unat (ti_bufsIndex item)) offset bufs;
             tcp_gro_loop order pkt pktI iphLen tcphLen seq pshSet gsoSize offset isV6 items i bufs table
           }
         | coalescePktInvalidCSum \<Rightarrow> Some (Some groResultNoop, bufs, table)
         | _ \<Rightarrow> tcp_gro_loop order pkt pktI iphLen tcphLen seq pshSet gsoSize offset isV6 items i bufs table
       }
     }"

text \<open>The flags: \<open>None\<close> for a packet that is not a candidate, otherwise whether PSH is set.\<close>

definition tcp_psh :: "u8 \<Rightarrow> bool option" where
  "tcp_psh tcpFlags = (if tcpFlags \<noteq> tcpFlagACK then if tcpFlags \<noteq> tcpFlagACK OR tcpFlagPSH then None else Some True else Some False)"

definition tcp_gro_flow ::
  "byte_order \<Rightarrow> bytes \<Rightarrow> nat \<Rightarrow> nat \<Rightarrow> nat \<Rightarrow> bool \<Rightarrow> nat \<Rightarrow> bool \<Rightarrow> gro_buf list \<Rightarrow> tcpGROTable \<Rightarrow> (groResult \<times> gro_buf list \<times> tcpGROTable) option" where
  "tcp_gro_flow order pkt pktI iphLen tcphLen pshSet offset isV6 bufs table =
     do {
       let gsoSize = (of_nat (length pkt - tcphLen - iphLen) :: u16);
       if gsoSize < 1 then Some (groResultNoop, bufs, table)
       else do {
         seq \<leftarrow> Uint32_at (iphLen + 4) pkt;
         let at = addr_offset isV6;
         (existing, table) \<leftarrow> tcp_lookupOrInsert pkt at (at + addr_size isV6) iphLen tcphLen pktI table;
         case existing of
           None \<Rightarrow> Some (groResultTableInsert, bufs, table)
         | Some items \<Rightarrow> do {
             (result, bufs, table) \<leftarrow> tcp_gro_loop order pkt pktI iphLen tcphLen seq pshSet gsoSize offset isV6 items (length items) bufs table;
             case result of
               Some r \<Rightarrow> Some (r, bufs, table)
             | None \<Rightarrow> do {
                 table \<leftarrow> tcp_insert pkt at (at + addr_size isV6) iphLen tcphLen pktI table;
                 Some (groResultTableInsert, bufs, table)
               }
           }
       }
     }"

definition tcpGRO :: "byte_order \<Rightarrow> gro_buf list \<Rightarrow> nat \<Rightarrow> nat \<Rightarrow> tcpGROTable \<Rightarrow> bool \<Rightarrow> (groResult \<times> gro_buf list \<times> tcpGROTable) option" where
  "tcpGRO order bufs offset pktI table isV6 =
     do {
       let noop = Some (groResultNoop, bufs, table);
       pkt \<leftarrow> packet_at bufs pktI offset;
       l \<leftarrow> gro_iphLen pkt isV6;
       case l of
         None \<Rightarrow> noop
       | Some iphLen \<Rightarrow> do {
           b \<leftarrow> idx (iphLen + 12) pkt;
           let tcphLen = unat (drop_bit 4 b * 4);
           if tcphLen < 20 \<or> tcphLen > 60 then noop
           else if length pkt < iphLen + tcphLen then noop
           else do {
             fragmented \<leftarrow> gro_fragmented pkt isV6;
             if fragmented then noop
             else do {
               tcpFlags \<leftarrow> idx (iphLen + tcpFlagsOffset) pkt;
               case tcp_psh tcpFlags of
                 None \<Rightarrow> noop
               | Some pshSet \<Rightarrow> tcp_gro_flow order pkt pktI iphLen tcphLen pshSet offset isV6 bufs table
             }
           }
         }
     }"

text \<open>UDP compares with the last item of the flow only, to keep the order of the packets.\<close>

definition udp_gro_flow ::
  "byte_order \<Rightarrow> bytes \<Rightarrow> nat \<Rightarrow> nat \<Rightarrow> nat \<Rightarrow> bool \<Rightarrow> gro_buf list \<Rightarrow> udpGROTable \<Rightarrow> (groResult \<times> gro_buf list \<times> udpGROTable) option" where
  "udp_gro_flow order pkt pktI iphLen offset isV6 bufs table =
     do {
       let gsoSize = (of_nat (length pkt - udphLen - iphLen) :: u16);
       if gsoSize < 1 then Some (groResultNoop, bufs, table)
       else do {
         let at = addr_offset isV6;
         (existing, table) \<leftarrow> udp_lookupOrInsert pkt at (at + addr_size isV6) iphLen pktI table;
         case existing of
           None \<Rightarrow> Some (groResultTableInsert, bufs, table)
         | Some items \<Rightarrow> do {
             item \<leftarrow> (if items = [] then None else Some (last items));
             can \<leftarrow> udpPacketsCanCoalesce pkt (of_nat iphLen) gsoSize item bufs offset;
             (result, item, bufs) \<leftarrow> (if can = coalesceAppend then coalesceUDPPackets order pkt item bufs offset isV6
                                     else Some (coalesceInsufficientCap, item, bufs));
             if result = coalesceSuccess then do {
               table \<leftarrow> updateAt (ui_key item) item (length items - 1) table;
               Some (groResultCoalesced, bufs, table)
             }
             else do {
               table \<leftarrow> udp_insert pkt at (at + addr_size isV6) iphLen pktI (result = coalescePktInvalidCSum) table;
               Some (groResultTableInsert, bufs, table)
             }
           }
       }
     }"

definition udpGRO :: "byte_order \<Rightarrow> gro_buf list \<Rightarrow> nat \<Rightarrow> nat \<Rightarrow> udpGROTable \<Rightarrow> bool \<Rightarrow> (groResult \<times> gro_buf list \<times> udpGROTable) option" where
  "udpGRO order bufs offset pktI table isV6 =
     do {
       let noop = Some (groResultNoop, bufs, table);
       pkt \<leftarrow> packet_at bufs pktI offset;
       l \<leftarrow> gro_iphLen pkt isV6;
       case l of
         None \<Rightarrow> noop
       | Some iphLen \<Rightarrow>
           if length pkt < iphLen + udphLen then noop
           else do {
             fragmented \<leftarrow> gro_fragmented pkt isV6;
             if fragmented then noop else udp_gro_flow order pkt pktI iphLen offset isV6 bufs table
           }
     }"

section \<open>Accounting\<close>

text \<open>The lengths and the IPv4 header checksum of a coalesced packet.\<close>

definition account_ip :: "byte_order \<Rightarrow> bool \<Rightarrow> u8 \<Rightarrow> bytes \<Rightarrow> bytes option" where
  "account_ip order isV6 iphLen pkt =
     (if isV6 then PutUint16_at 4 (of_nat (length pkt) - ucast iphLen) pkt
      else do {
        pkt \<leftarrow> store 10 0 pkt;
        pkt \<leftarrow> store 11 0 pkt;
        pkt \<leftarrow> PutUint16_at 2 (of_nat (length pkt)) pkt;
        h \<leftarrow> slice_at 0 (unat iphLen) pkt;
        PutUint16_at 10 (NOT (checksum order h 0)) pkt
      })"

text \<open>The sum of the pseudo header in the checksum field: the kernel adds the rest.\<close>

definition account_psum :: "byte_order \<Rightarrow> u8 \<Rightarrow> bool \<Rightarrow> u8 \<Rightarrow> virtioNetHdr \<Rightarrow> bytes \<Rightarrow> bytes option" where
  "account_psum order protocol isV6 iphLen hdr pkt =
     do {
       let at = addr_offset isV6;
       src \<leftarrow> slice_at at (at + addr_size isV6) pkt;
       dst \<leftarrow> slice_at (at + addr_size isV6) (at + addr_size isV6 * 2) pkt;
       let psum = pseudoHeaderChecksumNoFold order protocol src dst (of_int (int (length pkt) - int (unat iphLen)));
       PutUint16_at (unat (vh_csumStart hdr + vh_csumOffset hdr)) (checksum order [] psum) pkt
     }"

text \<open>\<open>hdr.encode(bufs[i][offset-virtioNetHdrLen:])\<close> on the whole buffer.\<close>

definition encode_at :: "byte_order \<Rightarrow> virtioNetHdr \<Rightarrow> nat \<Rightarrow> bytes \<Rightarrow> (offload_error + bytes) option" where
  "encode_at order hdr offset data =
     (if offset < virtioNetHdrLen then None
      else do {
        d \<leftarrow> slice_from (offset - virtioNetHdrLen) data;
        Some (case hdr_encode order hdr d of Inl e \<Rightarrow> Inl e | Inr d \<Rightarrow> Inr (take (offset - virtioNetHdrLen) data @ d))
      })"

definition tcp_item_hdr :: "tcpGROItem \<Rightarrow> virtioNetHdr" where
  "tcp_item_hdr item = \<lparr>vh_flags = VIRTIO_NET_HDR_F_NEEDS_CSUM, vh_gsoType = (if tk_isV6 (ti_key item) then VIRTIO_NET_HDR_GSO_TCPV6 else VIRTIO_NET_HDR_GSO_TCPV4),
     vh_hdrLen = ucast (ti_iphLen item + ti_tcphLen item), vh_gsoSize = ti_gsoSize item, vh_csumStart = ucast (ti_iphLen item), vh_csumOffset = 16\<rparr>"

definition udp_item_hdr :: "udpGROItem \<Rightarrow> virtioNetHdr" where
  "udp_item_hdr item = \<lparr>vh_flags = VIRTIO_NET_HDR_F_NEEDS_CSUM, vh_gsoType = VIRTIO_NET_HDR_GSO_UDP_L4,
     vh_hdrLen = ucast (ui_iphLen item + of_nat udphLen), vh_gsoSize = ui_gsoSize item, vh_csumStart = ucast (ui_iphLen item), vh_csumOffset = 6\<rparr>"

definition tcp_account_item :: "byte_order \<Rightarrow> nat \<Rightarrow> tcpGROItem \<Rightarrow> gro_buf list \<Rightarrow> (offload_error option \<times> gro_buf list) option" where
  "tcp_account_item order offset item bufs =
     (let i = unat (ti_bufsIndex item); isV6 = tk_isV6 (ti_key item); hdr = tcp_item_hdr item in
      if ti_numMerged item > 0 then do {
        b \<leftarrow> idx i bufs;
        pkt \<leftarrow> slice_from offset (gb_data b);
        pkt \<leftarrow> account_ip order isV6 (ti_iphLen item) pkt;
        r \<leftarrow> encode_at order hdr offset (take offset (gb_data b) @ pkt);
        case r of
          Inl e \<Rightarrow> Some (Some e, bufs[i := b\<lparr>gb_data := take offset (gb_data b) @ pkt\<rparr>])
        | Inr d \<Rightarrow> do {
            pkt \<leftarrow> account_psum order IPPROTO_TCP isV6 (ti_iphLen item) hdr (drop offset d);
            Some (None, bufs[i := b\<lparr>gb_data := take offset d @ pkt\<rparr>])
          }
      }
      else do { bufs \<leftarrow> clear_hdr i offset bufs; Some (None, bufs) })"

definition udp_account_item :: "byte_order \<Rightarrow> nat \<Rightarrow> udpGROItem \<Rightarrow> gro_buf list \<Rightarrow> (offload_error option \<times> gro_buf list) option" where
  "udp_account_item order offset item bufs =
     (let i = unat (ui_bufsIndex item); isV6 = uk_isV6 (ui_key item); hdr = udp_item_hdr item in
      if ui_numMerged item > 0 then do {
        b \<leftarrow> idx i bufs;
        pkt \<leftarrow> slice_from offset (gb_data b);
        pkt \<leftarrow> account_ip order isV6 (ui_iphLen item) pkt;
        r \<leftarrow> encode_at order hdr offset (take offset (gb_data b) @ pkt);
        case r of
          Inl e \<Rightarrow> Some (Some e, bufs[i := b\<lparr>gb_data := take offset (gb_data b) @ pkt\<rparr>])
        | Inr d \<Rightarrow> do {
            t \<leftarrow> slice_from (unat (ui_iphLen item)) (drop offset d);
            pkt \<leftarrow> PutUint16_at (unat (ui_iphLen item + 4)) (of_nat (length t)) (drop offset d);
            pkt \<leftarrow> account_psum order IPPROTO_UDP isV6 (ui_iphLen item) hdr pkt;
            Some (None, bufs[i := b\<lparr>gb_data := take offset d @ pkt\<rparr>])
          }
      }
      else do { bufs \<leftarrow> clear_hdr i offset bufs; Some (None, bufs) })"

text \<open>The loops over the items of all flows; they stop at the first error.\<close>

fun account_items :: "('i \<Rightarrow> gro_buf list \<Rightarrow> (offload_error option \<times> gro_buf list) option) \<Rightarrow> 'i list \<Rightarrow> gro_buf list \<Rightarrow> (offload_error option \<times> gro_buf list) option" where
  "account_items f [] bufs = Some (None, bufs)"
| "account_items f (item # items) bufs =
     do {
       (err, bufs) \<leftarrow> f item bufs;
       case err of Some e \<Rightarrow> Some (Some e, bufs) | None \<Rightarrow> account_items f items bufs
     }"

definition all_items :: "('k, 'i) gro_table \<Rightarrow> 'i list" where
  "all_items t = concat (map snd (itemsByFlow t))"

definition applyTCPCoalesceAccounting :: "byte_order \<Rightarrow> gro_buf list \<Rightarrow> nat \<Rightarrow> tcpGROTable \<Rightarrow> (offload_error option \<times> gro_buf list) option" where
  "applyTCPCoalesceAccounting order bufs offset table = account_items (tcp_account_item order offset) (all_items table) bufs"

definition applyUDPCoalesceAccounting :: "byte_order \<Rightarrow> gro_buf list \<Rightarrow> nat \<Rightarrow> udpGROTable \<Rightarrow> (offload_error option \<times> gro_buf list) option" where
  "applyUDPCoalesceAccounting order bufs offset table = account_items (udp_account_item order offset) (all_items table) bufs"

section \<open>All packets\<close>

datatype groCandidateType = notGROCandidate | tcp4GROCandidate | tcp6GROCandidate | udp4GROCandidate | udp6GROCandidate

definition packetIsGROCandidate :: "bytes \<Rightarrow> bool \<Rightarrow> groCandidateType" where
  "packetIsGROCandidate b canUDPGRO =
     (if length b < 28 then notGROCandidate
      else if drop_bit 4 (b ! 0) = 4 then
        if b ! 0 AND 0x0F \<noteq> 5 then notGROCandidate
        else if b ! 9 = IPPROTO_TCP \<and> length b \<ge> 40 then tcp4GROCandidate
        else if b ! 9 = IPPROTO_UDP \<and> canUDPGRO then udp4GROCandidate
        else notGROCandidate
      else if drop_bit 4 (b ! 0) = 6 then
        if b ! 6 = IPPROTO_TCP \<and> length b \<ge> 60 then tcp6GROCandidate
        else if b ! 6 = IPPROTO_UDP \<and> length b \<ge> 48 \<and> canUDPGRO then udp6GROCandidate
        else notGROCandidate
      else notGROCandidate)"

record gro_state =
  gs_bufs :: "gro_buf list"
  gs_tcp :: tcpGROTable
  gs_udp :: udpGROTable
  gs_toWrite :: "nat list"

definition gro_dispatch :: "byte_order \<Rightarrow> nat \<Rightarrow> bool \<Rightarrow> nat \<Rightarrow> bytes \<Rightarrow> gro_state \<Rightarrow> (groResult \<times> gro_state) option" where
  "gro_dispatch order offset canUDPGRO i pkt s =
     (let tcp = (\<lambda>isV6. do { (r, bufs, t) \<leftarrow> tcpGRO order (gs_bufs s) offset i (gs_tcp s) isV6; Some (r, s\<lparr>gs_bufs := bufs, gs_tcp := t\<rparr>) });
          udp = (\<lambda>isV6. do { (r, bufs, u) \<leftarrow> udpGRO order (gs_bufs s) offset i (gs_udp s) isV6; Some (r, s\<lparr>gs_bufs := bufs, gs_udp := u\<rparr>) })
      in case packetIsGROCandidate pkt canUDPGRO of
           tcp4GROCandidate \<Rightarrow> tcp False
         | tcp6GROCandidate \<Rightarrow> tcp True
         | udp4GROCandidate \<Rightarrow> udp False
         | udp6GROCandidate \<Rightarrow> udp True
         | notGROCandidate \<Rightarrow> Some (groResultNoop, s))"

definition gro_packet :: "byte_order \<Rightarrow> nat \<Rightarrow> bool \<Rightarrow> nat \<Rightarrow> gro_state \<Rightarrow> (offload_error + gro_state) option" where
  "gro_packet order offset canUDPGRO i s =
     do {
       b \<leftarrow> idx i (gs_bufs s);
       if offset < virtioNetHdrLen \<or> int offset > int (length (gb_data b)) - 1 then Some (Inl ErrInvalidOffset)
       else do {
         (result, s) \<leftarrow> gro_dispatch order offset canUDPGRO i (drop offset (gb_data b)) s;
         case result of
           groResultNoop \<Rightarrow> do {
             bufs \<leftarrow> clear_hdr i offset (gs_bufs s);
             Some (Inr (s\<lparr>gs_bufs := bufs, gs_toWrite := gs_toWrite s @ [i]\<rparr>))
           }
         | groResultTableInsert \<Rightarrow> Some (Inr (s\<lparr>gs_toWrite := gs_toWrite s @ [i]\<rparr>))
         | groResultCoalesced \<Rightarrow> Some (Inr s)
       }
     }"

text \<open>The loop over the packets \<open>is\<close>; on an error the state is the one before the packet.\<close>

fun gro_loop :: "byte_order \<Rightarrow> nat \<Rightarrow> bool \<Rightarrow> nat list \<Rightarrow> gro_state \<Rightarrow> (offload_error option \<times> gro_state) option" where
  "gro_loop order offset canUDPGRO [] s = Some (None, s)"
| "gro_loop order offset canUDPGRO (i # is) s =
     do {
       r \<leftarrow> gro_packet order offset canUDPGRO i s;
       case r of Inl e \<Rightarrow> Some (Some e, s) | Inr s \<Rightarrow> gro_loop order offset canUDPGRO is s
     }"

text \<open>The errors that are joined; the empty list is nil.\<close>

definition handleGRO :: "byte_order \<Rightarrow> nat \<Rightarrow> bool \<Rightarrow> gro_state \<Rightarrow> (offload_error list \<times> gro_state) option" where
  "handleGRO order offset canUDPGRO s =
     do {
       (err, s) \<leftarrow> gro_loop order offset canUDPGRO [0..<length (gs_bufs s)] s;
       case err of
         Some e \<Rightarrow> Some ([e], s)
       | None \<Rightarrow> do {
           (errTCP, bufs) \<leftarrow> applyTCPCoalesceAccounting order (gs_bufs s) offset (gs_tcp s);
           (errUDP, bufs) \<leftarrow> applyUDPCoalesceAccounting order bufs offset (gs_udp s);
           Some (case_option [] (\<lambda>e. [e]) errTCP @ case_option [] (\<lambda>e. [e]) errUDP, s\<lparr>gs_bufs := bufs\<rparr>)
         }
     }"

section \<open>Reading and writing\<close>

text \<open>\<open>tf\<close> is what the file of the TUN device does with the packets written to it, in their order: it takes a number of bytes, reports that
  it is closed, or fails. The packets given to it are returned.\<close>

datatype file_result = FileWrote nat | FileClosed | FileError

datatype write_error = ErrClosed | ErrGRO "offload_error list" | ErrFile nat

fun write_packets :: "(nat \<Rightarrow> file_result) \<Rightarrow> nat \<Rightarrow> bytes list \<Rightarrow> nat \<Rightarrow> nat \<Rightarrow> (nat \<times> write_error option) \<times> bytes list" where
  "write_packets tf k [] failed written = ((written, if failed = 0 then None else Some (ErrFile failed)), [])"
| "write_packets tf k (p # ps) failed written =
     (case tf k of
        FileClosed \<Rightarrow> ((written, Some ErrClosed), [p])
      | FileError \<Rightarrow> let (r, out) = write_packets tf (Suc k) ps (Suc failed) written in (r, p # out)
      | FileWrote n \<Rightarrow> let (r, out) = write_packets tf (Suc k) ps failed (written + n) in (r, p # out))"

record NativeTun =
  nt_vnetHdr :: bool
  nt_udpGSO :: bool
  nt_tcpGROTable :: tcpGROTable
  nt_udpGROTable :: udpGROTable

definition tables_reset :: "gro_state \<Rightarrow> NativeTun \<Rightarrow> NativeTun" where
  "tables_reset s tun = tun\<lparr>nt_tcpGROTable := table_reset (gs_tcp s), nt_udpGROTable := table_reset (gs_udp s)\<rparr>"

definition Tun_Write ::
  "byte_order \<Rightarrow> (nat \<Rightarrow> file_result) \<Rightarrow> gro_buf list \<Rightarrow> nat \<Rightarrow> NativeTun \<Rightarrow> (((nat \<times> write_error option) \<times> bytes list) \<times> NativeTun) option" where
  "Tun_Write order tf bufs offset tun =
     (let s = \<lparr>gs_bufs = bufs, gs_tcp = nt_tcpGROTable tun, gs_udp = nt_udpGROTable tun, gs_toWrite = []\<rparr> in
      if nt_vnetHdr tun then do {
        (errs, s) \<leftarrow> handleGRO order offset (nt_udpGSO tun) s;
        if errs \<noteq> [] then Some (((0, Some (ErrGRO errs)), []), tables_reset s tun)
        else do {
          ps \<leftarrow> those (map (\<lambda>i. if offset < virtioNetHdrLen then None else packet_at (gs_bufs s) i (offset - virtioNetHdrLen)) (gs_toWrite s));
          Some (write_packets tf 0 ps 0 0, tables_reset s tun)
        }
      }
      else do {
        ps \<leftarrow> those (map (\<lambda>i. packet_at bufs i offset) [0..<length bufs]);
        Some (write_packets tf 0 ps 0 0, tables_reset s tun)
      })"

text \<open>\<open>pending\<close> is an error that another goroutine has queued; \<open>file\<close> is what the file delivers into a slice of a given length.\<close>

datatype file_input = FileRead bytes | FileReadClosed | FileReadError

datatype read_error = ErrPending | ErrReadClosed | ErrReadFile | ErrOffload offload_error

definition readBuffLen :: nat where "readBuffLen = virtioNetHdrLen + 65535"

definition Tun_Read ::
  "byte_order \<Rightarrow> bool \<Rightarrow> (nat \<Rightarrow> file_input) \<Rightarrow> bytes list \<Rightarrow> nat list \<Rightarrow> nat \<Rightarrow> NativeTun \<Rightarrow> ((int \<times> read_error option) \<times> bytes list \<times> nat list) option" where
  "Tun_Read order pending file bufs sizes offset tun =
     (if pending then Some ((0, Some ErrPending), bufs, sizes)
      else do {
        b \<leftarrow> idx 0 bufs;
        d \<leftarrow> slice_from offset b;
        let room = (if nt_vnetHdr tun then readBuffLen else length d);
        case file room of
          FileReadClosed \<Rightarrow> Some ((0, Some ErrReadClosed), bufs, sizes)
        | FileReadError \<Rightarrow> Some ((0, Some ErrReadFile), bufs, sizes)
        | FileRead bs \<Rightarrow>
            if nt_vnetHdr tun then do {
              ((n, err), bufs, sizes) \<leftarrow> handleVirtioRead order (take room bs) bufs sizes offset;
              Some ((n, map_option ErrOffload err), bufs, sizes)
            }
            else do {
              sizes \<leftarrow> store 0 (length (take room bs)) sizes;
              Some ((1, None), bufs[0 := put_at offset (take room bs) b], sizes)
            }
      })"

end
