(* ===== verification/GroInvariant.thy ===== *)
theory GroInvariant
  imports Gro "HOL-Library.Multiset"
begin

unbundle bit_operations_syntax

text \<open>
  Coalescing loses nothing: an invariant of \<open>handleGRO\<close> says which of the original packets each packet to be written stands for. \<open>grouped\<close>
  describes the data of such a packet, the table lemmas follow the items through the flow tables.
\<close>

section \<open>Flow tables\<close>

definition table_wf :: "('i \<Rightarrow> 'k) \<Rightarrow> ('k, 'i) gro_table \<Rightarrow> bool" where
  "table_wf keyf t \<longleftrightarrow> (\<forall>(k, items)\<in>set (itemsByFlow t). \<forall>it\<in>set items. keyf it = k) \<and> set (itemsPool t) \<subseteq> {[]}"

lemma mset_items_update:
  "mset (concat (map snd (AList.update k v al))) + mset (case map_of al k of Some o' \<Rightarrow> o' | None \<Rightarrow> []) = mset (concat (map snd al)) + mset v"
  by (induction al) auto

lemma mset_all_items_update:
  "mset (all_items (t\<lparr>itemsByFlow := AList.update k v (itemsByFlow t)\<rparr>)) + mset (flow_items k t) = mset (all_items t) + mset v"
  using mset_items_update [of k v "itemsByFlow t"] by (simp add: all_items_def flow_items_def)

lemma map_of_flow: "map_of (itemsByFlow t) k = Some items \<Longrightarrow> flow_items k t = items"
  by (simp add: flow_items_def)

lemma table_wf_update:
  assumes "table_wf keyf t" "\<forall>it\<in>set v. keyf it = k"
  shows "table_wf keyf (t\<lparr>itemsByFlow := AList.update k v (itemsByFlow t)\<rparr>)"
proof -
  have "p = (k, v) \<or> p \<in> set al" if "p \<in> set (AList.update k v al)" for p al
    using that by (induction al) (auto split: if_splits)
  then show ?thesis using assms by (fastforce simp: table_wf_def)
qed

lemma flow_items_cases: "flow_items k t = [] \<or> (k, flow_items k t) \<in> set (itemsByFlow t)"
  by (auto simp: flow_items_def split: option.splits dest: map_of_SomeD)

lemma table_wf_items: "table_wf keyf t \<Longrightarrow> it \<in> set (flow_items k t) \<Longrightarrow> keyf it = k"
  using flow_items_cases [of k t] by (fastforce simp: table_wf_def)

lemma flow_items_subset: "set (flow_items k t) \<subseteq> set (all_items t)"
proof
  fix x assume "x \<in> set (flow_items k t)"
  then show "x \<in> set (all_items t)" using flow_items_cases [of k t] by (force simp: all_items_def)
qed

lemma flow_items_update [simp]: "flow_items k (t\<lparr>itemsByFlow := AList.update k v (itemsByFlow t)\<rparr>) = v"
  by (simp add: flow_items_def update_conv)

lemma insert_item_ok:
  assumes wf: "table_wf keyf t" "keyf item = key" and pool: "itemsPool t \<noteq> []"
  shows "\<exists>t'. insert_item key item t = Some t' \<and> table_wf keyf t' \<and> mset (all_items t') = add_mset item (mset (all_items t))
     \<and> length (itemsPool t) \<le> Suc (length (itemsPool t'))"
proof (cases "map_of (itemsByFlow t) key")
  case None
  have "last (itemsPool t) = []" using wf(1) last_in_set [OF pool] unfolding table_wf_def by blast
  let ?t = "t\<lparr>itemsPool := butlast (itemsPool t)\<rparr>"
  have "table_wf keyf ?t" using wf(1) by (auto simp: table_wf_def dest: in_set_butlastD)
  from table_wf_update [OF this, of "[item]" key] wf(2) have "table_wf keyf (?t\<lparr>itemsByFlow := AList.update key [item] (itemsByFlow ?t)\<rparr>)" by simp
  moreover have "mset (all_items (?t\<lparr>itemsByFlow := AList.update key [item] (itemsByFlow ?t)\<rparr>)) = add_mset item (mset (all_items t))"
    using mset_all_items_update [of key "[item]" ?t] None by (simp add: flow_items_def all_items_def)
  ultimately show ?thesis using None pool \<open>last (itemsPool t) = []\<close> by (simp add: insert_item_def newItems_def)
next
  case (Some items)
  then have "\<forall>it\<in>set (items @ [item]). keyf it = key" using wf table_wf_items [OF wf(1), of _ key] map_of_flow [OF Some] by auto
  from table_wf_update [OF wf(1) this] show ?thesis
    using Some mset_all_items_update [of key "items @ [item]" t] map_of_flow [OF Some] by (simp add: insert_item_def)
qed

lemma mset_replace:
  assumes "X + A = B + V" "V + {#p#} = A + {#q#}" "p \<in># B"
  shows "X = add_mset q (B - {#p#})"
proof (rule multiset_eqI)
  fix a
  have "count X a + count A a = count B a + count V a" "count V a + count {#p#} a = count A a + count {#q#} a" "count {#p#} a \<le> count B a"
    using assms(1,2) [THEN arg_cong, of "\<lambda>M. count M a"] assms(3) by auto
  then show "count X a = count (add_mset q (B - {#p#})) a" by (auto split: if_splits)
qed

lemma updateAt_ok:
  assumes wf: "table_wf keyf t" "keyf item = key" and i: "i < length (flow_items key t)"
  shows "\<exists>t'. updateAt key item i t = Some t' \<and> table_wf keyf t' \<and> itemsPool t' = itemsPool t
     \<and> mset (all_items t') = add_mset item (mset (all_items t) - {#flow_items key t ! i#})"
proof -
  let ?v = "(flow_items key t)[i := item]"
  have "\<forall>it\<in>set ?v. keyf it = key" using wf table_wf_items [OF wf(1), of _ key] set_update_subset_insert [of "flow_items key t" i item] by blast
  from table_wf_update [OF wf(1) this] have "table_wf keyf (t\<lparr>itemsByFlow := AList.update key ?v (itemsByFlow t)\<rparr>)" .
  moreover have "mset (all_items (t\<lparr>itemsByFlow := AList.update key ?v (itemsByFlow t)\<rparr>)) = add_mset item (mset (all_items t) - {#flow_items key t ! i#})"
  proof -
    have "flow_items key t ! i \<in># mset (all_items t)" using flow_items_subset [of key t] nth_mem [OF i] by auto
    moreover have "mset ?v + {#flow_items key t ! i#} = mset (flow_items key t) + {#item#}"
      using i nth_mem [OF i] by (simp add: mset_update)
    ultimately show ?thesis by (intro mset_replace [OF mset_all_items_update])
  qed
  ultimately show ?thesis using i by (simp add: updateAt_def store_def)
qed

lemma deleteAt_ok:
  assumes wf: "table_wf keyf t" and i: "i < length (flow_items key t)"
  shows "\<exists>t'. deleteAt key i t = Some t' \<and> table_wf keyf t' \<and> itemsPool t' = itemsPool t
     \<and> flow_items key t' = take i (flow_items key t) @ drop (Suc i) (flow_items key t)
     \<and> mset (all_items t') = mset (all_items t) - {#flow_items key t ! i#}"
proof -
  let ?l = "flow_items key t" and ?v = "take i (flow_items key t) @ drop (Suc i) (flow_items key t)"
  have "\<forall>it\<in>set ?v. keyf it = key" using table_wf_items [OF wf, of _ key] by (auto dest: in_set_takeD in_set_dropD)
  from table_wf_update [OF wf this] have "table_wf keyf (t\<lparr>itemsByFlow := AList.update key ?v (itemsByFlow t)\<rparr>)" .
  moreover have "mset (all_items (t\<lparr>itemsByFlow := AList.update key ?v (itemsByFlow t)\<rparr>)) = mset (all_items t) - {#?l ! i#}"
  proof -
    have "mset ?l = mset ?v + {#?l ! i#}" by (subst (1) id_take_nth_drop [OF i]) simp
    then have "mset (all_items t) = add_mset (?l ! i) (mset (all_items (t\<lparr>itemsByFlow := AList.update key ?v (itemsByFlow t)\<rparr>)))"
      using mset_all_items_update [of key ?v t] by simp
    then show ?thesis by simp
  qed
  ultimately show ?thesis using i by (simp add: deleteAt_def slice_at_def slice_from_def go_slice_def)
qed

section \<open>Groups of packets\<close>

text \<open>\<open>grouped P h g ms pkt\<close>: after headers of length \<open>h\<close>, \<open>pkt\<close> has the data of the packets \<open>ms\<close> of \<open>P\<close>, cut at \<open>g\<close> bytes.\<close>

definition grouped :: "bytes list \<Rightarrow> nat \<Rightarrow> nat \<Rightarrow> nat list \<Rightarrow> bytes \<Rightarrow> bool" where
  "grouped P h g ms pkt \<longleftrightarrow> ms \<noteq> [] \<and> h \<le> length pkt \<and> drop h pkt = concat (map (\<lambda>i. drop h (P ! i)) ms)
     \<and> (\<forall>i\<in>set ms. i < length P \<and> h < length (P ! i) \<and> length (P ! i) \<le> h + g) \<and> (\<forall>i\<in>set (butlast ms). length (P ! i) = h + g)"

text \<open>The header of a group is that of its first packet, but for the bytes in \<open>X\<close>; TCP sequence numbers follow one another.\<close>

definition header_of :: "bytes list \<Rightarrow> nat set \<Rightarrow> nat \<Rightarrow> nat list \<Rightarrow> bytes \<Rightarrow> bool" where
  "header_of P X h ms pkt \<longleftrightarrow> (\<forall>x<h. x \<notin> X \<longrightarrow> pkt ! x = P ! hd ms ! x)"

definition in_sequence :: "bytes list \<Rightarrow> nat \<Rightarrow> nat \<Rightarrow> u32 \<Rightarrow> nat list \<Rightarrow> bool" where
  "in_sequence P at g first ms \<longleftrightarrow> (\<forall>r<length ms. Uint32_at at (P ! (ms ! r)) = Some (first + of_nat (r * g)))"

lemma grouped_pos: "grouped P h g ms pkt \<Longrightarrow> 0 < g"
  by (cases ms) (auto simp: grouped_def)

lemma grouped_single: "i < length P \<Longrightarrow> h < length (P ! i) \<Longrightarrow> length (P ! i) = h + g \<Longrightarrow> grouped P h g [i] (P ! i)"
  by (simp add: grouped_def)

lemma sum_list_full: "\<forall>i\<in>set ms. f i = (g :: nat) \<Longrightarrow> sum_list (map f ms) = length ms * g"
  by (induction ms) auto

lemma grouped_length:
  assumes "grouped P h g ms pkt"
  shows "\<exists>r. 0 < r \<and> r \<le> g \<and> length (P ! last ms) = h + r \<and> length pkt = h + (length ms - 1) * g + r"
proof -
  have ms: "ms = butlast ms @ [last ms]" using assms by (simp add: grouped_def)
  let ?r = "length (P ! last ms) - h"
  have "last ms \<in> set ms" using assms by (simp add: grouped_def)
  then have l: "h < length (P ! last ms)" "length (P ! last ms) \<le> h + g" using assms by (auto simp: grouped_def)
  have "sum_list (map (\<lambda>i. length (P ! i) - h) (butlast ms)) = (length ms - 1) * g"
    using assms by (subst sum_list_full [where g = g]) (auto simp: grouped_def)
  moreover have "length (drop h pkt) = sum_list (map (\<lambda>i. length (P ! i) - h) (butlast ms @ [last ms]))"
    unfolding ms [symmetric] using assms by (simp add: grouped_def length_concat comp_def)
  ultimately have "length (drop h pkt) = (length ms - 1) * g + ?r" by simp
  moreover have "h \<le> length pkt" using assms by (simp add: grouped_def)
  ultimately have "length pkt = h + (length ms - 1) * g + ?r" by simp
  then show ?thesis using l by (intro exI [of _ ?r]) simp
qed

lemma grouped_whole:
  assumes "grouped P h g ms pkt" "(length pkt - h) mod g = 0"
  shows "length pkt = h + length ms * g" "\<forall>i\<in>set ms. length (P ! i) = h + g"
proof -
  obtain r where r: "0 < r" "r \<le> g" "length (P ! last ms) = h + r" "length pkt = h + (length ms - 1) * g + r" using grouped_length [OF assms(1)] by blast
  have "r mod g = 0" using assms(2) r(4) by (simp add: mult.commute)
  then have rg: "r = g" using r(1,2) by (metis le_neq_implies_less mod_less less_numeral_extra(3))
  have ms: "ms = butlast ms @ [last ms]" "0 < length ms" using assms(1) by (auto simp: grouped_def)
  have "(length ms - 1) * g + g = length ms * g" using ms(2) by (cases "length ms") simp_all
  then show "length pkt = h + length ms * g" using r(4) rg by simp
  have "\<forall>i\<in>set (butlast ms @ [last ms]). length (P ! i) = h + g" using assms(1) r(3) rg by (auto simp: grouped_def simp del: append_butlast_last_id)
  then show "\<forall>i\<in>set ms. length (P ! i) = h + g" unfolding ms(1) [symmetric] .
qed

lemma grouped_append:
  assumes "grouped P h g ms pkt" "(length pkt - h) mod g = 0" "k < length P" "h < length (P ! k)" "length (P ! k) \<le> h + g"
  shows "grouped P h g (ms @ [k]) (pkt @ drop h (P ! k))"
  using assms(1,3-) grouped_whole(2) [OF assms(1,2)] by (auto simp: grouped_def)

lemma grouped_prepend:
  assumes "grouped P h g ms pkt" "k < length P" "length (P ! k) = h + g'" "g \<le> g'" "g < g' \<Longrightarrow> length ms = 1"
  shows "grouped P h g' (k # ms) (P ! k @ drop h pkt)"
proof -
  have "0 < g" by (rule grouped_pos) fact
  moreover have "\<forall>i\<in>set (butlast ms). length (P ! i) = h + g'"
    using assms(1,4,5) by (cases "g < g'") (auto simp: grouped_def length_Suc_conv)
  ultimately show ?thesis using assms by (fastforce simp: grouped_def)
qed

lemma in_sequence_append:
  assumes "in_sequence P at g first ms" "Uint32_at at (P ! k) = Some (first + of_nat (length ms * g))"
  shows "in_sequence P at g first (ms @ [k])"
  using assms by (auto simp: in_sequence_def nth_append less_Suc_eq)

lemma in_sequence_prepend:
  assumes "in_sequence P at g first ms" "Uint32_at at (P ! k) = Some seq" "first = seq + of_nat g'" "g \<noteq> g' \<Longrightarrow> length ms = 1"
  shows "in_sequence P at g' seq (k # ms)"
proof -
  have "Uint32_at at (P ! (ms ! r)) = Some (seq + of_nat (Suc r * g'))" if "r < length ms" for r
  proof (cases "g = g'")
    case True
    then show ?thesis using assms(1,3) that by (simp add: in_sequence_def algebra_simps)
  next
    case False
    then have "r = 0" using assms(4) that by simp
    then show ?thesis using assms(1,3) that by (auto simp: in_sequence_def)
  qed
  then show ?thesis using assms(2) unfolding in_sequence_def by (auto simp: less_Suc_eq_0_disj simp del: mult_Suc of_nat_Suc of_nat_mult)
qed

lemma header_of_single [simp]: "header_of P X h [k] (P ! k)"
  by (simp add: header_of_def)

section \<open>The invariant\<close>

text \<open>\<open>P\<close> are the packets given to \<open>handleGRO\<close>, \<open>m\<close> says which of them a packet to be written stands for.\<close>

definition pkt_of :: "gro_buf list \<Rightarrow> nat \<Rightarrow> nat \<Rightarrow> bytes" where
  "pkt_of bufs off i = drop off (gb_data (bufs ! i))"

definition slot_ok :: "bytes list \<Rightarrow> nat \<Rightarrow> gro_buf list \<Rightarrow> (nat \<Rightarrow> nat list) \<Rightarrow> nat \<Rightarrow> nat \<Rightarrow> nat \<Rightarrow> nat \<Rightarrow> nat set \<Rightarrow> bool" where
  "slot_ok P off bufs m j h g n X \<longleftrightarrow>
     j < length bufs \<and> grouped P h g (m j) (pkt_of bufs off j) \<and> header_of P X h (m j) (pkt_of bufs off j)
     \<and> Suc n = length (m j) \<and> (n = 0 \<longrightarrow> m j = [j] \<and> pkt_of bufs off j = P ! j)"

definition ip_len :: "bool \<Rightarrow> nat" where
  "ip_len isV6 = (if isV6 then 40 else 20)"

definition tcp_key :: "bool \<Rightarrow> bytes \<Rightarrow> tcpFlowKey option" where
  "tcp_key isV6 pkt = newTCPFlowKey pkt (addr_offset isV6) (addr_offset isV6 + addr_size isV6) (ip_len isV6)"

definition udp_key :: "bool \<Rightarrow> bytes \<Rightarrow> udpFlowKey option" where
  "udp_key isV6 pkt = newUDPFlowKey pkt (addr_offset isV6) (addr_offset isV6 + addr_size isV6) (ip_len isV6)"

definition tcp_item_ok :: "bytes list \<Rightarrow> nat \<Rightarrow> gro_buf list \<Rightarrow> (nat \<Rightarrow> nat list) \<Rightarrow> tcpGROItem \<Rightarrow> bool" where
  "tcp_item_ok P off bufs m item \<longleftrightarrow>
     (let isV6 = tk_isV6 (ti_key item); st = ip_len isV6; j = unat (ti_bufsIndex item) in
      unat (ti_iphLen item) = st \<and> 20 \<le> unat (ti_tcphLen item) \<and> unat (ti_tcphLen item) \<le> 60
      \<and> slot_ok P off bufs m j (st + unat (ti_tcphLen item)) (unat (ti_gsoSize item)) (unat (ti_numMerged item)) {st + 13}
      \<and> in_sequence P (st + 4) (unat (ti_gsoSize item)) (ti_sentSeq item) (m j)
      \<and> (\<forall>i\<in>set (m j). tcp_key isV6 (P ! i) = Some (ti_key item)))"

definition udp_item_ok :: "bytes list \<Rightarrow> nat \<Rightarrow> gro_buf list \<Rightarrow> (nat \<Rightarrow> nat list) \<Rightarrow> udpGROItem \<Rightarrow> bool" where
  "udp_item_ok P off bufs m item \<longleftrightarrow>
     (let isV6 = uk_isV6 (ui_key item); st = ip_len isV6; j = unat (ui_bufsIndex item) in
      unat (ui_iphLen item) = st
      \<and> slot_ok P off bufs m j (st + 8) (unat (ui_gsoSize item)) (unat (ui_numMerged item)) {}
      \<and> (\<forall>i\<in>set (m j). udp_key isV6 (P ! i) = Some (ui_key item)))"

text \<open>The packet a buffer is written as when it stands for itself: a zero header.\<close>

definition plain :: "bytes list \<Rightarrow> nat \<Rightarrow> gro_buf list \<Rightarrow> nat \<Rightarrow> bool" where
  "plain P off bufs j \<longleftrightarrow> j < length bufs \<and> pkt_of bufs off j = P ! j \<and> go_slice (off - virtioNetHdrLen) off (gb_data (bufs ! j)) = replicate virtioNetHdrLen 0"

definition bufs_ok :: "bytes list \<Rightarrow> nat \<Rightarrow> nat \<Rightarrow> gro_buf list \<Rightarrow> bool" where
  "bufs_ok P off k bufs \<longleftrightarrow> length bufs = length P \<and> (\<forall>b\<in>set bufs. off < length (gb_data b) \<and> length (gb_data b) \<le> gb_cap b \<and> gb_cap b \<le> 65535)
     \<and> (\<forall>i. k \<le> i \<longrightarrow> i < length P \<longrightarrow> pkt_of bufs off i = P ! i)"

definition slots :: "gro_state \<Rightarrow> nat multiset" where
  "slots s = image_mset (\<lambda>it. unat (ti_bufsIndex it)) (mset (all_items (gs_tcp s))) + image_mset (\<lambda>it. unat (ui_bufsIndex it)) (mset (all_items (gs_udp s)))"

definition gro_inv :: "bytes list \<Rightarrow> nat \<Rightarrow> nat \<Rightarrow> (nat \<Rightarrow> nat list) \<Rightarrow> gro_state \<Rightarrow> bool" where
  "gro_inv P off k m s \<longleftrightarrow>
     bufs_ok P off k (gs_bufs s) \<and> distinct (gs_toWrite s) \<and> set (gs_toWrite s) \<subseteq> {..<k}
     \<and> mset (concat (map m (gs_toWrite s))) = mset [0..<k]
     \<and> table_wf ti_key (gs_tcp s) \<and> table_wf ui_key (gs_udp s)
     \<and> length P \<le> length (itemsPool (gs_tcp s)) + k \<and> length P \<le> length (itemsPool (gs_udp s)) + k
     \<and> (\<forall>it\<in>set (all_items (gs_tcp s)). tcp_item_ok P off (gs_bufs s) m it) \<and> (\<forall>it\<in>set (all_items (gs_udp s)). udp_item_ok P off (gs_bufs s) m it)
     \<and> (\<forall>(key, items)\<in>set (itemsByFlow (gs_udp s)). items \<noteq> [])
     \<and> slots s \<subseteq># mset (gs_toWrite s)
     \<and> (\<forall>j\<in>set (gs_toWrite s). j \<notin># slots s \<longrightarrow> m j = [j] \<and> plain P off (gs_bufs s) j)"

text \<open>Items see the buffers only through their own packet.\<close>

lemma slot_ok_cong:
  assumes "pkt_of bufs' off j = pkt_of bufs off j" "length bufs' = length bufs" "m' j = m j"
  shows "slot_ok P off bufs' m' j h g n X \<longleftrightarrow> slot_ok P off bufs m j h g n X"
  using assms by (simp add: slot_ok_def)

lemma tcp_item_cong:
  assumes "pkt_of bufs' off (unat (ti_bufsIndex it)) = pkt_of bufs off (unat (ti_bufsIndex it))" "length bufs' = length bufs"
    "m' (unat (ti_bufsIndex it)) = m (unat (ti_bufsIndex it))"
  shows "tcp_item_ok P off bufs' m' it \<longleftrightarrow> tcp_item_ok P off bufs m it"
  unfolding tcp_item_ok_def Let_def slot_ok_cong [where m = m and m' = m', OF assms] assms(3) ..

lemma udp_item_cong:
  assumes "pkt_of bufs' off (unat (ui_bufsIndex it)) = pkt_of bufs off (unat (ui_bufsIndex it))" "length bufs' = length bufs"
    "m' (unat (ui_bufsIndex it)) = m (unat (ui_bufsIndex it))"
  shows "udp_item_ok P off bufs' m' it \<longleftrightarrow> udp_item_ok P off bufs m it"
  unfolding udp_item_ok_def Let_def slot_ok_cong [where m = m and m' = m', OF assms] assms(3) ..

lemma clear_hdr_ok:
  assumes "i < length bufs" "virtioNetHdrLen \<le> off" "off \<le> length (gb_data (bufs ! i))"
  shows "\<exists>b. clear_hdr i off bufs = Some (bufs[i := b]) \<and> drop off (gb_data b) = drop off (gb_data (bufs ! i)) \<and> length (gb_data b) = length (gb_data (bufs ! i))
     \<and> gb_cap b = gb_cap (bufs ! i) \<and> go_slice (off - virtioNetHdrLen) off (gb_data b) = replicate virtioNetHdrLen 0"
  using assms by (intro exI [of _ "(bufs ! i)\<lparr>gb_data := put_at (off - virtioNetHdrLen) (replicate virtioNetHdrLen 0) (gb_data (bufs ! i))\<rparr>"])
    (simp add: clear_hdr_def idx_def put_at_def go_slice_def virtioNetHdrLen_def)

lemma add_slot_notin: "add_mset j M \<subseteq># mset W \<Longrightarrow> distinct W \<Longrightarrow> j \<notin># M"
proof
  assume a: "add_mset j M \<subseteq># mset W" "distinct W" "j \<in># M"
  then have "2 \<le> count (add_mset j M) j" by simp
  moreover have "count (add_mset j M) j \<le> count (mset W) j" by (rule mset_subset_eq_count) fact
  moreover have "count (mset W) j \<le> 1" using \<open>distinct W\<close> by (simp add: distinct_count_atmost_1)
  ultimately show False by linarith
qed

lemma gro_inv_slot:
  assumes "gro_inv P off k m s" "j \<in># slots s"
  shows "j < k" "j \<in> set (gs_toWrite s)"
  using assms mset_subset_eqD [of "slots s" "mset (gs_toWrite s)" j] by (auto simp: gro_inv_def)

lemma tcp_slot: "it \<in> set (all_items (gs_tcp s)) \<Longrightarrow> unat (ti_bufsIndex it) \<in># slots s"
  by (auto simp: slots_def)

lemma udp_slot: "it \<in> set (all_items (gs_udp s)) \<Longrightarrow> unat (ui_bufsIndex it) \<in># slots s"
  by (auto simp: slots_def)

lemma pkt_of_eq: "bufs' ! i = bufs ! i \<Longrightarrow> pkt_of bufs' off i = pkt_of bufs off i"
  by (simp add: pkt_of_def)

text \<open>A packet that is written on its own.\<close>

lemma gro_inv_alone:
  assumes inv: "gro_inv P off k m s" and k: "k < length P" and off: "virtioNetHdrLen \<le> off"
  shows "\<exists>bufs'. clear_hdr k off (gs_bufs s) = Some bufs' \<and> gro_inv P off (Suc k) (m(k := [k])) (s\<lparr>gs_bufs := bufs', gs_toWrite := gs_toWrite s @ [k]\<rparr>)"
proof -
  let ?bufs = "gs_bufs s" and ?m = "m(k := [k])" and ?W = "gs_toWrite s"
  have bo: "bufs_ok P off k ?bufs" using inv by (simp add: gro_inv_def)
  then have kb: "k < length ?bufs" "off < length (gb_data (?bufs ! k))" using k by (auto simp: bufs_ok_def)
  then obtain b where b: "clear_hdr k off ?bufs = Some (?bufs[k := b])" "drop off (gb_data b) = drop off (gb_data (?bufs ! k))"
    "length (gb_data b) = length (gb_data (?bufs ! k))" "gb_cap b = gb_cap (?bufs ! k)" "go_slice (off - virtioNetHdrLen) off (gb_data b) = replicate virtioNetHdrLen 0"
    using clear_hdr_ok [of k ?bufs off] off by auto
  let ?B = "?bufs[k := b]"
  have pk: "pkt_of ?B off i = pkt_of ?bufs off i" for i using b(2) kb by (cases "i = k") (simp_all add: pkt_of_def)
  have bo': "bufs_ok P off (Suc k) ?B"
    using bo b kb pk set_update_subset_insert [of ?bufs k b] unfolding bufs_ok_def by (auto dest!: subsetD)
  have lt: "j < k" if "j \<in># slots s" for j using gro_inv_slot [OF inv that] by simp
  have t: "tcp_item_ok P off ?B ?m it" if "it \<in> set (all_items (gs_tcp s))" for it
    using lt [OF tcp_slot [OF that]] inv that by (subst tcp_item_cong [where bufs = ?bufs and m = m]) (auto simp: pk gro_inv_def)
  have u: "udp_item_ok P off ?B ?m it" if "it \<in> set (all_items (gs_udp s))" for it
    using lt [OF udp_slot [OF that]] inv that by (subst udp_item_cong [where bufs = ?bufs and m = m]) (auto simp: pk gro_inv_def)
  have W: "k \<notin> set ?W" "set ?W \<subseteq> {..<k}" using inv by (auto simp: gro_inv_def)
  have "plain P off ?B k" using bo b kb k pk by (simp add: plain_def bufs_ok_def)
  moreover have "plain P off ?B j" if "j \<in> set ?W" "j \<notin># slots s" for j
    using that inv W(1) pk by (cases "j = k") (auto simp: plain_def gro_inv_def)
  moreover have "map ?m ?W = map m ?W" using W(1) by (auto intro!: map_cong)
  ultimately have "gro_inv P off (Suc k) ?m (s\<lparr>gs_bufs := ?B, gs_toWrite := ?W @ [k]\<rparr>)"
    using inv bo' t u W unfolding gro_inv_def by (auto simp: slots_def subset_mset.le_add_same_cancel1 intro: subset_mset.order_trans)
  then show ?thesis using b(1) by blast
qed

text \<open>A packet that starts an item of its own; the cases of the two tables.\<close>

lemma gro_inv_tcp_item:
  assumes inv: "gro_inv P off k m s" and k: "k < length P"
    and item: "unat (ti_bufsIndex item) = k" "tcp_item_ok P off (gs_bufs s) (m(k := [k])) item"
    and t: "table_wf ti_key t" "mset (all_items t) = add_mset item (mset (all_items (gs_tcp s)))" "length (itemsPool (gs_tcp s)) \<le> Suc (length (itemsPool t))"
  shows "gro_inv P off (Suc k) (m(k := [k])) (s\<lparr>gs_tcp := t, gs_toWrite := gs_toWrite s @ [k]\<rparr>)"
proof -
  let ?m = "m(k := [k])" and ?W = "gs_toWrite s" and ?s = "s\<lparr>gs_tcp := t, gs_toWrite := gs_toWrite s @ [k]\<rparr>"
  have lt: "j < k" if "j \<in># slots s" for j using gro_inv_slot [OF inv that] by simp
  have T: "tcp_item_ok P off (gs_bufs s) ?m it" if "it \<in> set (all_items (gs_tcp s))" for it
    using lt [OF tcp_slot [OF that]] inv that by (subst tcp_item_cong [where bufs = "gs_bufs s" and m = m]) (auto simp: gro_inv_def)
  have U: "udp_item_ok P off (gs_bufs s) ?m it" if "it \<in> set (all_items (gs_udp s))" for it
    using lt [OF udp_slot [OF that]] inv that by (subst udp_item_cong [where bufs = "gs_bufs s" and m = m]) (auto simp: gro_inv_def)
  have W: "k \<notin> set ?W" "set ?W \<subseteq> {..<k}" using inv by (auto simp: gro_inv_def)
  have sl: "slots ?s = add_mset k (slots s)" by (simp add: slots_def t(2) item(1))
  have "set (all_items t) = insert item (set (all_items (gs_tcp s)))" using arg_cong [OF t(2), of set_mset] by simp
  then have "\<forall>it\<in>set (all_items t). tcp_item_ok P off (gs_bufs s) ?m it" using T item(2) by simp
  moreover have "map ?m ?W = map m ?W" using W(1) by (auto intro!: map_cong)
  moreover have "bufs_ok P off (Suc k) (gs_bufs s)" using inv by (auto simp: gro_inv_def bufs_ok_def)
  moreover have "?m j = [j] \<and> plain P off (gs_bufs s) j" if "j \<in> set (?W @ [k])" "j \<notin># slots ?s" for j
    using that inv W(1) unfolding sl by (auto simp: gro_inv_def)
  ultimately show ?thesis using inv U W t(1,3) sl unfolding gro_inv_def by auto
qed

lemma gro_inv_udp_item:
  assumes inv: "gro_inv P off k m s" and k: "k < length P"
    and item: "unat (ui_bufsIndex item) = k" "udp_item_ok P off (gs_bufs s) (m(k := [k])) item"
    and t: "table_wf ui_key t" "mset (all_items t) = add_mset item (mset (all_items (gs_udp s)))" "length (itemsPool (gs_udp s)) \<le> Suc (length (itemsPool t))"
      "\<forall>(key, items)\<in>set (itemsByFlow t). items \<noteq> []"
  shows "gro_inv P off (Suc k) (m(k := [k])) (s\<lparr>gs_udp := t, gs_toWrite := gs_toWrite s @ [k]\<rparr>)"
proof -
  let ?m = "m(k := [k])" and ?W = "gs_toWrite s" and ?s = "s\<lparr>gs_udp := t, gs_toWrite := gs_toWrite s @ [k]\<rparr>"
  have lt: "j < k" if "j \<in># slots s" for j using gro_inv_slot [OF inv that] by simp
  have T: "tcp_item_ok P off (gs_bufs s) ?m it" if "it \<in> set (all_items (gs_tcp s))" for it
    using lt [OF tcp_slot [OF that]] inv that by (subst tcp_item_cong [where bufs = "gs_bufs s" and m = m]) (auto simp: gro_inv_def)
  have U: "udp_item_ok P off (gs_bufs s) ?m it" if "it \<in> set (all_items (gs_udp s))" for it
    using lt [OF udp_slot [OF that]] inv that by (subst udp_item_cong [where bufs = "gs_bufs s" and m = m]) (auto simp: gro_inv_def)
  have W: "k \<notin> set ?W" "set ?W \<subseteq> {..<k}" using inv by (auto simp: gro_inv_def)
  have sl: "slots ?s = add_mset k (slots s)" by (simp add: slots_def t(2) item(1))
  have "set (all_items t) = insert item (set (all_items (gs_udp s)))" using arg_cong [OF t(2), of set_mset] by simp
  then have "\<forall>it\<in>set (all_items t). udp_item_ok P off (gs_bufs s) ?m it" using U item(2) by simp
  moreover have "map ?m ?W = map m ?W" using W(1) by (auto intro!: map_cong)
  moreover have "bufs_ok P off (Suc k) (gs_bufs s)" using inv by (auto simp: gro_inv_def bufs_ok_def)
  moreover have "?m j = [j] \<and> plain P off (gs_bufs s) j" if "j \<in> set (?W @ [k])" "j \<notin># slots ?s" for j
    using that inv W(1) unfolding sl by (auto simp: gro_inv_def)
  ultimately show ?thesis using inv T W t(1,3,4) sl unfolding gro_inv_def by auto
qed

text \<open>A packet that joins an item.\<close>

lemma mset_concat_upd:
  assumes "distinct W" "j \<in> set W" "mset ms = add_mset k (mset (m j))"
  shows "mset (concat (map (m(j := ms)) W)) = add_mset k (mset (concat (map m W)))"
proof -
  from assms(2) obtain A B where W: "W = A @ j # B" by (meson split_list)
  then have AB: "map (m(j := ms)) A = map m A" "map (m(j := ms)) B = map m B" using assms(1) by (auto intro!: map_cong)
  show ?thesis unfolding W map_append list.map AB using assms(3) by simp
qed

lemma slots_tcp_remove:
  assumes "gro_inv P off k m s" "item \<in> set (all_items (gs_tcp s))"
  shows "unat (ti_bufsIndex item) \<notin># image_mset (\<lambda>it. unat (ti_bufsIndex it)) (mset (all_items (gs_tcp s)) - {#item#})"
    "unat (ti_bufsIndex item) \<notin># image_mset (\<lambda>it. unat (ui_bufsIndex it)) (mset (all_items (gs_udp s)))"
proof -
  let ?j = "unat (ti_bufsIndex item)" and ?T = "mset (all_items (gs_tcp s))"
  have "?T = add_mset item (?T - {#item#})" using assms(2) by simp
  then have "slots s = add_mset ?j (image_mset (\<lambda>it. unat (ti_bufsIndex it)) (?T - {#item#}) + image_mset (\<lambda>it. unat (ui_bufsIndex it)) (mset (all_items (gs_udp s))))"
    unfolding slots_def by (metis (no_types, lifting) image_mset_add_mset union_mset_add_mset_left)
  then have "?j \<notin># image_mset (\<lambda>it. unat (ti_bufsIndex it)) (?T - {#item#}) + image_mset (\<lambda>it. unat (ui_bufsIndex it)) (mset (all_items (gs_udp s)))"
    using assms(1) by (intro add_slot_notin [where W = "gs_toWrite s"]) (auto simp: gro_inv_def)
  then show "?j \<notin># image_mset (\<lambda>it. unat (ti_bufsIndex it)) (?T - {#item#})" "?j \<notin># image_mset (\<lambda>it. unat (ui_bufsIndex it)) (mset (all_items (gs_udp s)))"
    by simp_all
qed

lemma slots_udp_remove:
  assumes "gro_inv P off k m s" "item \<in> set (all_items (gs_udp s))"
  shows "unat (ui_bufsIndex item) \<notin># image_mset (\<lambda>it. unat (ui_bufsIndex it)) (mset (all_items (gs_udp s)) - {#item#})"
    "unat (ui_bufsIndex item) \<notin># image_mset (\<lambda>it. unat (ti_bufsIndex it)) (mset (all_items (gs_tcp s)))"
proof -
  let ?j = "unat (ui_bufsIndex item)" and ?U = "mset (all_items (gs_udp s))"
  have "?U = add_mset item (?U - {#item#})" using assms(2) by simp
  then have "slots s = add_mset ?j (image_mset (\<lambda>it. unat (ui_bufsIndex it)) (?U - {#item#}) + image_mset (\<lambda>it. unat (ti_bufsIndex it)) (mset (all_items (gs_tcp s))))"
    unfolding slots_def by (metis (no_types, lifting) image_mset_add_mset union_mset_add_mset_left add.commute)
  then have "?j \<notin># image_mset (\<lambda>it. unat (ui_bufsIndex it)) (?U - {#item#}) + image_mset (\<lambda>it. unat (ti_bufsIndex it)) (mset (all_items (gs_tcp s)))"
    using assms(1) by (intro add_slot_notin [where W = "gs_toWrite s"]) (auto simp: gro_inv_def)
  then show "?j \<notin># image_mset (\<lambda>it. unat (ui_bufsIndex it)) (?U - {#item#})" "?j \<notin># image_mset (\<lambda>it. unat (ti_bufsIndex it)) (mset (all_items (gs_tcp s)))"
    by simp_all
qed

lemma gro_inv_tcp_grow:
  assumes inv: "gro_inv P off k m s" and item: "item \<in> set (all_items (gs_tcp s))" "j = unat (ti_bufsIndex item)"
    and item': "ti_bufsIndex item' = ti_bufsIndex item" "tcp_item_ok P off bufs' (m(j := ms)) item'" and ms: "mset ms = add_mset k (mset (m j))"
    and bufs': "bufs_ok P off (Suc k) bufs'" "\<And>i. i \<noteq> j \<Longrightarrow> i \<noteq> k \<Longrightarrow> bufs' ! i = gs_bufs s ! i"
    and t: "table_wf ti_key t" "mset (all_items t) = add_mset item' (mset (all_items (gs_tcp s)) - {#item#})" "itemsPool t = itemsPool (gs_tcp s)"
  shows "gro_inv P off (Suc k) (m(j := ms)) (s\<lparr>gs_bufs := bufs', gs_tcp := t\<rparr>)"
proof -
  let ?m = "m(j := ms)" and ?W = "gs_toWrite s" and ?s = "s\<lparr>gs_bufs := bufs', gs_tcp := t\<rparr>" and ?T = "mset (all_items (gs_tcp s))"
  note sl = slots_tcp_remove [OF inv item(1), folded item(2)]
  have j: "j \<in># slots s" "j < k" "j \<in> set ?W" using tcp_slot [OF item(1)] gro_inv_slot [OF inv] item(2) by auto
  have lt: "i < k" if "i \<in># slots s" for i using gro_inv_slot [OF inv that] by simp
  have len: "length bufs' = length (gs_bufs s)" using inv bufs'(1) by (simp add: gro_inv_def bufs_ok_def)
  have T: "tcp_item_ok P off bufs' ?m it" if "it \<in># ?T - {#item#}" for it
  proof -
    have it: "it \<in> set (all_items (gs_tcp s))" "unat (ti_bufsIndex it) \<noteq> j" using that sl(1) by (auto dest: in_diffD)
    then show ?thesis using lt [OF tcp_slot [OF it(1)]] inv len
      by (subst tcp_item_cong [where bufs = "gs_bufs s" and m = m]) (auto simp: gro_inv_def intro!: pkt_of_eq bufs'(2))
  qed
  have U: "udp_item_ok P off bufs' ?m it" if it: "it \<in> set (all_items (gs_udp s))" for it
  proof -
    have "unat (ui_bufsIndex it) \<noteq> j" using that sl(2) by auto
    then show ?thesis using lt [OF udp_slot [OF it]] inv len it
      by (subst udp_item_cong [where bufs = "gs_bufs s" and m = m]) (auto simp: gro_inv_def intro!: pkt_of_eq bufs'(2))
  qed
  have "set (all_items t) = insert item' (set_mset (?T - {#item#}))" using arg_cong [OF t(2), of set_mset] by simp
  then have "\<forall>it\<in>set (all_items t). tcp_item_ok P off bufs' ?m it" using T item'(2) by simp
  moreover have ss: "slots ?s = slots s"
  proof -
    have "?T = add_mset item (?T - {#item#})" using item(1) by simp
    then show ?thesis unfolding slots_def using item'(1) by (simp add: t(2)) (metis (no_types, lifting) image_mset_add_mset)
  qed
  moreover have "mset (concat (map ?m ?W)) = mset [0..<Suc k]" using mset_concat_upd [of ?W j ms k m] inv j(3) ms by (simp add: gro_inv_def)
  moreover have "?m i = [i] \<and> plain P off bufs' i" if "i \<in> set ?W" "i \<notin># slots s" for i
  proof -
    have "i \<noteq> j" "i \<noteq> k" using that j(1) inv by (auto simp: gro_inv_def)
    then show ?thesis using that inv len bufs'(2) [of i] by (auto simp: gro_inv_def plain_def pkt_of_def)
  qed
  ultimately show ?thesis using inv U t(1,3) bufs'(1) unfolding gro_inv_def by auto
qed

lemma gro_inv_udp_grow:
  assumes inv: "gro_inv P off k m s" and item: "item \<in> set (all_items (gs_udp s))" "j = unat (ui_bufsIndex item)"
    and item': "ui_bufsIndex item' = ui_bufsIndex item" "udp_item_ok P off bufs' (m(j := ms)) item'" and ms: "mset ms = add_mset k (mset (m j))"
    and bufs': "bufs_ok P off (Suc k) bufs'" "\<And>i. i \<noteq> j \<Longrightarrow> i \<noteq> k \<Longrightarrow> bufs' ! i = gs_bufs s ! i"
    and t: "table_wf ui_key t" "mset (all_items t) = add_mset item' (mset (all_items (gs_udp s)) - {#item#})" "itemsPool t = itemsPool (gs_udp s)"
      "\<forall>(key, items)\<in>set (itemsByFlow t). items \<noteq> []"
  shows "gro_inv P off (Suc k) (m(j := ms)) (s\<lparr>gs_bufs := bufs', gs_udp := t\<rparr>)"
proof -
  let ?m = "m(j := ms)" and ?W = "gs_toWrite s" and ?s = "s\<lparr>gs_bufs := bufs', gs_udp := t\<rparr>" and ?T = "mset (all_items (gs_udp s))"
  note sl = slots_udp_remove [OF inv item(1), folded item(2)]
  have j: "j \<in># slots s" "j < k" "j \<in> set ?W" using udp_slot [OF item(1)] gro_inv_slot [OF inv] item(2) by auto
  have lt: "i < k" if "i \<in># slots s" for i using gro_inv_slot [OF inv that] by simp
  have len: "length bufs' = length (gs_bufs s)" using inv bufs'(1) by (simp add: gro_inv_def bufs_ok_def)
  have T: "udp_item_ok P off bufs' ?m it" if "it \<in># ?T - {#item#}" for it
  proof -
    have it: "it \<in> set (all_items (gs_udp s))" "unat (ui_bufsIndex it) \<noteq> j" using that sl(1) by (auto dest: in_diffD)
    then show ?thesis using lt [OF udp_slot [OF it(1)]] inv len
      by (subst udp_item_cong [where bufs = "gs_bufs s" and m = m]) (auto simp: gro_inv_def intro!: pkt_of_eq bufs'(2))
  qed
  have U: "tcp_item_ok P off bufs' ?m it" if it: "it \<in> set (all_items (gs_tcp s))" for it
  proof -
    have "unat (ti_bufsIndex it) \<noteq> j" using that sl(2) by auto
    then show ?thesis using lt [OF tcp_slot [OF it]] inv len it
      by (subst tcp_item_cong [where bufs = "gs_bufs s" and m = m]) (auto simp: gro_inv_def intro!: pkt_of_eq bufs'(2))
  qed
  have "set (all_items t) = insert item' (set_mset (?T - {#item#}))" using arg_cong [OF t(2), of set_mset] by simp
  then have "\<forall>it\<in>set (all_items t). udp_item_ok P off bufs' ?m it" using T item'(2) by simp
  moreover have ss: "slots ?s = slots s"
  proof -
    have "?T = add_mset item (?T - {#item#})" using item(1) by simp
    then show ?thesis unfolding slots_def using item'(1) by (simp add: t(2)) (metis (no_types, lifting) image_mset_add_mset)
  qed
  moreover have "mset (concat (map ?m ?W)) = mset [0..<Suc k]" using mset_concat_upd [of ?W j ms k m] inv j(3) ms by (simp add: gro_inv_def)
  moreover have "?m i = [i] \<and> plain P off bufs' i" if "i \<in> set ?W" "i \<notin># slots s" for i
  proof -
    have "i \<noteq> j" "i \<noteq> k" using that j(1) inv by (auto simp: gro_inv_def)
    then show ?thesis using that inv len bufs'(2) [of i] by (auto simp: gro_inv_def plain_def pkt_of_def)
  qed
  ultimately show ?thesis using inv U t(1,3,4) bufs'(1) unfolding gro_inv_def by auto
qed

text \<open>An item that leaves the table because its checksum is wrong.\<close>

lemma gro_inv_tcp_drop:
  assumes inv: "gro_inv P off k m s" and item: "item \<in> set (all_items (gs_tcp s))" "ti_numMerged item = 0" and off: "virtioNetHdrLen \<le> off"
    and t: "table_wf ti_key t" "mset (all_items t) = mset (all_items (gs_tcp s)) - {#item#}" "itemsPool t = itemsPool (gs_tcp s)"
  shows "\<exists>bufs'. clear_hdr (unat (ti_bufsIndex item)) off (gs_bufs s) = Some bufs' \<and> gro_inv P off k m (s\<lparr>gs_bufs := bufs', gs_tcp := t\<rparr>)
     \<and> (\<forall>i. pkt_of bufs' off i = pkt_of (gs_bufs s) off i)"
proof -
  let ?bufs = "gs_bufs s" and ?W = "gs_toWrite s" and ?j = "unat (ti_bufsIndex item)" and ?T = "mset (all_items (gs_tcp s))"
  have bo: "bufs_ok P off k ?bufs" and ok: "tcp_item_ok P off ?bufs m item" using inv item(1) by (auto simp: gro_inv_def)
  have mj: "m ?j = [?j]" "pkt_of ?bufs off ?j = P ! ?j" "?j < length ?bufs" using ok item(2) by (auto simp: tcp_item_ok_def slot_ok_def Let_def)
  have "off < length (gb_data (?bufs ! ?j))" using bo mj(3) by (auto simp: bufs_ok_def)
  then obtain b where b: "clear_hdr ?j off ?bufs = Some (?bufs[?j := b])" "drop off (gb_data b) = drop off (gb_data (?bufs ! ?j))"
    "length (gb_data b) = length (gb_data (?bufs ! ?j))" "gb_cap b = gb_cap (?bufs ! ?j)" "go_slice (off - virtioNetHdrLen) off (gb_data b) = replicate virtioNetHdrLen 0"
    using clear_hdr_ok [of ?j ?bufs off] off mj(3) by auto
  let ?B = "?bufs[?j := b]" and ?s = "s\<lparr>gs_bufs := ?bufs[?j := b], gs_tcp := t\<rparr>"
  have pk: "pkt_of ?B off i = pkt_of ?bufs off i" for i using b(2) mj(3) by (cases "i = ?j") (simp_all add: pkt_of_def)
  have bo': "bufs_ok P off k ?B"
    using bo b mj(3) pk set_update_subset_insert [of ?bufs ?j b] unfolding bufs_ok_def by (auto dest!: subsetD)
  have sub: "set (all_items t) \<subseteq> set (all_items (gs_tcp s))" using arg_cong [OF t(2), of set_mset] by (auto dest: in_diffD)
  have T: "tcp_item_ok P off ?B m it" if "it \<in> set (all_items (gs_tcp s))" for it
    using inv that by (subst tcp_item_cong [where bufs = ?bufs and m = m]) (auto simp: pk gro_inv_def)
  have U: "udp_item_ok P off ?B m it" if "it \<in> set (all_items (gs_udp s))" for it
    using inv that by (subst udp_item_cong [where bufs = ?bufs and m = m]) (auto simp: pk gro_inv_def)
  have "?T = add_mset item (?T - {#item#})" using item(1) by simp
  then have sl: "slots s = add_mset ?j (slots ?s)"
    unfolding slots_def using t(2) by simp (metis (no_types, lifting) image_mset_add_mset union_mset_add_mset_left)
  have "plain P off ?B ?j" using mj b(5) pk by (simp add: plain_def)
  moreover have "plain P off ?B i" if "i \<noteq> ?j" "plain P off ?bufs i" for i using that pk by (simp add: plain_def)
  ultimately have "m i = [i] \<and> plain P off ?B i" if "i \<in> set ?W" "i \<notin># slots ?s" for i
    using that mj(1) inv sl by (cases "i = ?j") (auto simp: gro_inv_def)
  moreover have "slots ?s \<subseteq># mset ?W"
  proof (rule subset_mset.order_trans)
    show "slots ?s \<subseteq># slots s" unfolding sl add_mset_add_single [of ?j "slots ?s"] by (rule mset_subset_eq_add_left)
  qed (use inv in \<open>simp add: gro_inv_def\<close>)
  ultimately have "gro_inv P off k m ?s" using inv bo' T U sub t(1,3) unfolding gro_inv_def by auto
  then show ?thesis using b(1) pk by blast
qed

section \<open>Coalescing two packets\<close>

lemma packet_at_ok: "i < length bufs \<Longrightarrow> off \<le> length (gb_data (bufs ! i)) \<Longrightarrow> packet_at bufs i off = Some (pkt_of bufs off i)"
  by (simp add: packet_at_def idx_def slice_from_def pkt_of_def)

lemma checksumValid_some: "ip_len isV6 \<le> length pkt \<Longrightarrow> \<exists>v. checksumValid order pkt (ip_len isV6) proto isV6 = Some v"
  by (cases isV6) (simp_all add: checksumValid_def Let_def slice_at_def slice_from_def ip_len_def addr_offset_def addr_size_def virtio_defs)

lemma extend_copy_ok:
  assumes "i < length bufs" "extendBy = int (length data)" "at = length (gb_data (bufs ! i))"
  shows "extend_copy i extendBy at data bufs = Some (bufs[i := (bufs ! i)\<lparr>gb_data := gb_data (bufs ! i) @ data\<rparr>])"
  using assms by (simp add: extend_copy_def idx_def copy_at_def put_at_def)

lemma u8_plus: "unat (x :: u8) + unat y < 256 \<Longrightarrow> unat (x + y) = unat x + unat y"
  by (simp add: unat_word_ariths)

lemma bufs_ok_nth: "bufs_ok P off k bufs \<Longrightarrow> i < length bufs \<Longrightarrow> off < length (gb_data (bufs ! i)) \<and> length (gb_data (bufs ! i)) \<le> gb_cap (bufs ! i) \<and> gb_cap (bufs ! i) \<le> 65535"
  by (auto simp: bufs_ok_def)

lemma udpPacketsCanCoalesce_ok:
  assumes b: "bufs_ok P off k bufs" and it: "udp_item_ok P off bufs m item" "ip_len (uk_isV6 (ui_key item)) = iphLen"
  shows "\<exists>can. udpPacketsCanCoalesce pkt (of_nat iphLen) gsoSize item bufs off = Some can
    \<and> (can = coalesceAppend \<longrightarrow> (length (pkt_of bufs off (unat (ui_bufsIndex item))) - (iphLen + 8)) mod unat (ui_gsoSize item) = 0 \<and> gsoSize \<le> ui_gsoSize item)"
proof -
  let ?j = "unat (ui_bufsIndex item)"
  have s: "?j < length bufs" "grouped P (iphLen + 8) (unat (ui_gsoSize item)) (m ?j) (pkt_of bufs off ?j)" using it by (auto simp: udp_item_ok_def slot_ok_def Let_def)
  have g: "ui_gsoSize item \<noteq> 0" using grouped_pos [OF s(2)] by auto
  have h: "iphLen + 8 \<le> length (pkt_of bufs off ?j)" using s(2) by (simp add: grouped_def)
  have u: "unat (of_nat iphLen + of_nat udphLen :: u8) = iphLen + 8" using it(2) by (auto simp: ip_len_def udphLen_def split: if_splits)
  have "packet_at bufs ?j off = Some (pkt_of bufs off ?j)" using bufs_ok_nth [OF b s(1)] s(1) by (simp add: packet_at_ok)
  then show ?thesis using g h u by (simp add: udpPacketsCanCoalesce_def whole_segments_def slice_from_def not_less)
qed

lemma coalesceUDPPackets_ok:
  assumes b: "bufs_ok P off k bufs" and it: "udp_item_ok P off bufs m item" "uk_isV6 (ui_key item) = isV6" and pkt: "ip_len isV6 + 8 \<le> length pkt"
  shows "\<exists>r item' bufs'. coalesceUDPPackets order pkt item bufs off isV6 = Some (r, item', bufs')
    \<and> (r \<noteq> coalesceSuccess \<longrightarrow> item' = item \<and> bufs' = bufs)
    \<and> (r = coalesceSuccess \<longrightarrow> item' = item\<lparr>ui_numMerged := ui_numMerged item + 1\<rparr>
        \<and> (\<exists>b. bufs' = bufs[unat (ui_bufsIndex item) := b] \<and> off < length (gb_data b) \<and> length (gb_data b) \<le> gb_cap b \<and> gb_cap b \<le> 65535
           \<and> drop off (gb_data b) = pkt_of bufs off (unat (ui_bufsIndex item)) @ drop (ip_len isV6 + 8) pkt))"
proof -
  let ?j = "unat (ui_bufsIndex item)" and ?st = "ip_len isV6"
  have s: "?j < length bufs" "grouped P (?st + 8) (unat (ui_gsoSize item)) (m ?j) (pkt_of bufs off ?j)" "unat (ui_iphLen item) = ?st"
    using it by (auto simp: udp_item_ok_def slot_ok_def Let_def)
  note c = bufs_ok_nth [OF b s(1)]
  have h: "?st + 8 \<le> length (pkt_of bufs off ?j)" using s(2) by (simp add: grouped_def)
  have "unat (ui_iphLen item) + unat (of_nat udphLen :: u8) < 256" using s(3) by (simp add: ip_len_def udphLen_def)
  then have u: "unat (ui_iphLen item + of_nat udphLen) = ?st + 8" using s(3) by (simp add: u8_plus udphLen_def)
  then have ui: "uint (ui_iphLen item + of_nat udphLen) = int ?st + 8" by (simp add: uint_nat)
  have p: "packet_at bufs ?j off = Some (pkt_of bufs off ?j)" using c s(1) by (simp add: packet_at_ok)
  obtain v w where v: "checksumValid order (pkt_of bufs off ?j) ?st IPPROTO_UDP isV6 = Some v" "checksumValid order pkt ?st IPPROTO_UDP isV6 = Some w"
    using checksumValid_some h pkt by (meson add_leD1)
  let ?b = "(bufs ! ?j)\<lparr>gb_data := gb_data (bufs ! ?j) @ drop (?st + 8) pkt\<rparr>"
  have x: "extend_copy ?j (int (length pkt) - int (?st + 8)) (off + length (pkt_of bufs off ?j)) (drop (?st + 8) pkt) bufs = Some (bufs[?j := ?b])"
    using s(1) pkt c by (intro extend_copy_ok) (auto simp: pkt_of_def)
  show ?thesis
  proof (cases "int (gb_cap (bufs ! ?j)) - int off - int off < int (length (pkt_of bufs off ?j)) + int (length pkt) - int (?st + 8)")
    case False
    then have "length (gb_data ?b) \<le> gb_cap ?b" using pkt by (simp add: pkt_of_def)
    then have "\<exists>b. bufs[?j := ?b] = bufs[?j := b] \<and> off < length (gb_data b) \<and> length (gb_data b) \<le> gb_cap b \<and> gb_cap b \<le> 65535
         \<and> drop off (gb_data b) = pkt_of bufs off ?j @ drop (?st + 8) pkt"
      using c by (intro exI [of _ ?b]) (simp add: pkt_of_def)
    moreover have "coalesceUDPPackets order pkt item bufs off isV6 =
      (if ui_numMerged item = 0 \<and> (ui_cSumKnownInvalid item \<or> \<not> v) then Some (coalesceItemInvalidCSum, item, bufs)
       else if \<not> w then Some (coalescePktInvalidCSum, item, bufs)
       else Some (coalesceSuccess, item\<lparr>ui_numMerged := ui_numMerged item + 1\<rparr>, bufs[?j := ?b]))"
      using False s p v x pkt by (simp add: coalesceUDPPackets_def spare_cap_def idx_def u ui slice_from_def Let_def)
    ultimately show ?thesis by (simp split: if_split)
  qed (use s p in \<open>simp add: coalesceUDPPackets_def spare_cap_def idx_def u ui Let_def\<close>)
qed

lemma tcp_item_facts:
  assumes "bufs_ok P off k bufs" "tcp_item_ok P off bufs m item" "tk_isV6 (ti_key item) = isV6" "j = unat (ti_bufsIndex item)" "h = ip_len isV6 + unat (ti_tcphLen item)"
  shows "j < length bufs" "packet_at bufs j off = Some (pkt_of bufs off j)" "grouped P h (unat (ti_gsoSize item)) (m j) (pkt_of bufs off j)"
    "unat (ti_iphLen item) = ip_len isV6" "h \<le> length (pkt_of bufs off j)" "unat (ti_iphLen item + ti_tcphLen item) = h"
    "uint (ti_iphLen item + ti_tcphLen item) = int h" "20 \<le> unat (ti_tcphLen item)" "unat (ti_tcphLen item) \<le> 60" "ti_gsoSize item \<noteq> 0"
proof -
  show j: "j < length bufs" and g: "grouped P h (unat (ti_gsoSize item)) (m j) (pkt_of bufs off j)" and st: "unat (ti_iphLen item) = ip_len isV6"
    and t: "20 \<le> unat (ti_tcphLen item)" "unat (ti_tcphLen item) \<le> 60"
    using assms by (auto simp: tcp_item_ok_def slot_ok_def Let_def)
  show "packet_at bufs j off = Some (pkt_of bufs off j)" using bufs_ok_nth [OF assms(1) j] j by (simp add: packet_at_ok)
  show "h \<le> length (pkt_of bufs off j)" using g by (simp add: grouped_def)
  have "unat (ti_iphLen item) + unat (ti_tcphLen item) < 256" using st t by (simp add: ip_len_def)
  then show u: "unat (ti_iphLen item + ti_tcphLen item) = h" using st assms(5) by (simp add: u8_plus)
  show "uint (ti_iphLen item + ti_tcphLen item) = int h" by (simp add: uint_nat u)
  show "ti_gsoSize item \<noteq> 0" using grouped_pos [OF g] by auto
qed

lemma tcpPacketsCanCoalesce_ok:
  assumes b: "bufs_ok P off k bufs" and it: "tcp_item_ok P off bufs m item" "tk_isV6 (ti_key item) = isV6" "j = unat (ti_bufsIndex item)"
    and pkt: "iphLen = ip_len isV6" "20 \<le> tcphLen" "tcphLen \<le> 60" "iphLen + tcphLen \<le> length pkt"
  shows "\<exists>can. tcpPacketsCanCoalesce pkt (of_nat iphLen) (of_nat tcphLen) seq pshSet gsoSize item bufs off = Some can
    \<and> (can \<noteq> coalesceUnavailable \<longrightarrow> unat (ti_tcphLen item) = tcphLen)
    \<and> (can = coalesceAppend \<longrightarrow> (length (pkt_of bufs off j) - (iphLen + tcphLen)) mod unat (ti_gsoSize item) = 0 \<and> gsoSize \<le> ti_gsoSize item
        \<and> seq = ti_sentSeq item + ucast (ti_gsoSize item + ti_numMerged item * ti_gsoSize item))
    \<and> (can = coalescePrepend \<longrightarrow> seq + ucast gsoSize = ti_sentSeq item \<and> ti_gsoSize item \<le> gsoSize \<and> (ti_gsoSize item < gsoSize \<longrightarrow> ti_numMerged item = 0))"
proof -
  note f = tcp_item_facts [OF b it refl]
  have w: "unat (of_nat tcphLen :: u8) = tcphLen" "unat (of_nat iphLen + 20 :: u8) = iphLen + 20" "unat (ti_iphLen item + 20) = iphLen + 20"
    "unat (of_nat iphLen + of_nat tcphLen :: u8) = iphLen + tcphLen"
    using pkt f(4) u8_plus [of "ti_iphLen item" 20] by (auto simp: ip_len_def unat_word_ariths unsigned_of_nat take_bit_nat_eq_self split: if_splits)
  show ?thesis
  proof (cases "of_nat tcphLen = ti_tcphLen item")
    case False
    then show ?thesis using f(2) by (simp add: tcpPacketsCanCoalesce_def flip: it(3))
  next
    case True
    then have t: "unat (ti_tcphLen item) = tcphLen" using w(1) by auto
    then have h: "iphLen + tcphLen \<le> length (pkt_of bufs off j)" using f(5) pkt(1) by simp
    have "\<exists>e. tcp_options_equal pkt (of_nat iphLen) (ti_tcphLen item) (ti_iphLen item) (pkt_of bufs off j) = Some e"
      using pkt(2,4) h w by (auto simp: tcp_options_equal_def slice_at_def simp flip: True)
    moreover have "whole_segments (pkt_of bufs off j) (of_nat iphLen + ti_tcphLen item) (ti_gsoSize item)
      = Some ((length (pkt_of bufs off j) - (iphLen + tcphLen)) mod unat (ti_gsoSize item) = 0)"
      using h f(10) w(4) by (simp add: whole_segments_def slice_from_def flip: True)
    ultimately show ?thesis using f(2) t True
      by (auto simp: tcpPacketsCanCoalesce_def Let_def not_less word_gt_0 simp flip: it(3))
  qed
qed

text \<open>A buffer after coalescing: it stays within its capacity and shows \<open>pkt\<close>.\<close>

definition grown :: "nat \<Rightarrow> gro_buf \<Rightarrow> bytes \<Rightarrow> bool" where
  "grown off b pkt \<longleftrightarrow> off < length (gb_data b) \<and> length (gb_data b) \<le> gb_cap b \<and> gb_cap b \<le> 65535 \<and> drop off (gb_data b) = pkt"

lemma result3: "e = Some (a, b, c) \<Longrightarrow> Q a b c \<Longrightarrow> \<exists>a b c. e = Some (a, b, c) \<and> Q a b c"
  by blast

lemma coalesce_append_ok:
  assumes b: "bufs_ok P off k bufs" and it: "tcp_item_ok P off bufs m item" "tk_isV6 (ti_key item) = isV6" "j = unat (ti_bufsIndex item)"
    and pkt: "h = ip_len isV6 + unat (ti_tcphLen item)" "h \<le> length pkt"
  shows "\<exists>r item' bufs'. coalesce_append order pkt pshSet item bufs off isV6 = Some (r, item', bufs')
    \<and> (r \<noteq> coalesceSuccess \<longrightarrow> item' = item \<and> bufs' = bufs) \<and> (r = coalesceItemInvalidCSum \<longrightarrow> ti_numMerged item = 0)
    \<and> (r = coalesceSuccess \<longrightarrow> (\<exists>psh. item' = item\<lparr>ti_pshSet := psh\<rparr>)
        \<and> (\<exists>c x. bufs' = bufs[j := c] \<and> grown off c ((pkt_of bufs off j)[ip_len isV6 + 13 := x] @ drop h pkt)))"
proof -
  let ?st = "ip_len isV6" and ?q = "pkt_of bufs off j"
  note f = tcp_item_facts [OF b it pkt(1)]
  note c = bufs_ok_nth [OF b f(1)]
  obtain v w where v: "item_csum_valid order item ?q isV6 = Some v" "checksumValid order pkt ?st IPPROTO_TCP isV6 = Some w" "ti_numMerged item \<noteq> 0 \<Longrightarrow> v"
  proof -
    have "?st \<le> length ?q" "?st \<le> length pkt" using f(5) pkt by simp_all
    then show ?thesis using checksumValid_some [of isV6 ?q order IPPROTO_TCP] checksumValid_some [of isV6 pkt order IPPROTO_TCP] that f(4)
      by (cases "ti_numMerged item = 0") (auto simp: item_csum_valid_def)
  qed
  have fl: "unat (ti_iphLen item + of_nat tcpFlagsOffset) = ?st + 13" using f(4) by (subst u8_plus) (simp_all add: ip_len_def virtio_defs)
  have fq: "?st + 13 < length ?q" using f(5,8) pkt(1) by simp
  let ?psh = "if pshSet then \<lambda>d. d[off + (?st + 13) := ?q ! (?st + 13) OR tcpFlagPSH] else id"
  let ?c = "(bufs ! j)\<lparr>gb_data := ?psh (gb_data (bufs ! j)) @ drop h pkt\<rparr>"
  have x: "extend_copy j (int (length pkt) - int h) (off + length ?q) (drop h pkt) (bufs[j := (bufs ! j)\<lparr>gb_data := ?psh (gb_data (bufs ! j))\<rparr>]) = Some (bufs[j := ?c])"
    using f(1) pkt c by (subst extend_copy_ok) (auto simp: pkt_of_def)
  have d: "drop off (?psh (gb_data (bufs ! j))) = ?q[?st + 13 := (if pshSet then ?q ! (?st + 13) OR tcpFlagPSH else ?q ! (?st + 13))]"
  proof (cases pshSet)
    case True
    then show ?thesis using c fq by (simp add: pkt_of_def drop_update_swap)
  next
    case False
    then have "drop off (?psh (gb_data (bufs ! j))) = ?q" by (simp add: pkt_of_def)
    then show ?thesis using False by simp
  qed
  show ?thesis
  proof (cases "int (gb_cap (bufs ! j)) - int off - int off < int (length ?q) + int (length pkt) - int h")
    case True
    then show ?thesis using f by (simp add: coalesce_append_def spare_cap_def idx_def Let_def flip: it(3))
  next
    case False
    then have g: "grown off ?c (?q[?st + 13 := (if pshSet then ?q ! (?st + 13) OR tcpFlagPSH else ?q ! (?st + 13))] @ drop h pkt)"
      using c d pkt(2) by (auto simp: grown_def pkt_of_def)
    define I C where IC: "I = (if pshSet then item\<lparr>ti_pshSet := True\<rparr> else item)" "C = ?c"
    have e: "coalesce_append order pkt pshSet item bufs off isV6 =
      (if \<not> v then Some (coalesceItemInvalidCSum, item, bufs) else if \<not> w then Some (coalescePktInvalidCSum, item, bufs)
       else Some (coalesceSuccess, I, bufs[j := C]))" unfolding IC
      using False f(1,2,4,6,7) v(1,2) x pkt(2) fl fq unfolding coalesce_append_def spare_cap_def idx_def slice_from_def Let_def it(3) [symmetric]
      by (cases pshSet) simp_all
    have p: "\<exists>psh. I = item\<lparr>ti_pshSet := psh\<rparr>" by (rule exI [of _ "if pshSet then True else ti_pshSet item"]) (simp add: IC)
    have g': "\<exists>c x. bufs[j := C] = bufs[j := c] \<and> grown off c (?q[?st + 13 := x] @ drop h pkt)" using g [folded IC(2)] by blast
    show ?thesis
    proof (cases "v \<and> w")
      case True
      then show ?thesis unfolding e using p g' by (intro result3, simp, simp)
    next
      case False
      moreover have "\<not> v \<longrightarrow> ti_numMerged item = 0" using v(3) by blast
      ultimately show ?thesis unfolding e by (cases v) (rule result3, simp, simp)+
    qed
  qed
qed

lemma coalesce_prepend_ok:
  assumes b: "bufs_ok P off k bufs" and it: "tcp_item_ok P off bufs m item" "tk_isV6 (ti_key item) = isV6" "j = unat (ti_bufsIndex item)"
    and pkt: "h = ip_len isV6 + unat (ti_tcphLen item)" "h \<le> length pkt" "pkt = pkt_of bufs off k" "k < length bufs" "j \<noteq> k"
  shows "\<exists>r item' bufs'. coalesce_prepend order pkt k seq pshSet item bufs off isV6 = Some (r, item', bufs')
    \<and> (r \<noteq> coalesceSuccess \<longrightarrow> item' = item \<and> bufs' = bufs) \<and> (r = coalesceItemInvalidCSum \<longrightarrow> ti_numMerged item = 0)
    \<and> (r = coalesceSuccess \<longrightarrow> item' = item\<lparr>ti_sentSeq := seq\<rparr> \<and> (\<exists>c. bufs' = bufs[j := c, k := bufs ! j] \<and> grown off c (pkt @ drop h (pkt_of bufs off j))))"
proof -
  let ?st = "ip_len isV6" and ?q = "pkt_of bufs off j"
  note f = tcp_item_facts [OF b it pkt(1)]
  note c = bufs_ok_nth [OF b pkt(4)]
  obtain v w where v: "item_csum_valid order item ?q isV6 = Some v" "checksumValid order pkt ?st IPPROTO_TCP isV6 = Some w" "ti_numMerged item \<noteq> 0 \<Longrightarrow> v"
  proof -
    have "?st \<le> length ?q" "?st \<le> length pkt" using f(5) pkt by simp_all
    then show ?thesis using checksumValid_some [of isV6 ?q order IPPROTO_TCP] checksumValid_some [of isV6 pkt order IPPROTO_TCP] that f(4)
      by (cases "ti_numMerged item = 0") (auto simp: item_csum_valid_def)
  qed
  let ?c = "(bufs ! k)\<lparr>gb_data := gb_data (bufs ! k) @ drop h ?q\<rparr>"
  have x: "extend_copy k (int (length ?q) - int h) (off + length pkt) (drop h ?q) bufs = Some (bufs[k := ?c])"
    using f(5) pkt(3,4) c by (intro extend_copy_ok) (auto simp: pkt_of_def of_nat_diff)
  have sw: "bufs[k := ?c, j := ?c, k := bufs ! j] = bufs[j := ?c, k := bufs ! j]" using pkt(5) by (simp add: list_update_swap)
  show ?thesis
  proof (cases "int (gb_cap (bufs ! k)) - int off - int off < int (length ?q) + int (length pkt) - int h")
    case True
    then show ?thesis using f pkt(4) by (simp add: coalesce_prepend_def spare_cap_def idx_def Let_def flip: it(3))
  next
    case False
    then have g: "grown off ?c (pkt @ drop h ?q)" using c f(5) pkt(3) by (auto simp: grown_def pkt_of_def)
    define C where "C = ?c"
    have e: "coalesce_prepend order pkt k seq pshSet item bufs off isV6 =
      (if pshSet then Some (coalescePSHEnding, item, bufs) else if \<not> v then Some (coalesceItemInvalidCSum, item, bufs)
       else if \<not> w then Some (coalescePktInvalidCSum, item, bufs)
       else Some (coalesceSuccess, item\<lparr>ti_sentSeq := seq\<rparr>, bufs[j := C, k := bufs ! j]))" unfolding C_def
      using False f(1,2,4-7) v(1,2) x pkt(4,5) unfolding coalesce_prepend_def spare_cap_def idx_def slice_from_def Let_def it(3) [symmetric] sw [symmetric]
      by (simp add: add_diff_eq [symmetric] del: list_update_overwrite)
    have g': "\<exists>c. bufs[j := C, k := bufs ! j] = bufs[j := c, k := bufs ! j] \<and> grown off c (pkt @ drop h ?q)" using g [folded C_def] by blast
    show ?thesis
    proof (cases "\<not> pshSet \<and> v \<and> w")
      case True
      then show ?thesis unfolding e using g' by (intro result3, simp, simp)
    next
      case False
      moreover have "\<not> v \<longrightarrow> ti_numMerged item = 0" using v(3) by blast
      ultimately show ?thesis unfolding e by (cases pshSet; cases v) (rule result3, simp, simp)+
    qed
  qed
qed

end
