(* ===== verification/GroProofs.thy ===== *)
theory GroProofs
  imports GroInvariant
begin

unbundle bit_operations_syntax

text \<open>Every step of the loop of \<open>handleGRO\<close> keeps the invariant of \<open>GroInvariant\<close>, and none panics.\<close>

section \<open>One packet\<close>

text \<open>What the result of \<open>tcpGRO\<close> and \<open>udpGRO\<close> on packet \<open>k\<close> means for the invariant.\<close>

definition gro_done :: "bytes list \<Rightarrow> nat \<Rightarrow> nat \<Rightarrow> groResult \<Rightarrow> gro_state \<Rightarrow> bool" where
  "gro_done P off k r s \<longleftrightarrow>
     (case r of groResultNoop \<Rightarrow> \<exists>m. gro_inv P off k m s
      | groResultTableInsert \<Rightarrow> \<exists>m. gro_inv P off (Suc k) m (s\<lparr>gs_toWrite := gs_toWrite s @ [k]\<rparr>)
      | groResultCoalesced \<Rightarrow> \<exists>m. gro_inv P off (Suc k) m s)"

lemma of_nat16: "n < 65536 \<Longrightarrow> unat (of_nat n :: u16) = n"
  by (simp add: unsigned_of_nat take_bit_nat_eq_self)

lemma of_nat8: "n < 256 \<Longrightarrow> unat (of_nat n :: u8) = n"
  by (simp add: unsigned_of_nat take_bit_nat_eq_self)

lemma gro_inv_bufs: "gro_inv P off k m s \<Longrightarrow> bufs_ok P off k (gs_bufs s)"
  by (simp add: gro_inv_def)

lemma udp_key_some:
  assumes "ip_len isV6 + 8 \<le> length pkt"
  shows "\<exists>key. udp_key isV6 pkt = Some key \<and> uk_isV6 key = isV6"
  using assms by (cases isV6) (simp_all add: udp_key_def newUDPFlowKey_def Let_def slice_at_def Uint16_at_def ip_len_def addr_offset_def addr_size_def virtio_defs)

lemma tcp_key_some:
  assumes "ip_len isV6 + 20 \<le> length pkt"
  shows "\<exists>key. tcp_key isV6 pkt = Some key \<and> tk_isV6 key = isV6"
  using assms by (cases isV6) (simp_all add: tcp_key_def newTCPFlowKey_def Let_def slice_at_def Uint16_at_def Uint32_at_def ip_len_def addr_offset_def addr_size_def virtio_defs)

lemma update_nonempty: "(a, []) \<in> set (AList.update k v al) \<Longrightarrow> v \<noteq> [] \<Longrightarrow> (a, []) \<in> set al"
  by (induction al) (auto split: if_splits)

lemma insert_item_nonempty: "insert_item key item t = Some t' \<Longrightarrow> \<forall>(key, items)\<in>set (itemsByFlow t). items \<noteq> [] \<Longrightarrow> \<forall>(key, items)\<in>set (itemsByFlow t'). items \<noteq> []"
  by (auto simp: insert_item_def newItems_def bind_eq_Some_conv split: option.splits if_splits dest!: update_nonempty)

lemma updateAt_nonempty:
  assumes "updateAt key item i t = Some t'" "\<forall>(key, items)\<in>set (itemsByFlow t). items \<noteq> []"
  shows "\<forall>(key, items)\<in>set (itemsByFlow t'). items \<noteq> []"
proof -
  have "i < length (flow_items key t)" "t' = t\<lparr>itemsByFlow := AList.update key ((flow_items key t)[i := item]) (itemsByFlow t)\<rparr>"
    using assms(1) by (auto simp: updateAt_def store_def bind_eq_Some_conv split: if_splits)
  then show ?thesis using assms(2) by (auto dest!: update_nonempty)
qed

text \<open>The step of a packet that starts an item.\<close>

lemma udp_insert_ok:
  assumes inv: "gro_inv P off k m s" and k: "k < length P" "length P \<le> 128"
    and pkt: "pkt = P ! k" "iphLen = ip_len isV6" "iphLen + 8 < length pkt" "length pkt \<le> 65535" "udp_key isV6 pkt = Some key" "uk_isV6 key = isV6"
  shows "\<exists>t m. udp_insert pkt (addr_offset isV6) (addr_offset isV6 + addr_size isV6) iphLen k c (gs_udp s) = Some t
    \<and> gro_inv P off (Suc k) m (s\<lparr>gs_udp := t, gs_toWrite := gs_toWrite s @ [k]\<rparr>)"
proof -
  define item where "item = \<lparr>ui_key = key, ui_bufsIndex = of_nat k, ui_numMerged = 0, ui_gsoSize = of_nat (length pkt - (iphLen + 8)),
    ui_iphLen = of_nat iphLen, ui_cSumKnownInvalid = c\<rparr>"
  have w: "unat (of_nat (length pkt - (iphLen + 8)) :: u16) = length pkt - (iphLen + 8)" "unat (of_nat k :: u16) = k" "unat (of_nat iphLen :: u8) = iphLen"
    by (rule of_nat16 of_nat8, use pkt k in \<open>simp add: ip_len_def\<close>)+
  have bo: "bufs_ok P off k (gs_bufs s)" using inv by (rule gro_inv_bufs)
  have "udp_item_ok P off (gs_bufs s) (m(k := [k])) item"
    using bo k w pkt by (auto simp: udp_item_ok_def slot_ok_def Let_def item_def bufs_ok_def intro!: grouped_single)
  moreover have wf: "table_wf ui_key (gs_udp s)" "ui_key item = key" "itemsPool (gs_udp s) \<noteq> []" using inv k(1) by (auto simp: gro_inv_def item_def)
  from insert_item_ok [OF wf] obtain t where
    t: "insert_item key item (gs_udp s) = Some t" "table_wf ui_key t" "mset (all_items t) = add_mset item (mset (all_items (gs_udp s)))"
       "length (itemsPool (gs_udp s)) \<le> Suc (length (itemsPool t))" by blast
  moreover have "\<forall>(key, items)\<in>set (itemsByFlow t). items \<noteq> []" using insert_item_nonempty [OF t(1)] inv by (simp add: gro_inv_def)
  ultimately have "gro_inv P off (Suc k) (m(k := [k])) (s\<lparr>gs_udp := t, gs_toWrite := gs_toWrite s @ [k]\<rparr>)"
    using w(2) by (intro gro_inv_udp_item [OF inv k(1), of item]) (simp_all add: item_def)
  moreover have "udp_insert pkt (addr_offset isV6) (addr_offset isV6 + addr_size isV6) iphLen k c (gs_udp s) = Some t"
    using pkt t(1) by (simp add: udp_insert_def udp_key_def slice_from_def udphLen_def item_def)
  ultimately show ?thesis by blast
qed

lemma tcp_insert_ok:
  assumes inv: "gro_inv P off k m s" and k: "k < length P" "length P \<le> 128"
    and pkt: "pkt = P ! k" "iphLen = ip_len isV6" "20 \<le> tcphLen" "tcphLen \<le> 60" "iphLen + tcphLen < length pkt" "length pkt \<le> 65535"
      "tcp_key isV6 pkt = Some key" "tk_isV6 key = isV6"
  shows "\<exists>t m. tcp_insert pkt (addr_offset isV6) (addr_offset isV6 + addr_size isV6) iphLen tcphLen k (gs_tcp s) = Some t
    \<and> gro_inv P off (Suc k) m (s\<lparr>gs_tcp := t, gs_toWrite := gs_toWrite s @ [k]\<rparr>)"
proof -
  obtain seq where seq: "Uint32_at (iphLen + 4) pkt = Some seq" using pkt by (simp add: Uint32_at_def)
  define item where "item = \<lparr>ti_key = key, ti_sentSeq = seq, ti_bufsIndex = of_nat k, ti_numMerged = 0, ti_gsoSize = of_nat (length pkt - (iphLen + tcphLen)),
    ti_iphLen = of_nat iphLen, ti_tcphLen = of_nat tcphLen, ti_pshSet = (pkt ! (iphLen + tcpFlagsOffset) AND tcpFlagPSH \<noteq> 0)\<rparr>"
  have w: "unat (of_nat (length pkt - (iphLen + tcphLen)) :: u16) = length pkt - (iphLen + tcphLen)" "unat (of_nat k :: u16) = k" "unat (of_nat iphLen :: u8) = iphLen"
    "unat (of_nat tcphLen :: u8) = tcphLen"
    by (rule of_nat16 of_nat8, use pkt k in \<open>simp add: ip_len_def\<close>)+
  have bo: "bufs_ok P off k (gs_bufs s)" using inv by (rule gro_inv_bufs)
  have "tcp_item_ok P off (gs_bufs s) (m(k := [k])) item"
    using bo k w pkt seq by (auto simp: tcp_item_ok_def slot_ok_def Let_def item_def bufs_ok_def in_sequence_def intro!: grouped_single)
  moreover have wf: "table_wf ti_key (gs_tcp s)" "ti_key item = key" "itemsPool (gs_tcp s) \<noteq> []" using inv k(1) by (auto simp: gro_inv_def item_def)
  from insert_item_ok [OF wf] obtain t where
    t: "insert_item key item (gs_tcp s) = Some t" "table_wf ti_key t" "mset (all_items t) = add_mset item (mset (all_items (gs_tcp s)))"
       "length (itemsPool (gs_tcp s)) \<le> Suc (length (itemsPool t))" by blast
  ultimately have "gro_inv P off (Suc k) (m(k := [k])) (s\<lparr>gs_tcp := t, gs_toWrite := gs_toWrite s @ [k]\<rparr>)"
    using w(2) by (intro gro_inv_tcp_item [OF inv k(1), of item]) (simp_all add: item_def)
  moreover have "tcp_insert pkt (addr_offset isV6) (addr_offset isV6 + addr_size isV6) iphLen tcphLen k (gs_tcp s) = Some t"
    using pkt t(1) seq by (simp add: tcp_insert_def tcp_key_def slice_from_def item_def idx_def tcpFlagsOffset_def)
  ultimately show ?thesis by blast
qed

text \<open>A packet that joins an item: the item still describes its group.\<close>

lemma bufs_ok_grown:
  assumes "bufs_ok P off k bufs" "j < length bufs" "j < k" "grown off c q"
  shows "bufs_ok P off (Suc k) (bufs[j := c])"
  using assms set_update_subset_insert [of bufs j c] unfolding bufs_ok_def grown_def pkt_of_def by (auto dest!: subsetD)

lemma pkt_of_grown: "j < length bufs \<Longrightarrow> grown off c q \<Longrightarrow> pkt_of (bufs[j := c]) off j = q"
  by (simp add: pkt_of_def grown_def)

lemma numMerged_inc:
  assumes "Suc (unat (n :: u16)) = length ms" "distinct ms" "set ms \<subseteq> {..<128 :: nat}"
  shows "unat (n + 1) = length ms"
proof -
  have "length ms \<le> 128" using card_mono [OF _ assms(3)] assms(2) by (simp add: distinct_card)
  then show ?thesis using assms(1) by (simp add: unat_word_ariths)
qed

lemma group_distinct:
  assumes "gro_inv P off k m s" "j \<in> set (gs_toWrite s)"
  shows "distinct (m j)" "set (m j) \<subseteq> {..<k}"
proof -
  have "mset (concat (map m (gs_toWrite s))) = mset [0..<k]" using assms(1) by (simp add: gro_inv_def)
  from mset_eq_imp_distinct_iff [OF this] mset_eq_setD [OF this]
  have "distinct (concat (map m (gs_toWrite s)))" "set (concat (map m (gs_toWrite s))) = {..<k}" by (simp_all add: lessThan_atLeast0)
  then show "distinct (m j)" "set (m j) \<subseteq> {..<k}" using assms(2) by (auto simp: distinct_concat_iff)
qed

lemma udp_item_grow:
  assumes inv: "gro_inv P off k m s" and it: "item \<in> set (all_items (gs_udp s))" "j = unat (ui_bufsIndex item)" "isV6 = uk_isV6 (ui_key item)"
    and k: "k < length P" "length P \<le> 128" and pkt: "ip_len isV6 + 8 < length (P ! k)" "length (P ! k) \<le> ip_len isV6 + 8 + unat (ui_gsoSize item)"
      "udp_key isV6 (P ! k) = Some (ui_key item)"
    and whole: "(length (pkt_of (gs_bufs s) off j) - (ip_len isV6 + 8)) mod unat (ui_gsoSize item) = 0"
    and c: "grown off c (pkt_of (gs_bufs s) off j @ drop (ip_len isV6 + 8) (P ! k))"
  shows "udp_item_ok P off ((gs_bufs s)[j := c]) (m(j := m j @ [k])) (item\<lparr>ui_numMerged := ui_numMerged item + 1\<rparr>)"
proof -
  have ok: "udp_item_ok P off (gs_bufs s) m item" using inv it(1) by (simp add: gro_inv_def)
  have j: "j < length (gs_bufs s)" "j \<in> set (gs_toWrite s)" using ok it(2) gro_inv_slot(2) [OF inv udp_slot [OF it(1)]] by (auto simp: udp_item_ok_def slot_ok_def Let_def)
  let ?q = "pkt_of (gs_bufs s) off j" and ?h = "ip_len isV6 + 8" and ?g = "unat (ui_gsoSize item)"
  have s: "grouped P ?h ?g (m j) ?q" "header_of P {} ?h (m j) ?q" "Suc (unat (ui_numMerged item)) = length (m j)" "unat (ui_iphLen item) = ip_len isV6"
    "\<forall>i\<in>set (m j). udp_key isV6 (P ! i) = Some (ui_key item)" using ok it(2,3) by (auto simp: udp_item_ok_def slot_ok_def Let_def)
  have ms: "m j \<noteq> []" "?h \<le> length ?q" using s(1) by (auto simp: grouped_def)
  have n: "unat (ui_numMerged item + 1) = length (m j)" using group_distinct [OF inv j(2)] s(3) k by (intro numMerged_inc) auto
  have "header_of P {} ?h (m j @ [k]) (?q @ drop ?h (P ! k))" using s(2) ms by (simp add: header_of_def nth_append)
  then show ?thesis using s(4,5) n ms(1) j(1) grouped_append [OF s(1) whole k(1) pkt(1,2)] pkt(3) it(2,3) pkt_of_grown [OF j(1) c]
    by (simp add: udp_item_ok_def slot_ok_def Let_def)
qed

lemma udp_try_ok:
  assumes inv: "gro_inv P off k m s" and it: "item \<in> set (all_items (gs_udp s))" "uk_isV6 (ui_key item) = isV6"
    and k: "k < length P" "length P \<le> 128" and pkt: "pkt = P ! k" "iphLen = ip_len isV6" "iphLen + 8 < length pkt" "length pkt \<le> 65535"
    and key: "udp_key isV6 pkt = Some (ui_key item)" and g: "unat g = length pkt - (iphLen + 8)"
  shows "\<exists>r item' bufs'. do { can \<leftarrow> udpPacketsCanCoalesce pkt (of_nat iphLen) g item (gs_bufs s) off;
             if can = coalesceAppend then coalesceUDPPackets order pkt item (gs_bufs s) off isV6 else Some (coalesceInsufficientCap, item, gs_bufs s) } = Some (r, item', bufs')
     \<and> ui_key item' = ui_key item \<and> (r \<noteq> coalesceSuccess \<longrightarrow> item' = item \<and> bufs' = gs_bufs s)
     \<and> (\<forall>t. r = coalesceSuccess \<longrightarrow> table_wf ui_key t \<longrightarrow> mset (all_items t) = add_mset item' (mset (all_items (gs_udp s)) - {#item#}) \<longrightarrow>
         itemsPool t = itemsPool (gs_udp s) \<longrightarrow> (\<forall>(key, items)\<in>set (itemsByFlow t). items \<noteq> []) \<longrightarrow> (\<exists>m'. gro_inv P off (Suc k) m' (s\<lparr>gs_bufs := bufs', gs_udp := t\<rparr>)))"
proof -
  let ?j = "unat (ui_bufsIndex item)" and ?bufs = "gs_bufs s"
  have bo: "bufs_ok P off k ?bufs" using inv by (rule gro_inv_bufs)
  have ok: "udp_item_ok P off ?bufs m item" using inv it(1) by (simp add: gro_inv_def)
  have j: "?j < length ?bufs" "?j < k" using ok gro_inv_slot(1) [OF inv udp_slot [OF it(1)]] by (auto simp: udp_item_ok_def slot_ok_def Let_def)
  from udpPacketsCanCoalesce_ok [OF bo ok, of iphLen pkt g] it(2) pkt(2) obtain can where can: "udpPacketsCanCoalesce pkt (of_nat iphLen) g item ?bufs off = Some can"
    "can = coalesceAppend \<Longrightarrow> (length (pkt_of ?bufs off ?j) - (iphLen + 8)) mod unat (ui_gsoSize item) = 0 \<and> g \<le> ui_gsoSize item" by auto
  show ?thesis
  proof (cases "can = coalesceAppend")
    case False
    then show ?thesis using can(1) by simp
  next
    case True
    from coalesceUDPPackets_ok [OF bo ok it(2), of pkt order] pkt(2,3) obtain r item' bufs' where r: "coalesceUDPPackets order pkt item ?bufs off isV6 = Some (r, item', bufs')"
      "r \<noteq> coalesceSuccess \<longrightarrow> item' = item \<and> bufs' = ?bufs"
      "r = coalesceSuccess \<longrightarrow> item' = item\<lparr>ui_numMerged := ui_numMerged item + 1\<rparr> \<and> (\<exists>b. bufs' = ?bufs[?j := b] \<and> grown off b (pkt_of ?bufs off ?j @ drop (iphLen + 8) pkt))"
      by (auto simp: grown_def)
    have "ui_key item' = ui_key item" using r(2,3) by (cases "r = coalesceSuccess") auto
    moreover have "\<exists>m'. gro_inv P off (Suc k) m' (s\<lparr>gs_bufs := bufs', gs_udp := t\<rparr>)" if "r = coalesceSuccess" "table_wf ui_key t"
      "mset (all_items t) = add_mset item' (mset (all_items (gs_udp s)) - {#item#})" "itemsPool t = itemsPool (gs_udp s)"
      "\<forall>(key, items)\<in>set (itemsByFlow t). items \<noteq> []" for t
    proof -
      from r(3) that(1) obtain c where c: "item' = item\<lparr>ui_numMerged := ui_numMerged item + 1\<rparr>" "bufs' = ?bufs[?j := c]"
        "grown off c (pkt_of ?bufs off ?j @ drop (iphLen + 8) pkt)" by blast
      have "length (P ! k) \<le> ip_len isV6 + 8 + unat (ui_gsoSize item)" using can(2) [OF True, THEN conjunct2] g pkt(1,2) by (simp add: word_le_nat_alt)
      then have a1: "udp_item_ok P off bufs' (m(?j := m ?j @ [k])) item'" unfolding c
        using pkt key can(2) [OF True] c(3) it(2) by (intro udp_item_grow [OF inv it(1) refl it(2) [symmetric] k]) auto
      have a2: "mset (m ?j @ [k]) = add_mset k (mset (m ?j))" by simp
      have a3: "ui_bufsIndex item' = ui_bufsIndex item" "bufs_ok P off (Suc k) bufs'" "\<And>i. i \<noteq> ?j \<Longrightarrow> i \<noteq> k \<Longrightarrow> bufs' ! i = ?bufs ! i"
        using c bufs_ok_grown [OF bo j c(3)] by simp_all
      show ?thesis by (rule exI) (rule gro_inv_udp_grow [OF inv it(1) refl a3(1) a1 a2 a3(2,3) that(2-5)])
    qed
    ultimately show ?thesis using can(1) True r(1,2) by simp
  qed
qed

lemma udp_gro_flow_ok:
  assumes inv: "gro_inv P off k m s" and k: "k < length P" "length P \<le> 128" and pkt: "pkt = P ! k" "iphLen = ip_len isV6" "iphLen + 8 \<le> length pkt" "length pkt \<le> 65535"
  shows "\<exists>r bufs' t. udp_gro_flow order pkt k iphLen off isV6 (gs_bufs s) (gs_udp s) = Some (r, bufs', t) \<and> gro_done P off k r (s\<lparr>gs_bufs := bufs', gs_udp := t\<rparr>)"
proof (cases "iphLen + 8 = length pkt")
  case True
  then have "(of_nat (length pkt - udphLen - iphLen) :: u16) = 0" by (simp add: udphLen_def)
  then show ?thesis using inv by (simp add: udp_gro_flow_def gro_done_def) (metis groResult.case(1))
next
  case False
  let ?g = "of_nat (length pkt - udphLen - iphLen) :: u16"
  have g: "unat ?g = length pkt - (iphLen + 8)" "\<not> ?g < 1"
  proof -
    show u: "unat ?g = length pkt - (iphLen + 8)" using pkt(4) by (subst of_nat16) (simp_all add: udphLen_def)
    then show "\<not> ?g < 1" using False pkt(3) by (simp add: word_less_nat_alt)
  qed
  obtain key where key: "udp_key isV6 pkt = Some key" "uk_isV6 key = isV6" using udp_key_some [of isV6 pkt] pkt by auto
  have L: "iphLen + 8 < length pkt" using False pkt(3) by simp
  have nk: "newUDPFlowKey pkt (addr_offset isV6) (addr_offset isV6 + addr_size isV6) iphLen = Some key" using key(1) pkt(2) by (simp add: udp_key_def)
  note ins = udp_insert_ok [OF inv k pkt(1,2) L pkt(4) key]
  show ?thesis
  proof (cases "map_of (itemsByFlow (gs_udp s)) key")
    case None
    from ins [of False] obtain t m' where t: "udp_insert pkt (addr_offset isV6) (addr_offset isV6 + addr_size isV6) iphLen k False (gs_udp s) = Some t"
      "gro_inv P off (Suc k) m' (s\<lparr>gs_udp := t, gs_toWrite := gs_toWrite s @ [k]\<rparr>)" by blast
    then have "udp_gro_flow order pkt k iphLen off isV6 (gs_bufs s) (gs_udp s) = Some (groResultTableInsert, gs_bufs s, t)"
      using g key None pkt(2) by (simp add: udp_gro_flow_def udp_lookupOrInsert_def udp_key_def Let_def)
    then show ?thesis using t(2) by (intro exI conjI) (auto simp: gro_done_def)
  next
    case (Some items)
    note fl = map_of_flow [OF Some]
    have wf: "table_wf ui_key (gs_udp s)" using inv by (simp add: gro_inv_def)
    have ne: "items \<noteq> []" using map_of_SomeD [OF Some] inv by (auto simp: gro_inv_def)
    let ?item = "last items" and ?i = "length items - 1"
    have it: "?item \<in> set items" "ui_key ?item = key" "?item \<in> set (all_items (gs_udp s))"
      using ne table_wf_items [OF wf, of ?item key] flow_items_subset [of key "gs_udp s"] fl by auto
    from udp_try_ok [OF inv it(3) _ k pkt(1,2) L pkt(4), where order = order and g = ?g] it(2) key g(1) obtain r item' bufs' where
      tr: "do { can \<leftarrow> udpPacketsCanCoalesce pkt (of_nat iphLen) ?g ?item (gs_bufs s) off;
             if can = coalesceAppend then coalesceUDPPackets order pkt ?item (gs_bufs s) off isV6 else Some (coalesceInsufficientCap, ?item, gs_bufs s) } = Some (r, item', bufs')"
      "r \<noteq> coalesceSuccess \<Longrightarrow> item' = ?item \<and> bufs' = gs_bufs s"
      "\<And>t. r = coalesceSuccess \<Longrightarrow> table_wf ui_key t \<Longrightarrow> mset (all_items t) = add_mset item' (mset (all_items (gs_udp s)) - {#?item#}) \<Longrightarrow>
         itemsPool t = itemsPool (gs_udp s) \<Longrightarrow> \<forall>(key, items)\<in>set (itemsByFlow t). items \<noteq> [] \<Longrightarrow> \<exists>m'. gro_inv P off (Suc k) m' (s\<lparr>gs_bufs := bufs', gs_udp := t\<rparr>)"
      "ui_key item' = key" by blast
    from tr(1) obtain can where can: "udpPacketsCanCoalesce pkt (of_nat iphLen) ?g ?item (gs_bufs s) off = Some can"
      "(if can = coalesceAppend then coalesceUDPPackets order pkt ?item (gs_bufs s) off isV6 else Some (coalesceInsufficientCap, ?item, gs_bufs s)) = Some (r, item', bufs')"
      unfolding bind_eq_Some_conv by blast
    have e: "udp_gro_flow order pkt k iphLen off isV6 (gs_bufs s) (gs_udp s) =
      (if r = coalesceSuccess then do { table \<leftarrow> updateAt (ui_key item') item' ?i (gs_udp s); Some (groResultCoalesced, bufs', table) }
       else do { table \<leftarrow> udp_insert pkt (addr_offset isV6) (addr_offset isV6 + addr_size isV6) iphLen k (r = coalescePktInvalidCSum) (gs_udp s);
                 Some (groResultTableInsert, bufs', table) })"
      using g(2) Some ne unfolding udp_gro_flow_def Let_def by (simp add: udp_lookupOrInsert_def nk can del: diff_diff_left)
    show ?thesis
    proof (cases "r = coalesceSuccess")
      case True
      have "?i < length (flow_items key (gs_udp s))" "flow_items key (gs_udp s) ! ?i = ?item" using ne fl by (simp_all add: last_conv_nth)
      with updateAt_ok [OF wf tr(4), of ?i] obtain t where t: "updateAt key item' ?i (gs_udp s) = Some t" "table_wf ui_key t" "itemsPool t = itemsPool (gs_udp s)"
        "mset (all_items t) = add_mset item' (mset (all_items (gs_udp s)) - {#?item#})" by auto
      have "\<forall>(key, items)\<in>set (itemsByFlow t). items \<noteq> []" using updateAt_nonempty [OF t(1)] inv by (simp add: gro_inv_def)
      from tr(3) [OF True t(2,4,3) this] show ?thesis unfolding e using True t(1) tr(4) by (auto simp: gro_done_def)
    next
      case False
      from ins [of "r = coalescePktInvalidCSum"] show ?thesis unfolding e using False tr(2) by (auto simp: gro_done_def)
    qed
  qed
qed

section \<open>TCP\<close>

lemma lhsLen_ok:
  assumes "Suc (unat n) * unat g < 65536"
  shows "(ucast (g + n * g :: u16) :: u32) = of_nat (Suc (unat n) * unat g)"
proof -
  have m: "unat n * unat g < 65536" using assms by simp
  then have "unat (n * g) = unat n * unat g" by (simp add: unat_word_ariths)
  then have "unat (g + n * g) = Suc (unat n) * unat g" using assms by (simp add: unat_word_ariths)
  then show ?thesis by (metis of_nat_unat)
qed

lemma tcp_item_append:
  assumes inv: "gro_inv P off k m s" and it: "item \<in> set (all_items (gs_tcp s))" "j = unat (ti_bufsIndex item)" "isV6 = tk_isV6 (ti_key item)"
      "h = ip_len isV6 + unat (ti_tcphLen item)"
    and k: "k < length P" "length P \<le> 128" and pkt: "h < length (P ! k)" "length (P ! k) \<le> h + unat (ti_gsoSize item)" "tcp_key isV6 (P ! k) = Some (ti_key item)"
      "Uint32_at (ip_len isV6 + 4) (P ! k) = Some seq" "seq = ti_sentSeq item + ucast (ti_gsoSize item + ti_numMerged item * ti_gsoSize item)"
    and whole: "(length (pkt_of (gs_bufs s) off j) - h) mod unat (ti_gsoSize item) = 0"
    and c: "grown off c ((pkt_of (gs_bufs s) off j)[ip_len isV6 + 13 := x] @ drop h (P ! k))"
    and item': "item' = item\<lparr>ti_pshSet := psh, ti_numMerged := ti_numMerged item + 1\<rparr>"
  shows "tcp_item_ok P off ((gs_bufs s)[j := c]) (m(j := m j @ [k])) item'"
proof -
  have ok: "tcp_item_ok P off (gs_bufs s) m item" using inv it(1) by (simp add: gro_inv_def)
  have j: "j < length (gs_bufs s)" "j \<in> set (gs_toWrite s)" using ok it(2) gro_inv_slot(2) [OF inv tcp_slot [OF it(1)]] by (auto simp: tcp_item_ok_def slot_ok_def Let_def)
  let ?q = "pkt_of (gs_bufs s) off j" and ?g = "unat (ti_gsoSize item)" and ?st = "ip_len isV6"
  have s: "grouped P h ?g (m j) ?q" "header_of P {?st + 13} h (m j) ?q" "Suc (unat (ti_numMerged item)) = length (m j)" "unat (ti_iphLen item) = ?st"
    "20 \<le> unat (ti_tcphLen item)" "unat (ti_tcphLen item) \<le> 60"
    "\<forall>i\<in>set (m j). tcp_key isV6 (P ! i) = Some (ti_key item)" "in_sequence P (?st + 4) ?g (ti_sentSeq item) (m j)"
    using ok it(2-) by (auto simp: tcp_item_ok_def slot_ok_def Let_def)
  let ?q' = "?q[?st + 13 := x]"
  have q': "grouped P h ?g (m j) ?q'" "(length ?q' - h) mod ?g = 0" using s(1,5) it(4) whole by (simp_all add: grouped_def)
  have ms: "m j \<noteq> []" "h \<le> length ?q" using s(1) by (auto simp: grouped_def)
  have n: "unat (ti_numMerged item + 1) = length (m j)" using group_distinct [OF inv j(2)] s(3) k by (intro numMerged_inc) auto
  have hd: "header_of P {?st + 13} h (m j @ [k]) (?q' @ drop h (P ! k))" using s(2) ms by (simp add: header_of_def nth_append)
  have "length ?q \<le> 65535" using bufs_ok_nth [OF gro_inv_bufs [OF inv] j(1)] by (auto simp: pkt_of_def)
  then have "Suc (unat (ti_numMerged item)) * ?g < 65536" using grouped_whole(1) [OF s(1) whole] s(3) by simp
  from lhsLen_ok [OF this] have "seq = ti_sentSeq item + of_nat (length (m j) * ?g)" using pkt(5) s(3) by simp
  then have seq: "in_sequence P (?st + 4) ?g (ti_sentSeq item) (m j @ [k])" using pkt(4) by (intro in_sequence_append s(8)) simp
  note g = grouped_append [OF q' k(1) pkt(1,2)]
  show ?thesis using s(4-7) n ms(1) j(1) g hd seq pkt(3) it(2-4) pkt_of_grown [OF j(1) c]
    by (simp add: tcp_item_ok_def slot_ok_def Let_def item')
qed

lemma tcp_item_prepend:
  assumes inv: "gro_inv P off k m s" and it: "item \<in> set (all_items (gs_tcp s))" "j = unat (ti_bufsIndex item)" "isV6 = tk_isV6 (ti_key item)"
      "h = ip_len isV6 + unat (ti_tcphLen item)"
    and k: "k < length P" "length P \<le> 128" and pkt: "length (P ! k) = h + unat gsoSize" "tcp_key isV6 (P ! k) = Some (ti_key item)"
      "Uint32_at (ip_len isV6 + 4) (P ! k) = Some seq" "seq + ucast gsoSize = ti_sentSeq item" "ti_gsoSize item \<le> gsoSize" "ti_gsoSize item < gsoSize \<longrightarrow> ti_numMerged item = 0"
    and c: "grown off c (P ! k @ drop h (pkt_of (gs_bufs s) off j))"
    and item': "item' = item\<lparr>ti_sentSeq := seq, ti_gsoSize := gsoSize, ti_numMerged := ti_numMerged item + 1\<rparr>"
  shows "tcp_item_ok P off ((gs_bufs s)[j := c, k := gs_bufs s ! j]) (m(j := k # m j)) item'"
proof -
  have ok: "tcp_item_ok P off (gs_bufs s) m item" using inv it(1) by (simp add: gro_inv_def)
  have j: "j < length (gs_bufs s)" "j \<in> set (gs_toWrite s)" "j < k" using ok it(2) gro_inv_slot [OF inv tcp_slot [OF it(1)]] by (auto simp: tcp_item_ok_def slot_ok_def Let_def)
  let ?q = "pkt_of (gs_bufs s) off j" and ?g = "unat (ti_gsoSize item)" and ?st = "ip_len isV6"
  have s: "grouped P h ?g (m j) ?q" "Suc (unat (ti_numMerged item)) = length (m j)" "unat (ti_iphLen item) = ?st"
    "20 \<le> unat (ti_tcphLen item)" "unat (ti_tcphLen item) \<le> 60"
    "\<forall>i\<in>set (m j). tcp_key isV6 (P ! i) = Some (ti_key item)" "in_sequence P (?st + 4) ?g (ti_sentSeq item) (m j)"
    using ok it(2-) by (auto simp: tcp_item_ok_def slot_ok_def Let_def)
  have n: "unat (ti_numMerged item + 1) = length (m j)" using group_distinct [OF inv j(2)] s(2) k by (intro numMerged_inc) auto
  have one: "?g \<noteq> unat gsoSize \<Longrightarrow> length (m j) = 1" using pkt(5,6) s(2) by (auto simp: word_less_nat_alt word_le_nat_alt)
  have g: "grouped P h (unat gsoSize) (k # m j) (P ! k @ drop h ?q)"
    using pkt(1,5) k(1) one by (intro grouped_prepend [OF s(1)]) (auto simp: word_le_nat_alt)
  have "(ucast gsoSize :: u32) = of_nat (unat gsoSize)" by (simp add: of_nat_unat)
  then have seq: "in_sequence P (?st + 4) (unat gsoSize) seq (k # m j)" using pkt(3,4) one by (intro in_sequence_prepend [OF s(7)]) auto
  have hd: "header_of P {?st + 13} h (k # m j) (P ! k @ drop h ?q)" using pkt(1) by (simp add: header_of_def nth_append)
  have "m j \<noteq> []" using s(1) by (simp add: grouped_def)
  moreover have "pkt_of ((gs_bufs s)[j := c, k := gs_bufs s ! j]) off j = P ! k @ drop h ?q" using pkt_of_grown [OF j(1) c] j(3) by (simp add: pkt_of_def)
  ultimately show ?thesis using s(3-6) n j(1) g hd seq pkt(2) it(2-4)
    by (simp add: tcp_item_ok_def slot_ok_def Let_def item')
qed

lemma tcp_join_append:
  assumes inv: "gro_inv P off k m s" and it: "item \<in> set (all_items (gs_tcp s))" "j = unat (ti_bufsIndex item)" "tk_isV6 (ti_key item) = isV6"
    and k: "k < length P" and grow: "tcp_item_ok P off bufs' (m(j := ms)) item'" "ti_bufsIndex item' = ti_bufsIndex item" "mset ms = add_mset k (mset (m j))"
    and bufs': "bufs_ok P off (Suc k) bufs'" "\<And>i. i \<noteq> j \<Longrightarrow> i \<noteq> k \<Longrightarrow> bufs' ! i = gs_bufs s ! i"
  shows "\<forall>t. table_wf ti_key t \<longrightarrow> mset (all_items t) = add_mset item' (mset (all_items (gs_tcp s)) - {#item#}) \<longrightarrow> itemsPool t = itemsPool (gs_tcp s)
     \<longrightarrow> (\<exists>m'. gro_inv P off (Suc k) m' (s\<lparr>gs_bufs := bufs', gs_tcp := t\<rparr>))"
  using gro_inv_tcp_grow [OF inv it(1,2) grow(2,1,3) bufs'] by blast

lemma coalesceTCP_append_ok:
  assumes inv: "gro_inv P off k m s" and it: "item \<in> set (all_items (gs_tcp s))" "tk_isV6 (ti_key item) = isV6"
    and k: "k < length P" "length P \<le> 128" and h: "h = ip_len isV6 + unat (ti_tcphLen item)"
    and pkt: "h < length (P ! k)" "unat gsoSize = length (P ! k) - h" "tcp_key isV6 (P ! k) = Some (ti_key item)" "Uint32_at (ip_len isV6 + 4) (P ! k) = Some seq"
    and can: "(length (pkt_of (gs_bufs s) off (unat (ti_bufsIndex item))) - h) mod unat (ti_gsoSize item) = 0" "gsoSize \<le> ti_gsoSize item"
      "seq = ti_sentSeq item + ucast (ti_gsoSize item + ti_numMerged item * ti_gsoSize item)"
  shows "\<exists>r item' bufs'. coalesceTCPPackets order coalesceAppend (P ! k) k gsoSize seq pshSet item (gs_bufs s) off isV6 = Some (r, item', bufs')
     \<and> ti_key item' = ti_key item \<and> (r \<noteq> coalesceSuccess \<longrightarrow> item' = item \<and> bufs' = gs_bufs s) \<and> (r = coalesceItemInvalidCSum \<longrightarrow> ti_numMerged item = 0)
     \<and> (r = coalesceSuccess \<longrightarrow> (\<forall>t. table_wf ti_key t \<longrightarrow> mset (all_items t) = add_mset item' (mset (all_items (gs_tcp s)) - {#item#}) \<longrightarrow>
          itemsPool t = itemsPool (gs_tcp s) \<longrightarrow> (\<exists>m'. gro_inv P off (Suc k) m' (s\<lparr>gs_bufs := bufs', gs_tcp := t\<rparr>))))"
proof -
  let ?j = "unat (ti_bufsIndex item)" and ?bufs = "gs_bufs s"
  have bo: "bufs_ok P off k ?bufs" using inv by (rule gro_inv_bufs)
  have ok: "tcp_item_ok P off ?bufs m item" using inv it(1) by (simp add: gro_inv_def)
  have j: "?j < length ?bufs" "?j < k" using ok gro_inv_slot(1) [OF inv tcp_slot [OF it(1)]] by (auto simp: tcp_item_ok_def slot_ok_def Let_def)
  from coalesce_append_ok [OF bo ok it(2) refl h less_imp_le [OF pkt(1)], of order pshSet] obtain r item1 bufs' where
    r: "coalesce_append order (P ! k) pshSet item ?bufs off isV6 = Some (r, item1, bufs')" "r \<noteq> coalesceSuccess \<longrightarrow> item1 = item \<and> bufs' = ?bufs"
      "r = coalesceItemInvalidCSum \<longrightarrow> ti_numMerged item = 0"
      "r = coalesceSuccess \<longrightarrow> (\<exists>psh. item1 = item\<lparr>ti_pshSet := psh\<rparr>)
        \<and> (\<exists>c x. bufs' = ?bufs[?j := c] \<and> grown off c ((pkt_of ?bufs off ?j)[ip_len isV6 + 13 := x] @ drop h (P ! k)))" by blast
  show ?thesis
  proof (cases "r = coalesceSuccess")
    case False
    then show ?thesis using r by (simp add: coalesceTCPPackets_def)
  next
    case True
    from r(4) True obtain psh c x where c: "item1 = item\<lparr>ti_pshSet := psh\<rparr>" "bufs' = ?bufs[?j := c]" "grown off c ((pkt_of ?bufs off ?j)[ip_len isV6 + 13 := x] @ drop h (P ! k))" by blast
    define item' where "item' = item\<lparr>ti_pshSet := psh, ti_numMerged := ti_numMerged item + 1\<rparr>"
    have "\<not> gsoSize > ti_gsoSize item" using can(2) by simp
    then have e: "coalesceTCPPackets order coalesceAppend (P ! k) k gsoSize seq pshSet item ?bufs off isV6 = Some (r, item', bufs')"
      using r(1) True c(1) by (simp add: coalesceTCPPackets_def item'_def)
    have len: "length (P ! k) \<le> h + unat (ti_gsoSize item)" using can(2) pkt(2) by (simp add: word_le_nat_alt)
    have "tcp_item_ok P off bufs' (m(?j := m ?j @ [k])) item'" unfolding c(2)
      by (rule tcp_item_append [OF inv it(1) refl it(2) [symmetric] h k pkt(1) len pkt(3,4) can(3,1) c(3) item'_def])
    then have "\<forall>t. table_wf ti_key t \<longrightarrow> mset (all_items t) = add_mset item' (mset (all_items (gs_tcp s)) - {#item#}) \<longrightarrow> itemsPool t = itemsPool (gs_tcp s)
       \<longrightarrow> (\<exists>m'. gro_inv P off (Suc k) m' (s\<lparr>gs_bufs := bufs', gs_tcp := t\<rparr>))"
      using c(2) bufs_ok_grown [OF bo j c(3)] by (intro tcp_join_append [OF inv it(1) refl it(2) k(1), where ms = "m ?j @ [k]"]) (simp_all add: item'_def)
    moreover have "ti_key item' = ti_key item" by (simp add: item'_def)
    ultimately show ?thesis unfolding e using True by simp
  qed
qed

lemma bufs_ok_swapped:
  assumes "bufs_ok P off k bufs" "j < length bufs" "j < k" "k < length bufs" "grown off c q"
  shows "bufs_ok P off (Suc k) (bufs[j := c, k := bufs ! j])"
  using bufs_ok_grown [OF assms(1,2,3,5)] bufs_ok_nth [OF assms(1,2)] set_update_subset_insert [of "bufs[j := c]" k "bufs ! j"]
  unfolding bufs_ok_def pkt_of_def by (auto dest!: subsetD)

lemma coalesceTCP_prepend_ok:
  assumes inv: "gro_inv P off k m s" and it: "item \<in> set (all_items (gs_tcp s))" "tk_isV6 (ti_key item) = isV6"
    and k: "k < length P" "length P \<le> 128" and h: "h = ip_len isV6 + unat (ti_tcphLen item)"
    and pkt: "h < length (P ! k)" "unat gsoSize = length (P ! k) - h" "tcp_key isV6 (P ! k) = Some (ti_key item)" "Uint32_at (ip_len isV6 + 4) (P ! k) = Some seq"
    and can: "seq + ucast gsoSize = ti_sentSeq item" "ti_gsoSize item \<le> gsoSize" "ti_gsoSize item < gsoSize \<longrightarrow> ti_numMerged item = 0"
  shows "\<exists>r item' bufs'. coalesceTCPPackets order coalescePrepend (P ! k) k gsoSize seq pshSet item (gs_bufs s) off isV6 = Some (r, item', bufs')
     \<and> ti_key item' = ti_key item \<and> (r \<noteq> coalesceSuccess \<longrightarrow> item' = item \<and> bufs' = gs_bufs s) \<and> (r = coalesceItemInvalidCSum \<longrightarrow> ti_numMerged item = 0)
     \<and> (r = coalesceSuccess \<longrightarrow> (\<forall>t. table_wf ti_key t \<longrightarrow> mset (all_items t) = add_mset item' (mset (all_items (gs_tcp s)) - {#item#}) \<longrightarrow>
          itemsPool t = itemsPool (gs_tcp s) \<longrightarrow> (\<exists>m'. gro_inv P off (Suc k) m' (s\<lparr>gs_bufs := bufs', gs_tcp := t\<rparr>))))"
proof -
  let ?j = "unat (ti_bufsIndex item)" and ?bufs = "gs_bufs s"
  have bo: "bufs_ok P off k ?bufs" using inv by (rule gro_inv_bufs)
  have ok: "tcp_item_ok P off ?bufs m item" using inv it(1) by (simp add: gro_inv_def)
  have j: "?j < length ?bufs" "?j < k" using ok gro_inv_slot(1) [OF inv tcp_slot [OF it(1)]] by (auto simp: tcp_item_ok_def slot_ok_def Let_def)
  have kb: "P ! k = pkt_of ?bufs off k" "k < length ?bufs" "?j \<noteq> k" "h \<le> length (P ! k)" using bo k j pkt(1) by (auto simp: bufs_ok_def)
  from coalesce_prepend_ok [OF bo ok it(2) refl h kb(4,1-3), of order seq pshSet] obtain r item1 bufs' where
    r: "coalesce_prepend order (P ! k) k seq pshSet item ?bufs off isV6 = Some (r, item1, bufs')" "r \<noteq> coalesceSuccess \<longrightarrow> item1 = item \<and> bufs' = ?bufs"
      "r = coalesceItemInvalidCSum \<longrightarrow> ti_numMerged item = 0"
      "r = coalesceSuccess \<longrightarrow> item1 = item\<lparr>ti_sentSeq := seq\<rparr> \<and> (\<exists>c. bufs' = ?bufs[?j := c, k := ?bufs ! ?j] \<and> grown off c (P ! k @ drop h (pkt_of ?bufs off ?j)))" by blast
  show ?thesis
  proof (cases "r = coalesceSuccess")
    case False
    then show ?thesis using r by (simp add: coalesceTCPPackets_def)
  next
    case True
    from r(4) True obtain c where c: "item1 = item\<lparr>ti_sentSeq := seq\<rparr>" "bufs' = ?bufs[?j := c, k := ?bufs ! ?j]" "grown off c (P ! k @ drop h (pkt_of ?bufs off ?j))" by blast
    define item' where "item' = item\<lparr>ti_sentSeq := seq, ti_gsoSize := gsoSize, ti_numMerged := ti_numMerged item + 1\<rparr>"
    have e: "coalesceTCPPackets order coalescePrepend (P ! k) k gsoSize seq pshSet item ?bufs off isV6 = Some (r, item', bufs')"
    proof (cases "gsoSize > ti_gsoSize item")
      case False
      then have "gsoSize = ti_gsoSize item" using can(2) by simp
      then show ?thesis using r(1) True c(1) by (simp add: coalesceTCPPackets_def item'_def)
    qed (use r(1) True c(1) in \<open>simp add: coalesceTCPPackets_def item'_def\<close>)
    have len: "length (P ! k) = h + unat gsoSize" using pkt(1,2) by simp
    have "tcp_item_ok P off bufs' (m(?j := k # m ?j)) item'" unfolding c(2)
      by (rule tcp_item_prepend [OF inv it(1) refl it(2) [symmetric] h k len pkt(3,4) can c(3) item'_def])
    then have "\<forall>t. table_wf ti_key t \<longrightarrow> mset (all_items t) = add_mset item' (mset (all_items (gs_tcp s)) - {#item#}) \<longrightarrow> itemsPool t = itemsPool (gs_tcp s)
       \<longrightarrow> (\<exists>m'. gro_inv P off (Suc k) m' (s\<lparr>gs_bufs := bufs', gs_tcp := t\<rparr>))"
      using c(2) bufs_ok_swapped [OF bo j kb(2) c(3)] by (intro tcp_join_append [OF inv it(1) refl it(2) k(1), where ms = "k # m ?j"]) (simp_all add: item'_def)
    moreover have "ti_key item' = ti_key item" by (simp add: item'_def)
    ultimately show ?thesis unfolding e using True by simp
  qed
qed

lemma tcp_try_ok:
  assumes inv: "gro_inv P off k m s" and it: "item \<in> set (all_items (gs_tcp s))" "ti_key item = key" "tk_isV6 key = isV6"
    and k: "k < length P" "length P \<le> 128"
    and pkt: "pkt = P ! k" "iphLen = ip_len isV6" "20 \<le> tcphLen" "tcphLen \<le> 60" "iphLen + tcphLen < length pkt" "tcp_key isV6 pkt = Some key" "Uint32_at (iphLen + 4) pkt = Some seq"
      "unat gsoSize = length pkt - (iphLen + tcphLen)"
  shows "\<exists>can. tcpPacketsCanCoalesce pkt (of_nat iphLen) (of_nat tcphLen) seq pshSet gsoSize item (gs_bufs s) off = Some can
     \<and> (can \<noteq> coalesceUnavailable \<longrightarrow> (\<exists>r item' bufs'. coalesceTCPPackets order can pkt k gsoSize seq pshSet item (gs_bufs s) off isV6 = Some (r, item', bufs')
     \<and> ti_key item' = ti_key item \<and> (r \<noteq> coalesceSuccess \<longrightarrow> item' = item \<and> bufs' = gs_bufs s) \<and> (r = coalesceItemInvalidCSum \<longrightarrow> ti_numMerged item = 0)
     \<and> (r = coalesceSuccess \<longrightarrow> (\<forall>t. table_wf ti_key t \<longrightarrow> mset (all_items t) = add_mset item' (mset (all_items (gs_tcp s)) - {#item#}) \<longrightarrow>
          itemsPool t = itemsPool (gs_tcp s) \<longrightarrow> (\<exists>m'. gro_inv P off (Suc k) m' (s\<lparr>gs_bufs := bufs', gs_tcp := t\<rparr>))))))"
proof -
  let ?j = "unat (ti_bufsIndex item)" and ?bufs = "gs_bufs s"
  have bo: "bufs_ok P off k ?bufs" using inv by (rule gro_inv_bufs)
  have ok: "tcp_item_ok P off ?bufs m item" using inv it(1) by (simp add: gro_inv_def)
  have v6: "tk_isV6 (ti_key item) = isV6" using it by simp
  from tcpPacketsCanCoalesce_ok [OF bo ok v6 refl pkt(2-4) less_imp_le [OF pkt(5)], of seq pshSet gsoSize] obtain can where
    can: "tcpPacketsCanCoalesce pkt (of_nat iphLen) (of_nat tcphLen) seq pshSet gsoSize item ?bufs off = Some can"
      "can \<noteq> coalesceUnavailable \<longrightarrow> unat (ti_tcphLen item) = tcphLen"
      "can = coalesceAppend \<longrightarrow> (length (pkt_of ?bufs off ?j) - (iphLen + tcphLen)) mod unat (ti_gsoSize item) = 0 \<and> gsoSize \<le> ti_gsoSize item
        \<and> seq = ti_sentSeq item + ucast (ti_gsoSize item + ti_numMerged item * ti_gsoSize item)"
      "can = coalescePrepend \<longrightarrow> seq + ucast gsoSize = ti_sentSeq item \<and> ti_gsoSize item \<le> gsoSize \<and> (ti_gsoSize item < gsoSize \<longrightarrow> ti_numMerged item = 0)" by (elim exE conjE) (rule that)
  have p: "iphLen + tcphLen < length (P ! k)" "unat gsoSize = length (P ! k) - (iphLen + tcphLen)" "tcp_key isV6 (P ! k) = Some (ti_key item)"
    "Uint32_at (ip_len isV6 + 4) (P ! k) = Some seq" using pkt it(2) by simp_all
  show ?thesis
  proof (cases can)
    case coalesceUnavailable
    then show ?thesis using can(1) by blast
  next
    case coalesceAppend
    then have h: "iphLen + tcphLen = ip_len isV6 + unat (ti_tcphLen item)" using can(2) pkt(2) by simp
    from can(3) coalesceAppend have c: "(length (pkt_of ?bufs off ?j) - (iphLen + tcphLen)) mod unat (ti_gsoSize item) = 0" "gsoSize \<le> ti_gsoSize item"
      "seq = ti_sentSeq item + ucast (ti_gsoSize item + ti_numMerged item * ti_gsoSize item)" by simp_all
    show ?thesis using coalesceTCP_append_ok [OF inv it(1) v6 k h p c, of order pshSet] can(1) unfolding pkt(1) coalesceAppend by (intro exI [of _ coalesceAppend]) simp
  next
    case coalescePrepend
    then have h: "iphLen + tcphLen = ip_len isV6 + unat (ti_tcphLen item)" using can(2) pkt(2) by simp
    from can(4) coalescePrepend have c: "seq + ucast gsoSize = ti_sentSeq item" "ti_gsoSize item \<le> gsoSize" "ti_gsoSize item < gsoSize \<longrightarrow> ti_numMerged item = 0" by simp_all
    show ?thesis using coalesceTCP_prepend_ok [OF inv it(1) v6 k h p c, of order pshSet] can(1) unfolding pkt(1) coalescePrepend by (intro exI [of _ coalescePrepend]) simp
  qed
qed

lemma tcp_gro_loop_ok:
  assumes k: "k < length P" "length P \<le> 128" and off: "virtioNetHdrLen \<le> off" and key: "tk_isV6 key = isV6"
    and pkt: "pkt = P ! k" "iphLen = ip_len isV6" "20 \<le> tcphLen" "tcphLen \<le> 60" "iphLen + tcphLen < length pkt" "tcp_key isV6 pkt = Some key" "Uint32_at (iphLen + 4) pkt = Some seq"
      "unat gsoSize = length pkt - (iphLen + tcphLen)"
  shows "gro_inv P off k m s \<Longrightarrow> i \<le> length items \<Longrightarrow> i \<le> length (flow_items key (gs_tcp s)) \<Longrightarrow> take i items = take i (flow_items key (gs_tcp s)) \<Longrightarrow>
     \<exists>r bufs' t. tcp_gro_loop order pkt k iphLen tcphLen seq pshSet gsoSize off isV6 items i (gs_bufs s) (gs_tcp s) = Some (r, bufs', t)
       \<and> (case r of None \<Rightarrow> \<exists>m. gro_inv P off k m (s\<lparr>gs_bufs := bufs', gs_tcp := t\<rparr>) | Some r \<Rightarrow> gro_done P off k r (s\<lparr>gs_bufs := bufs', gs_tcp := t\<rparr>))"
proof (induction i arbitrary: s m)
  case 0
  then show ?case by auto
next
  case (Suc i)
  note inv = Suc.prems(1)
  let ?bufs = "gs_bufs s" and ?T = "gs_tcp s" and ?loop = "tcp_gro_loop order pkt k iphLen tcphLen seq pshSet gsoSize off isV6 items"
  have wf: "table_wf ti_key ?T" using inv by (simp add: gro_inv_def)
  have tk: "take i items = take i (flow_items key ?T)" using arg_cong [OF Suc.prems(4), of "take i"] by (simp add: min_absorb1)
  have ii: "i < length items" "i < length (flow_items key ?T)" using Suc.prems(2,3) by simp_all
  define item where "item = items ! i"
  have item: "item = flow_items key ?T ! i" using arg_cong [OF Suc.prems(4), of "\<lambda>l. l ! i"] by (simp add: item_def)
  have it: "item \<in> set (all_items ?T)" "ti_key item = key"
    using nth_mem [OF ii(2)] flow_items_subset [of key ?T] table_wf_items [OF wf, of item key] item by auto
  note IH = Suc.IH [of m s, OF inv less_imp_le [OF ii(1)] less_imp_le [OF ii(2)] tk]
  from tcp_try_ok [OF inv it key k pkt, of pshSet order] obtain can where
    can: "tcpPacketsCanCoalesce pkt (of_nat iphLen) (of_nat tcphLen) seq pshSet gsoSize item ?bufs off = Some can"
    and co: "can \<noteq> coalesceUnavailable \<longrightarrow> (\<exists>r item' bufs'. coalesceTCPPackets order can pkt k gsoSize seq pshSet item ?bufs off isV6 = Some (r, item', bufs')
     \<and> ti_key item' = ti_key item \<and> (r \<noteq> coalesceSuccess \<longrightarrow> item' = item \<and> bufs' = ?bufs) \<and> (r = coalesceItemInvalidCSum \<longrightarrow> ti_numMerged item = 0)
     \<and> (r = coalesceSuccess \<longrightarrow> (\<forall>t. table_wf ti_key t \<longrightarrow> mset (all_items t) = add_mset item' (mset (all_items ?T) - {#item#}) \<longrightarrow>
          itemsPool t = itemsPool ?T \<longrightarrow> (\<exists>m'. gro_inv P off (Suc k) m' (s\<lparr>gs_bufs := bufs', gs_tcp := t\<rparr>)))))" by blast
  have idx: "idx i items = Some item" using ii(1) by (simp add: idx_def item_def)
  show ?case
  proof (cases "can = coalesceUnavailable")
    case True
    then show ?thesis using IH can idx by simp
  next
    case False
    from co [rule_format, OF False] obtain r item' bufs' where
      r: "coalesceTCPPackets order can pkt k gsoSize seq pshSet item ?bufs off isV6 = Some (r, item', bufs')" "ti_key item' = ti_key item"
       "r \<noteq> coalesceSuccess \<longrightarrow> item' = item \<and> bufs' = ?bufs" "r = coalesceItemInvalidCSum \<longrightarrow> ti_numMerged item = 0"
       "r = coalesceSuccess \<longrightarrow> (\<forall>t. table_wf ti_key t \<longrightarrow> mset (all_items t) = add_mset item' (mset (all_items ?T) - {#item#}) \<longrightarrow>
          itemsPool t = itemsPool ?T \<longrightarrow> (\<exists>m'. gro_inv P off (Suc k) m' (s\<lparr>gs_bufs := bufs', gs_tcp := t\<rparr>)))" by blast
    show ?thesis
    proof (cases r)
      case coalesceSuccess
      from updateAt_ok [OF wf _ ii(2), of item'] r(2) it(2) obtain t where t: "updateAt key item' i ?T = Some t" "table_wf ti_key t" "itemsPool t = itemsPool ?T"
        "mset (all_items t) = add_mset item' (mset (all_items ?T) - {#item#})" unfolding item by auto
      with r(5) coalesceSuccess obtain m' where "gro_inv P off (Suc k) m' (s\<lparr>gs_bufs := bufs', gs_tcp := t\<rparr>)" by blast
      moreover have "?loop (Suc i) ?bufs ?T = Some (Some groResultCoalesced, bufs', t)" using idx can False r(1,2) it(2) t(1) coalesceSuccess by simp
      ultimately show ?thesis by (auto simp: gro_done_def)
    next
      case coalesceItemInvalidCSum
      then have n0: "ti_numMerged item = 0" "item' = item" "bufs' = ?bufs" using r by auto
      from deleteAt_ok [OF wf ii(2)] obtain t where t: "deleteAt key i ?T = Some t" "table_wf ti_key t" "itemsPool t = itemsPool ?T"
        "flow_items key t = take i (flow_items key ?T) @ drop (Suc i) (flow_items key ?T)" "mset (all_items t) = mset (all_items ?T) - {#item#}" unfolding item by blast
      from gro_inv_tcp_drop [OF inv it(1) n0(1) off t(2,5,3)] obtain bufs2 where
        b: "clear_hdr (unat (ti_bufsIndex item)) off ?bufs = Some bufs2" "gro_inv P off k m (s\<lparr>gs_bufs := bufs2, gs_tcp := t\<rparr>)" by blast
      have upd: "s\<lparr>gs_bufs := bufs2, gs_tcp := t, gs_bufs := b', gs_tcp := t'\<rparr> = s\<lparr>gs_bufs := b', gs_tcp := t'\<rparr>" for b' t' by (cases s) simp
      have "i \<le> length (flow_items key t)" "take i items = take i (flow_items key t)" using t(4) ii(2) tk by simp_all
      with Suc.IH [OF b(2) less_imp_le [OF ii(1)]] have "\<exists>r bufs' t'. ?loop i bufs2 t = Some (r, bufs', t')
        \<and> (case r of None \<Rightarrow> \<exists>m. gro_inv P off k m (s\<lparr>gs_bufs := bufs', gs_tcp := t'\<rparr>) | Some r \<Rightarrow> gro_done P off k r (s\<lparr>gs_bufs := bufs', gs_tcp := t'\<rparr>))" unfolding upd by simp
      moreover have "?loop (Suc i) ?bufs ?T = ?loop i bufs2 t" using idx can False r(1) n0 it(2) t(1) b(1) coalesceItemInvalidCSum by simp
      ultimately show ?thesis by simp
    next
      case coalescePktInvalidCSum
      then show ?thesis using idx can False r(1,3) inv by (auto simp: gro_done_def)
    next
      case coalesceInsufficientCap
      then show ?thesis using IH idx can False r(1,3) by simp
    next
      case coalescePSHEnding
      then show ?thesis using IH idx can False r(1,3) by simp
    qed
  qed
qed

lemma tcp_gro_flow_ok:
  assumes inv: "gro_inv P off k m s" and k: "k < length P" "length P \<le> 128" and off: "virtioNetHdrLen \<le> off"
    and pkt: "pkt = P ! k" "iphLen = ip_len isV6" "20 \<le> tcphLen" "tcphLen \<le> 60" "iphLen + tcphLen \<le> length pkt" "length pkt \<le> 65535"
  shows "\<exists>r bufs' t. tcp_gro_flow order pkt k iphLen tcphLen pshSet off isV6 (gs_bufs s) (gs_tcp s) = Some (r, bufs', t) \<and> gro_done P off k r (s\<lparr>gs_bufs := bufs', gs_tcp := t\<rparr>)"
proof (cases "iphLen + tcphLen = length pkt")
  case True
  then have "(of_nat (length pkt - tcphLen - iphLen) :: u16) = 0" by simp
  then have "tcp_gro_flow order pkt k iphLen tcphLen pshSet off isV6 (gs_bufs s) (gs_tcp s) = Some (groResultNoop, gs_bufs s, gs_tcp s)"
    by (simp add: tcp_gro_flow_def del: diff_diff_left)
  then show ?thesis using inv by (auto simp: gro_done_def)
next
  case False
  define g where "g = (of_nat (length pkt - tcphLen - iphLen) :: u16)"
  have g: "unat g = length pkt - (iphLen + tcphLen)" "\<not> g < 1"
  proof -
    show u: "unat g = length pkt - (iphLen + tcphLen)" unfolding g_def using pkt(6) by (subst of_nat16) simp_all
    then show "\<not> g < 1" using False pkt(5) by (simp add: word_less_nat_alt)
  qed
  have L: "iphLen + tcphLen < length pkt" using False pkt(5) by simp
  then obtain seq where seq: "Uint32_at (iphLen + 4) pkt = Some seq" using pkt(3) by (simp add: Uint32_at_def)
  obtain key where key: "tcp_key isV6 pkt = Some key" "tk_isV6 key = isV6" using tcp_key_some [of isV6 pkt] pkt L by auto
  have nk: "newTCPFlowKey pkt (addr_offset isV6) (addr_offset isV6 + addr_size isV6) iphLen = Some key" using key(1) pkt(2) by (simp add: tcp_key_def)
  note ins = tcp_insert_ok [OF _ k pkt(1-4) L pkt(6) key]
  show ?thesis
  proof (cases "map_of (itemsByFlow (gs_tcp s)) key")
    case None
    from ins [OF inv] obtain t m' where t: "tcp_insert pkt (addr_offset isV6) (addr_offset isV6 + addr_size isV6) iphLen tcphLen k (gs_tcp s) = Some t"
      "gro_inv P off (Suc k) m' (s\<lparr>gs_tcp := t, gs_toWrite := gs_toWrite s @ [k]\<rparr>)" by blast
    then have "tcp_gro_flow order pkt k iphLen tcphLen pshSet off isV6 (gs_bufs s) (gs_tcp s) = Some (groResultTableInsert, gs_bufs s, t)"
      using g(2) nk seq None unfolding tcp_gro_flow_def g_def [symmetric] Let_def by (simp add: tcp_lookupOrInsert_def)
    then show ?thesis using t(2) by (auto simp: gro_done_def)
  next
    case (Some items)
    note fl = map_of_flow [OF Some]
    from tcp_gro_loop_ok [OF k off key(2) pkt(1-4) L key(1) seq g(1) inv, of "length items" items order pshSet] obtain r bufs' t where
      r: "tcp_gro_loop order pkt k iphLen tcphLen seq pshSet g off isV6 items (length items) (gs_bufs s) (gs_tcp s) = Some (r, bufs', t)"
      "case r of None \<Rightarrow> \<exists>m. gro_inv P off k m (s\<lparr>gs_bufs := bufs', gs_tcp := t\<rparr>) | Some r \<Rightarrow> gro_done P off k r (s\<lparr>gs_bufs := bufs', gs_tcp := t\<rparr>)"
      unfolding fl by auto
    have e: "tcp_gro_flow order pkt k iphLen tcphLen pshSet off isV6 (gs_bufs s) (gs_tcp s) =
      (case r of Some r \<Rightarrow> Some (r, bufs', t) | None \<Rightarrow> do { table \<leftarrow> tcp_insert pkt (addr_offset isV6) (addr_offset isV6 + addr_size isV6) iphLen tcphLen k t;
         Some (groResultTableInsert, bufs', table) })"
      using g(2) nk seq Some r(1) unfolding tcp_gro_flow_def g_def [symmetric] Let_def by (simp add: tcp_lookupOrInsert_def)
    show ?thesis
    proof (cases r)
      case None
      with r(2) obtain m' where "gro_inv P off k m' (s\<lparr>gs_bufs := bufs', gs_tcp := t\<rparr>)" by auto
      from ins [OF this] obtain t' m2 where "tcp_insert pkt (addr_offset isV6) (addr_offset isV6 + addr_size isV6) iphLen tcphLen k t = Some t'"
        "gro_inv P off (Suc k) m2 (s\<lparr>gs_bufs := bufs', gs_tcp := t, gs_tcp := t', gs_toWrite := gs_toWrite s @ [k]\<rparr>)" by auto
      then show ?thesis unfolding e None by (auto simp: gro_done_def)
    next
      case (Some x)
      then show ?thesis unfolding e using r(2) by simp
    qed
  qed
qed

section \<open>The loop over the packets\<close>

lemma gro_iphLen_ok:
  assumes "28 \<le> length pkt" "\<not> isV6 \<Longrightarrow> pkt ! 0 AND 0x0F = 5"
  shows "\<exists>l. gro_iphLen pkt isV6 = Some l \<and> (\<forall>x. l = Some x \<longrightarrow> x = ip_len isV6 \<and> ip_len isV6 \<le> length pkt \<and> length pkt \<le> 65535)"
  using assms by (cases isV6) (auto simp: gro_iphLen_def maxUint16_def idx_def Uint16_at_def ip_len_def Let_def)

lemma gro_fragmented_ok: "8 \<le> length pkt \<Longrightarrow> \<exists>b. gro_fragmented pkt isV6 = Some b"
  by (cases isV6) (auto simp: gro_fragmented_def idx_def)

lemma gro_noop: "gro_inv P off k m s \<Longrightarrow> gro_done P off k groResultNoop s"
  by (auto simp: gro_done_def)

lemma tcpGRO_ok:
  assumes inv: "gro_inv P off k m s" and k: "k < length P" "length P \<le> 128" and off: "virtioNetHdrLen \<le> off"
    and cand: "ip_len isV6 + 20 \<le> length (P ! k)" "\<not> isV6 \<Longrightarrow> P ! k ! 0 AND 0x0F = 5"
  shows "\<exists>r bufs' t. tcpGRO order (gs_bufs s) off k (gs_tcp s) isV6 = Some (r, bufs', t) \<and> gro_done P off k r (s\<lparr>gs_bufs := bufs', gs_tcp := t\<rparr>)"
proof -
  let ?pkt = "P ! k"
  have "k < length (gs_bufs s)" "pkt_of (gs_bufs s) off k = ?pkt" using gro_inv_bufs [OF inv] k by (auto simp: bufs_ok_def)
  then have p: "packet_at (gs_bufs s) k off = Some ?pkt" using bufs_ok_nth [OF gro_inv_bufs [OF inv], of k] by (simp add: packet_at_ok)
  have n: "gro_done P off k groResultNoop (s\<lparr>gs_bufs := gs_bufs s, gs_tcp := gs_tcp s\<rparr>)" using inv by (simp add: gro_noop)
  have 28: "28 \<le> length ?pkt" using cand(1) by (simp add: ip_len_def split: if_splits)
  from gro_iphLen_ok [OF this] cand(2) obtain l where l: "gro_iphLen ?pkt isV6 = Some l" "\<forall>x. l = Some x \<longrightarrow> x = ip_len isV6 \<and> ip_len isV6 \<le> length ?pkt \<and> length ?pkt \<le> 65535" by blast
  show ?thesis
  proof (cases l)
    case None
    then show ?thesis using p l(1) n by (simp add: tcpGRO_def)
  next
    case (Some x)
    then have x: "x = ip_len isV6" "length ?pkt \<le> 65535" using l(2) by simp_all
    obtain f where f: "gro_fragmented ?pkt isV6 = Some f" using gro_fragmented_ok [of ?pkt isV6] 28 by auto
    have i: "idx (x + 12) ?pkt = Some (?pkt ! (x + 12))" "idx (x + tcpFlagsOffset) ?pkt = Some (?pkt ! (x + tcpFlagsOffset))"
      using cand(1) x by (simp_all add: idx_def tcpFlagsOffset_def)
    let ?t = "unat (drop_bit 4 (?pkt ! (x + 12)) * 4)"
    have e: "tcpGRO order (gs_bufs s) off k (gs_tcp s) isV6 =
      (if ?t < 20 \<or> ?t > 60 \<or> length ?pkt < x + ?t \<or> f then Some (groResultNoop, gs_bufs s, gs_tcp s)
       else case tcp_psh (?pkt ! (x + tcpFlagsOffset)) of None \<Rightarrow> Some (groResultNoop, gs_bufs s, gs_tcp s)
         | Some pshSet \<Rightarrow> tcp_gro_flow order ?pkt k x ?t pshSet off isV6 (gs_bufs s) (gs_tcp s))"
      using p l(1) Some i f by (auto simp: tcpGRO_def Let_def)
    show ?thesis
    proof (cases "?t < 20 \<or> ?t > 60 \<or> length ?pkt < x + ?t \<or> f")
      case True
      then show ?thesis unfolding e using n by auto
    next
      case False
      then show ?thesis unfolding e using n tcp_gro_flow_ok [OF inv k off refl x(1) _ _ _ x(2), of ?t order]
        by (cases "tcp_psh (?pkt ! (x + tcpFlagsOffset))") auto
    qed
  qed
qed

lemma udpGRO_ok:
  assumes inv: "gro_inv P off k m s" and k: "k < length P" "length P \<le> 128"
    and cand: "28 \<le> length (P ! k)" "\<not> isV6 \<Longrightarrow> P ! k ! 0 AND 0x0F = 5"
  shows "\<exists>r bufs' t. udpGRO order (gs_bufs s) off k (gs_udp s) isV6 = Some (r, bufs', t) \<and> gro_done P off k r (s\<lparr>gs_bufs := bufs', gs_udp := t\<rparr>)"
proof -
  let ?pkt = "P ! k"
  have "k < length (gs_bufs s)" "pkt_of (gs_bufs s) off k = ?pkt" using gro_inv_bufs [OF inv] k by (auto simp: bufs_ok_def)
  then have p: "packet_at (gs_bufs s) k off = Some ?pkt" using bufs_ok_nth [OF gro_inv_bufs [OF inv], of k] by (simp add: packet_at_ok)
  have n: "gro_done P off k groResultNoop (s\<lparr>gs_bufs := gs_bufs s, gs_udp := gs_udp s\<rparr>)" using inv by (simp add: gro_noop)
  from gro_iphLen_ok [OF cand] obtain l where l: "gro_iphLen ?pkt isV6 = Some l" "\<forall>x. l = Some x \<longrightarrow> x = ip_len isV6 \<and> ip_len isV6 \<le> length ?pkt \<and> length ?pkt \<le> 65535" by blast
  show ?thesis
  proof (cases l)
    case None
    then show ?thesis using p l(1) n by (simp add: udpGRO_def)
  next
    case (Some x)
    then have x: "x = ip_len isV6" "length ?pkt \<le> 65535" using l(2) by simp_all
    obtain f where f: "gro_fragmented ?pkt isV6 = Some f" using gro_fragmented_ok [of ?pkt isV6] cand(1) by auto
    have e: "udpGRO order (gs_bufs s) off k (gs_udp s) isV6 =
      (if length ?pkt < x + udphLen \<or> f then Some (groResultNoop, gs_bufs s, gs_udp s) else udp_gro_flow order ?pkt k x off isV6 (gs_bufs s) (gs_udp s))"
      using p l(1) Some f by (auto simp: udpGRO_def Let_def)
    show ?thesis
    proof (cases "length ?pkt < x + udphLen \<or> f")
      case True
      then show ?thesis unfolding e using n by auto
    next
      case False
      then show ?thesis unfolding e using udp_gro_flow_ok [OF inv k refl x(1) _ x(2), of order] by (auto simp: udphLen_def)
    qed
  qed
qed

lemma gro_dispatch_ok:
  assumes inv: "gro_inv P off k m s" and k: "k < length P" "length P \<le> 128" and off: "virtioNetHdrLen \<le> off"
  shows "\<exists>r s'. gro_dispatch order off canUDPGRO k (P ! k) s = Some (r, s') \<and> gro_done P off k r s' \<and> gs_toWrite s' = gs_toWrite s"
proof -
  have t: "\<exists>r s'. do { (r, bufs, t) \<leftarrow> tcpGRO order (gs_bufs s) off k (gs_tcp s) isV6; Some (r, s\<lparr>gs_bufs := bufs, gs_tcp := t\<rparr>) } = Some (r, s')
      \<and> gro_done P off k r s' \<and> gs_toWrite s' = gs_toWrite s" if "ip_len isV6 + 20 \<le> length (P ! k)" "\<not> isV6 \<Longrightarrow> P ! k ! 0 AND 0x0F = 5" for isV6
    using tcpGRO_ok [OF inv k off that, of order] by auto
  have u: "\<exists>r s'. do { (r, bufs, t) \<leftarrow> udpGRO order (gs_bufs s) off k (gs_udp s) isV6; Some (r, s\<lparr>gs_bufs := bufs, gs_udp := t\<rparr>) } = Some (r, s')
      \<and> gro_done P off k r s' \<and> gs_toWrite s' = gs_toWrite s" if "28 \<le> length (P ! k)" "\<not> isV6 \<Longrightarrow> P ! k ! 0 AND 0x0F = 5" for isV6
    using udpGRO_ok [OF inv k that(1), of isV6 order] that(2) by (cases isV6) auto
  have c: "packetIsGROCandidate (P ! k) canUDPGRO = tcp4GROCandidate \<Longrightarrow> 40 \<le> length (P ! k) \<and> P ! k ! 0 AND 0x0F = 5"
    "packetIsGROCandidate (P ! k) canUDPGRO = tcp6GROCandidate \<Longrightarrow> 60 \<le> length (P ! k)"
    "packetIsGROCandidate (P ! k) canUDPGRO = udp4GROCandidate \<Longrightarrow> 28 \<le> length (P ! k) \<and> P ! k ! 0 AND 0x0F = 5"
    "packetIsGROCandidate (P ! k) canUDPGRO = udp6GROCandidate \<Longrightarrow> 28 \<le> length (P ! k)"
    unfolding packetIsGROCandidate_def by (simp_all split: if_splits)
  show ?thesis
  proof (cases "packetIsGROCandidate (P ! k) canUDPGRO")
    case notGROCandidate
    then show ?thesis using gro_noop [OF inv] by (simp add: gro_dispatch_def)
  next
    case tcp4GROCandidate
    then show ?thesis using t [of False] c(1) by (simp add: gro_dispatch_def ip_len_def)
  next
    case tcp6GROCandidate
    then show ?thesis using t [of True] c(2) by (simp add: gro_dispatch_def ip_len_def)
  next
    case udp4GROCandidate
    then show ?thesis using u [of False] c(3) by (simp add: gro_dispatch_def)
  next
    case udp6GROCandidate
    then show ?thesis using u [of True] c(4) by (simp add: gro_dispatch_def)
  qed
qed

lemma gro_packet_ok:
  assumes inv: "gro_inv P off k m s" and k: "k < length P" "length P \<le> 128" and off: "virtioNetHdrLen \<le> off"
  shows "\<exists>s' m'. gro_packet order off canUDPGRO k s = Some (Inr s') \<and> gro_inv P off (Suc k) m' s'"
proof -
  note bo = gro_inv_bufs [OF inv]
  have kb: "k < length (gs_bufs s)" "pkt_of (gs_bufs s) off k = P ! k" "off < length (gb_data (gs_bufs s ! k))" using bo k bufs_ok_nth [OF bo, of k] by (auto simp: bufs_ok_def)
  from gro_dispatch_ok [OF inv k off, where order = order and canUDPGRO = canUDPGRO] obtain r s' where
    r: "gro_dispatch order off canUDPGRO k (P ! k) s = Some (r, s')" "gro_done P off k r s'" by blast
  have e: "gro_packet order off canUDPGRO k s = (case r of
      groResultNoop \<Rightarrow> do { bufs \<leftarrow> clear_hdr k off (gs_bufs s'); Some (Inr (s'\<lparr>gs_bufs := bufs, gs_toWrite := gs_toWrite s' @ [k]\<rparr>)) }
    | groResultTableInsert \<Rightarrow> Some (Inr (s'\<lparr>gs_toWrite := gs_toWrite s' @ [k]\<rparr>)) | groResultCoalesced \<Rightarrow> Some (Inr s'))"
    using kb off r(1) by (simp add: gro_packet_def idx_def pkt_of_def not_less)
  show ?thesis
  proof (cases r)
    case groResultNoop
    with r(2) obtain m' where "gro_inv P off k m' s'" by (auto simp: gro_done_def)
    from gro_inv_alone [OF this k(1) off] show ?thesis unfolding e groResultNoop by auto
  qed (use r(2) in \<open>auto simp: e gro_done_def\<close>)
qed

lemma gro_loop_ok:
  assumes "length P \<le> 128" "virtioNetHdrLen \<le> off"
  shows "gro_inv P off k m s \<Longrightarrow> k \<le> length P \<Longrightarrow> \<exists>s' m'. gro_loop order off canUDPGRO [k..<length P] s = Some (None, s') \<and> gro_inv P off (length P) m' s'"
proof (induction "length P - k" arbitrary: k m s)
  case 0
  then show ?case by auto
next
  case (Suc d)
  then have k: "k < length P" by simp
  from gro_packet_ok [OF Suc.prems(1) k assms, where order = order and canUDPGRO = canUDPGRO] obtain s' m' where s': "gro_packet order off canUDPGRO k s = Some (Inr s')" "gro_inv P off (Suc k) m' s'" by blast
  have "d = length P - Suc k" "Suc k \<le> length P" using Suc(2) k by simp_all
  from Suc(1) [OF this(1) s'(2) this(2)] show ?case using s'(1) k by (simp add: upt_conv_Cons)
qed

end
