(* ===== verification/GroWrite.thy ===== *)
theory GroWrite
  imports GroProofs
begin

unbundle bit_operations_syntax

text \<open>The accounting at the end of \<open>handleGRO\<close>: every packet to be written gets its header, and what is written stands for all packets given.\<close>

section \<open>Headers\<close>

lemma length_native_bytes [simp]: "length (native_bytes order n w) = n"
  by (cases order) (simp_all add: native_bytes_def)

lemma native_word_bytes: "LENGTH('a) \<le> 8 * n \<Longrightarrow> native_word order (native_bytes order n (w :: 'a::len word)) = w"
  by (cases order) (simp_all add: native_word_def native_bytes_def be_word_be_bytes le_word_le_bytes)

lemma hdr_roundtrip:
  assumes "virtioNetHdrLen \<le> length d"
  shows "\<exists>d'. hdr_encode order hdr d = Inr d' \<and> length d' = length d \<and> drop virtioNetHdrLen d' = drop virtioNetHdrLen d \<and> hdr_decode order d' = Inr hdr"
proof -
  let ?nb = "native_bytes order 2"
  let ?bs = "[vh_flags hdr, vh_gsoType hdr] @ ?nb (vh_hdrLen hdr) @ ?nb (vh_gsoSize hdr) @ ?nb (vh_csumStart hdr) @ ?nb (vh_csumOffset hdr)"
  let ?d = "?bs @ drop 10 d"
  have e: "hdr_encode order hdr d = Inr ?d" using assms by (simp add: hdr_encode_def virtioNetHdrLen_def put_at_def)
  have s: "go_slice 2 4 ?d = ?nb (vh_hdrLen hdr)" "go_slice 4 6 ?d = ?nb (vh_gsoSize hdr)" "go_slice 6 8 ?d = ?nb (vh_csumStart hdr)" "go_slice 8 10 ?d = ?nb (vh_csumOffset hdr)"
    by (simp_all add: go_slice_def numeral_2_eq_2 [symmetric])
  have "hdr_decode order ?d = Inr hdr"
    unfolding hdr_decode_def s using assms by (simp add: virtioNetHdrLen_def native_word_bytes)
  then show ?thesis unfolding e using assms by (simp add: virtioNetHdrLen_def)
qed

lemma encode_at_ok:
  assumes "virtioNetHdrLen \<le> off" "off \<le> length data"
  shows "\<exists>d. encode_at order hdr off data = Some (Inr d) \<and> length d = length data \<and> drop off d = drop off data \<and> hdr_decode order (drop (off - virtioNetHdrLen) d) = Inr hdr"
proof -
  let ?n = "off - virtioNetHdrLen"
  have "virtioNetHdrLen \<le> length (drop ?n data)" using assms by simp
  from hdr_roundtrip [OF this, of order hdr] assms(1) obtain d' where
    d': "hdr_encode order hdr (drop ?n data) = Inr d'" "length d' = length data - ?n" "drop virtioNetHdrLen d' = drop off data" "hdr_decode order d' = Inr hdr" by auto
  then show ?thesis using assms by (simp add: encode_at_def slice_from_def)
qed

text \<open>The lengths of a coalesced packet; the IPv4 header checksum is valid.\<close>

definition ip_lengths :: "byte_order \<Rightarrow> bool \<Rightarrow> bytes \<Rightarrow> bool" where
  "ip_lengths order isV6 pkt \<longleftrightarrow>
     (if isV6 then Uint16_at 4 pkt = Some (of_nat (length pkt - 40)) else Uint16_at 2 pkt = Some (of_nat (length pkt)) \<and> NOT (checksum order (take 20 pkt) 0) = 0)"

lemma ip_lengths_cong:
  assumes "length pkt' = length pkt" "\<And>x. x < ip_len isV6 \<Longrightarrow> pkt' ! x = pkt ! x" "ip_len isV6 \<le> length pkt"
  shows "ip_lengths order isV6 pkt' \<longleftrightarrow> ip_lengths order isV6 pkt"
proof -
  have "take (ip_len isV6) pkt' = take (ip_len isV6) pkt" using assms by (intro nth_equalityI) auto
  then show ?thesis using assms Uint16_cong [OF assms(1), of 4] Uint16_cong [OF assms(1), of 2] by (simp add: ip_lengths_def ip_len_def split: if_splits)
qed

lemma account_ip_ok:
  assumes "unat iphLen = ip_len isV6" "ip_len isV6 \<le> length pkt"
  shows "\<exists>pkt'. account_ip order isV6 iphLen pkt = Some pkt' \<and> length pkt' = length pkt
     \<and> (\<forall>x<length pkt. x \<notin> (if isV6 then {4, 5} else {2, 3, 10, 11}) \<longrightarrow> pkt' ! x = pkt ! x) \<and> ip_lengths order isV6 pkt'"
proof (cases isV6)
  case True
  have "ucast iphLen = (of_nat (unat iphLen) :: u16)" by (simp add: of_nat_unat)
  then have "(of_nat (length pkt) - ucast iphLen :: u16) = of_nat (length pkt - 40)" using assms True by (simp add: ip_len_def of_nat_diff)
  then show ?thesis using True assms(2) by (auto simp: account_ip_def PutUint16_at_def ip_lengths_def ip_len_def nth_put_at)
next
  case False
  let ?p0 = "pkt[10 := 0, 11 := 0]" and ?len = "of_nat (length pkt) :: u16"
  let ?p1 = "put_at 2 (be_bytes 2 ?len) ?p0"
  let ?p2 = "put_at 10 (be_bytes 2 (NOT (checksum order (take 20 ?p1) 0))) ?p1"
  have l: "20 \<le> length pkt" using assms(2) False by (simp add: ip_len_def)
  have p1: "length ?p1 = length pkt" "\<And>x. x < length pkt \<Longrightarrow> x \<notin> {2, 3, 10, 11} \<Longrightarrow> ?p1 ! x = pkt ! x" "take 20 ?p1 ! 10 = 0" "take 20 ?p1 ! Suc 10 = 0"
    "Uint16_at 2 ?p1 = Some ?len" using l by (auto simp: nth_put_at nth_list_update)
  have p2: "length ?p2 = length pkt" "\<And>x. x < length pkt \<Longrightarrow> x \<notin> {10, 11} \<Longrightarrow> ?p2 ! x = ?p1 ! x" using l p1(1) by (auto simp: nth_put_at)
  have "take 20 ?p2 = put_at 10 (be_bytes 2 (NOT (checksum order (take 20 ?p1) 0))) (take 20 ?p1)" using l p1(1) by (intro take_put_at) simp_all
  then have "NOT (checksum order (take 20 ?p2) 0) = 0" using checksum_complement [of 10 "take 20 ?p1"] p1 l by simp
  moreover have "Uint16_at 2 ?p2 = Some ?len" using p1(1,5) p2 l Uint16_cong [of ?p2 ?p1 2] by simp
  moreover have "account_ip order isV6 iphLen pkt = Some ?p2"
    using False assms(1) l p1(1) by (simp add: account_ip_def store_def PutUint16_at_def slice_at_def go_slice_def ip_len_def)
  ultimately show ?thesis using False p2 p1(2) by (intro exI [of _ ?p2]) (auto simp: ip_lengths_def)
qed

lemma account_psum_ok:
  assumes "ip_len isV6 \<le> length pkt" "unat (vh_csumStart hdr + vh_csumOffset hdr) = at" "at + 2 \<le> length pkt"
  shows "\<exists>pkt'. account_psum order protocol isV6 iphLen hdr pkt = Some pkt' \<and> length pkt' = length pkt \<and> (\<forall>x<length pkt. x \<notin> {at, at + 1} \<longrightarrow> pkt' ! x = pkt ! x)"
  using assms by (cases isV6) (auto simp: account_psum_def Let_def slice_at_def PutUint16_at_def addr_offset_def addr_size_def virtio_defs ip_len_def nth_put_at)

section \<open>Groups and segments\<close>

lemma concat_drop: "r \<le> length ms \<Longrightarrow> \<forall>i\<in>set (take r ms). length (f i) = g \<Longrightarrow> drop (r * g) (concat (map f ms)) = concat (map f (drop r ms))"
proof (induction ms arbitrary: r)
  case (Cons x ms)
  then show ?case by (cases r) auto
qed simp

lemma grouped_segments:
  assumes gr: "grouped P h g ms pkt" and hdr: "unat (vh_hdrLen hdr) = h" "unat (vh_gsoSize hdr) = g"
  shows "gso_count pkt hdr = length ms" "r < length ms \<Longrightarrow> segment_data pkt hdr r = drop h (P ! (ms ! r))"
proof -
  let ?f = "\<lambda>i. drop h (P ! i)"
  obtain l where l: "0 < l" "l \<le> g" "length pkt = h + (length ms - 1) * g + l" using grouped_length [OF gr] by blast
  have ms: "0 < length ms" "drop h pkt = concat (map ?f ms)" using gr by (auto simp: grouped_def)
  have "length pkt - h + g - 1 = (length ms - 1) * g + (l + g - 1)" using l by simp
  moreover have "(l + g - 1) div g = 1" using l by (intro div_nat_eqI) auto
  moreover have "(a * g + b) div g = a + b div g" for a b using l by simp
  ultimately show "gso_count pkt hdr = length ms" unfolding gso_count_def hdr using ms(1) by simp
  show "segment_data pkt hdr r = drop h (P ! (ms ! r))" if r: "r < length ms"
  proof -
    have "set (take r ms) \<subseteq> set (butlast ms)" using r set_take_subset_set_take [of r "length ms - 1" ms] by (simp add: butlast_conv_take)
    then have "\<forall>i\<in>set (take r ms). length (?f i) = g" using gr by (auto simp: grouped_def)
    then have "drop (r * g) (drop h pkt) = concat (map ?f (drop r ms))" unfolding ms(2) using r by (intro concat_drop) auto
    then have d: "drop (h + r * g) pkt = ?f (ms ! r) @ concat (map ?f (drop (Suc r) ms))" using r by (simp add: Cons_nth_drop_Suc [symmetric] add.commute)
    have mem: "ms ! r \<in> set ms" using r by simp
    show ?thesis
    proof (cases "Suc r = length ms")
      case True
      moreover have "length (P ! (ms ! r)) \<le> h + g" using gr mem by (simp add: grouped_def)
      ultimately show ?thesis unfolding segment_data_def hdr d by simp
    next
      case False
      then have "ms ! r \<in> set (butlast ms)" using r nth_mem [of r "butlast ms"] by (simp add: nth_butlast)
      then have "length (?f (ms ! r)) = g" using gr by (auto simp: grouped_def)
      then show ?thesis unfolding segment_data_def hdr d by simp
    qed
  qed
qed

text \<open>\<open>coalesced order P ms off data\<close>: the buffer \<open>data\<close> is written as a packet whose segmentation gives the data, the order, the headers and, for
  TCP, the sequence numbers of the packets \<open>ms\<close> of \<open>P\<close>. The fields of \<open>changed\<close> are those the segmentation sets itself.\<close>

definition coalesced :: "byte_order \<Rightarrow> bytes list \<Rightarrow> nat list \<Rightarrow> nat \<Rightarrow> bytes \<Rightarrow> bool" where
  "coalesced order P ms off data \<longleftrightarrow>
     (\<exists>isV6 hdr. let pkt = drop off data; st = unat (vh_csumStart hdr); hl = unat (vh_hdrLen hdr) in
        hdr_decode order (drop (off - virtioNetHdrLen) data) = Inr hdr \<and> vh_flags hdr = VIRTIO_NET_HDR_F_NEEDS_CSUM
        \<and> gso_packet isV6 pkt hdr \<and> ip_lengths order isV6 pkt
        \<and> gso_count pkt hdr = length ms \<and> (\<forall>r<length ms. segment_data pkt hdr r = drop hl (P ! (ms ! r)))
        \<and> (\<forall>x<hl. x \<notin> changed isV6 hdr \<longrightarrow> pkt ! x = P ! hd ms ! x)
        \<and> (is_tcp_gso hdr \<longrightarrow> (\<forall>r<length ms. Uint32_at (st + 4) (P ! (ms ! r)) = map_option (\<lambda>n. n + of_nat (r * unat (vh_gsoSize hdr))) (Uint32_at (st + 4) pkt))))"

lemma grouped_cong: "grouped P h g ms pkt \<Longrightarrow> length pkt' = length pkt \<Longrightarrow> (\<And>x. h \<le> x \<Longrightarrow> x < length pkt \<Longrightarrow> pkt' ! x = pkt ! x) \<Longrightarrow> grouped P h g ms pkt'"
proof -
  assume a: "grouped P h g ms pkt" "length pkt' = length pkt" "\<And>x. h \<le> x \<Longrightarrow> x < length pkt \<Longrightarrow> pkt' ! x = pkt ! x"
  have "drop h pkt' = drop h pkt" using a(2,3) by (intro nth_equalityI) auto
  then show ?thesis using a(1,2) by (simp add: grouped_def)
qed

lemma hdr_decode_cong:
  assumes "take virtioNetHdrLen d' = take virtioNetHdrLen d" "virtioNetHdrLen \<le> length d" "virtioNetHdrLen \<le> length d'"
  shows "hdr_decode order d' = hdr_decode order d"
proof -
  have "go_slice i j d' = go_slice i j d" if "j \<le> 10" for i j
    using arg_cong [OF assms(1), of "go_slice i j"] that by (simp add: take_slice virtioNetHdrLen_def)
  moreover have "d' ! i = d ! i" if "i < 10" for i using arg_cong [OF assms(1), of "\<lambda>l. l ! i"] that by (simp add: virtioNetHdrLen_def)
  ultimately show ?thesis using assms(2,3) by (simp add: hdr_decode_def)
qed

lemma Uint32_same:
  assumes "i + 4 \<le> length xs" "i + 4 \<le> length ys" "\<And>x. i \<le> x \<Longrightarrow> x < i + 4 \<Longrightarrow> xs ! x = ys ! x"
  shows "Uint32_at i xs = Uint32_at i ys"
proof -
  have "go_slice i (i + 4) xs = go_slice i (i + 4) ys" using assms by (intro nth_equalityI) (auto simp: go_slice_def)
  then show ?thesis using assms(1,2) by (simp add: Uint32_at_def)
qed

text \<open>Changes to the headers of a group, to bytes in \<open>Y\<close>, keep it a coalesced packet.\<close>

lemma coalesced_intro:
  assumes gr: "grouped P h g ms q" "header_of P X h ms q" and p: "length p = length q" "\<And>x. x < length q \<Longrightarrow> x \<notin> Y \<Longrightarrow> p ! x = q ! x"
    and Y: "Y \<subseteq> {..<h}" "X \<union> Y \<subseteq> changed isV6 hdr"
    and hdr: "unat (vh_hdrLen hdr) = h" "unat (vh_gsoSize hdr) = g" "vh_flags hdr = VIRTIO_NET_HDR_F_NEEDS_CSUM" "gso_packet isV6 p hdr" "ip_lengths order isV6 p"
    and seq: "is_tcp_gso hdr \<Longrightarrow> in_sequence P (unat (vh_csumStart hdr) + 4) g first ms \<and> (\<forall>x\<in>{unat (vh_csumStart hdr) + 4..<unat (vh_csumStart hdr) + 8}. x \<notin> X \<union> Y \<and> x < h)"
    and d: "virtioNetHdrLen \<le> off" "off \<le> length d" "hdr_decode order (drop (off - virtioNetHdrLen) d) = Inr hdr"
  shows "coalesced order P ms off (take off d @ p)"
proof -
  let ?D = "take off d @ p" and ?st = "unat (vh_csumStart hdr)"
  have "hdr_decode order (drop (off - virtioNetHdrLen) ?D) = Inr hdr"
    unfolding d(3) [symmetric] using d(1,2) by (intro hdr_decode_cong) (auto simp: take_drop min_absorb2)
  moreover have D: "drop off ?D = p" using d(2) by simp
  moreover have gp: "grouped P h g ms p"
  proof (rule grouped_cong [OF gr(1) p(1)])
    fix x assume "h \<le> x" "x < length q"
    moreover from this(1) have "x \<notin> Y" using Y(1) by auto
    ultimately show "p ! x = q ! x" by (intro p(2))
  qed
  moreover have hq: "h \<le> length q" "ms \<noteq> []" using gr(1) by (auto simp: grouped_def)
  moreover have "p ! x = P ! hd ms ! x" if "x < h" "x \<notin> changed isV6 hdr" for x
  proof -
    have "x \<notin> X" "x \<notin> Y" "x < length q" using that Y(2) hq by auto
    then show ?thesis using p(2) [of x] gr(2) that(1) by (simp add: header_of_def)
  qed
  moreover have "Uint32_at (?st + 4) (P ! (ms ! r)) = map_option (\<lambda>n. n + of_nat (r * unat (vh_gsoSize hdr))) (Uint32_at (?st + 4) p)" if t: "is_tcp_gso hdr" "r < length ms" for r
  proof -
    note sq = seq [OF t(1)]
    have "?st + 8 \<le> h" using sq by (auto dest!: bspec [of _ _ "?st + 7"])
    moreover have "h < length (P ! hd ms)" using gr(1) by (auto simp: grouped_def)
    ultimately have "Uint32_at (?st + 4) p = Uint32_at (?st + 4) (P ! hd ms)"
      using hq p sq gr(2) by (intro Uint32_same) (auto simp: header_of_def)
    also have "\<dots> = Some first" using sq hq(2) by (auto simp: in_sequence_def hd_conv_nth dest: spec [of _ 0])
    finally show ?thesis using sq t(2) hdr(2) by (simp add: in_sequence_def)
  qed
  ultimately show ?thesis unfolding coalesced_def Let_def using hdr grouped_segments [OF gp hdr(1,2)]
    by (intro exI [of _ isV6] exI [of _ hdr]) simp
qed

section \<open>Accounting of an item\<close>

lemma tcp_account_ok:
  assumes bo: "bufs_ok P off k bufs" and ok: "tcp_item_ok P off bufs m item" and off: "virtioNetHdrLen \<le> off" and j: "j = unat (ti_bufsIndex item)" and n: "ti_numMerged item > 0"
  shows "\<exists>b. tcp_account_item order off item bufs = Some (None, bufs[j := b]) \<and> length (gb_data b) = length (gb_data (bufs ! j)) \<and> gb_cap b = gb_cap (bufs ! j)
    \<and> coalesced order P (m j) off (gb_data b)"
proof -
  define isV6 where "isV6 = tk_isV6 (ti_key item)"
  let ?st = "ip_len isV6" and ?hdr = "tcp_item_hdr item" and ?q = "pkt_of bufs off j" and ?g = "unat (ti_gsoSize item)"
  define h where "h = ?st + unat (ti_tcphLen item)"
  note f = tcp_item_facts [OF bo ok isV6_def [symmetric] j h_def]
  note c = bufs_ok_nth [OF bo f(1)]
  have s: "header_of P {?st + 13} h (m j) ?q" "in_sequence P (?st + 4) ?g (ti_sentSeq item) (m j)"
    using ok unfolding tcp_item_ok_def Let_def slot_ok_def isV6_def [symmetric] j [symmetric] h_def by blast+
  have hdr: "unat (vh_csumStart ?hdr) = ?st" "unat (vh_hdrLen ?hdr) = h" "vh_gsoSize ?hdr = ti_gsoSize item" "vh_csumOffset ?hdr = 16" "is_tcp_gso ?hdr" "vh_flags ?hdr = VIRTIO_NET_HDR_F_NEEDS_CSUM"
    "unat (vh_csumStart ?hdr + vh_csumOffset ?hdr) = ?st + 16"
    using f(4,6) by (simp_all add: tcp_item_hdr_def is_tcp_gso_def unsigned_ucast_eq take_bit_nat_eq_self ip_len_def unat_word_ariths)
  have len: "?st + 20 \<le> h" "h \<le> length ?q" using f(5,8) h_def by simp_all
  from account_ip_ok [OF f(4), of ?q order] len obtain p1 where p1: "account_ip order isV6 (ti_iphLen item) ?q = Some p1" "length p1 = length ?q"
    "\<And>x. x < length ?q \<Longrightarrow> x \<notin> (if isV6 then {4, 5} else {2, 3, 10, 11}) \<Longrightarrow> p1 ! x = ?q ! x" "ip_lengths order isV6 p1" by auto
  let ?D = "take off (gb_data (bufs ! j)) @ p1"
  have lD: "length ?D = length (gb_data (bufs ! j))" using c p1(2) by (simp add: pkt_of_def)
  from encode_at_ok [OF off, of ?D order ?hdr] c lD obtain d where d: "encode_at order ?hdr off ?D = Some (Inr d)" "length d = length (gb_data (bufs ! j))"
    "drop off d = p1" "hdr_decode order (drop (off - virtioNetHdrLen) d) = Inr ?hdr" by auto
  have "?st \<le> length p1" "?st + 16 + 2 \<le> length p1" using len p1(2) by simp_all
  from account_psum_ok [OF this(1) hdr(7) this(2), of order IPPROTO_TCP "ti_iphLen item"] obtain p2 where
    p2: "account_psum order IPPROTO_TCP isV6 (ti_iphLen item) ?hdr p1 = Some p2" "length p2 = length ?q" "\<And>x. x < length ?q \<Longrightarrow> x \<notin> {?st + 16, ?st + 17} \<Longrightarrow> p2 ! x = p1 ! x"
    unfolding p1(2) by auto
  let ?b = "(bufs ! j)\<lparr>gb_data := take off d @ p2\<rparr>" and ?Y = "(if isV6 then {4, 5} else {2, 3, 10, 11}) \<union> {?st + 16, ?st + 17}"
  have e: "tcp_account_item order off item bufs = Some (None, bufs[j := ?b])"
    using f(1) n c p1(1) d(1,3) p2(1) unfolding tcp_account_item_def Let_def isV6_def [symmetric] j [symmetric]
    by (simp add: idx_def slice_from_def pkt_of_def)
  have "length ?q \<le> 65535" using c by (auto simp: pkt_of_def)
  then have gp: "gso_packet isV6 p2 ?hdr" using hdr len p2(2) f(10) by (simp add: gso_packet_def ip_len_def word_gt_0)
  have ip: "ip_lengths order isV6 p2" using p1(4) p2(2,3) p1(2) len by (subst ip_lengths_cong [of p2 p1]) auto
  have "coalesced order P (m j) off (take off d @ p2)"
  proof (rule coalesced_intro [OF f(3) s(1) p2(2), where Y = ?Y and hdr = ?hdr and first = "ti_sentSeq item"])
    show "p2 ! x = ?q ! x" if "x < length ?q" "x \<notin> ?Y" for x using that p1(3) p2(3) by simp
    show "?Y \<subseteq> {..<h}" using len by (auto simp: ip_len_def)
    show "{?st + 13} \<union> ?Y \<subseteq> changed isV6 ?hdr" using hdr by (auto simp: changed_def Let_def)
  qed (use hdr gp ip off c d(2,4) s(2) len in \<open>auto simp: ip_len_def\<close>)
  moreover have "length (take off d @ p2) = length (gb_data (bufs ! j))" using c d(2) p2(2) by (auto simp: pkt_of_def)
  ultimately show ?thesis using e by (intro exI [of _ ?b]) simp
qed

lemma udp_item_facts:
  assumes "bufs_ok P off k bufs" "udp_item_ok P off bufs m item" "uk_isV6 (ui_key item) = isV6" "j = unat (ui_bufsIndex item)" "h = ip_len isV6 + 8"
  shows "j < length bufs" "grouped P h (unat (ui_gsoSize item)) (m j) (pkt_of bufs off j)" "header_of P {} h (m j) (pkt_of bufs off j)"
    "unat (ui_iphLen item) = ip_len isV6" "h \<le> length (pkt_of bufs off j)" "ui_gsoSize item \<noteq> 0"
proof -
  show j: "j < length bufs" and g: "grouped P h (unat (ui_gsoSize item)) (m j) (pkt_of bufs off j)" and "header_of P {} h (m j) (pkt_of bufs off j)"
    and "unat (ui_iphLen item) = ip_len isV6" using assms by (auto simp: udp_item_ok_def slot_ok_def Let_def)
  show "h \<le> length (pkt_of bufs off j)" using g by (simp add: grouped_def)
  show "ui_gsoSize item \<noteq> 0" using grouped_pos [OF g] by auto
qed

lemma udp_account_ok:
  assumes bo: "bufs_ok P off k bufs" and ok: "udp_item_ok P off bufs m item" and off: "virtioNetHdrLen \<le> off" and j: "j = unat (ui_bufsIndex item)" and n: "ui_numMerged item > 0"
  shows "\<exists>b. udp_account_item order off item bufs = Some (None, bufs[j := b]) \<and> length (gb_data b) = length (gb_data (bufs ! j)) \<and> gb_cap b = gb_cap (bufs ! j)
    \<and> coalesced order P (m j) off (gb_data b)"
proof -
  define isV6 where "isV6 = uk_isV6 (ui_key item)"
  let ?st = "ip_len isV6" and ?hdr = "udp_item_hdr item" and ?q = "pkt_of bufs off j" and ?g = "unat (ui_gsoSize item)"
  define h where "h = ?st + 8"
  note f = udp_item_facts [OF bo ok isV6_def [symmetric] j h_def]
  note c = bufs_ok_nth [OF bo f(1)]
  have u: "unat (ui_iphLen item + of_nat udphLen) = h" "unat (ui_iphLen item + 4) = ?st + 4"
    using f(4) u8_plus [of "ui_iphLen item" 8] u8_plus [of "ui_iphLen item" 4] by (simp_all add: udphLen_def h_def ip_len_def)
  have hdr: "unat (vh_csumStart ?hdr) = ?st" "unat (vh_hdrLen ?hdr) = h" "vh_gsoSize ?hdr = ui_gsoSize item" "vh_csumOffset ?hdr = 6" "\<not> is_tcp_gso ?hdr" "vh_flags ?hdr = VIRTIO_NET_HDR_F_NEEDS_CSUM"
    "unat (vh_csumStart ?hdr + vh_csumOffset ?hdr) = ?st + 6"
    using f(4) u(1) by (simp_all add: udp_item_hdr_def is_tcp_gso_def virtio_defs unsigned_ucast_eq take_bit_nat_eq_self ip_len_def unat_word_ariths h_def)
  have len: "?st + 8 \<le> length ?q" using f(5) h_def by simp
  from account_ip_ok [OF f(4), of ?q order] len obtain p1 where p1: "account_ip order isV6 (ui_iphLen item) ?q = Some p1" "length p1 = length ?q"
    "\<And>x. x < length ?q \<Longrightarrow> x \<notin> (if isV6 then {4, 5} else {2, 3, 10, 11}) \<Longrightarrow> p1 ! x = ?q ! x" "ip_lengths order isV6 p1" by auto
  let ?D = "take off (gb_data (bufs ! j)) @ p1"
  have lD: "length ?D = length (gb_data (bufs ! j))" using c p1(2) by (simp add: pkt_of_def)
  from encode_at_ok [OF off, of ?D order ?hdr] c lD obtain d where d: "encode_at order ?hdr off ?D = Some (Inr d)" "length d = length (gb_data (bufs ! j))"
    "drop off d = p1" "hdr_decode order (drop (off - virtioNetHdrLen) d) = Inr ?hdr" by auto
  let ?p = "put_at (?st + 4) (be_bytes 2 (of_nat (length p1 - ?st) :: u16)) p1"
  have p: "length ?p = length ?q" "\<And>x. x < length ?q \<Longrightarrow> x \<notin> {?st + 4, ?st + 5} \<Longrightarrow> ?p ! x = p1 ! x" using len p1(2) by (auto simp: nth_put_at)
  have "?st \<le> length ?p" "?st + 6 + 2 \<le> length ?p" using len p(1) by simp_all
  from account_psum_ok [OF this(1) hdr(7) this(2), of order IPPROTO_UDP "ui_iphLen item"] obtain p2 where
    p2: "account_psum order IPPROTO_UDP isV6 (ui_iphLen item) ?hdr ?p = Some p2" "length p2 = length ?q" "\<And>x. x < length ?q \<Longrightarrow> x \<notin> {?st + 6, ?st + 7} \<Longrightarrow> p2 ! x = ?p ! x"
    unfolding p(1) by auto
  let ?b = "(bufs ! j)\<lparr>gb_data := take off d @ p2\<rparr>" and ?Y = "(if isV6 then {4, 5} else {2, 3, 10, 11}) \<union> {?st + 4, ?st + 5, ?st + 6, ?st + 7}"
  have "PutUint16_at (?st + 4) (of_nat (length (drop ?st p1))) p1 = Some ?p" using len p1(2) by (simp add: PutUint16_at_def)
  then have e: "udp_account_item order off item bufs = Some (None, bufs[j := ?b])"
    using f(1,4) n c p1(1,2) d(1-3) p2(1) u(2) len unfolding udp_account_item_def Let_def isV6_def [symmetric] j [symmetric]
    by (simp add: idx_def slice_from_def pkt_of_def)
  have "length ?q \<le> 65535" using c by (auto simp: pkt_of_def)
  then have gp: "gso_packet isV6 p2 ?hdr" using hdr len p2(2) f(6) by (simp add: gso_packet_def ip_len_def word_gt_0 h_def)
  have ip: "ip_lengths order isV6 p2" using p1(4) p2(2,3) p p1(2) len by (subst ip_lengths_cong [of p2 p1]) auto
  have "coalesced order P (m j) off (take off d @ p2)"
  proof (rule coalesced_intro [OF f(2,3) p2(2), where Y = ?Y and hdr = ?hdr and first = 0])
    show "p2 ! x = ?q ! x" if "x < length ?q" "x \<notin> ?Y" for x using that p1(3) p p2(3) by simp
    show "?Y \<subseteq> {..<h}" by (auto simp: ip_len_def h_def)
    show "{} \<union> ?Y \<subseteq> changed isV6 ?hdr" using hdr by (auto simp: changed_def Let_def)
  qed (use hdr gp ip off c d(2,4) in auto)
  moreover have "length (take off d @ p2) = length (gb_data (bufs ! j))" using c d(2) p2(2) by (auto simp: pkt_of_def)
  ultimately show ?thesis using e by (intro exI [of _ ?b]) simp
qed

section \<open>All items\<close>

text \<open>What buffer \<open>j\<close> is written as: the packet it was given with a zero header, or a coalesced packet.\<close>

definition written :: "byte_order \<Rightarrow> bytes list \<Rightarrow> nat \<Rightarrow> nat list \<Rightarrow> nat \<Rightarrow> bytes \<Rightarrow> bool" where
  "written order P off ms j data \<longleftrightarrow>
     ms = [j] \<and> drop off data = P ! j \<and> go_slice (off - virtioNetHdrLen) off data = replicate virtioNetHdrLen 0 \<or> 2 \<le> length ms \<and> coalesced order P ms off data"

lemma account_items_fold:
  assumes step: "\<And>it bufs. R it bufs \<Longrightarrow> I bufs \<Longrightarrow> \<exists>b. f it bufs = Some (None, bufs[ix it := b]) \<and> I (bufs[ix it := b]) \<and> Q it b"
    and frame: "\<And>it bufs j b. R it bufs \<Longrightarrow> ix it \<noteq> j \<Longrightarrow> R it (bufs[j := b])" and lt: "\<And>it bufs. R it bufs \<Longrightarrow> ix it < length bufs"
  shows "distinct (map ix items) \<Longrightarrow> I bufs \<Longrightarrow> \<forall>it\<in>set items. R it bufs \<Longrightarrow>
    \<exists>bufs'. account_items f items bufs = Some (None, bufs') \<and> I bufs' \<and> length bufs' = length bufs \<and> (\<forall>i. i \<notin> ix ` set items \<longrightarrow> bufs' ! i = bufs ! i)
      \<and> (\<forall>it\<in>set items. Q it (bufs' ! ix it))"
proof (induction items arbitrary: bufs)
  case Nil
  then show ?case by simp
next
  case (Cons it items)
  then have r: "R it bufs" by simp
  from step [OF r Cons.prems(2)] obtain b where b: "f it bufs = Some (None, bufs[ix it := b])" "I (bufs[ix it := b])" "Q it b" by blast
  have "\<forall>it'\<in>set items. R it' (bufs[ix it := b])" using Cons.prems(1,3) frame by (auto simp: image_iff)
  from Cons.IH [OF _ b(2) this] Cons.prems(1) obtain bufs' where
    i: "account_items f items (bufs[ix it := b]) = Some (None, bufs')" "I bufs'" "length bufs' = length bufs"
      "\<forall>i. i \<notin> ix ` set items \<longrightarrow> bufs' ! i = bufs[ix it := b] ! i" "\<forall>it\<in>set items. Q it (bufs' ! ix it)" by auto
  have "bufs' ! ix it = b" using i(4) Cons.prems(1) lt [OF r] by auto
  then show ?case using b(1,3) i by (intro exI [of _ bufs']) auto
qed

lemma bufs_ok_same:
  assumes "bufs_ok P off (length P) bufs" "j < length bufs" "length (gb_data b) = length (gb_data (bufs ! j))" "gb_cap b = gb_cap (bufs ! j)"
  shows "bufs_ok P off (length P) (bufs[j := b])"
  using assms bufs_ok_nth [OF assms(1,2)] set_update_subset_insert [of bufs j b] unfolding bufs_ok_def by (auto dest!: subsetD)

text \<open>An item on its own: its header is cleared.\<close>

lemma clear_item_ok:
  assumes bo: "bufs_ok P off (length P) bufs" and off: "virtioNetHdrLen \<le> off" and s: "slot_ok P off bufs m j h g 0 X"
  shows "\<exists>b. clear_hdr j off bufs = Some (bufs[j := b]) \<and> length (gb_data b) = length (gb_data (bufs ! j)) \<and> gb_cap b = gb_cap (bufs ! j) \<and> written order P off (m j) j (gb_data b)"
proof -
  have j: "j < length bufs" "m j = [j]" "pkt_of bufs off j = P ! j" using s by (auto simp: slot_ok_def)
  have "off \<le> length (gb_data (bufs ! j))" using bufs_ok_nth [OF bo j(1)] by simp
  from clear_hdr_ok [OF j(1) off this] show ?thesis using j(2,3) by (auto simp: written_def pkt_of_def)
qed

lemma tcp_account_step:
  assumes ok: "tcp_item_ok P off bufs m it" and bo: "bufs_ok P off (length P) bufs" and off: "virtioNetHdrLen \<le> off" and j: "j = unat (ti_bufsIndex it)"
  shows "\<exists>b. tcp_account_item order off it bufs = Some (None, bufs[j := b]) \<and> bufs_ok P off (length P) (bufs[j := b]) \<and> written order P off (m j) j (gb_data b)"
proof -
  let ?isV6 = "tk_isV6 (ti_key it)"
  have s: "slot_ok P off bufs m j (ip_len ?isV6 + unat (ti_tcphLen it)) (unat (ti_gsoSize it)) (unat (ti_numMerged it)) {ip_len ?isV6 + 13}"
    using ok by (simp add: tcp_item_ok_def Let_def j)
  then have "j < length bufs" by (simp add: slot_ok_def)
  note same = bufs_ok_same [OF bo this]
  show ?thesis
  proof (cases "ti_numMerged it = 0")
    case True
    from clear_item_ok [OF bo off] s True obtain b where b: "clear_hdr j off bufs = Some (bufs[j := b])" "length (gb_data b) = length (gb_data (bufs ! j))"
      "gb_cap b = gb_cap (bufs ! j)" "written order P off (m j) j (gb_data b)" by fastforce
    then have "tcp_account_item order off it bufs = Some (None, bufs[j := b])" using True by (simp add: tcp_account_item_def Let_def flip: j)
    then show ?thesis using b same by blast
  next
    case False
    then have n: "ti_numMerged it > 0" by (simp add: word_gt_0)
    then have "unat (ti_numMerged it) \<noteq> 0" by (simp add: word_less_nat_alt)
    then have "2 \<le> length (m j)" using s unfolding slot_ok_def by linarith
    then show ?thesis using tcp_account_ok [OF bo ok off j n, of order] same unfolding written_def by blast
  qed
qed

lemma udp_account_step:
  assumes ok: "udp_item_ok P off bufs m it" and bo: "bufs_ok P off (length P) bufs" and off: "virtioNetHdrLen \<le> off" and j: "j = unat (ui_bufsIndex it)"
  shows "\<exists>b. udp_account_item order off it bufs = Some (None, bufs[j := b]) \<and> bufs_ok P off (length P) (bufs[j := b]) \<and> written order P off (m j) j (gb_data b)"
proof -
  let ?isV6 = "uk_isV6 (ui_key it)"
  have s: "slot_ok P off bufs m j (ip_len ?isV6 + 8) (unat (ui_gsoSize it)) (unat (ui_numMerged it)) {}"
    using ok by (simp add: udp_item_ok_def Let_def j)
  then have "j < length bufs" by (simp add: slot_ok_def)
  note same = bufs_ok_same [OF bo this]
  show ?thesis
  proof (cases "ui_numMerged it = 0")
    case True
    from clear_item_ok [OF bo off] s True obtain b where b: "clear_hdr j off bufs = Some (bufs[j := b])" "length (gb_data b) = length (gb_data (bufs ! j))"
      "gb_cap b = gb_cap (bufs ! j)" "written order P off (m j) j (gb_data b)" by fastforce
    then have "udp_account_item order off it bufs = Some (None, bufs[j := b])" using True by (simp add: udp_account_item_def Let_def flip: j)
    then show ?thesis using b same by blast
  next
    case False
    then have n: "ui_numMerged it > 0" by (simp add: word_gt_0)
    then have "unat (ui_numMerged it) \<noteq> 0" by (simp add: word_less_nat_alt)
    then have "2 \<le> length (m j)" using s unfolding slot_ok_def by linarith
    then show ?thesis using udp_account_ok [OF bo ok off j n, of order] same unfolding written_def by blast
  qed
qed

lemma distinct_submset:
  assumes "mset xs \<subseteq># mset ys" "distinct ys"
  shows "distinct xs"
  unfolding distinct_count_atmost_1
proof
  fix a
  have le: "count (mset xs) a \<le> 1"
  proof (rule le_trans)
    show "count (mset ys) a \<le> 1" using assms(2) by (simp add: distinct_count_atmost_1)
  qed (rule mset_subset_eq_count [OF assms(1)])
  have "count (mset xs) a = 1" if "a \<in> set xs"
  proof -
    have "0 < count (mset xs) a" using that by simp
    with le show ?thesis by linarith
  qed
  then show "count (mset xs) a = (if a \<in> set xs then 1 else 0)" by simp
qed

lemma accounting_ok:
  assumes inv: "gro_inv P off (length P) m s" and off: "virtioNetHdrLen \<le> off"
  shows "\<exists>bufs1 bufs2. applyTCPCoalesceAccounting order (gs_bufs s) off (gs_tcp s) = Some (None, bufs1) \<and> applyUDPCoalesceAccounting order bufs1 off (gs_udp s) = Some (None, bufs2)
    \<and> bufs_ok P off (length P) bufs2 \<and> (\<forall>j\<in>set (gs_toWrite s). written order P off (m j) j (gb_data (bufs2 ! j)))"
proof -
  let ?T = "all_items (gs_tcp s)" and ?U = "all_items (gs_udp s)" and ?ti = "\<lambda>it. unat (ti_bufsIndex it)" and ?ui = "\<lambda>it. unat (ui_bufsIndex it)"
  let ?I = "bufs_ok P off (length P)"
  have sl: "mset (map ?ti ?T @ map ?ui ?U) \<subseteq># mset (gs_toWrite s)" "distinct (gs_toWrite s)" using inv by (auto simp: gro_inv_def slots_def)
  have "distinct (map ?ti ?T @ map ?ui ?U)"
    using sl by (rule distinct_submset)
  then have dist: "distinct (map ?ti ?T)" "distinct (map ?ui ?U)" "?ti ` set ?T \<inter> ?ui ` set ?U = {}" by auto
  have "\<exists>bufs1. account_items (tcp_account_item order off) ?T (gs_bufs s) = Some (None, bufs1) \<and> ?I bufs1 \<and> length bufs1 = length (gs_bufs s)
    \<and> (\<forall>i. i \<notin> ?ti ` set ?T \<longrightarrow> bufs1 ! i = gs_bufs s ! i) \<and> (\<forall>it\<in>set ?T. written order P off (m (?ti it)) (?ti it) (gb_data (bufs1 ! ?ti it)))"
  proof (rule account_items_fold [where R = "\<lambda>it bufs. tcp_item_ok P off bufs m it"])
    fix it bufs j b assume "tcp_item_ok P off bufs m it" "?ti it \<noteq> j"
    then show "tcp_item_ok P off (bufs[j := b]) m it" by (subst tcp_item_cong [where bufs = bufs and m = m]) (auto simp: pkt_of_def)
  qed (use inv dist off tcp_account_step in \<open>auto simp: gro_inv_def tcp_item_ok_def slot_ok_def Let_def\<close>)
  then obtain bufs1 where b1: "account_items (tcp_account_item order off) ?T (gs_bufs s) = Some (None, bufs1)" "?I bufs1" "length bufs1 = length (gs_bufs s)"
    "\<forall>i. i \<notin> ?ti ` set ?T \<longrightarrow> bufs1 ! i = gs_bufs s ! i" "\<forall>it\<in>set ?T. written order P off (m (?ti it)) (?ti it) (gb_data (bufs1 ! ?ti it))" by blast
  have u1: "udp_item_ok P off bufs1 m it" if "it \<in> set ?U" for it
  proof -
    have "?ui it \<notin> ?ti ` set ?T" using that dist(3) by auto
    then show ?thesis using that inv b1(3,4) by (subst udp_item_cong [where bufs = "gs_bufs s" and m = m]) (auto simp: gro_inv_def intro!: pkt_of_eq)
  qed
  have "\<exists>bufs2. account_items (udp_account_item order off) ?U bufs1 = Some (None, bufs2) \<and> ?I bufs2 \<and> length bufs2 = length bufs1
    \<and> (\<forall>i. i \<notin> ?ui ` set ?U \<longrightarrow> bufs2 ! i = bufs1 ! i) \<and> (\<forall>it\<in>set ?U. written order P off (m (?ui it)) (?ui it) (gb_data (bufs2 ! ?ui it)))"
  proof (rule account_items_fold [where R = "\<lambda>it bufs. udp_item_ok P off bufs m it"])
    fix it bufs j b assume "udp_item_ok P off bufs m it" "?ui it \<noteq> j"
    then show "udp_item_ok P off (bufs[j := b]) m it" by (subst udp_item_cong [where bufs = bufs and m = m]) (auto simp: pkt_of_def)
  qed (use u1 b1(2) dist off udp_account_step in \<open>auto simp: udp_item_ok_def slot_ok_def Let_def\<close>)
  then obtain bufs2 where b2: "account_items (udp_account_item order off) ?U bufs1 = Some (None, bufs2)" "?I bufs2"
    "\<forall>i. i \<notin> ?ui ` set ?U \<longrightarrow> bufs2 ! i = bufs1 ! i" "\<forall>it\<in>set ?U. written order P off (m (?ui it)) (?ui it) (gb_data (bufs2 ! ?ui it))" by blast
  have "written order P off (m j) j (gb_data (bufs2 ! j))" if j: "j \<in> set (gs_toWrite s)" for j
  proof -
    consider it where "it \<in> set ?U" "j = ?ui it" | it where "it \<in> set ?T" "j = ?ti it" | "j \<notin># slots s" by (auto simp: slots_def)
    then show ?thesis
    proof cases
      case 1
      then show ?thesis using b2(4) by blast
    next
      case 2
      then have "j \<notin> ?ui ` set ?U" using dist(3) by auto
      then show ?thesis using 2 b1(5) b2(3) by metis
    next
      case 3
      then have "bufs2 ! j = gs_bufs s ! j" using b1(4) b2(3) by (auto simp: slots_def image_iff)
      then show ?thesis using 3 j inv by (auto simp: gro_inv_def written_def plain_def pkt_of_def)
    qed
  qed
  then show ?thesis using b1(1) b2(1,2) by (auto simp: applyTCPCoalesceAccounting_def applyUDPCoalesceAccounting_def)
qed

section \<open>The tables between calls\<close>

text \<open>A table keeps the number of its slices: those of the flows and those of the pool.\<close>

definition slices :: "('k, 'i) gro_table \<Rightarrow> nat" where
  "slices t = length (itemsPool t) + length (itemsByFlow t)"

lemma length_update: "length (AList.update k v al) = (if map_of al k = None then Suc (length al) else length al)"
  by (induction al) auto

lemma insert_item_slices: "insert_item key item t = Some t' \<Longrightarrow> slices t' = slices t"
  by (cases "map_of (itemsByFlow t) key") (auto simp: insert_item_def newItems_def slices_def length_update split: if_splits)

lemma updateAt_slices: "updateAt key item i t = Some t' \<Longrightarrow> slices t' = slices t"
  by (cases "map_of (itemsByFlow t) key") (auto simp: updateAt_def store_def flow_items_def slices_def length_update split: if_splits)

lemma deleteAt_slices: "deleteAt key i t = Some t' \<Longrightarrow> slices t' = slices t"
  by (cases "map_of (itemsByFlow t) key") (auto simp: deleteAt_def slice_at_def slice_from_def flow_items_def slices_def length_update bind_eq_Some_conv split: if_splits)

lemma tcp_insert_slices: "tcp_insert pkt a b c d k t = Some t' \<Longrightarrow> slices t' = slices t"
  by (auto simp: tcp_insert_def bind_eq_Some_conv dest: insert_item_slices)

lemma udp_insert_slices: "udp_insert pkt a b c k x t = Some t' \<Longrightarrow> slices t' = slices t"
  by (auto simp: udp_insert_def bind_eq_Some_conv dest: insert_item_slices)

lemma tcp_lookup_slices: "tcp_lookupOrInsert pkt a b c d k t = Some (r, t') \<Longrightarrow> slices t' = slices t"
  by (auto simp: tcp_lookupOrInsert_def bind_eq_Some_conv dest: tcp_insert_slices split: option.splits)

lemma udp_lookup_slices: "udp_lookupOrInsert pkt a b c k t = Some (r, t') \<Longrightarrow> slices t' = slices t"
  by (auto simp: udp_lookupOrInsert_def bind_eq_Some_conv dest: udp_insert_slices split: option.splits)

lemma tcp_gro_loop_slices: "tcp_gro_loop order pkt k iphLen tcphLen seq psh g off v6 items i bufs t = Some (r, bufs', t') \<Longrightarrow> slices t' = slices t"
proof (induction i arbitrary: bufs t)
  case (Suc i)
  from Suc.prems show ?case
    by (auto simp: bind_eq_Some_conv dest!: Suc.IH updateAt_slices deleteAt_slices split: if_split_asm coalesceResult.split_asm)
      (metis coalesceResult.exhaust)
qed simp

lemma tcp_flow_slices: "tcp_gro_flow order pkt k iphLen tcphLen psh off v6 bufs t = Some (r, bufs', t') \<Longrightarrow> slices t' = slices t"
  unfolding tcp_gro_flow_def Let_def by (auto simp: bind_eq_Some_conv dest!: tcp_lookup_slices tcp_gro_loop_slices tcp_insert_slices split: if_splits option.splits)

lemma udp_flow_slices: "udp_gro_flow order pkt k iphLen off v6 bufs t = Some (r, bufs', t') \<Longrightarrow> slices t' = slices t"
  unfolding udp_gro_flow_def Let_def by (auto simp: bind_eq_Some_conv dest!: udp_lookup_slices updateAt_slices udp_insert_slices split: if_splits option.splits)

lemma tcpGRO_slices: "tcpGRO order bufs off k t v6 = Some (r, bufs', t') \<Longrightarrow> slices t' = slices t"
  unfolding tcpGRO_def Let_def by (auto simp: bind_eq_Some_conv dest!: tcp_flow_slices split: if_splits option.splits)

lemma udpGRO_slices: "udpGRO order bufs off k t v6 = Some (r, bufs', t') \<Longrightarrow> slices t' = slices t"
  unfolding udpGRO_def Let_def by (auto simp: bind_eq_Some_conv dest!: udp_flow_slices split: if_splits option.splits)

lemma gro_dispatch_slices: "gro_dispatch order off c k pkt s = Some (r, s') \<Longrightarrow> slices (gs_tcp s') = slices (gs_tcp s) \<and> slices (gs_udp s') = slices (gs_udp s)"
  unfolding gro_dispatch_def Let_def by (auto simp: bind_eq_Some_conv dest!: tcpGRO_slices udpGRO_slices split: groCandidateType.splits)

lemma gro_packet_slices: "gro_packet order off c k s = Some (Inr s') \<Longrightarrow> slices (gs_tcp s') = slices (gs_tcp s) \<and> slices (gs_udp s') = slices (gs_udp s)"
  unfolding gro_packet_def by (auto simp: bind_eq_Some_conv dest!: gro_dispatch_slices split: if_split_asm groResult.split_asm)
    (metis groResult.exhaust)+

lemma gro_loop_slices: "gro_loop order off c is s = Some (e, s') \<Longrightarrow> slices (gs_tcp s') = slices (gs_tcp s) \<and> slices (gs_udp s') = slices (gs_udp s)"
proof (induction "is" arbitrary: s)
  case (Cons i "is")
  then obtain r where r: "gro_packet order off c i s = Some r" "(case r of Inl e \<Rightarrow> Some (Some e, s) | Inr s \<Rightarrow> gro_loop order off c is s) = Some (e, s')"
    by (auto simp: bind_eq_Some_conv)
  then show ?case using Cons.IH gro_packet_slices by (cases r) fastforce+
qed simp

section \<open>Properties\<close>

text \<open>The tables before a call: no flow, and a free slice for every packet of a batch.\<close>

definition fresh_table :: "('k, 'i) gro_table \<Rightarrow> bool" where
  "fresh_table t \<longleftrightarrow> itemsByFlow t = [] \<and> set (itemsPool t) \<subseteq> {[]} \<and> IdealBatchSize \<le> length (itemsPool t)"

text \<open>The buffers of a batch: at most \<open>IdealBatchSize\<close>, each longer than \<open>off\<close> and within an array of at most 65535 bytes.\<close>

definition batch_ok :: "nat \<Rightarrow> gro_buf list \<Rightarrow> bool" where
  "batch_ok off bufs \<longleftrightarrow> length bufs \<le> IdealBatchSize \<and> virtioNetHdrLen \<le> off
     \<and> (\<forall>b\<in>set bufs. off < length (gb_data b) \<and> length (gb_data b) \<le> gb_cap b \<and> gb_cap b \<le> 65535)"

lemma gro_inv_init:
  assumes "batch_ok off bufs" "fresh_table t" "fresh_table u"
  shows "gro_inv (map (\<lambda>b. drop off (gb_data b)) bufs) off 0 (\<lambda>_. []) \<lparr>gs_bufs = bufs, gs_tcp = t, gs_udp = u, gs_toWrite = []\<rparr>"
  using assms by (auto simp: gro_inv_def bufs_ok_def batch_ok_def fresh_table_def table_wf_def all_items_def slots_def pkt_of_def)

lemma handleGRO_ok:
  assumes "batch_ok off bufs" "fresh_table t" "fresh_table u" and P: "P = map (\<lambda>b. drop off (gb_data b)) bufs"
  shows "\<exists>s m. handleGRO order off canUDPGRO \<lparr>gs_bufs = bufs, gs_tcp = t, gs_udp = u, gs_toWrite = []\<rparr> = Some ([], s)
    \<and> distinct (gs_toWrite s) \<and> set (gs_toWrite s) \<subseteq> {..<length bufs} \<and> mset (concat (map m (gs_toWrite s))) = mset [0..<length bufs]
    \<and> (\<forall>j\<in>set (gs_toWrite s). written order P off (m j) j (gb_data (gs_bufs s ! j))) \<and> bufs_ok P off (length P) (gs_bufs s)
    \<and> fresh_table (table_reset (gs_tcp s)) \<and> fresh_table (table_reset (gs_udp s))"
proof -
  let ?s = "\<lparr>gs_bufs = bufs, gs_tcp = t, gs_udp = u, gs_toWrite = []\<rparr>"
  have l: "length P = length bufs" "length P \<le> 128" "virtioNetHdrLen \<le> off" using assms(1) P by (auto simp: batch_ok_def IdealBatchSize_def)
  from gro_loop_ok [OF l(2,3) gro_inv_init [OF assms(1-3), folded P] le0, where order = order and canUDPGRO = canUDPGRO] obtain s m where
    s: "gro_loop order off canUDPGRO [0..<length bufs] ?s = Some (None, s)" "gro_inv P off (length P) m s" unfolding l(1) by auto
  from accounting_ok [OF s(2) l(3), of order] obtain bufs1 bufs2 where
    b: "applyTCPCoalesceAccounting order (gs_bufs s) off (gs_tcp s) = Some (None, bufs1)" "applyUDPCoalesceAccounting order bufs1 off (gs_udp s) = Some (None, bufs2)"
      "bufs_ok P off (length P) bufs2" "\<forall>j\<in>set (gs_toWrite s). written order P off (m j) j (gb_data (bufs2 ! j))" by blast
  have "slices (gs_tcp s) = slices t" "slices (gs_udp s) = slices u" using gro_loop_slices [OF s(1)] by simp_all
  moreover have "table_wf ti_key (gs_tcp s)" "table_wf ui_key (gs_udp s)" using s(2) by (simp_all add: gro_inv_def)
  ultimately have f: "fresh_table (table_reset (gs_tcp s))" "fresh_table (table_reset (gs_udp s))"
    using assms(2,3) by (auto simp: fresh_table_def table_reset_def slices_def table_wf_def)
  have h: "handleGRO order off canUDPGRO ?s = Some ([], s\<lparr>gs_bufs := bufs2\<rparr>)" using s(1) b(1,2) by (simp add: handleGRO_def)
  show ?thesis using h s(2) b(3,4) f l(1) by (intro exI [of _ "s\<lparr>gs_bufs := bufs2\<rparr>"] exI [of _ m]) (simp add: gro_inv_def)
qed

lemma those_map_Some: "\<forall>x\<in>set xs. f x = Some (g x) \<Longrightarrow> those (map f xs) = Some (map g xs)"
  by (induction xs) auto

lemma write_packets_all: "\<forall>k. tf k \<noteq> FileClosed \<Longrightarrow> snd (write_packets tf k ps failed n) = ps"
  by (induction ps arbitrary: k failed n) (auto split: file_result.split simp: case_prod_unfold)

text \<open>Segmentation of a coalesced packet. \<open>restored\<close>: \<open>q\<close> has the length, the data and the TCP sequence number of \<open>p\<close>, and the headers of the first packet
  \<open>p0\<close> of its group but for the fields a segmentation sets.\<close>

definition restored :: "bool \<Rightarrow> virtioNetHdr \<Rightarrow> bytes \<Rightarrow> bytes \<Rightarrow> bytes \<Rightarrow> bool" where
  "restored isV6 hdr p0 p q \<longleftrightarrow>
     (let st = unat (vh_csumStart hdr); hl = unat (vh_hdrLen hdr) in
      length q = length p \<and> drop hl q = drop hl p \<and> (\<forall>x<hl. x \<notin> changed isV6 hdr \<longrightarrow> q ! x = p0 ! x)
      \<and> (is_tcp_gso hdr \<longrightarrow> Uint32_at (st + 4) q = Uint32_at (st + 4) p))"

lemma coalesced_split:
  assumes c: "coalesced order P ms off data" and out: "length ms \<le> length out" "length out \<le> length sizes" "\<forall>b\<in>set out. o2 + 65535 \<le> length b"
  shows "\<exists>isV6 hdr out' sizes'. hdr_decode order (drop (off - virtioNetHdrLen) data) = Inr hdr
    \<and> gsoSplit order (drop off data) hdr out sizes o2 isV6 = Some ((int (length ms), None), out', sizes')
    \<and> (\<forall>r<length ms. restored isV6 hdr (P ! hd ms) (P ! (ms ! r)) (take (sizes' ! r) (drop o2 (out' ! r))))"
proof -
  let ?pkt = "drop off data"
  from c obtain isV6 hdr where h: "hdr_decode order (drop (off - virtioNetHdrLen) data) = Inr hdr" "gso_packet isV6 ?pkt hdr" "gso_count ?pkt hdr = length ms"
    and seg: "\<forall>r<length ms. segment_data ?pkt hdr r = drop (unat (vh_hdrLen hdr)) (P ! (ms ! r))"
    and hd: "\<forall>x<unat (vh_hdrLen hdr). x \<notin> changed isV6 hdr \<longrightarrow> ?pkt ! x = P ! hd ms ! x"
    and seq: "is_tcp_gso hdr \<longrightarrow> (\<forall>r<length ms. Uint32_at (unat (vh_csumStart hdr) + 4) (P ! (ms ! r))
      = map_option (\<lambda>n. n + of_nat (r * unat (vh_gsoSize hdr))) (Uint32_at (unat (vh_csumStart hdr) + 4) ?pkt))"
    unfolding coalesced_def Let_def by blast
  let ?hl = "unat (vh_hdrLen hdr)" and ?g = "unat (vh_gsoSize hdr)"
  have q: "?hl \<le> length ?pkt" "length ?pkt \<le> 65535" "0 < vh_gsoSize hdr" using h(2) unfolding gso_packet_def by blast+
  then have "\<forall>j<length out. o2 + ?hl + min ?g (length ?pkt - ?hl) \<le> length (out ! j)" using out(3) by (auto dest!: bspec [OF _ nth_mem])
  from gsoSplit_ok [OF h(2) refl out(2) this, of order] out(1) obtain out' sizes' where
    r: "gsoSplit order ?pkt hdr out sizes o2 isV6 = Some ((int (length ms), None), out', sizes')"
      "\<forall>j. j < length ms \<longrightarrow> j < length out \<longrightarrow> take o2 (out' ! j) = take o2 (out ! j) \<and> segment_ok order isV6 ?pkt hdr j (take (sizes' ! j) (drop o2 (out' ! j)))"
    unfolding h(3) by (auto simp: if_P)
  have "restored isV6 hdr (P ! hd ms) (P ! (ms ! r)) (take (sizes' ! r) (drop o2 (out' ! r)))" if rl: "r < length ms" for r
  proof -
    let ?q = "take (sizes' ! r) (drop o2 (out' ! r))"
    have ok: "segment_ok order isV6 ?pkt hdr r ?q" using r(2) rl out(1) by simp
    have "?hl + r * ?g < length ?pkt" using gso_count_less [OF q(3,1), of r] rl h(3) by simp
    then have "0 < length (segment_data ?pkt hdr r)" using q(3) by (simp add: segment_data_def word_less_nat_alt)
    then have "length (P ! (ms ! r)) = ?hl + length (segment_data ?pkt hdr r)" using seg rl by simp
    then show ?thesis using ok seg hd seq rl unfolding restored_def segment_ok_def transport_fields_def Let_def by auto
  qed
  then show ?thesis using h(1) r(1) by blast
qed


text \<open>A batch of two UDP packets of one flow.\<close>

definition sample_udp :: "bytes \<Rightarrow> gro_buf" where
  "sample_udp data = \<lparr>gb_data = replicate 10 7 @ [69, 0, 0, of_nat (28 + length data), 0, 1, 0, 0, 64, 17, 0, 0, 10, 0, 0, 1, 10, 0, 0, 2, 3, 232, 7, 208, 0,
     of_nat (8 + length data), 0, 0] @ data, gb_cap = 65535\<rparr>"

definition sample_tun :: NativeTun where
  "sample_tun = \<lparr>nt_vnetHdr = True, nt_udpGSO = True, nt_tcpGROTable = newTCPGROTable, nt_udpGROTable = newUDPGROTable\<rparr>"




end
