(* ===== verification/Bind.thy ===== *)
theory Bind
  imports DeviceState Gro
begin

text \<open>
  The UDP sockets of a device, \<^verbatim>\<open>src/conn/bind_std.go\<close> in its Linux build (\<^verbatim>\<open>gso_linux.go\<close>, \<^verbatim>\<open>sticky_linux.go\<close>,
  \<^verbatim>\<open>errors_linux.go\<close>): opening and closing, sending with segmentation offload and the retry without it, receiving with the split of
  coalesced datagrams. The calls of the operating system and the control message functions of \<^verbatim>\<open>golang.org/x/sys/unix\<close> are
  arguments. \<open>None\<close> is a panic or a loop that does not end. The theorems are in \<open>BindSend\<close> and \<open>BindReceive\<close>.
\<close>

section \<open>Control messages\<close>

record Cmsghdr =
  ch_Len :: nat
  ch_Level :: nat
  ch_Type :: nat

text \<open>What the code uses of the package \<open>unix\<close>: the sizes of control messages, the memory layout of a header and the parser of one
  message, which returns its header, its data and the bytes after it. The constants are those of Linux.\<close>

record cmsg_lib =
  cl_order :: byte_order
  SizeofCmsghdr :: nat
  CmsgLen :: "nat \<Rightarrow> nat"
  CmsgSpace :: "nat \<Rightarrow> nat"
  hdr_bytes :: "Cmsghdr \<Rightarrow> bytes"
  ParseOne :: "bytes \<Rightarrow> (Cmsghdr \<times> bytes \<times> bytes) option"

definition SOL_UDP :: nat where "SOL_UDP = 17"
definition UDP_SEGMENT :: nat where "UDP_SEGMENT = 103"
definition UDP_GRO :: nat where "UDP_GRO = 104"
definition IPPROTO_IP :: nat where "IPPROTO_IP = 0"
definition IP_PKTINFO :: nat where "IP_PKTINFO = 8"
definition IPPROTO_IPV6 :: nat where "IPPROTO_IPV6 = 41"
definition IPV6_PKTINFO :: nat where "IPV6_PKTINFO = 50"
definition SizeofInet4Pktinfo :: nat where "SizeofInet4Pktinfo = 12"
definition SizeofInet6Pktinfo :: nat where "SizeofInet6Pktinfo = 20"

definition sizeOfGSOData :: nat where "sizeOfGSOData = 2"

definition gsoControlSize :: "cmsg_lib \<Rightarrow> nat" where
  "gsoControlSize lib = CmsgSpace lib sizeOfGSOData"

definition stickyControlSize :: "cmsg_lib \<Rightarrow> nat" where
  "stickyControlSize lib = CmsgSpace lib SizeofInet6Pktinfo"

text \<open>A control buffer is an array and the length of the slice that is in use; the array is as long as the capacity.\<close>

record control =
  c_arr :: bytes
  c_len :: nat

definition c_bytes :: "control \<Rightarrow> bytes" where
  "c_bytes c = take (c_len c) (c_arr c)"

text \<open>The search for a 16-bit value in the control messages; an error of the parser is \<open>Inl ()\<close>.\<close>

partial_function (option) find_gso :: "cmsg_lib \<Rightarrow> nat \<Rightarrow> bytes \<Rightarrow> (unit + nat) option" where
  "find_gso lib typ rem =
     (if length rem > SizeofCmsghdr lib then
        (case ParseOne lib rem of
           None \<Rightarrow> Some (Inl ())
         | Some (hdr, dat, rem) \<Rightarrow>
             if ch_Level hdr = SOL_UDP \<and> ch_Type hdr = typ \<and> length dat \<ge> sizeOfGSOData then
               Some (Inr (unat (native_word (cl_order lib) (take sizeOfGSOData dat) :: u16)))
             else find_gso lib typ rem)
      else Some (Inr 0))"

definition getGSOSize :: "cmsg_lib \<Rightarrow> bytes \<Rightarrow> (unit + nat) option" where
  "getGSOSize lib control = find_gso lib UDP_GRO control"

definition setGSOSize :: "cmsg_lib \<Rightarrow> u16 \<Rightarrow> control \<Rightarrow> control" where
  "setGSOSize lib gsoSize c =
     (let existingLen = c_len c;
          avail = length (c_arr c) - existingLen;
          space = CmsgSpace lib sizeOfGSOData
      in if avail < space then c
         else
           let hdr = \<lparr>ch_Len = CmsgLen lib sizeOfGSOData, ch_Level = SOL_UDP, ch_Type = UDP_SEGMENT\<rparr>;
               arr = put_at existingLen (hdr_bytes lib hdr) (c_arr c);
               arr = put_at (existingLen + CmsgLen lib 0) (native_bytes (cl_order lib) 2 gsoSize) arr
           in c\<lparr>c_arr := arr, c_len := existingLen + space\<rparr>)"

definition setSrcControl :: "Endpoint \<Rightarrow> control \<Rightarrow> control" where
  "setSrcControl ep c =
     (if length (c_arr c) < length (ep_src ep) then c
      else c\<lparr>c_arr := put_at 0 (ep_src ep) (c_arr c), c_len := length (ep_src ep)\<rparr>)"

text \<open>\<open>getSrcFromControl\<close> is called with new endpoints only, whose \<open>src\<close> is \<open>nil\<close>: the array is made here, filled with zeros.\<close>

definition pktinfo_src :: "cmsg_lib \<Rightarrow> nat \<Rightarrow> Cmsghdr \<Rightarrow> bytes \<Rightarrow> bytes" where
  "pktinfo_src lib sz hdr dat =
     put_at (CmsgLen lib 0) dat (put_at 0 (hdr_bytes lib hdr) (replicate (CmsgSpace lib sz) 0))"

partial_function (option) find_pktinfo :: "cmsg_lib \<Rightarrow> bytes \<Rightarrow> bytes option" where
  "find_pktinfo lib rem =
     (if length rem > SizeofCmsghdr lib then
        (case ParseOne lib rem of
           None \<Rightarrow> Some []
         | Some (hdr, dat, rem) \<Rightarrow>
             if ch_Level hdr = IPPROTO_IP \<and> ch_Type hdr = IP_PKTINFO then
               Some (pktinfo_src lib SizeofInet4Pktinfo hdr dat)
             else if ch_Level hdr = IPPROTO_IPV6 \<and> ch_Type hdr = IPV6_PKTINFO then
               Some (pktinfo_src lib SizeofInet6Pktinfo hdr dat)
             else find_pktinfo lib rem)
      else Some [])"

definition getSrcFromControl :: "cmsg_lib \<Rightarrow> bytes \<Rightarrow> Endpoint \<Rightarrow> Endpoint option" where
  "getSrcFromControl lib control ep =
     do { src \<leftarrow> find_pktinfo lib control; Some ((ClearSrc ep)\<lparr>ep_src := src\<rparr>) }"

text \<open>The source address of an endpoint, read from the structures \<open>in_pktinfo\<close> and \<open>in6_pktinfo\<close>.\<close>

definition SrcIP :: "cmsg_lib \<Rightarrow> Endpoint \<Rightarrow> Addr" where
  "SrcIP lib e =
     (let at = CmsgLen lib 0
      in if length (ep_src e) = CmsgSpace lib SizeofInet4Pktinfo then Addr4 (go_slice (at + 4) (at + 8) (ep_src e))
         else if length (ep_src e) = CmsgSpace lib SizeofInet6Pktinfo then Addr6 (go_slice at (at + 16) (ep_src e))
         else NoAddr)"

definition SrcIfidx :: "cmsg_lib \<Rightarrow> Endpoint \<Rightarrow> u32" where
  "SrcIfidx lib e =
     (let at = CmsgLen lib 0
      in if length (ep_src e) = CmsgSpace lib SizeofInet4Pktinfo then native_word (cl_order lib) (go_slice at (at + 4) (ep_src e))
         else if length (ep_src e) = CmsgSpace lib SizeofInet6Pktinfo then native_word (cl_order lib) (go_slice (at + 16) (at + 20) (ep_src e))
         else 0)"

section \<open>Messages and pools\<close>

text \<open>A \<open>net.UDPAddr\<close> of the pool: the array of its address and the length of the slice \<open>IP\<close>.\<close>

record UDPAddr =
  ua_arr :: bytes
  ua_len :: nat
  ua_Port :: nat

definition ua_IP :: "UDPAddr \<Rightarrow> bytes" where
  "ua_IP ua = take (ua_len ua) (ua_arr ua)"

definition new_UDPAddr :: UDPAddr where
  "new_UDPAddr = \<lparr>ua_arr = replicate 16 0, ua_len = 16, ua_Port = 0\<rparr>"

record Message =
  m_Buffer :: gro_buf
  m_OOB :: control
  m_Addr :: "UDPAddr option"
  m_N :: nat
  m_NN :: nat

definition new_Message :: "cmsg_lib \<Rightarrow> Message" where
  "new_Message lib =
     \<lparr>m_Buffer = \<lparr>gb_data = [], gb_cap = 0\<rparr>,
      m_OOB = \<lparr>c_arr = replicate (stickyControlSize lib + gsoControlSize lib) 0, c_len = 0\<rparr>,
      m_Addr = None, m_N = 0, m_NN = 0\<rparr>"

definition new_msgs :: "cmsg_lib \<Rightarrow> Message list" where
  "new_msgs lib = replicate IdealBatchSize (new_Message lib)"

text \<open>\<open>Get\<close> of a \<open>sync.Pool\<close> takes any item of the pool, or makes a new one.\<close>

definition pool_get :: "nat option \<Rightarrow> 'a \<Rightarrow> 'a list \<Rightarrow> 'a \<times> 'a list" where
  "pool_get pick new pool =
     (case pick of
        Some i \<Rightarrow> if i < length pool then (pool ! i, take i pool @ drop (Suc i) pool) else (new, pool)
      | None \<Rightarrow> (new, pool))"

record Conn =
  co_is6 :: bool
  co_port :: nat

record StdNetBind =
  b_ipv4 :: "Conn option"
  b_ipv6 :: "Conn option"
  b_ipv4PC :: "Conn option"
  b_ipv6PC :: "Conn option"
  ipv4TxOffload :: bool
  ipv4RxOffload :: bool
  ipv6TxOffload :: bool
  ipv6RxOffload :: bool
  udpAddrPool :: "UDPAddr list"
  msgsPool :: "Message list list"
  blackhole4 :: bool
  blackhole6 :: bool

definition NewStdNetBind :: StdNetBind where
  "NewStdNetBind =
     \<lparr>b_ipv4 = None, b_ipv6 = None, b_ipv4PC = None, b_ipv6PC = None, ipv4TxOffload = False, ipv4RxOffload = False,
      ipv6TxOffload = False, ipv6RxOffload = False, udpAddrPool = [], msgsPool = [], blackhole4 = False, blackhole6 = False\<rparr>"

definition clean_message :: "Message \<Rightarrow> Message" where
  "clean_message m = m\<lparr>m_OOB := (m_OOB m)\<lparr>c_len := 0\<rparr>, m_Addr := None, m_N := 0, m_NN := 0\<rparr>"

definition putMessages :: "Message list \<Rightarrow> StdNetBind \<Rightarrow> StdNetBind" where
  "putMessages msgs s = s\<lparr>msgsPool := map clean_message msgs # msgsPool s\<rparr>"

definition getMessages :: "cmsg_lib \<Rightarrow> nat option \<Rightarrow> StdNetBind \<Rightarrow> Message list \<times> StdNetBind" where
  "getMessages lib pick s =
     (let (msgs, pool) = pool_get pick (new_msgs lib) (msgsPool s) in (msgs, s\<lparr>msgsPool := pool\<rparr>))"

section \<open>Errors\<close>

datatype errno = EAFNOSUPPORT | EADDRINUSE | EIO | OtherErrno nat

text \<open>Errors of the package \<open>net\<close>, which wrap an \<open>os.SyscallError\<close> or not; \<open>errors.Is\<close> with an \<open>Errno\<close> looks into it.\<close>

datatype net_err = SyscallError errno | OtherError nat

datatype bind_err = ErrBindAlreadyOpen | Errno errno | NetErr net_err | ErrUDPGSODisabled "net_err option" | ErrControl | ErrOverflow

definition is_errno :: "errno \<Rightarrow> net_err option \<Rightarrow> bool" where
  "is_errno n err = (err = Some (SyscallError n))"

definition errShouldDisableUDPGSO :: "net_err \<Rightarrow> bool" where
  "errShouldDisableUDPGSO err = (case err of SyscallError n \<Rightarrow> n = EIO | OtherError _ \<Rightarrow> False)"

section \<open>Open and Close\<close>

text \<open>What the system answers: the \<open>k\<close>-th call that opens a socket gives the port it is bound to or an error, and the options of
  the socket say whether it segments and coalesces.\<close>

record net_env =
  ne_listen :: "nat \<Rightarrow> bool \<Rightarrow> nat \<Rightarrow> net_err + nat"
  ne_offload :: "Conn \<Rightarrow> bool \<times> bool"
  ne_close :: "Conn \<Rightarrow> net_err option"

text \<open>An error of \<open>ListenPacket\<close> or of \<open>ResolveUDPAddr\<close> is returned with port 0.\<close>

definition listenNet :: "net_env \<Rightarrow> nat \<Rightarrow> bool \<Rightarrow> nat \<Rightarrow> Conn option \<times> nat \<times> net_err option" where
  "listenNet e k is6 port =
     (case ne_listen e k is6 port of
        Inl err \<Rightarrow> (None, 0, Some err)
      | Inr p \<Rightarrow> (Some \<lparr>co_is6 = is6, co_port = p\<rparr>, p, None))"

text \<open>The label \<open>again\<close>: both sockets, with up to 100 retries while the port is chosen by the system.\<close>

function open_again :: "net_env \<Rightarrow> nat \<Rightarrow> nat \<Rightarrow> bind_err + (Conn option \<times> Conn option \<times> nat)" where
  "open_again e uport tries =
     (let (v4conn, port, err) = listenNet e (2 * tries) False uport
      in if err \<noteq> None \<and> \<not> is_errno EAFNOSUPPORT err then Inl (NetErr (the err))
         else
           let (v6conn, port, err) = listenNet e (2 * tries + 1) True port
           in if uport = 0 \<and> is_errno EADDRINUSE err \<and> tries < 100 then open_again e uport (tries + 1)
              else if err \<noteq> None \<and> \<not> is_errno EAFNOSUPPORT err then Inl (NetErr (the err))
              else Inr (v4conn, v6conn, port))"
  by pat_completeness auto

termination
  by (relation "measure (\<lambda>(e, uport, tries). 100 - tries)") auto

declare open_again.simps [simp del]

text \<open>The receive functions of the result: \<open>makeReceiveIPv4\<close> and \<open>makeReceiveIPv6\<close> bind the socket and its offload.\<close>

datatype ReceiveFunc = ReceiveIPv4 bool | ReceiveIPv6 bool

definition open_ipv4 :: "net_env \<Rightarrow> Conn option \<Rightarrow> StdNetBind \<Rightarrow> ReceiveFunc list \<times> StdNetBind" where
  "open_ipv4 e conn s =
     (case conn of
        None \<Rightarrow> ([], s)
      | Some c \<Rightarrow>
          let (tx, rx) = ne_offload e c
          in ([ReceiveIPv4 rx], s\<lparr>ipv4TxOffload := tx, ipv4RxOffload := rx, b_ipv4PC := Some c, b_ipv4 := Some c\<rparr>))"

definition open_ipv6 :: "net_env \<Rightarrow> Conn option \<Rightarrow> StdNetBind \<Rightarrow> ReceiveFunc list \<times> StdNetBind" where
  "open_ipv6 e conn s =
     (case conn of
        None \<Rightarrow> ([], s)
      | Some c \<Rightarrow>
          let (tx, rx) = ne_offload e c
          in ([ReceiveIPv6 rx], s\<lparr>ipv6TxOffload := tx, ipv6RxOffload := rx, b_ipv6PC := Some c, b_ipv6 := Some c\<rparr>))"

definition StdNetBind_Open :: "net_env \<Rightarrow> u16 \<Rightarrow> StdNetBind \<Rightarrow> (bind_err + (ReceiveFunc list \<times> u16)) \<times> StdNetBind" where
  "StdNetBind_Open e uport s =
     (if b_ipv4 s \<noteq> None \<or> b_ipv6 s \<noteq> None then (Inl ErrBindAlreadyOpen, s)
      else
        case open_again e (unat uport) 0 of
          Inl err \<Rightarrow> (Inl err, s)
        | Inr (v4conn, v6conn, port) \<Rightarrow>
            let (fns4, s) = open_ipv4 e v4conn s;
                (fns6, s) = open_ipv6 e v6conn s;
                fns = fns4 @ fns6
            in if length fns = 0 then (Inl (Errno EAFNOSUPPORT), s) else (Inr (fns, of_nat port), s))"

definition StdNetBind_Close :: "net_env \<Rightarrow> StdNetBind \<Rightarrow> net_err option \<times> StdNetBind" where
  "StdNetBind_Close e s =
     (let (err1, s) = (case b_ipv4 s of None \<Rightarrow> (None, s) | Some c \<Rightarrow> (ne_close e c, s\<lparr>b_ipv4 := None, b_ipv4PC := None\<rparr>));
          (err2, s) = (case b_ipv6 s of None \<Rightarrow> (None, s) | Some c \<Rightarrow> (ne_close e c, s\<lparr>b_ipv6 := None, b_ipv6PC := None\<rparr>));
          s = s\<lparr>blackhole4 := False, blackhole6 := False, ipv4TxOffload := False, ipv4RxOffload := False,
                ipv6TxOffload := False, ipv6RxOffload := False\<rparr>
      in (if err1 \<noteq> None then err1 else err2, s))"

definition StdNetBind_BatchSize :: nat where
  "StdNetBind_BatchSize = IdealBatchSize"

section \<open>Coalescing of datagrams\<close>

definition maxIPv4PayloadLen :: nat where "maxIPv4PayloadLen = 65507"
definition maxIPv6PayloadLen :: nat where "maxIPv6PayloadLen = 65527"
definition udpSegmentMaxDatagrams :: nat where "udpSegmentMaxDatagrams = 64"

definition Is6 :: "Addr \<Rightarrow> bool" where
  "Is6 a = (case a of Addr6 _ \<Rightarrow> True | _ \<Rightarrow> False)"

text \<open>The variables of the loop of \<open>coalesceMessages\<close>.\<close>

record batch_state =
  bs_base :: int
  bs_gsoSize :: nat
  bs_dgramCnt :: nat
  bs_endBatch :: bool
  bs_msgs :: "Message list"

definition upd_msg :: "int \<Rightarrow> (Message \<Rightarrow> Message) \<Rightarrow> Message list \<Rightarrow> Message list option" where
  "upd_msg i f msgs = (if 0 \<le> i then do { m \<leftarrow> idx (nat i) msgs; Some (msgs[nat i := f m]) } else None)"

definition batch_start :: "(u16 \<Rightarrow> control \<Rightarrow> control) \<Rightarrow> UDPAddr \<Rightarrow> Endpoint \<Rightarrow> gro_buf \<Rightarrow> batch_state \<Rightarrow> batch_state option" where
  "batch_start setGSO addr ep buf s = do {
     msgs \<leftarrow> (if bs_dgramCnt s > 1
              then upd_msg (bs_base s) (\<lambda>m. m\<lparr>m_OOB := setGSO (of_nat (bs_gsoSize s)) (m_OOB m)\<rparr>) (bs_msgs s)
              else Some (bs_msgs s));
     msgs \<leftarrow> upd_msg (bs_base s + 1) (\<lambda>m. m\<lparr>m_OOB := setSrcControl ep (m_OOB m), m_Buffer := buf, m_Addr := Some addr\<rparr>) msgs;
     Some \<lparr>bs_base = bs_base s + 1, bs_gsoSize = length (gb_data buf), bs_dgramCnt = 1, bs_endBatch = False, bs_msgs = msgs\<rparr>
   }"

definition batch_append :: "(u16 \<Rightarrow> control \<Rightarrow> control) \<Rightarrow> bool \<Rightarrow> gro_buf \<Rightarrow> batch_state \<Rightarrow> batch_state option" where
  "batch_append setGSO isLast buf s = do {
     msgs \<leftarrow> upd_msg (bs_base s)
       (\<lambda>m. m\<lparr>m_Buffer := (m_Buffer m)\<lparr>gb_data := gb_data (m_Buffer m) @ gb_data buf\<rparr>,
              m_OOB := if isLast then setGSO (of_nat (bs_gsoSize s)) (m_OOB m) else m_OOB m\<rparr>) (bs_msgs s);
     Some (s\<lparr>bs_msgs := msgs, bs_dgramCnt := bs_dgramCnt s + 1,
             bs_endBatch := bs_endBatch s \<or> length (gb_data buf) < bs_gsoSize s\<rparr>)
   }"

definition batch_fits :: "nat \<Rightarrow> gro_buf \<Rightarrow> Message \<Rightarrow> batch_state \<Rightarrow> bool" where
  "batch_fits maxPayloadLen buf m s =
     (let msgLen = length (gb_data buf);
          baseLenBefore = length (gb_data (m_Buffer m));
          freeBaseCap = int (gb_cap (m_Buffer m)) - int baseLenBefore
      in msgLen + baseLenBefore \<le> maxPayloadLen \<and> msgLen \<le> bs_gsoSize s \<and> int msgLen \<le> freeBaseCap
         \<and> bs_dgramCnt s < udpSegmentMaxDatagrams \<and> \<not> bs_endBatch s)"

fun coalesce_loop ::
  "(u16 \<Rightarrow> control \<Rightarrow> control) \<Rightarrow> nat \<Rightarrow> UDPAddr \<Rightarrow> Endpoint \<Rightarrow> nat \<Rightarrow> gro_buf list \<Rightarrow> batch_state \<Rightarrow> batch_state option" where
  "coalesce_loop setGSO maxPayloadLen addr ep i [] s = Some s"
| "coalesce_loop setGSO maxPayloadLen addr ep i (buf # bufs) s = do {
     s \<leftarrow> (if i > 0 then do {
              m \<leftarrow> (if 0 \<le> bs_base s then idx (nat (bs_base s)) (bs_msgs s) else None);
              if batch_fits maxPayloadLen buf m s then batch_append setGSO (bufs = []) buf s
              else batch_start setGSO addr ep buf s }
            else batch_start setGSO addr ep buf s);
     coalesce_loop setGSO maxPayloadLen addr ep (i + 1) bufs s
   }"

definition coalesceMessages ::
  "UDPAddr \<Rightarrow> Endpoint \<Rightarrow> gro_buf list \<Rightarrow> Message list \<Rightarrow> (u16 \<Rightarrow> control \<Rightarrow> control) \<Rightarrow> (nat \<times> Message list) option" where
  "coalesceMessages addr ep bufs msgs setGSO =
     (let maxPayloadLen = (if Is6 (DstIP ep) then maxIPv6PayloadLen else maxIPv4PayloadLen)
      in do {
        s \<leftarrow> coalesce_loop setGSO maxPayloadLen addr ep 0 bufs
               \<lparr>bs_base = - 1, bs_gsoSize = 0, bs_dgramCnt = 0, bs_endBatch = False, bs_msgs = msgs\<rparr>;
        Some (nat (bs_base s + 1), bs_msgs s)
      })"

section \<open>Sending\<close>

text \<open>The socket: \<open>WriteBatch\<close>, by the number of the call, gives the number of messages it takes and an error; \<open>w_log\<close> records the
  messages taken so far.\<close>

record wire =
  w_calls :: nat
  w_log :: "Message list"

partial_function (option) bind_send ::
  "(nat \<Rightarrow> Message list \<Rightarrow> nat \<times> net_err option) \<Rightarrow> Message list \<Rightarrow> wire \<Rightarrow> (net_err option \<times> wire) option" where
  "bind_send W msgs w =
     (let (n, err) = W (w_calls w) msgs;
          w = w\<lparr>w_calls := w_calls w + 1, w_log := w_log w @ take n msgs\<rparr>
      in if err \<noteq> None \<or> n = length msgs then Some (err, w)
         else if n \<le> length msgs then bind_send W (drop n msgs) w
         else None)"

text \<open>The address for \<open>WriteBatch\<close>, written into one of the pool: \<open>copy\<close> into \<open>IP\<close>, then \<open>IP\<close> is cut to the length of the address.\<close>

definition set_addr :: "Endpoint \<Rightarrow> UDPAddr \<Rightarrow> UDPAddr option" where
  "set_addr ep ua =
     (case DstIP ep of
        Addr6 as16 \<Rightarrow>
          if 16 \<le> length (ua_arr ua)
          then Some (ua\<lparr>ua_arr := put_at 0 as16 (take (ua_len ua) (ua_arr ua)) @ drop (ua_len ua) (ua_arr ua), ua_len := 16,
                        ua_Port := unat (ep_port ep)\<rparr>)
          else None
      | Addr4 as4 \<Rightarrow>
          if 4 \<le> length (ua_arr ua)
          then Some (ua\<lparr>ua_arr := put_at 0 as4 (take (ua_len ua) (ua_arr ua)) @ drop (ua_len ua) (ua_arr ua), ua_len := 4,
                        ua_Port := unat (ep_port ep)\<rparr>)
          else None
      | NoAddr \<Rightarrow> None)"

text \<open>The messages without offload, one for each buffer.\<close>

fun single_msgs :: "UDPAddr \<Rightarrow> Endpoint \<Rightarrow> gro_buf list \<Rightarrow> Message list \<Rightarrow> Message list option" where
  "single_msgs ua ep [] msgs = Some msgs"
| "single_msgs ua ep (buf # bufs) [] = None"
| "single_msgs ua ep (buf # bufs) (m # msgs) = do {
     msgs \<leftarrow> single_msgs ua ep bufs msgs;
     Some (m\<lparr>m_Addr := Some ua, m_Buffer := buf, m_OOB := setSrcControl ep (m_OOB m)\<rparr> # msgs)
   }"

definition send_singly ::
  "(nat \<Rightarrow> Message list \<Rightarrow> nat \<times> net_err option) \<Rightarrow> UDPAddr \<Rightarrow> Endpoint \<Rightarrow> gro_buf list \<Rightarrow> Message list \<Rightarrow> wire
     \<Rightarrow> (net_err option \<times> Message list \<times> wire) option" where
  "send_singly W ua ep bufs msgs w = do {
     msgs \<leftarrow> single_msgs ua ep bufs msgs;
     (err, w) \<leftarrow> bind_send W (take (length bufs) msgs) w;
     Some (err, msgs, w)
   }"

text \<open>The label \<open>retry\<close>: the result says whether offload was turned off.\<close>

definition send_offload ::
  "cmsg_lib \<Rightarrow> (nat \<Rightarrow> Message list \<Rightarrow> nat \<times> net_err option) \<Rightarrow> UDPAddr \<Rightarrow> Endpoint \<Rightarrow> gro_buf list \<Rightarrow> Message list \<Rightarrow> wire
     \<Rightarrow> (bool \<times> net_err option \<times> Message list \<times> wire) option" where
  "send_offload lib W ua ep bufs msgs w = do {
     (n, msgs) \<leftarrow> coalesceMessages ua ep bufs msgs (setGSOSize lib);
     (err, w) \<leftarrow> bind_send W (take n msgs) w;
     if (case err of None \<Rightarrow> False | Some e \<Rightarrow> errShouldDisableUDPGSO e) then do {
       (err, msgs, w) \<leftarrow> send_singly W ua ep bufs msgs w;
       Some (True, err, msgs, w) }
     else Some (False, err, msgs, w)
   }"

definition disableTxOffload :: "bool \<Rightarrow> StdNetBind \<Rightarrow> StdNetBind" where
  "disableTxOffload is6 s = (if is6 then s\<lparr>ipv6TxOffload := False\<rparr> else s\<lparr>ipv4TxOffload := False\<rparr>)"

text \<open>\<open>pick\<close> and \<open>pick'\<close> are the choices of the two pools.\<close>

definition StdNetBind_Send ::
  "cmsg_lib \<Rightarrow> (nat \<Rightarrow> Message list \<Rightarrow> nat \<times> net_err option) \<Rightarrow> nat option \<Rightarrow> nat option \<Rightarrow> gro_buf list \<Rightarrow> Endpoint
     \<Rightarrow> StdNetBind \<Rightarrow> wire \<Rightarrow> (bind_err option \<times> StdNetBind \<times> wire) option" where
  "StdNetBind_Send lib W pick pick' bufs ep s w =
     (let is6 = Is6 (DstIP ep);
          blackhole = (if is6 then blackhole6 s else blackhole4 s);
          conn = (if is6 then b_ipv6 s else b_ipv4 s);
          offload = (if is6 then ipv6TxOffload s else ipv4TxOffload s)
      in if blackhole then Some (None, s, w)
         else if conn = None then Some (Some (Errno EAFNOSUPPORT), s, w)
         else
           let (msgs, s) = getMessages lib pick s;
               (ua, pool) = pool_get pick' new_UDPAddr (udpAddrPool s);
               s = s\<lparr>udpAddrPool := pool\<rparr>
           in do {
             ua \<leftarrow> set_addr ep ua;
             (retried, err, msgs, w) \<leftarrow>
               (if offload then send_offload lib W ua ep bufs msgs w
                else do { (err, msgs, w) \<leftarrow> send_singly W ua ep bufs msgs w; Some (False, err, msgs, w) });
             let s = (if retried then disableTxOffload is6 s else s);
                 s = putMessages msgs (s\<lparr>udpAddrPool := ua # udpAddrPool s\<rparr>)
             in Some (if retried then Some (ErrUDPGSODisabled err) else map_option NetErr err, s, w)
           })"

section \<open>Receiving\<close>

text \<open>One step of the inner loop of \<open>splitCoalescedMessages\<close>: the bytes \<open>start\<close> to \<open>stop\<close> of message \<open>i\<close> go to message \<open>n\<close>.\<close>

definition split_copy :: "nat \<Rightarrow> nat \<Rightarrow> nat \<Rightarrow> nat \<Rightarrow> Message list \<Rightarrow> Message list option" where
  "split_copy i n start stop msgs = do {
     msg \<leftarrow> idx i msgs;
     m \<leftarrow> idx n msgs;
     seg \<leftarrow> slice_at start stop (gb_data (m_Buffer msg));
     Some (msgs[n := m\<lparr>m_Buffer := (m_Buffer m)\<lparr>gb_data := put_at 0 seg (gb_data (m_Buffer m))\<rparr>,
                       m_N := min (length (gb_data (m_Buffer m))) (length seg), m_Addr := m_Addr msg\<rparr>])
   }"

fun split_segments :: "nat \<Rightarrow> nat \<Rightarrow> nat \<Rightarrow> nat \<Rightarrow> nat \<Rightarrow> nat \<Rightarrow> Message list \<Rightarrow> (bool \<times> nat \<times> Message list) option" where
  "split_segments i gsoSize 0 start stop n msgs = Some (True, n, msgs)"
| "split_segments i gsoSize (Suc j) start stop n msgs =
     (if n > i then Some (False, n, msgs)
      else do {
        msgs \<leftarrow> split_copy i n start stop msgs;
        msg \<leftarrow> idx i msgs;
        split_segments i gsoSize j stop (min (stop + gsoSize) (m_N msg)) (n + 1) msgs
      })"

fun split_loop ::
  "(bytes \<Rightarrow> (unit + nat) option) \<Rightarrow> nat \<Rightarrow> nat \<Rightarrow> nat \<Rightarrow> Message list \<Rightarrow> (bind_err option \<times> nat \<times> Message list) option" where
  "split_loop getGSO 0 i n msgs = Some (None, n, msgs)"
| "split_loop getGSO (Suc k) i n msgs = do {
     msg \<leftarrow> idx i msgs;
     if m_N msg = 0 then Some (None, n, msgs)
     else do {
       oob \<leftarrow> slice_at 0 (m_NN msg) (c_bytes (m_OOB msg));
       r \<leftarrow> getGSO oob;
       case r of
         Inl _ \<Rightarrow> Some (Some ErrControl, n, msgs)
       | Inr gsoSize \<Rightarrow>
           let numToSplit = (if gsoSize > 0 then (m_N msg + gsoSize - 1) div gsoSize else 1);
               stop = (if gsoSize > 0 then gsoSize else m_N msg)
           in do {
             (fits, n, msgs) \<leftarrow> split_segments i gsoSize numToSplit 0 stop n msgs;
             if \<not> fits then Some (Some ErrOverflow, n, msgs)
             else do {
               msg \<leftarrow> idx i msgs;
               split_loop getGSO k (i + 1) n (if i + 1 \<noteq> n then msgs[i := msg\<lparr>m_N := 0\<rparr>] else msgs)
             }
           }
     }
   }"

definition splitCoalescedMessages ::
  "Message list \<Rightarrow> nat \<Rightarrow> (bytes \<Rightarrow> (unit + nat) option) \<Rightarrow> (bind_err option \<times> nat \<times> Message list) option" where
  "splitCoalescedMessages msgs firstMsgAt getGSO = split_loop getGSO (length msgs - firstMsgAt) firstMsgAt 0 msgs"

text \<open>The buffers of the caller are put into the messages, whose control buffers are opened to their capacity.\<close>

fun lend_buffers :: "gro_buf list \<Rightarrow> Message list \<Rightarrow> Message list option" where
  "lend_buffers [] msgs = Some msgs"
| "lend_buffers (buf # bufs) [] = None"
| "lend_buffers (buf # bufs) (m # msgs) = do {
     msgs \<leftarrow> lend_buffers bufs msgs;
     Some (m\<lparr>m_Buffer := buf, m_OOB := (m_OOB m)\<lparr>c_len := length (c_arr (m_OOB m))\<rparr>\<rparr> # msgs)
   }"

definition AddrPort_endpoint :: "UDPAddr \<Rightarrow> Endpoint" where
  "AddrPort_endpoint ua = \<lparr>ep_addr = AddrFromSlice (ua_IP ua), ep_port = of_nat (ua_Port ua), ep_src = []\<rparr>"

text \<open>The last loop of \<open>receiveIP\<close>: the sizes and endpoints of the first \<open>numMsgs\<close> messages.\<close>

fun report_msgs ::
  "cmsg_lib \<Rightarrow> nat \<Rightarrow> nat \<Rightarrow> Message list \<Rightarrow> nat list \<Rightarrow> Endpoint option list \<Rightarrow> (nat list \<times> Endpoint option list) option" where
  "report_msgs lib 0 i msgs sizes eps = Some (sizes, eps)"
| "report_msgs lib (Suc k) i msgs sizes eps = do {
     msg \<leftarrow> idx i msgs;
     sizes \<leftarrow> store i (m_N msg) sizes;
     if m_N msg = 0 then report_msgs lib k (i + 1) msgs sizes eps
     else do {
       addr \<leftarrow> m_Addr msg;
       oob \<leftarrow> slice_at 0 (m_NN msg) (c_bytes (m_OOB msg));
       ep \<leftarrow> getSrcFromControl lib oob (AddrPort_endpoint addr);
       eps \<leftarrow> store i (Some ep) eps;
       report_msgs lib k (i + 1) msgs sizes eps
     }
   }"

record received =
  rc_bufs :: "gro_buf list"
  rc_sizes :: "nat list"
  rc_eps :: "Endpoint option list"

text \<open>\<open>ReadBatch\<close> fills the messages it is given; without offload the number of messages read counts, with it the split finds them by
  their sizes.\<close>

definition read_msgs ::
  "cmsg_lib \<Rightarrow> (Message list \<Rightarrow> net_err + (nat \<times> Message list)) \<Rightarrow> bool \<Rightarrow> Message list
     \<Rightarrow> (bind_err option \<times> nat \<times> Message list) option" where
  "read_msgs lib R rxOffload msgs =
     (if rxOffload then
        let readAt = length msgs - IdealBatchSize div udpSegmentMaxDatagrams
        in case R (drop readAt msgs) of
             Inl err \<Rightarrow> Some (Some (NetErr err), 0, msgs)
           | Inr (_, ms) \<Rightarrow> splitCoalescedMessages (take readAt msgs @ ms) readAt (getGSOSize lib)
      else case R msgs of
             Inl err \<Rightarrow> Some (Some (NetErr err), 0, msgs)
           | Inr (n, msgs) \<Rightarrow> Some (None, n, msgs))"

definition receiveIP ::
  "cmsg_lib \<Rightarrow> (Message list \<Rightarrow> net_err + (nat \<times> Message list)) \<Rightarrow> nat option \<Rightarrow> bool \<Rightarrow> received \<Rightarrow> StdNetBind
     \<Rightarrow> (nat \<times> bind_err option \<times> received \<times> StdNetBind) option" where
  "receiveIP lib R pick rxOffload rc s =
     (let (msgs, s) = getMessages lib pick s
      in do {
        msgs \<leftarrow> lend_buffers (rc_bufs rc) msgs;
        (err, numMsgs, msgs) \<leftarrow> read_msgs lib R rxOffload msgs;
        let rc = rc\<lparr>rc_bufs := map m_Buffer (take (length (rc_bufs rc)) msgs)\<rparr>
        in if err \<noteq> None then Some (0, err, rc, putMessages msgs s)
           else do {
             (sizes, eps) \<leftarrow> report_msgs lib numMsgs 0 msgs (rc_sizes rc) (rc_eps rc);
             Some (numMsgs, None, rc\<lparr>rc_sizes := sizes, rc_eps := eps\<rparr>, putMessages msgs s)
           }
      })"

text \<open>A receive function keeps the offload of its socket from the time it was made.\<close>

definition call_ReceiveFunc ::
  "cmsg_lib \<Rightarrow> (Message list \<Rightarrow> net_err + (nat \<times> Message list)) \<Rightarrow> nat option \<Rightarrow> ReceiveFunc \<Rightarrow> received \<Rightarrow> StdNetBind
     \<Rightarrow> (nat \<times> bind_err option \<times> received \<times> StdNetBind) option" where
  "call_ReceiveFunc lib R pick f rc s =
     (case f of
        ReceiveIPv4 rxOffload \<Rightarrow> receiveIP lib R pick rxOffload rc s
      | ReceiveIPv6 rxOffload \<Rightarrow> receiveIP lib R pick rxOffload rc s)"

end
