(* ===== verification/BindSend.thy ===== *)
theory BindSend
  imports Bind
begin

text \<open>
  Sending through the bind: the loop of \<open>send\<close> ends and hands every message to the socket once, \<open>coalesceMessages\<close> packs the buffers
  into batches the kernel cuts back into the same datagrams, and \<open>Send\<close> composes the two, with the retry without offload.
\<close>

section \<open>The loop of send\<close>

text \<open>What \<open>WriteBatch\<close> promises: it takes a prefix of the messages, and without an error at least one of them.\<close>

definition WriteBatch_progress :: "(nat \<Rightarrow> Message list \<Rightarrow> nat \<times> net_err option) \<Rightarrow> bool" where
  "WriteBatch_progress W \<longleftrightarrow>
     (\<forall>k ms. fst (W k ms) \<le> length ms \<and> (ms \<noteq> [] \<and> snd (W k ms) = None \<longrightarrow> 0 < fst (W k ms)))"

lemma bind_send_takes_prefix:
  assumes "WriteBatch_progress W"
  shows "\<exists>err w' j. bind_send W msgs w = Some (err, w') \<and> j \<le> length msgs \<and> w_log w' = w_log w @ take j msgs
           \<and> (err = None \<longrightarrow> j = length msgs) \<and> w_calls w' \<le> w_calls w + max 1 (length msgs)"
proof (induction "length msgs" arbitrary: msgs w rule: less_induct)
  case less
  obtain n err where W: "W (w_calls w) msgs = (n, err)" by fastforce
  have n: "n \<le> length msgs" "msgs \<noteq> [] \<and> err = None \<Longrightarrow> 0 < n"
    using assms W unfolding WriteBatch_progress_def by (metis fst_conv, metis fst_conv snd_conv)
  let ?w = "w\<lparr>w_calls := w_calls w + 1, w_log := w_log w @ take n msgs\<rparr>"
  show ?case
  proof (cases "err \<noteq> None \<or> n = length msgs")
    case True
    then have s: "bind_send W msgs w = Some (err, ?w)" by (subst bind_send.simps) (simp add: W)
    show ?thesis
      using True n(1) by (intro exI [of _ err] exI [of _ ?w] exI [of _ n]) (auto simp: s)
  next
    case False
    then have e: "err = None" "msgs \<noteq> []" using n by auto
    then have lt: "0 < n" "n < length msgs" using n False by auto
    then have "length (drop n msgs) < length msgs" by simp
    from less.hyps [OF this, of ?w] obtain err' w' j where
      r: "bind_send W (drop n msgs) ?w = Some (err', w')" "j \<le> length (drop n msgs)" "w_log w' = w_log ?w @ take j (drop n msgs)"
        "err' = None \<longrightarrow> j = length (drop n msgs)" "w_calls w' \<le> w_calls ?w + max 1 (length (drop n msgs))"
      by blast
    have s: "bind_send W msgs w = Some (err', w')" using False lt r(1) by (subst bind_send.simps) (simp add: W)
    show ?thesis
      using r lt by (intro exI [of _ err'] exI [of _ w'] exI [of _ "n + j"]) (auto simp: s take_add)
  qed
qed

section \<open>Batches\<close>

text \<open>What the kernel accepts as one message: at most 64 datagrams of the length of the first, of which the last may be shorter, and
  not more bytes than a datagram may have.\<close>

definition good_batch :: "nat \<Rightarrow> gro_buf list \<Rightarrow> bool" where
  "good_batch maxLen g \<longleftrightarrow>
     g \<noteq> [] \<and> length g \<le> udpSegmentMaxDatagrams
     \<and> (\<forall>b \<in> set (butlast g). length (gb_data b) = length (gb_data (hd g)))
     \<and> length (gb_data (last g)) \<le> length (gb_data (hd g))
     \<and> (1 < length g \<longrightarrow> length (concat (map gb_data g)) \<le> min maxLen (gb_cap (hd g)))"

definition batch_msg :: "(u16 \<Rightarrow> control \<Rightarrow> control) \<Rightarrow> UDPAddr \<Rightarrow> Endpoint \<Rightarrow> bool \<Rightarrow> gro_buf list \<Rightarrow> Message \<Rightarrow> Message" where
  "batch_msg setGSO addr ep marked g m =
     m\<lparr>m_Buffer := (hd g)\<lparr>gb_data := concat (map gb_data g)\<rparr>,
       m_OOB := (if marked \<and> 1 < length g then setGSO (of_nat (length (gb_data (hd g)))) else id) (setSrcControl ep (m_OOB m)),
       m_Addr := Some addr\<rparr>"

definition batch_msgs :: "(u16 \<Rightarrow> control \<Rightarrow> control) \<Rightarrow> UDPAddr \<Rightarrow> Endpoint \<Rightarrow> gro_buf list list \<Rightarrow> Message list \<Rightarrow> Message list" where
  "batch_msgs setGSO addr ep gs msgs = map2 (batch_msg setGSO addr ep True) gs (take (length gs) msgs)"

lemma length_batch_msgs [simp]: "length gs \<le> length msgs \<Longrightarrow> length (batch_msgs setGSO addr ep gs msgs) = length gs"
  by (simp add: batch_msgs_def)

lemma batch_msgs_snoc:
  "length A = length gs \<Longrightarrow> batch_msgs setGSO addr ep (gs @ [g]) (A @ m # B) = batch_msgs setGSO addr ep gs A @ [batch_msg setGSO addr ep True g m]"
  by (simp add: batch_msgs_def)

lemma batch_msgs_append [simp]:
  "length A = length gs \<Longrightarrow> batch_msgs setGSO addr ep gs (A @ B) = batch_msgs setGSO addr ep gs A"
  by (simp add: batch_msgs_def)

text \<open>The state of the loop while the batch \<open>g\<close> is open.\<close>

definition open_state ::
  "(u16 \<Rightarrow> control \<Rightarrow> control) \<Rightarrow> UDPAddr \<Rightarrow> Endpoint \<Rightarrow> gro_buf list list \<Rightarrow> gro_buf list \<Rightarrow> Message list \<Rightarrow> Message \<Rightarrow> Message list
     \<Rightarrow> batch_state" where
  "open_state setGSO addr ep gs g A m B =
     \<lparr>bs_base = int (length gs), bs_gsoSize = length (gb_data (hd g)), bs_dgramCnt = length g,
      bs_endBatch = (length (gb_data (last g)) < length (gb_data (hd g))),
      bs_msgs = batch_msgs setGSO addr ep gs A @ batch_msg setGSO addr ep False g m # B\<rparr>"

lemma upd_msg_at:
  "i = int (length xs) \<Longrightarrow> upd_msg i f (xs @ y # ys) = Some (xs @ f y # ys)"
  by (simp add: upd_msg_def idx_def)

lemma batch_append_open:
  assumes "length A = length gs" "g \<noteq> []" "\<not> length (gb_data (last g)) < length (gb_data (hd g))"
  shows "batch_append setGSO isLast buf (open_state setGSO addr ep gs g A m B)
    = Some ((open_state setGSO addr ep gs (g @ [buf]) A m B)
        \<lparr>bs_msgs := batch_msgs setGSO addr ep gs A @ batch_msg setGSO addr ep isLast (g @ [buf]) m # B\<rparr>)"
  using assms by (auto simp: batch_append_def open_state_def upd_msg_at batch_msg_def)

lemma batch_start_open:
  assumes "length A = length gs" "g \<noteq> []"
  shows "batch_start setGSO addr ep buf (open_state setGSO addr ep gs g A m (m' # B))
    = Some (open_state setGSO addr ep (gs @ [g]) [buf] (A @ [m]) m' B)"
proof -
  let ?xs = "batch_msgs setGSO addr ep gs A"
  have 1: "(if 1 < length g then upd_msg (int (length gs)) (\<lambda>m. m\<lparr>m_OOB := setGSO (of_nat (length (gb_data (hd g)))) (m_OOB m)\<rparr>)
              (?xs @ batch_msg setGSO addr ep False g m # m' # B) else Some (?xs @ batch_msg setGSO addr ep False g m # m' # B))
    = Some (?xs @ batch_msg setGSO addr ep True g m # m' # B)"
    using assms by (auto simp: upd_msg_at batch_msg_def)
  have 2: "upd_msg (int (length gs) + 1) f ((?xs @ [x]) @ m' # B) = Some ((?xs @ [x]) @ f m' # B)" for f x
    by (rule upd_msg_at) (use assms in simp)
  have 3: "batch_msg setGSO addr ep False [buf] m'
      = m'\<lparr>m_OOB := setSrcControl ep (m_OOB m'), m_Buffer := buf, m_Addr := Some addr\<rparr>"
    by (simp add: batch_msg_def)
  have "batch_start setGSO addr ep buf (open_state setGSO addr ep gs g A m (m' # B)) =
      Some \<lparr>bs_base = int (length gs) + 1, bs_gsoSize = length (gb_data buf), bs_dgramCnt = 1, bs_endBatch = False,
        bs_msgs = (?xs @ [batch_msg setGSO addr ep True g m]) @ batch_msg setGSO addr ep False [buf] m' # B\<rparr>"
    unfolding batch_start_def open_state_def batch_state.simps 1 3
    using 2 [of _ "batch_msg setGSO addr ep True g m"] by simp
  then show ?thesis using assms by (simp add: open_state_def batch_msgs_snoc)
qed

lemma good_batch_snoc:
  assumes "good_batch L g" "batch_fits L buf (batch_msg setGSO addr ep False g m) (open_state setGSO addr ep gs g A m B)"
  shows "good_batch L (g @ [buf])" "\<not> length (gb_data (last g)) < length (gb_data (hd g))"
proof -
  show e: "\<not> length (gb_data (last g)) < length (gb_data (hd g))"
    using assms(2) by (auto simp: batch_fits_def open_state_def Let_def)
  have "set g = insert (last g) (set (butlast g))"
    using assms(1) unfolding good_batch_def by (metis append_butlast_last_id list.simps(15) rotate1.simps(2) set_rotate1)
  then show "good_batch L (g @ [buf])"
    using assms e by (auto simp: batch_fits_def open_state_def Let_def good_batch_def batch_msg_def udpSegmentMaxDatagrams_def)
qed

lemma good_batch_single [simp]: "good_batch L [buf]"
  by (simp add: good_batch_def udpSegmentMaxDatagrams_def)

lemma coalesce_loop_batches:
  assumes "length A = length gs" "good_batch L g" "\<forall>x \<in> set gs. good_batch L x" "0 < i" "length bufs \<le> length B" "bufs \<noteq> [] \<or> length g = 1"
  shows "\<exists>s gs'. coalesce_loop setGSO L addr ep i bufs (open_state setGSO addr ep gs g A m B) = Some s
    \<and> bs_base s = int (length gs') - 1 \<and> length gs' \<le> length (A @ m # B)
    \<and> bs_msgs s = batch_msgs setGSO addr ep gs' (A @ m # B) @ drop (length gs') (A @ m # B)
    \<and> concat gs' = concat gs @ g @ bufs \<and> (\<forall>x \<in> set gs'. good_batch L x)"
  using assms
proof (induction bufs arbitrary: A gs g m B i)
  case Nil
  then have "batch_msg setGSO addr ep False g m = batch_msg setGSO addr ep True g m" by (simp add: batch_msg_def)
  then show ?case
    using Nil by (intro exI [of _ "open_state setGSO addr ep gs g A m B"] exI [of _ "gs @ [g]"])
      (auto simp: open_state_def batch_msgs_snoc)
next
  case (Cons buf bufs)
  let ?s = "open_state setGSO addr ep gs g A m B"
  have g: "g \<noteq> []" using Cons.prems(2) by (simp add: good_batch_def)
  have look: "0 \<le> bs_base ?s" "idx (nat (bs_base ?s)) (bs_msgs ?s) = Some (batch_msg setGSO addr ep False g m)"
    using Cons.prems(1) by (auto simp: open_state_def idx_def nth_append)
  show ?case
  proof (cases "batch_fits L buf (batch_msg setGSO addr ep False g m) ?s")
    case True
    note gb = good_batch_snoc [OF Cons.prems(2) True]
    note ap = batch_append_open [OF Cons.prems(1) g gb(2), of setGSO "bufs = []" buf addr ep m B]
    show ?thesis
    proof (cases "bufs = []")
      case last: True
      show ?thesis
        using Cons.prems gb(1) look True ap last
        by (intro exI [of _ "(open_state setGSO addr ep gs (g @ [buf]) A m B)
              \<lparr>bs_msgs := batch_msgs setGSO addr ep gs A @ batch_msg setGSO addr ep True (g @ [buf]) m # B\<rparr>"]
            exI [of _ "gs @ [g @ [buf]]"]) (auto simp: batch_msgs_snoc open_state_def)
    next
      case False
      have eq: "(open_state setGSO addr ep gs (g @ [buf]) A m B)
          \<lparr>bs_msgs := batch_msgs setGSO addr ep gs A @ batch_msg setGSO addr ep False (g @ [buf]) m # B\<rparr>
          = open_state setGSO addr ep gs (g @ [buf]) A m B"
        by (simp add: open_state_def)
      have step: "coalesce_loop setGSO L addr ep i (buf # bufs) ?s
          = coalesce_loop setGSO L addr ep (i + 1) bufs (open_state setGSO addr ep gs (g @ [buf]) A m B)"
        using Cons.prems(4) look True ap False eq by simp
      show ?thesis
        unfolding step using Cons.IH [of A gs "g @ [buf]" "i + 1" B m] Cons.prems gb(1) False by auto
    qed
  next
    case False
    obtain m' B' where B: "B = m' # B'" using Cons.prems(5) by (cases B) auto
    have step: "coalesce_loop setGSO L addr ep i (buf # bufs) ?s
        = coalesce_loop setGSO L addr ep (i + 1) bufs (open_state setGSO addr ep (gs @ [g]) [buf] (A @ [m]) m' B')"
      using Cons.prems(1,4) look False g by (simp add: B batch_start_open)
    show ?thesis
      unfolding step using Cons.IH [of "A @ [m]" "gs @ [g]" "[buf]" "i + 1" B' m'] Cons.prems by (auto simp: B)
  qed
qed

definition max_payload :: "Endpoint \<Rightarrow> nat" where
  "max_payload ep = (if Is6 (DstIP ep) then maxIPv6PayloadLen else maxIPv4PayloadLen)"

lemma coalesceMessages_batches:
  assumes "length bufs \<le> length msgs"
  shows "\<exists>gs. coalesceMessages addr ep bufs msgs setGSO
      = Some (length gs, batch_msgs setGSO addr ep gs msgs @ drop (length gs) msgs)
    \<and> length gs \<le> length msgs \<and> concat gs = bufs \<and> (\<forall>g \<in> set gs. good_batch (max_payload ep) g)"
proof (cases bufs)
  case Nil
  then show ?thesis by (intro exI [of _ "[]"]) (simp add: coalesceMessages_def batch_msgs_def)
next
  case (Cons buf bufs')
  then obtain m B where m: "msgs = m # B" using assms by (cases msgs) auto
  let ?s0 = "\<lparr>bs_base = - 1, bs_gsoSize = 0, bs_dgramCnt = 0, bs_endBatch = False, bs_msgs = msgs\<rparr>"
  have st: "batch_start setGSO addr ep buf ?s0 = Some (open_state setGSO addr ep [] [buf] [] m B)"
    by (simp add: batch_start_def m open_state_def batch_msgs_def batch_msg_def upd_msg_def idx_def)
  have "\<exists>s gs'. coalesce_loop setGSO (max_payload ep) addr ep 1 bufs' (open_state setGSO addr ep [] [buf] [] m B) = Some s
    \<and> bs_base s = int (length gs') - 1 \<and> length gs' \<le> length ([] @ m # B)
    \<and> bs_msgs s = batch_msgs setGSO addr ep gs' ([] @ m # B) @ drop (length gs') ([] @ m # B)
    \<and> concat gs' = concat [] @ [buf] @ bufs' \<and> (\<forall>x \<in> set gs'. good_batch (max_payload ep) x)"
    by (rule coalesce_loop_batches) (use assms in \<open>auto simp: Cons m\<close>)
  then obtain s gs where r: "coalesce_loop setGSO (max_payload ep) addr ep 1 bufs' (open_state setGSO addr ep [] [buf] [] m B) = Some s"
    "bs_base s = int (length gs) - 1" "length gs \<le> length msgs" "bs_msgs s = batch_msgs setGSO addr ep gs msgs @ drop (length gs) msgs"
    "concat gs = bufs" "\<forall>x \<in> set gs. good_batch (max_payload ep) x"
    unfolding m Cons by auto
  have "coalesceMessages addr ep bufs msgs setGSO = Some (length gs, bs_msgs s)"
    using r(1,2) st by (simp add: coalesceMessages_def Cons Let_def max_payload_def)
  then show ?thesis using r by auto
qed

section \<open>What the kernel makes of a batch\<close>

function segments :: "nat \<Rightarrow> bytes \<Rightarrow> bytes list" where
  "segments g xs = (if g = 0 \<or> xs = [] then [] else take g xs # segments g (drop g xs))"
  by pat_completeness auto

termination
  by (relation "measure (\<lambda>(g, xs). length xs)") auto

declare segments.simps [simp del]

lemma segments_Nil [simp]: "segments g [] = []"
  by (simp add: segments.simps)

lemma segments_append: "0 < g \<Longrightarrow> length xs = g \<Longrightarrow> segments g (xs @ ys) = xs # segments g ys"
  by (subst segments.simps) auto

lemma segments_short: "xs \<noteq> [] \<Longrightarrow> length xs \<le> g \<Longrightarrow> segments g xs = [xs]"
  by (subst segments.simps) (cases xs; auto)

lemma segments_concat:
  assumes "xss \<noteq> []" "\<forall>xs \<in> set (butlast xss). length xs = g" "length (last xss) \<le> g" "last xss \<noteq> []"
  shows "segments g (concat xss) = xss"
  using assms
proof (induction xss)
  case (Cons xs xss)
  have g: "0 < g" using Cons.prems(3,4) by (cases g) auto
  show ?case
  proof (cases "xss = []")
    case True
    then show ?thesis using Cons.prems by (simp add: segments_short)
  next
    case False
    then show ?thesis using Cons g by (simp add: segments_append)
  qed
qed simp

text \<open>What \<^verbatim>\<open>cmsg(3)\<close> says of control messages: a header, the data and padding up to the alignment.\<close>

definition hdr_ok :: "Cmsghdr \<Rightarrow> bool" where
  "hdr_ok h \<longleftrightarrow> ch_Len h < 2 ^ 31 \<and> ch_Level h < 2 ^ 31 \<and> ch_Type h < 2 ^ 31"

definition cmsg_ok :: "cmsg_lib \<Rightarrow> bool" where
  "cmsg_ok lib \<longleftrightarrow>
     0 < SizeofCmsghdr lib \<and> CmsgLen lib 0 = SizeofCmsghdr lib
     \<and> (\<forall>h. length (hdr_bytes lib h) = SizeofCmsghdr lib)
     \<and> (\<forall>n. CmsgLen lib n = CmsgLen lib 0 + n \<and> CmsgLen lib n \<le> CmsgSpace lib n)
     \<and> (\<forall>n. n < 2 ^ 16 \<longrightarrow> CmsgLen lib n < 2 ^ 31)
     \<and> (\<forall>bs h dat rest. ParseOne lib bs = Some (h, dat, rest) \<longrightarrow> length rest < length bs)
     \<and> (\<forall>h dat pad rest. hdr_ok h \<and> ch_Len h = CmsgLen lib (length dat)
          \<and> length pad = CmsgSpace lib (length dat) - CmsgLen lib (length dat)
          \<longrightarrow> ParseOne lib (hdr_bytes lib h @ dat @ pad @ rest) = Some (h, dat, rest))"

text \<open>The source of an endpoint: nothing, or one control message that is not of UDP.\<close>

definition src_ok :: "cmsg_lib \<Rightarrow> bytes \<Rightarrow> bool" where
  "src_ok lib src \<longleftrightarrow>
     length src \<le> stickyControlSize lib
     \<and> (src = [] \<or> (\<exists>h dat pad. src = hdr_bytes lib h @ dat @ pad \<and> dat \<noteq> [] \<and> hdr_ok h \<and> ch_Level h \<noteq> SOL_UDP
          \<and> ch_Len h = CmsgLen lib (length dat) \<and> length pad = CmsgSpace lib (length dat) - CmsgLen lib (length dat)))"

text \<open>The datagrams of a message: its buffer, cut at the size its control messages ask for.\<close>

definition datagrams :: "cmsg_lib \<Rightarrow> Message \<Rightarrow> bytes list" where
  "datagrams lib m =
     (case find_gso lib UDP_SEGMENT (c_bytes (m_OOB m)) of
        Some (Inr g) \<Rightarrow> if 0 < g then segments g (gb_data (m_Buffer m)) else [gb_data (m_Buffer m)]
      | _ \<Rightarrow> [gb_data (m_Buffer m)])"

lemma cmsg_ok_parse:
  assumes "cmsg_ok lib" "hdr_ok h" "ch_Len h = CmsgLen lib (length dat)"
    "length pad = CmsgSpace lib (length dat) - CmsgLen lib (length dat)"
  shows "ParseOne lib (hdr_bytes lib h @ dat @ pad @ rest) = Some (h, dat, rest)"
  using assms unfolding cmsg_ok_def by blast

lemma cmsg_ok_sizes:
  assumes "cmsg_ok lib"
  shows "0 < SizeofCmsghdr lib" "CmsgLen lib 0 = SizeofCmsghdr lib" "length (hdr_bytes lib h) = SizeofCmsghdr lib"
    "CmsgLen lib n = SizeofCmsghdr lib + n" "SizeofCmsghdr lib + n \<le> CmsgSpace lib n"
    "n < 2 ^ 16 \<Longrightarrow> CmsgLen lib n < 2 ^ 31"
  using assms unfolding cmsg_ok_def by metis+

lemma cmsg_ok_shorter: "cmsg_ok lib \<Longrightarrow> ParseOne lib bs = Some (h, dat, rest) \<Longrightarrow> length rest < length bs"
  unfolding cmsg_ok_def by blast

lemma find_gso_Nil [simp]: "find_gso lib typ [] = Some (Inr 0)"
  by (subst find_gso.simps) simp

lemma find_gso_src:
  assumes "cmsg_ok lib" "src_ok lib src"
  shows "find_gso lib typ (src @ rest) = find_gso lib typ rest"
proof (cases "src = []")
  case False
  then obtain h dat pad where s: "src = hdr_bytes lib h @ dat @ pad" "dat \<noteq> []" "hdr_ok h" "ch_Level h \<noteq> SOL_UDP"
    "ch_Len h = CmsgLen lib (length dat)" "length pad = CmsgSpace lib (length dat) - CmsgLen lib (length dat)"
    using assms(2) unfolding src_ok_def by blast
  have p: "ParseOne lib (hdr_bytes lib h @ dat @ pad @ rest) = Some (h, dat, rest)"
    using assms(1) s(3,5,6) by (rule cmsg_ok_parse)
  have "SizeofCmsghdr lib < length (src @ rest)" using assms(1) s(1,2) by (simp add: cmsg_ok_sizes)
  then show ?thesis using p s(1,4) by (subst find_gso.simps) simp
qed simp

lemma gso_header:
  assumes "cmsg_ok lib" "typ < 2 ^ 31"
  shows "hdr_ok \<lparr>ch_Len = CmsgLen lib sizeOfGSOData, ch_Level = SOL_UDP, ch_Type = typ\<rparr>"
  using cmsg_ok_sizes(6) [OF assms(1), of 2] assms(2) by (simp add: hdr_ok_def sizeOfGSOData_def SOL_UDP_def)

lemma native_roundtrip: "native_word order (native_bytes order 2 (w :: u16)) = w"
  by (cases order) (simp_all add: native_word_def native_bytes_def le_word_le_bytes be_word_be_bytes)

lemma length_native_image [simp]: "length (native_bytes order n w) = n"
  by (cases order) (simp_all add: native_bytes_def)

lemma find_gso_own:
  assumes "cmsg_ok lib" "length pad = CmsgSpace lib 2 - CmsgLen lib 2" "typ < 2 ^ 31"
  shows "find_gso lib typ
      (hdr_bytes lib \<lparr>ch_Len = CmsgLen lib sizeOfGSOData, ch_Level = SOL_UDP, ch_Type = typ\<rparr>
        @ native_bytes (cl_order lib) 2 (w :: u16) @ pad) = Some (Inr (unat w))"
proof -
  let ?h = "\<lparr>ch_Len = CmsgLen lib sizeOfGSOData, ch_Level = SOL_UDP, ch_Type = typ\<rparr>"
  let ?d = "native_bytes (cl_order lib) 2 w"
  have "ParseOne lib (hdr_bytes lib ?h @ ?d @ pad @ []) = Some (?h, ?d, [])"
    using assms(1) gso_header [OF assms(1,3)] by (rule cmsg_ok_parse) (simp_all add: sizeOfGSOData_def assms(2))
  moreover have "SizeofCmsghdr lib < length (hdr_bytes lib ?h @ ?d @ pad)" by (simp add: cmsg_ok_sizes [OF assms(1)])
  ultimately show ?thesis
    using native_roundtrip [of "cl_order lib" w] by (subst find_gso.simps) (simp add: sizeOfGSOData_def)
qed

lemma put_at_split: "length A + length ys \<le> length (A @ C) \<Longrightarrow> put_at (length A) ys (A @ C) = A @ ys @ drop (length ys) C"
  by (simp add: put_at_def)

lemma c_bytes_setSrc:
  "length (ep_src ep) \<le> length (c_arr c) \<Longrightarrow> c_bytes (setSrcControl ep c) = ep_src ep"
  by (simp add: c_bytes_def setSrcControl_def put_at_def)

lemma c_bytes_setGSO:
  assumes "cmsg_ok lib" "length (ep_src ep) + gsoControlSize lib \<le> length (c_arr c)"
  shows "\<exists>pad. c_bytes (setGSOSize lib g (setSrcControl ep c)) = ep_src ep
      @ hdr_bytes lib \<lparr>ch_Len = CmsgLen lib sizeOfGSOData, ch_Level = SOL_UDP, ch_Type = UDP_SEGMENT\<rparr>
      @ native_bytes (cl_order lib) 2 g @ pad \<and> length pad = CmsgSpace lib 2 - CmsgLen lib 2"
proof -
  let ?h = "hdr_bytes lib \<lparr>ch_Len = CmsgLen lib sizeOfGSOData, ch_Level = SOL_UDP, ch_Type = UDP_SEGMENT\<rparr>"
  let ?n = "native_bytes (cl_order lib) 2 g" and ?src = "ep_src ep"
  let ?S = "SizeofCmsghdr lib" and ?C = "drop (length ?src) (c_arr c)"
  have l: "length ?h = ?S" "CmsgLen lib 0 = ?S" "?S + 2 \<le> CmsgSpace lib 2" "CmsgLen lib 2 = ?S + 2"
    using cmsg_ok_sizes(2,3,4) [OF assms(1)] cmsg_ok_sizes(5) [OF assms(1), of 2] by simp_all
  have room: "length ?src + CmsgSpace lib 2 \<le> length (c_arr c)" using assms(2) by (simp add: gsoControlSize_def sizeOfGSOData_def)
  have 1: "put_at 0 ?src (c_arr c) = ?src @ ?C" using room by (simp add: put_at_def)
  have 2: "put_at (length ?src) ?h (?src @ ?C) = ?src @ ?h @ drop ?S ?C"
    using room l by (subst put_at_split) simp_all
  have 3: "put_at (length ?src + ?S) ?n ((?src @ ?h) @ drop ?S ?C) = (?src @ ?h) @ ?n @ drop 2 (drop ?S ?C)"
    using room l put_at_split [of "?src @ ?h" ?n "drop ?S ?C"] by simp
  let ?pad = "take (CmsgSpace lib 2 - (?S + 2)) (drop 2 (drop ?S ?C))"
  have "c_bytes (setGSOSize lib g (setSrcControl ep c)) = ?src @ ?h @ ?n @ ?pad"
    using room l 1 2 3 by (simp add: c_bytes_def setGSOSize_def setSrcControl_def Let_def sizeOfGSOData_def)
  then show ?thesis using room l by (intro exI [of _ ?pad]) simp
qed

lemma batch_datagrams:
  assumes "cmsg_ok lib" "src_ok lib (ep_src ep)" "good_batch (max_payload ep) g" "\<forall>b \<in> set g. gb_data b \<noteq> []"
    "length (c_arr (m_OOB m)) = stickyControlSize lib + gsoControlSize lib"
  shows "datagrams lib (batch_msg (setGSOSize lib) addr ep True g m) = map gb_data g"
proof -
  have room: "length (ep_src ep) + gsoControlSize lib \<le> length (c_arr (m_OOB m))" using assms(2,5) by (simp add: src_ok_def)
  have src: "find_gso lib UDP_SEGMENT (ep_src ep) = Some (Inr 0)" using find_gso_src [OF assms(1,2), of UDP_SEGMENT "[]"] by simp
  show ?thesis
  proof (cases "1 < length g")
    case False
    then obtain b where "g = [b]" using assms(3) by (cases g) (auto simp: good_batch_def)
    then show ?thesis using room src by (simp add: datagrams_def batch_msg_def c_bytes_setSrc)
  next
    case True
    let ?k = "length (gb_data (hd g))"
    have g: "g \<noteq> []" using True by auto
    have "?k \<le> length (concat (map gb_data g))" using g by (cases g) auto
    also have "\<dots> \<le> max_payload ep" using assms(3) True by (simp add: good_batch_def)
    finally have k: "?k < 2 ^ 16" by (auto simp: max_payload_def maxIPv4PayloadLen_def maxIPv6PayloadLen_def split: if_splits)
    then have u: "unat (of_nat ?k :: u16) = ?k" by (simp add: unat_of_nat take_bit_nat_eq_self)
    have pos: "0 < ?k" using assms(4) g by (cases g) auto
    obtain pad where c: "c_bytes (setGSOSize lib (of_nat ?k) (setSrcControl ep (m_OOB m))) = ep_src ep
        @ hdr_bytes lib \<lparr>ch_Len = CmsgLen lib sizeOfGSOData, ch_Level = SOL_UDP, ch_Type = UDP_SEGMENT\<rparr>
        @ native_bytes (cl_order lib) 2 (of_nat ?k :: u16) @ pad" and p: "length pad = CmsgSpace lib 2 - CmsgLen lib 2"
      using c_bytes_setGSO [OF assms(1) room] by blast
    have f: "find_gso lib UDP_SEGMENT (c_bytes (setGSOSize lib (of_nat ?k) (setSrcControl ep (m_OOB m)))) = Some (Inr ?k)"
      unfolding c find_gso_src [OF assms(1,2)] using find_gso_own [OF assms(1) p, of UDP_SEGMENT "of_nat ?k"] u by (simp add: UDP_SEGMENT_def)
    have "segments ?k (concat (map gb_data g)) = map gb_data g"
      using assms(3,4) g by (intro segments_concat) (auto simp: good_batch_def map_butlast [symmetric] last_map)
    then show ?thesis using True f pos by (simp add: datagrams_def batch_msg_def)
  qed
qed

section \<open>Send\<close>

text \<open>The pools hold arrays of clean messages with control buffers of their size, and addresses with arrays of 16 bytes. A bind
  on Linux has a packet connection exactly for its open sockets.\<close>

definition msgs_ok :: "cmsg_lib \<Rightarrow> Message list \<Rightarrow> bool" where
  "msgs_ok lib msgs \<longleftrightarrow>
     length msgs = IdealBatchSize \<and> (\<forall>m \<in> set msgs. length (c_arr (m_OOB m)) = stickyControlSize lib + gsoControlSize lib)"

definition msgs_clean :: "Message list \<Rightarrow> bool" where
  "msgs_clean msgs \<longleftrightarrow> (\<forall>m \<in> set msgs. c_len (m_OOB m) = 0 \<and> m_Addr m = None \<and> m_N m = 0 \<and> m_NN m = 0)"

definition ua_ok :: "UDPAddr \<Rightarrow> bool" where
  "ua_ok ua \<longleftrightarrow> length (ua_arr ua) = 16 \<and> ua_len ua \<in> {4, 16}"

definition bind_ok :: "cmsg_lib \<Rightarrow> StdNetBind \<Rightarrow> bool" where
  "bind_ok lib s \<longleftrightarrow>
     (\<forall>msgs \<in> set (msgsPool s). msgs_ok lib msgs \<and> msgs_clean msgs) \<and> (\<forall>ua \<in> set (udpAddrPool s). ua_ok ua)
     \<and> b_ipv4PC s = b_ipv4 s \<and> b_ipv6PC s = b_ipv6 s
     \<and> (\<forall>c. b_ipv4 s = Some c \<longrightarrow> \<not> co_is6 c) \<and> (\<forall>c. b_ipv6 s = Some c \<longrightarrow> co_is6 c)"

lemma pool_get_ok:
  assumes "pool_get pick new pool = (x, pool')" "P new" "\<forall>y \<in> set pool. P y"
  shows "P x" "\<forall>y \<in> set pool'. P y"
proof -
  show "P x" using assms by (auto simp: pool_get_def split: option.splits if_splits)
  have "pool' = pool \<or> (\<exists>i. pool' = take i pool @ drop (Suc i) pool)"
    using assms(1) by (auto simp: pool_get_def split: option.splits if_splits)
  then have "set pool' \<subseteq> set pool" using set_take_subset [of _ pool] set_drop_subset [of _ pool] by fastforce
  then show "\<forall>y \<in> set pool'. P y" using assms(3) by blast
qed

lemma new_msgs_ok: "msgs_ok lib (new_msgs lib)" "msgs_clean (new_msgs lib)"
  by (auto simp: msgs_ok_def msgs_clean_def new_msgs_def new_Message_def)

lemma new_UDPAddr_ok: "ua_ok new_UDPAddr"
  by (simp add: ua_ok_def new_UDPAddr_def)

lemma getMessages_ok:
  assumes "bind_ok lib s" "getMessages lib pick s = (msgs, s')"
  shows "msgs_ok lib msgs" "msgs_clean msgs" "bind_ok lib s'" "udpAddrPool s' = udpAddrPool s" "\<exists>p. s' = s\<lparr>msgsPool := p\<rparr>"
proof -
  obtain pool where g: "pool_get pick (new_msgs lib) (msgsPool s) = (msgs, pool)" and s': "s' = s\<lparr>msgsPool := pool\<rparr>"
    using assms(2) by (auto simp: getMessages_def Let_def split: prod.splits)
  let ?P = "\<lambda>y. msgs_ok lib y \<and> msgs_clean y"
  have new: "?P (new_msgs lib)" using new_msgs_ok by blast
  have old: "\<forall>y \<in> set (msgsPool s). ?P y" using assms(1) unfolding bind_ok_def by blast
  from pool_get_ok [OF g, of ?P] new old have "?P msgs" "\<forall>y \<in> set pool. ?P y" by blast+
  then show "msgs_ok lib msgs" "msgs_clean msgs" "bind_ok lib s'" "udpAddrPool s' = udpAddrPool s" "\<exists>p. s' = s\<lparr>msgsPool := p\<rparr>"
    using assms(1) by (auto simp: bind_ok_def s')
qed

lemma putMessages_ok: "bind_ok lib s \<Longrightarrow> msgs_ok lib msgs \<Longrightarrow> bind_ok lib (putMessages msgs s)"
  by (auto simp: bind_ok_def putMessages_def msgs_ok_def msgs_clean_def clean_message_def)

lemma set_addr_ok:
  assumes "ua_ok ua" "set_addr ep ua = Some ua'" "(\<exists>a. DstIP ep = Addr4 a \<and> length a = 4) \<or> (\<exists>a. DstIP ep = Addr6 a \<and> length a = 16)"
  shows "ua_ok ua'"
  using assms by (auto simp: set_addr_def ua_ok_def put_at_def)

lemma set_addr_total:
  assumes "ua_ok ua" "DstIP ep \<noteq> NoAddr"
  shows "\<exists>ua'. set_addr ep ua = Some ua'"
  using assms by (cases "DstIP ep") (auto simp: set_addr_def ua_ok_def)

text \<open>The address written is right when the pooled slice is as long as the address, or longer.\<close>

lemma set_addr_right:
  assumes "ua_ok ua" "set_addr ep ua = Some ua'" "DstIP ep = Addr4 a \<and> length a = 4 \<or> DstIP ep = Addr6 a \<and> length a = 16 \<and> ua_len ua = 16"
  shows "ua_IP ua' = a \<and> ua_Port ua' = unat (ep_port ep)"
  using assms by (auto simp: set_addr_def ua_ok_def ua_IP_def put_at_def)

lemma single_msgs_all:
  assumes "length bufs \<le> length msgs"
  shows "single_msgs ua ep bufs msgs = Some (map2 (\<lambda>b. batch_msg setGSO ua ep True [b]) bufs (take (length bufs) msgs) @ drop (length bufs) msgs)"
  using assms
proof (induction bufs arbitrary: msgs)
  case (Cons b bufs)
  then show ?case by (cases msgs) (simp_all add: batch_msg_def)
qed simp

lemma batch_msgs_singletons:
  "batch_msgs setGSO ua ep (map (\<lambda>b. [b]) bufs) msgs = map2 (\<lambda>b. batch_msg setGSO ua ep True [b]) bufs (take (length bufs) msgs)"
  by (simp add: batch_msgs_def zip_map1 split_def)

lemma batch_msgs_ok:
  assumes "msgs_ok lib msgs" "length gs \<le> length msgs" "length (ep_src ep) \<le> stickyControlSize lib" "cmsg_ok lib"
  shows "msgs_ok lib (batch_msgs (setGSOSize lib) ua ep gs msgs @ drop (length gs) msgs)"
proof -
  have c: "length (c_arr (m_OOB (batch_msg (setGSOSize lib) ua ep True g m))) = length (c_arr (m_OOB m))"
    if "m \<in> set msgs" for g m
  proof -
    have "length (c_arr (m_OOB m)) = stickyControlSize lib + gsoControlSize lib" using that assms(1) by (simp add: msgs_ok_def)
    then show ?thesis
      using assms(3) cmsg_ok_sizes(5) [OF assms(4), of 2] cmsg_ok_sizes(2,4) [OF assms(4)]
      by (auto simp: batch_msg_def setGSOSize_def setSrcControl_def Let_def gsoControlSize_def sizeOfGSOData_def)
  qed
  have "\<forall>m \<in> set (batch_msgs (setGSOSize lib) ua ep gs msgs). length (c_arr (m_OOB m)) = stickyControlSize lib + gsoControlSize lib"
    using assms(1) c by (auto simp: batch_msgs_def msgs_ok_def dest!: set_zip_rightD in_set_takeD)
  then show ?thesis
    using assms(1,2) by (auto simp: msgs_ok_def dest: in_set_dropD)
qed

lemma batch_msgs_datagrams:
  assumes "cmsg_ok lib" "src_ok lib (ep_src ep)" "\<forall>g \<in> set gs. good_batch (max_payload ep) g" "\<forall>b \<in> set (concat gs). gb_data b \<noteq> []"
    "msgs_ok lib msgs" "length gs \<le> length msgs"
  shows "map (datagrams lib) (batch_msgs (setGSOSize lib) ua ep gs msgs) = map (map gb_data) gs"
    and "\<forall>m \<in> set (batch_msgs (setGSOSize lib) ua ep gs msgs). m_Addr m = Some ua"
proof -
  show "map (datagrams lib) (batch_msgs (setGSOSize lib) ua ep gs msgs) = map (map gb_data) gs"
  proof (rule nth_equalityI)
    fix i assume "i < length (map (datagrams lib) (batch_msgs (setGSOSize lib) ua ep gs msgs))"
    then have i: "i < length gs" using assms(6) by simp
    then have "datagrams lib (batch_msg (setGSOSize lib) ua ep True (gs ! i) (msgs ! i)) = map gb_data (gs ! i)"
      using assms by (intro batch_datagrams) (auto simp: msgs_ok_def)
    then show "map (datagrams lib) (batch_msgs (setGSOSize lib) ua ep gs msgs) ! i = map (map gb_data) gs ! i"
      using i assms(6) by (simp add: batch_msgs_def)
  qed (use assms(6) in simp)
  show "\<forall>m \<in> set (batch_msgs (setGSOSize lib) ua ep gs msgs). m_Addr m = Some ua"
    by (auto simp: batch_msgs_def batch_msg_def)
qed

text \<open>The datagrams that went out, for every result of \<open>Send\<close>: all of them without an error, otherwise the first ones; after
  the retry without offload possibly some of them twice.\<close>

definition delivered :: "bytes list \<Rightarrow> bind_err option \<Rightarrow> bytes list \<Rightarrow> bool" where
  "delivered D err G \<longleftrightarrow>
     (case err of
        None \<Rightarrow> G = D
      | Some (NetErr _) \<Rightarrow> \<exists>k. G = take k D
      | Some (ErrUDPGSODisabled None) \<Rightarrow> \<exists>k. G = take k D @ D
      | Some (ErrUDPGSODisabled (Some _)) \<Rightarrow> \<exists>k l. G = take k D @ take l D
      | _ \<Rightarrow> False)"

lemma concat_take: "concat (take j xss) = take (length (concat (take j xss))) (concat xss)"
  by (metis append_eq_conv_conj append_take_drop_id concat_append)

lemma send_batches:
  assumes "WriteBatch_progress W" "cmsg_ok lib" "src_ok lib (ep_src ep)" "\<forall>g \<in> set gs. good_batch (max_payload ep) g"
    "\<forall>b \<in> set (concat gs). gb_data b \<noteq> []" "msgs_ok lib msgs" "length gs \<le> length msgs"
  shows "\<exists>err w' ms k. bind_send W (batch_msgs (setGSOSize lib) ua ep gs msgs) w = Some (err, w') \<and> w_log w' = w_log w @ ms
    \<and> (\<forall>m \<in> set ms. m_Addr m = Some ua \<and> length (datagrams lib m) \<le> udpSegmentMaxDatagrams)
    \<and> concat (map (datagrams lib) ms) = take k (map gb_data (concat gs)) \<and> (err = None \<longrightarrow> k = length (concat gs))"
proof -
  let ?M = "batch_msgs (setGSOSize lib) ua ep gs msgs"
  note d = batch_msgs_datagrams [OF assms(2-7), of ua]
  obtain err w' j where s: "bind_send W ?M w = Some (err, w')" "j \<le> length ?M" "w_log w' = w_log w @ take j ?M" "err = None \<longrightarrow> j = length ?M"
    using bind_send_takes_prefix [OF assms(1), of ?M w] by blast
  have m: "m_Addr m = Some ua \<and> length (datagrams lib m) \<le> udpSegmentMaxDatagrams" if "m \<in> set (take j ?M)" for m
  proof -
    have mM: "m \<in> set ?M" using that by (rule in_set_takeD)
    then have "datagrams lib m \<in> set (map (map gb_data) gs)" unfolding d(1) [symmetric] by simp
    then show ?thesis using d(2) mM assms(4) by (auto simp: good_batch_def)
  qed
  let ?k = "length (concat (take j gs))"
  have "concat (map (datagrams lib) (take j ?M)) = concat (take j (map (map gb_data) gs))"
    unfolding d(1) [symmetric] by (simp add: take_map)
  also have "\<dots> = map gb_data (concat (take j gs))" by (simp add: take_map map_concat)
  also have "\<dots> = take ?k (map gb_data (concat gs))" by (subst concat_take) (simp add: take_map)
  finally have c: "concat (map (datagrams lib) (take j ?M)) = take ?k (map gb_data (concat gs))" .
  have e: "err = None \<longrightarrow> ?k = length (concat gs)" using s(4) assms(7) by simp
  show ?thesis
    by (intro exI [of _ err] exI [of _ w'] exI [of _ "take j ?M"] exI [of _ ?k]) (use s m c e in auto)
qed

text \<open>What a round of sending with the address \<open>ua\<close> leaves.\<close>

definition sent ::
  "cmsg_lib \<Rightarrow> UDPAddr \<Rightarrow> bytes list \<Rightarrow> bind_err option \<Rightarrow> Message list \<Rightarrow> wire \<Rightarrow> wire \<Rightarrow> bool" where
  "sent lib ua D err msgs w w' \<longleftrightarrow> msgs_ok lib msgs \<and>
     (\<exists>ms. w_log w' = w_log w @ ms \<and> delivered D err (concat (map (datagrams lib) ms))
       \<and> (\<forall>m \<in> set ms. m_Addr m = Some ua \<and> length (datagrams lib m) \<le> udpSegmentMaxDatagrams))"

lemma send_singly_sent:
  assumes "WriteBatch_progress W" "cmsg_ok lib" "src_ok lib (ep_src ep)" "\<forall>b \<in> set bufs. gb_data b \<noteq> []" "msgs_ok lib msgs"
    "length bufs \<le> IdealBatchSize"
  shows "\<exists>err msgs' w'. send_singly W ua ep bufs msgs w = Some (err, msgs', w') \<and> sent lib ua (map gb_data bufs) (map_option NetErr err) msgs' w w'"
proof -
  let ?gs = "map (\<lambda>b. [b]) bufs"
  have l: "length ?gs \<le> length msgs" "length bufs \<le> length msgs" using assms(5,6) by (simp_all add: msgs_ok_def)
  have c: "concat ?gs = bufs" by (induction bufs) simp_all
  have g: "\<forall>g \<in> set ?gs. good_batch (max_payload ep) g" "\<forall>b \<in> set (concat ?gs). gb_data b \<noteq> []" using assms(4) by (auto simp: c)
  obtain err w' ms k where s: "bind_send W (batch_msgs (setGSOSize lib) ua ep ?gs msgs) w = Some (err, w')" "w_log w' = w_log w @ ms"
    "\<forall>m \<in> set ms. m_Addr m = Some ua \<and> length (datagrams lib m) \<le> udpSegmentMaxDatagrams"
    "concat (map (datagrams lib) ms) = take k (map gb_data bufs)" "err = None \<longrightarrow> k = length bufs"
    using send_batches [OF assms(1-3) g assms(5) l(1), of ua w] unfolding c by blast
  let ?m = "batch_msgs (setGSOSize lib) ua ep ?gs msgs @ drop (length bufs) msgs"
  have "single_msgs ua ep bufs msgs = Some ?m" using single_msgs_all [OF l(2)] by (simp add: batch_msgs_singletons)
  then have r: "send_singly W ua ep bufs msgs w = Some (err, ?m, w')" using s(1) l by (simp add: send_singly_def)
  have "msgs_ok lib ?m" using batch_msgs_ok [OF assms(5) l(1) _ assms(2), of ep ua] assms(3) by (simp add: src_ok_def)
  then have "sent lib ua (map gb_data bufs) (map_option NetErr err) ?m w w'"
    using s(2-5) by (cases err) (auto simp: sent_def delivered_def)
  with r show ?thesis by blast
qed

lemma send_offload_sent:
  assumes "WriteBatch_progress W" "cmsg_ok lib" "src_ok lib (ep_src ep)" "\<forall>b \<in> set bufs. gb_data b \<noteq> []" "msgs_ok lib msgs"
    "length bufs \<le> IdealBatchSize"
  shows "\<exists>retried err msgs' w'. send_offload lib W ua ep bufs msgs w = Some (retried, err, msgs', w')
    \<and> sent lib ua (map gb_data bufs) (if retried then Some (ErrUDPGSODisabled err) else map_option NetErr err) msgs' w w'"
proof -
  let ?D = "map gb_data bufs"
  have l: "length bufs \<le> length msgs" using assms(5,6) by (simp add: msgs_ok_def)
  obtain gs where co: "coalesceMessages ua ep bufs msgs (setGSOSize lib)
      = Some (length gs, batch_msgs (setGSOSize lib) ua ep gs msgs @ drop (length gs) msgs)"
    and gs: "length gs \<le> length msgs" "concat gs = bufs" "\<forall>g \<in> set gs. good_batch (max_payload ep) g"
    using coalesceMessages_batches [OF l] by blast
  let ?m = "batch_msgs (setGSOSize lib) ua ep gs msgs @ drop (length gs) msgs"
  have ok: "msgs_ok lib ?m" using batch_msgs_ok [OF assms(5) gs(1) _ assms(2), of ep ua] assms(3) by (simp add: src_ok_def)
  have ne: "\<forall>b \<in> set (concat gs). gb_data b \<noteq> []" using assms(4) gs(2) by simp
  obtain err w' ms k where s: "bind_send W (batch_msgs (setGSOSize lib) ua ep gs msgs) w = Some (err, w')" "w_log w' = w_log w @ ms"
    "\<forall>m \<in> set ms. m_Addr m = Some ua \<and> length (datagrams lib m) \<le> udpSegmentMaxDatagrams"
    "concat (map (datagrams lib) ms) = take k ?D" "err = None \<longrightarrow> k = length bufs"
    using send_batches [OF assms(1-3) gs(3) ne assms(5) gs(1), of ua w] unfolding gs(2) by blast
  show ?thesis
  proof (cases "case err of None \<Rightarrow> False | Some e \<Rightarrow> errShouldDisableUDPGSO e")
    case False
    then have r: "send_offload lib W ua ep bufs msgs w = Some (False, err, ?m, w')"
      using co s(1) gs(1) by (simp add: send_offload_def)
    have "sent lib ua ?D (map_option NetErr err) ?m w w'" using s(2-5) ok by (cases err) (auto simp: sent_def delivered_def)
    with r show ?thesis by fastforce
  next
    case True
    obtain err2 msgs2 w2 where t: "send_singly W ua ep bufs ?m w' = Some (err2, msgs2, w2)"
      "sent lib ua ?D (map_option NetErr err2) msgs2 w' w2"
      using send_singly_sent [OF assms(1-4) ok assms(6)] by blast
    have r: "send_offload lib W ua ep bufs msgs w = Some (True, err2, msgs2, w2)"
      using True co s(1) t(1) gs(1) by (simp add: send_offload_def)
    obtain ms2 where t2: "msgs_ok lib msgs2" "w_log w2 = w_log w' @ ms2" "delivered ?D (map_option NetErr err2) (concat (map (datagrams lib) ms2))"
      "\<forall>m \<in> set ms2. m_Addr m = Some ua \<and> length (datagrams lib m) \<le> udpSegmentMaxDatagrams"
      using t(2) unfolding sent_def by blast
    have "delivered ?D (Some (ErrUDPGSODisabled err2)) (concat (map (datagrams lib) (ms @ ms2)))"
      using t2(3) s(4) by (cases err2) (auto simp: delivered_def)
    then have "sent lib ua ?D (Some (ErrUDPGSODisabled err2)) msgs2 w w2"
      unfolding sent_def using t2 s(2,3) by (intro conjI exI [of _ "ms @ ms2"]) auto
    with r show ?thesis by fastforce
  qed
qed

definition addr_ok :: "Addr \<Rightarrow> bool" where
  "addr_ok a \<longleftrightarrow> (case a of Addr4 b \<Rightarrow> length b = 4 | Addr6 b \<Rightarrow> length b = 16 | NoAddr \<Rightarrow> False)"

text \<open>The socket for an endpoint is open and not a black hole.\<close>

definition can_send :: "StdNetBind \<Rightarrow> Endpoint \<Rightarrow> bool" where
  "can_send s ep \<longleftrightarrow> (if Is6 (DstIP ep) then \<not> blackhole6 s \<and> b_ipv6 s \<noteq> None else \<not> blackhole4 s \<and> b_ipv4 s \<noteq> None)"

definition tx_offload :: "Endpoint \<Rightarrow> StdNetBind \<Rightarrow> bool" where
  "tx_offload ep s = (if Is6 (DstIP ep) then ipv6TxOffload s else ipv4TxOffload s)"

text \<open>What \<open>Send\<close> is given: not more buffers than a batch has, none of them empty, an endpoint with an address.\<close>

definition send_args :: "cmsg_lib \<Rightarrow> gro_buf list \<Rightarrow> Endpoint \<Rightarrow> bool" where
  "send_args lib bufs ep \<longleftrightarrow> length bufs \<le> StdNetBind_BatchSize \<and> (\<forall>b \<in> set bufs. gb_data b \<noteq> []) \<and> addr_ok (DstIP ep) \<and> src_ok lib (ep_src ep)"

lemma bind_ok_updates [simp]:
  "bind_ok lib (disableTxOffload is6 s) = bind_ok lib s"
  "msgsPool (disableTxOffload is6 s) = msgsPool s" "udpAddrPool (disableTxOffload is6 s) = udpAddrPool s"
  by (simp_all add: disableTxOffload_def bind_ok_def)

lemma Send_result:
  assumes W: "WriteBatch_progress W" and lib: "cmsg_ok lib" and s: "bind_ok lib s" and args: "send_args lib bufs ep" and up: "can_send s ep"
    and pick: "pool_get pick' new_UDPAddr (udpAddrPool s) = (ua0, pool)"
  shows "\<exists>err s' w' ua msgs. StdNetBind_Send lib W pick pick' bufs ep s w = Some (err, s', w') \<and> bind_ok lib s'
    \<and> set_addr ep ua0 = Some ua \<and> udpAddrPool s' = ua # pool \<and> sent lib ua (map gb_data bufs) err msgs w w'
    \<and> ((\<exists>e. err = Some (ErrUDPGSODisabled e)) \<longrightarrow> \<not> tx_offload ep s')
    \<and> b_ipv4 s' = b_ipv4 s \<and> b_ipv6 s' = b_ipv6 s \<and> blackhole4 s' = blackhole4 s \<and> blackhole6 s' = blackhole6 s"
proof -
  obtain msgs s1 where g: "getMessages lib pick s = (msgs, s1)" by fastforce
  note g' = getMessages_ok [OF s g]
  obtain p where s1: "s1 = s\<lparr>msgsPool := p\<rparr>" using g'(5) by blast
  have ua0: "ua_ok ua0" "\<forall>y \<in> set pool. ua_ok y"
    by (rule pool_get_ok [OF pick, of ua_ok]; use s new_UDPAddr_ok in \<open>simp add: bind_ok_def\<close>)+
  have a: "addr_ok (DstIP ep)" using args by (simp add: send_args_def)
  then have "DstIP ep \<noteq> NoAddr" by (auto simp: addr_ok_def split: Addr.splits)
  then obtain ua where ua: "set_addr ep ua0 = Some ua" using set_addr_total [OF ua0(1)] by blast
  have uaok: "ua_ok ua" by (rule set_addr_ok [OF ua0(1) ua]) (use a in \<open>auto simp: addr_ok_def split: Addr.splits\<close>)
  have args': "src_ok lib (ep_src ep)" "\<forall>b \<in> set bufs. gb_data b \<noteq> []" "length bufs \<le> IdealBatchSize"
    using args by (simp_all add: send_args_def StdNetBind_BatchSize_def)
  let ?run = "if tx_offload ep s then send_offload lib W ua ep bufs msgs w
      else do { (err, msgs, w) \<leftarrow> send_singly W ua ep bufs msgs w; Some (False, err, msgs, w) }"
  let ?e = "\<lambda>retried err. if retried then Some (ErrUDPGSODisabled err) else map_option NetErr err"
  have "\<exists>retried err msgs' w'. ?run = Some (retried, err, msgs', w') \<and> sent lib ua (map gb_data bufs) (?e retried err) msgs' w w'"
    using send_offload_sent [OF W lib args'(1,2) g'(1) args'(3), of ua w] send_singly_sent [OF W lib args'(1,2) g'(1) args'(3), of ua w]
    by fastforce
  then obtain retried err msgs' w' where run: "?run = Some (retried, err, msgs', w')"
    and st: "sent lib ua (map gb_data bufs) (?e retried err) msgs' w w'" by blast
  define s2 where "s2 = (if retried then disableTxOffload (Is6 (DstIP ep)) (s1\<lparr>udpAddrPool := pool\<rparr>) else s1\<lparr>udpAddrPool := pool\<rparr>)"
  let ?s' = "putMessages msgs' (s2\<lparr>udpAddrPool := ua # udpAddrPool s2\<rparr>)"
  have s2p: "udpAddrPool s2 = pool" by (simp add: s2_def)
  have r: "StdNetBind_Send lib W pick pick' bufs ep s w = Some (?e retried err, ?s', w')"
    using up run ua g'(4)
    by (auto simp: StdNetBind_Send_def can_send_def Let_def g pick s2_def tx_offload_def bind_eq_Some_conv split: if_splits)
  have "bind_ok lib (s1\<lparr>udpAddrPool := pool\<rparr>)" using g'(3) ua0(2) by (auto simp: bind_ok_def)
  then have "bind_ok lib s2" by (simp add: s2_def)
  then have "bind_ok lib (s2\<lparr>udpAddrPool := ua # udpAddrPool s2\<rparr>)" using uaok by (auto simp: bind_ok_def)
  then have ok: "bind_ok lib ?s'" using st by (intro putMessages_ok) (auto simp: sent_def)
  have k: "b_ipv4 ?s' = b_ipv4 s \<and> b_ipv6 ?s' = b_ipv6 s \<and> blackhole4 ?s' = blackhole4 s \<and> blackhole6 ?s' = blackhole6 s"
    "retried \<Longrightarrow> \<not> tx_offload ep ?s'" "udpAddrPool ?s' = ua # pool"
    by (simp_all add: putMessages_def s2_def disableTxOffload_def s1 tx_offload_def)
  show ?thesis
    using r ok ua st k by (intro exI [of _ "?e retried err"] exI [of _ ?s'] exI [of _ w'] exI [of _ ua] exI [of _ msgs']) auto
qed

text \<open>An environment of 64-bit Linux, for the examples: sizes are rounded up to eight bytes.\<close>

definition example_hdr :: "Cmsghdr \<Rightarrow> bytes" where
  "example_hdr h = le_bytes 8 (of_nat (ch_Len h) :: u64) @ le_bytes 4 (of_nat (ch_Level h) :: u32) @ le_bytes 4 (of_nat (ch_Type h) :: u32)"

definition example_parse :: "bytes \<Rightarrow> (Cmsghdr \<times> bytes \<times> bytes) option" where
  "example_parse bs =
     (let len = unat (le_word (take 8 bs) :: u64)
      in if length bs < 16 \<or> len < 16 \<or> length bs < len then None
         else Some (\<lparr>ch_Len = len, ch_Level = unat (le_word (go_slice 8 12 bs) :: u32), ch_Type = unat (le_word (go_slice 12 16 bs) :: u32)\<rparr>,
                    go_slice 16 len bs, drop ((len + 7) div 8 * 8) bs))"

definition example_cmsg :: cmsg_lib where
  "example_cmsg = \<lparr>cl_order = LittleEndian, SizeofCmsghdr = 16, CmsgLen = (\<lambda>n. 16 + n), CmsgSpace = (\<lambda>n. 16 + (n + 7) div 8 * 8),
     hdr_bytes = example_hdr, ParseOne = example_parse\<rparr>"

lemma example_parse_hdr:
  assumes "hdr_ok h" "ch_Len h = 16 + length dat" "length pad = (length dat + 7) div 8 * 8 - length dat"
  shows "example_parse (example_hdr h @ dat @ pad @ rest) = Some (h, dat, rest)"
proof -
  have b: "ch_Len h < 2 ^ 31" "ch_Level h < 2 ^ 31" "ch_Type h < 2 ^ 31" using assms(1) by (auto simp: hdr_ok_def)
  have u: "unat (of_nat (ch_Len h) :: u64) = ch_Len h" "unat (of_nat (ch_Level h) :: u32) = ch_Level h"
    "unat (of_nat (ch_Type h) :: u32) = ch_Type h"
    using b by (simp_all add: unat_of_nat take_bit_nat_eq_self)
  have al: "(16 + length dat + 7) div 8 * 8 = 16 + (length dat + 7) div 8 * 8" by presburger
  have le: "length dat \<le> (length dat + 7) div 8 * 8" by linarith
  have p: "16 + (length dat + 7) div 8 * 8 = length (example_hdr h @ dat @ pad)"
    using assms(3) le by (simp add: example_hdr_def)
  have d: "drop ((16 + length dat + 7) div 8 * 8) (example_hdr h @ dat @ pad @ rest) = rest"
    unfolding al p by simp
  show ?thesis
    using u d assms(2) unfolding example_parse_def example_hdr_def
    by (simp add: Let_def go_slice_def byte_simps)
qed

lemma example_parse_shorter: "example_parse bs = Some (h, dat, rest) \<Longrightarrow> length rest < length bs"
  by (auto simp: example_parse_def Let_def split: if_splits)

lemma example_cmsg_ok: "cmsg_ok example_cmsg"
proof -
  have "length dat \<le> (length dat + 7) div 8 * 8" for dat :: bytes by linarith
  then show ?thesis
    by (auto simp: cmsg_ok_def example_cmsg_def intro!: example_parse_hdr dest: example_parse_shorter) (simp_all add: example_hdr_def)
qed

text \<open>C26. \<open>send\<close> ends: a socket that takes at least one message whenever it reports no error is called at most once for each message, and
  once when there is none. It has then taken a prefix of the messages in their order, each once, and all of them unless there is an error.\<close>

theorem send_terminates:
  assumes "WriteBatch_progress W"
  shows "\<exists>err w' j. bind_send W msgs w = Some (err, w') \<and> j \<le> length msgs \<and> w_log w' = w_log w @ take j msgs
    \<and> (err = None \<longrightarrow> j = length msgs) \<and> w_calls w' \<le> w_calls w + max 1 (length msgs)"
  using assms by (rule bind_send_takes_prefix)

definition example_write :: "nat \<Rightarrow> Message list \<Rightarrow> nat \<times> net_err option" where
  "example_write k ms = (if k = 0 \<and> ms \<noteq> [] then (0, Some (SyscallError EIO)) else (min 2 (length ms), None))"

lemma example_write_ok: "WriteBatch_progress example_write"
  by (auto simp: WriteBatch_progress_def example_write_def)

definition idle_wire :: wire where
  "idle_wire = \<lparr>w_calls = 0, w_log = []\<rparr>"

theorem send_terminates_witness:
  "\<exists>err w' j. bind_send example_write (replicate 3 (new_Message example_cmsg)) idle_wire = Some (err, w') \<and> j \<le> length (replicate 3 (new_Message example_cmsg))
    \<and> w_log w' = w_log idle_wire @ take j (replicate 3 (new_Message example_cmsg)) \<and> (err = None \<longrightarrow> j = length (replicate 3 (new_Message example_cmsg)))
    \<and> w_calls w' \<le> w_calls idle_wire + max 1 (length (replicate 3 (new_Message example_cmsg)))"
  by (rule send_terminates) (rule example_write_ok)

text \<open>C23. \<open>Send\<close> through an open socket returns, keeps the bind well formed and hands the kernel messages which it cuts into exactly the buffers
  given, in their order, each message with at most 64 datagrams: all buffers when there is no error, the first ones otherwise. When the
  kernel refuses segmentation, offload is turned off for the socket and all buffers are sent again, one by one, so that some may arrive
  twice. The messages carry the port of the endpoint, and its address for IPv4, or when the pooled addresses have 16 bytes.\<close>

theorem Send_delivers:
  assumes "WriteBatch_progress W" "cmsg_ok lib" "bind_ok lib s" "send_args lib bufs ep" "can_send s ep"
  shows "\<exists>err s' w' ms ua. StdNetBind_Send lib W pick pick' bufs ep s w = Some (err, s', w') \<and> bind_ok lib s'
    \<and> w_log w' = w_log w @ ms \<and> delivered (map gb_data bufs) err (concat (map (datagrams lib) ms))
    \<and> (\<forall>m \<in> set ms. m_Addr m = Some ua \<and> length (datagrams lib m) \<le> udpSegmentMaxDatagrams)
    \<and> ((\<exists>e. err = Some (ErrUDPGSODisabled e)) \<longrightarrow> \<not> tx_offload ep s')
    \<and> ua_Port ua = unat (ep_port ep)
    \<and> (\<not> Is6 (DstIP ep) \<or> (\<forall>a \<in> set (udpAddrPool s). ua_len a = 16) \<longrightarrow> ua_IP ua = addr_bytes (DstIP ep))"
proof -
  obtain ua0 pool where pick: "pool_get pick' new_UDPAddr (udpAddrPool s) = (ua0, pool)" by fastforce
  have ua0: "ua_ok ua0" by (rule pool_get_ok(1) [OF pick]) (use assms(3) new_UDPAddr_ok in \<open>auto simp: bind_ok_def\<close>)
  have len: "\<forall>a \<in> set (udpAddrPool s). ua_len a = 16 \<Longrightarrow> ua_len ua0 = 16"
    using pool_get_ok(1) [OF pick, of "\<lambda>a. ua_len a = 16"] by (simp add: new_UDPAddr_def)
  obtain err s' w' ua msgs where r: "StdNetBind_Send lib W pick pick' bufs ep s w = Some (err, s', w')" "bind_ok lib s'"
    "set_addr ep ua0 = Some ua" "sent lib ua (map gb_data bufs) err msgs w w'" "(\<exists>e. err = Some (ErrUDPGSODisabled e)) \<longrightarrow> \<not> tx_offload ep s'"
    using Send_result [OF assms pick] by blast
  have a: "addr_ok (DstIP ep)" using assms(4) by (simp add: send_args_def)
  have port: "ua_Port ua = unat (ep_port ep)" using r(3) by (auto simp: set_addr_def split: Addr.splits if_splits)
  have ip: "\<not> Is6 (DstIP ep) \<or> ua_len ua0 = 16 \<Longrightarrow> ua_IP ua = addr_bytes (DstIP ep)"
    using set_addr_right [OF ua0 r(3)] a by (cases "DstIP ep") (auto simp: addr_ok_def Is6_def addr_bytes_def)
  show ?thesis using r port ip len unfolding sent_def by blast
qed

definition example_bind :: StdNetBind where
  "example_bind = NewStdNetBind\<lparr>b_ipv4 := Some \<lparr>co_is6 = False, co_port = 51820\<rparr>, b_ipv4PC := Some \<lparr>co_is6 = False, co_port = 51820\<rparr>,
     b_ipv6 := Some \<lparr>co_is6 = True, co_port = 51820\<rparr>, b_ipv6PC := Some \<lparr>co_is6 = True, co_port = 51820\<rparr>, ipv4TxOffload := True\<rparr>"

lemma example_bind_ok: "bind_ok lib example_bind"
  by (simp add: bind_ok_def example_bind_def NewStdNetBind_def)

definition example_bufs :: "gro_buf list" where
  "example_bufs = [\<lparr>gb_data = [1, 2], gb_cap = 8\<rparr>, \<lparr>gb_data = [3, 4], gb_cap = 8\<rparr>, \<lparr>gb_data = [5], gb_cap = 8\<rparr>]"

definition example_v4 :: Endpoint where
  "example_v4 = \<lparr>ep_addr = Addr4 [192, 0, 2, 1], ep_port = 51820, ep_src = []\<rparr>"

definition example_v6 :: Endpoint where
  "example_v6 = \<lparr>ep_addr = Addr6 [0x20, 1, 0xd, 0xb8, 0, 0, 0, 0, 0, 0, 0, 0, 0, 0, 0, 1], ep_port = 51820, ep_src = []\<rparr>"

lemma example_args: "send_args lib example_bufs example_v4" "send_args lib example_bufs example_v6"
  by (simp_all add: send_args_def example_bufs_def example_v4_def example_v6_def StdNetBind_BatchSize_def IdealBatchSize_def addr_ok_def
      DstIP_def src_ok_def)

lemma example_can_send: "can_send example_bind example_v4" "can_send example_bind example_v6"
  by (simp_all add: can_send_def example_bind_def NewStdNetBind_def example_v4_def example_v6_def DstIP_def Is6_def)

theorem Send_delivers_witness:
  "\<exists>err s' w' ms ua. StdNetBind_Send example_cmsg example_write None None example_bufs example_v4 example_bind idle_wire = Some (err, s', w')
    \<and> bind_ok example_cmsg s' \<and> w_log w' = w_log idle_wire @ ms \<and> delivered [[1, 2], [3, 4], [5]] err (concat (map (datagrams example_cmsg) ms))
    \<and> (\<forall>m \<in> set ms. m_Addr m = Some ua \<and> length (datagrams example_cmsg m) \<le> udpSegmentMaxDatagrams)
    \<and> ua_Port ua = 51820 \<and> ua_IP ua = [192, 0, 2, 1]"
  using Send_delivers [OF example_write_ok example_cmsg_ok example_bind_ok example_args(1) example_can_send(1), of None None idle_wire]
  by (auto simp: example_bufs_def example_v4_def Is6_def DstIP_def addr_bytes_def)

text \<open>C27. After \<open>Send\<close> to an IPv4 endpoint the address that goes back to the pool is cut to four bytes, and \<open>Send\<close> to an IPv6 endpoint that takes it
  copies only the first four bytes of the destination: every message goes to an address whose other twelve bytes are those the pool held, here
  zeros, whatever the endpoint says.\<close>

theorem ipv6_after_ipv4_misdirected:
  assumes "WriteBatch_progress W" "cmsg_ok lib" "bind_ok lib s" "udpAddrPool s = []"
    and "send_args lib bufs4 ep4" "can_send s ep4" "DstIP ep4 = Addr4 b"
    and "send_args lib bufs6 ep6" "can_send s ep6" "DstIP ep6 = Addr6 a"
  shows "\<exists>e1 s1 w1 e2 s2 w2 ms. StdNetBind_Send lib W p1 None bufs4 ep4 s w = Some (e1, s1, w1)
    \<and> StdNetBind_Send lib W p2 (Some 0) bufs6 ep6 s1 w1 = Some (e2, s2, w2) \<and> w_log w2 = w_log w1 @ ms
    \<and> delivered (map gb_data bufs6) e2 (concat (map (datagrams lib) ms))
    \<and> (\<forall>m \<in> set ms. map_option ua_IP (m_Addr m) = Some (take 4 a @ replicate 12 0))"
proof -
  have len: "length b = 4" "length a = 16" using assms(5,7,8,10) by (auto simp: send_args_def addr_ok_def)
  have "pool_get None new_UDPAddr (udpAddrPool s) = (new_UDPAddr, [])" using assms(4) by (simp add: pool_get_def)
  from Send_result [OF assms(1,2,3,5,6) this, of p1 w] obtain e1 s1 w1 u1 where
    r1: "StdNetBind_Send lib W p1 None bufs4 ep4 s w = Some (e1, s1, w1)" "bind_ok lib s1" "set_addr ep4 new_UDPAddr = Some u1"
      "udpAddrPool s1 = [u1]" "b_ipv4 s1 = b_ipv4 s" "b_ipv6 s1 = b_ipv6 s" "blackhole4 s1 = blackhole4 s" "blackhole6 s1 = blackhole6 s"
    by blast
  have up: "can_send s1 ep6" using assms(9) r1(5-8) by (simp add: can_send_def)
  have u1: "ua_len u1 = 4" "ua_arr u1 = b @ replicate 12 0"
    using r1(3) assms(7) len by (auto simp: set_addr_def new_UDPAddr_def put_at_def)
  have "pool_get (Some 0) new_UDPAddr (udpAddrPool s1) = (u1, [])" using r1(4) by (simp add: pool_get_def)
  from Send_result [OF assms(1,2) r1(2) assms(8) up this, of p2 w1] obtain e2 s2 w2 u2 msgs where
    r2: "StdNetBind_Send lib W p2 (Some 0) bufs6 ep6 s1 w1 = Some (e2, s2, w2)" "set_addr ep6 u1 = Some u2"
      "sent lib u2 (map gb_data bufs6) e2 msgs w1 w2"
    by blast
  have "ua_IP u2 = take 4 a @ replicate 12 0"
    using r2(2) assms(10) u1 len by (auto simp: set_addr_def ua_IP_def put_at_def split: if_splits)
  then show ?thesis using r1(1) r2(1,3) unfolding sent_def by fastforce
qed

theorem ipv6_after_ipv4_misdirected_witness:
  "\<exists>e1 s1 w1 e2 s2 w2 ms. StdNetBind_Send example_cmsg example_write None None example_bufs example_v4 example_bind idle_wire = Some (e1, s1, w1)
    \<and> StdNetBind_Send example_cmsg example_write None (Some 0) example_bufs example_v6 s1 w1 = Some (e2, s2, w2) \<and> w_log w2 = w_log w1 @ ms
    \<and> delivered [[1, 2], [3, 4], [5]] e2 (concat (map (datagrams example_cmsg) ms))
    \<and> (\<forall>m \<in> set ms. map_option ua_IP (m_Addr m) = Some ([0x20, 1, 0xd, 0xb8] @ replicate 12 0))"
  using ipv6_after_ipv4_misdirected [OF example_write_ok example_cmsg_ok example_bind_ok _ example_args(1) example_can_send(1) _
      example_args(2) example_can_send(2), of "[192, 0, 2, 1]" "[0x20, 1, 0xd, 0xb8, 0, 0, 0, 0, 0, 0, 0, 0, 0, 0, 0, 1]" None idle_wire None]
  by (simp add: example_bufs_def example_v4_def example_v6_def DstIP_def example_bind_def NewStdNetBind_def)

end
