(* ===== verification/BindReceive.thy ===== *)
theory BindReceive
  imports BindSend
begin

text \<open>
  Receiving through the bind: the split of coalesced datagrams restores every datagram in its order and never runs out of messages within the
  limits of the kernel, \<open>Open\<close> and its port, and the well-formedness of a bind over all sequences of its operations.
\<close>

section \<open>The inner loop of the split\<close>

text \<open>A message that is given a segment and the address it came from; \<open>placed\<close> puts segments into consecutive messages.\<close>

definition place :: "UDPAddr option \<Rightarrow> bytes \<Rightarrow> Message \<Rightarrow> Message" where
  "place addr seg m =
     m\<lparr>m_Buffer := (m_Buffer m)\<lparr>gb_data := put_at 0 seg (gb_data (m_Buffer m))\<rparr>,
       m_N := min (length (gb_data (m_Buffer m))) (length seg), m_Addr := addr\<rparr>"

fun placed :: "UDPAddr option \<Rightarrow> nat \<Rightarrow> bytes list \<Rightarrow> Message list \<Rightarrow> Message list" where
  "placed addr n [] msgs = msgs"
| "placed addr n (seg # S) msgs = placed addr (n + 1) S (msgs[n := place addr seg (msgs ! n)])"

lemma length_placed [simp]: "length (placed addr n S msgs) = length msgs"
  by (induction addr n S msgs rule: placed.induct) simp_all

lemma nth_placed:
  "n + length S \<le> length msgs \<Longrightarrow>
     placed addr n S msgs ! k = (if n \<le> k \<and> k < n + length S then place addr (S ! (k - n)) (msgs ! k) else msgs ! k)"
proof (induction addr n S msgs rule: placed.induct)
  case (2 addr n seg S msgs)
  then have IH: "placed addr (n + 1) S (msgs[n := place addr seg (msgs ! n)]) ! k
      = (if n + 1 \<le> k \<and> k < n + 1 + length S then place addr (S ! (k - (n + 1))) (msgs[n := place addr seg (msgs ! n)] ! k)
         else msgs[n := place addr seg (msgs ! n)] ! k)"
    by simp
  consider "k = n" | "n < k" | "k < n" by linarith
  then show ?case
  proof cases
    case 2
    then have "(seg # S) ! (k - n) = S ! (k - (n + 1))" by (simp add: nth_Cons')
    then show ?thesis using IH 2 by simp
  qed (use IH 2(2) in auto)
qed auto

lemma segments_step:
  assumes "0 < g" "start < N" "N \<le> length D"
  shows "segments g (drop start (take N D)) = go_slice start (min (start + g) N) D # segments g (drop (min (start + g) N) (take N D))"
proof -
  have "drop start (take N D) \<noteq> []" using assms by simp
  then have "segments g (drop start (take N D)) = take g (drop start (take N D)) # segments g (drop g (drop start (take N D)))"
    using assms(1) by (subst segments.simps) simp
  moreover have "take g (drop start (take N D)) = go_slice start (min (start + g) N) D"
    using assms by (simp add: go_slice_def drop_take min_def)
  moreover have "drop g (drop start (take N D)) = drop (min (start + g) N) (take N D)"
    using assms by (simp add: min_def add.commute)
  ultimately show ?thesis by simp
qed

lemma split_copy_place:
  assumes "i < length msgs" "n < length msgs" "start \<le> stop" "stop \<le> length (gb_data (m_Buffer (msgs ! i)))"
  shows "split_copy i n start stop msgs
    = Some (msgs[n := place (m_Addr (msgs ! i)) (go_slice start stop (gb_data (m_Buffer (msgs ! i)))) (msgs ! n)])"
  using assms by (simp add: split_copy_def idx_def slice_at_def place_def)

lemma split_segments_placed:
  assumes "0 < g" "i < length msgs" "msgs ! i = m" "m_N m \<le> length (gb_data (m_Buffer m))" "start \<le> m_N m" "stop = min (start + g) (m_N m)"
    and "S = segments g (drop start (take (m_N m) (gb_data (m_Buffer m))))" "n + length S \<le> i + 1"
  shows "split_segments i g (length S) start stop n msgs = Some (True, n + length S, placed (m_Addr m) n S msgs)"
  using assms
proof (induction S arbitrary: start stop n msgs)
  case (Cons seg S)
  have lt: "start < m_N m"
  proof (rule ccontr)
    assume "\<not> start < m_N m"
    then have "drop start (take (m_N m) (gb_data (m_Buffer m))) = []" by simp
    then show False using Cons.prems(7) by simp
  qed
  have seg: "seg = go_slice start stop (gb_data (m_Buffer m))" and S: "S = segments g (drop stop (take (m_N m) (gb_data (m_Buffer m))))"
    using segments_step [OF Cons.prems(1) lt Cons.prems(4)] Cons.prems(6,7) by simp_all
  let ?msgs = "msgs[n := place (m_Addr m) seg (msgs ! n)]"
  have n: "n < length msgs" using Cons.prems(2,8) by simp
  have "stop \<le> length (gb_data (m_Buffer m))" "start \<le> stop" using Cons.prems(4,5,6) by simp_all
  then have cp: "split_copy i n start stop msgs = Some ?msgs"
    using split_copy_place [of i msgs n start stop] n Cons.prems(2,3) by (simp add: seg)
  have "split_segments i g (length S) stop (min (stop + g) (m_N (?msgs ! i))) (n + 1) ?msgs
      = Some (True, n + 1 + length S, placed (m_Addr m) (n + 1) S ?msgs)"
  proof (cases "S = []")
    case False
    then have "n < i" using Cons.prems(8) by (cases S) auto
    then have i: "?msgs ! i = m" using Cons.prems(3) by simp
    have l: "n + 1 + length S \<le> i + 1" using Cons.prems(8) by simp
    show ?thesis unfolding i
      by (rule Cons.IH [OF Cons.prems(1) _ i Cons.prems(4) _ refl S l]) (simp_all add: Cons.prems(2,6))
  qed simp
  then show ?case using cp Cons.prems(2,8) by (simp add: idx_def)
qed simp

lemma length_segments: "0 < g \<Longrightarrow> length (segments g xs) = (length xs + g - 1) div g"
proof (induction g xs rule: segments.induct)
  case (1 g xs)
  show ?case
  proof (cases "xs = []")
    case False
    have "length (segments g xs) = Suc ((length xs - g + g - 1) div g)"
      using False 1 by (subst segments.simps) simp
    also have "\<dots> = (length xs + g - 1) div g"
    proof -
      have e: "length xs + g - 1 = (length xs - 1) + g" using False by (cases xs) auto
      have "Suc ((length xs - g + g - 1) div g) = Suc ((length xs - 1) div g)"
      proof (cases "g \<le> length xs")
        case le: False
        then have "length xs - 1 < g" by simp
        then show ?thesis using le 1(2) by simp
      qed simp
      also have "\<dots> = (length xs - 1 + g) div g" using 1(2) by (simp add: div_add_self2)
      finally show ?thesis unfolding e .
    qed
    finally show ?thesis .
  qed (use 1(2) in simp)
qed

section \<open>The outer loop\<close>

text \<open>A message as the socket fills it, and the datagrams in it.\<close>

definition gso_of :: "(bytes \<Rightarrow> (unit + nat) option) \<Rightarrow> Message \<Rightarrow> (unit + nat) option" where
  "gso_of getGSO m = getGSO (take (m_NN m) (c_bytes (m_OOB m)))"

definition cut_at :: "nat \<Rightarrow> bytes \<Rightarrow> bytes list" where
  "cut_at g xs = (if 0 < g then segments g xs else [xs])"

definition msg_segs :: "(bytes \<Rightarrow> (unit + nat) option) \<Rightarrow> Message \<Rightarrow> bytes list" where
  "msg_segs getGSO m =
     (case gso_of getGSO m of Some (Inr g) \<Rightarrow> cut_at g (take (m_N m) (gb_data (m_Buffer m))) | _ \<Rightarrow> [])"

definition filled_ok :: "(bytes \<Rightarrow> (unit + nat) option) \<Rightarrow> Message \<Rightarrow> bool" where
  "filled_ok getGSO m \<longleftrightarrow>
     0 < m_N m \<and> m_N m \<le> length (gb_data (m_Buffer m)) \<and> m_NN m \<le> length (c_bytes (m_OOB m))
     \<and> (\<exists>g. gso_of getGSO m = Some (Inr g) \<and> g \<le> m_N m)"

lemma split_message:
  assumes "filled_ok getGSO (msgs ! i)" "i < length msgs" "n + length (msg_segs getGSO (msgs ! i)) \<le> i + 1"
    and "gso_of getGSO (msgs ! i) = Some (Inr g)"
  shows "split_segments i g (if g > 0 then (m_N (msgs ! i) + g - 1) div g else 1) 0 (if g > 0 then g else m_N (msgs ! i)) n msgs
    = Some (True, n + length (msg_segs getGSO (msgs ! i)), placed (m_Addr (msgs ! i)) n (msg_segs getGSO (msgs ! i)) msgs)"
proof -
  let ?m = "msgs ! i"
  let ?D = "gb_data (m_Buffer ?m)" and ?S = "msg_segs getGSO ?m"
  have N: "0 < m_N ?m" "m_N ?m \<le> length ?D" "g \<le> m_N ?m" using assms(1,4) by (auto simp: filled_ok_def)
  have S: "?S = cut_at g (take (m_N ?m) ?D)" using assms(4) by (simp add: msg_segs_def)
  show ?thesis
  proof (cases "0 < g")
    case True
    have "(m_N ?m + g - 1) div g = length ?S" using True N S length_segments [OF True, of "take (m_N ?m) ?D"] by (simp add: cut_at_def)
    moreover have "split_segments i g (length ?S) 0 g n msgs = Some (True, n + length ?S, placed (m_Addr ?m) n ?S msgs)"
      by (rule split_segments_placed) (use True N S assms(2,3) in \<open>auto simp: cut_at_def\<close>)
    ultimately show ?thesis using True by simp
  next
    case False
    then have S1: "?S = [take (m_N ?m) ?D]" using S by (simp add: cut_at_def)
    then have "n < length msgs" "n \<le> i" using assms(2,3) by simp_all
    then show ?thesis
      using False N S1 split_copy_place [OF assms(2), of n 0 "m_N ?m"] assms(2) by (simp add: go_slice_def idx_def)
  qed
qed

text \<open>The datagrams with their senders that a list of messages holds, up to the first empty message.\<close>

definition arrivals :: "(bytes \<Rightarrow> (unit + nat) option) \<Rightarrow> Message list \<Rightarrow> (bytes \<times> UDPAddr option) list" where
  "arrivals getGSO ms = concat (map (\<lambda>m. map (\<lambda>seg. (seg, m_Addr m)) (msg_segs getGSO m)) ms)"

definition holds :: "bytes \<times> UDPAddr option \<Rightarrow> Message \<Rightarrow> bool" where
  "holds x m \<longleftrightarrow> m_N m = length (fst x) \<and> take (m_N m) (gb_data (m_Buffer m)) = fst x \<and> m_Addr m = snd x"

text \<open>What the split leaves as it is: control buffers and the lengths of the buffers.\<close>

definition frame :: "Message \<Rightarrow> control \<times> nat \<times> nat" where
  "frame m = (m_OOB m, m_NN m, length (gb_data (m_Buffer m)))"

lemma frame_place [simp]: "frame (place addr seg m) = frame m"
  by (simp add: frame_def place_def)

lemma frame_set_N: "frame (m\<lparr>m_N := x\<rparr>) = frame m"
  by (simp add: frame_def)

lemma frame_placed: "n + length S \<le> length msgs \<Longrightarrow> map frame (placed addr n S msgs) = map frame msgs"
  by (rule nth_equalityI) (auto simp: nth_placed)

lemma holds_place: "length seg \<le> length (gb_data (m_Buffer m)) \<Longrightarrow> holds (seg, addr) (place addr seg m)"
  by (simp add: holds_def place_def put_at_def)

lemma segs_length: "seg \<in> set (segments g xs) \<Longrightarrow> length seg \<le> length xs"
  by (induction g xs rule: segments.induct) (subst (asm) (2) segments.simps, fastforce split: if_splits)

lemma msg_segs_length: "seg \<in> set (msg_segs getGSO m) \<Longrightarrow> length seg \<le> m_N m"
  by (auto simp: msg_segs_def cut_at_def split: option.splits sum.splits if_splits dest: segs_length)

definition split_fits :: "(bytes \<Rightarrow> (unit + nat) option) \<Rightarrow> nat \<Rightarrow> nat \<Rightarrow> Message list \<Rightarrow> bool" where
  "split_fits getGSO n i rs \<longleftrightarrow> (\<forall>j < length rs. n + length (arrivals getGSO (take (Suc j) rs)) \<le> i + Suc j)"

lemma split_fits_Cons:
  assumes "split_fits getGSO n i (m # rs)"
  shows "n + length (msg_segs getGSO m) \<le> i + 1" "split_fits getGSO (n + length (msg_segs getGSO m)) (i + 1) rs"
proof -
  show "n + length (msg_segs getGSO m) \<le> i + 1"
    using assms unfolding split_fits_def by (auto simp: arrivals_def dest!: spec [of _ 0])
  show "split_fits getGSO (n + length (msg_segs getGSO m)) (i + 1) rs"
    unfolding split_fits_def
  proof (intro allI impI)
    fix j assume "j < length rs"
    then have "n + length (arrivals getGSO (take (Suc (Suc j)) (m # rs))) \<le> i + Suc (Suc j)"
      using assms unfolding split_fits_def by (metis Suc_less_eq length_Cons)
    then show "n + length (msg_segs getGSO m) + length (arrivals getGSO (take (Suc j) rs)) \<le> i + 1 + Suc j"
      by (simp add: arrivals_def)
  qed
qed

text \<open>One round of the outer loop for the message at \<open>i\<close>: the segments are in their places, later messages are untouched.\<close>

definition after_split :: "(bytes \<Rightarrow> (unit + nat) option) \<Rightarrow> nat \<Rightarrow> nat \<Rightarrow> Message list \<Rightarrow> Message list" where
  "after_split getGSO i n msgs =
     (let S = msg_segs getGSO (msgs ! i); ms = placed (m_Addr (msgs ! i)) n S msgs
      in if i + 1 \<noteq> n + length S then ms[i := (ms ! i)\<lparr>m_N := 0\<rparr>] else ms)"

lemma split_loop_step:
  assumes "filled_ok getGSO (msgs ! i)" "i < length msgs" "n + length (msg_segs getGSO (msgs ! i)) \<le> i + 1"
  shows "split_loop getGSO (Suc k) i n msgs
    = split_loop getGSO k (i + 1) (n + length (msg_segs getGSO (msgs ! i))) (after_split getGSO i n msgs)"
proof -
  obtain g where g: "gso_of getGSO (msgs ! i) = Some (Inr g)" using assms(1) by (auto simp: filled_ok_def)
  have "0 < m_N (msgs ! i)" "m_NN (msgs ! i) \<le> length (c_bytes (m_OOB (msgs ! i)))" using assms(1) by (auto simp: filled_ok_def)
  then show ?thesis
    using assms(2) g split_message [OF assms g]
    by (simp add: idx_def slice_at_def go_slice_def gso_of_def after_split_def Let_def del: placed.simps)
qed

lemma after_split_facts:
  assumes "i < length msgs" "n \<le> i" "n + length (msg_segs getGSO (msgs ! i)) \<le> i + 1" "m_N (msgs ! i) \<le> B"
    and "\<forall>m \<in> set msgs. B \<le> length (gb_data (m_Buffer m))"
  shows "map frame (after_split getGSO i n msgs) = map frame msgs"
    and "drop (i + 1) (after_split getGSO i n msgs) = drop (i + 1) msgs"
    and "j < n \<Longrightarrow> after_split getGSO i n msgs ! j = msgs ! j"
    and "j < length (msg_segs getGSO (msgs ! i))
      \<Longrightarrow> holds (msg_segs getGSO (msgs ! i) ! j, m_Addr (msgs ! i)) (after_split getGSO i n msgs ! (n + j))"
proof -
  let ?S = "msg_segs getGSO (msgs ! i)" and ?a = "after_split getGSO i n msgs"
  let ?p = "placed (m_Addr (msgs ! i)) n ?S msgs"
  have fit: "n + length ?S \<le> length msgs" using assms(1,3) by simp
  note np = nth_placed [OF fit]
  have a: "?a = (if i + 1 \<noteq> n + length ?S then ?p[i := (?p ! i)\<lparr>m_N := 0\<rparr>] else ?p)" by (simp add: after_split_def Let_def)
  have "map frame (?p[i := (?p ! i)\<lparr>m_N := 0\<rparr>]) = map frame ?p"
    unfolding map_update frame_set_N by (metis list_update_id map_update)
  then show "map frame ?a = map frame msgs" using frame_placed [OF fit] by (simp add: a)
  have later: "?a ! j = msgs ! j" if "i + 1 \<le> j" for j
    using that assms(3) by (auto simp: a np)
  have "length ?a = length msgs" by (simp add: a)
  then show "drop (i + 1) ?a = drop (i + 1) msgs"
    by (intro nth_equalityI) (simp_all add: later)
  show "?a ! j = msgs ! j" if "j < n"
    using that assms(2) by (auto simp: a np)
  show "holds (?S ! j, m_Addr (msgs ! i)) (?a ! (n + j))" if j: "j < length ?S"
  proof -
    have "?a ! (n + j) = ?p ! (n + j)" using j assms(3) by (auto simp: a)
    moreover have "?p ! (n + j) = place (m_Addr (msgs ! i)) (?S ! j) (msgs ! (n + j))" using j by (simp add: np)
    moreover have "length (?S ! j) \<le> length (gb_data (m_Buffer (msgs ! (n + j))))"
    proof -
      have "length (?S ! j) \<le> B" using msg_segs_length [OF nth_mem [OF j]] assms(4) by linarith
      moreover have "msgs ! (n + j) \<in> set msgs" using j fit by simp
      ultimately show ?thesis using assms(5) by fastforce
    qed
    ultimately show ?thesis by (simp add: holds_place)
  qed
qed

lemma split_loop_arrivals:
  assumes "rs = takeWhile (\<lambda>m. m_N m \<noteq> 0) (drop i msgs)" "i + k = length msgs" "n \<le> i" "\<forall>m \<in> set rs. filled_ok getGSO m \<and> m_N m \<le> B"
    and "split_fits getGSO n i rs" "\<forall>m \<in> set msgs. B \<le> length (gb_data (m_Buffer m))"
  shows "\<exists>msgs'. split_loop getGSO k i n msgs = Some (None, n + length (arrivals getGSO rs), msgs') \<and> map frame msgs' = map frame msgs
    \<and> (\<forall>j < n. msgs' ! j = msgs ! j) \<and> (\<forall>j < length (arrivals getGSO rs). holds (arrivals getGSO rs ! j) (msgs' ! (n + j)))"
  using assms
proof (induction k arbitrary: i n msgs rs)
  case 0
  then show ?case by (simp add: arrivals_def)
next
  case (Suc k)
  then have i: "i < length msgs" by simp
  then have d: "drop i msgs = msgs ! i # drop (Suc i) msgs" by (simp add: Cons_nth_drop_Suc)
  show ?case
  proof (cases "m_N (msgs ! i) = 0")
    case True
    then show ?thesis using Suc.prems(1) i by (simp add: d arrivals_def idx_def)
  next
    case False
    define rs' where "rs' = takeWhile (\<lambda>m. m_N m \<noteq> 0) (drop (Suc i) msgs)"
    have rs: "rs = msgs ! i # rs'" using Suc.prems(1) False by (simp add: d rs'_def)
    let ?S = "msg_segs getGSO (msgs ! i)" and ?a = "after_split getGSO i n msgs"
    have fit: "n + length ?S \<le> i + 1" "split_fits getGSO (n + length ?S) (i + 1) rs'" using split_fits_Cons Suc.prems(5) rs by blast+
    have ok: "filled_ok getGSO (msgs ! i)" "m_N (msgs ! i) \<le> B" using Suc.prems(4) rs by auto
    note f = after_split_facts [OF i Suc.prems(3) fit(1) ok(2) Suc.prems(6)]
    have la: "length ?a = length msgs" using f(1) by (metis length_map)
    have big: "\<forall>m \<in> set ?a. B \<le> length (gb_data (m_Buffer m))"
    proof
      fix m assume "m \<in> set ?a"
      then have "frame m \<in> set (map frame msgs)" unfolding f(1) [symmetric] by simp
      then show "B \<le> length (gb_data (m_Buffer m))" using Suc.prems(6) by (auto simp: frame_def)
    qed
    have "rs' = takeWhile (\<lambda>m. m_N m \<noteq> 0) (drop (i + 1) ?a)" using f(2) by (simp add: rs'_def)
    from Suc.IH [OF this _ fit(1) _ fit(2) big] obtain msgs' where
      r: "split_loop getGSO k (i + 1) (n + length ?S) ?a = Some (None, n + length ?S + length (arrivals getGSO rs'), msgs')"
        "map frame msgs' = map frame ?a" "\<forall>j < n + length ?S. msgs' ! j = ?a ! j"
        "\<forall>j < length (arrivals getGSO rs'). holds (arrivals getGSO rs' ! j) (msgs' ! (n + length ?S + j))"
      using Suc.prems(2,4) rs la by auto
    have ar: "arrivals getGSO rs = map (\<lambda>seg. (seg, m_Addr (msgs ! i))) ?S @ arrivals getGSO rs'" by (simp add: rs arrivals_def)
    have "holds (arrivals getGSO rs ! j) (msgs' ! (n + j))" if j: "j < length (arrivals getGSO rs)" for j
    proof (cases "j < length ?S")
      case True
      then show ?thesis using f(4) [of j] r(3) by (simp add: ar nth_append)
    next
      case False
      then show ?thesis using r(4) [rule_format, of "j - length ?S"] j by (simp add: ar nth_append)
    qed
    then show ?thesis
      using r f(1,3) split_loop_step [OF ok(1) i fit(1), of k] by (intro exI [of _ msgs']) (auto simp: ar)
  qed
qed

section \<open>What the socket delivers\<close>

text \<open>One filled message: the data, the control messages and the sender. \<open>ReadBatch\<close> fills the first messages it is given and leaves the others.\<close>

record arrival =
  av_data :: bytes
  av_oob :: bytes
  av_addr :: UDPAddr

definition fill :: "arrival \<Rightarrow> Message \<Rightarrow> Message" where
  "fill a m =
     m\<lparr>m_Buffer := (m_Buffer m)\<lparr>gb_data := put_at 0 (av_data a) (gb_data (m_Buffer m))\<rparr>, m_N := length (av_data a),
       m_OOB := (m_OOB m)\<lparr>c_arr := put_at 0 (av_oob a) (c_arr (m_OOB m))\<rparr>, m_NN := length (av_oob a), m_Addr := Some (av_addr a)\<rparr>"

definition fills :: "arrival list \<Rightarrow> Message list \<Rightarrow> Message list" where
  "fills as ms = map2 fill as ms @ drop (length as) ms"

text \<open>What the kernel guarantees: data that fits into a buffer, control messages that fit into the control buffer, and for coalesced datagrams
  their size, which is not more than all of the data, and at most 64 of them.\<close>

definition arrival_segs :: "cmsg_lib \<Rightarrow> arrival \<Rightarrow> bytes list" where
  "arrival_segs lib a = (case getGSOSize lib (av_oob a) of Some (Inr g) \<Rightarrow> cut_at g (av_data a) | _ \<Rightarrow> [])"

definition arrival_ok :: "cmsg_lib \<Rightarrow> arrival \<Rightarrow> bool" where
  "arrival_ok lib a \<longleftrightarrow>
     av_data a \<noteq> [] \<and> length (av_data a) \<le> 65535 \<and> length (av_oob a) \<le> stickyControlSize lib + gsoControlSize lib
     \<and> (\<exists>g. getGSOSize lib (av_oob a) = Some (Inr g) \<and> g \<le> length (av_data a))
     \<and> length (arrival_segs lib a) \<le> udpSegmentMaxDatagrams"

definition arrival_list :: "cmsg_lib \<Rightarrow> arrival list \<Rightarrow> (bytes \<times> UDPAddr) list" where
  "arrival_list lib as = concat (map (\<lambda>a. map (\<lambda>seg. (seg, av_addr a)) (arrival_segs lib a)) as)"

lemma length_fills [simp]: "length as \<le> length ms \<Longrightarrow> length (fills as ms) = length ms"
  by (simp add: fills_def)

text \<open>A message ready for the socket: empty, a buffer of the largest size and the control buffer open to its capacity.\<close>

definition lent :: "cmsg_lib \<Rightarrow> Message \<Rightarrow> bool" where
  "lent lib m \<longleftrightarrow> m_N m = 0 \<and> m_NN m = 0 \<and> 65535 \<le> length (gb_data (m_Buffer m))
     \<and> c_len (m_OOB m) = length (c_arr (m_OOB m)) \<and> length (c_arr (m_OOB m)) = stickyControlSize lib + gsoControlSize lib"

lemma fill_facts:
  assumes "lent lib m" "arrival_ok lib a"
  shows "gso_of (getGSOSize lib) (fill a m) = getGSOSize lib (av_oob a)" "msg_segs (getGSOSize lib) (fill a m) = arrival_segs lib a"
    "filled_ok (getGSOSize lib) (fill a m)" "m_N (fill a m) \<le> 65535" "m_N (fill a m) \<noteq> 0" "m_Addr (fill a m) = Some (av_addr a)"
    "length (gb_data (m_Buffer (fill a m))) = length (gb_data (m_Buffer m))"
    "length (c_arr (m_OOB (fill a m))) = length (c_arr (m_OOB m))" "c_len (m_OOB (fill a m)) = c_len (m_OOB m)"
    "take (m_NN (fill a m)) (c_bytes (m_OOB (fill a m))) = av_oob a"
proof -
  have l: "length (av_data a) \<le> length (gb_data (m_Buffer m))" "length (av_oob a) \<le> length (c_arr (m_OOB m))"
    using assms by (auto simp: lent_def arrival_ok_def)
  show o: "take (m_NN (fill a m)) (c_bytes (m_OOB (fill a m))) = av_oob a"
    using l assms(1) by (simp add: fill_def c_bytes_def lent_def put_at_def)
  then show g: "gso_of (getGSOSize lib) (fill a m) = getGSOSize lib (av_oob a)" by (simp add: gso_of_def)
  have d: "take (m_N (fill a m)) (gb_data (m_Buffer (fill a m))) = av_data a" using l by (simp add: fill_def put_at_def)
  show "msg_segs (getGSOSize lib) (fill a m) = arrival_segs lib a" unfolding msg_segs_def arrival_segs_def g d ..
  show "m_N (fill a m) \<le> 65535" "m_N (fill a m) \<noteq> 0" "m_Addr (fill a m) = Some (av_addr a)"
    "length (gb_data (m_Buffer (fill a m))) = length (gb_data (m_Buffer m))"
    "length (c_arr (m_OOB (fill a m))) = length (c_arr (m_OOB m))" "c_len (m_OOB (fill a m)) = c_len (m_OOB m)"
    using assms(2) by (auto simp: fill_def arrival_ok_def)
  show "filled_ok (getGSOSize lib) (fill a m)"
    using assms l g by (auto simp: filled_ok_def arrival_ok_def fill_def c_bytes_def lent_def)
qed

lemma fills_cases:
  assumes "m \<in> set (take k msgs @ fills as (drop k msgs))"
  obtains "m \<in> set msgs" | a m' where "m = fill a m'" "a \<in> set as" "m' \<in> set (drop k msgs)"
proof -
  have "m \<in> set msgs \<or> m \<in> set (map2 fill as (drop k msgs))" using assms by (auto simp: fills_def dest: in_set_takeD in_set_dropD)
  then show thesis using that by (auto dest: set_zip_leftD set_zip_rightD)
qed

lemma take_map2: "take j (map2 f xs ys) = map2 f (take j xs) ys"
proof (induction xs arbitrary: j ys)
  case (Cons x xs)
  then show ?case by (cases j; cases ys) simp_all
qed simp

lemma fills_received:
  assumes "\<forall>m \<in> set ms. lent lib m" "\<forall>a \<in> set as. arrival_ok lib a" "length as \<le> length ms"
  shows "takeWhile (\<lambda>m. m_N m \<noteq> 0) (fills as ms) = map2 fill as ms"
    and "arrivals (getGSOSize lib) (map2 fill (take j as) ms) = map (map_prod id Some) (arrival_list lib (take j as))"
    and "\<forall>m \<in> set (map2 fill as ms). filled_ok (getGSOSize lib) m \<and> m_N m \<le> 65535"
proof -
  have z: "x \<in> set ms \<and> y \<in> set as" if "(y, x) \<in> set (zip as ms)" for x y
    using that by (auto dest: set_zip_leftD set_zip_rightD)
  then show f: "\<forall>m \<in> set (map2 fill as ms). filled_ok (getGSOSize lib) m \<and> m_N m \<le> 65535"
    using assms(1,2) fill_facts(3,4) by fastforce
  have all: "\<forall>m \<in> set (map2 fill as ms). m_N m \<noteq> 0" using f by (auto simp: filled_ok_def)
  have "\<forall>m \<in> set (drop (length as) ms). m_N m = 0" using assms(1) by (auto simp: lent_def dest: in_set_dropD)
  then have "takeWhile (\<lambda>m. m_N m \<noteq> 0) (drop (length as) ms) = []" by (cases "drop (length as) ms") auto
  moreover have "takeWhile (\<lambda>m. m_N m \<noteq> 0) (map2 fill as ms @ drop (length as) ms)
      = map2 fill as ms @ takeWhile (\<lambda>m. m_N m \<noteq> 0) (drop (length as) ms)"
    by (rule takeWhile_append2) (use all in blast)
  ultimately show "takeWhile (\<lambda>m. m_N m \<noteq> 0) (fills as ms) = map2 fill as ms" unfolding fills_def by simp
  have h: "arrivals (getGSOSize lib) (map2 fill bs ms') = map (map_prod id Some) (arrival_list lib bs)"
    if "\<forall>m \<in> set ms'. lent lib m" "\<forall>a \<in> set bs. arrival_ok lib a" "length bs \<le> length ms'" for bs ms'
    using that
  proof (induction bs arbitrary: ms')
    case (Cons a bs)
    then obtain m ms1 where "ms' = m # ms1" by (cases ms') auto
    then show ?case using Cons fill_facts(2,6) [of lib m a] by (simp add: arrivals_def arrival_list_def comp_def)
  qed (simp add: arrivals_def arrival_list_def)
  show "arrivals (getGSOSize lib) (map2 fill (take j as) ms) = map (map_prod id Some) (arrival_list lib (take j as))"
    by (rule h) (use assms in \<open>auto dest: in_set_takeD\<close>)
qed

section \<open>Receiving a batch\<close>

lemma find_pktinfo_total:
  assumes "cmsg_ok lib"
  shows "\<exists>src. find_pktinfo lib bs = Some src"
proof (induction "length bs" arbitrary: bs rule: less_induct)
  case less
  show ?case
  proof (cases "SizeofCmsghdr lib < length bs \<and> ParseOne lib bs \<noteq> None")
    case True
    then obtain h dat rest where p: "ParseOne lib bs = Some (h, dat, rest)" by auto
    from less [OF cmsg_ok_shorter [OF assms p]] show ?thesis
      using p by (subst find_pktinfo.simps) auto
  qed (subst find_pktinfo.simps, auto split: option.splits)
qed

lemma find_pktinfo_Nil [simp]: "find_pktinfo lib [] = Some []"
  by (subst find_pktinfo.simps) simp

lemma segments_nonempty: "seg \<in> set (segments g xs) \<Longrightarrow> seg \<noteq> []"
  by (induction g xs rule: segments.induct) (subst (asm) (2) segments.simps, fastforce split: if_splits)

lemma arrival_segs_nonempty: "arrival_ok lib a \<Longrightarrow> seg \<in> set (arrival_segs lib a) \<Longrightarrow> seg \<noteq> []"
  by (auto simp: arrival_segs_def cut_at_def arrival_ok_def split: if_splits dest: segments_nonempty)

definition reports :: "cmsg_lib \<Rightarrow> Message \<Rightarrow> UDPAddr \<Rightarrow> bytes \<Rightarrow> bool" where
  "reports lib m addr src \<longleftrightarrow> m_N m \<noteq> 0 \<and> m_Addr m = Some addr \<and> m_NN m \<le> length (c_bytes (m_OOB m))
     \<and> find_pktinfo lib (take (m_NN m) (c_bytes (m_OOB m))) = Some src"

lemma report_msgs_all:
  assumes "\<forall>j. i \<le> j \<and> j < i + k \<longrightarrow> reports lib (msgs ! j) (addr j) (src j)"
    and "i + k \<le> length msgs" "i + k \<le> length sizes" "i + k \<le> length eps"
  shows "\<exists>sizes' eps'. report_msgs lib k i msgs sizes eps = Some (sizes', eps')
    \<and> (\<forall>j. i \<le> j \<and> j < i + k \<longrightarrow> sizes' ! j = m_N (msgs ! j) \<and> eps' ! j = Some ((AddrPort_endpoint (addr j))\<lparr>ep_src := src j\<rparr>))
    \<and> (\<forall>j < i. sizes' ! j = sizes ! j \<and> eps' ! j = eps ! j)"
  using assms
proof (induction k arbitrary: i sizes eps)
  case (Suc k)
  let ?ep = "(AddrPort_endpoint (addr i))\<lparr>ep_src := src i\<rparr>"
  let ?sizes = "sizes[i := m_N (msgs ! i)]" and ?eps = "eps[i := Some ?ep]"
  have i: "reports lib (msgs ! i) (addr i) (src i)" using Suc.prems(1) by simp
  have IH: "\<exists>sizes' eps'. report_msgs lib k (i + 1) msgs ?sizes ?eps = Some (sizes', eps')
    \<and> (\<forall>j. i + 1 \<le> j \<and> j < i + 1 + k \<longrightarrow> sizes' ! j = m_N (msgs ! j) \<and> eps' ! j = Some ((AddrPort_endpoint (addr j))\<lparr>ep_src := src j\<rparr>))
    \<and> (\<forall>j < i + 1. sizes' ! j = ?sizes ! j \<and> eps' ! j = ?eps ! j)"
    by (rule Suc.IH) (use Suc.prems in auto)
  then obtain sizes' eps' where r: "report_msgs lib k (i + 1) msgs ?sizes ?eps = Some (sizes', eps')"
    and mid: "\<forall>j. i + 1 \<le> j \<and> j < i + 1 + k \<longrightarrow> sizes' ! j = m_N (msgs ! j) \<and> eps' ! j = Some ((AddrPort_endpoint (addr j))\<lparr>ep_src := src j\<rparr>)"
    and low: "\<forall>j < i + 1. sizes' ! j = ?sizes ! j \<and> eps' ! j = ?eps ! j" by blast
  have g: "getSrcFromControl lib (take (m_NN (msgs ! i)) (c_bytes (m_OOB (msgs ! i)))) (AddrPort_endpoint (addr i)) = Some ?ep"
    using i by (simp add: getSrcFromControl_def reports_def ClearSrc_def)
  have s: "report_msgs lib (Suc k) i msgs sizes eps = Some (sizes', eps')"
    using Suc.prems(2-4) i r g by (simp add: idx_def store_def slice_at_def go_slice_def reports_def)
  have "sizes' ! j = m_N (msgs ! j) \<and> eps' ! j = Some ((AddrPort_endpoint (addr j))\<lparr>ep_src := src j\<rparr>)" if "i \<le> j" "j < i + Suc k" for j
  proof (cases "j = i")
    case True
    then show ?thesis using low Suc.prems(3,4) by simp
  next
    case False
    then show ?thesis using mid that by simp
  qed
  moreover have "\<forall>j < i. sizes' ! j = sizes ! j \<and> eps' ! j = eps ! j" using low by simp
  ultimately show ?case using s by blast
qed auto

definition lend :: "gro_buf \<Rightarrow> Message \<Rightarrow> Message" where
  "lend buf m = m\<lparr>m_Buffer := buf, m_OOB := (m_OOB m)\<lparr>c_len := length (c_arr (m_OOB m))\<rparr>\<rparr>"

lemma lend_buffers_all: "length bufs = length msgs \<Longrightarrow> lend_buffers bufs msgs = Some (map2 lend bufs msgs)"
proof (induction bufs arbitrary: msgs)
  case (Cons b bufs)
  then show ?case by (cases msgs) (simp_all add: lend_def)
qed simp

lemma lend_lent:
  assumes "msgs_ok lib msgs" "msgs_clean msgs" "\<forall>b \<in> set bufs. length (gb_data b) = 65535" "m \<in> set (map2 lend bufs msgs)"
  shows "lent lib m"
proof -
  obtain b m' where "m = lend b m'" "b \<in> set bufs" "m' \<in> set msgs"
    using assms(4) by (auto dest: set_zip_leftD set_zip_rightD)
  then show ?thesis using assms(1-3) by (auto simp: msgs_ok_def msgs_clean_def lent_def lend_def)
qed

text \<open>The read with offload: the last two messages are filled, and the split restores the datagrams from the front.\<close>

lemma read_msgs_split:
  assumes lib: "cmsg_ok lib" and ms: "length msgs = IdealBatchSize" "\<forall>m \<in> set msgs. lent lib m"
    and as: "length as \<le> IdealBatchSize div udpSegmentMaxDatagrams" "\<forall>a \<in> set as. arrival_ok lib a"
    and R: "\<And>ms. length as \<le> length ms \<Longrightarrow> R ms = Inr (length as, fills as ms)"
  shows "\<exists>msgs'. read_msgs lib R True msgs = Some (None, length (arrival_list lib as), msgs')
    \<and> map frame msgs' = map frame (take 126 msgs @ fills as (drop 126 msgs))
    \<and> (\<forall>j < length (arrival_list lib as). holds (map_prod id Some (arrival_list lib as ! j)) (msgs' ! j))
    \<and> length (arrival_list lib as) \<le> IdealBatchSize"
proof -
  have n2: "length as \<le> 2" using as(1) by (simp add: IdealBatchSize_def udpSegmentMaxDatagrams_def)
  let ?ms = "drop 126 msgs" and ?all = "take 126 msgs @ fills as (drop 126 msgs)"
  have l: "length ?ms = 2" "length as \<le> length ?ms" "length ?all = 128" using ms(1) n2 by (simp_all add: IdealBatchSize_def)
  have lent: "\<forall>m \<in> set ?ms. lent lib m" using ms(2) by (auto dest: in_set_dropD)
  note f = fills_received [OF lent as(2) l(2)]
  have rs: "map2 fill as ?ms = takeWhile (\<lambda>m. m_N m \<noteq> 0) (drop 126 ?all)" using f(1) ms(1) by (simp add: IdealBatchSize_def)
  have ar: "arrivals (getGSOSize lib) (map2 fill as ?ms) = map (map_prod id Some) (arrival_list lib as)"
    using f(2) [of "length as"] by simp
  have len: "length (arrival_list lib (take j as)) \<le> 64 * j" for j
  proof -
    have "length (arrival_list lib bs) \<le> 64 * length bs" if "\<forall>a \<in> set bs. arrival_ok lib a" for bs
      using that by (induction bs) (auto simp: arrival_list_def arrival_ok_def udpSegmentMaxDatagrams_def)
    from this [of "take j as"] as(2) show ?thesis by (fastforce dest: in_set_takeD)
  qed
  have take2: "take j (map2 fill as ?ms) = map2 fill (take j as) ?ms" for j
    by (rule take_map2)
  have fits: "split_fits (getGSOSize lib) 0 126 (map2 fill as ?ms)"
    unfolding split_fits_def
  proof (intro allI impI)
    fix j assume "j < length (map2 fill as ?ms)"
    then have "j < 2" using l by simp
    then have "64 * Suc j \<le> 126 + Suc j" by auto
    then show "0 + length (arrivals (getGSOSize lib) (take (Suc j) (map2 fill as ?ms))) \<le> 126 + Suc j"
      using len [of "Suc j"] by (simp only: take2 f(2) length_map)
  qed
  have big: "\<forall>m \<in> set ?all. 65535 \<le> length (gb_data (m_Buffer m))"
  proof
    fix m assume "m \<in> set ?all"
    then show "65535 \<le> length (gb_data (m_Buffer m))"
    proof (cases rule: fills_cases)
      case 1
      then show ?thesis using ms(2) by (auto simp: lent_def)
    next
      case (2 a m')
      then show ?thesis using lent as(2) fill_facts(7) [of lib m' a] by (auto simp: lent_def)
    qed
  qed
  obtain msgs' where r: "split_loop (getGSOSize lib) 2 126 0 ?all = Some (None, 0 + length (arrivals (getGSOSize lib) (map2 fill as ?ms)), msgs')"
    "map frame msgs' = map frame ?all"
    "\<forall>j < length (arrivals (getGSOSize lib) (map2 fill as ?ms)). holds (arrivals (getGSOSize lib) (map2 fill as ?ms) ! j) (msgs' ! (0 + j))"
    using split_loop_arrivals [OF rs _ _ f(3) fits big] l(3) by auto
  have "read_msgs lib R True msgs = split_loop (getGSOSize lib) 2 126 0 ?all"
    using R [OF l(2)] l ms(1) by (simp add: read_msgs_def Let_def splitCoalescedMessages_def IdealBatchSize_def udpSegmentMaxDatagrams_def)
  then show ?thesis
    using r len [of "length as"] n2 unfolding ar by (intro exI [of _ msgs']) (simp add: IdealBatchSize_def)
qed

lemma msgs_ok_frames:
  assumes "msgs_ok lib msgs" "map frame msgs' = map frame ms" "map (\<lambda>m. length (c_arr (m_OOB m))) ms = map (\<lambda>m. length (c_arr (m_OOB m))) msgs"
  shows "msgs_ok lib msgs'"
proof -
  have "map (\<lambda>m. length (c_arr (m_OOB m))) msgs' = map (\<lambda>(c, _). length (c_arr c)) (map frame msgs')" by (simp add: frame_def)
  also have "\<dots> = map (\<lambda>m. length (c_arr (m_OOB m))) msgs" unfolding assms(2) using assms(3) by (simp add: frame_def comp_def)
  finally have e: "map (\<lambda>m. length (c_arr (m_OOB m))) msgs' = map (\<lambda>m. length (c_arr (m_OOB m))) msgs" .
  have "length msgs' = length msgs" using arg_cong [OF e, of length] by simp
  moreover have "(\<lambda>m. length (c_arr (m_OOB m))) ` set msgs' = (\<lambda>m. length (c_arr (m_OOB m))) ` set msgs"
    using arg_cong [OF e, of set] by simp
  ultimately show ?thesis using assms(1) by (fastforce simp: msgs_ok_def)
qed

lemma caps_fills:
  assumes "\<forall>m \<in> set ms. lent lib m" "\<forall>a \<in> set as. arrival_ok lib a" "length as \<le> length ms"
  shows "map (\<lambda>m. length (c_arr (m_OOB m))) (fills as ms) = map (\<lambda>m. length (c_arr (m_OOB m))) ms"
  using assms
proof (induction as arbitrary: ms)
  case (Cons a as)
  then obtain m ms' where m: "ms = m # ms'" by (cases ms) auto
  then show ?case using Cons fill_facts(8) [of lib m a] by (simp add: fills_def)
qed (simp add: fills_def)

text \<open>What a message reports after the split: the data and the sender of its datagram, and no source unless it is one of the messages
  the socket filled itself.\<close>

lemma split_reports:
  assumes lib: "cmsg_ok lib" and ms: "length msgs = IdealBatchSize" "\<forall>m \<in> set msgs. lent lib m"
    and as: "length as \<le> 2" "\<forall>a \<in> set as. arrival_ok lib a"
    and fr: "map frame msgs' = map frame (take 126 msgs @ fills as (drop 126 msgs))"
    and h: "holds (map_prod id Some (seg, addr)) (msgs' ! j)" and j: "j < IdealBatchSize" and seg: "seg \<noteq> []"
  shows "\<exists>src. reports lib (msgs' ! j) addr src \<and> (j < 126 \<longrightarrow> src = [])"
proof -
  let ?all = "take 126 msgs @ fills as (drop 126 msgs)"
  have l: "length ?all = 128" using ms(1) as(1) by (simp add: IdealBatchSize_def)
  then have l': "length msgs' = 128" using fr by (metis length_map)
  have f: "frame (msgs' ! j) = frame (?all ! j)" using fr j l l' by (metis IdealBatchSize_def nth_map)
  have base: "m_N (msgs' ! j) \<noteq> 0" "m_Addr (msgs' ! j) = Some addr" using h seg by (auto simp: holds_def)
  have nn: "m_NN (?all ! j) \<le> length (c_bytes (m_OOB (?all ! j)))"
  proof -
    have lent: "\<forall>m \<in> set (drop 126 msgs). lent lib m" using ms(2) by (auto dest: in_set_dropD)
    have "?all ! j \<in> set ?all" using j l by (simp only: IdealBatchSize_def nth_mem)
    then show ?thesis
    proof (cases rule: fills_cases)
      case 1
      then show ?thesis using ms(2) by (auto simp: lent_def)
    next
      case (2 a m)
      then show ?thesis using fill_facts(3) [of lib m a] lent as(2) by (simp add: filled_ok_def)
    qed
  qed
  obtain src where src: "find_pktinfo lib (take (m_NN (?all ! j)) (c_bytes (m_OOB (?all ! j)))) = Some src"
    using find_pktinfo_total [OF lib] by blast
  have "m_NN (?all ! j) = 0" if "j < 126"
  proof -
    have "?all ! j = msgs ! j" using that ms(1) by (simp add: nth_append IdealBatchSize_def)
    then show ?thesis using that ms by (simp add: lent_def IdealBatchSize_def)
  qed
  then have "j < 126 \<longrightarrow> src = []" using src by auto
  moreover have "reports lib (msgs' ! j) addr src" using base nn src f by (simp add: reports_def frame_def)
  ultimately show ?thesis by blast
qed

lemma receive_read:
  assumes lib: "cmsg_ok lib" and s: "bind_ok lib s"
    and bufs: "length bufs = IdealBatchSize" "\<forall>b \<in> set bufs. length (gb_data b) = 65535"
    and as: "length as \<le> IdealBatchSize div udpSegmentMaxDatagrams" "\<forall>a \<in> set as. arrival_ok lib a"
    and R: "\<And>ms. length as \<le> length ms \<Longrightarrow> R ms = Inr (length as, fills as ms)"
  shows "\<exists>msgs0 s1 msgs msgs' src. getMessages lib pick s = (msgs0, s1) \<and> bind_ok lib s1 \<and> lend_buffers bufs msgs0 = Some msgs
    \<and> read_msgs lib R True msgs = Some (None, length (arrival_list lib as), msgs') \<and> msgs_ok lib msgs'
    \<and> length (arrival_list lib as) \<le> IdealBatchSize
    \<and> (\<forall>j < length (arrival_list lib as). holds (map_prod id Some (arrival_list lib as ! j)) (msgs' ! j)
         \<and> reports lib (msgs' ! j) (snd (arrival_list lib as ! j)) (src j) \<and> (j < 126 \<longrightarrow> src j = []))"
proof -
  let ?T = "arrival_list lib as"
  obtain msgs0 s1 where g: "getMessages lib pick s = (msgs0, s1)" by fastforce
  note g' = getMessages_ok [OF s g]
  have l0: "length bufs = length msgs0" using bufs(1) g'(1) by (simp add: msgs_ok_def)
  define msgs where "msgs = map2 lend bufs msgs0"
  have lm: "length msgs = IdealBatchSize" using l0 bufs(1) by (simp add: msgs_def)
  have lent: "\<forall>m \<in> set msgs. lent lib m" unfolding msgs_def using lend_lent [OF g'(1,2) bufs(2)] by blast
  have okm: "msgs_ok lib msgs" using lm lent by (simp add: msgs_ok_def lent_def)
  obtain msgs' where r: "read_msgs lib R True msgs = Some (None, length ?T, msgs')"
    and fr: "map frame msgs' = map frame (take 126 msgs @ fills as (drop 126 msgs))"
    and h: "\<And>j. j < length ?T \<Longrightarrow> holds (map_prod id Some (?T ! j)) (msgs' ! j)" and lT: "length ?T \<le> IdealBatchSize"
    using read_msgs_split [OF lib lm lent as R] by blast
  have n2: "length as \<le> 2" using as(1) by (simp add: IdealBatchSize_def udpSegmentMaxDatagrams_def)
  have lent2: "\<forall>m \<in> set (drop 126 msgs). lent lib m" "length as \<le> length (drop 126 msgs)"
    using lent n2 lm by (auto simp: IdealBatchSize_def dest: in_set_dropD)
  have "map (\<lambda>m. length (c_arr (m_OOB m))) (take 126 msgs @ fills as (drop 126 msgs)) = map (\<lambda>m. length (c_arr (m_OOB m))) msgs"
    unfolding map_append caps_fills [OF lent2(1) as(2) lent2(2)] by (metis append_take_drop_id map_append)
  then have ok': "msgs_ok lib msgs'" by (rule msgs_ok_frames [OF okm fr])
  have ne: "[] \<notin> set (arrival_segs lib a)" if "a \<in> set as" for a using that as(2) arrival_segs_nonempty by blast
  have "\<exists>src. reports lib (msgs' ! j) (snd (?T ! j)) src \<and> (j < 126 \<longrightarrow> src = [])" if j: "j < length ?T" for j
  proof -
    have "fst (?T ! j) \<noteq> []" using nth_mem [OF j] ne by (auto simp: arrival_list_def)
    then show ?thesis
      using split_reports [OF lib lm lent n2 as(2) fr, of "fst (?T ! j)" "snd (?T ! j)" j] h [OF j] j lT by auto
  qed
  then obtain src where "\<And>j. j < length ?T \<Longrightarrow> reports lib (msgs' ! j) (snd (?T ! j)) (src j) \<and> (j < 126 \<longrightarrow> src j = [])" by metis
  moreover have "lend_buffers bufs msgs0 = Some msgs" unfolding msgs_def by (rule lend_buffers_all [OF l0])
  ultimately show ?thesis using g g'(3) r ok' lT h by blast
qed

text \<open>C24. Receiving from a socket that coalesces: whatever the socket delivers within the limits of the kernel, \<open>receiveIP\<close> returns without a panic
  or an overflow and reports exactly the datagrams, in their order, each with its data, its size and its sender. The endpoints it makes
  have no source address for the first 126 datagrams, although the control messages the socket delivered may contain it.\<close>

theorem receiveIP_splits:
  assumes lib: "cmsg_ok lib" and s: "bind_ok lib s"
    and rc: "length (rc_bufs rc) = IdealBatchSize" "\<forall>b \<in> set (rc_bufs rc). length (gb_data b) = 65535"
      "IdealBatchSize \<le> length (rc_sizes rc)" "IdealBatchSize \<le> length (rc_eps rc)"
    and as: "length as \<le> IdealBatchSize div udpSegmentMaxDatagrams" "\<forall>a \<in> set as. arrival_ok lib a"
    and R: "\<And>ms. length as \<le> length ms \<Longrightarrow> R ms = Inr (length as, fills as ms)"
  shows "\<exists>rc' s'. receiveIP lib R pick True rc s = Some (length (arrival_list lib as), None, rc', s') \<and> bind_ok lib s'
    \<and> (\<forall>k < length (arrival_list lib as).
         rc_sizes rc' ! k = length (fst (arrival_list lib as ! k))
         \<and> take (rc_sizes rc' ! k) (gb_data (rc_bufs rc' ! k)) = fst (arrival_list lib as ! k)
         \<and> (\<exists>src. rc_eps rc' ! k = Some ((AddrPort_endpoint (snd (arrival_list lib as ! k)))\<lparr>ep_src := src\<rparr>) \<and> (k < 126 \<longrightarrow> src = [])))"
proof -
  let ?T = "arrival_list lib as"
  obtain msgs0 s1 msgs msgs' src where g: "getMessages lib pick s = (msgs0, s1)" "bind_ok lib s1" "lend_buffers (rc_bufs rc) msgs0 = Some msgs"
    and r: "read_msgs lib R True msgs = Some (None, length ?T, msgs')" and ok': "msgs_ok lib msgs'" and lT: "length ?T \<le> IdealBatchSize"
    and h: "\<And>j. j < length ?T \<Longrightarrow> holds (map_prod id Some (?T ! j)) (msgs' ! j)"
    and src: "\<And>j. j < length ?T \<Longrightarrow> reports lib (msgs' ! j) (snd (?T ! j)) (src j) \<and> (j < 126 \<longrightarrow> src j = [])"
    using receive_read [OF lib s rc(1,2) as R, of pick] by blast
  have l': "length msgs' = IdealBatchSize" using ok' by (simp add: msgs_ok_def)
  have "\<exists>sizes' eps'. report_msgs lib (length ?T) 0 msgs' (rc_sizes rc) (rc_eps rc) = Some (sizes', eps')
    \<and> (\<forall>j. 0 \<le> j \<and> j < 0 + length ?T \<longrightarrow> sizes' ! j = m_N (msgs' ! j) \<and> eps' ! j = Some ((AddrPort_endpoint (snd (?T ! j)))\<lparr>ep_src := src j\<rparr>))
    \<and> (\<forall>j < 0. sizes' ! j = rc_sizes rc ! j \<and> eps' ! j = rc_eps rc ! j)"
    by (rule report_msgs_all) (use src lT l' rc(3,4) in auto)
  then obtain sizes' eps' where rep: "report_msgs lib (length ?T) 0 msgs' (rc_sizes rc) (rc_eps rc) = Some (sizes', eps')"
    and re: "\<And>j. j < length ?T \<Longrightarrow> sizes' ! j = m_N (msgs' ! j) \<and> eps' ! j = Some ((AddrPort_endpoint (snd (?T ! j)))\<lparr>ep_src := src j\<rparr>)"
    by auto
  let ?rc = "\<lparr>rc_bufs = map m_Buffer msgs', rc_sizes = sizes', rc_eps = eps'\<rparr>"
  have run: "receiveIP lib R pick True rc s = Some (length ?T, None, ?rc, putMessages msgs' s1)"
    using r rep rc(1) l' g by (simp add: receiveIP_def Let_def)
  have "m_N (msgs' ! k) = length (fst (?T ! k)) \<and> take (length (fst (?T ! k))) (gb_data (m_Buffer (msgs' ! k))) = fst (?T ! k)"
    if "k < length ?T" for k
    using h [OF that] unfolding holds_def fst_map_prod id_apply by metis
  then show ?thesis
    using run putMessages_ok [OF g(2) ok'] re src lT l' by (intro exI [of _ ?rc] exI [of _ "putMessages msgs' s1"]) auto
qed

text \<open>Three datagrams of one sender in one message, with the control message of \<open>UDP_GRO\<close>.\<close>

definition example_arrival :: arrival where
  "example_arrival =
     \<lparr>av_data = [1, 2, 3, 4, 5],
      av_oob = example_hdr \<lparr>ch_Len = 18, ch_Level = SOL_UDP, ch_Type = UDP_GRO\<rparr> @ [2, 0] @ replicate 6 0,
      av_addr = \<lparr>ua_arr = [192, 0, 2, 1], ua_len = 4, ua_Port = 51820\<rparr>\<rparr>"

definition example_received :: received where
  "example_received = \<lparr>rc_bufs = replicate 128 \<lparr>gb_data = replicate 65535 0, gb_cap = 65535\<rparr>, rc_sizes = replicate 128 0, rc_eps = replicate 128 None\<rparr>"

lemma example_arrival_segs:
  "getGSOSize example_cmsg (av_oob example_arrival) = Some (Inr 2)" "arrival_segs example_cmsg example_arrival = [[1, 2], [3, 4], [5]]"
proof -
  have n: "native_bytes (cl_order example_cmsg) 2 (2 :: u16) = [2, 0]"
    by (simp add: example_cmsg_def native_bytes_def le_bytes_def upt_rec)
  show g: "getGSOSize example_cmsg (av_oob example_arrival) = Some (Inr 2)"
    using find_gso_own [OF example_cmsg_ok, of "replicate 6 0" UDP_GRO 2] n
    by (simp add: getGSOSize_def example_arrival_def example_cmsg_def sizeOfGSOData_def UDP_GRO_def)
  show "arrival_segs example_cmsg example_arrival = [[1, 2], [3, 4], [5]]"
    unfolding arrival_segs_def g by (simp add: cut_at_def example_arrival_def segments.simps)
qed

lemma example_arrival_ok: "arrival_ok example_cmsg example_arrival"
  using example_arrival_segs
  by (simp add: arrival_ok_def udpSegmentMaxDatagrams_def)
    (simp add: example_arrival_def example_hdr_def stickyControlSize_def gsoControlSize_def example_cmsg_def)

theorem receiveIP_splits_witness:
  "\<exists>rc' s'. receiveIP example_cmsg (\<lambda>ms. Inr (1, fills [example_arrival] ms)) None True example_received example_bind = Some (3, None, rc', s')
    \<and> rc_sizes rc' ! 2 = 1 \<and> take 1 (gb_data (rc_bufs rc' ! 2)) = [5]"
proof -
  have T: "arrival_list example_cmsg [example_arrival]
      = [([1, 2], av_addr example_arrival), ([3, 4], av_addr example_arrival), ([5], av_addr example_arrival)]"
    using example_arrival_segs(2) by (simp add: arrival_list_def)
  show ?thesis
    using receiveIP_splits [OF example_cmsg_ok example_bind_ok, of example_received "[example_arrival]"
        "\<lambda>ms. Inr (1, fills [example_arrival] ms)" None] example_arrival_ok
    unfolding T by (auto simp: example_received_def IdealBatchSize_def udpSegmentMaxDatagrams_def dest!: spec [of _ 2])
qed

section \<open>Open\<close>

text \<open>A successful round of \<open>open_again\<close>: the two calls that gave the sockets.\<close>

lemma open_again_round:
  assumes "open_again e uport tries = Inr (c4, c6, port)"
  shows "\<exists>k p4 e4 e6. listenNet e (2 * k) False uport = (c4, p4, e4) \<and> listenNet e (2 * k + 1) True p4 = (c6, port, e6)"
  using assms
proof (induction "100 - tries" arbitrary: tries rule: less_induct)
  case less
  obtain d4 p4 e4 where l4: "listenNet e (2 * tries) False uport = (d4, p4, e4)" by (metis prod_cases3)
  obtain d6 p6 e6 where l6: "listenNet e (2 * tries + 1) True p4 = (d6, p6, e6)" by (metis prod_cases3)
  show ?case
  proof (cases "uport = 0 \<and> is_errno EADDRINUSE e6 \<and> tries < 100")
    case True
    then have "open_again e uport (tries + 1) = Inr (c4, c6, port)"
      using less.prems l4 l6 by (subst (asm) open_again.simps) (simp split: if_splits)
    moreover have "100 - (tries + 1) < 100 - tries" using True by linarith
    ultimately show ?thesis by (rule less.hyps [rotated])
  next
    case False
    then have "c4 = d4" "c6 = d6" "port = p6"
      using less.prems l4 l6 by (subst (asm) open_again.simps, auto split: if_splits)+
    then show ?thesis using l4 l6 by blast
  qed
qed

lemma listenNet_Some:
  "listenNet e k is6 q = (c, p, err) \<Longrightarrow>
     (case c of Some d \<Rightarrow> ne_listen e k is6 q = Inr p \<and> d = \<lparr>co_is6 = is6, co_port = p\<rparr> | None \<Rightarrow> p = 0)"
  by (auto simp: listenNet_def split: sum.splits)

text \<open>The system binds a socket to the port it is asked for, and to some port when it is asked for port 0.\<close>

definition listen_ok :: "net_env \<Rightarrow> bool" where
  "listen_ok e \<longleftrightarrow> (\<forall>k is6 q p. ne_listen e k is6 q = Inr p \<longrightarrow> p \<noteq> 0 \<and> (q \<noteq> 0 \<longrightarrow> p = q))"

lemma Open_sockets:
  assumes "StdNetBind_Open e uport s = (Inr (fns, p), s')"
  shows "\<exists>c4 c6 port. open_again e (unat uport) 0 = Inr (c4, c6, port) \<and> p = of_nat port \<and> b_ipv4 s' = c4 \<and> b_ipv6 s' = c6
    \<and> b_ipv4 s = None \<and> b_ipv6 s = None \<and> (c4 \<noteq> None \<or> c6 \<noteq> None)"
  using assms
  by (auto simp: StdNetBind_Open_def open_ipv4_def open_ipv6_def Let_def split: if_splits sum.splits option.splits prod.splits)

text \<open>C28. The port \<open>Open\<close> reports. When both sockets are open they have the same port, the one asked for unless that is 0, and it is the one
  reported. Without IPv6 the port reported is 0, although the IPv4 socket has one; without IPv4 the IPv6 socket is opened on a port the
  system chooses, whatever port was asked for.\<close>

theorem Open_ports:
  assumes "StdNetBind_Open e uport s = (Inr (fns, p), s')" "listen_ok e"
  shows "(\<forall>c4 c6. b_ipv4 s' = Some c4 \<and> b_ipv6 s' = Some c6 \<longrightarrow>
            co_port c6 = co_port c4 \<and> p = of_nat (co_port c4) \<and> (uport \<noteq> 0 \<longrightarrow> p = uport))
    \<and> (b_ipv6 s' = None \<longrightarrow> p = 0 \<and> (\<exists>c4. b_ipv4 s' = Some c4 \<and> co_port c4 \<noteq> 0))
    \<and> (b_ipv4 s' = None \<longrightarrow> (\<exists>k c6. b_ipv6 s' = Some c6 \<and> ne_listen e k True 0 = Inr (co_port c6)))"
proof -
  obtain port where o: "open_again e (unat uport) 0 = Inr (b_ipv4 s', b_ipv6 s', port)" and p: "p = of_nat port"
    and some: "b_ipv4 s' \<noteq> None \<or> b_ipv6 s' \<noteq> None"
    using Open_sockets [OF assms(1)] by blast
  obtain k p4 e4 e6 where l: "listenNet e (2 * k) False (unat uport) = (b_ipv4 s', p4, e4)" "listenNet e (2 * k + 1) True p4 = (b_ipv6 s', port, e6)"
    using open_again_round [OF o] by blast
  note s4 = listenNet_Some [OF l(1)] and s6 = listenNet_Some [OF l(2)]
  have u: "uport \<noteq> 0 \<Longrightarrow> unat uport \<noteq> 0" by (simp add: unat_eq_zero)
  have ok: "ne_listen e k is6 q = Inr r \<Longrightarrow> r \<noteq> 0 \<and> (q \<noteq> 0 \<longrightarrow> r = q)" for k is6 q r
    using assms(2) unfolding listen_ok_def by blast
  show ?thesis
  proof (cases "b_ipv4 s'")
    case None
    then obtain c6 where c6: "b_ipv6 s' = Some c6" using some by auto
    then have "ne_listen e (2 * k + 1) True 0 = Inr (co_port c6)" using s4 s6 None by simp
    then show ?thesis using None c6 by auto
  next
    case (Some c4)
    then have 4: "ne_listen e (2 * k) False (unat uport) = Inr p4" "co_port c4 = p4" "p4 \<noteq> 0" using s4 ok by auto
    show ?thesis
    proof (cases "b_ipv6 s'")
      case None
      then show ?thesis using Some 4 s6 p by simp
    next
      case six: (Some c6)
      then have "ne_listen e (2 * k + 1) True p4 = Inr port" "co_port c6 = port" using s6 by auto
      then have "port = p4" "co_port c6 = p4" using ok 4(3) by blast+
      moreover have "uport \<noteq> 0 \<Longrightarrow> p4 = unat uport" using ok [OF 4(1)] u by blast
      ultimately show ?thesis using Some six 4(2) p by auto
    qed
  qed
qed

text \<open>An IPv4-only system.\<close>

definition example_net :: net_env where
  "example_net = \<lparr>ne_listen = (\<lambda>k is6 q. if is6 then Inl (SyscallError EAFNOSUPPORT) else Inr (if q = 0 then 40000 else q)),
     ne_offload = (\<lambda>_. (True, True)), ne_close = (\<lambda>_. None)\<rparr>"

theorem Open_ports_witness:
  "\<exists>fns p s'. StdNetBind_Open example_net 51820 NewStdNetBind = (Inr (fns, p), s') \<and> b_ipv6 s' = None \<and> p = 0 \<and> b_ipv4 s' \<noteq> None"
proof -
  let ?s = "NewStdNetBind\<lparr>ipv4TxOffload := True, ipv4RxOffload := True, b_ipv4PC := Some \<lparr>co_is6 = False, co_port = 51820\<rparr>,
      b_ipv4 := Some \<lparr>co_is6 = False, co_port = 51820\<rparr>\<rparr>"
  have r: "StdNetBind_Open example_net 51820 NewStdNetBind = (Inr ([ReceiveIPv4 True], of_nat 0), ?s)"
    by (simp add: StdNetBind_Open_def NewStdNetBind_def open_again.simps listenNet_def example_net_def is_errno_def open_ipv4_def open_ipv6_def)
  have "listen_ok example_net" by (auto simp: listen_ok_def example_net_def split: if_splits)
  from Open_ports [OF r this] show ?thesis
    using r by (intro exI [of _ "[ReceiveIPv4 True]"] exI [of _ "of_nat 0"] exI [of _ ?s]) (simp add: NewStdNetBind_def)
qed

section \<open>Reachable binds\<close>

definition caps :: "Message list \<Rightarrow> nat list" where
  "caps ms = map (\<lambda>m. length (c_arr (m_OOB m))) ms"

text \<open>\<open>ReadBatch\<close> writes into the control buffers without replacing them.\<close>

definition keeps_control :: "(Message list \<Rightarrow> net_err + (nat \<times> Message list)) \<Rightarrow> bool" where
  "keeps_control R \<longleftrightarrow> (\<forall>ms n ms'. R ms = Inr (n, ms') \<longrightarrow> caps ms' = caps ms)"

inductive bind_reachable :: "cmsg_lib \<Rightarrow> StdNetBind \<Rightarrow> bool" for lib where
  new_bind: "bind_reachable lib NewStdNetBind"
| open_bind: "bind_reachable lib s \<Longrightarrow> StdNetBind_Open e uport s = (r, s') \<Longrightarrow> bind_reachable lib s'"
| close_bind: "bind_reachable lib s \<Longrightarrow> StdNetBind_Close e s = (err, s') \<Longrightarrow> bind_reachable lib s'"
| send_bind: "bind_reachable lib s \<Longrightarrow> WriteBatch_progress W \<Longrightarrow> send_args lib bufs ep
    \<Longrightarrow> StdNetBind_Send lib W pick pick' bufs ep s w = Some (err, s', w') \<Longrightarrow> bind_reachable lib s'"
| receive_bind: "bind_reachable lib s \<Longrightarrow> keeps_control R
    \<Longrightarrow> call_ReceiveFunc lib R pick f rc s = Some (n, err, rc', s') \<Longrightarrow> bind_reachable lib s'"

lemma msgs_ok_caps: "msgs_ok lib ms \<longleftrightarrow> length (caps ms) = IdealBatchSize \<and> set (caps ms) \<subseteq> {stickyControlSize lib + gsoControlSize lib}"
  by (auto simp: msgs_ok_def caps_def)

lemma caps_update: "i < length ms \<Longrightarrow> length (c_arr (m_OOB m)) = length (c_arr (m_OOB (ms ! i))) \<Longrightarrow> caps (ms[i := m]) = caps ms"
  unfolding caps_def map_update by (metis (no_types, lifting) list_update_id map_update)

lemma split_copy_caps: "split_copy i n start stop ms = Some ms' \<Longrightarrow> caps ms' = caps ms"
  by (auto simp: split_copy_def idx_def bind_eq_Some_conv caps_update split: if_splits)

lemma split_segments_caps: "split_segments i g k start stop n ms = Some (b, n', ms') \<Longrightarrow> caps ms' = caps ms"
  by (induction i g k start stop n ms rule: split_segments.induct)
     (auto simp: bind_eq_Some_conv dest: split_copy_caps split: if_splits)

lemma split_loop_caps: "split_loop getGSO k i n ms = Some (err, n', ms') \<Longrightarrow> caps ms' = caps ms"
proof (induction k arbitrary: i n ms)
  case (Suc k)
  show ?case
  proof (cases "i < length ms \<and> m_N (ms ! i) \<noteq> 0")
    case False
    then show ?thesis using Suc.prems by (auto simp: idx_def split: if_splits)
  next
    case True
    then obtain oob r where o: "getGSO oob = Some r" "(case r of Inl _ \<Rightarrow> Some (Some ErrControl, n, ms)
      | Inr g \<Rightarrow> do {
          (fits, n, ms) \<leftarrow> split_segments i g (if g > 0 then (m_N (ms ! i) + g - 1) div g else 1) 0 (if g > 0 then g else m_N (ms ! i)) n ms;
          if \<not> fits then Some (Some ErrOverflow, n, ms)
          else do { msg \<leftarrow> idx i ms; split_loop getGSO k (i + 1) n (if i + 1 \<noteq> n then ms[i := msg\<lparr>m_N := 0\<rparr>] else ms) } }) = Some (err, n', ms')"
      using Suc.prems by (auto simp: idx_def bind_eq_Some_conv Let_def)
    show ?thesis
    proof (cases r)
      case (Inr g)
      then obtain b n1 ms1 where s: "split_segments i g (if g > 0 then (m_N (ms ! i) + g - 1) div g else 1) 0 (if g > 0 then g else m_N (ms ! i)) n ms
          = Some (b, n1, ms1)"
        and rest: "(if \<not> b then Some (Some ErrOverflow, n1, ms1)
          else do { msg \<leftarrow> idx i ms1; split_loop getGSO k (i + 1) n1 (if i + 1 \<noteq> n1 then ms1[i := msg\<lparr>m_N := 0\<rparr>] else ms1) }) = Some (err, n', ms')"
        using o(2) by (auto simp only: Inr sum.case bind_eq_Some_conv split_paired_Ex prod.case)
      have "caps ms' = caps ms1"
        using rest Suc.IH by (fastforce simp: bind_eq_Some_conv idx_def caps_update split: if_splits)
      then show ?thesis using split_segments_caps [OF s] by simp
    qed (use o(2) in simp)
  qed
qed simp

lemma lend_buffers_caps: "lend_buffers bufs ms = Some ms' \<Longrightarrow> caps ms' = caps ms"
  by (induction bufs ms arbitrary: ms' rule: lend_buffers.induct) (auto simp: bind_eq_Some_conv caps_def)

lemma read_msgs_caps:
  assumes "keeps_control R" "read_msgs lib R rx ms = Some (err, n, ms')"
  shows "caps ms' = caps ms"
proof -
  have R: "R ms = Inr (k, ms') \<Longrightarrow> caps ms' = caps ms" for k ms ms' using assms(1) unfolding keeps_control_def by blast
  have app: "caps (xs @ ys) = caps xs @ caps ys" for xs ys by (simp add: caps_def)
  have td: "caps (take k ms) @ caps (drop k ms) = caps ms" for k ms unfolding app [symmetric] by simp
  show ?thesis
    using assms(2) unfolding read_msgs_def splitCoalescedMessages_def Let_def
    by (auto dest!: split_loop_caps R simp: app td split: if_splits sum.splits)
qed

lemma receiveIP_ok:
  assumes "bind_ok lib s" "keeps_control R" "receiveIP lib R pick rx rc s = Some (n, err, rc', s')"
  shows "bind_ok lib s'"
proof -
  obtain msgs0 s1 where g: "getMessages lib pick s = (msgs0, s1)" by fastforce
  obtain msgs err' k msgs' where m: "lend_buffers (rc_bufs rc) msgs0 = Some msgs" "read_msgs lib R rx msgs = Some (err', k, msgs')"
    "s' = putMessages msgs' s1"
    using assms(3) by (auto simp: receiveIP_def g Let_def bind_eq_Some_conv split: if_splits)
  have "caps msgs' = caps msgs0" using read_msgs_caps [OF assms(2) m(2)] lend_buffers_caps [OF m(1)] by simp
  then have "msgs_ok lib msgs'" using getMessages_ok(1) [OF assms(1) g] by (simp add: msgs_ok_caps)
  then show ?thesis unfolding m(3) using getMessages_ok(3) [OF assms(1) g] by (intro putMessages_ok)
qed

lemma Open_ok:
  assumes "bind_ok lib s" "StdNetBind_Open e uport s = (r, s')"
  shows "bind_ok lib s'"
proof (cases "open_again e (unat uport) 0")
  case (Inr x)
  obtain c4 c6 port where x: "x = (c4, c6, port)" by (metis prod_cases3)
  obtain k p4 e4 e6 where l: "listenNet e (2 * k) False (unat uport) = (c4, p4, e4)" "listenNet e (2 * k + 1) True p4 = (c6, port, e6)"
    using open_again_round Inr x by blast
  then have "\<forall>c. c4 = Some c \<longrightarrow> \<not> co_is6 c" "\<forall>c. c6 = Some c \<longrightarrow> co_is6 c" using listenNet_Some by fastforce+
  then show ?thesis
    using assms Inr x
    by (auto simp: StdNetBind_Open_def bind_ok_def open_ipv4_def open_ipv6_def Let_def split: if_splits option.splits prod.splits)
qed (use assms in \<open>auto simp: StdNetBind_Open_def split: if_splits\<close>)

lemma Close_ok: "bind_ok lib s \<Longrightarrow> StdNetBind_Close e s = (err, s') \<Longrightarrow> bind_ok lib s'"
  by (auto simp: StdNetBind_Close_def bind_ok_def Let_def split: option.splits)

lemma Send_ok:
  assumes "cmsg_ok lib" "bind_ok lib s" "WriteBatch_progress W" "send_args lib bufs ep"
    and "StdNetBind_Send lib W pick pick' bufs ep s w = Some (err, s', w')"
  shows "bind_ok lib s'"
proof (cases "can_send s ep")
  case True
  obtain ua pool where "pool_get pick' new_UDPAddr (udpAddrPool s) = (ua, pool)" by fastforce
  from Send_result [OF assms(3,1,2,4) True this, of pick w] assms(5) show ?thesis by auto
next
  case False
  then have "s' = s" using assms(5) by (auto simp: StdNetBind_Send_def can_send_def Let_def split: if_splits)
  then show ?thesis using assms(2) by simp
qed

text \<open>C25. Every bind that operations make out of a new one is well formed: the pools hold arrays of 128 clean messages with control buffers of their
  full capacity and addresses with arrays of 16 bytes, packet connections exist exactly for open sockets, and the sockets are of their
  address family.\<close>

theorem bind_well_formed:
  assumes "cmsg_ok lib" "bind_reachable lib s"
  shows "bind_ok lib s"
  using assms(2)
proof induction
  case new_bind
  show ?case by (simp add: bind_ok_def NewStdNetBind_def)
next
  case (receive_bind s R pick f rc n err rc' s')
  then show ?case by (auto simp: call_ReceiveFunc_def split: ReceiveFunc.splits intro: receiveIP_ok)
qed (use assms(1) in \<open>auto intro: Open_ok Close_ok Send_ok\<close>)

theorem bind_well_formed_witness: "bind_ok example_cmsg (snd (StdNetBind_Open example_net 0 NewStdNetBind))"
  by (rule bind_well_formed [OF example_cmsg_ok])
    (rule bind_reachable.open_bind [OF bind_reachable.new_bind, where e = example_net and uport = 0], rule prod.collapse [symmetric])

end
