(* ===== verification/MgmtPeers.thy ===== *)
theory MgmtPeers
  imports Uapi Pools
begin

text \<open>
  The management layer's view of the device, \<^verbatim>\<open>src/mgmt/peers\<close>: keys, and the configuration texts it sends to and
  reads from the device through \<open>IpcSet\<close> and \<open>IpcGet\<close>, here the modelled operations themselves.
\<close>

section \<open>Keys\<close>

record KeyPair =
  kpr_PrivateKey :: string
  kpr_PublicKey :: string

datatype key_text_error = ErrRand | ErrDecode | ErrKeyLength

definition GenerateKeyPair :: "crypto \<Rightarrow> rand_read \<Rightarrow> key_text_error + KeyPair" where
  "GenerateKeyPair c rnd =
     (if \<not> snd rnd then Inl ErrRand
      else
        let privateKey = fst rnd;
            privateKey = privateKey[0 := privateKey ! 0 AND 248];
            privateKey = privateKey[31 := (privateKey ! 31 AND 127) OR 64]
        in Inr \<lparr>kpr_PrivateKey = hex_encode privateKey, kpr_PublicKey = hex_encode (ScalarBaseMult c privateKey)\<rparr>)"

definition PublicKeyFromPrivate :: "crypto \<Rightarrow> string \<Rightarrow> key_text_error + string" where
  "PublicKeyFromPrivate c privateKeyHex =
     (case hex_DecodeString privateKeyHex of
        None \<Rightarrow> Inl ErrDecode
      | Some privateKey \<Rightarrow>
          if length privateKey \<noteq> 32 then Inl ErrKeyLength else Inr (hex_encode (ScalarBaseMult c privateKey)))"

definition base64_string :: "bytes \<Rightarrow> string" where
  "base64_string bs = map (\<lambda>b. char_of (unat b)) (base64_encode bs)"

definition KeyHexToBase64 :: "string \<Rightarrow> key_text_error + string" where
  "KeyHexToBase64 hexKey =
     (case hex_DecodeString hexKey of
        None \<Rightarrow> Inl ErrDecode
      | Some raw \<Rightarrow> if length raw \<noteq> 32 then Inl ErrKeyLength else Inr (base64_string raw))"

section \<open>Changing peers\<close>

definition AddPeer_config :: "string \<Rightarrow> string \<Rightarrow> string" where
  "AddPeer_config pub allowedIP =
     ''public_key='' @ pub @ newline @ ''replace_allowed_ips=true'' @ newline @ ''allowed_ip='' @ allowedIP @ ''/32'' @ newline"

definition RemovePeer_config :: "string \<Rightarrow> string" where
  "RemovePeer_config pub = ''public_key='' @ pub @ newline @ ''remove=true'' @ newline"

definition SetPeerEndpoint_config :: "string \<Rightarrow> string \<Rightarrow> string" where
  "SetPeerEndpoint_config pub endpoint =
     ''public_key='' @ pub @ newline @ ''update_only=true'' @ newline @ ''endpoint='' @ endpoint @ newline"

definition Manager_AddPeer ::
  "crypto \<Rightarrow> endpoint_text \<Rightarrow> (nat \<Rightarrow> uapi_env) \<Rightarrow> string \<Rightarrow> string \<Rightarrow> Device \<Rightarrow> (IPCError option \<times> Device) option" where
  "Manager_AddPeer c t us pub allowedIP dev = IpcSetOperation c t us (AddPeer_config pub allowedIP) dev"

definition Manager_RemovePeer ::
  "crypto \<Rightarrow> endpoint_text \<Rightarrow> (nat \<Rightarrow> uapi_env) \<Rightarrow> string \<Rightarrow> Device \<Rightarrow> (IPCError option \<times> Device) option" where
  "Manager_RemovePeer c t us pub dev = IpcSetOperation c t us (RemovePeer_config pub) dev"

definition SetPeerEndpoint ::
  "crypto \<Rightarrow> endpoint_text \<Rightarrow> (nat \<Rightarrow> uapi_env) \<Rightarrow> string \<Rightarrow> string \<Rightarrow> Device \<Rightarrow> (IPCError option \<times> Device) option" where
  "SetPeerEndpoint c t us pub endpoint dev = IpcSetOperation c t us (SetPeerEndpoint_config pub endpoint) dev"

section \<open>Reading peers\<close>

record PeerInfo =
  pi_PublicKey :: string
  pi_Endpoint :: string
  pi_TxBytes :: nat
  pi_RxBytes :: nat
  pi_LastHandshakeSec :: int
  pi_LastHandshakeNsec :: int

record PeerStats =
  ps_TxBytes :: nat
  ps_RxBytes :: nat
  ps_LastHandshakeSec :: int
  ps_LastHandshakeNsec :: int

text \<open>The values of \<open>strconv.ParseUint\<close> and \<open>ParseInt\<close> at 64 bits when their error is ignored: a malformed number
  is 0, one out of range the nearest bound.\<close>

definition ParseUint_value :: "string \<Rightarrow> nat" where
  "ParseUint_value s =
     (if s = [] \<or> \<not> list_all is_digit s then 0 else min (2 ^ 64 - 1) (decimal_value s))"

definition ParseInt_value :: "string \<Rightarrow> int" where
  "ParseInt_value s =
     (case s of
        [] \<Rightarrow> 0
      | ch # r \<Rightarrow>
          if ch = CHR ''-'' then - int (min (2 ^ 63) (ParseUint_value r))
          else int (min (2 ^ 63 - 1) (ParseUint_value (if ch = CHR ''+'' then r else s))))"

definition new_PeerInfo :: "string \<Rightarrow> PeerInfo" where
  "new_PeerInfo key = \<lparr>pi_PublicKey = key, pi_Endpoint = [], pi_TxBytes = 0, pi_RxBytes = 0,
     pi_LastHandshakeSec = 0, pi_LastHandshakeNsec = 0\<rparr>"

definition save_current :: "PeerInfo option \<Rightarrow> (string \<rightharpoonup> PeerInfo) \<Rightarrow> (string \<rightharpoonup> PeerInfo)" where
  "save_current current m =
     (case current of
        None \<Rightarrow> m
      | Some info \<Rightarrow> if pi_PublicKey info \<noteq> [] then m(pi_PublicKey info \<mapsto> info) else m)"

definition list_line :: "string \<Rightarrow> PeerInfo option \<times> (string \<rightharpoonup> PeerInfo) \<Rightarrow> PeerInfo option \<times> (string \<rightharpoonup> PeerInfo)" where
  "list_line line st =
     (case (str_cut (CHR ''='') line, st) of
        (None, _) \<Rightarrow> st
      | (Some (key, val), (current, m)) \<Rightarrow>
          if key = ''public_key'' then (Some (new_PeerInfo val), save_current current m)
          else
            let upd = (\<lambda>f. (map_option f current, m))
            in if key = ''endpoint'' then upd (\<lambda>x. x\<lparr>pi_Endpoint := val\<rparr>)
               else if key = ''tx_bytes'' then upd (\<lambda>x. x\<lparr>pi_TxBytes := ParseUint_value val\<rparr>)
               else if key = ''rx_bytes'' then upd (\<lambda>x. x\<lparr>pi_RxBytes := ParseUint_value val\<rparr>)
               else if key = ''last_handshake_time_sec'' then upd (\<lambda>x. x\<lparr>pi_LastHandshakeSec := ParseInt_value val\<rparr>)
               else if key = ''last_handshake_time_nsec'' then upd (\<lambda>x. x\<lparr>pi_LastHandshakeNsec := ParseInt_value val\<rparr>)
               else st)"

text \<open>The map that was read and whether the scanner stopped with an error.\<close>

definition ListPeers :: "endpoint_text \<Rightarrow> Device \<Rightarrow> (string \<rightharpoonup> PeerInfo) \<times> bool" where
  "ListPeers t dev =
     (let (lines, ok) = scan_lines (IpcGetOperation t dev);
          (current, m) = fold list_line lines (None, Map.empty)
      in (save_current current m, ok))"

datatype peers_error = ErrScan | ErrPeerNotFound

definition GetPeer :: "endpoint_text \<Rightarrow> string \<Rightarrow> Device \<Rightarrow> peers_error + PeerInfo" where
  "GetPeer t pub dev =
     (case ListPeers t dev of
        (_, False) \<Rightarrow> Inl ErrScan
      | (m, True) \<Rightarrow> (case m pub of None \<Rightarrow> Inl ErrPeerNotFound | Some info \<Rightarrow> Inr info))"

definition Manager_PeerStats :: "endpoint_text \<Rightarrow> string \<Rightarrow> Device \<Rightarrow> peers_error + PeerStats" where
  "Manager_PeerStats t pub dev =
     (case GetPeer t pub dev of
        Inl e \<Rightarrow> Inl e
      | Inr info \<Rightarrow> Inr \<lparr>ps_TxBytes = pi_TxBytes info, ps_RxBytes = pi_RxBytes info,
          ps_LastHandshakeSec = pi_LastHandshakeSec info, ps_LastHandshakeNsec = pi_LastHandshakeNsec info\<rparr>)"

definition LastHandshake :: "PeerInfo \<Rightarrow> gotime" where
  "LastHandshake info =
     (if pi_LastHandshakeSec info = 0 \<and> pi_LastHandshakeNsec info = 0 then 0
      else (pi_LastHandshakeSec info + unixToInternal) * second + pi_LastHandshakeNsec info)"

definition HasRecentHandshake :: "gotime \<Rightarrow> duration \<Rightarrow> PeerInfo \<Rightarrow> bool" where
  "HasRecentHandshake now idle info =
     (let hs = LastHandshake info in if hs = 0 then False else Sub now hs \<le> idle)"

fun private_key_line :: "string list \<Rightarrow> string option" where
  "private_key_line [] = None"
| "private_key_line (line # lines) =
     (case str_cut (CHR ''='') line of
        Some (key, val) \<Rightarrow> if key = ''private_key'' \<and> val \<noteq> [] then Some val else private_key_line lines
      | None \<Rightarrow> private_key_line lines)"

definition ServerPublicKey :: "crypto \<Rightarrow> endpoint_text \<Rightarrow> Device \<Rightarrow> (key_text_error option) + string" where
  "ServerPublicKey c t dev =
     (case private_key_line (fst (scan_lines (IpcGetOperation t dev))) of
        None \<Rightarrow> Inl None
      | Some val \<Rightarrow> (case PublicKeyFromPrivate c val of Inl e \<Rightarrow> Inl (Some e) | Inr k \<Rightarrow> Inr k))"

definition base64_or_self :: "string \<Rightarrow> string" where
  "base64_or_self k = (case KeyHexToBase64 k of Inl _ \<Rightarrow> k | Inr b \<Rightarrow> b)"

definition BuildClientConfig :: "string \<Rightarrow> string \<Rightarrow> string \<Rightarrow> string \<Rightarrow> string \<Rightarrow> int \<Rightarrow> string" where
  "BuildClientConfig priv assignedIP serverPub serverEndpoint dns keepalive =
     ''[Interface]'' @ newline @ ''PrivateKey = '' @ base64_or_self priv
     @ newline @ ''Address = '' @ assignedIP @ ''/32'' @ newline
     @ (if dns \<noteq> [] then ''DNS = '' @ dns @ newline else [])
     @ newline @ ''[Peer]'' @ newline @ ''PublicKey = '' @ base64_or_self serverPub
     @ newline @ ''Endpoint = '' @ serverEndpoint
     @ newline @ ''AllowedIPs = 0.0.0.0/0'' @ newline
     @ ''PersistentKeepalive = '' @ decimal_int keepalive @ newline"

section \<open>Texts of lines\<close>

definition line_ok :: "string \<Rightarrow> bool" where
  "line_ok l \<longleftrightarrow> CHR 0x0A \<notin> set l \<and> CHR 0x0D \<notin> set l \<and> length l < MaxScanTokenSize"

definition lines_text :: "string list \<Rightarrow> string" where
  "lines_text ls = concat (map (\<lambda>l. l @ newline) ls)"

lemma lines_text_simps [simp]: "lines_text [] = []" "lines_text (l # ls) = l @ newline @ lines_text ls"
  "lines_text (xs @ ys) = lines_text xs @ lines_text ys"
  by (simp_all add: lines_text_def)

lemma scan_lines_text: "list_all line_ok ls \<Longrightarrow> scan_lines (lines_text ls) = (ls, True)"
proof (induction ls)
  case (Cons l ls)
  have "str_cut (CHR 0x0A) (l @ newline @ lines_text ls) = Some (l, lines_text ls)"
    using Cons.prems str_cut_append [of "CHR 0x0A" l "lines_text ls"] by (simp add: newline_def line_ok_def)
  moreover have "CHR 0x0D \<notin> set l" using Cons.prems by (simp add: line_ok_def)
  then have "drop_cr l = l" unfolding drop_cr_def by (metis last_in_set)
  ultimately show ?case
    using Cons by (subst scan_lines.simps) (auto simp: newline_def line_ok_def)
qed (simp add: scan_lines.simps)

lemma length_decimal: "length (decimal n) \<le> n + 1"
  by (induction n rule: decimal.induct) (subst decimal.simps, auto)

lemma hex_char_plain_table: "list_all (\<lambda>n. hex_char n \<notin> {CHR 0x0A, CHR 0x0D, CHR ''=''}) [0..<16]"
  by code_simp

lemma hex_char_plain: "n < 16 \<Longrightarrow> hex_char n \<notin> {CHR 0x0A, CHR 0x0D, CHR ''=''}"
  using hex_char_plain_table by (auto simp: list_all_iff)

lemma hex_encode_plain: "set (hex_encode bs) \<inter> {CHR 0x0A, CHR 0x0D, CHR ''=''} = {}" "length (hex_encode bs) = 2 * length bs"
proof -
  have "unat (drop_bit 4 b) < 16" "unat (b AND 15) < 16" for b :: u8
    unfolding mask15 unsigned_drop_bit_eq unsigned_take_bit_eq
    using unsigned_less [of b, where 'a = nat] by (simp_all add: take_bit_eq_mod drop_bit_eq_div less_mult_imp_div_less)
  then have x: "hex_char (unat (drop_bit 4 b)) \<notin> {CHR 0x0A, CHR 0x0D, CHR ''=''}" "hex_char (unat (b AND 15)) \<notin> {CHR 0x0A, CHR 0x0D, CHR ''=''}" for b :: u8
    by (intro hex_char_plain; simp)+
  show "set (hex_encode bs) \<inter> {CHR 0x0A, CHR 0x0D, CHR ''=''} = {}"
    unfolding hex_encode_def using x by (induction bs) auto
  show "length (hex_encode bs) = 2 * length bs" by (induction bs) (simp_all add: hex_encode_def)
qed

lemma decimal_plain: "set (decimal n) \<inter> {CHR 0x0A, CHR 0x0D, CHR ''='', CHR ''-'', CHR ''+''} = {}"
  using decimal_facts [of n] by (auto simp: list_all_iff is_digit_def)

lemma string4_plain: "set (string4 ip) \<inter> {CHR 0x0A, CHR 0x0D, CHR ''=''} = {}" "length (string4 ip) \<le> 1027"
proof -
  show "set (string4 ip) \<inter> {CHR 0x0A, CHR 0x0D, CHR ''=''} = {}" using decimal_plain by (auto simp: string4_def)
  have "length (decimal (unat b)) \<le> 256" for b :: u8
    using length_decimal [of "unat b"] unsigned_less [of b, where 'a = nat] by simp
  from this [of "ip ! 0"] this [of "ip ! 1"] this [of "ip ! 2"] this [of "ip ! 3"]
  show "length (string4 ip) \<le> 1027" by (simp add: string4_def)
qed

section \<open>The lines the manager sends\<close>

lemma plain_line:
  assumes "set k \<inter> {CHR 0x0A, CHR 0x0D, CHR ''=''} = {}" "set v \<inter> {CHR 0x0A, CHR 0x0D} = {}" "length k + length v < 65535"
  shows "line_ok (k @ ''='' @ v)" "str_cut (CHR ''='') (k @ ''='' @ v) = Some (k, v)"
  using assms str_cut_append [of "CHR ''=''" k v] by (auto simp: line_ok_def MaxScanTokenSize_def)

lemma AddPeer_lines:
  assumes "length pk = 32"
  shows "scan_lines (AddPeer_config (hex_encode pk) (string4 ip))
    = ([''public_key'' @ ''='' @ hex_encode pk, ''replace_allowed_ips'' @ ''='' @ ''true'', ''allowed_ip'' @ ''='' @ string4 ip @ ''/32''], True)"
proof -
  have "line_ok (''public_key'' @ ''='' @ hex_encode pk)" "line_ok (''allowed_ip'' @ ''='' @ string4 ip @ ''/32'')"
    "line_ok (''replace_allowed_ips'' @ ''='' @ ''true'')"
    by (rule plain_line(1); use hex_encode_plain [of pk] string4_plain [of ip] assms in auto)+
  then have "scan_lines (lines_text [''public_key'' @ ''='' @ hex_encode pk, ''replace_allowed_ips'' @ ''='' @ ''true'',
      ''allowed_ip'' @ ''='' @ string4 ip @ ''/32'']) = ([''public_key'' @ ''='' @ hex_encode pk, ''replace_allowed_ips'' @ ''='' @ ''true'',
      ''allowed_ip'' @ ''='' @ string4 ip @ ''/32''], True)"
    by (intro scan_lines_text) simp
  then show ?thesis by (simp add: AddPeer_config_def)
qed

lemma RemovePeer_lines:
  assumes "length pk = 32"
  shows "scan_lines (RemovePeer_config (hex_encode pk)) = ([''public_key'' @ ''='' @ hex_encode pk, ''remove'' @ ''='' @ ''true''], True)"
proof -
  have "line_ok (''public_key'' @ ''='' @ hex_encode pk)" "line_ok (''remove'' @ ''='' @ ''true'')"
    by (rule plain_line(1); use hex_encode_plain [of pk] assms in auto)+
  then have "scan_lines (lines_text [''public_key'' @ ''='' @ hex_encode pk, ''remove'' @ ''='' @ ''true''])
    = ([''public_key'' @ ''='' @ hex_encode pk, ''remove'' @ ''='' @ ''true''], True)"
    by (intro scan_lines_text) simp
  then show ?thesis by (simp add: RemovePeer_config_def)
qed

text \<open>The first line of each text selects the peer with the key, registering it first when there is none.\<close>

lemma select_peer:
  assumes "length pk = 32" "pk \<noteq> sid_publicKey dev" "handlePublicKeyLine c (hex_encode pk) sp dev = (None, sp', dev1)" "dev_inv dev"
  shows "\<exists>p. sp_Peer sp' = Some p \<and> \<not> sp_dummy sp' \<and> LookupPeer pk dev1 = Some p \<and> allowedips dev1 = allowedips dev
      \<and> (LookupPeer pk dev = None \<or> dev1 = dev) \<and> dev_inv dev1 \<and> (\<forall>k. k \<noteq> pk \<longrightarrow> LookupPeer k dev1 = LookupPeer k dev)
      \<and> (LookupPeer pk dev = None \<longrightarrow> hs_remoteStatic (handshake (peers dev1 p)) = pk)"
proof -
  have "dev_inv dev1" using dev_at_handlePublicKeyLine(1) [of _ dev c "hex_encode pk" sp None sp' dev1] assms(3,4) by (simp add: dev_at_def)
  moreover have f: "FromHex zero_key (hex_encode pk) = (None, pk)" using assms(1) by (intro FromHex_encode) (simp add: zero_key_def)
  have new: "\<exists>d. NewPeer c pk dev = (Inr p, d) \<Longrightarrow> LookupPeer pk (snd (NewPeer c pk dev)) = Some p
      \<and> allowedips (snd (NewPeer c pk dev)) = allowedips dev \<and> hs_remoteStatic (handshake (peers (snd (NewPeer c pk dev)) p)) = pk
      \<and> (\<forall>k. k \<noteq> pk \<longrightarrow> LookupPeer k (snd (NewPeer c pk dev)) = LookupPeer k dev)" if "LookupPeer pk dev = None" for p
    using that by (auto simp: NewPeer_def Let_def LookupPeer_def map_add_def timersInit_def upd_timers_def upd_peer_def split: if_splits option.split)
  ultimately show ?thesis
    using assms(2,3) by (cases "LookupPeer pk dev"; cases "NewPeer c pk dev")
      (auto simp: handlePublicKeyLine_def f Equals_def Let_def split: sum.splits dest!: new)
qed

text \<open>What follows the last line keeps registrations and routes.\<close>

lemma post_keeps:
  assumes "handlePostConfig c u sp dev = Some dev'" "dev_inv dev" "sp_ok dev sp"
  shows "dev_inv dev' \<and> keyMap dev' = keyMap dev \<and> routes (allowedips dev') = routes (allowedips dev)"
proof -
  have i: "dev_inv dev'" using dev_at_handlePostConfig [of _ dev sp c u] assms by (simp add: dev_at_def)
  let ?Q = "\<lambda>d. table_inv (allowedips d) \<and> l_peers (life d) = l_peers (life dev) \<and> l_routes (life d) = l_routes (life dev)"
  have imp: "?Q d'" if "?Q d" "implements F d d'" "\<And>L. l_peers (F L) = l_peers L \<and> l_routes (F L) = l_routes L" for F d d'
    using that by (simp add: implements_def)
  have st: "?Q d \<Longrightarrow> pred_option ?Q (Peer_Start e p d)" for d e p
    by (rule pred_option_weaken [OF implements_Start]) (erule imp, assumption, simp add: l_Start_def)
  have sf: "?Q d \<Longrightarrow> pred_option (safe_step d) m \<Longrightarrow> pred_option ?Q m" for d m
    by (erule pred_option_weaken) (erule imp, erule implements_safe, simp)
  have up: "?Q (upd_peer p (\<lambda>q. q\<lparr>endpoint_disableRoaming := b q\<rparr>) d)" if "?Q d" for p b d
    by (rule imp [OF that implements_upd_peer]) simp_all
  have "?Q dev" using assms(2) by (simp add: dev_inv_def)
  then have "pred_option ?Q (handlePostConfig c u sp dev)"
    unfolding handlePostConfig_def Let_def
    by (auto split: option.split intro!: pred_option_bind [where Q = ?Q] st up
        intro: sf [OF _ safe_SendStagedPackets] sf [OF _ safe_SendKeepalive] simp del: life_def)
  then have "?Q dev'" using assms(1) by simp
  then show ?thesis using i by (simp add: life_read) (simp add: life_def)
qed

lemma IpcSet_key_line:
  assumes "str_cut (CHR ''='') line = Some (''public_key'', val)"
  shows "IpcSet_loop c t us ok n (line # lines) dc new_ipcSetPeer dev =
     (case handlePublicKeyLine c val new_ipcSetPeer dev of
        (Some err, sp, dev) \<Rightarrow> Some (Some err, dev)
      | (None, sp, dev) \<Rightarrow> IpcSet_loop c t us ok (n + 1) lines False sp dev)"
proof -
  have "line \<noteq> []" using assms by auto
  then show ?thesis using assms by (simp add: handlePostConfig_def new_ipcSetPeer_def)
qed

lemma IpcSet_peer_line:
  assumes "str_cut (CHR ''='') line = Some (key, val)" "key \<noteq> ''public_key''"
  shows "IpcSet_loop c t us ok n (line # lines) False sp dev =
     do {
       (err, sp, dev) \<leftarrow> handlePeerLine c t (us n) key val sp dev;
       if err \<noteq> None then Some (err, dev) else IpcSet_loop c t us ok (n + 1) lines False sp dev
     }"
proof -
  have "line \<noteq> []" using assms by auto
  then show ?thesis using assms by simp
qed

lemma replace_line:
  assumes "sp_Peer sp = Some p" "\<not> sp_dummy sp"
  shows "handlePeerLine c t u ''replace_allowed_ips'' ''true'' sp dev =
    map_option (\<lambda>tbl. (None, sp, dev\<lparr>allowedips := tbl\<rparr>)) (RemoveByPeer (allowedips dev) p)"
  using assms by (simp add: handlePeerLine_def map_option_case bind_split split: option.split)

text \<open>The text of \<open>AddPeer\<close>, run: the answer of the key line decides whether the peer gets its one route.\<close>

lemma AddPeer_runs:
  assumes "dev_inv dev" "length pk = 32" "length ip = 4" "pk \<noteq> sid_publicKey dev"
    and k: "handlePublicKeyLine c (hex_encode pk) new_ipcSetPeer dev = (None, sp, dev1)"
  shows "\<exists>p tbl. sp_Peer sp = Some p \<and> \<not> sp_dummy sp \<and> LookupPeer pk dev1 = Some p \<and> (\<forall>k. k \<noteq> pk \<longrightarrow> LookupPeer k dev1 = LookupPeer k dev)
     \<and> dev_inv (dev1\<lparr>allowedips := tbl\<rparr>) \<and> sp_ok (dev1\<lparr>allowedips := tbl\<rparr>) sp
     \<and> Manager_AddPeer c t us (hex_encode pk) (string4 ip) dev = map_option (Pair None) (handlePostConfig c (us 3) sp (dev1\<lparr>allowedips := tbl\<rparr>))
     \<and> routes tbl = (\<lambda>r. if r = prefix_route (Addr4 ip, 32) then Some p
           else if routes (allowedips dev) r = Some p then None else routes (allowedips dev) r)"
proof -
  let ?l1 = "''public_key'' @ ''='' @ hex_encode pk" and ?l2 = "''replace_allowed_ips'' @ ''='' @ ''true''"
    and ?l3 = "''allowed_ip'' @ ''='' @ string4 ip @ ''/32''"
  obtain p where p: "sp_Peer sp = Some p" "\<not> sp_dummy sp" "LookupPeer pk dev1 = Some p" "allowedips dev1 = allowedips dev" "dev_inv dev1"
    "\<forall>k. k \<noteq> pk \<longrightarrow> LookupPeer k dev1 = LookupPeer k dev" using select_peer [OF assms(2,4) k assms(1)] by blast
  have cut: "str_cut (CHR ''='') ?l1 = Some (''public_key'', hex_encode pk)" "str_cut (CHR ''='') ?l2 = Some (''replace_allowed_ips'', ''true'')"
    "str_cut (CHR ''='') ?l3 = Some (''allowed_ip'', string4 ip @ ''/32'')"
    by (rule plain_line(2); use hex_encode_plain [of pk] string4_plain [of ip] assms(2) in auto)+
  obtain t1 where t1: "RemoveByPeer (allowedips dev1) p = Some t1" "table_inv t1"
    "routes t1 = (\<lambda>r. if routes (allowedips dev) r = Some p then None else routes (allowedips dev) r)"
    using RemoveByPeer_correct [of "allowedips dev1" p] p(5) unfolding dev_inv_def p(4) by blast
  have i1: "dev_inv (dev1\<lparr>allowedips := t1\<rparr>)"
    using dev_at_replace_allowed_ips [of _ dev1 p] p(5) t1(1) by (simp add: dev_at_def)
  have pr: "prefix_ok (Addr4 ip, 32)" using assms(3) by (simp add: prefix_ok_def)
  have s: "Prefix_String (Addr4 ip, 32) = string4 ip @ ''/32''"
    by (simp add: Prefix_String_def Addr_String_def) code_simp
  obtain tbl where t: "handlePeerLine c t (us 2) ''allowed_ip'' (string4 ip @ ''/32'') sp (dev1\<lparr>allowedips := t1\<rparr>) = Some (None, sp, dev1\<lparr>allowedips := tbl\<rparr>)"
    "routes tbl = (routes t1)(prefix_route (Addr4 ip, 32) \<mapsto> p)"
    using allowed_ip_line(1) [OF i1 p(1,2) pr, of c t "us 2"] by (auto simp: s)
  have m: "p \<in> set (peer_list (dev1\<lparr>allowedips := t1\<rparr>))"
    using p(3) by (auto simp: LookupPeer_def peer_list_def dest!: map_of_SomeD intro: rev_image_eqI)
  have ok: "sp_ok d sp" if "keyMap d = keyMap dev1" for d using m that p(1) by (simp add: sp_ok_def peer_list_def)
  have i2: "dev_inv (dev1\<lparr>allowedips := tbl\<rparr>)"
    using dev_at_handlePeerLine [of _ "dev1\<lparr>allowedips := t1\<rparr>" sp c t "us 2" "''allowed_ip''" "string4 ip @ ''/32''"] i1 ok t(1)
    by (simp add: dev_at_def)
  have "Manager_AddPeer c t us (hex_encode pk) (string4 ip) dev = map_option (Pair None) (handlePostConfig c (us 3) sp (dev1\<lparr>allowedips := tbl\<rparr>))"
    unfolding Manager_AddPeer_def IpcSetOperation_def AddPeer_lines [OF assms(2)] Let_def prod.case IpcSet_key_line [OF cut(1)] k option.case
      IpcSet_peer_line [OF cut(2), simplified] IpcSet_peer_line [OF cut(3), simplified]
    using replace_line [OF p(1,2), of c t "us 1" dev1] t1(1) t(1) by (simp add: numeral_2_eq_2 numeral_3_eq_3)
  then show ?thesis using p i2 ok t(2) by (intro exI [of _ p] exI [of _ tbl]) (auto simp: t1(3))
qed

lemma IpcSet_needs_key:
  assumes "scan_lines r = (line # lines, ok)" "str_cut (CHR ''='') line = Some (''public_key'', val)"
    and "IpcSetOperation c t us r dev = Some (None, dev')"
  obtains sp dev1 where "handlePublicKeyLine c val new_ipcSetPeer dev = (None, sp, dev1)"
proof -
  obtain err sp dev1 where h: "handlePublicKeyLine c val new_ipcSetPeer dev = (err, sp, dev1)"
    by (cases "handlePublicKeyLine c val new_ipcSetPeer dev") auto
  then have "err = None"
    using assms(3) unfolding IpcSetOperation_def assms(1) Let_def prod.case IpcSet_key_line [OF assms(2)] by (cases err) auto
  then show ?thesis using h that by blast
qed

lemma key_line_cut: "length pk = 32 \<Longrightarrow> str_cut (CHR ''='') (''public_key'' @ ''='' @ hex_encode pk) = Some (''public_key'', hex_encode pk)"
  by (rule plain_line(2)) (use hex_encode_plain [of pk] in auto)

lemma AddPeer_effect:
  assumes "dev_inv dev" "length pk = 32" "length ip = 4" "pk \<noteq> sid_publicKey dev"
    and "Manager_AddPeer c t us (hex_encode pk) (string4 ip) dev = Some (None, dev')"
  shows "dev_inv dev' \<and> (\<exists>p. LookupPeer pk dev' = Some p
     \<and> routes (allowedips dev') = (\<lambda>r. if r = prefix_route (Addr4 ip, 32) then Some p
           else if routes (allowedips dev) r = Some p then None else routes (allowedips dev) r)
     \<and> (\<forall>k. k \<noteq> pk \<longrightarrow> LookupPeer k dev' = LookupPeer k dev))"
proof -
  obtain sp dev1 where k: "handlePublicKeyLine c (hex_encode pk) new_ipcSetPeer dev = (None, sp, dev1)"
    using IpcSet_needs_key [OF AddPeer_lines [OF assms(2)] key_line_cut [OF assms(2)]] assms(5) unfolding Manager_AddPeer_def by blast
  from AddPeer_runs [OF assms(1-4) k, of t us] obtain p tbl where
    p: "LookupPeer pk dev1 = Some p" "\<forall>k. k \<noteq> pk \<longrightarrow> LookupPeer k dev1 = LookupPeer k dev"
      "dev_inv (dev1\<lparr>allowedips := tbl\<rparr>)" "sp_ok (dev1\<lparr>allowedips := tbl\<rparr>) sp"
      "Manager_AddPeer c t us (hex_encode pk) (string4 ip) dev = map_option (Pair None) (handlePostConfig c (us 3) sp (dev1\<lparr>allowedips := tbl\<rparr>))"
      "routes tbl = (\<lambda>r. if r = prefix_route (Addr4 ip, 32) then Some p
           else if routes (allowedips dev) r = Some p then None else routes (allowedips dev) r)"
    by blast
  have "handlePostConfig c (us 3) sp (dev1\<lparr>allowedips := tbl\<rparr>) = Some dev'" using assms(5) p(5) by auto
  from post_keeps [OF this p(3,4)] p(1,2,6) show ?thesis by (auto simp: LookupPeer_def)
qed

lemma remove_line:
  assumes "sp_Peer sp = Some p" "\<not> sp_dummy sp"
  shows "handlePeerLine c t u ''remove'' ''true'' sp dev =
    do { d \<leftarrow> RemovePeer c (ue_env u) (hs_remoteStatic (handshake (peers dev p))) dev; Some (None, become_dummy sp d) }"
  using assms by (simp add: handlePeerLine_def)

lemma RemovePeer_effect:
  assumes "dev_inv dev" "length pk = 32" "pk \<noteq> sid_publicKey dev"
    and "\<And>p. LookupPeer pk dev = Some p \<Longrightarrow> hs_remoteStatic (handshake (peers dev p)) = pk"
    and "Manager_RemovePeer c t us (hex_encode pk) dev = Some (None, dev')"
  shows "dev_inv dev' \<and> LookupPeer pk dev' = None \<and> (\<forall>k. k \<noteq> pk \<longrightarrow> LookupPeer k dev' = LookupPeer k dev)
    \<and> routes (allowedips dev') = (\<lambda>r. if LookupPeer pk dev \<noteq> None \<and> routes (allowedips dev) r = LookupPeer pk dev then None else routes (allowedips dev) r)"
proof -
  let ?l1 = "''public_key'' @ ''='' @ hex_encode pk" and ?l2 = "''remove'' @ ''='' @ ''true''"
  obtain sp dev1 where k: "handlePublicKeyLine c (hex_encode pk) new_ipcSetPeer dev = (None, sp, dev1)"
    using IpcSet_needs_key [OF RemovePeer_lines [OF assms(2)] key_line_cut [OF assms(2)]] assms(5) unfolding Manager_RemovePeer_def by blast
  from select_peer [OF assms(2,3) k assms(1)] obtain p where p: "sp_Peer sp = Some p" "\<not> sp_dummy sp" "LookupPeer pk dev1 = Some p"
    "allowedips dev1 = allowedips dev" "LookupPeer pk dev = None \<or> dev1 = dev" "dev_inv dev1"
    "\<forall>k. k \<noteq> pk \<longrightarrow> LookupPeer k dev1 = LookupPeer k dev" "hs_remoteStatic (handshake (peers dev1 p)) = pk"
    using assms(4) by blast
  have cut: "str_cut (CHR ''='') ?l2 = Some (''remove'', ''true'')" by simp
  have "IpcSet_loop c t us True 1 [?l2] False sp dev1 = Some (None, dev')"
    using assms(5) unfolding Manager_RemovePeer_def IpcSetOperation_def RemovePeer_lines [OF assms(2)] Let_def prod.case
      IpcSet_key_line [OF key_line_cut [OF assms(2)]] k option.case by simp
  then obtain d where d: "RemovePeer c (ue_env (us 1)) pk dev1 = Some d" "dev' = snd (become_dummy sp d)"
    unfolding IpcSet_peer_line [OF cut, simplified]
    by (auto simp: remove_line [OF p(1,2)] p(8) bind_eq_Some_conv handlePostConfig_def become_dummy_def dummy_peer_def)
  have i: "dev_inv dev'"
    using dev_at_RemovePeer [of _ dev1 c "ue_env (us 1)" pk] d p(6) dev_at_become_dummy [of _ d sp "fst (become_dummy sp d)" dev'] by (simp add: dev_at_def)
  have b: "keyMap dev' = keyMap d" "allowedips dev' = allowedips d" by (simp_all add: d(2) become_dummy_def dummy_peer_def upd_peer_def)
  have "life d = l_remove p pk (life dev1)"
    using implements_RemovePeer [of pk dev1 c "ue_env (us 1)"] d(1) p(3,6)
    by (simp add: implements_def dev_inv_def l_RemovePeer_def life_read LookupPeer_def)
  then have r: "keyMap d = filter (\<lambda>(k, _). k \<noteq> pk) (keyMap dev1)"
    "routes (allowedips d) = (\<lambda>r. if routes (allowedips dev1) r = Some p then None else routes (allowedips dev1) r)"
    by (simp_all add: life_def l_remove_def cong: if_cong)
  have m: "map_of (filter (\<lambda>(k, _). k \<noteq> pk) xs) k = (if k = pk then None else map_of xs k)" for xs :: "(bytes \<times> pid) list" and k
    by (induction xs) auto
  have none: "routes (allowedips dev) r \<noteq> Some p" if "LookupPeer pk dev = None" for r
  proof
    assume "routes (allowedips dev) r = Some p"
    then have "p \<in> set (peer_list dev)" using routes_registered [of _ dev r p] assms(1) by (simp add: dev_at_def)
    then obtain k where "(k, p) \<in> set (keyMap dev)" by (auto simp: peer_list_def)
    then have "LookupPeer k dev = Some p" "k \<noteq> pk"
      using assms(1) that by (auto simp: dev_inv_def life_ok_def reg_ok_def life_def LookupPeer_def map_of_eq_None_iff image_iff)
    then have "LookupPeer k dev1 = Some p" using p(7) by simp
    with p(3) \<open>k \<noteq> pk\<close> have "(k, p) \<in> set (keyMap dev1)" "(pk, p) \<in> set (keyMap dev1)" by (auto simp: LookupPeer_def dest: map_of_SomeD)
    moreover have "inj_on snd (set (keyMap dev1))" using p(6) by (simp add: dev_inv_def life_ok_def reg_ok_def life_def distinct_map)
    ultimately show False using \<open>k \<noteq> pk\<close> inj_onD [of snd "set (keyMap dev1)" "(k, p)" "(pk, p)"] by simp
  qed
  show ?thesis
    using i p(3-5,7) none by (auto simp: LookupPeer_def b r m fun_eq_iff)
qed

text \<open>A peer without queued packets starts and stops without waiting.\<close>

definition idle_peer :: "Device \<Rightarrow> pid \<Rightarrow> bool" where
  "idle_peer dev p \<longleftrightarrow> q_inbound (peers dev p) = [] \<and> q_outbound (peers dev p) = [] \<and> q_staged (peers dev p) = []"

lemma Start_idle:
  assumes "idle_peer dev p"
  shows "\<exists>d. Peer_Start e p dev = Some d \<and> idle_peer d p \<and> hs_remoteStatic (handshake (peers d p)) = hs_remoteStatic (handshake (peers dev p))"
  using assms by (simp add: Peer_Start_def Let_def flushInboundQueue_def flushOutboundQueue_def idle_peer_def set_handshake_def timersStart_def
      upd_timers_def upd_peer_def)

lemma Stop_idle: "idle_peer dev p \<Longrightarrow> \<exists>d. Peer_Stop c e p dev = Some d"
  by (simp add: Peer_Stop_def Let_def idle_peer_def timersStop_def upd_timers_def upd_peer_def
      RoutineSequentialReceiver_step_def RoutineSequentialSender_step_def)

lemma RemovePeer_returns:
  assumes "dev_inv dev" "length pk = 32" "pk \<noteq> sid_publicKey dev" "LookupPeer pk dev = Some p"
    "hs_remoteStatic (handshake (peers dev p)) = pk" "idle_peer dev p"
  shows "\<exists>dev'. Manager_RemovePeer c t us (hex_encode pk) dev = Some (None, dev')"
proof -
  let ?sp = "new_ipcSetPeer\<lparr>sp_Peer := Some p\<rparr>"
  have f: "FromHex zero_key (hex_encode pk) = (None, pk)" using assms(2) by (intro FromHex_encode) (simp add: zero_key_def)
  have k: "handlePublicKeyLine c (hex_encode pk) new_ipcSetPeer dev = (None, ?sp, dev)"
    using assms(3,4) by (simp add: handlePublicKeyLine_def f Equals_def Let_def new_ipcSetPeer_def)
  obtain tbl where r: "RemoveByPeer (allowedips dev) p = Some tbl"
    using RemoveByPeer_correct [of "allowedips dev" p] assms(1) unfolding dev_inv_def by blast
  obtain d where d: "Peer_Stop c (ue_env (us 1)) p (dev\<lparr>allowedips := tbl\<rparr>) = Some d"
    using Stop_idle [of "dev\<lparr>allowedips := tbl\<rparr>" p] assms(6) by (auto simp: idle_peer_def)
  have "\<exists>d'. RemovePeer c (ue_env (us 1)) pk dev = Some d'"
    using assms(4) r d by (simp add: RemovePeer_def removePeerLocked_def LookupPeer_def)
  then obtain d' where d': "RemovePeer c (ue_env (us 1)) pk dev = Some d'" by blast
  have cut: "str_cut (CHR ''='') (''remove'' @ ''='' @ ''true'') = Some (''remove'', ''true'')" by simp
  have "handlePeerLine c t (us 1) ''remove'' ''true'' ?sp dev = Some (None, become_dummy ?sp d')"
    using remove_line [of ?sp p c t "us 1" dev] d' assms(5) by (simp add: new_ipcSetPeer_def)
  then show ?thesis
    unfolding Manager_RemovePeer_def IpcSetOperation_def RemovePeer_lines [OF assms(2)] Let_def prod.case
      IpcSet_key_line [OF key_line_cut [OF assms(2)]] k option.case IpcSet_peer_line [OF cut, simplified]
    by (cases "become_dummy ?sp d'") (auto simp: handlePostConfig_def become_dummy_def dummy_peer_def)
qed

text \<open>A key that is not registered: unless the device is closed or full, \<open>AddPeer\<close> succeeds, and the new peer is idle.\<close>

lemma AddPeer_fresh:
  assumes "dev_inv dev" "length pk = 32" "length ip = 4" "pk \<noteq> sid_publicKey dev" "LookupPeer pk dev = None"
  shows "if deviceState_isClosed dev \<or> length (keyMap dev) \<ge> MaxPeers
    then Manager_AddPeer c t us (hex_encode pk) (string4 ip) dev = Some (Some IpcErrorInvalid, dev)
    else \<exists>dev'. Manager_AddPeer c t us (hex_encode pk) (string4 ip) dev = Some (None, dev')
      \<and> (\<forall>p. LookupPeer pk dev' = Some p \<longrightarrow> idle_peer dev' p \<and> hs_remoteStatic (handshake (peers dev' p)) = pk)
      \<and> sid_publicKey dev' = sid_publicKey dev"
proof -
  have f: "FromHex zero_key (hex_encode pk) = (None, pk)" using assms(2) by (intro FromHex_encode) (simp add: zero_key_def)
  show ?thesis
  proof (cases "deviceState_isClosed dev \<or> length (keyMap dev) \<ge> MaxPeers")
    case True
    then have n: "\<exists>e. NewPeer c pk dev = (Inl e, dev)" by (auto simp: NewPeer_def)
    have "\<exists>sp. handlePublicKeyLine c (hex_encode pk) new_ipcSetPeer dev = (Some IpcErrorInvalid, sp, dev)"
      using n assms(4,5) by (auto simp: handlePublicKeyLine_def f Equals_def Let_def)
    then show ?thesis
      using True unfolding Manager_AddPeer_def IpcSetOperation_def AddPeer_lines [OF assms(2)] Let_def prod.case
        IpcSet_key_line [OF key_line_cut [OF assms(2)]] by auto
  next
    case False
    obtain dev1 where n: "NewPeer c pk dev = (Inr (next_pid dev), dev1)" "idle_peer dev1 (next_pid dev)"
      "hs_remoteStatic (handshake (peers dev1 (next_pid dev))) = pk" "sid_publicKey dev1 = sid_publicKey dev"
      using False assms(5) by (auto simp: NewPeer_def Let_def LookupPeer_def idle_peer_def timersInit_def upd_timers_def upd_peer_def zero_Peer_def)
    let ?sp = "new_ipcSetPeer\<lparr>sp_Peer := Some (next_pid dev), sp_created := True\<rparr>"
    have k: "handlePublicKeyLine c (hex_encode pk) new_ipcSetPeer dev = (None, ?sp, dev1)"
      using n(1) assms(4,5) by (simp add: handlePublicKeyLine_def f Equals_def Let_def new_ipcSetPeer_def)
    from AddPeer_runs [OF assms(1-4) k, of t us] obtain tbl where
      l: "LookupPeer pk dev1 = Some (next_pid dev)" and ok: "dev_inv (dev1\<lparr>allowedips := tbl\<rparr>)" "sp_ok (dev1\<lparr>allowedips := tbl\<rparr>) ?sp" and
      m: "Manager_AddPeer c t us (hex_encode pk) (string4 ip) dev = map_option (Pair None) (handlePostConfig c (us 3) ?sp (dev1\<lparr>allowedips := tbl\<rparr>))"
      by auto
    let ?d = "upd_peer (next_pid dev) (\<lambda>q. q\<lparr>endpoint_disableRoaming := net_brokenRoaming dev1 \<and> endpoint_val q \<noteq> None\<rparr>) (dev1\<lparr>allowedips := tbl\<rparr>)"
    have i: "idle_peer ?d (next_pid dev)" "hs_remoteStatic (handshake (peers ?d (next_pid dev))) = pk" "sid_publicKey ?d = sid_publicKey dev"
      using n by (auto simp: idle_peer_def upd_peer_def)
    obtain d' where d': "Peer_Start (ue_env (us 3)) (next_pid dev) ?d = Some d'" "idle_peer d' (next_pid dev)" "hs_remoteStatic (handshake (peers d' (next_pid dev))) = pk"
      using Start_idle [OF i(1), of "ue_env (us 3)"] unfolding i(2) by blast
    have sid: "sid_publicKey d' = sid_publicKey dev"
      using d'(1) i(3) by (auto simp: Peer_Start_def Let_def flushInboundQueue_def flushOutboundQueue_def set_handshake_def timersStart_def
          upd_timers_def upd_peer_def bind_eq_Some_conv split: if_splits)
    have "\<exists>d''. handlePostConfig c (us 3) ?sp (dev1\<lparr>allowedips := tbl\<rparr>) = Some d'' \<and> idle_peer d'' (next_pid dev)
        \<and> hs_remoteStatic (handshake (peers d'' (next_pid dev))) = pk \<and> sid_publicKey d'' = sid_publicKey dev"
    proof (cases "deviceState_isUp ?d")
      case True
      have "SendStagedPackets c (ue_env (us 3)) (next_pid dev) d' = Some d'" using d'(2) by (simp add: SendStagedPackets_def idle_peer_def)
      then show ?thesis using True d' sid by (simp add: handlePostConfig_def new_ipcSetPeer_def Let_def)
    next
      case False
      then show ?thesis using i by (simp add: handlePostConfig_def new_ipcSetPeer_def Let_def)
    qed
    then obtain d'' where d'': "handlePostConfig c (us 3) ?sp (dev1\<lparr>allowedips := tbl\<rparr>) = Some d''" "idle_peer d'' (next_pid dev)"
      "hs_remoteStatic (handshake (peers d'' (next_pid dev))) = pk" "sid_publicKey d'' = sid_publicKey dev" by blast
    have "LookupPeer pk d'' = Some (next_pid dev)" using post_keeps [OF d''(1) ok] l by (simp add: LookupPeer_def)
    then show ?thesis using False m d'' by auto
  qed
qed

lemma routes_fresh_peer:
  assumes "dev_inv dev" and "LookupPeer pk dev = None" and "LookupPeer pk dev' = Some p"
    and "\<forall>k. k \<noteq> pk \<longrightarrow> LookupPeer k dev' = LookupPeer k dev" and "dev_inv dev'"
  shows "routes (allowedips dev) r \<noteq> Some p"
proof
  assume "routes (allowedips dev) r = Some p"
  moreover have "reg_ok (life dev)" using assms(1) by (simp add: dev_inv_def life_ok_def)
  moreover from this have dk: "distinct (map fst (keyMap dev))" by (simp add: reg_ok_def life_def)
  ultimately have "p \<in> snd ` set (keyMap dev)" by (cases r) (simp add: reg_ok_def life_def l_pids_def)
  then obtain k where "(k, p) \<in> set (keyMap dev)" by auto
  with dk have "LookupPeer k dev = Some p" by (simp add: LookupPeer_def)
  moreover from this have kn: "k \<noteq> pk" using assms(2) by auto
  ultimately have "LookupPeer k dev' = Some p" using assms(4) by simp
  then have m: "(k, p) \<in> set (keyMap dev')" "(pk, p) \<in> set (keyMap dev')" using assms(3) by (auto simp: LookupPeer_def dest: map_of_SomeD)
  have "distinct (map snd (keyMap dev'))" using assms(5) by (simp add: dev_inv_def life_ok_def reg_ok_def life_def)
  then have "(k, p) = (pk, p)" using m by (metis distinct_map inj_onD snd_conv)
  then show False using kn by simp
qed

lemma AddPeer_new_key:
  assumes "dev_inv dev" "length pk = 32" "length ip = 4" "pk \<noteq> sid_publicKey dev" "LookupPeer pk dev = None"
  shows "if deviceState_isClosed dev \<or> length (keyMap dev) \<ge> MaxPeers
    then Manager_AddPeer c t us (hex_encode pk) (string4 ip) dev = Some (Some IpcErrorInvalid, dev)
    else \<exists>dev' p. Manager_AddPeer c t us (hex_encode pk) (string4 ip) dev = Some (None, dev') \<and> dev_inv dev'
      \<and> LookupPeer pk dev' = Some p \<and> (\<forall>k. k \<noteq> pk \<longrightarrow> LookupPeer k dev' = LookupPeer k dev)
      \<and> routes (allowedips dev') = (routes (allowedips dev))(prefix_route (Addr4 ip, 32) := Some p)
      \<and> idle_peer dev' p \<and> hs_remoteStatic (handshake (peers dev' p)) = pk \<and> sid_publicKey dev' = sid_publicKey dev"
proof (cases "deviceState_isClosed dev \<or> length (keyMap dev) \<ge> MaxPeers")
  case True
  then show ?thesis using AddPeer_fresh [OF assms, of c t us] by simp
next
  case False
  then obtain dev' where d: "Manager_AddPeer c t us (hex_encode pk) (string4 ip) dev = Some (None, dev')"
    "\<forall>p. LookupPeer pk dev' = Some p \<longrightarrow> idle_peer dev' p \<and> hs_remoteStatic (handshake (peers dev' p)) = pk" "sid_publicKey dev' = sid_publicKey dev"
    using AddPeer_fresh [OF assms, of c t us] by auto
  from AddPeer_effect [OF assms(1-4) d(1)] obtain p where p: "dev_inv dev'" "LookupPeer pk dev' = Some p" "\<forall>k. k \<noteq> pk \<longrightarrow> LookupPeer k dev' = LookupPeer k dev"
    and r: "routes (allowedips dev') = (\<lambda>r. if r = prefix_route (Addr4 ip, 32) then Some p
           else if routes (allowedips dev) r = Some p then None else routes (allowedips dev) r)" by blast
  have "routes (allowedips dev') = (routes (allowedips dev))(prefix_route (Addr4 ip, 32) := Some p)"
    unfolding r using routes_fresh_peer [OF assms(1,5) p(2,3,1)] by (auto simp: fun_eq_iff)
  then show ?thesis using False d p by auto
qed

lemma RemovePeer_new_key:
  assumes "dev_inv dev" "length pk = 32" "pk \<noteq> sid_publicKey dev" "LookupPeer pk dev = Some p"
    "hs_remoteStatic (handshake (peers dev p)) = pk" "idle_peer dev p"
  shows "\<exists>dev'. Manager_RemovePeer c t us (hex_encode pk) dev = Some (None, dev') \<and> dev_inv dev' \<and> LookupPeer pk dev' = None
    \<and> (\<forall>k. k \<noteq> pk \<longrightarrow> LookupPeer k dev' = LookupPeer k dev)
    \<and> (\<forall>r. routes (allowedips dev) r \<noteq> Some p \<longrightarrow> routes (allowedips dev') r = routes (allowedips dev) r)"
proof -
  obtain dev' where d: "Manager_RemovePeer c t us (hex_encode pk) dev = Some (None, dev')" using RemovePeer_returns [OF assms] by blast
  from RemovePeer_effect [OF assms(1-3) _ d] assms(4,5) show ?thesis using d by auto
qed

section \<open>Reading back what \<open>get\<close> prints\<close>

lemma hex_number_plain: "set (hex_number n) \<inter> {CHR 0x0A, CHR 0x0D} = {} \<and> length (hex_number n) \<le> 1 + n div 16"
proof (induction n rule: hex_number.induct)
  case (1 n)
  have "hex_char (n mod 16) \<notin> {CHR 0x0A, CHR 0x0D}" using hex_char_plain [of "n mod 16"] by simp
  moreover have "hex_char n \<notin> {CHR 0x0A, CHR 0x0D}" if "n < 16" using hex_char_plain [OF that] by simp
  ultimately show ?case using 1 by (subst (1 2) hex_number.simps) auto
qed

lemma join_groups_plain:
  "\<forall>n\<in>set gs. n < 65536 \<Longrightarrow> set (join_groups gs) \<inter> {CHR 0x0A, CHR 0x0D} = {} \<and> length (join_groups gs) \<le> 4097 * length gs"
proof (induction gs rule: join_groups.induct)
  case (2 n)
  then show ?case using hex_number_plain [of n] by auto
next
  case (3 n m ns)
  then have "length (hex_number n) \<le> 4096" using hex_number_plain [of n] by auto
  then show ?case using 3 hex_number_plain [of n] by auto
qed simp

lemma string6_plain: "set (string6 ip) \<inter> {CHR 0x0A, CHR 0x0D} = {} \<and> length (string6 ip) \<le> 33000"
proof (cases "best_run ip")
  case None
  then show ?thesis using join_groups_plain [of "map (v6u16 ip) [0..<8]"] v6u16_less by (auto simp: string6_def)
next
  case (Some r)
  obtain i l where r: "r = (i, l)" by (cases r)
  have "i + l \<le> 8" using best_run_zero Some r by blast
  then show ?thesis
    using join_groups_plain [of "map (v6u16 ip) [0..<i]"] join_groups_plain [of "map (v6u16 ip) [i + l..<8]"] v6u16_less
    by (auto simp: string6_def Some r)
qed

lemma Prefix_String_plain:
  assumes "prefix_ok x"
  shows "set (Prefix_String x) \<inter> {CHR 0x0A, CHR 0x0D} = {} \<and> length (Prefix_String x) \<le> 34000"
proof -
  have n: "snd x \<le> 128" using assms by (auto simp: prefix_ok_def split: Addr.splits)
  then have d: "length (decimal (snd x)) \<le> 129" "set (decimal (snd x)) \<inter> {CHR 0x0A, CHR 0x0D} = {}"
    using length_decimal [of "snd x"] decimal_plain [of "snd x"] by auto
  have a: "set (Addr_String a) \<inter> {CHR 0x0A, CHR 0x0D} = {} \<and> length (Addr_String a) \<le> 33500" for a
  proof -
    have "length (string4 ip) \<le> 33493" "length (string4 ip) \<le> 33500" "length (string6 ip) \<le> 33500" for ip
      using string4_plain(2) [of ip] string6_plain [of ip] by simp_all
    then show ?thesis using string4_plain(1) string6_plain by (cases a) (auto simp: Addr_String_def)
  qed
  have "Prefix_String x = Addr_String (fst x) @ ''/'' @ decimal (snd x)"
    using assms by (cases "fst x") (auto simp: Prefix_String_def prefix_ok_def)
  then show ?thesis using d a [of "fst x"] by auto
qed

definition entry_prefixes :: "Device \<Rightarrow> pid \<Rightarrow> netip_prefix list" where
  "entry_prefixes dev p = map (\<lambda>n. (AddrFromSlice (fst n), snd n)) (trieEntries (allowedips dev) p)"

lemma entries_loop_text:
  "entries_loop ns (\<lambda>x buf. (buf @ f x, True)) buf = buf @ concat (map (\<lambda>n. f (AddrFromSlice (fst n), snd n)) ns)"
  by (induction ns arbitrary: buf) auto

lemma entry_prefixes_ok: "table_inv (allowedips dev) \<Longrightarrow> x \<in> set (entry_prefixes dev p) \<Longrightarrow> prefix_ok x"
  using AddrFromSlice_node(1) by (auto simp: entry_prefixes_def table_inv_def entries_agree_def)

definition get_lines :: "endpoint_text \<Rightarrow> Device \<Rightarrow> pid \<Rightarrow> string list" where
  "get_lines t dev p =
     (let peer = peers dev p in
      [''public_key'' @ ''='' @ hex_encode (hs_remoteStatic (handshake peer)),
       ''preshared_key'' @ ''='' @ hex_encode (hs_presharedKey (handshake peer)),
       ''protocol_version'' @ ''='' @ ''1'']
      @ (case endpoint_val peer of None \<Rightarrow> [] | Some ep \<Rightarrow> [''endpoint'' @ ''='' @ et_string t ep])
      @ [''last_handshake_time_sec'' @ ''='' @ decimal_int (lastHandshakeNano peer sdiv 1000000000),
         ''last_handshake_time_nsec'' @ ''='' @ decimal_int (lastHandshakeNano peer smod 1000000000),
         ''tx_bytes'' @ ''='' @ decimal (unat (txBytes peer)),
         ''rx_bytes'' @ ''='' @ decimal (unat (rxBytes peer)),
         ''persistent_keepalive_interval'' @ ''='' @ decimal (unat (persistentKeepaliveInterval peer))]
      @ map (\<lambda>x. ''allowed_ip'' @ ''='' @ Prefix_String x) (entry_prefixes dev p))"

lemma get_peer_lines: "get_peer t dev p = lines_text (get_lines t dev p)"
  unfolding get_peer_def get_lines_def Let_def EntriesForPeer_def entries_loop_text entry_prefixes_def
  by (simp add: keyf_def sendf_def lines_text_def o_def del: lines_text_simps split: option.split)

lemma ParseUint_value_decimal: "n < 2 ^ 64 \<Longrightarrow> ParseUint_value (decimal n) = n"
  using decimal_facts [of n] by (simp add: ParseUint_value_def)

lemma ParseInt_value_decimal:
  assumes "\<bar>i\<bar> < 2 ^ 63"
  shows "ParseInt_value (decimal_int i) = i"
proof (cases "i < 0")
  case True
  have "ParseUint_value (decimal (nat (- i))) = nat (- i)" using assms True by (intro ParseUint_value_decimal) simp
  then show ?thesis using True assms by (simp add: decimal_int_def ParseInt_value_def)
next
  case False
  have "ParseUint_value (decimal (nat i)) = nat i" using assms False by (intro ParseUint_value_decimal) simp
  moreover obtain ch r where "decimal (nat i) = ch # r" using decimal_facts [of "nat i"] by (cases "decimal (nat i)") auto
  moreover from this have "ch \<noteq> CHR ''-'' \<and> ch \<noteq> CHR ''+''" using decimal_plain [of "nat i"] by auto
  ultimately show ?thesis using False assms by (simp add: decimal_int_def ParseInt_value_def)
qed

lemma length_decimal_digits: "n < 10 ^ k \<Longrightarrow> 0 < k \<Longrightarrow> length (decimal n) \<le> k"
proof (induction k arbitrary: n)
  case (Suc k)
  show ?case
  proof (cases "n < 10")
    case False
    then have "n div 10 < 10 ^ k" "0 < k" using Suc.prems by (cases k; simp)+
    then show ?thesis using Suc.IH [of "n div 10"] by (subst decimal.simps) simp
  qed (subst decimal.simps, simp)
qed simp

lemma decimal_int_plain:
  assumes "\<bar>i\<bar> < 2 ^ 64"
  shows "set (decimal_int i) \<inter> {CHR 0x0A, CHR 0x0D} = {} \<and> length (decimal_int i) \<le> 21"
proof -
  have "length (decimal n) \<le> 20" if "n < 2 ^ 64" for n by (rule length_decimal_digits) (use that in simp_all)
  then have "length (decimal (nat i)) \<le> 20" "length (decimal (nat (- i))) \<le> 20" using assms by (simp_all add: nat_less_iff)
  then show ?thesis
    using decimal_plain [of "nat i"] decimal_plain [of "nat (- i)"] by (auto simp: decimal_int_def)
qed

text \<open>What the manager should read for a peer.\<close>

definition peer_info :: "endpoint_text \<Rightarrow> Device \<Rightarrow> pid \<Rightarrow> PeerInfo" where
  "peer_info t dev p =
     (let peer = peers dev p in
      \<lparr>pi_PublicKey = hex_encode (hs_remoteStatic (handshake peer)),
       pi_Endpoint = (case endpoint_val peer of None \<Rightarrow> [] | Some ep \<Rightarrow> et_string t ep),
       pi_TxBytes = unat (txBytes peer), pi_RxBytes = unat (rxBytes peer),
       pi_LastHandshakeSec = lastHandshakeNano peer sdiv 1000000000,
       pi_LastHandshakeNsec = lastHandshakeNano peer smod 1000000000\<rparr>)"

lemma list_line_eq:
  assumes "CHR ''='' \<notin> set k"
  shows "list_line (k @ ''='' @ v) (cur, m) =
    (if k = ''public_key'' then (Some (new_PeerInfo v), save_current cur m)
     else if k = ''endpoint'' then (map_option (\<lambda>x. x\<lparr>pi_Endpoint := v\<rparr>) cur, m)
     else if k = ''tx_bytes'' then (map_option (\<lambda>x. x\<lparr>pi_TxBytes := ParseUint_value v\<rparr>) cur, m)
     else if k = ''rx_bytes'' then (map_option (\<lambda>x. x\<lparr>pi_RxBytes := ParseUint_value v\<rparr>) cur, m)
     else if k = ''last_handshake_time_sec'' then (map_option (\<lambda>x. x\<lparr>pi_LastHandshakeSec := ParseInt_value v\<rparr>) cur, m)
     else if k = ''last_handshake_time_nsec'' then (map_option (\<lambda>x. x\<lparr>pi_LastHandshakeNsec := ParseInt_value v\<rparr>) cur, m)
     else (cur, m))"
proof -
  have c: "str_cut (CHR ''='') (k @ ''='' @ v) = Some (k, v)" using str_cut_append [OF assms, of v] by simp
  show ?thesis unfolding list_line_def c by (simp only: prod.case option.case Let_def)
qed

lemma list_other_lines: "fold list_line (map (\<lambda>x. ''allowed_ip'' @ ''='' @ f x) xs) st = st"
proof (induction xs arbitrary: st)
  case (Cons x xs)
  have "list_line (''allowed_ip'' @ ''='' @ f x) st = st"
    using list_line_eq [of "''allowed_ip''" "f x" "fst st" "snd st"] by simp
  then show ?case using Cons by simp
qed simp

text \<open>What the device prints stays within a line: keys of 32 bytes, a handshake time of 64 bits, and endpoint
  texts without line ends.\<close>

definition printable :: "endpoint_text \<Rightarrow> Device \<Rightarrow> bool" where
  "printable t dev \<longleftrightarrow> table_inv (allowedips dev) \<and> length (sid_privateKey dev) = 32
     \<and> (\<forall>p\<in>set (peer_list dev). length (hs_remoteStatic (handshake (peers dev p))) = 32
         \<and> length (hs_presharedKey (handshake (peers dev p))) = 32 \<and> \<bar>lastHandshakeNano (peers dev p)\<bar> < 2 ^ 63
         \<and> (\<forall>ep. endpoint_val (peers dev p) = Some ep \<longrightarrow>
              set (et_string t ep) \<inter> {CHR 0x0A, CHR 0x0D} = {} \<and> length (et_string t ep) \<le> 1000))"

lemma sdiv_smod_small:
  fixes i :: int
  assumes "\<bar>i\<bar> < 2 ^ 63"
  shows "\<bar>i sdiv 1000000000\<bar> < 2 ^ 63" "\<bar>i smod 1000000000\<bar> < 2 ^ 63"
proof -
  have "\<bar>i\<bar> div 1000000000 \<le> \<bar>i\<bar>" "0 \<le> \<bar>i\<bar> div 1000000000" by linarith+
  moreover have "\<bar>i\<bar> mod 1000000000 < 1000000000" "0 \<le> \<bar>i\<bar> mod 1000000000" by simp_all
  ultimately show "\<bar>i sdiv 1000000000\<bar> < 2 ^ 63" "\<bar>i smod 1000000000\<bar> < 2 ^ 63"
    using assms by (auto simp: signed_divide_int_def signed_modulo_int_def abs_mult sgn_if)
qed

lemma get_lines_ok:
  assumes "printable t dev" "p \<in> set (peer_list dev)"
  shows "list_all line_ok (get_lines t dev p)"
proof -
  note q = assms [unfolded printable_def]
  have small: "\<bar>lastHandshakeNano (peers dev p) sdiv 1000000000\<bar> < 2 ^ 64" "\<bar>lastHandshakeNano (peers dev p) smod 1000000000\<bar> < 2 ^ 64"
    using sdiv_smod_small [of "lastHandshakeNano (peers dev p)"] q by fastforce+
  have u: "length (decimal (unat w)) \<le> 20" for w :: u64
    by (rule length_decimal_digits) (use unsigned_less [of w, where 'a = nat] in simp_all)
  have k: "length (decimal (unat w)) \<le> 20" for w :: u32
    by (rule length_decimal_digits) (use unsigned_less [of w, where 'a = nat] in simp_all)
  have a: "list_all line_ok (map (\<lambda>x. ''allowed_ip'' @ ''='' @ Prefix_String x) (entry_prefixes dev p))"
    unfolding list_all_iff set_map
  proof (intro ballI, elim imageE)
    fix l x assume "l = ''allowed_ip'' @ ''='' @ Prefix_String x" "x \<in> set (entry_prefixes dev p)"
    then show "line_ok l"
      using Prefix_String_plain [of x] entry_prefixes_ok [of dev x p] q by (simp only:) (intro plain_line(1), auto)
  qed
  have e: "list_all line_ok (case endpoint_val (peers dev p) of None \<Rightarrow> [] | Some ep \<Rightarrow> [''endpoint'' @ ''='' @ et_string t ep])"
  proof (cases "endpoint_val (peers dev p)")
    case (Some ep)
    then have "line_ok (''endpoint'' @ ''='' @ et_string t ep)" using q by (intro plain_line(1)) fastforce+
    then show ?thesis by (simp add: Some)
  qed simp
  show ?thesis
    unfolding get_lines_def Let_def list_all_append list.pred_inject
    using hex_encode_plain [of "hs_remoteStatic (handshake (peers dev p))"] hex_encode_plain [of "hs_presharedKey (handshake (peers dev p))"]
      decimal_int_plain [OF small(1)] decimal_int_plain [OF small(2)] u [of "txBytes (peers dev p)"] u [of "rxBytes (peers dev p)"]
      k [of "persistentKeepaliveInterval (peers dev p)"] decimal_plain a e q
    by (intro conjI plain_line(1)) auto
qed

lemma list_get_lines:
  assumes "\<bar>lastHandshakeNano (peers dev p)\<bar> < 2 ^ 63"
  shows "fold list_line (get_lines t dev p) (cur, m) = (Some (peer_info t dev p), save_current cur m)"
proof -
  note small = ParseInt_value_decimal [OF sdiv_smod_small(1) [OF assms]] ParseInt_value_decimal [OF sdiv_smod_small(2) [OF assms]]
  have u: "ParseUint_value (decimal (unat w)) = unat w" for w :: u64
    by (rule ParseUint_value_decimal) (use unsigned_less [of w, where 'a = nat] in simp)
  have e: "fold list_line (case endpoint_val (peers dev p) of None \<Rightarrow> [] | Some ep \<Rightarrow> [''endpoint'' @ ''='' @ et_string t ep]) (Some x, m')
      = (Some (case endpoint_val (peers dev p) of None \<Rightarrow> x | Some ep \<Rightarrow> x\<lparr>pi_Endpoint := et_string t ep\<rparr>), m')" for x m'
    using list_line_eq [of "''endpoint''"] by (simp split: option.split)
  note l = list_line_eq [of "''public_key''", simplified] list_line_eq [of "''preshared_key''", simplified]
    list_line_eq [of "''protocol_version''", simplified] list_line_eq [of "''last_handshake_time_sec''", simplified]
    list_line_eq [of "''last_handshake_time_nsec''", simplified] list_line_eq [of "''tx_bytes''", simplified]
    list_line_eq [of "''rx_bytes''", simplified] list_line_eq [of "''persistent_keepalive_interval''", simplified]
  have "fold list_line [''public_key'' @ ''='' @ hex_encode (hs_remoteStatic (handshake (peers dev p))),
       ''preshared_key'' @ ''='' @ hex_encode (hs_presharedKey (handshake (peers dev p))), ''protocol_version'' @ ''='' @ ''1''] (cur, m)
    = (Some (new_PeerInfo (hex_encode (hs_remoteStatic (handshake (peers dev p))))), save_current cur m)"
    using l(2) [of _ "Some (new_PeerInfo (hex_encode (hs_remoteStatic (handshake (peers dev p)))))"]
      l(3) [of "''1''" "Some (new_PeerInfo (hex_encode (hs_remoteStatic (handshake (peers dev p)))))"] by (simp add: l(1))
  then show ?thesis
    unfolding get_lines_def Let_def fold_append o_apply e list_other_lines
    by (simp add: l e list_other_lines u small peer_info_def Let_def new_PeerInfo_def split: option.split)
qed

lemma save_peer_info: "save_current (Some (peer_info t dev p)) m = (if hs_remoteStatic (handshake (peers dev p)) = [] then m
    else m(hex_encode (hs_remoteStatic (handshake (peers dev p))) \<mapsto> peer_info t dev p))"
  using hex_encode_plain(2) [of "hs_remoteStatic (handshake (peers dev p))"]
  by (cases "hs_remoteStatic (handshake (peers dev p))") (auto simp: save_current_def peer_info_def Let_def)

lemma list_all_peers:
  assumes "\<forall>p\<in>set ps. \<bar>lastHandshakeNano (peers dev p)\<bar> < 2 ^ 63 \<and> hs_remoteStatic (handshake (peers dev p)) \<noteq> []"
  shows "case fold list_line (concat (map (get_lines t dev) ps)) (cur, m) of
    (cur', m') \<Rightarrow> save_current cur' m' = save_current cur m ++ map_of (rev (map (\<lambda>p. (hex_encode (hs_remoteStatic (handshake (peers dev p))), peer_info t dev p)) ps))"
  using assms
proof (induction ps arbitrary: cur m)
  case (Cons p ps)
  have "m(k \<mapsto> v) ++ R = m ++ ([k \<mapsto> v] ++ R)" for m R and k :: string and v :: PeerInfo
    by (auto simp: fun_eq_iff map_add_def split: option.split)
  then show ?case
    using Cons.IH [of "Some (peer_info t dev p)" "save_current cur m"] Cons.prems
    by (simp add: list_get_lines save_peer_info split: prod.splits del: fun_upd_apply)
qed simp

lemma get_text_lines:
  assumes "printable t dev"
  shows "\<exists>ds. IpcGetOperation t dev = lines_text (ds @ concat (map (get_lines t dev) (peer_list dev))) \<and> list_all line_ok ds
     \<and> fold list_line ds (None, Map.empty) = (None, Map.empty)"
proof -
  define ds where "ds = (if \<not> IsZero (sid_privateKey dev) then [''private_key'' @ ''='' @ hex_encode (sid_privateKey dev)] else [])
     @ (if net_port dev \<noteq> 0 then [''listen_port'' @ ''='' @ decimal (unat (net_port dev))] else [])
     @ (if net_fwmark dev \<noteq> 0 then [''fwmark'' @ ''='' @ decimal (unat (net_fwmark dev))] else [])"
  have "concat (map (get_peer t dev) ps) = lines_text (concat (map (get_lines t dev) ps))" for ps
    by (induction ps) (simp_all add: get_peer_lines)
  then have g: "IpcGetOperation t dev = lines_text (ds @ concat (map (get_lines t dev) (peer_list dev)))"
    by (simp add: IpcGetOperation_def ds_def keyf_def sendf_def)
  have "length (decimal (unat (net_port dev))) \<le> 20" "length (decimal (unat (net_fwmark dev))) \<le> 20"
    by (rule length_decimal_digits; use unsigned_less [of "net_port dev", where 'a = nat] unsigned_less [of "net_fwmark dev", where 'a = nat] in simp)+
  then have "line_ok (''private_key'' @ ''='' @ hex_encode (sid_privateKey dev))" "line_ok (''listen_port'' @ ''='' @ decimal (unat (net_port dev)))"
      "line_ok (''fwmark'' @ ''='' @ decimal (unat (net_fwmark dev)))"
    using hex_encode_plain [of "sid_privateKey dev"] decimal_plain assms
    by (auto intro!: plain_line(1) simp: printable_def simp del: append_Cons append.simps)
  then have "list_all line_ok ds" by (simp add: ds_def del: append_Cons)
  moreover have "fold list_line ds (None, Map.empty) = (None, Map.empty)"
    using list_line_eq [of "''private_key''" _ None Map.empty] list_line_eq [of "''listen_port''" _ None Map.empty]
      list_line_eq [of "''fwmark''" _ None Map.empty] by (simp add: ds_def)
  ultimately show ?thesis using g by blast
qed

section \<open>Properties\<close>

text \<open>C37. The monitor and the API read the device faithfully: on a device whose peers have different keys, \<open>ListPeers\<close> parses
  the text of \<open>get\<close> without an error into exactly one entry per registered peer, under its key in hexadecimal, with the
  endpoint, byte counters and handshake time of that peer.\<close>

theorem ListPeers_reads_get:
  assumes "printable t dev" and "distinct (map (\<lambda>p. hs_remoteStatic (handshake (peers dev p))) (peer_list dev))"
  shows "\<exists>m. ListPeers t dev = (m, True)
    \<and> (\<forall>p\<in>set (peer_list dev). m (hex_encode (hs_remoteStatic (handshake (peers dev p)))) = Some (peer_info t dev p))
    \<and> dom m = (\<lambda>p. hex_encode (hs_remoteStatic (handshake (peers dev p)))) ` set (peer_list dev)"
proof -
  let ?key = "\<lambda>p. hex_encode (hs_remoteStatic (handshake (peers dev p)))"
  let ?ls = "concat (map (get_lines t dev) (peer_list dev))" and ?kv = "map (\<lambda>p. (?key p, peer_info t dev p)) (peer_list dev)"
  obtain ds where g: "IpcGetOperation t dev = lines_text (ds @ ?ls)" and ok: "list_all line_ok ds"
    and ds: "fold list_line ds (None, Map.empty) = (None, Map.empty)" using get_text_lines [OF assms(1)] by blast
  have "list_all line_ok ?ls" using get_lines_ok [OF assms(1)] by (auto simp: list_all_iff)
  then have sc: "scan_lines (IpcGetOperation t dev) = (ds @ ?ls, True)" using ok g scan_lines_text [of "ds @ ?ls"] by simp
  have "\<forall>p\<in>set (peer_list dev). \<bar>lastHandshakeNano (peers dev p)\<bar> < 2 ^ 63 \<and> hs_remoteStatic (handshake (peers dev p)) \<noteq> []"
    using assms(1) by (fastforce simp: printable_def)
  from list_all_peers [OF this, where t = t and cur = None and m = Map.empty] have l: "ListPeers t dev = (map_of (rev ?kv), True)"
    unfolding ListPeers_def sc Let_def prod.case fold_append o_apply ds by (simp add: save_current_def split: prod.splits)
  have inj: "?key p = ?key q \<Longrightarrow> hs_remoteStatic (handshake (peers dev p)) = hs_remoteStatic (handshake (peers dev q))" for p q
    using hex_decode_encode by (metis option.inject)
  have "distinct (map fst ?kv)"
    using assms(2) inj by (auto simp: distinct_map o_def inj_on_def)
  then have "map_of (rev ?kv) = map_of ?kv" using map_of_inject_set [of "rev ?kv" ?kv] by (simp add: rev_map [symmetric] o_def)
  with \<open>distinct (map fst ?kv)\<close> have m_ok: "\<forall>p\<in>set (peer_list dev). map_of (rev ?kv) (?key p) = Some (peer_info t dev p)"
    by (auto intro!: map_of_is_SomeI)
  moreover have "dom (map_of (rev ?kv)) = ?key ` set (peer_list dev)" by (simp add: dom_map_of_conv_image_fst image_image)
  ultimately show ?thesis using l by blast
qed

theorem ListPeers_reads_get_witness:
  "\<exists>m. ListPeers example_text example_new = (m, True) \<and> m (hex_encode example_pk) = Some (peer_info example_text example_new 0)"
proof -
  have k: "hs_remoteStatic (handshake (peers example_new 0)) = example_pk" "peer_list example_new = [0]"
    by (simp_all add: example_new_fields peer_list_def)
  have "printable example_text example_new"
    using example_new_inv by (simp add: printable_def k(2) dev_inv_def)
      (simp add: example_new_fields zero_Peer_def zero_Handshake_def example_pk_def zero_key_def example_new_def NewDevice_def Rate_Init_def
        new_ratelimiter_def Let_def NewPeer_def zero_Device_def deviceState_isClosed_def MaxPeers_def upd_peer_def timersInit_def upd_timers_def)
  from ListPeers_reads_get [OF this] show ?thesis by (auto simp: k)
qed

text \<open>Giving a user access: when \<open>AddPeer\<close> succeeds for a key other than the server's, the key is registered, packets
  for the user's address go to that peer, it is the only address the peer may use, all other addresses that were not
  its own keep their routes, and no other registration changes.\<close>

theorem AddPeer_routes_user:
  assumes "dev_inv dev" and "length pk = 32" and "length ip = 4" and "pk \<noteq> sid_publicKey dev"
    and "Manager_AddPeer c t us (hex_encode pk) (Addr_String (Addr4 ip)) dev = Some (None, dev')"
  shows "\<exists>p. LookupPeer pk dev' = Some p \<and> Lookup (allowedips dev') ip = Some (Some p)
    \<and> (\<forall>a. addr_width (length a) \<longrightarrow> Lookup (allowedips dev') a = Some (Some p) \<longrightarrow> a = ip)
    \<and> (\<forall>r. r \<noteq> prefix_route (Addr4 ip, 32) \<longrightarrow> routes (allowedips dev) r \<noteq> Some p \<longrightarrow> routes (allowedips dev') r = routes (allowedips dev) r)
    \<and> (\<forall>k. k \<noteq> pk \<longrightarrow> LookupPeer k dev' = LookupPeer k dev)"
proof -
  have a: "Addr_String (Addr4 ip) = string4 ip" by (simp add: Addr_String_def)
  have w: "addr_width (length ip)" using assms(3) by (simp add: addr_width_def)
  have f: "take 32 (ip_bits ip) = ip_bits ip" using assms(3) by simp
  have pr: "prefix_route (Addr4 ip, 32) = (4, ip_bits ip)" using f assms(3) by (simp add: prefix_route_def addr_bytes_def)
  from AddPeer_effect [OF assms(1-4), of c t us dev'] assms(5) obtain p where
    p: "dev_inv dev'" "LookupPeer pk dev' = Some p" "\<forall>k. k \<noteq> pk \<longrightarrow> LookupPeer k dev' = LookupPeer k dev" and
    r: "routes (allowedips dev') = (\<lambda>r. if r = (4, ip_bits ip) then Some p
           else if routes (allowedips dev) r = Some p then None else routes (allowedips dev) r)"
    unfolding a pr by blast
  have ti: "table_inv (allowedips dev')" using p(1) by (simp add: dev_inv_def)
  have "lpm (\<lambda>k. routes (allowedips dev') (length ip, k)) (ip_bits ip) = Some p"
    by (rule lpm_eq [of 32]) (use assms(3) f in \<open>auto simp: r\<close>)
  then have l: "Lookup (allowedips dev') ip = Some (Some p)" using wg_routing.lookup_law [OF ti w] by simp
  have "a = ip" if a: "addr_width (length a)" "Lookup (allowedips dev') a = Some (Some p)" for a
  proof -
    have "lpm (\<lambda>k. routes (allowedips dev') (length a, k)) (ip_bits a) = Some p" using wg_routing.lookup_law [OF ti a(1)] a(2) by simp
    then obtain n where n: "n \<le> length (ip_bits a)" "routes (allowedips dev') (length a, take n (ip_bits a)) = Some p" by (rule lpm_Some)
    then have e: "length a = 4" "take n (ip_bits a) = ip_bits ip" by (auto simp: r split: if_splits)
    then have "length (take n (ip_bits a)) = 32" using assms(3) by simp
    then have "take n (ip_bits a) = ip_bits a" using e(1) n(1) by simp
    then show ?thesis using e ip_bits_inj [of a ip] assms(3) by simp
  qed
  then show ?thesis using p l r pr by auto
qed

theorem AddPeer_routes_user_witness:
  "\<exists>dev'. Manager_AddPeer toy_crypto example_text (\<lambda>_. example_uapi) (hex_encode example_pk) (Addr_String (Addr4 [10, 8, 0, 2])) example_new = Some (None, dev')
     \<and> (\<exists>p. LookupPeer example_pk dev' = Some p \<and> Lookup (allowedips dev') [10, 8, 0, 2] = Some (Some p))"
proof -
  have a: "Addr_String (Addr4 [10, 8, 0, 2]) = string4 [10, 8, 0, 2]" by (simp add: Addr_String_def)
  have z: "sid_publicKey example_new = zero_key"
    by (simp add: example_new_def NewDevice_def Rate_Init_def new_ratelimiter_def Let_def NewPeer_def zero_Device_def
        deviceState_isClosed_def MaxPeers_def upd_peer_def timersInit_def upd_timers_def)
  have n: "length example_pk = 32" "example_pk \<noteq> sid_publicKey example_new" by (simp_all add: example_pk_def z zero_key_def)
  have "handlePublicKeyLine toy_crypto (hex_encode example_pk) new_ipcSetPeer example_new
      = (None, new_ipcSetPeer\<lparr>sp_Peer := Some 0\<rparr>, example_new)"
    using n FromHex_encode [of example_pk zero_key]
    by (simp add: handlePublicKeyLine_def zero_key_def Equals_def Let_def LookupPeer_def example_new_fields new_ipcSetPeer_def)
  from AddPeer_runs [OF example_new_inv n(1) _ n(2) this, of "[10, 8, 0, 2]" example_text "\<lambda>_. example_uapi"]
  obtain tbl where "Manager_AddPeer toy_crypto example_text (\<lambda>_. example_uapi) (hex_encode example_pk) (string4 [10, 8, 0, 2]) example_new
      = map_option (Pair None) (handlePostConfig toy_crypto example_uapi (new_ipcSetPeer\<lparr>sp_Peer := Some 0\<rparr>) (example_new\<lparr>allowedips := tbl\<rparr>))"
    by auto
  moreover have "handlePostConfig toy_crypto example_uapi (new_ipcSetPeer\<lparr>sp_Peer := Some 0\<rparr>) (example_new\<lparr>allowedips := tbl\<rparr>) = Some (example_new\<lparr>allowedips := tbl\<rparr>)"
    by (simp add: handlePostConfig_def new_ipcSetPeer_def deviceState_isUp_def example_new_fields)
  ultimately have r: "Manager_AddPeer toy_crypto example_text (\<lambda>_. example_uapi) (hex_encode example_pk) (Addr_String (Addr4 [10, 8, 0, 2])) example_new
      = Some (None, example_new\<lparr>allowedips := tbl\<rparr>)" by (simp add: a)
  from AddPeer_routes_user [OF example_new_inv n(1) _ n(2) r] r show ?thesis by auto
qed

end
