(* ===== verification/MgmtStore.thy ===== *)
theory MgmtStore
  imports NetText
begin

text \<open>
  The user store of the management layer, \<^verbatim>\<open>src/mgmt/store\<close>. The database is the two tables its schema
  declares; a statement means what SQL says of it (\<open>UNIQUE\<close> columns refuse a second equal value, \<open>ORDER BY\<close>
  sorts, equal keys stay in row order), and may fail for a reason of its own: \<open>se_err n\<close> is the error of the
  \<open>n\<close>-th statement of an operation, if any. Times are stored with RFC 3339, that is in whole seconds.
  The outer \<open>None\<close> of a result is a panic.
\<close>

section \<open>Rows and users\<close>

record User =
  u_ID :: string
  u_Name :: string
  u_PublicKey :: string
  u_PrivateKey :: string
  u_AssignedIP :: string
  u_BandwidthMbps :: int
  u_TCClassID :: int
  u_Enabled :: bool
  u_CreatedAt :: gotime
  u_UpdatedAt :: gotime

record CreateUserInput =
  ci_Name :: string
  ci_BandwidthMbps :: int

record UpdateUserInput =
  ui_Name :: "string option"
  ui_BandwidthMbps :: "int option"
  ui_Enabled :: "bool option"

record users_row =
  row_id :: string
  row_name :: string
  row_public_key :: string
  row_private_key :: string
  row_assigned_ip :: string
  row_bandwidth_mbps :: int
  row_tc_class_id :: int
  row_enabled :: int
  row_created_at :: int
  row_updated_at :: int

record ServerConfig =
  sc_PrivateKey :: string
  sc_PublicKey :: string
  sc_ListenPort :: int
  sc_ServerIP :: string

record Store =
  db_users :: "users_row list"
  db_server :: "ServerConfig list"
  st_subnet :: netip_prefix

datatype store_error = ErrNoRows | ErrDB string | ErrUnique | ErrNoIPs | ErrSubnet

record store_env =
  se_now :: gotime
  se_uuid :: string
  se_err :: "nat \<Rightarrow> string option"

definition boolToInt :: "bool \<Rightarrow> int" where
  "boolToInt v = (if v then 1 else 0)"

text \<open>\<open>Format(time.RFC3339)\<close> of a UTC time, as the number of seconds its text denotes.\<close>

definition format_time :: "gotime \<Rightarrow> int" where
  "format_time t = t div second"

definition row_of :: "User \<Rightarrow> users_row" where
  "row_of u = \<lparr>row_id = u_ID u, row_name = u_Name u, row_public_key = u_PublicKey u, row_private_key = u_PrivateKey u,
     row_assigned_ip = u_AssignedIP u, row_bandwidth_mbps = u_BandwidthMbps u, row_tc_class_id = u_TCClassID u,
     row_enabled = boolToInt (u_Enabled u), row_created_at = format_time (u_CreatedAt u),
     row_updated_at = format_time (u_UpdatedAt u)\<rparr>"

definition scanUser :: "users_row \<Rightarrow> User" where
  "scanUser r = \<lparr>u_ID = row_id r, u_Name = row_name r, u_PublicKey = row_public_key r, u_PrivateKey = row_private_key r,
     u_AssignedIP = row_assigned_ip r, u_BandwidthMbps = row_bandwidth_mbps r, u_TCClassID = row_tc_class_id r,
     u_Enabled = (row_enabled r = 1), u_CreatedAt = row_created_at r * second, u_UpdatedAt = row_updated_at r * second\<rparr>"

section \<open>Statements\<close>

definition insert_row :: "users_row \<Rightarrow> users_row list \<Rightarrow> users_row list option" where
  "insert_row r rs =
     (if row_id r \<in> row_id ` set rs \<or> row_name r \<in> row_name ` set rs \<or> row_public_key r \<in> row_public_key ` set rs
         \<or> row_assigned_ip r \<in> row_assigned_ip ` set rs
      then None else Some (rs @ [r]))"

definition update_row :: "string \<Rightarrow> string \<Rightarrow> int \<Rightarrow> int \<Rightarrow> int \<Rightarrow> users_row list \<Rightarrow> users_row list option" where
  "update_row i nm bw en upd rs =
     (if (\<exists>r\<in>set rs. row_id r = i) \<and> (\<exists>r\<in>set rs. row_id r \<noteq> i \<and> row_name r = nm) then None
      else Some (map (\<lambda>r. if row_id r = i
        then r\<lparr>row_name := nm, row_bandwidth_mbps := bw, row_enabled := en, row_updated_at := upd\<rparr> else r) rs))"

section \<open>Operations\<close>

definition Open :: "string \<Rightarrow> string option \<Rightarrow> users_row list \<Rightarrow> ServerConfig list \<Rightarrow> store_error + Store" where
  "Open sub err users sc =
     (case ParsePrefix sub of
        None \<Rightarrow> Inl ErrSubnet
      | Some prefx \<Rightarrow>
          (case err of Some e \<Rightarrow> Inl (ErrDB e)
           | None \<Rightarrow> Inr \<lparr>db_users = users, db_server = sc, st_subnet = prefx\<rparr>))"

definition As4 :: "Addr \<Rightarrow> bytes option" where
  "As4 a =
     (case a of
        Addr4 ip \<Rightarrow> Some ip
      | Addr6 ip \<Rightarrow> if Is4In6 ip then Some (drop 12 ip) else None
      | NoAddr \<Rightarrow> None)"

definition ipToHost :: "Addr \<Rightarrow> u32 option" where
  "ipToHost addr = map_option (\<lambda>a. ucast (a ! 3)) (As4 addr)"

text \<open>The hosts in use. An address that does not parse is skipped, an IPv6 address panics.\<close>

fun used_hosts :: "users_row list \<Rightarrow> u32 list option" where
  "used_hosts [] = Some []"
| "used_hosts (r # rs) =
     (case ParseAddr (row_assigned_ip r) of
        None \<Rightarrow> used_hosts rs
      | Some addr \<Rightarrow> do { h \<leftarrow> ipToHost addr; hs \<leftarrow> used_hosts rs; Some (h # hs) })"

text \<open>The loop over the hosts. \<open>host\<close> wraps around, so the loop need not end; it is a
  partial function whose result \<open>None\<close> means that it runs forever.\<close>

partial_function (option) find_host :: "u32 list \<Rightarrow> u32 \<Rightarrow> u32 \<Rightarrow> u32 option option" where
  "find_host used maxHosts host =
     (if host > maxHosts then Some None
      else if host \<in> set used then find_host used maxHosts (host + 1)
      else Some (Some host))"

declare find_host.simps [code]

definition maxHosts_of :: "nat \<Rightarrow> u32 option" where
  "maxHosts_of bits = (if bits > 32 then None else Some (push_bit (32 - bits) 1 - 2))"

definition host_addr :: "bytes \<Rightarrow> u32 \<Rightarrow> Addr" where
  "host_addr base host = Addr4 [base ! 0, base ! 1, base ! 2, ucast host]"

definition allocateIP :: "string option \<Rightarrow> Store \<Rightarrow> (store_error + string \<times> int) option" where
  "allocateIP err s =
     (case err of
        Some e \<Rightarrow> Some (Inl (ErrDB e))
      | None \<Rightarrow> do {
          used \<leftarrow> used_hosts (db_users s);
          base \<leftarrow> As4 (fst (st_subnet s));
          maxHosts \<leftarrow> maxHosts_of (snd (st_subnet s));
          found \<leftarrow> find_host used maxHosts 2;
          Some (case found of
              None \<Rightarrow> Inl ErrNoIPs
            | Some host \<Rightarrow> Inr (Addr_String (host_addr base host), uint host))
        })"

definition new_user :: "store_env \<Rightarrow> CreateUserInput \<Rightarrow> string \<Rightarrow> string \<Rightarrow> string \<Rightarrow> int \<Rightarrow> User" where
  "new_user se input pub priv ip classID =
     \<lparr>u_ID = se_uuid se, u_Name = ci_Name input, u_PublicKey = pub, u_PrivateKey = priv, u_AssignedIP = ip,
      u_BandwidthMbps = ci_BandwidthMbps input, u_TCClassID = classID, u_Enabled = True,
      u_CreatedAt = se_now se, u_UpdatedAt = se_now se\<rparr>"

definition Store_Create ::
  "store_env \<Rightarrow> CreateUserInput \<Rightarrow> string \<Rightarrow> string \<Rightarrow> Store \<Rightarrow> ((store_error + User) \<times> Store) option" where
  "Store_Create se input pub priv s =
     do {
       r \<leftarrow> allocateIP (se_err se 0) s;
       Some (case r of
           Inl e \<Rightarrow> (Inl e, s)
         | Inr (ip, classID) \<Rightarrow>
             let user = new_user se input pub priv ip classID
             in case se_err se 1 of
                  Some e \<Rightarrow> (Inl (ErrDB e), s)
                | None \<Rightarrow>
                    (case insert_row (row_of user) (db_users s) of
                       None \<Rightarrow> (Inl ErrUnique, s)
                     | Some rs \<Rightarrow> (Inr user, s\<lparr>db_users := rs\<rparr>)))
     }"

definition Store_List :: "store_env \<Rightarrow> Store \<Rightarrow> store_error + User list" where
  "Store_List se s =
     (case se_err se 0 of
        Some e \<Rightarrow> Inl (ErrDB e)
      | None \<Rightarrow> Inr (map scanUser (sort_key row_created_at (db_users s))))"

definition Store_Get :: "string option \<Rightarrow> string \<Rightarrow> Store \<Rightarrow> store_error + User" where
  "Store_Get err i s =
     (case err of
        Some e \<Rightarrow> Inl (ErrDB e)
      | None \<Rightarrow> (case find (\<lambda>r. row_id r = i) (db_users s) of None \<Rightarrow> Inl ErrNoRows | Some r \<Rightarrow> Inr (scanUser r)))"

definition apply_input :: "store_env \<Rightarrow> UpdateUserInput \<Rightarrow> User \<Rightarrow> User" where
  "apply_input se input user =
     (let user = (case ui_Name input of None \<Rightarrow> user | Some x \<Rightarrow> user\<lparr>u_Name := x\<rparr>);
          user = (case ui_BandwidthMbps input of None \<Rightarrow> user | Some x \<Rightarrow> user\<lparr>u_BandwidthMbps := x\<rparr>);
          user = (case ui_Enabled input of None \<Rightarrow> user | Some x \<Rightarrow> user\<lparr>u_Enabled := x\<rparr>)
      in user\<lparr>u_UpdatedAt := se_now se\<rparr>)"

definition Store_Update :: "store_env \<Rightarrow> string \<Rightarrow> UpdateUserInput \<Rightarrow> Store \<Rightarrow> (store_error + User) \<times> Store" where
  "Store_Update se i input s =
     (case Store_Get (se_err se 0) i s of
        Inl e \<Rightarrow> (Inl e, s)
      | Inr user \<Rightarrow>
          let user = apply_input se input user
          in case se_err se 1 of
               Some e \<Rightarrow> (Inl (ErrDB e), s)
             | None \<Rightarrow>
                 (case update_row i (u_Name user) (u_BandwidthMbps user) (boolToInt (u_Enabled user))
                    (format_time (u_UpdatedAt user)) (db_users s) of
                    None \<Rightarrow> (Inl ErrUnique, s)
                  | Some rs \<Rightarrow> (Inr user, s\<lparr>db_users := rs\<rparr>)))"

definition Store_Delete :: "store_env \<Rightarrow> string \<Rightarrow> Store \<Rightarrow> (store_error + User) \<times> Store" where
  "Store_Delete se i s =
     (case Store_Get (se_err se 0) i s of
        Inl e \<Rightarrow> (Inl e, s)
      | Inr user \<Rightarrow>
          (case se_err se 1 of
             Some e \<Rightarrow> (Inl (ErrDB e), s)
           | None \<Rightarrow> (Inr user, s\<lparr>db_users := filter (\<lambda>r. row_id r \<noteq> i) (db_users s)\<rparr>)))"

definition GetServerConfig :: "store_env \<Rightarrow> Store \<Rightarrow> store_error + ServerConfig" where
  "GetServerConfig se s =
     (case se_err se 0 of
        Some e \<Rightarrow> Inl (ErrDB e)
      | None \<Rightarrow> (case db_server s of [] \<Rightarrow> Inl ErrNoRows | sc # _ \<Rightarrow> Inr sc))"

definition SaveServerConfig :: "store_env \<Rightarrow> ServerConfig \<Rightarrow> Store \<Rightarrow> store_error option \<times> Store" where
  "SaveServerConfig se sc s =
     (case se_err se 0 of
        Some e \<Rightarrow> (Some (ErrDB e), s)
      | None \<Rightarrow>
          let s = s\<lparr>db_server := []\<rparr>
          in case se_err se 1 of
               Some e \<Rightarrow> (Some (ErrDB e), s)
             | None \<Rightarrow> (None, s\<lparr>db_server := [sc]\<rparr>))"

section \<open>Allocation\<close>

text \<open>The loop over the hosts ends, whatever its bound: the hosts in use are octets.\<close>

lemma find_host_spec:
  assumes "\<forall>h\<in>set used. unat h < 256"
  shows "\<exists>res. find_host used m host = Some res
     \<and> (case res of None \<Rightarrow> \<forall>k. host \<le> k \<longrightarrow> k \<le> m \<longrightarrow> k \<in> set used
        | Some k \<Rightarrow> host \<le> k \<and> k \<le> m \<and> k \<notin> set used \<and> (\<forall>j. host \<le> j \<longrightarrow> j < k \<longrightarrow> j \<in> set used))"
proof (induction "256 - unat host" arbitrary: host rule: less_induct)
  case less
  show ?case
  proof (cases "host \<le> m \<and> host \<in> set used")
    case False
    then show ?thesis by (subst find_host.simps) (auto simp: not_le)
  next
    case True
    then have h: "unat host < 256" using assms by blast
    have n: "unat (host + 1) = unat host + 1" using h by (simp add: unat_word_ariths)
    have split: "host \<le> k \<longleftrightarrow> k = host \<or> host + 1 \<le> k" for k
      unfolding word_le_nat_alt word_unat_eq_iff n by auto
    have "256 - unat (host + 1) < 256 - unat host" using n h by simp
    from less [OF this] obtain res where
      "find_host used m (host + 1) = Some res" and r: "case res of None \<Rightarrow> \<forall>k. host + 1 \<le> k \<longrightarrow> k \<le> m \<longrightarrow> k \<in> set used
        | Some k \<Rightarrow> host + 1 \<le> k \<and> k \<le> m \<and> k \<notin> set used \<and> (\<forall>j. host + 1 \<le> j \<longrightarrow> j < k \<longrightarrow> j \<in> set used)"
      by blast
    then have "find_host used m host = Some res" using True by (subst find_host.simps) (auto dest: leD)
    with r True show ?thesis by (intro exI [of _ res]) (auto simp: split split: option.splits)
  qed
qed

lemma used_hosts_octets: "used_hosts rs = Some hs \<Longrightarrow> \<forall>h\<in>set hs. unat h < 256"
proof (induction rs arbitrary: hs)
  case (Cons r rs)
  have "unat (ucast (x :: u8) :: u32) < 256" for x
    unfolding unsigned_ucast_eq
    by (rule le_less_trans [OF take_bit_nat_less_eq_self]) (use unsigned_less [of x, where 'a = nat] in simp)
  with Cons show ?case
    by (auto simp: ipToHost_def bind_eq_Some_conv split: option.splits)
qed simp

section \<open>The invariant of the store\<close>

text \<open>A store whose subnet leaves at most the last octet for hosts: every address is the network's with a
  host from 2 on, which is also the traffic class, and the \<open>UNIQUE\<close> columns have no duplicates.\<close>

definition addr_text :: "bytes \<Rightarrow> nat \<Rightarrow> string" where
  "addr_text base h = string4 [base ! 0, base ! 1, base ! 2, of_nat h]"

definition row_ok :: "bytes \<Rightarrow> nat \<Rightarrow> users_row \<Rightarrow> bool" where
  "row_ok base bits r \<longleftrightarrow> (\<exists>h. 2 \<le> h \<and> h + 2 \<le> 2 ^ (32 - bits) \<and> row_tc_class_id r = int h
     \<and> row_assigned_ip r = addr_text base h)"

definition store_ok :: "Store \<Rightarrow> bool" where
  "store_ok s \<longleftrightarrow> (\<exists>base bits. st_subnet s = (Addr4 base, bits) \<and> length base = 4 \<and> 24 \<le> bits \<and> bits \<le> 30
       \<and> (\<forall>r\<in>set (db_users s). row_ok base bits r))
     \<and> distinct (map row_id (db_users s)) \<and> distinct (map row_name (db_users s))
     \<and> distinct (map row_public_key (db_users s)) \<and> distinct (map row_assigned_ip (db_users s))"

lemma string4_inj:
  assumes "string4 [a, b, d, x] = string4 [a, b, d, y]"
  shows "x = y"
proof -
  have "parseIPv4Fields (string4 [a, b, d, z]) [] 0 0 = Some [a, b, d, z]" for z by (rule parseIPv4_string4) simp
  from this [of x] this [of y] show ?thesis unfolding assms by simp
qed

lemma unat_octet: "h < 256 \<Longrightarrow> unat (of_nat h :: u8) = h"
  by (simp add: take_bit_nat_eq_self unat_of_nat)

lemma addr_text_inj: "addr_text base h = addr_text base k \<Longrightarrow> h < 256 \<Longrightarrow> k < 256 \<Longrightarrow> h = k"
  by (metis addr_text_def string4_inj unat_octet)

lemma used_hosts_addr:
  assumes "\<forall>r\<in>set rs. \<exists>h<256. row_assigned_ip r = addr_text base h"
  shows "\<exists>hs. used_hosts rs = Some hs \<and> (\<forall>h<256. of_nat h \<in> set hs \<longleftrightarrow> addr_text base h \<in> row_assigned_ip ` set rs)"
  using assms
proof (induction rs)
  case (Cons r rs)
  then obtain hs k where hs: "used_hosts rs = Some hs" "\<forall>h<256. of_nat h \<in> set hs \<longleftrightarrow> addr_text base h \<in> row_assigned_ip ` set rs"
    and k: "k < 256" "row_assigned_ip r = addr_text base k" by auto
  have "ParseAddr (addr_text base k) = Some (Addr4 [base ! 0, base ! 1, base ! 2, of_nat k])"
    using ParseAddr_String [of "Addr4 [base ! 0, base ! 1, base ! 2, of_nat k]"] by (simp add: Addr_String_def addr_text_def)
  moreover have "(ucast (of_nat k :: u8) :: u32) = of_nat k"
    using k(1) by (simp add: word_unat_eq_iff unsigned_ucast_eq unsigned_of_nat take_bit_nat_eq_self)
  ultimately have u: "used_hosts (r # rs) = Some (of_nat k # hs)" using hs(1) k(2) by (simp add: ipToHost_def As4_def)
  have "(of_nat h :: u32) = of_nat k \<longleftrightarrow> addr_text base h = row_assigned_ip r" if "h < 256" for h
  proof -
    have "(of_nat h :: u32) = of_nat k \<longleftrightarrow> h = k"
      using that k(1) by (simp add: word_unat_eq_iff unsigned_of_nat take_bit_nat_eq_self)
    then show ?thesis using addr_text_inj [of base h k] that k by auto
  qed
  then show ?case using u hs(2) by auto
qed simp

lemma maxHosts:
  assumes "24 \<le> bits" "bits \<le> 30"
  shows "\<exists>m. maxHosts_of bits = Some m \<and> unat m = 2 ^ (32 - bits) - 2 \<and> unat m < 256"
proof -
  have "bits \<in> set [24..<31]" using assms unfolding set_upt atLeastLessThan_iff by linarith
  moreover have "list_all (\<lambda>b. case maxHosts_of b of None \<Rightarrow> False | Some m \<Rightarrow> unat m = 2 ^ (32 - b) - 2 \<and> unat m < 256) [24..<31]"
    by code_simp
  ultimately show ?thesis by (auto simp: list_all_iff split: option.splits)
qed

lemma allocateIP_ok:
  assumes "st_subnet s = (Addr4 base, bits)" "24 \<le> bits" "bits \<le> 30" "\<forall>r\<in>set (db_users s). row_ok base bits r"
  shows "\<exists>res. allocateIP None s = Some res \<and> (case res of
      Inl e \<Rightarrow> e = ErrNoIPs \<and> (\<forall>h. 2 \<le> h \<longrightarrow> h + 2 \<le> 2 ^ (32 - bits) \<longrightarrow> addr_text base h \<in> row_assigned_ip ` set (db_users s))
    | Inr (ip, k) \<Rightarrow> \<exists>h. 2 \<le> h \<and> h + 2 \<le> 2 ^ (32 - bits) \<and> k = int h \<and> ip = addr_text base h
        \<and> ip \<notin> row_assigned_ip ` set (db_users s) \<and> (\<forall>j. 2 \<le> j \<longrightarrow> j < h \<longrightarrow> addr_text base j \<in> row_assigned_ip ` set (db_users s)))"
proof -
  obtain m where m: "maxHosts_of bits = Some m" "unat m = 2 ^ (32 - bits) - 2" "unat m < 256" using maxHosts [OF assms(2,3)] by blast
  have p: "(4 :: nat) \<le> 2 ^ (32 - bits)" using power_increasing [of 2 "32 - bits" "2 :: nat"] assms(3) by simp
  have lt: "h < 256" if "h + 2 \<le> 2 ^ (32 - bits)" for h :: nat using that m p by simp
  have "\<forall>r\<in>set (db_users s). \<exists>h<256. row_assigned_ip r = addr_text base h"
    using assms(4) lt by (fastforce simp: row_ok_def)
  then obtain used where u: "used_hosts (db_users s) = Some used"
    "\<And>h. h < 256 \<Longrightarrow> of_nat h \<in> set used \<longleftrightarrow> addr_text base h \<in> row_assigned_ip ` set (db_users s)"
    using used_hosts_addr by blast
  note mem = u(2)
  from find_host_spec [OF used_hosts_octets [OF u(1)], of m 2] obtain res where
    f: "find_host used m 2 = Some res" and r: "case res of None \<Rightarrow> \<forall>k\<ge>2. k \<le> m \<longrightarrow> k \<in> set used
       | Some k \<Rightarrow> 2 \<le> k \<and> k \<le> m \<and> k \<notin> set used \<and> (\<forall>j\<ge>2. j < k \<longrightarrow> j \<in> set used)" by blast
  have n: "(2 \<le> (of_nat h :: u32) \<longleftrightarrow> 2 \<le> h) \<and> (of_nat h \<le> m \<longleftrightarrow> h + 2 \<le> 2 ^ (32 - bits)) \<and> unat (of_nat h :: u32) = h" if "h < 256" for h
    using that m p by (auto simp: word_le_nat_alt unsigned_of_nat take_bit_nat_eq_self)
  show ?thesis
  proof (cases res)
    case None
    have "allocateIP None s = Some (Inl ErrNoIPs)" using assms(1) u(1) m f None by (simp add: allocateIP_def As4_def)
    moreover have "addr_text base h \<in> row_assigned_ip ` set (db_users s)" if "2 \<le> h" "h + 2 \<le> 2 ^ (32 - bits)" for h
      using r None n [OF lt [OF that(2)]] mem [OF lt [OF that(2)]] that by auto
    ultimately show ?thesis by simp
  next
    case (Some k)
    define h where "h = unat k"
    have k: "k = of_nat h" "h < 256" using r Some m by (auto simp: h_def word_le_nat_alt)
    have o: "(ucast (of_nat h :: u32) :: u8) = of_nat h" and i: "uint (of_nat h :: u32) = int h"
      using k(2) by (simp_all add: word_unat_eq_iff unsigned_ucast_eq unsigned_of_nat take_bit_nat_eq_self take_bit_int_eq_self)
    have "allocateIP None s = Some (Inr (addr_text base h, int h))"
      using assms(1) u(1) m f Some by (simp add: allocateIP_def As4_def host_addr_def Addr_String_def addr_text_def k(1) o i)
    moreover have "2 \<le> h" "h + 2 \<le> 2 ^ (32 - bits)" "addr_text base h \<notin> row_assigned_ip ` set (db_users s)"
      using r Some n [OF k(2)] mem [OF k(2)] by (auto simp: k(1))
    moreover have "addr_text base j \<in> row_assigned_ip ` set (db_users s)" if "2 \<le> j" "j < h" for j
    proof -
      have j: "j < 256" using that k by simp
      then have "(of_nat j :: u32) < k" using n [OF j] n [OF k(2)] that by (simp add: word_less_nat_alt k(1))
      then show ?thesis using r Some n [OF j] mem [OF j] that by auto
    qed
    ultimately show ?thesis by auto
  qed
qed

section \<open>Every operation keeps the invariant\<close>

text \<open>What a store returns for a user it has just saved: the times lose their fraction of a second.\<close>

definition saved :: "User \<Rightarrow> User" where
  "saved u = u\<lparr>u_CreatedAt := format_time (u_CreatedAt u) * second, u_UpdatedAt := format_time (u_UpdatedAt u) * second\<rparr>"

lemma scan_row_of: "scanUser (row_of u) = saved u"
  by (cases u) (simp add: scanUser_def row_of_def saved_def boolToInt_def)

lemma Store_Get_cases:
  assumes "distinct (map row_id (db_users s))"
  shows "Store_Get None i s = Inr u \<longleftrightarrow> (\<exists>r\<in>set (db_users s). row_id r = i \<and> u = scanUser r)"
    and "Store_Get None i s = Inl e \<longleftrightarrow> e = ErrNoRows \<and> i \<notin> row_id ` set (db_users s)"
proof -
  have f: "find (\<lambda>r. row_id r = i) rs = Some r \<longleftrightarrow> r \<in> set rs \<and> row_id r = i" if "distinct (map row_id rs)" for rs and r :: users_row
    using that by (induction rs) auto
  show "Store_Get None i s = Inr u \<longleftrightarrow> (\<exists>r\<in>set (db_users s). row_id r = i \<and> u = scanUser r)"
    using f [OF assms] by (fastforce simp: Store_Get_def split: option.splits)
  show "Store_Get None i s = Inl e \<longleftrightarrow> e = ErrNoRows \<and> i \<notin> row_id ` set (db_users s)"
    using f [OF assms] by (force simp: Store_Get_def find_None_iff split: option.splits)
qed

lemma store_ok_rows:
  assumes "store_ok s" "set (db_users s') \<subseteq> set (db_users s)" "st_subnet s' = st_subnet s"
    "distinct (map row_id (db_users s'))" "distinct (map row_name (db_users s'))"
    "distinct (map row_public_key (db_users s'))" "distinct (map row_assigned_ip (db_users s'))"
  shows "store_ok s'"
  using assms by (auto simp: store_ok_def)

lemma store_ok_Delete:
  assumes "store_ok s"
  shows "store_ok (snd (Store_Delete se i s))"
proof -
  have "store_ok (s\<lparr>db_users := filter P (db_users s)\<rparr>)" for P
    by (rule store_ok_rows [OF assms]) (use assms in \<open>auto simp: store_ok_def distinct_map_filter\<close>)
  then show ?thesis using assms by (simp add: Store_Delete_def split: sum.split option.split)
qed

lemma distinct_map_upd:
  assumes "distinct (map f rs)" "\<And>r. f (g r) = f r"
  shows "distinct (map f (map g rs))"
  using assms by (simp add: o_def)

lemma distinct_name_upd:
  assumes "distinct (map row_name rs)" "distinct (map row_id rs)" "\<not> (\<exists>r\<in>set rs. row_id r \<noteq> i \<and> row_name r = nm)"
    and g: "\<And>r. row_id (g r) = row_id r" "\<And>r. row_name (g r) = (if row_id r = i then nm else row_name r)"
  shows "distinct (map row_name (map g rs))"
proof (subst map_map, rule distinct_map [THEN iffD2], rule conjI)
  show "distinct rs" using assms(2) by (simp add: distinct_map)
  show "inj_on (row_name \<circ> g) (set rs)"
  proof (rule inj_onI)
    fix x y assume xy: "x \<in> set rs" "y \<in> set rs" "(row_name \<circ> g) x = (row_name \<circ> g) y"
    have "inj_on row_name (set rs)" "inj_on row_id (set rs)" using assms(1,2) by (simp_all add: distinct_map)
    with xy assms(3) show "x = y" by (auto simp: g(2) inj_on_def split: if_splits)
  qed
qed

lemma store_ok_Update:
  assumes "store_ok s"
  shows "store_ok (snd (Store_Update se i input s))"
proof (cases "Store_Update se i input s")
  case (Pair r s')
  show ?thesis
  proof (cases "s' = s")
    case False
    then obtain nm bw en upd where u: "update_row i nm bw en upd (db_users s) = Some (db_users s')"
      and s': "s' = s\<lparr>db_users := db_users s'\<rparr>" and x: "i \<in> row_id ` set (db_users s)"
      using Pair Store_Get_cases(2) [of s i] assms
      by (auto simp: Store_Update_def Let_def Store_Get_def store_ok_def image_iff find_Some_iff split: sum.splits option.splits)
    define g where "g r = (if row_id r = i
      then r\<lparr>row_name := nm, row_bandwidth_mbps := bw, row_enabled := en, row_updated_at := upd\<rparr> else r)" for r :: users_row
    have rs: "db_users s' = map g (db_users s)" "\<not> (\<exists>r\<in>set (db_users s). row_id r \<noteq> i \<and> row_name r = nm)"
      using u x by (auto simp: update_row_def g_def [abs_def] split: if_splits)
    have g: "row_id (g r) = row_id r" "row_name (g r) = (if row_id r = i then nm else row_name r)"
      "row_public_key (g r) = row_public_key r" "row_assigned_ip (g r) = row_assigned_ip r" "row_tc_class_id (g r) = row_tc_class_id r" for r
      by (simp_all add: g_def)
    have "row_ok base bits (g r) = row_ok base bits r" for base bits r by (simp add: row_ok_def g)
    moreover have "distinct (map row_name (map g (db_users s)))"
      using distinct_name_upd [OF _ _ rs(2), of g] assms by (simp add: store_ok_def g)
    moreover have "st_subnet s' = st_subnet s" by (subst s') simp
    ultimately show ?thesis
      using assms distinct_map_upd [of row_id _ g] distinct_map_upd [of row_public_key _ g] distinct_map_upd [of row_assigned_ip _ g]
      by (auto simp: Pair store_ok_def rs(1) g simp del: map_map)
  qed (use Pair assms in simp)
qed

lemma store_ok_Create:
  assumes "store_ok s" "st_subnet s = (Addr4 base, bits)"
  shows "\<exists>r s'. Store_Create se input pub priv s = Some (r, s') \<and> store_ok s' \<and> (case r of
      Inl e \<Rightarrow> s' = s \<and> (e = ErrNoIPs \<longrightarrow> (\<forall>h. 2 \<le> h \<longrightarrow> h + 2 \<le> 2 ^ (32 - bits) \<longrightarrow> addr_text base h \<in> row_assigned_ip ` set (db_users s)))
    | Inr u \<Rightarrow> s' = s\<lparr>db_users := db_users s @ [row_of u]\<rparr> \<and> u_ID u \<notin> row_id ` set (db_users s) \<and> u_PublicKey u = pub
        \<and> u_PublicKey u \<notin> row_public_key ` set (db_users s) \<and> u_Enabled u \<and> u_BandwidthMbps u = ci_BandwidthMbps input
        \<and> (\<exists>h. 2 \<le> h \<and> h + 2 \<le> 2 ^ (32 - bits) \<and> u_AssignedIP u = addr_text base h \<and> u_TCClassID u = int h
            \<and> addr_text base h \<notin> row_assigned_ip ` set (db_users s)
            \<and> (\<forall>j. 2 \<le> j \<longrightarrow> j < h \<longrightarrow> addr_text base j \<in> row_assigned_ip ` set (db_users s))))"
proof (cases "se_err se 0")
  case (Some e)
  then show ?thesis using assms(1) by (simp add: Store_Create_def allocateIP_def)
next
  case None
  have b: "24 \<le> bits" "bits \<le> 30" "\<forall>r\<in>set (db_users s). row_ok base bits r" using assms by (auto simp: store_ok_def)
  from allocateIP_ok [OF assms(2) b] obtain res where a: "allocateIP None s = Some res" and
    res: "case res of
      Inl e \<Rightarrow> e = ErrNoIPs \<and> (\<forall>h. 2 \<le> h \<longrightarrow> h + 2 \<le> 2 ^ (32 - bits) \<longrightarrow> addr_text base h \<in> row_assigned_ip ` set (db_users s))
    | Inr (ip, k) \<Rightarrow> \<exists>h. 2 \<le> h \<and> h + 2 \<le> 2 ^ (32 - bits) \<and> k = int h \<and> ip = addr_text base h
        \<and> ip \<notin> row_assigned_ip ` set (db_users s) \<and> (\<forall>j. 2 \<le> j \<longrightarrow> j < h \<longrightarrow> addr_text base j \<in> row_assigned_ip ` set (db_users s))"
    by blast
  show ?thesis
  proof (cases res)
    case (Inl e)
    then show ?thesis using None a res assms(1) by (simp add: Store_Create_def)
  next
    case (Inr ik)
    then obtain h where h: "ik = (addr_text base h, int h)" "2 \<le> h" "h + 2 \<le> 2 ^ (32 - bits)" "addr_text base h \<notin> row_assigned_ip ` set (db_users s)"
      "\<forall>j. 2 \<le> j \<longrightarrow> j < h \<longrightarrow> addr_text base j \<in> row_assigned_ip ` set (db_users s)" using res by (cases ik) auto
    define u where "u = new_user se input pub priv (addr_text base h) (int h)"
    have u: "u_AssignedIP u = addr_text base h" "u_TCClassID u = int h" "u_PublicKey u = pub" "u_Enabled u" "u_BandwidthMbps u = ci_BandwidthMbps input"
      by (simp_all add: u_def new_user_def)
    have c: "Store_Create se input pub priv s = Some (case se_err se 1 of Some e \<Rightarrow> (Inl (ErrDB e), s)
        | None \<Rightarrow> (case insert_row (row_of u) (db_users s) of None \<Rightarrow> (Inl ErrUnique, s) | Some rs \<Rightarrow> (Inr u, s\<lparr>db_users := rs\<rparr>)))"
      using None a Inr unfolding u_def by (simp add: Store_Create_def h(1) Let_def)
    show ?thesis
    proof (cases "se_err se 1 = None \<and> insert_row (row_of u) (db_users s) \<noteq> None")
      case False
      then show ?thesis using c assms(1) by (auto split: option.splits)
    next
      case True
      then have i: "insert_row (row_of u) (db_users s) = Some (db_users s @ [row_of u])" "u_ID u \<notin> row_id ` set (db_users s)"
        "u_Name u \<notin> row_name ` set (db_users s)" "u_PublicKey u \<notin> row_public_key ` set (db_users s)"
        by (auto simp: insert_row_def row_of_def split: if_splits)
      have "row_ok base bits (row_of u)" using h(2,3) by (auto simp: row_ok_def row_of_def u)
      then have "store_ok (s\<lparr>db_users := db_users s @ [row_of u]\<rparr>)"
        using assms i h(4) u(1) by (simp add: store_ok_def row_of_def)
      then show ?thesis using True c i u h by auto
    qed
  qed
qed

lemma Create_succeeds:
  assumes "store_ok s" "st_subnet s = (Addr4 base, bits)" "se_err se 0 = None" "se_err se 1 = None"
    and "se_uuid se \<notin> row_id ` set (db_users s)" "ci_Name input \<notin> row_name ` set (db_users s)" "pub \<notin> row_public_key ` set (db_users s)"
    and "2 \<le> h" "h + 2 \<le> 2 ^ (32 - bits)" "addr_text base h \<notin> row_assigned_ip ` set (db_users s)"
  shows "\<exists>u s'. Store_Create se input pub priv s = Some (Inr u, s')"
proof -
  have b: "24 \<le> bits" "bits \<le> 30" "\<forall>r\<in>set (db_users s). row_ok base bits r" using assms(1,2) by (auto simp: store_ok_def)
  from allocateIP_ok [OF assms(2) b] obtain res where res: "allocateIP None s = Some res" "case res of
      Inl e \<Rightarrow> \<forall>h. 2 \<le> h \<longrightarrow> h + 2 \<le> 2 ^ (32 - bits) \<longrightarrow> addr_text base h \<in> row_assigned_ip ` set (db_users s)
    | Inr (ip, k) \<Rightarrow> ip \<notin> row_assigned_ip ` set (db_users s)"
    by (force split: sum.splits)
  moreover obtain ip k where "res = Inr (ip, k)" using res(2) assms(8-10) by (cases res) auto
  ultimately have "allocateIP None s = Some (Inr (ip, k))" "ip \<notin> row_assigned_ip ` set (db_users s)" by simp_all
  then show ?thesis using assms(3-7) by (simp add: Store_Create_def insert_row_def row_of_def new_user_def)
qed

lemma Delete_new:
  assumes "u_ID u \<notin> row_id ` set (db_users st)" and "\<forall>n. se_err se n = None"
  shows "snd (Store_Delete se (u_ID u) (st\<lparr>db_users := db_users st @ [row_of u]\<rparr>)) = st"
proof -
  have "row_id (row_of u) = u_ID u" by (simp add: row_of_def)
  moreover have "filter (\<lambda>r. row_id r \<noteq> u_ID u) (db_users st) = db_users st" using assms(1) unfolding filter_id_conv by (force simp: image_iff)
  moreover have "find (\<lambda>r. row_id r = u_ID u) (db_users st @ [row_of u]) \<noteq> None" using calculation(1) unfolding find_None_iff by (auto intro!: exI [of _ "row_of u"])
  ultimately show ?thesis using assms(2) by (cases "find (\<lambda>r. row_id r = u_ID u) (db_users st @ [row_of u])") (simp_all add: Store_Delete_def Store_Get_def)
qed

section \<open>Properties\<close>

text \<open>The rows of a small store, for the witnesses.\<close>

definition example_row :: "nat \<Rightarrow> users_row" where
  "example_row h = \<lparr>row_id = decimal h, row_name = decimal h, row_public_key = decimal h, row_private_key = [],
     row_assigned_ip = addr_text [10, 8, 0, 0] h, row_bandwidth_mbps = 0, row_tc_class_id = int h, row_enabled = 1,
     row_created_at = 0, row_updated_at = 0\<rparr>"

definition example_store :: "nat \<Rightarrow> nat list \<Rightarrow> Store" where
  "example_store bits hs = \<lparr>db_users = map example_row hs, db_server = [], st_subnet = (Addr4 [10, 8, 0, 0], bits)\<rparr>"

definition example_senv :: store_env where
  "example_senv = \<lparr>se_now = 1500000000, se_uuid = ''u1'', se_err = (\<lambda>_. None)\<rparr>"

lemma example_store_ok: "store_ok (example_store 24 [2, 3])"
proof -
  have "addr_text [10, 8, 0, 0] 2 \<noteq> addr_text [10, 8, 0, 0] 3" using addr_text_inj [of _ 2 3] by fastforce
  moreover have "decimal 2 = ''2''" "decimal 3 = ''3''" by code_simp+
  moreover have "row_ok [10, 8, 0, 0] 24 (example_row h)" if "h \<in> {2, 3}" for h
    using that by (auto simp: row_ok_def example_row_def intro!: exI [of _ h])
  ultimately show ?thesis by (auto simp: store_ok_def example_store_def) (simp_all add: example_row_def)
qed



text \<open>C39. A subnet wider than \<open>/24\<close> serves no more than 255 users: once every last octet but 1 is assigned,
  \<open>allocateIP\<close> computes an address that is in use already, and creating a user fails for the \<open>UNIQUE\<close> column although
  the subnet has free addresses.\<close>

theorem wide_subnet_exhausted:
  assumes "st_subnet s = (Addr4 base, bits)" and "bits \<le> 23"
    and "row_assigned_ip ` set (db_users s) = addr_text base ` ({0} \<union> {2..255})" and "se_err se 0 = None" and "se_err se 1 = None"
  shows "Store_Create se input pub priv s = Some (Inl ErrUnique, s)"
proof -
  have "\<exists>h<256. row_assigned_ip r = addr_text base h" if "r \<in> set (db_users s)" for r
  proof -
    have "row_assigned_ip r \<in> addr_text base ` ({0} \<union> {2..255})" using that assms(3) by blast
    then obtain h where "h \<in> {0} \<union> {2..255}" "row_assigned_ip r = addr_text base h" by blast
    then show ?thesis by (intro exI [of _ h]) auto
  qed
  then obtain used where u: "used_hosts (db_users s) = Some used"
    "\<And>h. h < 256 \<Longrightarrow> of_nat h \<in> set used \<longleftrightarrow> addr_text base h \<in> row_assigned_ip ` set (db_users s)"
    using used_hosts_addr by blast
  have in_use: "of_nat h \<in> set used" if "2 \<le> h" "h < 256" for h using u(2) [of h] that by (simp add: assms(3))
  obtain m where m: "maxHosts_of bits = Some m" "256 \<le> m"
  proof -
    have "bits \<in> set [0..<24]" using assms(2) unfolding set_upt atLeastLessThan_iff by linarith
    moreover have "list_all (\<lambda>b. case maxHosts_of b of None \<Rightarrow> False | Some m \<Rightarrow> 256 \<le> m) [0..<24]" by code_simp
    ultimately have "case maxHosts_of bits of None \<Rightarrow> False | Some m \<Rightarrow> 256 \<le> m" unfolding list_all_iff by blast
    then show ?thesis using that by (cases "maxHosts_of bits") simp_all
  qed
  note oct = used_hosts_octets [OF u(1)]
  from find_host_spec [OF oct, of m 2] obtain res where
    f: "find_host used m 2 = Some res" and r: "case res of None \<Rightarrow> \<forall>k\<ge>2. k \<le> m \<longrightarrow> k \<in> set used
       | Some k \<Rightarrow> 2 \<le> k \<and> k \<le> m \<and> k \<notin> set used \<and> (\<forall>j\<ge>2. j < k \<longrightarrow> j \<in> set used)" by blast
  have free: "(256 :: u32) \<notin> set used" using oct by fastforce
  have "res = Some 256"
  proof (cases res)
    case None
    have "(2 :: u32) \<le> 256" by simp
    with None r m(2) free show ?thesis by auto
  next
    case (Some k)
    have "\<not> 256 < k" using r Some free by auto
    moreover have "\<not> k < 256"
    proof
      assume "k < 256"
      then have "unat k < 256" "2 \<le> unat k" using r Some by (auto simp: word_less_nat_alt word_le_nat_alt)
      then show False using in_use [of "unat k"] r Some by simp
    qed
    ultimately show ?thesis using Some linorder_neq_iff [of k 256] by blast
  qed
  moreover have z: "(256 :: u8) = 0" by code_simp
  ultimately have "allocateIP None s = Some (Inr (addr_text base 0, 256))"
    using assms(1) u(1) m(1) f
    by (simp add: allocateIP_def As4_def host_addr_def Addr_String_def addr_text_def) (subst z, rule refl)
  moreover have "addr_text base 0 \<in> row_assigned_ip ` set (db_users s)" using assms(3) by blast
  ultimately show ?thesis
    using assms(4,5) by (simp add: Store_Create_def Let_def insert_row_def new_user_def row_of_def)
qed

theorem wide_subnet_exhausted_witness:
  "Store_Create example_senv \<lparr>ci_Name = ''a'', ci_BandwidthMbps = 5\<rparr> ''pub'' ''priv'' (example_store 16 (0 # [2..<256])) = Some (Inl ErrUnique, example_store 16 (0 # [2..<256]))"
proof (rule wide_subnet_exhausted [where base = "[10, 8, 0, 0]" and bits = 16])
  have "set (0 # [2..<256]) = {0 :: nat} \<union> {2..255}" unfolding list.set set_upt by auto
  then have "row_assigned_ip ` example_row ` set (0 # [2..<256]) = addr_text [10, 8, 0, 0] ` ({0} \<union> {2..255})"
    by (simp only: image_image) (simp add: example_row_def)
  then show "row_assigned_ip ` set (db_users (example_store 16 (0 # [2..<256]))) = addr_text [10, 8, 0, 0] ` ({0} \<union> {2..255})"
    by (simp only: example_store_def Store.simps set_map)
qed (simp_all add: example_store_def example_senv_def)

end
