(* ===== verification/MgmtSession.thy ===== *)
theory MgmtSession
  imports MgmtPeers MgmtStore
begin

text \<open>
  Single-device sessions, \<^verbatim>\<open>src/mgmt/session\<close>: the registry of locked endpoints and the monitor that polls the
  device. A poll reads the clock several times; \<open>me_now\<close> is the time of a poll. \<open>lock_step\<close> is what a poll does to
  the lock of one user; \<open>session\<close> follows a lock over polls with the handshake times heard from its endpoint.
\<close>

section \<open>Registry\<close>

record lockState =
  ls_endpoint :: string
  ls_lastActive :: gotime

type_synonym Registry = "string \<rightharpoonup> lockState"

definition NewRegistry :: Registry where
  "NewRegistry = Map.empty"

definition Registry_Set :: "gotime \<Rightarrow> string \<Rightarrow> string \<Rightarrow> gotime \<Rightarrow> Registry \<Rightarrow> Registry" where
  "Registry_Set now userID endpoint activeAt r =
     r(userID \<mapsto> \<lparr>ls_endpoint = endpoint, ls_lastActive = (if activeAt = 0 then now else activeAt)\<rparr>)"

definition Registry_Get :: "string \<Rightarrow> Registry \<Rightarrow> string \<times> gotime \<times> bool" where
  "Registry_Get userID r =
     (case r userID of
        None \<Rightarrow> ([], 0, False)
      | Some s \<Rightarrow> (ls_endpoint s, ls_lastActive s, True))"

definition Registry_Clear :: "string \<Rightarrow> Registry \<Rightarrow> Registry" where
  "Registry_Clear userID r = r(userID := None)"

section \<open>Monitor\<close>

definition to_int64 :: "int \<Rightarrow> int" where
  "to_int64 i = (i + 2 ^ 63) mod 2 ^ 64 - 2 ^ 63"

text \<open>\<open>Start\<close>: the idle time of the monitor it starts.\<close>

definition Session_Start :: "int \<Rightarrow> duration" where
  "Session_Start idleSeconds = (let idleSeconds = (if idleSeconds \<le> 0 then 180 else idleSeconds) in to_int64 (idleSeconds * second))"

record monitor_env =
  me_crypto :: crypto
  me_text :: endpoint_text
  me_uapi :: "string \<Rightarrow> nat \<Rightarrow> uapi_env"
  me_now :: gotime
  me_store :: store_env

definition endpointsEqual :: "string \<Rightarrow> string \<Rightarrow> bool" where
  "endpointsEqual a b \<longleftrightarrow> a = b"

definition handleUser ::
  "monitor_env \<Rightarrow> duration \<Rightarrow> User \<Rightarrow> PeerInfo \<Rightarrow> Registry \<times> Device \<Rightarrow> (Registry \<times> Device) option" where
  "handleUser me idle user info rd =
     (let (reg, dev) = rd;
          now = me_now me;
          currentEndpoint = pi_Endpoint info;
          hasRecentHS = HasRecentHandshake now idle info;
          (lockedEndpoint, lockedLastActive, hasLock) = Registry_Get (u_ID user) reg;
          lockActive = (lockedLastActive \<noteq> 0 \<and> Sub now lockedLastActive \<le> idle)
      in if \<not> hasLock \<or> lockedEndpoint = [] then
           (if hasRecentHS \<and> currentEndpoint \<noteq> []
            then Some (Registry_Set now (u_ID user) currentEndpoint (LastHandshake info) reg, dev)
            else Some (reg, dev))
         else if endpointsEqual currentEndpoint lockedEndpoint then
           (if hasRecentHS then
              let hs = LastHandshake info
              in if lockedLastActive = 0 \<or> hs > lockedLastActive
                 then Some (Registry_Set now (u_ID user) lockedEndpoint hs reg, dev)
                 else Some (reg, dev)
            else if \<not> lockActive then Some (Registry_Clear (u_ID user) reg, dev)
            else Some (reg, dev))
         else if lockActive \<and> currentEndpoint \<noteq> [] then do {
           (err, dev) \<leftarrow> SetPeerEndpoint (me_crypto me) (me_text me) (me_uapi me (u_ID user)) (u_PublicKey user) lockedEndpoint dev;
           Some (reg, dev)
         }
         else if hasRecentHS \<and> currentEndpoint \<noteq> []
         then Some (Registry_Set now (u_ID user) currentEndpoint (LastHandshake info) reg, dev)
         else if \<not> lockActive then Some (Registry_Clear (u_ID user) reg, dev)
         else Some (reg, dev))"

fun handle_users ::
  "monitor_env \<Rightarrow> duration \<Rightarrow> (string \<rightharpoonup> PeerInfo) \<Rightarrow> User list \<Rightarrow> Registry \<times> Device \<Rightarrow> (Registry \<times> Device) option" where
  "handle_users me idle peerMap [] rd = Some rd"
| "handle_users me idle peerMap (user # users) rd =
     (if \<not> u_Enabled user then handle_users me idle peerMap users rd
      else case peerMap (u_PublicKey user) of
          None \<Rightarrow> handle_users me idle peerMap users rd
        | Some info \<Rightarrow> do { rd \<leftarrow> handleUser me idle user info rd; handle_users me idle peerMap users rd })"

definition tick :: "monitor_env \<Rightarrow> duration \<Rightarrow> Store \<Rightarrow> Registry \<times> Device \<Rightarrow> (Registry \<times> Device) option" where
  "tick me idle st rd =
     (case Store_List (me_store me) st of
        Inl _ \<Rightarrow> Some rd
      | Inr users \<Rightarrow>
          (case ListPeers (me_text me) (snd rd) of
             (_, False) \<Rightarrow> Some rd
           | (peerMap, True) \<Rightarrow> handle_users me idle peerMap users rd))"

section \<open>The lock of one user\<close>

text \<open>A lock with its endpoint and time of last activity; \<open>None\<close> when there is none, or one without an endpoint.\<close>

definition lock_of :: "string \<Rightarrow> Registry \<Rightarrow> lockState option" where
  "lock_of i reg = (case reg i of None \<Rightarrow> None | Some s \<Rightarrow> if ls_endpoint s = [] then None else Some s)"

definition active :: "gotime \<Rightarrow> duration \<Rightarrow> lockState \<Rightarrow> bool" where
  "active now idle s \<longleftrightarrow> ls_lastActive s \<noteq> 0 \<and> Sub now (ls_lastActive s) \<le> idle"

definition lock_step :: "gotime \<Rightarrow> duration \<Rightarrow> PeerInfo \<Rightarrow> lockState option \<Rightarrow> lockState option" where
  "lock_step now idle info lk =
     (let ep = pi_Endpoint info; hs = LastHandshake info; fresh = HasRecentHandshake now idle info \<and> ep \<noteq> [] in
      case lk of
        None \<Rightarrow> if fresh then Some \<lparr>ls_endpoint = ep, ls_lastActive = hs\<rparr> else None
      | Some s \<Rightarrow>
          if ep = ls_endpoint s \<and> fresh then Some (s\<lparr>ls_lastActive := max hs (ls_lastActive s)\<rparr>)
          else if active now idle s then Some s
          else if fresh then Some \<lparr>ls_endpoint = ep, ls_lastActive = hs\<rparr> else None)"

lemma recent_nonzero: "HasRecentHandshake now idle info \<Longrightarrow> LastHandshake info \<noteq> 0"
  by (auto simp: HasRecentHandshake_def Let_def split: if_splits)

text \<open>A poll does to the lock of its user what \<open>lock_step\<close> says and leaves the others alone. Times before the year 1
  do not occur.\<close>

lemma handleUser_lock:
  assumes "handleUser me idle user info (reg, dev) = Some (reg', dev')"
    and "\<And>s. reg (u_ID user) = Some s \<Longrightarrow> 0 \<le> ls_lastActive s" "0 \<le> LastHandshake info"
  shows "lock_of (u_ID user) reg' = lock_step (me_now me) idle info (lock_of (u_ID user) reg)"
    and "i \<noteq> u_ID user \<Longrightarrow> reg' i = reg i"
proof -
  show "i \<noteq> u_ID user \<Longrightarrow> reg' i = reg i"
    using assms(1) by (auto simp: handleUser_def Let_def Registry_Set_def Registry_Clear_def bind_eq_Some_conv split: prod.splits if_splits)
  show "lock_of (u_ID user) reg' = lock_step (me_now me) idle info (lock_of (u_ID user) reg)"
  proof (cases "reg (u_ID user)")
    case None
    then show ?thesis
      using assms(1) recent_nonzero [of "me_now me" idle info]
      by (auto simp: handleUser_def Let_def Registry_Get_def Registry_Set_def lock_of_def lock_step_def split: if_splits)
  next
    case (Some s)
    then show ?thesis
      using assms recent_nonzero [of "me_now me" idle info]
      by (auto simp: handleUser_def Let_def Registry_Get_def Registry_Set_def Registry_Clear_def lock_of_def lock_step_def
          active_def endpointsEqual_def max_def bind_eq_Some_conv split: if_splits)
  qed
qed

text \<open>The handshake times heard from the locked endpoint since it was locked.\<close>

definition heard_step :: "gotime \<Rightarrow> duration \<Rightarrow> PeerInfo \<Rightarrow> lockState option \<Rightarrow> gotime list \<Rightarrow> gotime list" where
  "heard_step now idle info lk heard =
     (case (lk, lock_step now idle info lk) of
        (_, None) \<Rightarrow> []
      | (None, Some s') \<Rightarrow> [LastHandshake info]
      | (Some s, Some s') \<Rightarrow>
          if ls_endpoint s' \<noteq> ls_endpoint s then [LastHandshake info]
          else if pi_Endpoint info = ls_endpoint s \<and> HasRecentHandshake now idle info then LastHandshake info # heard
          else heard)"

text \<open>The registries that polls of any users, and users being cleared by the API, lead to, with what was heard for the
  user \<open>i\<close>.\<close>

inductive monitored :: "duration \<Rightarrow> string \<Rightarrow> Registry \<Rightarrow> gotime list \<Rightarrow> bool" for idle :: duration and i :: string where
  start: "monitored idle i NewRegistry []"
| poll: "monitored idle i reg heard \<Longrightarrow> handleUser me idle user info (reg, dev) = Some (reg', dev') \<Longrightarrow> 0 \<le> LastHandshake info \<Longrightarrow>
    monitored idle i reg' (if u_ID user = i then heard_step (me_now me) idle info (lock_of i reg) heard else heard)"
| clear: "monitored idle i reg heard \<Longrightarrow> monitored idle i (Registry_Clear j reg) (if j = i then [] else heard)"

definition lock_inv :: "lockState option \<Rightarrow> gotime list \<Rightarrow> bool" where
  "lock_inv lk heard \<longleftrightarrow> (case lk of None \<Rightarrow> True
     | Some s \<Rightarrow> ls_endpoint s \<noteq> [] \<and> 0 < ls_lastActive s \<and> ls_lastActive s \<in> set heard \<and> (\<forall>h\<in>set heard. h \<le> ls_lastActive s))"

lemma lock_inv_step:
  assumes "lock_inv lk heard" "0 \<le> LastHandshake info"
  shows "lock_inv (lock_step now idle info lk) (heard_step now idle info lk heard)"
  using assms recent_nonzero [of now idle info] by (cases lk) (auto simp: lock_inv_def lock_step_def heard_step_def Let_def max_def split: if_splits)

lemma monitored_times:
  assumes "monitored idle i reg heard"
  shows "\<forall>j s. reg j = Some s \<longrightarrow> 0 \<le> ls_lastActive s"
  using assms
proof (induction rule: monitored.induct)
  case (poll reg heard me user info dev reg' dev')
  then show ?case
    using recent_nonzero [of "me_now me" idle info]
    by (auto simp: handleUser_def Let_def Registry_Get_def Registry_Set_def Registry_Clear_def bind_eq_Some_conv
        split: prod.splits if_splits option.splits)
qed (auto simp: NewRegistry_def Registry_Clear_def)

lemma monitored_lock:
  assumes "monitored idle i reg heard"
  shows "lock_inv (lock_of i reg) heard"
  using assms
proof (induction rule: monitored.induct)
  case (poll reg heard me user info dev reg' dev')
  have t: "\<And>s. reg (u_ID user) = Some s \<Longrightarrow> 0 \<le> ls_lastActive s" using monitored_times [OF poll(1)] by blast
  note h = handleUser_lock [OF poll(2) t poll(3)]
  show ?case
  proof (cases "u_ID user = i")
    case True
    then show ?thesis using lock_inv_step [OF poll(4,3)] h(1) by simp
  next
    case False
    then show ?thesis using poll(4) h(2) [of i] by (simp add: lock_of_def)
  qed
qed (auto simp: lock_inv_def lock_of_def NewRegistry_def Registry_Clear_def)

lemma Sub_mono: "a \<le> b \<Longrightarrow> Sub now b \<le> Sub now a"
  by (auto simp: Sub_def)

lemma dev_at_handleUser:
  assumes "dev_at s (snd rd)"
  shows "pred_option (\<lambda>rd. dev_at s (snd rd)) (handleUser me idle user info rd)"
  using assms dev_at_IpcSetOperation [of s "snd rd"]
  by (cases rd) (auto simp: handleUser_def Let_def SetPeerEndpoint_def case_prod_unfold intro!: pred_option_bind)

lemma dev_at_handle_users:
  "dev_at s (snd rd) \<Longrightarrow> pred_option (\<lambda>rd. dev_at s (snd rd)) (handle_users me idle m users rd)"
proof (induction users arbitrary: rd)
  case (Cons user users)
  then show ?case by (auto split: option.split intro!: pred_option_bind [OF dev_at_handleUser])
qed simp

section \<open>Properties\<close>


text \<open>Two polls for the witness: a handshake from one endpoint, and a thousand seconds later one from another.\<close>

definition example_user :: User where
  "example_user = \<lparr>u_ID = ''u1'', u_Name = ''a'', u_PublicKey = hex_encode example_pk, u_PrivateKey = [], u_AssignedIP = ''10.8.0.2'',
     u_BandwidthMbps = 0, u_TCClassID = 2, u_Enabled = True, u_CreatedAt = 0, u_UpdatedAt = 0\<rparr>"

definition example_info :: "string \<Rightarrow> int \<Rightarrow> PeerInfo" where
  "example_info ep sec = (new_PeerInfo (hex_encode example_pk))\<lparr>pi_Endpoint := ep, pi_LastHandshakeSec := sec\<rparr>"

definition example_monitor :: "int \<Rightarrow> monitor_env" where
  "example_monitor sec = \<lparr>me_crypto = toy_crypto, me_text = example_text, me_uapi = (\<lambda>_ _. example_uapi),
     me_now = (sec + unixToInternal) * second, me_store = example_senv\<rparr>"


end
