(* ===== verification/MgmtLimiter.thy ===== *)
theory MgmtLimiter
  imports MgmtStore
begin

text \<open>
  Bandwidth limits per user, \<^verbatim>\<open>src/mgmt/ratelimit\<close>: the \<open>Limiter\<close> interface as the locale \<open>limiter\<close>, with its two
  implementations, \<open>tcLimiter\<close> for Linux and \<open>noopLimiter\<close>. The commands \<open>tcLimiter\<close> runs are kept in \<open>tl_log\<close>;
  \<open>sys n args\<close>, the answer of the system to the \<open>n\<close>-th command, is a parameter: \<open>None\<close>, or the output of a command that
  failed.
\<close>

section \<open>Commands\<close>

type_synonym command = "string list"
type_synonym sys = "nat \<Rightarrow> command \<Rightarrow> string option"

record tcLimiter =
  tl_iface :: string
  tl_inited :: bool
  tl_log :: "command list"

definition new_tcLimiter :: tcLimiter where
  "new_tcLimiter = \<lparr>tl_iface = [], tl_inited = False, tl_log = []\<rparr>"

fun strings_Join :: "string list \<Rightarrow> string \<Rightarrow> string" where
  "strings_Join [] sep = []"
| "strings_Join [x] sep = x"
| "strings_Join (x # y # xs) sep = x @ sep @ strings_Join (y # xs) sep"

definition is_space :: "char \<Rightarrow> bool" where
  "is_space ch \<longleftrightarrow> ch \<in> {CHR '' '', CHR 0x09, CHR 0x0A, CHR 0x0B, CHR 0x0C, CHR 0x0D}"

definition TrimSpace :: "string \<Rightarrow> string" where
  "TrimSpace s = rev (dropWhile is_space (rev (dropWhile is_space s)))"

fun is_prefix :: "string \<Rightarrow> string \<Rightarrow> bool" where
  "is_prefix [] s = True"
| "is_prefix (x # xs) [] = False"
| "is_prefix (x # xs) (y # ys) = (x = y \<and> is_prefix xs ys)"

fun strings_Contains :: "string \<Rightarrow> string \<Rightarrow> bool" where
  "strings_Contains [] sub = (sub = [])"
| "strings_Contains (x # xs) sub = (is_prefix sub (x # xs) \<or> strings_Contains xs sub)"

text \<open>\<open>runTC\<close>: the error text, if the command failed. \<open>exec_quiet\<close> is a command whose result is dropped.\<close>

definition runTC :: "sys \<Rightarrow> command \<Rightarrow> tcLimiter \<Rightarrow> string option \<times> tcLimiter" where
  "runTC sys args l =
     (map_option (\<lambda>out. strings_Join args '' '' @ '': '' @ TrimSpace out) (sys (length (tl_log l)) args), l\<lparr>tl_log := tl_log l @ [args]\<rparr>)"

definition exec_quiet :: "sys \<Rightarrow> command \<Rightarrow> tcLimiter \<Rightarrow> tcLimiter" where
  "exec_quiet sys args l = snd (runTC sys args l)"

definition isBenignTCError :: "string \<Rightarrow> bool" where
  "isBenignTCError msg \<longleftrightarrow>
     strings_Contains msg ''File exists'' \<or> strings_Contains msg ''RTNETLINK answers: File exists''
     \<or> strings_Contains msg ''already exists'' \<or> strings_Contains msg ''Exclusivity flag on''
     \<or> strings_Contains msg ''RTNETLINK answers: Invalid argument'' \<or> strings_Contains msg ''Cannot find device''"

text \<open>The loops over commands: stop at the first error that is not benign, or go on regardless.\<close>

fun run_all :: "sys \<Rightarrow> command list \<Rightarrow> tcLimiter \<Rightarrow> string option \<times> tcLimiter" where
  "run_all sys [] l = (None, l)"
| "run_all sys (cmd # cmds) l =
     (let (err, l) = runTC sys cmd l
      in case err of
           Some e \<Rightarrow> if \<not> isBenignTCError e then (Some e, l) else run_all sys cmds l
         | None \<Rightarrow> run_all sys cmds l)"

fun run_ignoring :: "sys \<Rightarrow> command list \<Rightarrow> tcLimiter \<Rightarrow> tcLimiter" where
  "run_ignoring sys [] l = l"
| "run_ignoring sys (cmd # cmds) l = run_ignoring sys cmds (snd (runTC sys cmd l))"

section \<open>tcLimiter\<close>

datatype limit_error = ErrInitTC string | ErrNotInitialized | ErrApply string | ErrNotLinux

definition ifbDevice :: string where "ifbDevice = ''ifb0''"

definition defaultClass :: string where "defaultClass = ''1:10''"

definition class_commands :: "string \<Rightarrow> command list" where
  "class_commands dev =
     [[''tc'', ''qdisc'', ''replace'', ''dev'', dev, ''root'', ''handle'', ''1:'', ''htb'', ''default'', ''10''],
      [''tc'', ''class'', ''replace'', ''dev'', dev, ''parent'', ''1:'', ''classid'', ''1:1'', ''htb'', ''rate'', ''10gbit''],
      [''tc'', ''class'', ''replace'', ''dev'', dev, ''parent'', ''1:1'', ''classid'', defaultClass, ''htb'', ''rate'', ''10gbit'', ''ceil'', ''10gbit'']]"

definition initLocked :: "sys \<Rightarrow> string \<Rightarrow> tcLimiter \<Rightarrow> limit_error option \<times> tcLimiter" where
  "initLocked sys iface l =
     (let l = l\<lparr>tl_iface := iface\<rparr>;
          l = exec_quiet sys [''modprobe'', ''ifb''] l;
          l = exec_quiet sys [''ip'', ''link'', ''add'', ifbDevice, ''type'', ''ifb''] l;
          l = exec_quiet sys [''ip'', ''link'', ''set'', ''dev'', ifbDevice, ''up''] l;
          (err, l) = run_all sys (class_commands iface @
            [[''tc'', ''qdisc'', ''replace'', ''dev'', iface, ''handle'', ''ffff:'', ''ingress'']]) l
      in case err of
           Some e \<Rightarrow> (Some (ErrInitTC e), l)
         | None \<Rightarrow> (None, (run_ignoring sys (class_commands ifbDevice) l)\<lparr>tl_inited := True\<rparr>))"

definition tc_Init :: "sys \<Rightarrow> string \<Rightarrow> tcLimiter \<Rightarrow> limit_error option \<times> tcLimiter" where
  "tc_Init sys iface l = initLocked sys iface l"

definition class_text :: "User \<Rightarrow> string" where
  "class_text user = ''1:'' @ decimal_int (u_TCClassID user)"

definition apply_commands :: "string \<Rightarrow> User \<Rightarrow> command list" where
  "apply_commands iface user =
     (let classID = class_text user;
          prio = decimal_int (u_TCClassID user);
          rate = decimal_int (u_BandwidthMbps user) @ ''mbit''
      in [[''tc'', ''class'', ''replace'', ''dev'', iface, ''parent'', ''1:1'', ''classid'', classID, ''htb'', ''rate'', rate, ''ceil'', rate],
          [''tc'', ''filter'', ''replace'', ''dev'', iface, ''protocol'', ''ip'', ''parent'', ''1:0'', ''prio'', prio, ''u32'',
           ''match'', ''ip'', ''dst'', u_AssignedIP user @ ''/32'', ''flowid'', classID],
          [''tc'', ''filter'', ''replace'', ''dev'', iface, ''parent'', ''ffff:'', ''protocol'', ''ip'', ''prio'', prio, ''u32'',
           ''match'', ''ip'', ''src'', u_AssignedIP user @ ''/32'', ''action'', ''mirred'', ''egress'', ''redirect'', ''dev'', ifbDevice],
          [''tc'', ''class'', ''replace'', ''dev'', ifbDevice, ''parent'', ''1:1'', ''classid'', classID, ''htb'', ''rate'', rate, ''ceil'', rate],
          [''tc'', ''filter'', ''replace'', ''dev'', ifbDevice, ''protocol'', ''ip'', ''parent'', ''1:0'', ''prio'', prio, ''u32'',
           ''match'', ''ip'', ''src'', u_AssignedIP user @ ''/32'', ''flowid'', classID]])"

definition applyRulesLocked :: "sys \<Rightarrow> User \<Rightarrow> tcLimiter \<Rightarrow> limit_error option \<times> tcLimiter" where
  "applyRulesLocked sys user l =
     (if \<not> tl_inited l then (Some ErrNotInitialized, l)
      else
        let (err, l) = run_all sys (apply_commands (tl_iface l) user) l
        in (map_option ErrApply err, l))"

definition applyRules :: "sys \<Rightarrow> User \<Rightarrow> tcLimiter \<Rightarrow> limit_error option \<times> tcLimiter" where
  "applyRules sys user l =
     (if \<not> tl_inited l then
        let (err, l) = initLocked sys (tl_iface l) l
        in if err \<noteq> None then (err, l) else applyRulesLocked sys user l
      else applyRulesLocked sys user l)"

definition remove_commands :: "string \<Rightarrow> User \<Rightarrow> command list" where
  "remove_commands iface user =
     (let classID = class_text user;
          prio = decimal_int (u_TCClassID user)
      in [[''tc'', ''filter'', ''del'', ''dev'', iface, ''protocol'', ''ip'', ''parent'', ''1:0'', ''prio'', prio],
          [''tc'', ''filter'', ''del'', ''dev'', iface, ''parent'', ''ffff:'', ''protocol'', ''ip'', ''prio'', prio],
          [''tc'', ''class'', ''del'', ''dev'', iface, ''classid'', classID],
          [''tc'', ''filter'', ''del'', ''dev'', ifbDevice, ''protocol'', ''ip'', ''parent'', ''1:0'', ''prio'', prio],
          [''tc'', ''class'', ''del'', ''dev'', ifbDevice, ''classid'', classID]])"

definition removeRulesLocked :: "sys \<Rightarrow> User \<Rightarrow> tcLimiter \<Rightarrow> limit_error option \<times> tcLimiter" where
  "removeRulesLocked sys user l =
     (if \<not> tl_inited l then (None, l)
      else (None, run_ignoring sys (remove_commands (tl_iface l) user) l))"

definition tc_Apply :: "sys \<Rightarrow> User \<Rightarrow> tcLimiter \<Rightarrow> limit_error option \<times> tcLimiter" where
  "tc_Apply sys user l = (if u_BandwidthMbps user \<le> 0 then (None, l) else applyRules sys user l)"

definition tc_Update :: "sys \<Rightarrow> User \<Rightarrow> tcLimiter \<Rightarrow> limit_error option \<times> tcLimiter" where
  "tc_Update sys user l =
     (let (err, l) = removeRulesLocked sys user l
      in if err \<noteq> None then (err, l)
         else if u_BandwidthMbps user \<le> 0 then (None, l)
         else applyRulesLocked sys user l)"

definition tc_Remove :: "sys \<Rightarrow> User \<Rightarrow> tcLimiter \<Rightarrow> limit_error option \<times> tcLimiter" where
  "tc_Remove sys user l = removeRulesLocked sys user l"

section \<open>noopLimiter\<close>

definition noop_Init :: "string \<Rightarrow> unit \<Rightarrow> limit_error option \<times> unit" where
  "noop_Init iface l = (None, l)"

definition noop_Apply :: "User \<Rightarrow> unit \<Rightarrow> limit_error option \<times> unit" where
  "noop_Apply user l = (if u_BandwidthMbps user > 0 then (Some ErrNotLinux, l) else (None, l))"

definition noop_Remove :: "User \<Rightarrow> unit \<Rightarrow> limit_error option \<times> unit" where
  "noop_Remove user l = (None, l)"

definition noop_Update :: "User \<Rightarrow> unit \<Rightarrow> limit_error option \<times> unit" where
  "noop_Update user l = noop_Apply user l"

section \<open>The interface\<close>

record 's Limiter =
  lim_Init :: "string \<Rightarrow> 's \<Rightarrow> limit_error option \<times> 's"
  lim_Apply :: "User \<Rightarrow> 's \<Rightarrow> limit_error option \<times> 's"
  lim_Remove :: "User \<Rightarrow> 's \<Rightarrow> limit_error option \<times> 's"
  lim_Update :: "User \<Rightarrow> 's \<Rightarrow> limit_error option \<times> 's"

definition tc_limiter :: "sys \<Rightarrow> tcLimiter Limiter" where
  "tc_limiter sys = \<lparr>lim_Init = tc_Init sys, lim_Apply = tc_Apply sys, lim_Remove = tc_Remove sys, lim_Update = tc_Update sys\<rparr>"

definition noop_limiter :: "unit Limiter" where
  "noop_limiter = \<lparr>lim_Init = noop_Init, lim_Apply = noop_Apply, lim_Remove = noop_Remove, lim_Update = noop_Update\<rparr>"

text \<open>What the API relies on: removing a limit never fails, and a user without a limit needs nothing from the system.\<close>

locale limiter =
  fixes L :: "'s Limiter"
  assumes remove_succeeds: "fst (lim_Remove L user s) = None"
    and apply_unlimited: "u_BandwidthMbps user \<le> 0 \<Longrightarrow> lim_Apply L user s = (None, s)"
    and update_unlimited: "u_BandwidthMbps user \<le> 0 \<Longrightarrow> fst (lim_Update L user s) = None"

interpretation tc: limiter "tc_limiter sys"
  by unfold_locales (simp_all add: tc_limiter_def tc_Remove_def tc_Apply_def tc_Update_def removeRulesLocked_def)

interpretation noop: limiter noop_limiter
  by unfold_locales (simp_all add: noop_limiter_def noop_Remove_def noop_Apply_def noop_Update_def)

section \<open>Classes\<close>

text \<open>The class a \<open>tc class replace\<close> command defines, and those a list of commands defines.\<close>

definition command_class :: "command \<Rightarrow> string option" where
  "command_class cmd = (if length cmd > 8 \<and> take 3 cmd = [''tc'', ''class'', ''replace''] then Some (cmd ! 8) else None)"

definition classes :: "command list \<Rightarrow> string set" where
  "classes cmds = {cl. \<exists>cmd\<in>set cmds. command_class cmd = Some cl}"

lemma classes_apply: "classes (apply_commands iface user) = {class_text user}"
  by (auto simp: classes_def apply_commands_def Let_def command_class_def)

lemma classes_init: "classes (class_commands dev) = {''1:1'', defaultClass}"
  by (auto simp: classes_def class_commands_def command_class_def)

lemma decimal_int_inj:
  assumes "0 \<le> i" "0 \<le> j"
  shows "decimal_int i = decimal_int j \<longleftrightarrow> i = j"
proof
  assume "decimal_int i = decimal_int j"
  then have "decimal_value (decimal (nat i)) = decimal_value (decimal (nat j))" using assms by (simp add: decimal_int_def)
  then show "i = j" using assms by (simp add: decimal_facts)
qed simp

lemma class_text_small: "class_text u = ''1:1'' \<longleftrightarrow> u_TCClassID u = 1" "class_text u = defaultClass \<longleftrightarrow> u_TCClassID u = 10"
  if "0 \<le> u_TCClassID u"
proof -
  have "decimal_int 1 = ''1''" "decimal_int 10 = ''10''" by code_simp+
  then show "class_text u = ''1:1'' \<longleftrightarrow> u_TCClassID u = 1" "class_text u = defaultClass \<longleftrightarrow> u_TCClassID u = 10"
    using decimal_int_inj [OF that, of 1] decimal_int_inj [OF that, of 10] by (simp_all add: class_text_def defaultClass_def)
qed

section \<open>Properties\<close>


definition limited_user :: "int \<Rightarrow> User" where
  "limited_user h = \<lparr>u_ID = ''u'', u_Name = ''a'', u_PublicKey = [], u_PrivateKey = [], u_AssignedIP = ''10.8.0.10'',
     u_BandwidthMbps = 5, u_TCClassID = h, u_Enabled = True, u_CreatedAt = 0, u_UpdatedAt = 0\<rparr>"


end
