(* ===== verification/MgmtConfig.thy ===== *)
theory MgmtConfig
  imports MgmtPeers MgmtStore
begin

text \<open>
  The configuration of the management layer, \<^verbatim>\<open>src/mgmt/config\<close>. The environment is a function from names to values,
  empty when unset. What \<open>os.ReadFile\<close> and \<open>json.Unmarshal\<close> deliver is the argument \<open>file_read\<close>; the file that
  \<open>saveFile\<close> writes, if any, is part of the result. The outer \<open>None\<close> is a panic (\<open>As4\<close> of an IPv6 subnet).
\<close>

section \<open>Data\<close>

record FileConfig =
  fc_APIEnabled :: "bool option"
  fc_APIPort :: int
  fc_SecretKey :: string
  fc_ListenPort :: int
  fc_Subnet :: string
  fc_ServerIP :: string
  fc_ServerEndpoint :: string
  fc_ServerPublicKey :: string
  fc_DNS :: string
  fc_OutInterface :: string
  fc_KeepaliveInterval :: int
  fc_DBPath :: string
  fc_LogLevel :: string
  fc_SessionIdleSeconds :: int

record Config =
  cfg_Interface :: string
  cfg_ServerEndpoint :: string
  cfg_ServerPublicKey :: string
  cfg_ServerIP :: string
  cfg_Subnet :: string
  cfg_DNS :: string
  cfg_OutInterface :: string
  cfg_ListenPort :: int
  cfg_APIPort :: int
  cfg_APIKey :: string
  cfg_DBPath :: string
  cfg_KeepaliveInterval :: int
  cfg_SessionIdleSeconds :: int
  cfg_LogLevel :: string
  cfg_ConfigPath :: string

datatype config_error = ErrParse | ErrRead | ErrSecret | ErrSave string | ErrSubnetText | ErrNumber string

datatype file_read = ReadFile FileConfig | ReadMalformed | ReadNotExist | ReadError

type_synonym getenv = "string \<Rightarrow> string"

definition DefaultPath :: string where "DefaultPath = ''config.json''"

definition defaultSubnet :: string where "defaultSubnet = ''10.8.0.0/24''"

section \<open>Helpers\<close>

definition Enabled :: "getenv \<Rightarrow> bool" where
  "Enabled getenv = (let v = getenv ''WG_API'' in if v \<noteq> [] then v \<noteq> ''0'' else True)"

definition getEnv :: "getenv \<Rightarrow> string \<Rightarrow> string \<Rightarrow> string" where
  "getEnv getenv key fallback = (let v = getenv key in if v \<noteq> [] then v else fallback)"

fun firstNonEmpty :: "string list \<Rightarrow> string" where
  "firstNonEmpty [] = []"
| "firstNonEmpty (v # vs) = (if v \<noteq> [] then v else firstNonEmpty vs)"

definition enabledFrom :: "getenv \<Rightarrow> FileConfig \<Rightarrow> bool" where
  "enabledFrom getenv file =
     (let v = getenv ''WG_API''
      in if v \<noteq> [] then v \<noteq> ''0'' else case fc_APIEnabled file of Some b \<Rightarrow> b | None \<Rightarrow> True)"

definition defaultServerIP :: "string \<Rightarrow> (config_error + string) option" where
  "defaultServerIP subnet =
     (case ParsePrefix subnet of
        None \<Rightarrow> Some (Inl ErrSubnetText)
      | Some prefx \<Rightarrow> do {
          base \<leftarrow> As4 (fst prefx);
          Some (Inr (Addr_String (Addr4 [base ! 0, base ! 1, base ! 2, 1])))
        })"

definition generateSecretKey :: "rand_read \<Rightarrow> config_error + string" where
  "generateSecretKey rnd = (if \<not> snd rnd then Inl ErrSecret else Inr (hex_encode (fst rnd)))"

text \<open>\<open>strconv.Atoi\<close>, at 64 bits.\<close>

definition Atoi :: "string \<Rightarrow> int option" where
  "Atoi s =
     (case s of
        [] \<Rightarrow> None
      | ch # r \<Rightarrow>
          let (neg, ds) = (if ch = CHR ''-'' then (True, r) else if ch = CHR ''+'' then (False, r) else (False, s))
          in if ds = [] \<or> \<not> list_all is_digit ds then None
             else
               let n = int (decimal_value ds); v = (if neg then - n else n)
               in if - (2 ^ 63) \<le> v \<and> v < 2 ^ 63 then Some v else None)"

definition db_name :: "string \<Rightarrow> string" where
  "db_name iface = ''wireguard-'' @ iface @ ''.db''"

definition number_defaults :: "FileConfig \<Rightarrow> FileConfig" where
  "number_defaults file =
     (let file = (if fc_APIPort file = 0 then file\<lparr>fc_APIPort := 8080\<rparr> else file);
          file = (if fc_ListenPort file = 0 then file\<lparr>fc_ListenPort := 51820\<rparr> else file)
      in if fc_Subnet file = [] then file\<lparr>fc_Subnet := defaultSubnet\<rparr> else file)"

definition text_defaults :: "string \<Rightarrow> FileConfig \<Rightarrow> FileConfig" where
  "text_defaults iface file =
     (let file = (if fc_DNS file = [] then file\<lparr>fc_DNS := ''1.1.1.1''\<rparr> else file);
          file = (if fc_KeepaliveInterval file = 0 then file\<lparr>fc_KeepaliveInterval := 25\<rparr> else file);
          file = (if fc_DBPath file = [] then file\<lparr>fc_DBPath := db_name iface\<rparr> else file)
      in if fc_SessionIdleSeconds file = 0 then file\<lparr>fc_SessionIdleSeconds := 180\<rparr> else file)"

definition applyFileDefaults :: "string \<Rightarrow> FileConfig \<Rightarrow> FileConfig option" where
  "applyFileDefaults iface file =
     (let file = number_defaults file
      in if fc_ServerIP file = [] then do {
           r \<leftarrow> defaultServerIP (fc_Subnet file);
           Some (text_defaults iface (case r of Inr ip \<Rightarrow> file\<lparr>fc_ServerIP := ip\<rparr> | Inl _ \<Rightarrow> file))
         }
         else Some (text_defaults iface file))"

section \<open>Loading\<close>

text \<open>The result and the file written. \<open>save\<close> is the error of writing, if any.\<close>

definition new_file :: "string \<Rightarrow> string \<Rightarrow> string \<Rightarrow> FileConfig" where
  "new_file iface secret serverIP =
     \<lparr>fc_APIEnabled = Some True, fc_APIPort = 8080, fc_SecretKey = secret, fc_ListenPort = 51820, fc_Subnet = defaultSubnet,
      fc_ServerIP = serverIP, fc_ServerEndpoint = [], fc_ServerPublicKey = [], fc_DNS = ''1.1.1.1'', fc_OutInterface = [],
      fc_KeepaliveInterval = 25, fc_DBPath = db_name iface, fc_LogLevel = ''verbose'', fc_SessionIdleSeconds = 180\<rparr>"

definition loadOrCreateFile ::
  "file_read \<Rightarrow> rand_read \<Rightarrow> string option \<Rightarrow> string \<Rightarrow> ((config_error + FileConfig) \<times> FileConfig option) option" where
  "loadOrCreateFile rd rnd save iface =
     (case rd of
        ReadFile file \<Rightarrow>
          (if fc_SecretKey file = [] then
             (case generateSecretKey rnd of
                Inl e \<Rightarrow> Some (Inl e, None)
              | Inr secret \<Rightarrow> do {
                  file \<leftarrow> applyFileDefaults iface (file\<lparr>fc_SecretKey := secret\<rparr>);
                  Some (case save of Some e \<Rightarrow> (Inl (ErrSave e), None) | None \<Rightarrow> (Inr file, Some file))
                })
           else do {
             file \<leftarrow> applyFileDefaults iface file;
             Some (Inr file, None)
           })
      | ReadMalformed \<Rightarrow> Some (Inl ErrParse, None)
      | ReadError \<Rightarrow> Some (Inl ErrRead, None)
      | ReadNotExist \<Rightarrow>
          (case generateSecretKey rnd of
             Inl e \<Rightarrow> Some (Inl e, None)
           | Inr secret \<Rightarrow> do {
               r \<leftarrow> defaultServerIP defaultSubnet;
               Some (case r of
                   Inl e \<Rightarrow> (Inl e, None)
                 | Inr serverIP \<Rightarrow>
                     let file = new_file iface secret serverIP
                     in case save of Some e \<Rightarrow> (Inl (ErrSave e), None) | None \<Rightarrow> (Inr file, Some file))
             }))"

text \<open>A number of the file, its default, and the environment's override.\<close>

definition env_number :: "getenv \<Rightarrow> string \<Rightarrow> int \<Rightarrow> int \<Rightarrow> config_error + int" where
  "env_number getenv name fromFile dflt =
     (let v = getenv name; n = (if fromFile = 0 then dflt else fromFile)
      in if v \<noteq> [] then (case Atoi v of None \<Rightarrow> Inl (ErrNumber name) | Some n \<Rightarrow> Inr n) else Inr n)"

definition load_numbers :: "getenv \<Rightarrow> FileConfig \<Rightarrow> config_error + (int \<times> int \<times> int \<times> int)" where
  "load_numbers getenv file =
     (case env_number getenv ''API_PORT'' (fc_APIPort file) 8080 of
        Inl e \<Rightarrow> Inl e
      | Inr apiPort \<Rightarrow>
          (case env_number getenv ''WG_LISTEN_PORT'' (fc_ListenPort file) 51820 of
             Inl e \<Rightarrow> Inl e
           | Inr listenPort \<Rightarrow>
               (case env_number getenv ''WG_KEEPALIVE_INTERVAL'' (fc_KeepaliveInterval file) 25 of
                  Inl e \<Rightarrow> Inl e
                | Inr keepalive \<Rightarrow>
                    (case env_number getenv ''WG_SESSION_IDLE_SECONDS'' (fc_SessionIdleSeconds file) 180 of
                       Inl e \<Rightarrow> Inl e
                     | Inr sessionIdle \<Rightarrow> Inr (apiPort, listenPort, keepalive, sessionIdle)))))"

definition build_config :: "getenv \<Rightarrow> string \<Rightarrow> FileConfig \<Rightarrow> string \<Rightarrow> string \<Rightarrow> int \<times> int \<times> int \<times> int \<Rightarrow> Config" where
  "build_config getenv iface file subnet serverIP ns =
     (let (apiPort, listenPort, keepalive, sessionIdle) = ns in
      \<lparr>cfg_Interface = iface,
       cfg_ServerEndpoint = firstNonEmpty [getenv ''WG_SERVER_ENDPOINT'', fc_ServerEndpoint file],
       cfg_ServerPublicKey = firstNonEmpty [getenv ''WG_SERVER_PUBLIC_KEY'', fc_ServerPublicKey file],
       cfg_ServerIP = serverIP, cfg_Subnet = subnet,
       cfg_DNS = firstNonEmpty [getenv ''WG_DNS'', fc_DNS file, ''1.1.1.1''],
       cfg_OutInterface = firstNonEmpty [getenv ''WG_OUT_INTERFACE'', fc_OutInterface file],
       cfg_ListenPort = listenPort, cfg_APIPort = apiPort,
       cfg_APIKey = firstNonEmpty [getenv ''API_KEY'', fc_SecretKey file],
       cfg_DBPath = firstNonEmpty [getenv ''DB_PATH'', fc_DBPath file, db_name iface],
       cfg_KeepaliveInterval = keepalive, cfg_SessionIdleSeconds = sessionIdle,
       cfg_LogLevel = firstNonEmpty [getenv ''LOG_LEVEL'', fc_LogLevel file],
       cfg_ConfigPath = getEnv getenv ''WG_CONFIG'' DefaultPath\<rparr>)"

definition Load ::
  "getenv \<Rightarrow> file_read \<Rightarrow> rand_read \<Rightarrow> string option \<Rightarrow> string \<Rightarrow> ((config_error + Config option) \<times> FileConfig option) option" where
  "Load getenv rd rnd save iface =
     do {
       (r, written) \<leftarrow> loadOrCreateFile rd rnd save iface;
       case r of
         Inl e \<Rightarrow> Some (Inl e, written)
       | Inr file \<Rightarrow>
           if \<not> enabledFrom getenv file then Some (Inr None, written)
           else
             let subnet = firstNonEmpty [getenv ''WG_SUBNET'', fc_Subnet file, defaultSubnet];
                 serverIP = firstNonEmpty [getenv ''WG_SERVER_IP'', fc_ServerIP file]
             in do {
               ip \<leftarrow> (if serverIP = [] then defaultServerIP subnet else Some (Inr serverIP));
               Some (case ip of
                   Inl e \<Rightarrow> (Inl e, written)
                 | Inr serverIP \<Rightarrow>
                     (case load_numbers getenv file of
                        Inl e \<Rightarrow> (Inl e, written)
                      | Inr ns \<Rightarrow> (Inr (Some (build_config getenv iface file subnet serverIP ns)), written)))
             }
     }"

section \<open>Lemmas\<close>

lemma firstNonEmpty_Nil [simp]: "firstNonEmpty vs = [] \<longleftrightarrow> (\<forall>v\<in>set vs. v = [])"
  by (induction vs) auto

lemma defaults_secret [simp]: "fc_SecretKey (number_defaults f) = fc_SecretKey f" "fc_SecretKey (text_defaults iface f) = fc_SecretKey f"
  by (simp_all add: number_defaults_def text_defaults_def Let_def)

lemma server_ip_secret [simp]: "fc_SecretKey (case r of Inl _ \<Rightarrow> f | Inr ip \<Rightarrow> f\<lparr>fc_ServerIP := ip\<rparr>) = fc_SecretKey f"
  by (simp split: sum.split)

lemma applyFileDefaults_secret: "applyFileDefaults iface file = Some file' \<Longrightarrow> fc_SecretKey file' = fc_SecretKey file"
  by (auto simp: applyFileDefaults_def Let_def bind_eq_Some_conv split: if_splits)

lemma loaded_secret:
  assumes "loadOrCreateFile rd rnd save iface = Some (Inr file, written)" "fst rnd \<noteq> []"
  shows "fc_SecretKey file \<noteq> []"
proof -
  have h: "hex_encode (fst rnd) \<noteq> []" using assms(2) hex_encode_plain(2) [of "fst rnd"] by auto
  have n: "fc_SecretKey (new_file iface k ip) = k" for k ip by (simp add: new_file_def)
  show ?thesis
  proof (cases rd)
    case (ReadFile f)
    then show ?thesis
      using assms(1) h by (auto simp: loadOrCreateFile_def generateSecretKey_def bind_eq_Some_conv dest!: applyFileDefaults_secret
          split: if_splits option.splits)
  next
    case ReadNotExist
    then obtain r where "(case r of Inl e \<Rightarrow> (Inl e, None) | Inr serverIP \<Rightarrow>
        let file = new_file iface (hex_encode (fst rnd)) serverIP
        in case save of None \<Rightarrow> (Inr file, Some file) | Some e \<Rightarrow> (Inl (ErrSave e), None)) = (Inr file, written)"
      using assms(1) by (auto simp: loadOrCreateFile_def generateSecretKey_def bind_eq_Some_conv split: if_splits)
    then have "\<exists>ip. file = new_file iface (hex_encode (fst rnd)) ip" by (cases r; cases save) (auto simp: Let_def)
    then show ?thesis using h n by auto
  qed (use assms(1) in \<open>simp_all add: loadOrCreateFile_def\<close>)
qed

lemma build_config_key: "fc_SecretKey file \<noteq> [] \<Longrightarrow> cfg_APIKey (build_config getenv iface file subnet serverIP ns) \<noteq> []"
  by (cases ns) (simp add: build_config_def)

lemma Load_key:
  assumes "Load getenv rd rnd save iface = Some (Inr (Some cfg), written)" "fst rnd \<noteq> []"
  shows "cfg_APIKey cfg \<noteq> []"
proof -
  have 1: "pred_option (\<lambda>x. \<forall>f. fst x = Inr f \<longrightarrow> fc_SecretKey f \<noteq> []) (loadOrCreateFile rd rnd save iface)"
    by (rule pred_optionI) (metis loaded_secret [OF _ assms(2)] prod.collapse)
  have "pred_option (\<lambda>x. \<forall>cfg. fst x = Inr (Some cfg) \<longrightarrow> cfg_APIKey cfg \<noteq> []) (Load getenv rd rnd save iface)"
    unfolding Load_def
    by (rule pred_option_bind_pair [OF 1])
       (auto simp: Let_def build_config_key simp del: firstNonEmpty.simps split: sum.split intro!: pred_option_bind_any)
  then show ?thesis using assms(1) by simp
qed

end
