(* ===== verification/MgmtServer.thy ===== *)
theory MgmtServer
  imports MgmtSession MgmtLimiter MgmtConfig
begin

text \<open>
  The HTTP API of the management layer, \<^verbatim>\<open>src/mgmt/api/server.go\<close>. A handler takes what Gin delivers (the bound JSON
  body, \<open>None\<close> when binding failed; the path parameter) and threads the state it shares with the rest of the program:
  the store, the device, the limiter and the session registry. The limiter is any record of the interface \<open>Limiter\<close>.
  \<open>None\<close>: a call to the device waits or panics.
\<close>

section \<open>State, environment, responses\<close>

record 's api_state =
  as_store :: Store
  as_dev :: Device
  as_lim :: 's
  as_reg :: Registry

text \<open>Each call of the store and of the device in a handler has its own environment.\<close>

record api_env =
  ae_crypto :: crypto
  ae_text :: endpoint_text
  ae_store :: store_env
  ae_undo :: store_env
  ae_uapi :: "nat \<Rightarrow> nat \<Rightarrow> uapi_env"
  ae_rand :: rand_read

record UserResponse =
  ur_ID :: string
  ur_Name :: string
  ur_PublicKey :: string
  ur_PrivateKey :: string
  ur_AssignedIP :: string
  ur_BandwidthMbps :: int
  ur_Enabled :: bool
  ur_Config :: string
  ur_CreatedAt :: gotime
  ur_UpdatedAt :: gotime

datatype api_error =
  EUnauthorized | EBind | EBandwidth | EKeys key_text_error | EStore store_error | ENotFound
  | EAddPeer IPCError | EApply limit_error | EUpdateLimit limit_error | EEnable IPCError | EDisable IPCError
  | ERemovePeer IPCError | EPeers peers_error

datatype body =
  ErrorBody api_error | HealthBody | UserBody UserResponse | UsersBody "UserResponse list" | DeletedBody string
  | ConfigBody string string | StatsBody PeerStats

type_synonym response = "nat \<times> body"

definition StatusOK :: nat where "StatusOK = 200"
definition StatusCreated :: nat where "StatusCreated = 201"
definition StatusBadRequest :: nat where "StatusBadRequest = 400"
definition StatusUnauthorized :: nat where "StatusUnauthorized = 401"
definition StatusNotFound :: nat where "StatusNotFound = 404"
definition StatusConflict :: nat where "StatusConflict = 409"
definition StatusInternalServerError :: nat where "StatusInternalServerError = 500"
definition StatusBadGateway :: nat where "StatusBadGateway = 502"

lemmas status_defs = StatusOK_def StatusCreated_def StatusBadRequest_def StatusUnauthorized_def StatusNotFound_def StatusConflict_def
  StatusInternalServerError_def StatusBadGateway_def

section \<open>Responses\<close>

definition buildUserConfig :: "Config \<Rightarrow> User \<Rightarrow> string" where
  "buildUserConfig cfg user =
     BuildClientConfig (u_PrivateKey user) (u_AssignedIP user) (cfg_ServerPublicKey cfg) (cfg_ServerEndpoint cfg) (cfg_DNS cfg)
       (cfg_KeepaliveInterval cfg)"

definition response_key :: "string \<Rightarrow> string" where
  "response_key k = (let b = (case KeyHexToBase64 k of Inl _ \<Rightarrow> [] | Inr b \<Rightarrow> b) in if b = [] then k else b)"

definition toUserResponse :: "Config \<Rightarrow> User \<Rightarrow> UserResponse" where
  "toUserResponse cfg user =
     \<lparr>ur_ID = u_ID user, ur_Name = u_Name user, ur_PublicKey = response_key (u_PublicKey user),
      ur_PrivateKey = response_key (u_PrivateKey user), ur_AssignedIP = u_AssignedIP user, ur_BandwidthMbps = u_BandwidthMbps user,
      ur_Enabled = u_Enabled user, ur_Config = buildUserConfig cfg user, ur_CreatedAt = u_CreatedAt user, ur_UpdatedAt = u_UpdatedAt user\<rparr>"

definition toUserResponses :: "Config \<Rightarrow> User list \<Rightarrow> UserResponse list" where
  "toUserResponses cfg users = map (toUserResponse cfg) users"

definition handleStoreError :: "store_error \<Rightarrow> response" where
  "handleStoreError err =
     (if err = ErrNoRows then (StatusNotFound, ErrorBody ENotFound) else (StatusInternalServerError, ErrorBody (EStore err)))"

section \<open>Handlers\<close>

definition health :: response where
  "health = (StatusOK, HealthBody)"

text \<open>The part of \<open>createUser\<close> after the user was stored: the peer, then the limit, each undone when a later step fails.\<close>

definition provision_user ::
  "'s Limiter \<Rightarrow> Config \<Rightarrow> api_env \<Rightarrow> User \<Rightarrow> 's api_state \<Rightarrow> (response \<times> 's api_state) option" where
  "provision_user L cfg ae user s =
     do {
       (err, dev) \<leftarrow> Manager_AddPeer (ae_crypto ae) (ae_text ae) (ae_uapi ae 0) (u_PublicKey user) (u_AssignedIP user) (as_dev s);
       let s = s\<lparr>as_dev := dev\<rparr>;
       case err of
         Some e \<Rightarrow>
           Some ((StatusBadGateway, ErrorBody (EAddPeer e)), s\<lparr>as_store := snd (Store_Delete (ae_undo ae) (u_ID user) (as_store s))\<rparr>)
       | None \<Rightarrow>
           (case lim_Apply L user (as_lim s) of
              (Some e, lim) \<Rightarrow> do {
                (_, dev) \<leftarrow> Manager_RemovePeer (ae_crypto ae) (ae_text ae) (ae_uapi ae 1) (u_PublicKey user) (as_dev s);
                Some ((StatusInternalServerError, ErrorBody (EApply e)),
                  s\<lparr>as_lim := lim, as_dev := dev, as_store := snd (Store_Delete (ae_undo ae) (u_ID user) (as_store s))\<rparr>)
              }
            | (None, lim) \<Rightarrow> Some ((StatusCreated, UserBody (toUserResponse cfg user)), s\<lparr>as_lim := lim\<rparr>))
     }"

definition createUser ::
  "'s Limiter \<Rightarrow> Config \<Rightarrow> api_env \<Rightarrow> CreateUserInput option \<Rightarrow> 's api_state \<Rightarrow> (response \<times> 's api_state) option" where
  "createUser L cfg ae bound s =
     (case bound of
        None \<Rightarrow> Some ((StatusBadRequest, ErrorBody EBind), s)
      | Some input \<Rightarrow>
          if ci_BandwidthMbps input < 0 then Some ((StatusBadRequest, ErrorBody EBandwidth), s)
          else case GenerateKeyPair (ae_crypto ae) (ae_rand ae) of
              Inl e \<Rightarrow> Some ((StatusInternalServerError, ErrorBody (EKeys e)), s)
            | Inr keys \<Rightarrow> do {
                (r, st) \<leftarrow> Store_Create (ae_store ae) input (kpr_PublicKey keys) (kpr_PrivateKey keys) (as_store s);
                case r of
                  Inl e \<Rightarrow> Some ((StatusConflict, ErrorBody (EStore e)), s\<lparr>as_store := st\<rparr>)
                | Inr user \<Rightarrow> provision_user L cfg ae user (s\<lparr>as_store := st\<rparr>)
              })"

definition listUsers :: "Config \<Rightarrow> api_env \<Rightarrow> 's api_state \<Rightarrow> response" where
  "listUsers cfg ae s =
     (case Store_List (ae_store ae) (as_store s) of
        Inl e \<Rightarrow> (StatusInternalServerError, ErrorBody (EStore e))
      | Inr users \<Rightarrow> (StatusOK, UsersBody (toUserResponses cfg users)))"

definition getUser :: "Config \<Rightarrow> api_env \<Rightarrow> string \<Rightarrow> 's api_state \<Rightarrow> response" where
  "getUser cfg ae i s =
     (case Store_Get (se_err (ae_store ae) 0) i (as_store s) of
        Inl e \<Rightarrow> handleStoreError e
      | Inr user \<Rightarrow> (StatusOK, UserBody (toUserResponse cfg user)))"

text \<open>The last part of \<open>updateUser\<close>: enabling or disabling the peer when the request names the flag.\<close>

definition apply_enabled ::
  "'s Limiter \<Rightarrow> Config \<Rightarrow> api_env \<Rightarrow> UpdateUserInput \<Rightarrow> User \<Rightarrow> 's api_state \<Rightarrow> (response \<times> 's api_state) option" where
  "apply_enabled L cfg ae input user s =
     (if ui_Enabled input = None then Some ((StatusOK, UserBody (toUserResponse cfg user)), s)
      else if u_Enabled user then do {
        (err, dev) \<leftarrow> Manager_AddPeer (ae_crypto ae) (ae_text ae) (ae_uapi ae 0) (u_PublicKey user) (u_AssignedIP user) (as_dev s);
        let s = s\<lparr>as_dev := dev\<rparr>;
        case err of
          Some e \<Rightarrow> Some ((StatusBadGateway, ErrorBody (EEnable e)), s)
        | None \<Rightarrow>
            (case lim_Apply L user (as_lim s) of
               (Some e, lim) \<Rightarrow> Some ((StatusInternalServerError, ErrorBody (EApply e)), s\<lparr>as_lim := lim\<rparr>)
             | (None, lim) \<Rightarrow> Some ((StatusOK, UserBody (toUserResponse cfg user)), s\<lparr>as_lim := lim\<rparr>))
      }
      else do {
        let s = s\<lparr>as_reg := Registry_Clear (u_ID user) (as_reg s)\<rparr>;
        let s = s\<lparr>as_lim := snd (lim_Remove L user (as_lim s))\<rparr>;
        (err, dev) \<leftarrow> Manager_RemovePeer (ae_crypto ae) (ae_text ae) (ae_uapi ae 0) (u_PublicKey user) (as_dev s);
        let s = s\<lparr>as_dev := dev\<rparr>;
        case err of
          Some e \<Rightarrow> Some ((StatusBadGateway, ErrorBody (EDisable e)), s)
        | None \<Rightarrow> Some ((StatusOK, UserBody (toUserResponse cfg user)), s)
      })"

definition updateUser ::
  "'s Limiter \<Rightarrow> Config \<Rightarrow> api_env \<Rightarrow> string \<Rightarrow> UpdateUserInput option \<Rightarrow> 's api_state \<Rightarrow> (response \<times> 's api_state) option" where
  "updateUser L cfg ae i bound s =
     (case bound of
        None \<Rightarrow> Some ((StatusBadRequest, ErrorBody EBind), s)
      | Some input \<Rightarrow>
          if (case ui_BandwidthMbps input of Some b \<Rightarrow> b < 0 | None \<Rightarrow> False) then Some ((StatusBadRequest, ErrorBody EBandwidth), s)
          else
            let (r, st) = Store_Update (ae_store ae) i input (as_store s); s = s\<lparr>as_store := st\<rparr>
            in case r of
                 Inl e \<Rightarrow> Some (handleStoreError e, s)
               | Inr user \<Rightarrow>
                   if ui_BandwidthMbps input \<noteq> None then
                     (case lim_Update L user (as_lim s) of
                        (Some e, lim) \<Rightarrow> Some ((StatusInternalServerError, ErrorBody (EUpdateLimit e)), s\<lparr>as_lim := lim\<rparr>)
                      | (None, lim) \<Rightarrow> apply_enabled L cfg ae input user (s\<lparr>as_lim := lim\<rparr>))
                   else apply_enabled L cfg ae input user s)"

definition deleteUser :: "'s Limiter \<Rightarrow> api_env \<Rightarrow> string \<Rightarrow> 's api_state \<Rightarrow> (response \<times> 's api_state) option" where
  "deleteUser L ae i s =
     (let (r, st) = Store_Delete (ae_store ae) i (as_store s); s = s\<lparr>as_store := st\<rparr>
      in case r of
           Inl e \<Rightarrow> Some (handleStoreError e, s)
         | Inr user \<Rightarrow> do {
             let s = s\<lparr>as_reg := Registry_Clear (u_ID user) (as_reg s)\<rparr>;
             let s = s\<lparr>as_lim := snd (lim_Remove L user (as_lim s))\<rparr>;
             (err, dev) \<leftarrow> Manager_RemovePeer (ae_crypto ae) (ae_text ae) (ae_uapi ae 0) (u_PublicKey user) (as_dev s);
             let s = s\<lparr>as_dev := dev\<rparr>;
             case err of
               Some e \<Rightarrow> Some ((StatusBadGateway, ErrorBody (ERemovePeer e)), s)
             | None \<Rightarrow> Some ((StatusOK, DeletedBody (u_ID user)), s)
           })"

definition getUserConfig :: "Config \<Rightarrow> api_env \<Rightarrow> string \<Rightarrow> 's api_state \<Rightarrow> response" where
  "getUserConfig cfg ae i s =
     (case Store_Get (se_err (ae_store ae) 0) i (as_store s) of
        Inl e \<Rightarrow> handleStoreError e
      | Inr user \<Rightarrow> (StatusOK, ConfigBody (cfg_Interface cfg) (buildUserConfig cfg user)))"

definition getUserStats :: "api_env \<Rightarrow> string \<Rightarrow> 's api_state \<Rightarrow> response" where
  "getUserStats ae i s =
     (case Store_Get (se_err (ae_store ae) 0) i (as_store s) of
        Inl e \<Rightarrow> handleStoreError e
      | Inr user \<Rightarrow>
          (case Manager_PeerStats (ae_text ae) (u_PublicKey user) (as_dev s) of
             Inl e \<Rightarrow> (StatusBadGateway, ErrorBody (EPeers e))
           | Inr stats \<Rightarrow> (StatusOK, StatsBody stats)))"

section \<open>Requests\<close>

datatype request =
  GetHealth | PostUsers "CreateUserInput option" | GetUsers | GetUser string | PatchUser string "UpdateUserInput option"
  | DeleteUser string | GetUserConfig string | GetUserStats string

fun routed ::
  "'s Limiter \<Rightarrow> Config \<Rightarrow> api_env \<Rightarrow> request \<Rightarrow> 's api_state \<Rightarrow> (response \<times> 's api_state) option" where
  "routed L cfg ae GetHealth s = Some (health, s)"
| "routed L cfg ae (PostUsers bound) s = createUser L cfg ae bound s"
| "routed L cfg ae GetUsers s = Some (listUsers cfg ae s, s)"
| "routed L cfg ae (GetUser i) s = Some (getUser cfg ae i s, s)"
| "routed L cfg ae (PatchUser i bound) s = updateUser L cfg ae i bound s"
| "routed L cfg ae (DeleteUser i) s = deleteUser L ae i s"
| "routed L cfg ae (GetUserConfig i) s = Some (getUserConfig cfg ae i s, s)"
| "routed L cfg ae (GetUserStats i) s = Some (getUserStats ae i s, s)"

text \<open>\<open>authMiddleware\<close> in front of the routes; \<open>header\<close> is \<open>X-API-Key\<close>, \<open>query\<close> the parameter \<open>api_key\<close>.\<close>

definition serve ::
  "'s Limiter \<Rightarrow> Config \<Rightarrow> api_env \<Rightarrow> string \<Rightarrow> string \<Rightarrow> request \<Rightarrow> 's api_state \<Rightarrow> (response \<times> 's api_state) option" where
  "serve L cfg ae header query req s =
     (if cfg_APIKey cfg = [] then routed L cfg ae req s
      else
        let key = (if header = [] then query else header)
        in if key \<noteq> cfg_APIKey cfg then Some ((StatusUnauthorized, ErrorBody EUnauthorized), s)
           else routed L cfg ae req s)"

function itoa_loop :: "int \<Rightarrow> string \<Rightarrow> string" where
  "itoa_loop n digits = (if n > 0 then itoa_loop (n div 10) (digit_char (nat (n mod 10)) # digits) else digits)"
  by pat_completeness auto
termination by (relation "measure (\<lambda>(n, _). nat n)") auto

declare itoa_loop.simps [simp del]

definition itoa :: "int \<Rightarrow> string" where
  "itoa n = (if n = 0 then ''0'' else itoa_loop n [])"

definition listen_addr :: "Config \<Rightarrow> string" where
  "listen_addr cfg = '':'' @ itoa (cfg_APIPort cfg)"

text \<open>The hand-written conversion agrees with the decimal numeral of the library for a port number, and is empty below zero.\<close>

lemma itoa_loop_decimal: "0 < n \<Longrightarrow> itoa_loop n digits = decimal (nat n) @ digits"
proof (induction n digits rule: itoa_loop.induct)
  case (1 n digits)
  show ?case
  proof (cases "n < 10")
    case True
    then have "n div 10 = 0" "n mod 10 = n" "nat n < 10" using 1(2) by auto
    then show ?thesis using 1(2) by (simp add: itoa_loop.simps [of n] itoa_loop.simps [of 0] decimal.simps [of "nat n"])
  next
    case False
    then have "0 < n div 10" "nat n div 10 = nat (n div 10)" "nat n mod 10 = nat (n mod 10)" "\<not> nat n < 10" using 1(2) by (auto simp: nat_div_distrib nat_mod_distrib)
    then show ?thesis using 1 by (simp add: itoa_loop.simps [of n] decimal.simps [of "nat n"])
  qed
qed

lemma itoa_decimal: "itoa n = (if n < 0 then [] else decimal_int n)"
proof -
  have "decimal 0 = ''0''" by code_simp
  then show ?thesis using itoa_loop_decimal [of n "[]"] by (simp add: itoa_def decimal_int_def itoa_loop.simps [of n])
qed

section \<open>What the handlers keep\<close>

definition api_inv :: "deviceState \<Rightarrow> 's api_state \<Rightarrow> bool" where
  "api_inv st s \<longleftrightarrow> dev_at st (as_dev s) \<and> store_ok (as_store s)"

lemma api_inv_upd [simp]:
  "api_inv st (s\<lparr>as_lim := l\<rparr>) = api_inv st s" "api_inv st (s\<lparr>as_reg := r\<rparr>) = api_inv st s"
  by (simp_all add: api_inv_def)

lemma api_inv_dev: "api_inv st s \<Longrightarrow> dev_at st d \<Longrightarrow> api_inv st (s\<lparr>as_dev := d\<rparr>)"
  and api_inv_store: "api_inv st s \<Longrightarrow> store_ok t \<Longrightarrow> api_inv st (s\<lparr>as_store := t\<rparr>)"
  and api_invD: "api_inv st s \<Longrightarrow> dev_at st (as_dev s)" "api_inv st s \<Longrightarrow> store_ok (as_store s)"
  by (simp_all add: api_inv_def)

lemma api_inv_AddPeer: "api_inv st s \<Longrightarrow> pred_option (\<lambda>r. dev_at st (snd r)) (Manager_AddPeer c t us pub ip (as_dev s))"
  and api_inv_RemovePeer: "api_inv st s \<Longrightarrow> pred_option (\<lambda>r. dev_at st (snd r)) (Manager_RemovePeer c t us pub (as_dev s))"
  by (simp_all add: Manager_AddPeer_def Manager_RemovePeer_def api_inv_def dev_at_IpcSetOperation)

lemma api_inv_Create: "api_inv st s \<Longrightarrow> pred_option (\<lambda>r. store_ok (snd r)) (Store_Create se input pub priv (as_store s))"
proof -
  assume "api_inv st s"
  then have "store_ok (as_store s)" by (rule api_invD)
  moreover from this obtain base bits where "st_subnet (as_store s) = (Addr4 base, bits)" by (auto simp: store_ok_def)
  ultimately show ?thesis using store_ok_Create [of "as_store s" base bits se input pub priv] by fastforce
qed

lemma api_inv_undo:
  assumes "api_inv st s"
  shows "api_inv st (s\<lparr>as_store := snd (Store_Delete se i (as_store s))\<rparr>)"
  using assms by (intro api_inv_store store_ok_Delete api_invD)

lemma api_inv_provision:
  assumes "api_inv st s"
  shows "pred_option (\<lambda>r. api_inv st (snd r)) (provision_user L cfg ae user s)"
  unfolding provision_user_def Let_def
proof (rule pred_option_bind_pair [OF api_inv_AddPeer [OF assms]])
  fix err and dev :: Device
  define s1 where "s1 = s\<lparr>as_dev := dev\<rparr>"
  assume "dev_at st (snd (err :: IPCError option, dev))"
  then have s1: "api_inv st s1" using api_inv_dev [OF assms, of dev] by (simp add: s1_def)
  have rm: "pred_option (\<lambda>r. api_inv st (snd r)) (do {
      (_, dev) \<leftarrow> Manager_RemovePeer (ae_crypto ae) (ae_text ae) (ae_uapi ae 1) (u_PublicKey user) (as_dev s1);
      Some (resp, s1\<lparr>as_lim := lim, as_dev := dev, as_store := snd (Store_Delete (ae_undo ae) (u_ID user) (as_store s1))\<rparr>) })" for lim and resp :: response
  proof (rule pred_option_bind_pair [OF api_inv_RemovePeer [OF s1]])
    fix x :: "IPCError option" and d assume "dev_at st (snd (x, d))"
    then have "api_inv st (s1\<lparr>as_lim := lim, as_dev := d\<rparr>)" using s1 by (simp add: api_inv_dev)
    from api_inv_undo [OF this, of "ae_undo ae" "u_ID user"]
    show "pred_option (\<lambda>r. api_inv st (snd r)) (Some (resp, s1\<lparr>as_lim := lim, as_dev := d,
        as_store := snd (Store_Delete (ae_undo ae) (u_ID user) (as_store s1))\<rparr>))" by simp
  qed
  show "pred_option (\<lambda>r. api_inv st (snd r)) (case err of
      None \<Rightarrow> (case lim_Apply L user (as_lim (s\<lparr>as_dev := dev\<rparr>)) of
          (None, lim) \<Rightarrow> Some ((StatusCreated, UserBody (toUserResponse cfg user)), s\<lparr>as_dev := dev, as_lim := lim\<rparr>)
        | (Some e, lim) \<Rightarrow> do {
            (_, d) \<leftarrow> Manager_RemovePeer (ae_crypto ae) (ae_text ae) (ae_uapi ae 1) (u_PublicKey user) (as_dev (s\<lparr>as_dev := dev\<rparr>));
            Some ((StatusInternalServerError, ErrorBody (EApply e)), s\<lparr>as_dev := dev, as_lim := lim, as_dev := d,
              as_store := snd (Store_Delete (ae_undo ae) (u_ID user) (as_store (s\<lparr>as_dev := dev\<rparr>)))\<rparr>) })
    | Some e \<Rightarrow> Some ((StatusBadGateway, ErrorBody (EAddPeer e)),
        s\<lparr>as_dev := dev, as_store := snd (Store_Delete (ae_undo ae) (u_ID user) (as_store (s\<lparr>as_dev := dev\<rparr>)))\<rparr>))"
    unfolding s1_def [symmetric] using rm s1 api_inv_undo [OF s1] by (auto split: option.split prod.split)
qed

lemma api_inv_createUser:
  assumes "api_inv st s"
  shows "pred_option (\<lambda>r. api_inv st (snd r)) (createUser L cfg ae bound s)"
  unfolding createUser_def
  by (auto split: option.split sum.split simp: assms
      intro!: pred_option_bind_pair [OF api_inv_Create [OF assms]] api_inv_store [OF assms] api_inv_provision)

lemma api_inv_apply_enabled:
  assumes "api_inv st s"
  shows "pred_option (\<lambda>r. api_inv st (snd r)) (apply_enabled L cfg ae input user s)"
  unfolding apply_enabled_def Let_def
  by (auto intro!: pred_option_if pred_option_bind_pair [OF api_inv_AddPeer [OF assms]] pred_option_bind_pair [OF api_inv_RemovePeer [OF assms]]
      api_inv_dev simp: assms split: option.split prod.split)

lemma api_inv_updateUser:
  assumes "api_inv st s"
  shows "pred_option (\<lambda>r. api_inv st (snd r)) (updateUser L cfg ae i bound s)"
proof -
  have "api_inv st (s\<lparr>as_store := t\<rparr>)" if "Store_Update se j input (as_store s) = (r, t)" for se j input r t
    using store_ok_Update [of "as_store s" se j input] that api_inv_store [OF assms] api_invD(2) [OF assms] by simp
  then show ?thesis
    using assms by (auto simp: updateUser_def Let_def split: option.split prod.split sum.split intro!: api_inv_apply_enabled)
qed

lemma api_inv_deleteUser:
  assumes "api_inv st s"
  shows "pred_option (\<lambda>r. api_inv st (snd r)) (deleteUser L ae i s)"
proof -
  have 1: "api_inv st (s\<lparr>as_store := t\<rparr>)" if "Store_Delete (ae_store ae) i (as_store s) = (r, t)" for r t
    using store_ok_Delete [of "as_store s" "ae_store ae" i] that api_inv_store [OF assms] api_invD(2) [OF assms] by simp
  then show ?thesis
    unfolding deleteUser_def Let_def
    by (auto split: prod.split sum.split option.split intro!: pred_option_bind_pair [OF api_inv_RemovePeer [OF assms]] api_inv_dev)
qed

lemma api_inv_serve:
  assumes "api_inv st s"
  shows "pred_option (\<lambda>r. api_inv st (snd r)) (serve L cfg ae header query req s)"
proof -
  have "pred_option (\<lambda>r. api_inv st (snd r)) (routed L cfg ae req s)"
    by (cases req) (simp_all add: assms api_inv_createUser api_inv_updateUser api_inv_deleteUser)
  then show ?thesis using assms by (simp add: serve_def Let_def)
qed

section \<open>Creating a user\<close>

text \<open>What the handler leaves behind when it creates a user with key \<open>pk\<close> and address \<open>ip\<close>, and when it fails.\<close>

definition user_created :: "NoisePublicKey \<Rightarrow> bytes \<Rightarrow> User \<Rightarrow> 's api_state \<Rightarrow> 's api_state \<Rightarrow> bool" where
  "user_created pk ip user s s' \<longleftrightarrow>
     as_store s' = (as_store s)\<lparr>db_users := db_users (as_store s) @ [row_of user]\<rparr> \<and> u_PublicKey user = hex_encode pk
     \<and> u_AssignedIP user = string4 ip \<and> as_reg s' = as_reg s
     \<and> (\<exists>p. LookupPeer pk (as_dev s') = Some p
         \<and> routes (allowedips (as_dev s')) = (routes (allowedips (as_dev s)))(prefix_route (Addr4 ip, 32) := Some p))
     \<and> (\<forall>k. k \<noteq> pk \<longrightarrow> LookupPeer k (as_dev s') = LookupPeer k (as_dev s))"

definition user_refused :: "bytes \<Rightarrow> 's api_state \<Rightarrow> 's api_state \<Rightarrow> bool" where
  "user_refused ip s s' \<longleftrightarrow> as_store s' = as_store s \<and> as_reg s' = as_reg s
     \<and> (\<forall>k. LookupPeer k (as_dev s') = LookupPeer k (as_dev s))
     \<and> (\<forall>r. r \<noteq> prefix_route (Addr4 ip, 32) \<longrightarrow> routes (allowedips (as_dev s')) r = routes (allowedips (as_dev s)) r)"

lemma provision_user_outcome:
  assumes "dev_inv (as_dev s)" "length pk = 32" "pk \<noteq> sid_publicKey (as_dev s)" "LookupPeer pk (as_dev s) = None"
    and "u_PublicKey user = hex_encode pk" "u_AssignedIP user = string4 ip" "length ip = 4"
    and "u_ID user \<notin> row_id ` set (db_users (as_store s))" "\<forall>n. se_err (ae_undo ae) n = None"
  shows "\<exists>resp s'. provision_user L cfg ae user (s\<lparr>as_store := (as_store s)\<lparr>db_users := db_users (as_store s) @ [row_of user]\<rparr>\<rparr>) = Some (resp, s')
     \<and> (if fst resp = StatusCreated then user_created pk ip user s s' \<and> snd resp = UserBody (toUserResponse cfg user)
        else user_refused ip s s')
     \<and> (\<not> deviceState_isClosed (as_dev s) \<longrightarrow> length (keyMap (as_dev s)) < MaxPeers \<longrightarrow> (\<forall>l. fst (lim_Apply L user l) = None) \<longrightarrow> fst resp = StatusCreated)"
proof (cases "deviceState_isClosed (as_dev s) \<or> length (keyMap (as_dev s)) \<ge> MaxPeers")
  case True
  then show ?thesis
    using AddPeer_new_key [OF assms(1,2,7,3,4), of "ae_crypto ae" "ae_text ae" "ae_uapi ae 0"] Delete_new [OF assms(8,9)]
    by (auto simp: provision_user_def assms(5,6) user_refused_def StatusBadGateway_def StatusCreated_def)
next
  case False
  from AddPeer_new_key [OF assms(1,2,7,3,4), of "ae_crypto ae" "ae_text ae" "ae_uapi ae 0"] False obtain d p where
    a: "Manager_AddPeer (ae_crypto ae) (ae_text ae) (ae_uapi ae 0) (hex_encode pk) (string4 ip) (as_dev s) = Some (None, d)"
    and d: "dev_inv d" "LookupPeer pk d = Some p" "\<forall>k. k \<noteq> pk \<longrightarrow> LookupPeer k d = LookupPeer k (as_dev s)"
      "routes (allowedips d) = (routes (allowedips (as_dev s)))(prefix_route (Addr4 ip, 32) := Some p)" "idle_peer d p"
      "hs_remoteStatic (handshake (peers d p)) = pk" "sid_publicKey d = sid_publicKey (as_dev s)" by auto
  have np: "routes (allowedips (as_dev s)) r \<noteq> Some p" for r by (rule routes_fresh_peer [OF assms(1,4) d(2,3,1)])
  obtain e l where l: "lim_Apply L user (as_lim s) = (e, l)" by fastforce
  show ?thesis
  proof (cases e)
    case None
    then show ?thesis using a l d by (simp add: provision_user_def assms(5,6) user_created_def)
  next
    case (Some x)
    have "pk \<noteq> sid_publicKey d" using assms(3) d(7) by simp
    from RemovePeer_new_key [OF d(1) assms(2) this d(2,6,5), of "ae_crypto ae" "ae_text ae" "ae_uapi ae 1"] obtain d' where
      r: "Manager_RemovePeer (ae_crypto ae) (ae_text ae) (ae_uapi ae 1) (hex_encode pk) d = Some (None, d')" "LookupPeer pk d' = None"
        "\<forall>k. k \<noteq> pk \<longrightarrow> LookupPeer k d' = LookupPeer k d" "\<forall>r. routes (allowedips d) r \<noteq> Some p \<longrightarrow> routes (allowedips d') r = routes (allowedips d) r" by blast
    have "LookupPeer k d' = LookupPeer k (as_dev s)" for k using r(2,3) d(3) assms(4) by (cases "k = pk") simp_all
    moreover have "routes (allowedips d') r = routes (allowedips (as_dev s)) r" if "r \<noteq> prefix_route (Addr4 ip, 32)" for r
      using spec [OF r(4), of r] np that by (simp add: d(4))
    moreover have "\<not> (\<forall>l. fst (lim_Apply L user l) = None)" using l Some by (metis fst_conv option.distinct(1))
    ultimately show ?thesis
      using a l r(1) Some Delete_new [OF assms(8,9)]
      by (simp add: provision_user_def assms(5,6) user_refused_def StatusInternalServerError_def StatusCreated_def)
  qed
qed


lemma createUser_conflict:
  assumes "store_ok (as_store s)" "GenerateKeyPair (ae_crypto ae) (ae_rand ae) = Inr keys" "0 \<le> ci_BandwidthMbps input"
    and "Store_Create (ae_store ae) input (kpr_PublicKey keys) (kpr_PrivateKey keys) (as_store s) = Some (Inl e, st)"
  shows "createUser L cfg ae (Some input) s = Some ((StatusConflict, ErrorBody (EStore e)), s)"
proof -
  obtain net bits where "st_subnet (as_store s) = (Addr4 net, bits)" using assms(1) by (auto simp: store_ok_def)
  then have "st = as_store s" using store_ok_Create [OF assms(1), of net bits "ae_store ae" input "kpr_PublicKey keys" "kpr_PrivateKey keys"] assms(4) by auto
  then show ?thesis using assms(2-4) by (simp add: createUser_def)
qed

lemma createUser_stored:
  assumes "dev_inv (as_dev s)" "store_ok (as_store s)" and "GenerateKeyPair (ae_crypto ae) (ae_rand ae) = Inr keys" "kpr_PublicKey keys = hex_encode pk"
    and "length pk = 32" "pk \<noteq> sid_publicKey (as_dev s)" "LookupPeer pk (as_dev s) = None" "\<forall>n. se_err (ae_undo ae) n = None" "0 \<le> ci_BandwidthMbps input"
    and c: "Store_Create (ae_store ae) input (kpr_PublicKey keys) (kpr_PrivateKey keys) (as_store s) = Some (Inr user, st)"
  shows "\<exists>ip resp s'. length ip = 4 \<and> string4 ip \<notin> row_assigned_ip ` set (db_users (as_store s)) \<and> u_BandwidthMbps user = ci_BandwidthMbps input
        \<and> createUser L cfg ae (Some input) s = Some (resp, s')
        \<and> (if fst resp = StatusCreated then user_created pk ip user s s' \<and> snd resp = UserBody (toUserResponse cfg user) else user_refused ip s s')
        \<and> (\<not> deviceState_isClosed (as_dev s) \<longrightarrow> length (keyMap (as_dev s)) < MaxPeers \<longrightarrow> (\<forall>l. fst (lim_Apply L user l) = None) \<longrightarrow> fst resp = StatusCreated)"
proof -
  obtain net bits where b: "st_subnet (as_store s) = (Addr4 net, bits)" using assms(2) by (auto simp: store_ok_def)
  from store_ok_Create [OF assms(2) b, of "ae_store ae" input "kpr_PublicKey keys" "kpr_PrivateKey keys"] c have
    st: "st = (as_store s)\<lparr>db_users := db_users (as_store s) @ [row_of user]\<rparr>" "u_ID user \<notin> row_id ` set (db_users (as_store s))"
      "u_PublicKey user = hex_encode pk" "u_BandwidthMbps user = ci_BandwidthMbps input"
    and "\<exists>h. u_AssignedIP user = addr_text net h \<and> addr_text net h \<notin> row_assigned_ip ` set (db_users (as_store s))" by (auto simp: assms(4))
  then obtain ip where ip: "u_AssignedIP user = string4 ip" "length ip = 4" "string4 ip \<notin> row_assigned_ip ` set (db_users (as_store s))"
    unfolding addr_text_def by fastforce
  have "createUser L cfg ae (Some input) s = provision_user L cfg ae user (s\<lparr>as_store := st\<rparr>)"
    using assms(3,9) c by (simp add: createUser_def)
  then show ?thesis
    using provision_user_outcome [OF assms(1,5-7) st(3) ip(1,2) st(2) assms(8), of L cfg] ip(2,3) st(4) unfolding st(1) by (intro exI [of _ ip]) simp
qed

context limiter
begin

lemma create_unlimited:
  assumes "dev_inv (as_dev s)" "\<not> deviceState_isClosed (as_dev s)" "length (keyMap (as_dev s)) < MaxPeers"
    and "store_ok (as_store s)" "st_subnet (as_store s) = (Addr4 net, bits)"
    and "2 \<le> h" "h + 2 \<le> 2 ^ (32 - bits)" "addr_text net h \<notin> row_assigned_ip ` set (db_users (as_store s))"
    and "\<forall>n. se_err (ae_store ae) n = None \<and> se_err (ae_undo ae) n = None"
    and "se_uuid (ae_store ae) \<notin> row_id ` set (db_users (as_store s))" "ci_Name input \<notin> row_name ` set (db_users (as_store s))"
    and "GenerateKeyPair (ae_crypto ae) (ae_rand ae) = Inr keys" "kpr_PublicKey keys = hex_encode pk"
    and "hex_encode pk \<notin> row_public_key ` set (db_users (as_store s))"
    and "length pk = 32" "pk \<noteq> sid_publicKey (as_dev s)" "LookupPeer pk (as_dev s) = None" "ci_BandwidthMbps input = 0"
  shows "\<exists>user ip s'. createUser L cfg ae (Some input) s = Some ((StatusCreated, UserBody (toUserResponse cfg user)), s') \<and> user_created pk ip user s s'"
proof -
  obtain u st where c: "Store_Create (ae_store ae) input (kpr_PublicKey keys) (kpr_PrivateKey keys) (as_store s) = Some (Inr u, st)"
    unfolding assms(13) using Create_succeeds [OF assms(4,5) _ _ assms(10,11,14,6,7,8)] assms(9) by blast
  have b: "0 \<le> ci_BandwidthMbps input" using assms(18) by simp
  have "\<forall>n. se_err (ae_undo ae) n = None" using assms(9) by blast
  from createUser_stored [OF assms(1,4,12,13,15-17) this b c, of L cfg] obtain ip resp s' where
    o: "u_BandwidthMbps u = ci_BandwidthMbps input" "createUser L cfg ae (Some input) s = Some (resp, s')"
       "if fst resp = StatusCreated then user_created pk ip u s s' \<and> snd resp = UserBody (toUserResponse cfg u) else user_refused ip s s'"
       "\<not> deviceState_isClosed (as_dev s) \<longrightarrow> length (keyMap (as_dev s)) < MaxPeers \<longrightarrow> (\<forall>l. fst (lim_Apply L u l) = None) \<longrightarrow> fst resp = StatusCreated"
    by blast
  have "fst resp = StatusCreated" using o(1,4) assms(2,3,18) apply_unlimited [of u] by simp
  then show ?thesis using o(2,3) by (cases resp) auto
qed

end


section \<open>Properties\<close>

text \<open>An API state and environment for the witnesses.\<close>

definition example_api :: "tcLimiter api_state" where
  "example_api = \<lparr>as_store = example_store 24 [2, 3], as_dev = example_new, as_lim = new_tcLimiter, as_reg = NewRegistry\<rparr>"

definition example_ae :: api_env where
  "example_ae = \<lparr>ae_crypto = toy_crypto, ae_text = example_text, ae_store = example_senv, ae_undo = example_senv,
     ae_uapi = (\<lambda>_ _. example_uapi), ae_rand = (replicate 32 9, True)\<rparr>"

definition example_user_pk :: NoisePublicKey where
  "example_user_pk = 8 # replicate 30 9 @ [73]"

lemma example_keys:
  "GenerateKeyPair toy_crypto (replicate 32 9, True) = Inr \<lparr>kpr_PrivateKey = hex_encode example_user_pk, kpr_PublicKey = hex_encode example_user_pk\<rparr>"
proof -
  have "(replicate 32 9)[0 := (9 AND 248 :: u8), 31 := (9 AND 127) OR 64] = example_user_pk" "fit 32 example_user_pk = example_user_pk" by code_simp+
  then show ?thesis by (simp add: GenerateKeyPair_def toy_crypto_def Let_def)
qed

lemma example_user_pk_new:
  "length example_user_pk = 32" "example_user_pk \<noteq> sid_publicKey example_new" "LookupPeer example_user_pk example_new = None"
proof -
  have "sid_publicKey example_new = zero_key"
    by (simp add: example_new_def NewDevice_def Rate_Init_def new_ratelimiter_def Let_def NewPeer_def zero_Device_def
        deviceState_isClosed_def MaxPeers_def upd_peer_def timersInit_def upd_timers_def)
  moreover have "example_user_pk \<noteq> zero_key" "example_user_pk \<noteq> example_pk" by code_simp+
  ultimately show "length example_user_pk = 32" "example_user_pk \<noteq> sid_publicKey example_new" "LookupPeer example_user_pk example_new = None"
    by (simp_all add: LookupPeer_def example_new_fields(1)) (simp add: example_user_pk_def)
qed

definition example_cfg :: Config where
  "example_cfg = build_config (\<lambda>_. []) ''wg0'' (new_file ''wg0'' ''secret'' ''10.8.0.1'') defaultSubnet ''10.8.0.1'' (8080, 51820, 25, 180)"







end
