(* ===== verification/Spec2Isabelle.thy ===== *)
theory Spec2Isabelle
  imports Replay Ratelimiter Tai64n AllowedIPs Messages Cookie Noise Sessions Timers Send Nonces Receive
    DeviceOps Life NetText Pools Uapi Runs Checksum Virtio GroWrite BindReceive MgmtPeers MgmtStore MgmtSession MgmtLimiter MgmtConfig MgmtServer
begin

text \<open>
  Verification of \<^verbatim>\<open>wgservermgr\<close>: a userspace WireGuard implementation (the WireGuard-Go sources under \<^verbatim>\<open>src/device\<close>,
  \<^verbatim>\<open>src/replay\<close>, \<^verbatim>\<open>src/ratelimiter\<close>, \<^verbatim>\<open>src/tai64n\<close>, \<^verbatim>\<open>src/tun\<close>, \<^verbatim>\<open>src/conn\<close>) with a management layer on top
  (\<^verbatim>\<open>src/mgmt\<close>): an HTTP API that stores users in SQLite, gives each a key, an address and a bandwidth limit, and
  configures the WireGuard device through its text protocol.

  \<^bold>\<open>How the parts interact.\<close> Packets from the TUN device are looked up in the routing trie (\<open>AllowedIPs\<close>), staged
  at a peer, given a nonce of its current key pair, encrypted and sent (\<open>Send\<close>). Datagrams are sorted by message type
  (\<open>Receive\<close>): handshake messages pass the MAC and cookie checks (\<open>Cookie\<close>) and the rate limiter (\<open>Ratelimiter\<close>) and
  drive the Noise handshake (\<open>Noise\<close>, on the wire format of \<open>Messages\<close>), which creates key pairs and their indices
  (\<open>Sessions\<close>); transport messages are decrypted, checked against the replay filter (\<open>Replay\<close>) and against the routing
  trie, and written to the TUN device. On Linux the TUN device segments large packets it reads (\<open>Virtio\<close>) and coalesces the
  packets written to it (\<open>Gro\<close>), and the bind (\<open>Bind\<close>) packs datagrams for the sockets and splits the ones they deliver. Timers (\<open>Timers\<close>) start handshakes, keepalives and key erasure. Operations of
  the owner (\<open>DeviceOps\<close>, and \<open>Uapi\<close> for the text protocol) create and remove peers and move the device between
  down, up and closed. The management layer sends configuration texts to the device (\<open>MgmtPeers\<close>), keeps the users
  (\<open>MgmtStore\<close>), locks users to one endpoint (\<open>MgmtSession\<close>), runs \<open>tc\<close> (\<open>MgmtLimiter\<close>), reads its configuration
  (\<open>MgmtConfig\<close>) and serves requests (\<open>MgmtServer\<close>).

  \<^bold>\<open>Theories.\<close> Definitions have the names of the Go functions they translate; where a name is taken, the receiver is
  put in front (\<open>Rate_Allow\<close>, \<open>Device_Close\<close>, \<open>Manager_AddPeer\<close>).
    \<^item> \<open>Prelude\<close>: byte strings and their little- and big-endian views, slices, time, the rules for the option monad.
    \<^item> \<open>Replay\<close> (\<^verbatim>\<open>replay/replay.go\<close>): the ring-buffer filter. The locale of its contract is the mathematical sliding
      window; the filter refines it, so no counter is accepted twice.
    \<^item> \<open>Ratelimiter\<close> (\<^verbatim>\<open>ratelimiter/ratelimiter.go\<close>): token buckets and their collection; the number of admitted
      packets in a window of time is bounded, and collection is not observable.
    \<^item> \<open>Tai64n\<close> (\<^verbatim>\<open>tai64n/tai64n.go\<close>): stamps are ordered as their times.
    \<^item> \<open>AllowedIPs\<close> (\<^verbatim>\<open>device/allowedips.go\<close>): the tries and the per-peer lists, refined to a map from prefixes to
      peers; lookup is longest-prefix match after any sequence of operations, and nothing panics.
    \<^item> \<open>NoiseTypes\<close>, \<open>Messages\<close>, \<open>Cookie\<close>, \<open>Noise\<close> (\<^verbatim>\<open>noise-types.go\<close>, \<^verbatim>\<open>noise-helpers.go\<close>, \<^verbatim>\<open>noise-protocol.go\<close>,
      \<^verbatim>\<open>cookie.go\<close>): encodings with their round trips, the cookie exchange, agreement of both ends of a handshake
      on their keys, and that an initiation is accepted once.
    \<^item> \<open>DeviceState\<close>, \<open>Sessions\<close> (\<^verbatim>\<open>device.go\<close>, \<^verbatim>\<open>peer.go\<close>, \<^verbatim>\<open>keypair.go\<close>, \<^verbatim>\<open>indextable.go\<close>): the records of a device. Peers,
      key pairs and queue containers live in heaps addressed by numbers, because the code shares pointers to them. An
      index of the table names one live session.
    \<^item> \<open>Timers\<close>, \<open>Send\<close>, \<open>Receive\<close> (\<^verbatim>\<open>timers.go\<close>, \<^verbatim>\<open>send.go\<close>, \<^verbatim>\<open>receive.go\<close>): each goroutine is a step function, one
      iteration of its loop; events and expirations of timers are functions on the state.
    \<^item> \<open>Nonces\<close>: the pairs of key pair and nonce that are used, waiting in a container or still to be given out are
      disjoint; every outbound operation keeps this.
    \<^item> \<open>DeviceOps\<close>, \<open>Life\<close>, \<open>Uapi\<close>, \<open>Pools\<close> (\<^verbatim>\<open>device.go\<close>, \<^verbatim>\<open>peer.go\<close>, \<^verbatim>\<open>channels.go\<close>, \<^verbatim>\<open>tun.go\<close>, \<^verbatim>\<open>uapi.go\<close>, \<^verbatim>\<open>pools.go\<close>): state
      changes, the bind, peers, keys and the configuration protocol over the text formats of \<open>NetText\<close>. \<open>Life\<close> holds
      the abstract state \<open>life\<close> of a device (state, registrations, routes, running peers) and that each operation
      implements its abstract counterpart; \<open>dev_inv\<close> is the invariant of a device, \<open>dev_at\<close> adds its state.
    \<^item> \<open>Runs\<close>: \<open>dev_step\<close> has one rule per routine and per operation, and \<open>reachable\<close> closes it over all interleavings
      from \<open>NewDevice\<close>; the safety properties are stated over it.
    \<^item> \<open>Checksum\<close>, \<open>Virtio\<close> (\<^verbatim>\<open>tun/checksum.go\<close>, \<^verbatim>\<open>tun/offload_linux.go\<close>, \<^verbatim>\<open>tun/tun_linux.go\<close>): the unrolled checksum is that of RFC
      1071 on machines of either byte order; \<open>gsoSplit\<close> cuts a large packet into packets with the right fields and
      checksums whose data together is that of the packet.
    \<^item> \<open>Gro\<close>, \<open>GroInvariant\<close>, \<open>GroProofs\<close>, \<open>GroWrite\<close> (the rest of \<^verbatim>\<open>tun/offload_linux.go\<close>, \<open>Read\<close> and \<open>Write\<close> of
      \<^verbatim>\<open>tun/tun_linux.go\<close>): coalescing of the packets of a batch. The invariant \<open>gro_inv\<close> says which of the packets each packet
      to be written stands for; nothing is lost, nothing panics, and segmentation undoes coalescing.
    \<^item> \<open>Bind\<close>, \<open>BindSend\<close>, \<open>BindReceive\<close> (\<^verbatim>\<open>conn/bind_std.go\<close>, \<^verbatim>\<open>gso_linux.go\<close>, \<^verbatim>\<open>sticky_linux.go\<close>, \<^verbatim>\<open>errors_linux.go\<close>): the UDP sockets. What
      is sent and received are the buffers and datagrams themselves, whatever is packed together on the way; the loop of \<open>send\<close>
      ends; a bind stays well formed. Three theorems show faults of the code: an IPv6 destination is cut to four bytes after
      a send over IPv4, split datagrams lose their source, and the port \<open>Open\<close> reports is wrong with one address family.
    \<^item> \<open>MgmtStore\<close>, \<open>MgmtPeers\<close>, \<open>MgmtSession\<close>, \<open>MgmtLimiter\<close>, \<open>MgmtConfig\<close>, \<open>MgmtServer\<close>: the packages of \<^verbatim>\<open>src/mgmt\<close>.
      The store keeps users with distinct addresses of its subnet; adding a peer routes exactly the user's address;
      a session moves only when idle; creating a user is all or nothing; the API never answers without its key. The
      interface \<open>Limiter\<close> is the locale \<open>limiter\<close>, interpreted by both implementations.

  \<^bold>\<open>Conventions.\<close> Machine integers are words and wrap; Go's \<open>int\<close> is \<open>int\<close> or \<open>nat\<close> where it cannot overflow, and
  durations and token counts are integers with the 64-bit wrap written out. \<open>None\<close> as the result of a step means that
  the code panics or waits for something that is not there (a full or empty channel, a lock); theorems of the form
  \<open>f x = Some y \<Longrightarrow> \<dots>\<close> speak about the steps that are taken, and where a result is promised its existence is proved. Errors
  are values. Loops over lists are recursive functions; the bit-walk of the trie descends a finite tree; the search for a
  host address and the like, which count a word upwards, are \<open>partial_function\<close>s whose result is proved to exist under
  the invariant, as are the loops over control messages and over \<open>WriteBatch\<close>. The drain of a stopping peer's queues takes the length of the queue as its bound, which is
  enough because nobody appends to them any more.

  \<open>seal_log\<close> and \<open>accept_log\<close> are ghost fields: they record the nonces used and the counters accepted and nothing
  reads them.

  \<^bold>\<open>Parameters.\<close> The record \<open>crypto\<close> stands for BLAKE2s, ChaCha20-Poly1305 and Curve25519, with \<open>crypto_ok\<close> for their
  documented behaviour (sizes, opening what was sealed, commutation); \<open>env\<close> for the clock and random numbers of a step;
  \<open>bind_env\<close> for what the socket layer returns to the device; \<open>cmsg_lib\<close>, \<open>net_env\<close>, \<open>WriteBatch\<close> and \<open>ReadBatch\<close> for the control
  messages and sockets under the bind (\<open>cmsg_ok\<close>, \<open>WriteBatch_progress\<close>, \<open>arrival_ok\<close>: what their manual pages promise); \<open>endpoint_text\<close> for the parser and printer of endpoints; \<open>store_env\<close>
  for clock, identifiers and failures of SQLite; \<open>sys\<close> for the results of commands. Each hypothesis on them is met
  in a witness by a concrete instance.

  \<^bold>\<open>Abstractions.\<close> Channels are lists; a send into a full queue is not blocked but the element count that the code
  itself checks is. Mutexes make the modelled steps atomic. Iteration over Go maps is over association lists in
  insertion order; no theorem depends on the order. IPv6 zones are not represented. Log output is left out.

  \<^bold>\<open>Not modelled.\<close> Socket options, the bind of Windows, creation and events of TUN devices, control sockets
  and named pipes, netlink, poll-based cancellation, the adapter to the gVisor stack, process start-up and logging: they
  are calls into the operating system or a library with no state of their own that the modelled parts rely on beyond
  the parameters above.
\<close>

end
